(* ===== verification/Prelude.thy ===== *)
theory Prelude
  imports Main "HOL-Library.AList" "HOL-Library.Sublist"
begin

text \<open>
  Shared facts of the development: the generic lemmas on lists, association lists and
  \<open>fold\<close> that several components use.

  A Python \<open>dict\<close> is an association list in insertion order: \<open>d[k] = v\<close> is
  \<open>AList.update k v d\<close> (it overwrites in place or appends), \<open>d.pop(k, None)\<close> is
  \<open>AList.delete k d\<close> and \<open>d.get(k)\<close> is \<open>map_of d k\<close>. The locale
  \<open>key_store\<close> states what the components rely on; it is interpreted on these three.
\<close>

subsection \<open>Lists\<close>

lemma take_drop_nth_split:
  "i < length xs \<Longrightarrow> xs = take i xs @ xs ! i # drop (Suc i) xs"
  by (rule id_take_nth_drop)

lemma drop_take_append:
  "i \<le> j \<Longrightarrow> take (j - i) (drop i xs) @ drop j xs = drop i xs"
  by (metis append_take_drop_id drop_drop le_add_diff_inverse2)

lemma last_in_filter:
  "filter P xs \<noteq> [] \<Longrightarrow> last (filter P xs) \<in> set xs \<and> P (last (filter P xs))"
  using last_in_set [of "filter P xs"] by simp

lemma list_all_append_iff: "list_all P (xs @ ys) \<longleftrightarrow> list_all P xs \<and> list_all P ys"
  by simp

text \<open>\<open>xs[lo:hi]\<close> for \<open>0 \<le> lo\<close>; Python clips both bounds as \<open>take\<close> and
  \<open>drop\<close> do.\<close>

definition slice :: "nat \<Rightarrow> nat \<Rightarrow> 'a list \<Rightarrow> 'a list" where
  "slice lo hi xs = take (hi - lo) (drop lo xs)"

lemma slice_Nil [simp]: "slice lo hi [] = []"
  by (simp add: slice_def)

lemma slice_empty [simp]: "hi \<le> lo \<Longrightarrow> slice lo hi xs = []"
  by (simp add: slice_def)

lemma slice_full [simp]: "slice 0 (length xs) xs = xs"
  by (simp add: slice_def)

lemma length_slice: "hi \<le> length xs \<Longrightarrow> length (slice lo hi xs) = hi - lo"
  by (simp add: slice_def)

lemma slice_append:
  assumes "a \<le> b" and "b \<le> c"
  shows "slice a b xs @ slice b c xs = slice a c xs"
proof -
  have "drop b xs = drop (b - a) (drop a xs)" and "c - a = (b - a) + (c - b)"
    using assms by simp_all
  then show ?thesis by (simp only: slice_def take_add)
qed

lemma slice_drop: "length xs \<le> hi \<Longrightarrow> slice lo hi xs = drop lo xs"
  by (simp add: slice_def)

lemma take_slice: "a \<le> b \<Longrightarrow> take a xs @ slice a b xs = take b xs"
  using slice_append [of 0 a b xs] by (simp add: slice_def)

lemma slice_to_end:
  "a \<le> b \<Longrightarrow> slice a b xs @ drop b xs = drop a xs"
  by (simp add: slice_def drop_take_append)

lemma set_slice: "x \<in> set (slice lo hi xs) \<Longrightarrow> x \<in> set xs"
  by (auto simp: slice_def dest: in_set_takeD in_set_dropD)

lemma slice_slice: "j + n \<le> b - a \<Longrightarrow> slice (a + j) (a + j + n) xs = slice j (j + n) (slice a b xs)"
  by (simp add: slice_def drop_take add.commute)

subsection \<open>Dictionaries\<close>

locale key_store =
  fixes get :: "'d \<Rightarrow> 'k \<Rightarrow> 'v option"
    and put :: "'k \<Rightarrow> 'v \<Rightarrow> 'd \<Rightarrow> 'd"
    and del :: "'k \<Rightarrow> 'd \<Rightarrow> 'd"
    and ok :: "'d \<Rightarrow> bool"
  assumes get_put: "get (put k v d) k' = (if k' = k then Some v else get d k')"
    and get_del: "ok d \<Longrightarrow> get (del k d) k' = (if k' = k then None else get d k')"
    and ok_put: "ok d \<Longrightarrow> ok (put k v d)"
    and ok_del: "ok d \<Longrightarrow> ok (del k d)"
begin

text \<open>Writing a list of pairs in order: the last write of a key is the one read back.\<close>

lemma get_put_same: "get (put k v d) k = Some v"
  by (simp add: get_put)

lemma get_puts:
  "get (fold (\<lambda>x. put (key x) (val x)) xs d) k =
    (case filter (\<lambda>x. key x = k) xs of [] \<Rightarrow> get d k
     | y # ys \<Rightarrow> Some (val (last (y # ys))))"
proof (induction xs arbitrary: d)
  case Nil
  then show ?case by simp
next
  case (Cons x xs)
  show ?case
  proof (cases "key x = k")
    case True
    then show ?thesis
      by (cases "filter (\<lambda>y. key y = k) xs") (simp_all add: Cons get_put)
  next
    case False
    then show ?thesis by (auto simp: Cons get_put split: list.split)
  qed
qed

lemma ok_puts: "ok d \<Longrightarrow> ok (fold (\<lambda>x. put (key x) (val x)) xs d)"
  by (induction xs arbitrary: d) (simp_all add: ok_put)

lemma ok_dels: "ok d \<Longrightarrow> ok (fold del ks d)"
  by (induction ks arbitrary: d) (simp_all add: ok_del)

lemma get_dels: "ok d \<Longrightarrow> get (fold del ks d) k = (if k \<in> set ks then None else get d k)"
  by (induction ks arbitrary: d) (auto simp: get_del ok_del)

end

lemma map_of_update: "map_of (AList.update k v d) k' = (if k' = k then Some v else map_of d k')"
  by (simp add: update_conv)

lemma map_of_delete: "map_of (AList.delete k d) k' = (if k' = k then None else map_of d k')"
  by (simp add: delete_conv)

lemma distinct_update_keys:
  "distinct (map fst d) \<Longrightarrow> distinct (map fst (AList.update k v d))"
  by (rule distinct_update)

lemma distinct_delete_keys:
  "distinct (map fst d) \<Longrightarrow> distinct (map fst (AList.delete k d))"
  by (rule distinct_delete)

interpretation pydict: key_store map_of AList.update AList.delete "\<lambda>d. distinct (map fst d)"
  by unfold_locales
    (simp_all add: map_of_update map_of_delete distinct_update distinct_delete)

lemma update_fresh: "k \<notin> fst ` set d \<Longrightarrow> AList.update k v d = d @ [(k, v)]"
  by (induction d) auto

lemma length_update:
  "length (AList.update k v d) = (if k \<in> fst ` set d then length d else Suc (length d))"
  by (induction d) auto

lemma map_of_mem: "distinct (map fst d) \<Longrightarrow> (k, v) \<in> set d \<longleftrightarrow> map_of d k = Some v"
  by (metis map_of_SomeD map_of_is_SomeI)

lemma values_update:
  "distinct (map fst d) \<Longrightarrow> w \<in> snd ` set (AList.update k v d) \<longleftrightarrow>
     w = v \<or> (\<exists>k'. k' \<noteq> k \<and> map_of d k' = Some w)"
proof -
  assume d: "distinct (map fst d)"
  have "w \<in> snd ` set (AList.update k v d) \<longleftrightarrow> (\<exists>k'. map_of (AList.update k v d) k' = Some w)"
    using map_of_mem [OF distinct_update [OF d, of k v]] by force
  then show ?thesis by (auto simp: map_of_update)
qed

end
