(* ===== verification/Fsm.thy ===== *)
theory Fsm
  imports Prelude
begin

text \<open>
  The contract shared by the pure state machines of the program
  (\<open>plugin/framework/service.py\<close>: \<open>BaseState\<close>, \<open>FsmTransition\<close>): a transition
  function takes a state and an event and returns the successor state with the effects the
  caller has to run. \<open>fsm_run\<close> feeds a sequence of events, as the interpreters do, and
  collects the transitions.

  The locale \<open>fsm_safety\<close> is the interface a machine meets when a state invariant and an
  effect condition hold after every step; what it gives for whole runs is proved here once.
  \<open>fsm_latch\<close> adds a condition on states that no event clears.
\<close>

record ('s, 'f) fsm_transition =
  state :: 's
  effects :: "'f list"

fun fsm_run :: "('s \<Rightarrow> 'e \<Rightarrow> ('s, 'f) fsm_transition) \<Rightarrow> 's \<Rightarrow> 'e list \<Rightarrow> ('s, 'f) fsm_transition list"
  where
  "fsm_run nxt s [] = []"
| "fsm_run nxt s (e # es) = (let t = nxt s e in t # fsm_run nxt (state t) es)"

definition fsm_final :: "('s \<Rightarrow> 'e \<Rightarrow> ('s, 'f) fsm_transition) \<Rightarrow> 's \<Rightarrow> 'e list \<Rightarrow> 's" where
  "fsm_final nxt s es = foldl (\<lambda>s e. state (nxt s e)) s es"

lemma length_fsm_run [simp]: "length (fsm_run nxt s es) = length es"
  by (induction es arbitrary: s) (simp_all add: Let_def)

lemma fsm_run_append:
  "fsm_run nxt s (es @ fs) = fsm_run nxt s es @ fsm_run nxt (fsm_final nxt s es) fs"
  by (induction es arbitrary: s) (simp_all add: Let_def fsm_final_def)

lemma fsm_final_Nil [simp]: "fsm_final nxt s [] = s"
  by (simp add: fsm_final_def)

lemma fsm_final_Cons [simp]: "fsm_final nxt s (e # es) = fsm_final nxt (state (nxt s e)) es"
  by (simp add: fsm_final_def)

lemma fsm_final_append:
  "fsm_final nxt s (es @ fs) = fsm_final nxt (fsm_final nxt s es) fs"
  by (simp add: fsm_final_def)

text \<open>Every transition of a run is taken from the state an earlier part of the events
  leads to.\<close>

lemma fsm_run_reached:
  "t \<in> set (fsm_run nxt s es) \<Longrightarrow> \<exists>pre e. t = nxt (fsm_final nxt s pre) e"
proof (induction es arbitrary: s)
  case Nil
  then show ?case by simp
next
  case (Cons e es)
  show ?case
  proof (cases "t = nxt s e")
    case True
    then have "t = nxt (fsm_final nxt s []) e" by simp
    then show ?thesis by blast
  next
    case False
    with Cons.prems have "t \<in> set (fsm_run nxt (state (nxt s e)) es)" by (simp add: Let_def)
    from Cons.IH [OF this] obtain pre e' where
      "t = nxt (fsm_final nxt (state (nxt s e)) pre) e'" by blast
    then have "t = nxt (fsm_final nxt s (e # pre)) e'" by simp
    then show ?thesis by blast
  qed
qed

locale fsm_safety =
  fixes nxt :: "'s \<Rightarrow> 'e \<Rightarrow> ('s, 'f) fsm_transition"
    and inv :: "'s \<Rightarrow> bool"
    and eff_ok :: "'s \<Rightarrow> 'f \<Rightarrow> bool"
  assumes next_inv: "inv s \<Longrightarrow> inv (state (nxt s e))"
    and next_eff: "inv s \<Longrightarrow> f \<in> set (effects (nxt s e)) \<Longrightarrow> eff_ok (state (nxt s e)) f"
begin

lemma final_inv: "inv s \<Longrightarrow> inv (fsm_final nxt s es)"
  by (induction es arbitrary: s) (simp_all add: next_inv)

lemma run_inv: "inv s \<Longrightarrow> t \<in> set (fsm_run nxt s es) \<Longrightarrow> inv (state t)"
  by (auto dest!: fsm_run_reached simp: next_inv final_inv)

lemma run_eff:
  "inv s \<Longrightarrow> t \<in> set (fsm_run nxt s es) \<Longrightarrow> f \<in> set (effects t) \<Longrightarrow> eff_ok (state t) f"
  by (auto dest!: fsm_run_reached simp: next_eff final_inv)

lemma run_safe:
  "inv s \<Longrightarrow> \<forall>t \<in> set (fsm_run nxt s es). inv (state t) \<and> (\<forall>f \<in> set (effects t). eff_ok (state t) f)"
  by (blast intro: run_inv run_eff)

end

locale fsm_latch =
  fixes nxt :: "'s \<Rightarrow> 'e \<Rightarrow> ('s, 'f) fsm_transition"
    and admits :: "'e \<Rightarrow> bool"
    and latched :: "'s \<Rightarrow> bool"
  assumes next_latched: "admits e \<Longrightarrow> latched s \<Longrightarrow> latched (state (nxt s e))"
begin

lemma final_latched:
  "list_all admits es \<Longrightarrow> latched s \<Longrightarrow> latched (fsm_final nxt s es)"
  by (induction es arbitrary: s) (simp_all add: next_latched)

end

text \<open>A latch that also restricts the effects of every step taken from a latched state.\<close>

locale fsm_quiet_latch = fsm_latch nxt admits latched
  for nxt :: "'s \<Rightarrow> 'e \<Rightarrow> ('s, 'f) fsm_transition" and admits and latched :: "'s \<Rightarrow> bool" +
  fixes quiet :: "'f \<Rightarrow> bool"
  assumes next_quiet:
    "admits e \<Longrightarrow> latched s \<Longrightarrow> f \<in> set (effects (nxt s e)) \<Longrightarrow> quiet f"
begin

lemma run_quiet:
  "list_all admits es \<Longrightarrow> latched s \<Longrightarrow> t \<in> set (fsm_run nxt s es) \<Longrightarrow>
     latched (state t) \<and> (\<forall>f \<in> set (effects t). quiet f)"
proof (induction es arbitrary: s)
  case Nil
  then show ?case by simp
next
  case (Cons e es)
  then have e: "admits e" "list_all admits es" and l: "latched (state (nxt s e))"
    by (simp_all add: next_latched)
  from Cons.prems(3) have "t = nxt s e \<or> t \<in> set (fsm_run nxt (state (nxt s e)) es)"
    by (simp add: Let_def)
  with Cons.IH [OF e(2) l] Cons.prems(2) e(1) l show ?case
    by (auto intro: next_quiet)
qed

text \<open>From the event that latches the machine on, the rest of any run is quiet.\<close>

lemma quiet_from:
  assumes "latched (state (nxt (fsm_final nxt s es) e))" and "list_all admits fs"
    and "t \<in> set (drop (Suc (length es)) (fsm_run nxt s (es @ e # fs)))"
  shows "latched (state t) \<and> (\<forall>f \<in> set (effects t). quiet f)"
proof -
  have "drop (Suc (length es)) (fsm_run nxt s (es @ e # fs))
      = fsm_run nxt (state (nxt (fsm_final nxt s es) e)) fs"
    by (simp add: fsm_run_append Let_def)
  with assms show ?thesis using run_quiet by metis
qed

end

subsection \<open>Counting effects over a run\<close>

text \<open>All effects of a run, in order, and the bound a ranking of the states gives: if every
  step that emits \<open>n\<close> effects of a kind lowers the rank by at least \<open>n\<close>, a run emits no
  more of them than the rank of its first state.\<close>

definition run_effects :: "('s \<Rightarrow> 'e \<Rightarrow> ('s, 'f) fsm_transition) \<Rightarrow> 's \<Rightarrow> 'e list \<Rightarrow> 'f list" where
  "run_effects nxt s es = concat (map effects (fsm_run nxt s es))"

lemma run_effects_Nil [simp]: "run_effects nxt s [] = []"
  by (simp add: run_effects_def)

lemma run_effects_Cons [simp]:
  "run_effects nxt s (e # es) = effects (nxt s e) @ run_effects nxt (state (nxt s e)) es"
  by (simp add: run_effects_def Let_def)

locale fsm_ranked =
  fixes nxt :: "'s \<Rightarrow> 'e \<Rightarrow> ('s, 'f) fsm_transition"
    and admits :: "'e \<Rightarrow> bool"
    and inv :: "'s \<Rightarrow> bool"
    and rank :: "'s \<Rightarrow> nat"
    and counted :: "'f \<Rightarrow> bool"
  assumes ranked_inv: "admits e \<Longrightarrow> inv s \<Longrightarrow> inv (state (nxt s e))"
    and ranked_next: "admits e \<Longrightarrow> inv s \<Longrightarrow>
      length (filter counted (effects (nxt s e))) + rank (state (nxt s e)) \<le> rank s"
begin

lemma run_bounded:
  "list_all admits es \<Longrightarrow> inv s \<Longrightarrow> length (filter counted (run_effects nxt s es)) \<le> rank s"
proof (induction es arbitrary: s)
  case Nil
  then show ?case by simp
next
  case (Cons e es)
  then have "admits e" "list_all admits es" "inv (state (nxt s e))"
    by (simp_all add: ranked_inv)
  with Cons.IH [of "state (nxt s e)"] ranked_next [of e s] Cons.prems show ?case
    by simp
qed

end

subsection \<open>Interleavings\<close>

text \<open>Components whose threads interleave are step relations. What holds initially and is kept by every
  step holds in every reachable state; \<open>step_stable\<close> adds a condition that, once it holds, no step
  can undo.\<close>

locale step_invariant =
  fixes init :: "'s \<Rightarrow> bool" and step :: "'s \<Rightarrow> 's \<Rightarrow> bool" and inv :: "'s \<Rightarrow> bool"
  assumes init_inv: "init s \<Longrightarrow> inv s"
    and step_inv: "inv s \<Longrightarrow> step s t \<Longrightarrow> inv t"
begin

lemma steps_inv: "step\<^sup>*\<^sup>* s t \<Longrightarrow> inv s \<Longrightarrow> inv t"
  by (induction rule: rtranclp_induct) (simp_all add: step_inv)

lemma reach_inv: "init s \<Longrightarrow> step\<^sup>*\<^sup>* s t \<Longrightarrow> inv t"
  by (blast intro: init_inv steps_inv)

end

locale step_stable = step_invariant init step inv
  for init :: "'s \<Rightarrow> bool" and step and inv +
  fixes stable :: "'s \<Rightarrow> bool"
  assumes stable_step: "inv s \<Longrightarrow> stable s \<Longrightarrow> step s t \<Longrightarrow> stable t"
begin

lemma stable_steps: "step\<^sup>*\<^sup>* s t \<Longrightarrow> inv s \<Longrightarrow> stable s \<Longrightarrow> stable t"
proof (induction rule: rtranclp_induct)
  case (step t u)
  then show ?case using steps_inv stable_step by blast
qed

end

end
