(* ===== verification/PyStr.thy ===== *)
theory PyStr
  imports Prelude "HOL-Library.Char_ord" "HOL-Library.List_Lexorder"
begin

text \<open>
  Python strings as lists of code points, with the methods of \<open>str\<close> the modelled code
  calls: \<open>startswith\<close>, \<open>find\<close>, \<open>replace\<close>, \<open>strip\<close>, \<open>split\<close>, \<open>join\<close> and the
  decimal rendering and parsing of integers. A literal is written \<open>u ''abc''\<close>; a code
  point beyond ASCII is appended as a number. Comparison of lists (\<open>List_Lexorder\<close>) is
  Python's comparison of strings by code point.
\<close>

type_synonym pystr = "nat list"

definition u :: "string \<Rightarrow> pystr" where
  "u s = map of_char s"

lemma u_eq_iff [simp]: "u s = u t \<longleftrightarrow> s = t"
  by (simp add: u_def inj_map_eq_map [OF inj_of_char])

lemma u_Nil_iff [simp]: "u s = [] \<longleftrightarrow> s = []" "[] = u s \<longleftrightarrow> s = []"
  by (simp_all add: u_def)

lemma u_append: "u (s @ t) = u s @ u t"
  by (simp add: u_def)

lemma length_u [simp]: "length (u s) = length s"
  by (simp add: u_def)

definition nl :: pystr where
  "nl = [10]"

subsection \<open>Characters\<close>

text \<open>\<open>str.isspace\<close> of one code point: Unicode's bidirectional types WS, B, S and the
  category Zs.\<close>

definition is_space :: "nat \<Rightarrow> bool" where
  "is_space c \<longleftrightarrow> (9 \<le> c \<and> c \<le> 13) \<or> (28 \<le> c \<and> c \<le> 32) \<or> c = 0x85 \<or> c = 0xA0 \<or> c = 0x1680
     \<or> (0x2000 \<le> c \<and> c \<le> 0x200A) \<or> c = 0x2028 \<or> c = 0x2029 \<or> c = 0x202F \<or> c = 0x205F
     \<or> c = 0x3000"

definition is_digit :: "nat \<Rightarrow> bool" where
  "is_digit c \<longleftrightarrow> 48 \<le> c \<and> c \<le> 57"

definition is_upper :: "nat \<Rightarrow> bool" where
  "is_upper c \<longleftrightarrow> 65 \<le> c \<and> c \<le> 90"

definition is_lower :: "nat \<Rightarrow> bool" where
  "is_lower c \<longleftrightarrow> 97 \<le> c \<and> c \<le> 122"

text \<open>\<open>upper\<close> and \<open>lower\<close> on ASCII strings, which is where the modelled code applies
  them; other code points are left alone.\<close>

definition upper :: "pystr \<Rightarrow> pystr" where
  "upper s = map (\<lambda>c. if is_lower c then c - 32 else c) s"

definition lower :: "pystr \<Rightarrow> pystr" where
  "lower s = map (\<lambda>c. if is_upper c then c + 32 else c) s"

lemma length_upper [simp]: "length (upper s) = length s"
  by (simp add: upper_def)

lemma upper_upper [simp]: "upper (upper s) = upper s"
  by (auto simp: upper_def is_lower_def)

lemma upper_id: "list_all (\<lambda>c. \<not> is_lower c) s \<Longrightarrow> upper s = s"
  by (induction s) (auto simp: upper_def)

lemma upper_append: "upper (s @ t) = upper s @ upper t"
  by (simp add: upper_def)

lemma digit_not_lower: "is_digit c \<Longrightarrow> \<not> is_lower c"
  by (simp add: is_digit_def is_lower_def)

lemma upper_not_lower: "is_upper c \<Longrightarrow> \<not> is_lower c"
  by (simp add: is_upper_def is_lower_def)

lemma digit_not_upper: "is_digit c \<Longrightarrow> \<not> is_upper c"
  by (simp add: is_digit_def is_upper_def)

lemma digit_not_space: "is_digit c \<Longrightarrow> \<not> is_space c"
  by (simp add: is_digit_def is_space_def)

lemma upper_not_space: "is_upper c \<Longrightarrow> \<not> is_space c"
  by (simp add: is_upper_def is_space_def)

subsection \<open>Stripping\<close>

definition lstrip :: "pystr \<Rightarrow> pystr" where
  "lstrip s = dropWhile is_space s"

definition rstrip :: "pystr \<Rightarrow> pystr" where
  "rstrip s = rev (dropWhile is_space (rev s))"

definition strip :: "pystr \<Rightarrow> pystr" where
  "strip s = rstrip (lstrip s)"

lemma strip_id: "list_all (\<lambda>c. \<not> is_space c) s \<Longrightarrow> strip s = s"
proof -
  assume a: "list_all (\<lambda>c. \<not> is_space c) s"
  then have "dropWhile is_space s = s" by (cases s) simp_all
  moreover from a have "dropWhile is_space (rev s) = rev s"
    by (cases "rev s") (auto simp: list_all_iff simp flip: set_rev [of s])
  ultimately show ?thesis by (simp add: strip_def lstrip_def rstrip_def)
qed

lemma strip_Nil [simp]: "strip [] = []"
  by (simp add: strip_def lstrip_def rstrip_def)

text \<open>From both ends, and what stripping keeps.\<close>

definition drop_last_while :: "('a \<Rightarrow> bool) \<Rightarrow> 'a list \<Rightarrow> 'a list" where
  "drop_last_while P xs = rev (dropWhile P (rev xs))"

lemma strip_is_drops: "strip s = drop_last_while is_space (dropWhile is_space s)"
  by (simp add: strip_def lstrip_def rstrip_def drop_last_while_def)

lemma drop_last_while_id: "xs = [] \<or> \<not> P (last xs) \<Longrightarrow> drop_last_while P xs = xs"
  by (cases xs rule: rev_cases) (simp_all add: drop_last_while_def)

lemma drop_last_while_append: "\<not> P (last ys) \<Longrightarrow> ys \<noteq> [] \<Longrightarrow> drop_last_while P (ys @ xs) = ys @ drop_last_while P xs"
  by (cases ys rule: rev_cases) (auto simp: drop_last_while_def dropWhile_append)

lemma set_drop_last_while: "set (drop_last_while P xs) \<subseteq> set xs"
  unfolding drop_last_while_def by (auto dest: set_dropWhileD)

lemma set_strip: "set (strip s) \<subseteq> set s"
  unfolding strip_is_drops using set_drop_last_while set_dropWhileD by fastforce

lemma strip_ends: "s = [] \<or> \<not> is_space (hd s) \<and> \<not> is_space (last s) \<Longrightarrow> strip s = s"
  by (cases s) (simp_all add: strip_is_drops drop_last_while_id)

lemma strip_append: "a \<noteq> [] \<Longrightarrow> \<not> is_space (hd a) \<Longrightarrow> \<not> is_space (last a) \<Longrightarrow> strip (a @ r) = a @ drop_last_while is_space r"
  using drop_last_while_append [of is_space a r] by (cases a) (simp_all add: strip_is_drops)

lemma strip_hd: "r = [] \<or> \<not> is_space (hd r) \<Longrightarrow> strip r = drop_last_while is_space r"
  by (cases r) (simp_all add: strip_is_drops)

lemma drop_last_while_idem: "drop_last_while P (drop_last_while P xs) = drop_last_while P xs"
  by (simp add: drop_last_while_def)

lemma strip_strip: "strip (strip s) = strip s"
proof (cases "dropWhile is_space s")
  case Nil
  then have "strip s = []" by (simp only: strip_is_drops drop_last_while_def rev.simps dropWhile.simps)
  then show ?thesis by simp
next
  case (Cons c t)
  then have c: "\<not> is_space c" by (metis hd_dropWhile list.distinct(1) list.sel(1))
  have "strip s = c # drop_last_while is_space t"
    using drop_last_while_append [of is_space "[c]" t] c by (simp add: strip_is_drops Cons)
  then show ?thesis using drop_last_while_append [of is_space "[c]"] c
    by (simp add: strip_is_drops drop_last_while_idem)
qed

subsection \<open>Searching and replacing\<close>

text \<open>\<open>s.find(p)\<close>; \<open>None\<close> is Python's \<open>-1\<close>.\<close>

fun find_sub :: "pystr \<Rightarrow> pystr \<Rightarrow> nat option" where
  "find_sub p [] = (if p = [] then Some 0 else None)"
| "find_sub p (c # cs) =
     (if prefix p (c # cs) then Some 0 else map_option Suc (find_sub p cs))"

text \<open>\<open>s.find(p, i)\<close>: the index is the one in \<open>s\<close>, and a start past the end finds
  nothing, not even the empty string.\<close>

definition find_from :: "pystr \<Rightarrow> pystr \<Rightarrow> nat \<Rightarrow> nat option" where
  "find_from p s i = (if i \<le> length s then map_option ((+) i) (find_sub p (drop i s)) else None)"

definition contains :: "pystr \<Rightarrow> pystr \<Rightarrow> bool" where
  "contains s p \<longleftrightarrow> find_sub p s \<noteq> None"

lemma find_sub_Some:
  "find_sub p s = Some j \<Longrightarrow> j \<le> length s \<and> take (length p) (drop j s) = p"
proof (induction p s arbitrary: j rule: find_sub.induct)
  case (1 p)
  then show ?case by (simp split: if_splits)
next
  case (2 p c cs)
  show ?case
  proof (cases "prefix p (c # cs)")
    case True
    with 2 show ?thesis by (auto elim: prefixE)
  next
    case False
    with 2 show ?thesis by auto
  qed
qed

lemma take_length_prefix: "take (length p) s = p \<Longrightarrow> prefix p s"
  by (metis take_is_prefix)

lemma find_sub_least:
  "find_sub p s = Some j \<Longrightarrow> i < j \<Longrightarrow> take (length p) (drop i s) \<noteq> p"
proof (induction p s arbitrary: i j rule: find_sub.induct)
  case (1 p)
  then show ?case by (simp split: if_splits)
next
  case (2 p c cs)
  then have np: "\<not> prefix p (c # cs)" and "find_sub p cs = Some (j - 1)" and "0 < j"
    by (auto split: if_splits)
  show ?case
  proof (cases i)
    case 0
    with np show ?thesis using take_length_prefix [of p "c # cs"] by auto
  next
    case (Suc k)
    with \<open>find_sub p cs = Some (j - 1)\<close> \<open>i < j\<close> np show ?thesis
      using "2.IH" [of "j - 1" k] by simp
  qed
qed

lemma find_sub_None:
  "find_sub p s = None \<Longrightarrow> take (length p) (drop i s) \<noteq> p"
proof (induction p s arbitrary: i rule: find_sub.induct)
  case (1 p)
  then show ?case by (simp split: if_splits)
next
  case (2 p c cs)
  then have np: "\<not> prefix p (c # cs)" and "find_sub p cs = None"
    by (auto split: if_splits)
  show ?case
  proof (cases i)
    case 0
    with np show ?thesis using take_length_prefix [of p "c # cs"] by auto
  next
    case (Suc k)
    with \<open>find_sub p cs = None\<close> np show ?thesis using "2.IH" [of k] by simp
  qed
qed

lemma find_from_Some:
  "find_from p s i = Some j \<Longrightarrow> i \<le> j \<and> j + length p \<le> length s \<and> slice j (j + length p) s = p"
proof -
  assume a: "find_from p s i = Some j"
  then obtain k where k: "find_sub p (drop i s) = Some k" "j = i + k" "i \<le> length s"
    by (auto simp: find_from_def split: if_splits)
  from find_sub_Some [OF k(1)] have t: "take (length p) (drop j s) = p" "k \<le> length s - i"
    by (simp_all add: k(2) add.commute)
  moreover from arg_cong [OF t(1), of length] have "length p \<le> length s - j" by simp
  moreover have "j \<le> length s" using k(2,3) t(2) by simp
  ultimately show ?thesis using k(2) by (simp add: slice_def)
qed

lemma find_from_least:
  "find_from p s i = Some j \<Longrightarrow> i \<le> k \<Longrightarrow> k < j \<Longrightarrow> slice k (k + length p) s \<noteq> p"
proof -
  assume a: "find_from p s i = Some j" and k: "i \<le> k" "k < j"
  then have "find_sub p (drop i s) = Some (j - i)"
    by (auto simp: find_from_def split: if_splits)
  moreover have "k - i < j - i" using k by simp
  ultimately have "take (length p) (drop (k - i) (drop i s)) \<noteq> p"
    by (rule find_sub_least)
  with k show ?thesis by (simp add: slice_def)
qed

lemma find_from_None:
  "find_from p s i = None \<Longrightarrow> i \<le> k \<Longrightarrow> k \<le> length s \<Longrightarrow> slice k (k + length p) s \<noteq> p"
  using find_sub_None [of p "drop i s" "k - i"]
  by (auto simp: find_from_def slice_def split: if_splits)

text \<open>\<open>s.replace(old, new)\<close>. The code never replaces the empty string; for it Python
  inserts \<open>new\<close> around every character.\<close>

function replace_all :: "pystr \<Rightarrow> pystr \<Rightarrow> pystr \<Rightarrow> pystr" where
  "replace_all old new s =
     (if old = [] then new @ concat (map (\<lambda>c. c # new) s)
      else case s of [] \<Rightarrow> []
        | c # cs \<Rightarrow> if prefix old (c # cs)
                   then new @ replace_all old new (drop (length old) (c # cs))
                   else c # replace_all old new cs)"
  by pat_completeness auto
termination
  by (relation "measure (\<lambda>(old, new, s). length s)") auto

declare replace_all.simps [simp del]

lemma replace_all_Nil [simp]: "old \<noteq> [] \<Longrightarrow> replace_all old new [] = []"
  by (simp add: replace_all.simps)

lemma replace_all_Cons:
  "old \<noteq> [] \<Longrightarrow> replace_all old new (c # cs) =
     (if prefix old (c # cs) then new @ replace_all old new (drop (length old) (c # cs))
      else c # replace_all old new cs)"
  by (subst replace_all.simps) simp

text \<open>Replacing one character by another, or deleting it, is a map or a filter.\<close>

lemma replace_char: "replace_all [a] [b] s = map (\<lambda>c. if c = a then b else c) s"
  by (induction s) (auto simp: replace_all_Cons)

lemma delete_char: "replace_all [a] [] s = filter (\<lambda>c. c \<noteq> a) s"
  by (induction s) (auto simp: replace_all_Cons)

text \<open>Where the old text does not occur, replacing changes nothing.\<close>

lemma prefix_slice: "prefix p (drop k s) \<longleftrightarrow> slice k (k + length p) s = p"
  by (auto simp: slice_def prefix_def) (metis append_take_drop_id)

lemma replace_all_skip:
  assumes "p \<noteq> []" and "i \<le> j" and "j \<le> length s"
    and "\<And>k. i \<le> k \<Longrightarrow> k < j \<Longrightarrow> slice k (k + length p) s \<noteq> p"
  shows "replace_all p t (drop i s) = slice i j s @ replace_all p t (drop j s)"
  using assms(2-4)
proof (induction "j - i" arbitrary: i)
  case 0
  then show ?case by simp
next
  case (Suc n)
  then have ij: "i < j" "i < length s" by simp_all
  have "\<not> prefix p (drop i s)" using Suc.prems(3) [of i] ij by (simp add: prefix_slice)
  then have "replace_all p t (drop i s) = s ! i # replace_all p t (drop (Suc i) s)"
    using assms(1) ij by (simp add: Cons_nth_drop_Suc [symmetric] replace_all_Cons)
  moreover have "replace_all p t (drop (Suc i) s) = slice (Suc i) j s @ replace_all p t (drop j s)"
    by (rule Suc.hyps(1)) (use Suc ij in simp_all)
  moreover have "slice i j s = s ! i # slice (Suc i) j s"
    using ij by (simp add: slice_def Cons_nth_drop_Suc [symmetric] take_Cons' numeral_eq_Suc)
  ultimately show ?case by simp
qed

lemma replace_all_id:
  assumes "p \<noteq> []" and "\<And>k. k \<le> length s \<Longrightarrow> slice k (k + length p) s \<noteq> p"
  shows "replace_all p t s = s"
  using replace_all_skip [of p 0 "length s" s t] assms by simp

lemma replace_all_absent:
  assumes "c \<in> set p" and "c \<notin> set s"
  shows "replace_all p t s = s"
proof (rule replace_all_id)
  show "p \<noteq> []" using assms(1) by auto
  show "slice k (k + length p) s \<noteq> p" for k using assms set_slice by metis
qed

subsection \<open>Splitting and joining\<close>

fun split_on :: "nat \<Rightarrow> pystr \<Rightarrow> pystr list" where
  "split_on sep [] = [[]]"
| "split_on sep (c # cs) =
     (if c = sep then [] # split_on sep cs
      else case split_on sep cs of [] \<Rightarrow> [[c]] | x # xs \<Rightarrow> (c # x) # xs)"

fun join :: "pystr \<Rightarrow> pystr list \<Rightarrow> pystr" where
  "join sep [] = []"
| "join sep [x] = x"
| "join sep (x # y # xs) = x @ sep @ join sep (y # xs)"

lemma split_on_ne [simp]: "split_on sep s \<noteq> []"
  by (induction s) (auto split: list.split)

lemma join_Cons_ne: "xs \<noteq> [] \<Longrightarrow> join sep (x # xs) = x @ sep @ join sep xs"
  by (cases xs) simp_all

lemma join_cons_head: "join sep ((c # x) # xs) = c # join sep (x # xs)"
  by (cases xs) simp_all

lemma join_split_on: "join [sep] (split_on sep s) = s"
proof (induction s)
  case Nil
  then show ?case by simp
next
  case (Cons c cs)
  obtain x xs where "split_on sep cs = x # xs" by (cases "split_on sep cs") auto
  with Cons show ?case by (simp add: join_cons_head)
qed

lemma split_on_append_sep: "split_on c (a @ c # b) = split_on c a @ split_on c b"
proof (induction a)
  case Nil
  then show ?case by simp
next
  case (Cons x a)
  obtain y ys where "split_on c a = y # ys" by (cases "split_on c a") auto
  with Cons show ?case by simp
qed

lemma split_on_absent: "c \<notin> set a \<Longrightarrow> split_on c a = [a]"
  by (induction a) auto

lemma split_on_join: "xs \<noteq> [] \<Longrightarrow> (\<And>x. x \<in> set xs \<Longrightarrow> sep \<notin> set x) \<Longrightarrow> split_on sep (join [sep] xs) = xs"
proof (induction xs)
  case (Cons x xs)
  then show ?case by (cases xs) (simp_all add: split_on_append_sep split_on_absent)
qed simp

lemma split_on_no_sep: "x \<in> set (split_on sep s) \<Longrightarrow> sep \<notin> set x"
proof (induction s arbitrary: x)
  case Nil
  then show ?case by simp
next
  case (Cons c cs)
  obtain y ys where "split_on sep cs = y # ys" by (cases "split_on sep cs") auto
  with Cons show ?case by (auto split: if_splits)
qed

subsection \<open>Decimal integers\<close>

fun dec_digits :: "nat \<Rightarrow> pystr" where
  "dec_digits n = (if n < 10 then [48 + n] else dec_digits (n div 10) @ [48 + n mod 10])"

declare dec_digits.simps [simp del]

definition str_of_int :: "int \<Rightarrow> pystr" where
  "str_of_int i = (if i < 0 then 45 # dec_digits (nat (- i)) else dec_digits (nat i))"

definition dec_val :: "pystr \<Rightarrow> nat" where
  "dec_val s = foldl (\<lambda>a c. 10 * a + (c - 48)) 0 s"

lemma dec_val_snoc [simp]: "dec_val (s @ [c]) = 10 * dec_val s + (c - 48)"
  by (simp add: dec_val_def)

lemma dec_val_digits [simp]: "dec_val (dec_digits n) = n"
proof (induction n rule: dec_digits.induct)
  case (1 n)
  show ?case
  proof (cases "n < 10")
    case True
    then show ?thesis by (subst dec_digits.simps) (simp add: dec_val_def)
  next
    case False
    with 1 show ?thesis by (subst dec_digits.simps) simp
  qed
qed

lemma dec_digits_ne [simp]: "dec_digits n \<noteq> []"
  by (subst dec_digits.simps) simp

lemma dec_digits_digit: "list_all is_digit (dec_digits n)"
proof (induction n rule: dec_digits.induct)
  case (1 n)
  show ?case
  proof (cases "n < 10")
    case True
    then show ?thesis by (subst dec_digits.simps) (simp add: is_digit_def)
  next
    case False
    have "n mod 10 < 10" by simp
    then have "is_digit (48 + n mod 10)" unfolding is_digit_def by linarith
    with False 1 show ?thesis by (subst dec_digits.simps) simp
  qed
qed

lemma dec_digits_inj: "dec_digits m = dec_digits n \<longleftrightarrow> m = n"
  by (metis dec_val_digits)

text \<open>\<open>int(s)\<close> for a string: optional sign, ASCII digits with single underscores between
  them, surrounding whitespace ignored; \<open>None\<close> is the \<open>ValueError\<close>.\<close>

fun digits_ok :: "bool \<Rightarrow> pystr \<Rightarrow> bool" where
  "digits_ok prev [] = prev"
| "digits_ok prev (c # cs) =
     (if is_digit c then digits_ok True cs else if c = 95 \<and> prev then digits_ok False cs else False)"

definition parse_int :: "pystr \<Rightarrow> int option" where
  "parse_int s =
     (let t = strip s;
          neg = (t \<noteq> [] \<and> hd t = 45);
          body = (if t \<noteq> [] \<and> (hd t = 45 \<or> hd t = 43) then tl t else t);
          n = int (dec_val (filter is_digit body))
      in if digits_ok False body then Some (if neg then - n else n) else None)"

lemma digits_ok_digits: "list_all is_digit s \<Longrightarrow> digits_ok p s = (p \<or> s \<noteq> [])"
  by (induction s arbitrary: p) auto

lemma filter_digits: "list_all is_digit s \<Longrightarrow> filter is_digit s = s"
  by (induction s) auto

text \<open>Reading back what \<open>str\<close> printed.\<close>

lemma parse_int_str: "parse_int (str_of_int i) = Some i"
proof -
  let ?d = "dec_digits (nat \<bar>i\<bar>)"
  have d: "list_all is_digit ?d" "?d \<noteq> []" by (simp_all add: dec_digits_digit)
  have "list_all (\<lambda>c. \<not> is_space c) (str_of_int i)"
    using d(1) dec_digits_digit [of "nat i"] dec_digits_digit [of "nat (- i)"]
    by (auto simp: str_of_int_def list_all_iff is_digit_def is_space_def)
  then have "strip (str_of_int i) = str_of_int i" by (rule strip_id)
  moreover from d hd_in_set [OF d(2)] have "is_digit (hd ?d)" by (auto simp: list_all_iff)
  then have "hd ?d \<noteq> 45" "hd ?d \<noteq> 43" by (auto simp: is_digit_def)
  ultimately show ?thesis using d
    by (auto simp: parse_int_def str_of_int_def Let_def digits_ok_digits filter_digits dec_digits_digit)
qed

end
