(* ===== verification/SendButton.thy ===== *)
theory SendButton
  imports Fsm PyStr
begin

text \<open>
  The send button of the chat sidebar (\<open>plugin/chatbot/send_state.py\<close>): its state, its events,
  the effects the panel interprets, and the transition function \<open>next_state\<close>, one definition
  per event branch. The theorems show that the button never records while it is busy, what the
  enabled buttons say of the state, when a send starts and that every press is answered.
\<close>

subsection \<open>State, events, effects\<close>

record send_button_state =
  is_busy :: bool
  is_recording :: bool
  has_text :: bool
  has_audio :: bool
  audio_supported :: bool

text \<open>An event of the code is a kind and an optional dict; only \<open>TEXT_UPDATED\<close> reads the
  dict, and there only \<open>has_text\<close>, with \<open>False\<close> for a missing key.\<close>

datatype send_event =
    TextUpdated "bool option"
  | RecordClicked
  | StopRecClicked
  | SendClicked
  | StopClicked
  | SendCompleted
  | ErrorOccurred

datatype send_effect =
    UpdateUI (send_enabled: bool) (stop_enabled: bool) (send_label: pystr) (status_text: pystr)
  | StartRecording
  | StopRecording
  | StartSend
  | StopSend

type_synonym send_transition = "(send_button_state, send_effect) fsm_transition"

definition get_send_label :: "send_button_state \<Rightarrow> pystr" where
  "get_send_label s =
     (if is_recording s then u ''Stop Rec''
      else if has_text s \<or> has_audio s then u ''Send''
      else if audio_supported s then u ''Record'' else u ''Send'')"

subsection \<open>The transition function\<close>

definition unchanged :: "send_button_state \<Rightarrow> send_transition" where
  "unchanged s = \<lparr>state = s, effects = []\<rparr>"

definition on_text_updated :: "send_button_state \<Rightarrow> bool option \<Rightarrow> send_transition" where
  "on_text_updated s d =
     (let s' = s\<lparr>has_text := (case d of None \<Rightarrow> False | Some b \<Rightarrow> b)\<rparr>
      in \<lparr>state = s',
          effects = [UpdateUI (\<not> is_busy s') (is_busy s') (get_send_label s') []]\<rparr>)"

definition on_record_clicked :: "send_button_state \<Rightarrow> send_transition" where
  "on_record_clicked s =
     (if is_busy s \<or> is_recording s \<or> \<not> audio_supported s then unchanged s
      else \<lparr>state = s\<lparr>is_busy := False, is_recording := True\<rparr>,
            effects = [StartRecording,
                       UpdateUI True False (u ''Stop Rec'') (u ''Recording audio...'')]\<rparr>)"

definition on_stop_rec_clicked :: "send_button_state \<Rightarrow> send_transition" where
  "on_stop_rec_clicked s =
     (if \<not> is_recording s then unchanged s
      else \<lparr>state = s\<lparr>is_busy := True, is_recording := False, has_audio := True\<rparr>,
            effects = [StopRecording,
                       UpdateUI False True (u ''Send'') (u ''Starting...''),
                       StartSend]\<rparr>)"

definition on_send_clicked :: "send_button_state \<Rightarrow> send_transition" where
  "on_send_clicked s =
     (if is_busy s \<or> is_recording s then unchanged s
      else if \<not> has_text s \<and> \<not> has_audio s then unchanged s
      else \<lparr>state = s\<lparr>is_busy := True, is_recording := False\<rparr>,
            effects = [UpdateUI False True (u ''Send'') (u ''Starting...''), StartSend]\<rparr>)"

definition on_stop_clicked :: "send_button_state \<Rightarrow> send_transition" where
  "on_stop_clicked s =
     (if \<not> is_busy s then unchanged s
      else \<lparr>state = s\<lparr>is_busy := True, is_recording := False\<rparr>,
            effects = [StopSend, UpdateUI False True (u ''Send'') (u ''Stopping...'')]\<rparr>)"

definition on_send_completed :: "send_button_state \<Rightarrow> send_transition" where
  "on_send_completed s =
     (if \<not> is_busy s then unchanged s
      else let s' = s\<lparr>is_busy := False, is_recording := False, has_text := False,
                      has_audio := False\<rparr>
           in \<lparr>state = s', effects = [UpdateUI True False (get_send_label s') (u ''Ready'')]\<rparr>)"

definition on_error_occurred :: "send_button_state \<Rightarrow> send_transition" where
  "on_error_occurred s =
     (let s' = s\<lparr>is_busy := False, is_recording := False\<rparr>
      in \<lparr>state = s', effects = [UpdateUI True False (get_send_label s') (u ''Error'')]\<rparr>)"

fun send_next_state :: "send_button_state \<Rightarrow> send_event \<Rightarrow> send_transition" where
  "send_next_state s (TextUpdated d) = on_text_updated s d"
| "send_next_state s RecordClicked = on_record_clicked s"
| "send_next_state s StopRecClicked = on_stop_rec_clicked s"
| "send_next_state s SendClicked = on_send_clicked s"
| "send_next_state s StopClicked = on_stop_clicked s"
| "send_next_state s SendCompleted = on_send_completed s"
| "send_next_state s ErrorOccurred = on_error_occurred s"

lemmas send_defs = unchanged_def on_text_updated_def on_record_clicked_def on_stop_rec_clicked_def
  on_send_clicked_def on_stop_clicked_def on_send_completed_def on_error_occurred_def Let_def

subsection \<open>The invariant\<close>

definition send_inv :: "send_button_state \<Rightarrow> bool" where
  "send_inv s \<longleftrightarrow> \<not> (is_busy s \<and> is_recording s)"

text \<open>What an effect may say: a UI update enables exactly one of the buttons, \<open>Send\<close> only in an
  idle state and \<open>Stop\<close> only in a busy one, and a send only starts in a busy state.\<close>

fun send_eff_ok :: "send_button_state \<Rightarrow> send_effect \<Rightarrow> bool" where
  "send_eff_ok s (UpdateUI send stop label status) \<longleftrightarrow> send = (\<not> is_busy s) \<and> stop = is_busy s"
| "send_eff_ok s StartRecording \<longleftrightarrow> is_recording s"
| "send_eff_ok s StopRecording \<longleftrightarrow> \<not> is_recording s \<and> has_audio s"
| "send_eff_ok s StartSend \<longleftrightarrow> is_busy s \<and> (has_text s \<or> has_audio s)"
| "send_eff_ok s StopSend \<longleftrightarrow> is_busy s"

interpretation send: fsm_safety send_next_state send_inv send_eff_ok
proof unfold_locales
  fix s e
  show "send_inv s \<Longrightarrow> send_inv (state (send_next_state s e))"
    by (cases e) (auto simp: send_defs send_inv_def)
next
  fix s f e
  show "send_inv s \<Longrightarrow> f \<in> set (effects (send_next_state s e)) \<Longrightarrow>
      send_eff_ok (state (send_next_state s e)) f"
    by (cases e) (auto simp: send_defs send_inv_def split: if_splits)
qed

subsection \<open>Properties\<close>

text \<open>C40: For every sequence of clicks and notifications from a state that is not both busy and
  recording, no state of the run is both; every UI update of the run enables Send exactly when
  its state is idle and Stop exactly when it is busy, so never both; a recording is only started
  in a recording state and a send only in a busy state that has text or audio.\<close>

theorem send_button_run_safe:
  assumes "\<not> (is_busy s \<and> is_recording s)"
    and "t \<in> set (fsm_run send_next_state s es)"
  shows "\<not> (is_busy (state t) \<and> is_recording (state t)) \<and>
    (\<forall>f \<in> set (effects t). send_eff_ok (state t) f)"
  using assms send.run_safe [of s es] by (auto simp: send_inv_def)

theorem send_button_run_safe_witness:
  "let s = \<lparr>is_busy = False, is_recording = False, has_text = False, has_audio = False,
            audio_supported = True\<rparr>;
       t = last (fsm_run send_next_state s [RecordClicked, StopRecClicked])
   in \<not> (is_busy (state t) \<and> is_recording (state t)) \<and> (\<forall>f \<in> set (effects t). send_eff_ok (state t) f)"
proof -
  define s where "s = \<lparr>is_busy = False, is_recording = False, has_text = False,
    has_audio = False, audio_supported = True\<rparr>"
  define t where "t = last (fsm_run send_next_state s [RecordClicked, StopRecClicked])"
  have "\<not> (is_busy s \<and> is_recording s)" by (simp add: s_def)
  moreover have "t \<in> set (fsm_run send_next_state s [RecordClicked, StopRecClicked])"
    by (simp add: t_def Let_def)
  ultimately show ?thesis using send_button_run_safe [of s t "[RecordClicked, StopRecClicked]"]
    unfolding s_def [symmetric] Let_def t_def [symmetric] by blast
qed

text \<open>A send is started by Send and Stop Rec only, at most once per click, and exactly when
  Send is clicked on an idle button that is not recording and has text or audio, or Stop Rec on a
  recording one; the button is then busy, and it becomes idle again only by the completion or an
  error, never by the Stop button itself.\<close>

theorem send_button_start_and_finish:
  "filter ((=) StartSend) (effects (send_next_state s e)) =
      (if (e = SendClicked \<and> \<not> is_busy s \<and> \<not> is_recording s \<and> (has_text s \<or> has_audio s))
          \<or> (e = StopRecClicked \<and> is_recording s) then [StartSend] else [])
   \<and> (\<not> is_busy s \<and> is_busy (state (send_next_state s e)) \<longleftrightarrow>
        \<not> is_busy s \<and> StartSend \<in> set (effects (send_next_state s e)))
   \<and> (is_busy s \<and> \<not> is_busy (state (send_next_state s e)) \<longleftrightarrow>
        is_busy s \<and> (e = SendCompleted \<or> e = ErrorOccurred))"
  by (cases e) (auto simp: send_defs)

end
