(* ===== verification/AudioRecorder.thy ===== *)
theory AudioRecorder
  imports Fsm PyStr
begin

text \<open>
  The audio recorder of the sidebar (\<open>plugin/chatbot/audio_recorder_state.py\<close>): five statuses,
  four events, and effects that open the device, start it and stop it. The theorems relate the
  effects of any run to the device they drive.
\<close>

datatype rec_status = Idle | Initializing | Recording | Stopping | ErrorStatus

record audio_recorder_state =
  rec_status :: rec_status
  rec_error_message :: "pystr option"

datatype audio_event =
    StartRequested
  | DeviceReady
  | RecStopRequested
  | RecErrorOccurred pystr

datatype audio_effect =
    InitializeDevice
  | BeginRecording
  | EndRecording
  | ReportError pystr

text \<open>\<open>AudioRecorderState(status=...)\<close>: the error message defaults to \<open>None\<close>.\<close>

definition rec_state :: "rec_status \<Rightarrow> audio_recorder_state" where
  "rec_state st = \<lparr>rec_status = st, rec_error_message = None\<rparr>"

fun rec_next_state ::
  "audio_recorder_state \<Rightarrow> audio_event \<Rightarrow> (audio_recorder_state, audio_effect) fsm_transition"
  where
  "rec_next_state s (RecErrorOccurred msg) =
     \<lparr>state = \<lparr>rec_status = ErrorStatus, rec_error_message = Some msg\<rparr>,
      effects = [EndRecording, ReportError msg]\<rparr>"
| "rec_next_state s StartRequested =
     (if rec_status s = Idle \<or> rec_status s = ErrorStatus
      then \<lparr>state = rec_state Initializing, effects = [InitializeDevice]\<rparr>
      else \<lparr>state = s, effects = []\<rparr>)"
| "rec_next_state s DeviceReady =
     (if rec_status s = Initializing
      then \<lparr>state = rec_state Recording, effects = [BeginRecording]\<rparr>
      else \<lparr>state = s, effects = []\<rparr>)"
| "rec_next_state s RecStopRequested =
     (if rec_status s = Initializing \<or> rec_status s = Recording
      then \<lparr>state = rec_state Idle, effects = [EndRecording]\<rparr>
      else \<lparr>state = s, effects = []\<rparr>)"

subsection \<open>The device the effects drive\<close>

text \<open>The contract of the device: it is opened when closed, started once it is open, and may be
  stopped at any time, which closes it. \<open>None\<close> is a call out of order.\<close>

datatype device = Closed | Open | Running

fun device_step :: "device \<Rightarrow> audio_effect \<Rightarrow> device option" where
  "device_step d InitializeDevice = (if d = Closed then Some Open else None)"
| "device_step d BeginRecording = (if d = Open then Some Running else None)"
| "device_step d EndRecording = Some Closed"
| "device_step d (ReportError msg) = Some d"

fun device_run :: "device \<Rightarrow> audio_effect list \<Rightarrow> device option" where
  "device_run d [] = Some d"
| "device_run d (f # fs) = (case device_step d f of None \<Rightarrow> None | Some d' \<Rightarrow> device_run d' fs)"

text \<open>The device each status stands for.\<close>

fun device_of :: "rec_status \<Rightarrow> device" where
  "device_of Initializing = Open"
| "device_of Recording = Running"
| "device_of _ = Closed"

lemma device_run_append:
  "device_run d (fs @ gs) = (case device_run d fs of None \<Rightarrow> None | Some d' \<Rightarrow> device_run d' gs)"
  by (induction fs arbitrary: d) (auto split: option.split)

lemma device_next:
  "device_run (device_of (rec_status s)) (effects (rec_next_state s e))
     = Some (device_of (rec_status (state (rec_next_state s e))))"
  by (cases e; cases "rec_status s") (simp_all add: rec_state_def)

text \<open>\<open>Stopping\<close> is a status no transition enters, and the error message is set exactly in the
  error status.\<close>

definition rec_inv :: "audio_recorder_state \<Rightarrow> bool" where
  "rec_inv s \<longleftrightarrow> rec_status s \<noteq> Stopping \<and> (rec_error_message s \<noteq> None \<longleftrightarrow> rec_status s = ErrorStatus)"

fun rec_eff_ok :: "audio_recorder_state \<Rightarrow> audio_effect \<Rightarrow> bool" where
  "rec_eff_ok s (ReportError msg) \<longleftrightarrow> rec_error_message s = Some msg"
| "rec_eff_ok s BeginRecording \<longleftrightarrow> rec_status s = Recording"
| "rec_eff_ok s InitializeDevice \<longleftrightarrow> rec_status s = Initializing"
| "rec_eff_ok s EndRecording \<longleftrightarrow> rec_status s = Idle \<or> rec_status s = ErrorStatus"

interpretation recorder: fsm_safety rec_next_state rec_inv rec_eff_ok
proof unfold_locales
  fix s e
  show "rec_inv s \<Longrightarrow> rec_inv (state (rec_next_state s e))"
    by (cases e) (auto simp: rec_inv_def rec_state_def)
next
  fix s f e
  show "rec_inv s \<Longrightarrow> f \<in> set (effects (rec_next_state s e)) \<Longrightarrow> rec_eff_ok (state (rec_next_state s e)) f"
    by (cases e) (auto simp: rec_inv_def rec_state_def split: if_splits)
qed

lemma device_run_effects:
  "device_run (device_of (rec_status s)) (run_effects rec_next_state s es)
     = Some (device_of (rec_status (fsm_final rec_next_state s es)))"
  by (induction es arbitrary: s) (simp_all add: device_run_append device_next)

text \<open>Whatever events arrive, and in whatever order, the effects the recorder emits drive its
  device in a legal order (it is initialised only when closed, recording begins only after an
  initialisation that nothing has stopped since), and after the run the device is running exactly
  when the status is recording, open exactly when it is initialising, and closed otherwise.\<close>

theorem recorder_drives_device:
  "device_run (device_of (rec_status s)) (run_effects rec_next_state s es)
     = Some (device_of (rec_status (fsm_final rec_next_state s es)))"
  by (rule device_run_effects)

text \<open>From an idle recorder no run reaches the status \<open>stopping\<close>; in every state of a run the
  error message is set exactly in the error status, and each reported error is that message.\<close>

theorem recorder_run_safe:
  assumes "t \<in> set (fsm_run rec_next_state (rec_state Idle) es)"
  shows "rec_status (state t) \<noteq> Stopping \<and>
    (rec_error_message (state t) \<noteq> None \<longleftrightarrow> rec_status (state t) = ErrorStatus) \<and>
    (\<forall>msg. ReportError msg \<in> set (effects t) \<longrightarrow> rec_error_message (state t) = Some msg)"
proof -
  have i: "rec_inv (rec_state Idle)" by (simp add: rec_inv_def rec_state_def)
  from recorder.run_inv [OF i assms] have "rec_inv (state t)" .
  moreover have "rec_eff_ok (state t) (ReportError msg)" if "ReportError msg \<in> set (effects t)" for msg
    by (rule recorder.run_eff [OF i assms that])
  ultimately show ?thesis by (auto simp: rec_inv_def)
qed

theorem recorder_run_safe_witness:
  "rec_status (state (last (fsm_run rec_next_state (rec_state Idle) [StartRequested, RecErrorOccurred (u ''x'')])))
     \<noteq> Stopping"
proof -
  let ?es = "[StartRequested, RecErrorOccurred (u ''x'')]"
  have "last (fsm_run rec_next_state (rec_state Idle) ?es) \<in> set (fsm_run rec_next_state (rec_state Idle) ?es)"
    by (simp add: Let_def)
  from recorder_run_safe [OF this] show ?thesis by blast
qed

end
