(* ===== verification/PyVal.thy ===== *)
theory PyVal
  imports PyStr Complex_Main
begin

text \<open>
  The dynamic values the modelled code passes around in \<open>dict[str, Any]\<close> payloads: what
  \<open>json.loads\<close> returns, plus the numbers and strings the program puts in itself. Floats are
  exact rationals (rounding and overflow of IEEE arithmetic are not modelled).
\<close>

datatype pyval =
    PNone
  | PBool bool
  | PInt int
  | PFloat rat
  | PStr pystr
  | PList "pyval list"
  | PDict "(pystr \<times> pyval) list"

type_synonym pydict = "(pystr \<times> pyval) list"

text \<open>\<open>bool(x)\<close>.\<close>

fun truthy :: "pyval \<Rightarrow> bool" where
  "truthy PNone = False"
| "truthy (PBool b) = b"
| "truthy (PInt i) = (i \<noteq> 0)"
| "truthy (PFloat r) = (r \<noteq> 0)"
| "truthy (PStr s) = (s \<noteq> [])"
| "truthy (PList xs) = (xs \<noteq> [])"
| "truthy (PDict d) = (d \<noteq> [])"

text \<open>\<open>d.get(k, default)\<close>.\<close>

definition dget :: "pydict \<Rightarrow> string \<Rightarrow> pyval \<Rightarrow> pyval" where
  "dget d k dflt = (case map_of d (u k) of None \<Rightarrow> dflt | Some v \<Rightarrow> v)"

lemma dget_Nil [simp]: "dget [] k v = v"
  by (simp add: dget_def)

text \<open>The \<open>dict\<close> a value is, and \<open>{}\<close> for any other value; the list it is.\<close>

fun as_dict :: "pyval \<Rightarrow> pydict" where
  "as_dict (PDict d) = d"
| "as_dict _ = []"

fun is_dict :: "pyval \<Rightarrow> bool" where
  "is_dict (PDict d) = True"
| "is_dict _ = False"

fun is_list :: "pyval \<Rightarrow> bool" where
  "is_list (PList xs) = True"
| "is_list _ = False"

fun as_list :: "pyval \<Rightarrow> pyval list" where
  "as_list (PList xs) = xs"
| "as_list _ = []"

fun is_str :: "pyval \<Rightarrow> bool" where
  "is_str (PStr s) = True"
| "is_str _ = False"

text \<open>The string a value is, and a default for a value of another type.\<close>

fun str_or :: "pystr \<Rightarrow> pyval \<Rightarrow> pystr" where
  "str_or dflt (PStr s) = s"
| "str_or dflt _ = dflt"

text \<open>\<open>str(x)\<close>: a string is itself; the rendering of any other value is Python's
  \<open>repr\<close>, an argument of the definitions that need it.\<close>

fun py_str :: "(pyval \<Rightarrow> pystr) \<Rightarrow> pyval \<Rightarrow> pystr" where
  "py_str repr (PStr s) = s"
| "py_str repr v = repr v"

text \<open>A small \<open>repr\<close> for the witnesses: numbers in decimal, constants by name.\<close>

fun small_repr :: "pyval \<Rightarrow> pystr" where
  "small_repr PNone = u ''None''"
| "small_repr (PBool True) = u ''True''"
| "small_repr (PBool False) = u ''False''"
| "small_repr (PInt i) = str_of_int i"
| "small_repr (PStr s) = 39 # s @ [39]"
| "small_repr _ = u ''...''"

end
