(* ===== verification/McpRequest.thy ===== *)
theory McpRequest
  imports Fsm PyVal
begin

text \<open>
  One MCP tool call as a state machine (\<open>plugin/mcp/mcp_state.py\<close>): the request is parsed and
  named for execution, its result or error becomes the single JSON-RPC response. The event's
  \<open>data\<close> dict is kept as the dict it is.
\<close>

datatype mcp_status = McpIdle | ParsingRequest | ExecutingTool | StreamingResponse | McpError

record mcp_state =
  mcp_status :: mcp_status
  tool_name :: pyval
  arguments :: pyval
  document_url :: pyval
  result :: pyval
  error_message :: pyval
  error_code :: pyval
  is_long_running :: pyval
  is_error :: bool

definition mcp_init :: mcp_state where
  "mcp_init = \<lparr>mcp_status = McpIdle, tool_name = PNone, arguments = PDict [],
     document_url = PNone, result = PNone, error_message = PNone, error_code = PNone,
     is_long_running = PBool False, is_error = False\<rparr>"

datatype mcp_event_kind = RequestReceived | ToolExecutionStarted | ToolCompleted | RequestError

record mcp_event =
  mcp_kind :: mcp_event_kind
  mcp_data :: pydict

datatype mcp_effect =
    ParseRequest
  | ExecuteTool pyval pyval pyval pyval  \<comment> \<open>tool name, arguments, long running, document url\<close>
  | StreamResponse pyval bool
  | SendError pystr pystr

type_synonym mcp_transition = "(mcp_state, mcp_effect) fsm_transition"

definition on_request_received :: "mcp_state \<Rightarrow> pydict \<Rightarrow> mcp_transition" where
  "on_request_received s d =
     (let name = dget d ''tool_name'' PNone;
          args = dget d ''arguments'' (PDict []);
          url = dget d ''document_url'' PNone;
          long = dget d ''is_long_running'' (PBool False)
      in if \<not> truthy name
         then \<lparr>state = s\<lparr>mcp_status := McpError, is_error := True\<rparr>,
               effects = [SendError (u ''Missing 'name' in tools/call params'') (u ''INVALID_PARAMS'')]\<rparr>
         else \<lparr>state = s\<lparr>mcp_status := ExecutingTool, tool_name := name, arguments := args,
                         document_url := url, is_long_running := long\<rparr>,
               effects = [ParseRequest, ExecuteTool name args long url]\<rparr>)"

definition on_tool_completed :: "mcp_state \<Rightarrow> pydict \<Rightarrow> mcp_transition" where
  "on_tool_completed s d =
     (let r = dget d ''result'' PNone;
          err = (is_dict r \<and> dget (as_dict r) ''status'' PNone = PStr (u ''error''))
      in \<lparr>state = s\<lparr>mcp_status := StreamingResponse, result := r, is_error := err\<rparr>,
          effects = [StreamResponse r err]\<rparr>)"

definition on_request_error :: "mcp_state \<Rightarrow> pydict \<Rightarrow> mcp_transition" where
  "on_request_error s d =
     (let message = dget d ''message'' (PStr (u ''Unknown error''));
          code = dget d ''code'' (PStr (u ''INTERNAL_ERROR''));
          payload = PDict [(u ''status'', PStr (u ''error'')), (u ''code'', code), (u ''message'', message)]
      in \<lparr>state = s\<lparr>mcp_status := McpError, is_error := True, error_message := message,
                      error_code := code, result := payload\<rparr>,
          effects = [StreamResponse payload True]\<rparr>)"

definition mcp_next_state :: "mcp_state \<Rightarrow> mcp_event \<Rightarrow> mcp_transition" where
  "mcp_next_state s e =
     (case mcp_kind e of
        RequestReceived \<Rightarrow> on_request_received s (mcp_data e)
      | ToolExecutionStarted \<Rightarrow> \<lparr>state = s, effects = []\<rparr>
      | ToolCompleted \<Rightarrow> on_tool_completed s (mcp_data e)
      | RequestError \<Rightarrow> on_request_error s (mcp_data e))"

lemmas mcp_defs = mcp_next_state_def on_request_received_def on_tool_completed_def
  on_request_error_def Let_def

subsection \<open>What the client is sent\<close>

fun is_response :: "mcp_effect \<Rightarrow> bool" where
  "is_response (StreamResponse r e) = True"
| "is_response (SendError m c) = True"
| "is_response _ = False"

fun is_execute :: "mcp_effect \<Rightarrow> bool" where
  "is_execute (ExecuteTool n a l d) = True"
| "is_execute _ = False"

text \<open>The error flag of a state agrees with the last response: an effect carries the fields of
  the state it leads to.\<close>

fun mcp_eff_ok :: "mcp_state \<Rightarrow> mcp_effect \<Rightarrow> bool" where
  "mcp_eff_ok s ParseRequest \<longleftrightarrow> mcp_status s = ExecutingTool"
| "mcp_eff_ok s (ExecuteTool n a l d) \<longleftrightarrow> mcp_status s = ExecutingTool \<and> truthy n \<and>
     tool_name s = n \<and> arguments s = a \<and> is_long_running s = l \<and> document_url s = d"
| "mcp_eff_ok s (StreamResponse r e) \<longleftrightarrow> is_error s = e \<and> result s = r \<and>
     (mcp_status s = StreamingResponse \<or> mcp_status s = McpError \<and> e)"
| "mcp_eff_ok s (SendError m c) \<longleftrightarrow> mcp_status s = McpError \<and> is_error s"

text \<open>A state that reports an error has the flag set.\<close>

definition mcp_inv :: "mcp_state \<Rightarrow> bool" where
  "mcp_inv s \<longleftrightarrow> (mcp_status s = McpError \<longrightarrow> is_error s) \<and>
     (mcp_status s = StreamingResponse \<longrightarrow>
        (is_error s \<longleftrightarrow> is_dict (result s) \<and> dget (as_dict (result s)) ''status'' PNone = PStr (u ''error'')))"

interpretation mcp: fsm_safety mcp_next_state mcp_inv mcp_eff_ok
proof unfold_locales
  fix s e
  show "mcp_inv s \<Longrightarrow> mcp_inv (state (mcp_next_state s e))"
    by (cases "mcp_kind e") (auto simp: mcp_defs mcp_inv_def)
next
  fix s f e
  show "mcp_inv s \<Longrightarrow> f \<in> set (effects (mcp_next_state s e)) \<Longrightarrow> mcp_eff_ok (state (mcp_next_state s e)) f"
    by (cases "mcp_kind e") (auto simp: mcp_defs split: if_splits)
qed

definition started :: mcp_event where
  "started = \<lparr>mcp_kind = ToolExecutionStarted, mcp_data = []\<rparr>"

lemma run_effects_started:
  "run_effects mcp_next_state s (replicate n started @ es) = run_effects mcp_next_state s es"
  by (induction n) (simp_all add: started_def mcp_next_state_def)

text \<open>A tools/call exchange (the request, any number of start notices, then the tool's
  completion or an error) that names a tool hands exactly that call with its arguments to the
  executor, once, and answers the client exactly once, after it, with the result; the answer is
  flagged as an error exactly when the result is an error payload or the exchange ended in an
  error.\<close>

theorem mcp_exchange:
  assumes name: "truthy (dget d ''tool_name'' PNone)"
    and e: "mcp_kind e = ToolCompleted \<or> mcp_kind e = RequestError"
  shows "\<exists>r err. run_effects mcp_next_state s
      (\<lparr>mcp_kind = RequestReceived, mcp_data = d\<rparr> # replicate n started @ [e])
    = [ParseRequest,
       ExecuteTool (dget d ''tool_name'' PNone) (dget d ''arguments'' (PDict []))
         (dget d ''is_long_running'' (PBool False)) (dget d ''document_url'' PNone),
       StreamResponse r err]
    \<and> (mcp_kind e = ToolCompleted \<longrightarrow> r = dget (mcp_data e) ''result'' PNone)
    \<and> (err \<longleftrightarrow> is_dict r \<and> dget (as_dict r) ''status'' PNone = PStr (u ''error''))"
  using e name
  by (auto simp: run_effects_started mcp_defs dget_def)

theorem mcp_exchange_witness:
  "\<exists>r err. run_effects mcp_next_state mcp_init
      (\<lparr>mcp_kind = RequestReceived, mcp_data = [(u ''tool_name'', PStr (u ''list_sheets''))]\<rparr>
        # replicate 2 started @ [\<lparr>mcp_kind = ToolCompleted, mcp_data = []\<rparr>])
    = [ParseRequest, ExecuteTool (PStr (u ''list_sheets'')) (PDict []) (PBool False) PNone,
       StreamResponse r err]"
  using mcp_exchange [of "[(u ''tool_name'', PStr (u ''list_sheets''))]"
      "\<lparr>mcp_kind = ToolCompleted, mcp_data = []\<rparr>" mcp_init 2]
  by (auto simp: dget_def)

text \<open>In every run from a fresh request state a state in error status has its error flag set,
  each response carries the result and the flag of the state it leaves behind, and nothing is
  executed without a tool name.\<close>

theorem mcp_run_consistent:
  assumes "t \<in> set (fsm_run mcp_next_state mcp_init es)"
  shows "(mcp_status (state t) = McpError \<longrightarrow> is_error (state t)) \<and>
    (\<forall>f \<in> set (effects t). mcp_eff_ok (state t) f)"
proof -
  have "mcp_inv mcp_init" by (simp add: mcp_inv_def mcp_init_def)
  from mcp.run_inv [OF this assms] mcp.run_eff [OF this assms] show ?thesis
    by (simp add: mcp_inv_def)
qed

theorem mcp_run_consistent_witness:
  "is_error (state (last (fsm_run mcp_next_state mcp_init [\<lparr>mcp_kind = RequestReceived, mcp_data = []\<rparr>])))"
proof -
  let ?es = "[\<lparr>mcp_kind = RequestReceived, mcp_data = []\<rparr>]"
  have "last (fsm_run mcp_next_state mcp_init ?es) \<in> set (fsm_run mcp_next_state mcp_init ?es)"
    by (simp add: Let_def)
  from mcp_run_consistent [OF this] show ?thesis
    by (simp add: mcp_defs)
qed

end
