(* ===== verification/Tunnel.thy ===== *)
theory Tunnel
  imports Fsm PyVal
begin

text \<open>
  The public tunnel of the MCP server (\<open>plugin/mcp/tunnel_state.py\<close>): its lifecycle with
  reconnection, the exponential backoff and the pure transition function. Seconds are exact
  rationals. The theorems bound the reconnection attempts and their delays, show how a run
  gives up, and what a stop guarantees.
\<close>

datatype tunnel_status = TStopped | TStarting | TConnected | TReconnecting | TFailed

record tunnel_state =
  tun_status :: tunnel_status
  port :: int
  provider :: pystr
  provider_token :: pystr
  public_url :: "pystr option"
  retry_count :: int
  max_retries :: int
  backoff_initial :: rat
  backoff_factor :: rat
  max_backoff :: rat
  last_error :: pyval
  desired_running :: bool

definition tunnel_default :: tunnel_state where
  "tunnel_default = \<lparr>tun_status = TStopped, port = 18765, provider = u ''cloudflare'',
     provider_token = [], public_url = None, retry_count = 0, max_retries = 5,
     backoff_initial = 1, backoff_factor = 2, max_backoff = 30, last_error = PNone,
     desired_running = False\<rparr>"

datatype tunnel_event_kind =
  StartReq | ProcessStarted | UrlAcquired | ProcessExited | RetryTimerExpired | StopReq

record tunnel_event =
  tun_kind :: tunnel_event_kind
  tun_data :: pydict

datatype tunnel_effect =
    StartProcess int pystr pystr
  | TerminateProcess
  | ScheduleRetryTimer (delay_seconds: rat) (attempt: int) (of_max: int)
  | CancelRetryTimer
  | NotifyUrlAcquired pystr pystr

type_synonym tunnel_transition = "(tunnel_state, tunnel_effect) fsm_transition"

subsection \<open>Backoff and event fields\<close>

definition compute_backoff_delay :: "int \<Rightarrow> rat \<Rightarrow> rat \<Rightarrow> rat \<Rightarrow> rat" where
  "compute_backoff_delay n initial factor cap = min (initial * factor powi n) cap"

text \<open>\<open>_event_int\<close>: an integer field of the event, with the state's value for a missing,
  empty or unreadable one.\<close>

definition event_int :: "pydict \<Rightarrow> string \<Rightarrow> int \<Rightarrow> int" where
  "event_int d k fallback =
     (case dget d k (PInt fallback) of
        PBool b \<Rightarrow> (if b then 1 else 0)
      | PInt i \<Rightarrow> i
      | PStr s \<Rightarrow> (let t = strip s in if t = [] then fallback
                 else case parse_int t of Some i \<Rightarrow> i | None \<Rightarrow> fallback)
      | _ \<Rightarrow> fallback)"

text \<open>\<open>"%.1f" % x\<close> for \<open>x \<ge> 0\<close>: one decimal, ties to the even digit.\<close>

definition round_half_even :: "rat \<Rightarrow> int" where
  "round_half_even x =
     (let f = \<lfloor>x\<rfloor>; r = x - of_int f
      in if r < 1/2 then f else if r > 1/2 then f + 1 else if even f then f else f + 1)"

definition fmt_1f :: "rat \<Rightarrow> pystr" where
  "fmt_1f x = (let n = round_half_even (10 * x)
               in str_of_int (n div 10) @ u ''.'' @ str_of_int (n mod 10))"

subsection \<open>The transition function\<close>

definition on_start_requested :: "(pyval \<Rightarrow> pystr) \<Rightarrow> tunnel_state \<Rightarrow> pydict \<Rightarrow> tunnel_transition" where
  "on_start_requested repr s d =
     (let port' = event_int d ''port'' (port s);
          prov = lower (strip (py_str repr (dget d ''provider'' (PStr (provider s)))));
          token = py_str repr (dget d ''provider_token'' (PStr []));
          retries = event_int d ''max_retries'' (max_retries s)
      in \<lparr>state = s\<lparr>tun_status := TStarting, port := port', provider := prov, provider_token := token,
                      public_url := None, retry_count := 0, max_retries := retries,
                      last_error := PNone, desired_running := True\<rparr>,
          effects = [CancelRetryTimer, TerminateProcess, StartProcess port' prov token]\<rparr>)"

definition on_url_acquired :: "(pyval \<Rightarrow> pystr) \<Rightarrow> tunnel_state \<Rightarrow> pydict \<Rightarrow> tunnel_transition" where
  "on_url_acquired repr s d =
     (let url = strip (py_str repr (dget d ''url'' (PStr [])))
      in \<lparr>state = s\<lparr>tun_status := TConnected, public_url := Some url, retry_count := 0,
                      last_error := PNone\<rparr>,
          effects = [NotifyUrlAcquired (provider s) url]\<rparr>)"

definition reconnect_message :: "(pyval \<Rightarrow> pystr) \<Rightarrow> tunnel_state \<Rightarrow> pyval \<Rightarrow> int \<Rightarrow> rat \<Rightarrow> pystr" where
  "reconnect_message repr s rc att delay =
     (let reason = (if public_url s \<noteq> None
                    then u ''connection dropped (code '' @ py_str repr rc @ u '')''
                    else u ''tunnel process exited (code '' @ py_str repr rc @ u '')'')
      in reason @ u ''; reconnecting (attempt '' @ str_of_int att @ u ''/'' @ str_of_int (max_retries s)
         @ u '' in '' @ fmt_1f delay @ u ''s)'' @ [0x2026])"

definition on_process_exited :: "(pyval \<Rightarrow> pystr) \<Rightarrow> tunnel_state \<Rightarrow> pydict \<Rightarrow> tunnel_transition" where
  "on_process_exited repr s d =
     (let rc = dget d ''rc'' (PInt 0);
          auth_error = dget d ''auth_error'' PNone
      in if \<not> desired_running s
         then \<lparr>state = s\<lparr>tun_status := TStopped, public_url := None\<rparr>, effects = []\<rparr>
         else if truthy auth_error
         then \<lparr>state = s\<lparr>tun_status := TFailed, public_url := None, last_error := auth_error,
                         desired_running := False\<rparr>, effects = []\<rparr>
         else if retry_count s < max_retries s
         then let att = retry_count s + 1;
                  delay = compute_backoff_delay (retry_count s) (backoff_initial s)
                            (backoff_factor s) (max_backoff s)
              in \<lparr>state = s\<lparr>tun_status := TReconnecting, public_url := None, retry_count := att,
                              last_error := PStr (reconnect_message repr s rc att delay)\<rparr>,
                  effects = [ScheduleRetryTimer delay att (max_retries s)]\<rparr>
         else \<lparr>state = s\<lparr>tun_status := TFailed, public_url := None,
                 last_error := PStr (u ''tunnel disconnected; failed to reconnect after ''
                   @ str_of_int (max_retries s) @ u '' attempts (code '' @ py_str repr rc @ u '')''),
                 desired_running := False\<rparr>, effects = []\<rparr>)"

definition on_retry_timer_expired :: "tunnel_state \<Rightarrow> tunnel_transition" where
  "on_retry_timer_expired s =
     (if \<not> desired_running s then \<lparr>state = s\<lparr>tun_status := TStopped\<rparr>, effects = []\<rparr>
      else \<lparr>state = s\<lparr>tun_status := TStarting\<rparr>,
            effects = [StartProcess (port s) (provider s) (provider_token s)]\<rparr>)"

definition on_stop_requested :: "tunnel_state \<Rightarrow> tunnel_transition" where
  "on_stop_requested s =
     \<lparr>state = s\<lparr>tun_status := TStopped, public_url := None, retry_count := 0, last_error := PNone,
                 desired_running := False\<rparr>,
      effects = [CancelRetryTimer, TerminateProcess]\<rparr>"

definition tunnel_next_state :: "(pyval \<Rightarrow> pystr) \<Rightarrow> tunnel_state \<Rightarrow> tunnel_event \<Rightarrow> tunnel_transition" where
  "tunnel_next_state repr s e =
     (case tun_kind e of
        StartReq \<Rightarrow> on_start_requested repr s (tun_data e)
      | ProcessStarted \<Rightarrow> \<lparr>state = s\<lparr>tun_status := TStarting\<rparr>, effects = []\<rparr>
      | UrlAcquired \<Rightarrow> on_url_acquired repr s (tun_data e)
      | ProcessExited \<Rightarrow> on_process_exited repr s (tun_data e)
      | RetryTimerExpired \<Rightarrow> on_retry_timer_expired s
      | StopReq \<Rightarrow> on_stop_requested s)"

lemmas tunnel_defs = tunnel_next_state_def on_start_requested_def on_url_acquired_def
  on_process_exited_def on_retry_timer_expired_def on_stop_requested_def Let_def

subsection \<open>Invariants of the lifecycle\<close>

text \<open>Reconnecting means wanted and counted; a failed tunnel is no longer wanted and says why; a
  stopped one is not wanted; the attempts made never exceed the attempts allowed.\<close>

definition tunnel_inv :: "tunnel_state \<Rightarrow> bool" where
  "tunnel_inv s \<longleftrightarrow>
     0 \<le> retry_count s \<and> (retry_count s = 0 \<or> retry_count s \<le> max_retries s) \<and>
     (tun_status s = TReconnecting \<longrightarrow>
        desired_running s \<and> 1 \<le> retry_count s \<and> public_url s = None \<and> truthy (last_error s)) \<and>
     (tun_status s = TFailed \<longrightarrow> \<not> desired_running s \<and> public_url s = None \<and> truthy (last_error s)) \<and>
     (tun_status s = TStopped \<longrightarrow> \<not> desired_running s) \<and>
     (tun_status s = TConnected \<longrightarrow> public_url s \<noteq> None \<and> retry_count s = 0)"

fun tunnel_eff_ok :: "tunnel_state \<Rightarrow> tunnel_effect \<Rightarrow> bool" where
  "tunnel_eff_ok s (StartProcess p v t) \<longleftrightarrow>
     desired_running s \<and> tun_status s = TStarting \<and> p = port s \<and> v = provider s \<and> t = provider_token s"
| "tunnel_eff_ok s TerminateProcess \<longleftrightarrow> tun_status s = TStarting \<or> tun_status s = TStopped"
| "tunnel_eff_ok s (ScheduleRetryTimer delay att m) \<longleftrightarrow>
     tun_status s = TReconnecting \<and> att = retry_count s \<and> m = max_retries s \<and> att \<le> m \<and> delay \<le> max_backoff s"
| "tunnel_eff_ok s CancelRetryTimer \<longleftrightarrow> tun_status s = TStarting \<or> tun_status s = TStopped"
| "tunnel_eff_ok s (NotifyUrlAcquired v url) \<longleftrightarrow> public_url s = Some url \<and> v = provider s"

lemma reconnect_message_ne [simp]: "reconnect_message repr s rc att delay \<noteq> []"
  by (simp add: reconnect_message_def Let_def)

interpretation tunnel: fsm_safety "tunnel_next_state repr" tunnel_inv tunnel_eff_ok
proof unfold_locales
  fix s e
  show "tunnel_inv s \<Longrightarrow> tunnel_inv (state (tunnel_next_state repr s e))"
    by (cases "tun_kind e") (auto simp: tunnel_defs tunnel_inv_def)
next
  fix s f e
  show "tunnel_inv s \<Longrightarrow> f \<in> set (effects (tunnel_next_state repr s e)) \<Longrightarrow>
      tunnel_eff_ok (state (tunnel_next_state repr s e)) f"
    by (cases "tun_kind e") (auto simp: tunnel_defs tunnel_inv_def compute_backoff_delay_def split: if_splits)
qed

text \<open>A tunnel that is not wanted stays so until it is started again, and starts no process.\<close>

definition no_start :: "tunnel_event \<Rightarrow> bool" where
  "no_start e \<longleftrightarrow> tun_kind e \<noteq> StartReq"

fun spawns :: "tunnel_effect \<Rightarrow> bool" where
  "spawns (StartProcess p v t) = True"
| "spawns (ScheduleRetryTimer delay att m) = True"
| "spawns _ = False"

interpretation tunnel_off: fsm_quiet_latch "tunnel_next_state repr" no_start
    "\<lambda>s. \<not> desired_running s" "\<lambda>f. \<not> spawns f"
proof unfold_locales
  fix e s
  show "no_start e \<Longrightarrow> \<not> desired_running s \<Longrightarrow> \<not> desired_running (state (tunnel_next_state repr s e))"
    by (cases "tun_kind e") (auto simp: tunnel_defs no_start_def)
next
  fix e s f
  show "no_start e \<Longrightarrow> \<not> desired_running s \<Longrightarrow> f \<in> set (effects (tunnel_next_state repr s e)) \<Longrightarrow> \<not> spawns f"
    by (cases "tun_kind e") (auto simp: tunnel_defs no_start_def)
qed

text \<open>Attempts left, the rank that each scheduled reconnection lowers.\<close>

definition attempts_left :: "tunnel_state \<Rightarrow> nat" where
  "attempts_left s = (if desired_running s then nat (max_retries s - retry_count s) else 0)"

fun is_schedule :: "tunnel_effect \<Rightarrow> bool" where
  "is_schedule (ScheduleRetryTimer delay att m) = True"
| "is_schedule _ = False"

definition no_fresh_start :: "tunnel_event \<Rightarrow> bool" where
  "no_fresh_start e \<longleftrightarrow> tun_kind e \<noteq> StartReq \<and> tun_kind e \<noteq> UrlAcquired"

interpretation tunnel_budget: fsm_ranked "tunnel_next_state repr" no_fresh_start "\<lambda>s. True"
    attempts_left is_schedule
proof unfold_locales
  fix e s
  show "True" by simp
  show "no_fresh_start e \<Longrightarrow> True \<Longrightarrow>
      length (filter is_schedule (effects (tunnel_next_state repr s e)))
        + attempts_left (state (tunnel_next_state repr s e)) \<le> attempts_left s"
    by (cases "tun_kind e") (auto simp: tunnel_defs no_fresh_start_def attempts_left_def)
qed

subsection \<open>Giving up\<close>

definition plain_exit :: "int \<Rightarrow> tunnel_event" where
  "plain_exit rc = \<lparr>tun_kind = ProcessExited, tun_data = [(u ''rc'', PInt rc)]\<rparr>"

definition timer_expired :: tunnel_event where
  "timer_expired = \<lparr>tun_kind = RetryTimerExpired, tun_data = []\<rparr>"

text \<open>The process drops and the retry timer fires, \<open>n\<close> times.\<close>

definition drops :: "int \<Rightarrow> nat \<Rightarrow> tunnel_event list" where
  "drops rc n = concat (replicate n [plain_exit rc, timer_expired])"

lemma drops_Suc: "drops rc (Suc n) = plain_exit rc # timer_expired # drops rc n"
  by (simp add: drops_def)

definition delay_of :: "tunnel_state \<Rightarrow> int \<Rightarrow> rat" where
  "delay_of s n = compute_backoff_delay n (backoff_initial s) (backoff_factor s) (max_backoff s)"

lemma no_auth_error: "dget [(u ''rc'', PInt rc)] ''auth_error'' PNone = PNone"
  by (simp add: dget_def)

lemma drop_step:
  assumes "desired_running s" and "retry_count s < max_retries s"
  obtains s' where "state (tunnel_next_state repr (state (tunnel_next_state repr s (plain_exit rc))) timer_expired) = s'"
    and "effects (tunnel_next_state repr s (plain_exit rc))
        = [ScheduleRetryTimer (delay_of s (retry_count s)) (retry_count s + 1) (max_retries s)]"
    and "filter is_schedule (effects (tunnel_next_state repr (state (tunnel_next_state repr s (plain_exit rc))) timer_expired)) = []"
    and "desired_running s'" and "retry_count s' = retry_count s + 1" and "max_retries s' = max_retries s"
    and "delay_of s' = delay_of s"
  using assms
  by (auto simp: plain_exit_def timer_expired_def tunnel_defs no_auth_error delay_of_def fun_eq_iff)

lemma drops_schedule:
  "desired_running s \<Longrightarrow> retry_count s = int k \<Longrightarrow> max_retries s = int (k + n) \<Longrightarrow>
     filter is_schedule (run_effects (tunnel_next_state repr) s (drops rc n @ es))
       = map (\<lambda>i. ScheduleRetryTimer (delay_of s (int i)) (int (Suc i)) (max_retries s)) [k..<k + n]
         @ filter is_schedule (run_effects (tunnel_next_state repr) (fsm_final (tunnel_next_state repr) s (drops rc n)) es)
     \<and> desired_running (fsm_final (tunnel_next_state repr) s (drops rc n))
     \<and> retry_count (fsm_final (tunnel_next_state repr) s (drops rc n)) = int (k + n)
     \<and> max_retries (fsm_final (tunnel_next_state repr) s (drops rc n)) = max_retries s"
proof (induction n arbitrary: s k)
  case 0
  then show ?case by (simp add: drops_def)
next
  case (Suc n)
  then have l: "retry_count s < max_retries s" by simp
  obtain s' where s': "state (tunnel_next_state repr (state (tunnel_next_state repr s (plain_exit rc))) timer_expired) = s'"
    and e1: "effects (tunnel_next_state repr s (plain_exit rc))
        = [ScheduleRetryTimer (delay_of s (retry_count s)) (retry_count s + 1) (max_retries s)]"
    and e2: "filter is_schedule (effects (tunnel_next_state repr (state (tunnel_next_state repr s (plain_exit rc))) timer_expired)) = []"
    and d: "desired_running s'" "retry_count s' = retry_count s + 1" "max_retries s' = max_retries s"
    and dl: "delay_of s' = delay_of s"
    using drop_step [OF Suc.prems(1) l] by blast
  have "[k..<k + Suc n] = k # [Suc k..<Suc k + n]" by (simp add: upt_rec)
  moreover have "retry_count s' = int (Suc k)" "max_retries s' = int (Suc k + n)"
    using d Suc.prems by simp_all
  from Suc.IH [OF d(1) this] s' e1 e2 d dl Suc.prems calculation show ?case
    by (simp add: drops_Suc add.commute)
qed

subsection \<open>Properties\<close>

text \<open>In every run from a fresh tunnel, whatever the events and their data: the number of
  attempts made never exceeds the number allowed; a reconnecting tunnel is wanted, has no URL and
  shows a message; a failed one is no longer wanted and shows its error; a stopped one is not
  wanted; a connected one has its URL and a reset counter. Processes are only started while the
  tunnel is wanted, and a retry timer never waits longer than the cap.\<close>

theorem tunnel_run_safe:
  assumes "t \<in> set (fsm_run (tunnel_next_state repr) tunnel_default es)"
  shows "tunnel_inv (state t) \<and> (\<forall>f \<in> set (effects t). tunnel_eff_ok (state t) f)"
proof -
  have i: "tunnel_inv tunnel_default" by (simp add: tunnel_inv_def tunnel_default_def)
  show ?thesis
    using tunnel.run_inv [OF i assms] tunnel.run_eff [OF i assms] by blast
qed

theorem tunnel_run_safe_witness:
  "let t = last (fsm_run (tunnel_next_state small_repr) tunnel_default
        [\<lparr>tun_kind = StartReq, tun_data = []\<rparr>, plain_exit 1])
   in tunnel_inv (state t) \<and> tun_status (state t) = TReconnecting"
proof -
  let ?es = "[\<lparr>tun_kind = StartReq, tun_data = []\<rparr>, plain_exit 1]"
  let ?t = "last (fsm_run (tunnel_next_state small_repr) tunnel_default ?es)"
  have "?t \<in> set (fsm_run (tunnel_next_state small_repr) tunnel_default ?es)"
    by (simp add: Let_def)
  from tunnel_run_safe [OF this] show ?thesis
    by (simp add: Let_def tunnel_next_state_def on_start_requested_def on_process_exited_def
        plain_exit_def event_int_def tunnel_default_def no_auth_error)
qed

text \<open>However long a run without a fresh start or a new URL is, it schedules at most as many
  reconnections as there are attempts left, and none when the tunnel is not wanted.\<close>

theorem tunnel_retry_budget:
  assumes "list_all no_fresh_start es"
  shows "length (filter is_schedule (run_effects (tunnel_next_state repr) s es)) \<le>
    (if desired_running s then nat (max_retries s - retry_count s) else 0)"
  using tunnel_budget.run_bounded [OF assms, of repr s] by (simp add: attempts_left_def)

theorem tunnel_retry_budget_witness:
  "length (filter is_schedule (run_effects (tunnel_next_state small_repr)
      (tunnel_default\<lparr>desired_running := True, max_retries := 1\<rparr>) [plain_exit 1, plain_exit 1])) \<le> 1"
proof -
  have "list_all no_fresh_start [plain_exit 1, plain_exit 1]"
    by (simp add: no_fresh_start_def plain_exit_def)
  from tunnel_retry_budget [OF this, of small_repr "tunnel_default\<lparr>desired_running := True, max_retries := 1\<rparr>"]
  show ?thesis by (simp add: tunnel_default_def)
qed

text \<open>C39: A wanted tunnel whose process keeps dropping makes exactly \<open>max_retries\<close> attempts,
  numbered from 1, each after the backoff delay of its number, and the drop after the last one
  ends in failure: the tunnel is no longer wanted and nothing more is scheduled.\<close>

theorem tunnel_gives_up:
  assumes "desired_running s" and "retry_count s = 0" and "max_retries s = int n"
  shows "filter is_schedule (run_effects (tunnel_next_state repr) s (drops rc n @ [plain_exit rc]))
      = map (\<lambda>i. ScheduleRetryTimer
               (compute_backoff_delay (int i) (backoff_initial s) (backoff_factor s) (max_backoff s))
               (int (Suc i)) (max_retries s)) [0..<n]
    \<and> tun_status (fsm_final (tunnel_next_state repr) s (drops rc n @ [plain_exit rc])) = TFailed
    \<and> \<not> desired_running (fsm_final (tunnel_next_state repr) s (drops rc n @ [plain_exit rc]))"
proof -
  note d = drops_schedule [of s 0 n repr rc "[plain_exit rc]"]
  have z: "retry_count s = int 0" "max_retries s = int (0 + n)" using assms by simp_all
  let ?s' = "fsm_final (tunnel_next_state repr) s (drops rc n)"
  from d [OF assms(1) z] have s': "desired_running ?s'" "\<not> retry_count ?s' < max_retries ?s'"
    using assms(3) by simp_all
  then have "effects (tunnel_next_state repr ?s' (plain_exit rc)) = []"
    and "tun_status (state (tunnel_next_state repr ?s' (plain_exit rc))) = TFailed"
    and "\<not> desired_running (state (tunnel_next_state repr ?s' (plain_exit rc)))"
    by (simp_all add: plain_exit_def tunnel_next_state_def on_process_exited_def Let_def no_auth_error)
  with d [OF assms(1) z] show ?thesis
    by (simp add: fsm_final_append delay_of_def)
qed

theorem tunnel_gives_up_witness:
  "tun_status (fsm_final (tunnel_next_state small_repr)
      (tunnel_default\<lparr>desired_running := True, max_retries := 2\<rparr>) (drops 1 2 @ [plain_exit 1])) = TFailed"
  using tunnel_gives_up [of "tunnel_default\<lparr>desired_running := True, max_retries := 2\<rparr>" 2 small_repr 1]
  by (simp add: tunnel_default_def)

text \<open>With the defaults' shape (a non-negative initial delay not above the cap, a factor of at
  least 1) the delays grow with the attempt and stay between the initial delay and the cap.\<close>

theorem tunnel_backoff_monotone:
  assumes "0 \<le> initial" and "initial \<le> cap" and "1 \<le> factor" and "i \<le> j"
  shows "initial \<le> compute_backoff_delay (int i) initial factor cap \<and>
    compute_backoff_delay (int i) initial factor cap \<le> compute_backoff_delay (int j) initial factor cap \<and>
    compute_backoff_delay (int j) initial factor cap \<le> cap"
proof -
  have "1 \<le> factor ^ i" using assms(3) by (rule one_le_power)
  then have a: "initial \<le> initial * factor ^ i" using assms(1) mult_left_mono [of 1 "factor ^ i" initial] by simp
  have "factor ^ i \<le> factor ^ j" using assms(3,4) by (simp add: power_increasing)
  then have "initial * factor ^ i \<le> initial * factor ^ j" using assms(1) by (rule mult_left_mono)
  with a assms(2) show ?thesis by (auto simp: compute_backoff_delay_def power_int_def min_def)
qed

theorem tunnel_backoff_monotone_witness:
  "compute_backoff_delay 3 1 2 30 = 8 \<and> 8 \<le> compute_backoff_delay 5 1 2 30"
proof -
  have "compute_backoff_delay 3 1 2 30 = 8" by (simp add: compute_backoff_delay_def power_int_def)
  with tunnel_backoff_monotone [of 1 30 2 3 5] show ?thesis by simp
qed

text \<open>After a stop, and until the tunnel is started again, no process is started and no
  reconnection is scheduled, whatever exits, timers and URLs still arrive, and the tunnel stays
  unwanted.\<close>

theorem tunnel_stop_is_final:
  assumes "tun_kind e = StopReq" and "list_all no_start fs"
    and "t \<in> set (drop (Suc (length es)) (fsm_run (tunnel_next_state repr) s (es @ e # fs)))"
  shows "\<not> desired_running (state t) \<and> (\<forall>f \<in> set (effects t). \<not> spawns f)"
proof -
  have "\<not> desired_running (state (tunnel_next_state repr (fsm_final (tunnel_next_state repr) s es) e))"
    by (simp add: tunnel_next_state_def on_stop_requested_def assms(1))
  then show ?thesis using assms(2,3) by (rule tunnel_off.quiet_from)
qed

theorem tunnel_stop_is_final_witness:
  "\<not> desired_running (state (last (fsm_run (tunnel_next_state small_repr) tunnel_default
      ([\<lparr>tun_kind = StartReq, tun_data = []\<rparr>] @ \<lparr>tun_kind = StopReq, tun_data = []\<rparr> # [plain_exit 0]))))"
proof -
  let ?es = "[\<lparr>tun_kind = StartReq, tun_data = []\<rparr>]" and ?e = "\<lparr>tun_kind = StopReq, tun_data = []\<rparr>"
  let ?r = "fsm_run (tunnel_next_state small_repr) tunnel_default (?es @ ?e # [plain_exit 0])"
  have "last ?r \<in> set (drop (Suc (length ?es)) ?r)" by (simp add: Let_def)
  moreover have "list_all no_start [plain_exit 0]" by (simp add: no_start_def plain_exit_def)
  ultimately show ?thesis
    using tunnel_stop_is_final [of ?e "[plain_exit 0]" "last ?r" ?es small_repr tunnel_default] by simp
qed

text \<open>A URL line that is read after the stop still turns the stopped tunnel into a connected
  one: the status becomes connected and the URL is published although the tunnel is not
  wanted, and its counter and error are reset.\<close>

theorem tunnel_late_url_reconnects:
  "let s = state (tunnel_next_state repr s0 \<lparr>tun_kind = StopReq, tun_data = []\<rparr>);
       t = tunnel_next_state repr s \<lparr>tun_kind = UrlAcquired, tun_data = [(u ''url'', PStr url)]\<rparr>
   in tun_status s = TStopped \<and> tun_status (state t) = TConnected \<and> public_url (state t) = Some (strip url)
      \<and> \<not> desired_running (state t) \<and> effects t = [NotifyUrlAcquired (provider s0) (strip url)]"
  by (simp add: tunnel_defs dget_def)

end
