(* ===== verification/SendHandler.thy ===== *)
theory SendHandler
  imports Fsm PyVal
begin

text \<open>
  The state machine behind the chat sidebar's send handlers (\<open>plugin/chatbot/state_machine.py\<close>):
  audio transcription, direct image generation, external agents and web research share one
  lifecycle of start, streamed chunks, completion, stop and error. \<open>'m\<close> is the model handle
  and \<open>'x\<close> the exception type; how an exception is shown (\<open>format_error_for_display\<close>, \<open>str\<close>)
  is an argument. \<open>run_effect\<close> is the \<open>EffectInterpreter\<close>, as the calls it makes on its handler.
\<close>

subsection \<open>Effects, state, events\<close>

datatype 'm sh_effect =
    SpawnAudioWorker pystr pystr 'm pystr  \<comment> \<open>wav path, STT model, model, query\<close>
  | SpawnDirectImage pystr 'm
  | SpawnAgentWorker pystr 'm pystr
  | SpawnWebWorker pystr 'm
  | HandlerUI pystr pystr bool pystr  \<comment> \<open>kind, text, thinking, role\<close>
  | ProceedToChat pystr 'm pystr
  | CompleteJob pystr

record 'm send_handler_state =
  handler_type :: pystr
  sh_status :: pystr
  query_text :: pystr
  model :: 'm
  doc_type_str :: pystr
  sh_round_num :: int
  sh_pending_tools :: "pystr list"
  sh_max_rounds :: int
  recent_effects :: "'m sh_effect list"
  sh_last_error :: "pystr option"
  error_time :: "rat option"

datatype ('m, 'x) sh_event =
    StartEv pystr 'm pystr "pystr option" "pystr option"
  | StreamChunk pystr bool
  | StreamDone "pystr option"
  | ErrorEv 'x "rat option"
  | StopEv
  | ToolResultEv pystr

type_synonym 'm sh_transition = "('m send_handler_state, 'm sh_effect) fsm_transition"

definition ui_status :: "pystr \<Rightarrow> 'm sh_effect" where
  "ui_status text = HandlerUI (u ''status'') text False (u ''assistant'')"

definition ui_append :: "pystr \<Rightarrow> 'm sh_effect" where
  "ui_append text = HandlerUI (u ''append'') text False (u ''assistant'')"

definition ui_user :: "pystr \<Rightarrow> 'm sh_effect" where
  "ui_user text = HandlerUI (u ''append'') text False (u ''user'')"

subsection \<open>Helpers\<close>

fun is_spawn :: "'m sh_effect \<Rightarrow> bool" where
  "is_spawn (SpawnAudioWorker w s m q) = True"
| "is_spawn (SpawnDirectImage q m) = True"
| "is_spawn (SpawnAgentWorker q m d) = True"
| "is_spawn (SpawnWebWorker q m) = True"
| "is_spawn _ = False"

definition stop_effects_exclude_spawns :: "'m sh_effect list \<Rightarrow> bool" where
  "stop_effects_exclude_spawns fs \<longleftrightarrow> \<not> list_ex is_spawn fs"

definition ui_lines_for_handler_error :: "pystr \<Rightarrow> pystr \<Rightarrow> pystr \<times> pystr" where
  "ui_lines_for_handler_error htype err_msg =
     (u ''Error'',
      if htype = u ''audio'' then nl @ u ''[Transcription error: '' @ err_msg @ u '']'' @ nl
      else if htype = u ''web'' then nl @ u ''[Research Chat error: '' @ err_msg @ u '']'' @ nl
      else nl @ u ''[Operation failed: '' @ err_msg @ u '']'' @ nl)"

definition opt_truthy :: "pystr option \<Rightarrow> bool" where
  "opt_truthy x \<longleftrightarrow> x \<noteq> None \<and> x \<noteq> Some []"

definition spawn_effects_for_start ::
  "pystr \<Rightarrow> pystr \<Rightarrow> 'm \<Rightarrow> pystr \<Rightarrow> pystr option \<Rightarrow> pystr option \<Rightarrow> 'm sh_effect list" where
  "spawn_effects_for_start htype query mdl doc wav stt =
     (if htype = u ''audio'' then
        [ui_status (u ''Transcribing audio...''), ui_append (nl @ u ''[Transcribing audio...]'' @ nl)]
        @ (if opt_truthy wav \<and> opt_truthy stt
           then [SpawnAudioWorker (the wav) (the stt) mdl query] else [])
      else if htype = u ''image'' then
        [ui_user query, ui_append (nl @ u ''[Using image model (direct).]'' @ nl),
         ui_append (u ''AI: Creating image...'' @ nl), ui_status (u ''Creating image...''),
         SpawnDirectImage query mdl]
      else if htype = u ''agent'' then
        [ui_user query, ui_append (nl @ u ''[Using external agent backend.]'' @ nl),
         ui_append (u ''AI: ''), ui_status (u ''Starting agent...''), SpawnAgentWorker query mdl doc]
      else if htype = u ''web'' then
        [ui_user query, ui_status (u ''Starting research...''), SpawnWebWorker query mdl]
      else [])"

subsection \<open>Transitions\<close>

text \<open>Every branch but the error one rebuilds the state with the constructor, so the error fields
  fall back to their defaults.\<close>

definition rebuilt :: "'m send_handler_state \<Rightarrow> pystr \<Rightarrow> 'm sh_effect list \<Rightarrow> 'm sh_transition" where
  "rebuilt s st fs =
     \<lparr>state = s\<lparr>sh_status := st, recent_effects := fs, sh_last_error := None, error_time := None\<rparr>,
      effects = fs\<rparr>"

definition handle_error ::
  "('x \<Rightarrow> pystr) \<Rightarrow> ('x \<Rightarrow> pystr) \<Rightarrow> 'm send_handler_state \<Rightarrow> 'x \<Rightarrow> rat option \<Rightarrow> 'm sh_transition" where
  "handle_error display str s x time =
     (case ui_lines_for_handler_error (handler_type s) (display x) of (status_text, append_text) \<Rightarrow>
        let fs = [ui_status status_text, ui_append append_text, CompleteJob (u ''Error'')]
        in \<lparr>state = s\<lparr>sh_status := u ''error'', sh_last_error := Some (str x), error_time := time,
                        recent_effects := fs\<rparr>,
            effects = fs\<rparr>)"

definition on_stop :: "'m send_handler_state \<Rightarrow> 'm sh_transition" where
  "on_stop s =
     rebuilt s (u ''stopped'')
       ([ui_status (u ''Stopped'')]
        @ (if handler_type s = u ''agent'' then [ui_append (nl @ u ''[Stopped by user]'' @ nl)] else [])
        @ [CompleteJob (u ''Stopped'')])"

definition combined_text :: "pystr \<Rightarrow> pystr option \<Rightarrow> pystr" where
  "combined_text query resp =
     (let transcript = (case resp of None \<Rightarrow> [] | Some t \<Rightarrow> t)
      in if transcript \<noteq> []
         then (if query \<noteq> [] then strip (query @ nl @ transcript) else transcript)
         else query)"

definition on_stream_done :: "'m send_handler_state \<Rightarrow> pystr option \<Rightarrow> 'm sh_transition" where
  "on_stream_done s resp =
     (if sh_status s = u ''error'' \<or> sh_status s = u ''stopped'' then \<lparr>state = s, effects = []\<rparr>
      else rebuilt s (u ''done'')
        (if handler_type s = u ''audio'' then
           (if combined_text (query_text s) resp \<noteq> []
            then [ProceedToChat (combined_text (query_text s) resp) (model s) (doc_type_str s)]
            else [ui_status (u ''Ready''), CompleteJob (u ''Ready'')])
         else if handler_type s = u ''image'' \<or> handler_type s = u ''agent'' \<or> handler_type s = u ''web''
         then [ui_status (u ''Ready''), CompleteJob (u ''Ready'')]
         else []))"

definition on_start ::
  "'m send_handler_state \<Rightarrow> pystr \<Rightarrow> 'm \<Rightarrow> pystr \<Rightarrow> pystr option \<Rightarrow> pystr option \<Rightarrow> 'm sh_transition" where
  "on_start s query mdl doc wav stt =
     rebuilt (s\<lparr>query_text := query, model := mdl, doc_type_str := doc\<rparr>) (u ''starting'')
       (spawn_effects_for_start (handler_type s) query mdl doc wav stt)"

definition sh_next_state ::
  "('x \<Rightarrow> pystr) \<Rightarrow> ('x \<Rightarrow> pystr) \<Rightarrow> 'm send_handler_state \<Rightarrow> ('m, 'x) sh_event \<Rightarrow> 'm sh_transition" where
  "sh_next_state display str s e =
     (if sh_status s = u ''error'' then \<lparr>state = s, effects = []\<rparr>
      else case e of
        StopEv \<Rightarrow> on_stop s
      | ErrorEv x time \<Rightarrow> handle_error display str s x time
      | StreamChunk text thinking \<Rightarrow>
          rebuilt s (sh_status s) [HandlerUI (u ''append'') text thinking (u ''assistant'')]
      | StreamDone resp \<Rightarrow> on_stream_done s resp
      | StartEv query mdl doc wav stt \<Rightarrow> on_start s query mdl doc wav stt
      | ToolResultEv tid \<Rightarrow> \<lparr>state = s, effects = []\<rparr>)"

lemmas sh_defs = sh_next_state_def on_stop_def on_stream_done_def on_start_def rebuilt_def
  handle_error_def ui_lines_for_handler_error_def Let_def

subsection \<open>The effect interpreter\<close>

datatype 'm handler_call =
    AppendResponse pystr pystr
  | SetStatus pystr
  | SetTerminalStatus pystr
  | ExecuteAudio pystr pystr 'm pystr
  | ExecuteDirectImage pystr 'm
  | ExecuteAgentBackend pystr 'm pystr
  | ExecuteWebResearch pystr 'm
  | SendChatWithTools pystr 'm pystr

fun run_effect :: "'m sh_effect \<Rightarrow> 'm handler_call list" where
  "run_effect (HandlerUI kind text thinking role) =
     (if kind = u ''append'' then [AppendResponse text role]
      else if kind = u ''status'' then [SetStatus text] else [])"
| "run_effect (CompleteJob status) =
     SetTerminalStatus status #
     (if status \<noteq> u ''Error'' \<and> status \<noteq> u ''Stopped''
      then [SetTerminalStatus (u ''Ready''), SetStatus (u ''Ready'')] else [])"
| "run_effect (SpawnAudioWorker w st m q) = [ExecuteAudio w st m q]"
| "run_effect (SpawnDirectImage q m) = [ExecuteDirectImage q m]"
| "run_effect (SpawnAgentWorker q m d) = [ExecuteAgentBackend q m d]"
| "run_effect (SpawnWebWorker q m) = [ExecuteWebResearch q m]"
| "run_effect (ProceedToChat c m d) = [SendChatWithTools c m d]"

fun terminal_status :: "'m handler_call list \<Rightarrow> pystr option" where
  "terminal_status [] = None"
| "terminal_status (SetTerminalStatus st # cs) =
     (case terminal_status cs of None \<Rightarrow> Some st | Some st' \<Rightarrow> Some st')"
| "terminal_status (c # cs) = terminal_status cs"

subsection \<open>Latches\<close>

fun finishes :: "'m sh_effect \<Rightarrow> bool" where
  "finishes (CompleteJob st) = True"
| "finishes (ProceedToChat c m d) = True"
| "finishes _ = False"

interpretation sh_error: fsm_quiet_latch "sh_next_state display str" "\<lambda>e. True"
    "\<lambda>s. sh_status s = u ''error''" "\<lambda>f. False"
  by unfold_locales (simp_all add: sh_next_state_def)

fun not_start :: "('m, 'x) sh_event \<Rightarrow> bool" where
  "not_start (StartEv q m d w s) = False"
| "not_start _ = True"

text \<open>What may still reach the user after a stop: text, status lines and a late error.\<close>

fun stopped_quiet :: "'m sh_effect \<Rightarrow> bool" where
  "stopped_quiet (CompleteJob st) \<longleftrightarrow> st = u ''Stopped'' \<or> st = u ''Error''"
| "stopped_quiet (ProceedToChat c m d) = False"
| "stopped_quiet f \<longleftrightarrow> \<not> is_spawn f"

interpretation sh_stopped: fsm_quiet_latch "sh_next_state display str" not_start
    "\<lambda>s. sh_status s = u ''stopped'' \<or> sh_status s = u ''error''" stopped_quiet
proof unfold_locales
  fix e s
  show "not_start e \<Longrightarrow> sh_status s = u ''stopped'' \<or> sh_status s = u ''error'' \<Longrightarrow>
      sh_status (state (sh_next_state display str s e)) = u ''stopped'' \<or>
      sh_status (state (sh_next_state display str s e)) = u ''error''"
    by (cases e) (auto simp: sh_defs)
next
  fix e s f
  show "not_start e \<Longrightarrow> sh_status s = u ''stopped'' \<or> sh_status s = u ''error'' \<Longrightarrow>
      f \<in> set (effects (sh_next_state display str s e)) \<Longrightarrow> stopped_quiet f"
    by (cases e) (auto simp: sh_defs ui_status_def ui_append_def split: if_splits)
qed

text \<open>The bookkeeping of a state: its last effects, and an error message exactly in the error
  status.\<close>

definition sh_inv :: "'m send_handler_state \<Rightarrow> bool" where
  "sh_inv s \<longleftrightarrow> sh_round_num s \<le> sh_max_rounds s \<and> (sh_last_error s \<noteq> None \<longleftrightarrow> sh_status s = u ''error'')"

text \<open>A job that completes says so in the state it leaves: the terminal status and the status of
  the machine agree.\<close>

fun sh_eff_ok :: "'m send_handler_state \<Rightarrow> 'm sh_effect \<Rightarrow> bool" where
  "sh_eff_ok s (CompleteJob st) \<longleftrightarrow>
     (st = u ''Error'' \<and> sh_status s = u ''error'') \<or> (st = u ''Stopped'' \<and> sh_status s = u ''stopped'') \<or>
     (st = u ''Ready'' \<and> sh_status s = u ''done'')"
| "sh_eff_ok s (ProceedToChat c m d) \<longleftrightarrow> sh_status s = u ''done'' \<and> c \<noteq> [] \<and> handler_type s = u ''audio''"
| "sh_eff_ok s (HandlerUI kind text thinking role) \<longleftrightarrow> kind = u ''append'' \<or> kind = u ''status''"
| "sh_eff_ok s f \<longleftrightarrow> sh_status s = u ''starting''"

interpretation handler: fsm_safety "sh_next_state display str" sh_inv sh_eff_ok
proof unfold_locales
  fix s e
  show "sh_inv s \<Longrightarrow> sh_inv (state (sh_next_state display str s e))"
    by (cases e) (auto simp: sh_defs sh_inv_def)
next
  fix s f e
  show "sh_inv s \<Longrightarrow> f \<in> set (effects (sh_next_state display str s e)) \<Longrightarrow>
      sh_eff_ok (state (sh_next_state display str s e)) f"
    by (cases e)
      (auto simp: sh_defs ui_status_def ui_append_def ui_user_def spawn_effects_for_start_def
        split: if_splits)
qed

subsection \<open>Properties\<close>

text \<open>In every run from a state whose error field matches its status, the round counter stays
  within its bound and the error field keeps matching; every completion reported to the job agrees
  with the status of the state it leaves (Error, Stopped or Ready for error, stopped or done),
  only a finished audio job continues into a chat, and only with text, workers are spawned only
  on the way into starting, and UI effects are of the two kinds the interpreter acts on.\<close>

theorem handler_run_safe:
  assumes "sh_round_num s \<le> sh_max_rounds s"
    and "sh_last_error s \<noteq> None \<longleftrightarrow> sh_status s = u ''error''"
    and "t \<in> set (fsm_run (sh_next_state display str) s es)"
  shows "sh_inv (state t) \<and> (\<forall>f \<in> set (effects t). sh_eff_ok (state t) f)"
proof -
  have "sh_inv s" using assms(1,2) by (simp add: sh_inv_def)
  from handler.run_inv [OF this assms(3)] handler.run_eff [OF this assms(3)] show ?thesis by blast
qed

definition ready_state :: "string \<Rightarrow> nat send_handler_state" where
  "ready_state h = \<lparr>handler_type = u h, sh_status = u ''ready'', query_text = [], model = 0,
     doc_type_str = [], sh_round_num = 0, sh_pending_tools = [], sh_max_rounds = 10,
     recent_effects = [], sh_last_error = None, error_time = None\<rparr>"

theorem handler_run_safe_witness:
  "sh_inv (state (last (fsm_run (sh_next_state id id) (ready_state ''web'') [StartEv (u ''q'') 0 [] None None, StopEv])))"
proof -
  let ?r = "fsm_run (sh_next_state id id) (ready_state ''web'') [StartEv (u ''q'') 0 [] None None, StopEv]"
  have "last ?r \<in> set ?r" by (simp add: Let_def)
  moreover have "sh_round_num (ready_state ''web'') \<le> sh_max_rounds (ready_state ''web'')"
    and "sh_last_error (ready_state ''web'') \<noteq> None \<longleftrightarrow> sh_status (ready_state ''web'') = u ''error''"
    by (simp_all add: ready_state_def)
  ultimately show ?thesis using handler_run_safe by blast
qed

text \<open>After a stop (of a job that had not failed), and until the next start, no worker is
  spawned, no chat is sent and the job is not reported Ready, whatever chunks, completions, tool
  results, errors and further stops still arrive.\<close>

theorem handler_stop_is_final:
  assumes "sh_status (fsm_final (sh_next_state display str) s es) \<noteq> u ''error''"
    and "list_all not_start fs"
    and "t \<in> set (drop (Suc (length es)) (fsm_run (sh_next_state display str) s (es @ StopEv # fs)))"
  shows "(sh_status (state t) = u ''stopped'' \<or> sh_status (state t) = u ''error'') \<and>
    (\<forall>f \<in> set (effects t). stopped_quiet f)"
proof -
  have "sh_status (state (sh_next_state display str (fsm_final (sh_next_state display str) s es) StopEv)) = u ''stopped''"
    using assms(1) by (simp add: sh_defs)
  then have "sh_status (state (sh_next_state display str (fsm_final (sh_next_state display str) s es) StopEv)) = u ''stopped''
    \<or> sh_status (state (sh_next_state display str (fsm_final (sh_next_state display str) s es) StopEv)) = u ''error''" ..
  then show ?thesis using assms(2,3) by (rule sh_stopped.quiet_from)
qed

theorem handler_stop_is_final_witness:
  "list_all stopped_quiet (effects (last (fsm_run (sh_next_state id id) (ready_state ''web'')
      ([StartEv (u ''q'') 0 [] None None] @ StopEv # [StreamDone (Some (u ''late''))]))))"
proof -
  let ?es = "[StartEv (u ''q'') 0 [] None None]" and ?fs = "[StreamDone (Some (u ''late''))]"
  let ?r = "fsm_run (sh_next_state id id) (ready_state ''web'') (?es @ StopEv # ?fs)"
  have "last ?r \<in> set (drop (Suc (length ?es)) ?r)" by (simp add: Let_def)
  moreover have "list_all not_start ?fs" by simp
  moreover have "sh_status (fsm_final (sh_next_state id id) (ready_state ''web'') ?es) \<noteq> u ''error''"
    by (simp add: sh_defs ready_state_def)
  ultimately show ?thesis
    using handler_stop_is_final [of id id "ready_state ''web''" ?es ?fs "last ?r"]
    unfolding list_all_iff by blast
qed

text \<open>A failed job is dead: from the error status no event, not even a new start, changes the
  state or has an effect.\<close>

theorem handler_error_absorbs:
  assumes "sh_status s = u ''error''"
  shows "fsm_final (sh_next_state display str) s es = s \<and> run_effects (sh_next_state display str) s es = []"
proof -
  have one: "sh_next_state display str s e = \<lparr>state = s, effects = []\<rparr>" for e
    by (simp add: sh_next_state_def assms)
  show ?thesis by (induction es) (simp_all add: one)
qed

theorem handler_error_absorbs_witness:
  "run_effects (sh_next_state id id) ((ready_state ''web'')\<lparr>sh_status := u ''error''\<rparr>)
     [StartEv (u ''q'') 0 [] None None] = []"
  using handler_error_absorbs [of "(ready_state ''web'')\<lparr>sh_status := u ''error''\<rparr>" id id
      "[StartEv (u ''q'') 0 [] None None]"] by simp

text \<open>A start spawns exactly one worker, of the kind of its handler and with the query and
  model it was given, after telling the user so; an audio start without a recording or a
  transcription model spawns none, and neither does an unknown kind.\<close>

theorem handler_start_spawns_one:
  assumes "sh_status s \<noteq> u ''error''"
  shows "filter is_spawn (effects (sh_next_state display str s (StartEv q m d wav stt))) =
      (if handler_type s = u ''audio''
       then (if opt_truthy wav \<and> opt_truthy stt then [SpawnAudioWorker (the wav) (the stt) m q] else [])
       else if handler_type s = u ''image'' then [SpawnDirectImage q m]
       else if handler_type s = u ''agent'' then [SpawnAgentWorker q m d]
       else if handler_type s = u ''web'' then [SpawnWebWorker q m] else [])
    \<and> filter finishes (effects (sh_next_state display str s (StartEv q m d wav stt))) = []
    \<and> sh_status (state (sh_next_state display str s (StartEv q m d wav stt))) = u ''starting''"
  using assms
  by (auto simp: sh_next_state_def on_start_def rebuilt_def spawn_effects_for_start_def
      ui_status_def ui_append_def ui_user_def)

theorem handler_start_spawns_one_witness:
  "filter is_spawn (effects (sh_next_state id id (ready_state ''image'') (StartEv (u ''cat'') 7 [] None None)))
     = [SpawnDirectImage (u ''cat'') 7]"
  using handler_start_spawns_one [of "ready_state ''image''" id id "u ''cat''" 7 "[]" None None]
  by (simp add: ready_state_def)

text \<open>Interpreting the effects of a job's last event leaves the panel with the terminal status
  Error after an error, Stopped after a stop and Ready after a completion that does not continue
  into a chat; no other event touches the terminal status.\<close>

theorem handler_terminal_status:
  assumes "sh_status s \<noteq> u ''error''"
  shows "terminal_status (concat (map run_effect (effects (sh_next_state display str s e)))) =
      (case e of
         StopEv \<Rightarrow> Some (u ''Stopped'')
       | ErrorEv x time \<Rightarrow> Some (u ''Error'')
       | StreamDone resp \<Rightarrow>
           if sh_status s \<noteq> u ''stopped'' \<and>
              ((handler_type s = u ''audio'' \<and> combined_text (query_text s) resp = [])
               \<or> handler_type s = u ''image'' \<or> handler_type s = u ''agent'' \<or> handler_type s = u ''web'')
           then Some (u ''Ready'') else None
       | _ \<Rightarrow> None)"
  using assms
  by (cases e)
    (auto simp: sh_defs ui_status_def ui_append_def ui_user_def spawn_effects_for_start_def)

theorem handler_terminal_status_witness:
  "terminal_status (concat (map run_effect (effects (sh_next_state id id (ready_state ''agent'') StopEv))))
     = Some (u ''Stopped'')"
  using handler_terminal_status [of "ready_state ''agent''" id id StopEv] by (simp add: ready_state_def)

end
