(* ===== verification/ToolLoop.thy ===== *)
theory ToolLoop
  imports Fsm PyVal
begin

text \<open>
  The tool-calling loop of the chat (\<open>plugin/chatbot/tool_loop_state.py\<close>): one round asks the
  model, runs the tools it calls one after the other, and sends the results back, until the model
  answers without tools, the rounds are used up, an error occurs or the user stops.
  One definition per helper and per event branch of \<open>next_state\<close>.

  \<open>tl_env\<close> collects the functions of other modules and of the standard library the branches
  call: \<open>safe_json_loads\<close>, \<open>json.dumps\<close> (\<open>None\<close> when it raises), \<open>repr\<close>,
  \<open>reasoning_replay_from_assistant_response\<close> and \<open>format_research_cache_result_chat\<close>. The
  theorems hold for all of them.
\<close>

record tl_env =
  loads :: "pyval \<Rightarrow> pyval"
  dumps_compact :: "pydict \<Rightarrow> pystr option"
  dumps_indent :: "pydict \<Rightarrow> pystr"
  py_repr :: "pyval \<Rightarrow> pystr"
  replay_of :: "pydict \<Rightarrow> pydict"
  cache_chat :: "pydict \<Rightarrow> pystr"

definition fmt :: "tl_env \<Rightarrow> pyval \<Rightarrow> pystr" where
  "fmt E v = py_str (py_repr E) v"

subsection \<open>Chat lines\<close>

definition delegate_gateway_tool_names :: "pystr list" where
  "delegate_gateway_tool_names =
     [u ''delegate_to_specialized_writer_toolset'', u ''delegate_to_specialized_calc_toolset'',
      u ''delegate_to_specialized_draw_toolset'']"

definition is_delegate_gateway :: "pystr \<Rightarrow> bool" where
  "is_delegate_gateway f \<longleftrightarrow> f \<in> set delegate_gateway_tool_names"

definition describe_empty_response_content :: "tl_env \<Rightarrow> pyval \<Rightarrow> pystr" where
  "describe_empty_response_content E content =
     (if content = PNone then u ''None''
      else if content = PStr [] then u ''empty''
      else let s = fmt E content
           in if length s \<le> 120
              then str_of_int (int (length s)) @ u '' chars: '' @ py_repr E (PStr s)
              else str_of_int (int (length s)) @ u '' chars: ''
                   @ py_repr E (PStr (take (120 - 3) s)) @ u ''...'')"

definition describe_empty_response_tool_calls :: "pyval \<Rightarrow> pystr" where
  "describe_empty_response_tool_calls tc =
     (if tc = PNone then u ''none''
      else if is_list tc then str_of_int (int (length (as_list tc))) else u ''present'')"

definition format_empty_model_response_debug :: "tl_env \<Rightarrow> int \<Rightarrow> pydict \<Rightarrow> pystr" where
  "format_empty_model_response_debug E round_num response =
     (let usage = dget response ''usage'' PNone;
          images = dget response ''images'' PNone;
          parts =
            [u ''round='' @ str_of_int round_num,
             u ''finish_reason='' @ py_repr E (dget response ''finish_reason'' PNone),
             u ''content='' @ describe_empty_response_content E (dget response ''content'' PNone),
             u ''tool_calls='' @ describe_empty_response_tool_calls (dget response ''tool_calls'' PNone)]
            @ (if is_dict usage \<and> truthy usage
               then (case dumps_compact E (as_dict usage) of
                       Some s \<Rightarrow> [u ''usage='' @ s]
                     | None \<Rightarrow> [u ''usage='' @ str_of_int (int (length (as_dict usage))) @ u '' entries''])
               else [])
            @ (if is_list images \<and> truthy images
               then [u ''images='' @ str_of_int (int (length (as_list images)))] else [])
      in join (u '', '') parts)"

definition domain_from_delegate_args :: "pydict \<Rightarrow> pystr" where
  "domain_from_delegate_args args =
     (case dget args ''domain'' PNone of
        PStr d \<Rightarrow> if strip d \<noteq> [] then strip d else u ''?''
      | _ \<Rightarrow> u ''?'')"

definition delegate_status_label :: "pydict \<Rightarrow> pystr" where
  "delegate_status_label args = u ''delegate ('' @ domain_from_delegate_args args @ u '')''"

definition one_line :: "pystr \<Rightarrow> pystr" where
  "one_line s = replace_all [13] (u '' '') (replace_all [10] (u '' '') s)"

definition truncate_delegate_task :: "pystr \<Rightarrow> nat \<Rightarrow> pystr" where
  "truncate_delegate_task task max_len =
     (let s = strip (one_line task)
      in if length s \<le> max_len then s else take (max_len - 3) s @ u ''...'')"

definition format_delegate_running_chat_line :: "tl_env \<Rightarrow> pydict \<Rightarrow> pystr" where
  "format_delegate_running_chat_line E args =
     (let domain = domain_from_delegate_args args;
          raw = dget args ''task'' PNone;
          preview = (if raw = PNone then [] else truncate_delegate_task (fmt E raw) 120)
      in if preview \<noteq> []
         then u ''[Running delegate ('' @ domain @ u ''): '' @ preview @ u '']'' @ nl
         else u ''[Running delegate ('' @ domain @ u '')...]'' @ nl)"

definition format_delegate_result_chat_line :: "tl_env \<Rightarrow> pydict \<Rightarrow> pydict \<Rightarrow> pystr" where
  "format_delegate_result_chat_line E args res =
     (let domain = domain_from_delegate_args args
      in if dget res ''status'' PNone = PStr (u ''error'')
         then u ''[delegate ('' @ domain @ u '') failed: ''
              @ fmt E (dget res ''message'' (PStr (u ''Unknown error''))) @ u '']'' @ nl
         else (if domain = u ''web_research'' then cache_chat E res else [])
              @ u ''[delegate ('' @ domain @ u ''): done]'' @ nl)"

definition format_upsert_memory_chat_line :: "tl_env \<Rightarrow> pydict \<Rightarrow> pystr" where
  "format_upsert_memory_chat_line E args =
     (case dget args ''key'' PNone of
        PStr key \<Rightarrow>
          (let raw = dget args ''content'' (PStr []);
               val = (if raw = PNone then [] else fmt E raw);
               s = one_line val;
               s' = (if length s > 400 then take (400 - 3) s @ u ''...'' else s)
           in u ''[Memory update: key '' @ py_repr E (PStr key) @ u '' value '' @ py_repr E (PStr s')
              @ u '']'' @ nl)
      | _ \<Rightarrow> u ''[Running tool: upsert_memory...]'' @ nl)"

text \<open>\<open>object_dict_or_empty\<close> is \<open>as_dict\<close>. A pending tool call is normalised to its name,
  its argument string and its id; a field of another type falls back to its default.\<close>

definition pending_tool_call_fields :: "pyval \<Rightarrow> pystr \<times> pystr \<times> pystr" where
  "pending_tool_call_fields tc =
     (let d = as_dict tc;
          f = as_dict (dget d ''function'' PNone)
      in (str_or (u ''unknown'') (dget f ''name'' (PStr (u ''unknown''))),
          str_or (u ''{}'') (dget f ''arguments'' (PStr (u ''{}''))),
          str_or [] (dget d ''id'' (PStr []))))"

definition format_tool_running_ui :: "tl_env \<Rightarrow> pystr \<Rightarrow> pydict \<Rightarrow> pystr \<times> pystr" where
  "format_tool_running_ui E f args =
     (if is_delegate_gateway f
      then (u ''Running: '' @ delegate_status_label args, format_delegate_running_chat_line E args)
      else if f = u ''upsert_memory''
      then (u ''Running: '' @ f, format_upsert_memory_chat_line E args)
      else (u ''Running: '' @ f, u ''[Running tool: '' @ f @ u ''...]'' @ nl))"

text \<open>The lines after an error: its details without the traceback, which is shown apart. The
  dict is copied before the traceback is popped.\<close>

definition error_details_lines :: "tl_env \<Rightarrow> pydict \<Rightarrow> pystr" where
  "error_details_lines E res =
     (let details = as_dict (dget res ''details'' (PDict []))
      in if details = [] then []
         else let tb = dget details ''traceback'' PNone;
                  rest = AList.delete (u ''traceback'') details
              in (if rest \<noteq> [] then u ''Details: '' @ dumps_indent E rest @ nl else [])
                 @ (if is_str tb \<and> strip (str_or [] tb) \<noteq> [] \<and> strip (str_or [] tb) \<noteq> u ''NoneType: None''
                    then u ''Traceback:'' @ nl @ str_or [] tb @ nl else []))"

definition result_note :: "pydict \<Rightarrow> pyval" where
  "result_note res = dget res ''message'' (dget res ''status'' (PStr (u ''done'')))"

definition format_tool_result_chat_text :: "tl_env \<Rightarrow> pystr \<Rightarrow> pydict \<Rightarrow> pydict \<Rightarrow> pystr" where
  "format_tool_result_chat_text E f args res =
     (if dget res ''status'' PNone = PStr (u ''error'')
      then (if is_delegate_gateway f then format_delegate_result_chat_line E args res
            else u ''['' @ f @ u '' failed: ''
                 @ fmt E (dget res ''message'' (PStr (u ''Unknown error''))) @ u '']'' @ nl)
           @ error_details_lines E res
      else if is_delegate_gateway f then format_delegate_result_chat_line E args res
      else (if f = u ''web_research'' then cache_chat E res else [])
           @ u ''['' @ f @ u '': '' @ fmt E (result_note res) @ u '']'' @ nl)"

text \<open>\<open>x == 0\<close>: \<open>False\<close> and \<open>0.0\<close> are equal to it.\<close>

fun eq_zero :: "pyval \<Rightarrow> bool" where
  "eq_zero (PInt i) = (i = 0)"
| "eq_zero (PBool b) = (\<not> b)"
| "eq_zero (PFloat r) = (r = 0)"
| "eq_zero _ = False"

definition is_replaced_zero_result :: "pydict \<Rightarrow> pyval \<Rightarrow> bool" where
  "is_replaced_zero_result res note \<longleftrightarrow>
     eq_zero (dget res ''replaced_count'' PNone)
     \<or> (case note of PStr s \<Rightarrow> prefix (u ''Replaced 0 occurrence'') (strip s) | _ \<Rightarrow> False)"

subsection \<open>State, events, effects\<close>

record tool_loop_state =
  tl_round_num :: int
  tl_pending_tools :: "pyval list"
  tl_max_rounds :: int
  tl_status :: pystr
  tl_is_stopped :: bool
  tl_doc_type :: pystr
  tl_async_tools :: "pystr list"

datatype tl_event_kind = StopRequest | StreamDoneKind | NextTool | ToolResult | FinalDone | LoopError

record tl_event =
  tl_kind :: tl_event_kind
  tl_data :: pydict

datatype tl_effect =
    ExitLoop
  | TriggerNextTool
  | SpawnFinalStream
  | UpdateDocumentContext
  | SpawnLLMWorker int
  | SpawnToolWorker pystr pystr pystr pydict bool
      \<comment> \<open>call id, function, argument string, parsed arguments, asynchronous\<close>
  | LoopUI pystr pystr  \<comment> \<open>kind, text\<close>
  | LogAgent pystr pystr pydict pystr
  | AddMessage pystr pyval "pyval list option" pyval "pydict option"
      \<comment> \<open>role, content, tool calls, call id, reasoning replay\<close>
  | UpdateActivityState pystr "int option" "pystr option"
  | CleanupAudio

type_synonym tl_transition = "(tool_loop_state, tl_effect) fsm_transition"

fun is_tool_spawn :: "tl_effect \<Rightarrow> bool" where
  "is_tool_spawn (SpawnToolWorker i f s a b) = True"
| "is_tool_spawn _ = False"

definition stopped_effects_exclude_tool_spawns :: "tool_loop_state \<Rightarrow> tl_effect list \<Rightarrow> bool" where
  "stopped_effects_exclude_tool_spawns s fs \<longleftrightarrow> (if \<not> tl_is_stopped s then True else \<not> list_ex is_tool_spawn fs)"

definition status_ui :: "pystr \<Rightarrow> tl_effect" where
  "status_ui t = LoopUI (u ''status'') t"

definition append_ui :: "pystr \<Rightarrow> tl_effect" where
  "append_ui t = LoopUI (u ''append'') t"

definition debug_ui :: "pystr \<Rightarrow> tl_effect" where
  "debug_ui t = LoopUI (u ''debug'') t"

definition assistant_text :: "pystr \<Rightarrow> tl_effect" where
  "assistant_text t = AddMessage (u ''assistant'') (PStr t) None PNone None"

subsection \<open>The transition function\<close>

definition on_stop_request :: "tool_loop_state \<Rightarrow> tl_transition" where
  "on_stop_request s =
     \<lparr>state = s\<lparr>tl_is_stopped := True, tl_status := u ''Stopped''\<rparr>,
      effects = [assistant_text (u ''No response.''), status_ui (u ''Stopped''),
                 append_ui (nl @ u ''[Stopped by user]'' @ nl), ExitLoop]\<rparr>"

definition on_final_done :: "tl_env \<Rightarrow> tool_loop_state \<Rightarrow> pydict \<Rightarrow> tl_transition" where
  "on_final_done E s d =
     (let content = dget d ''content'' PNone
      in \<lparr>state = s\<lparr>tl_status := u ''Ready''\<rparr>,
          effects =
            (if truthy content
             then [AddMessage (u ''assistant'') content None PNone (Some (replay_of E d)), append_ui nl]
             else []) @ [status_ui (u ''Ready''), ExitLoop]\<rparr>)"

definition on_loop_error :: "tool_loop_state \<Rightarrow> tl_transition" where
  "on_loop_error s = \<lparr>state = s\<lparr>tl_status := u ''Error''\<rparr>, effects = [ExitLoop]\<rparr>"

text \<open>A response without tool calls ends the loop; what the chat shows for an empty one depends
  on the finish reason.\<close>

definition banner_effects :: "pystr \<Rightarrow> tl_effect list" where
  "banner_effects b = [append_ui (nl @ b @ nl), assistant_text b]"

definition answer_effects :: "tl_env \<Rightarrow> tool_loop_state \<Rightarrow> pydict \<Rightarrow> tl_effect list" where
  "answer_effects E s response =
     (let content = dget response ''content'' PNone;
          finish_reason = dget response ''finish_reason'' PNone
      in if truthy content
         then [debug_ui (u ''Tool loop: Adding assistant message to session''),
               AddMessage (u ''assistant'') content None PNone (Some (replay_of E response)),
               append_ui nl]
         else if finish_reason = PStr (u ''length'')
         then banner_effects (u ''[Response truncated -- the model ran out of tokens...]'')
         else if finish_reason = PStr (u ''content_filter'')
         then banner_effects (u ''[Content filter: response was truncated.]'')
         else let banner = u ''[No text from model; any tool changes were still applied.]'';
                  debug = u ''[Debug: '' @ format_empty_model_response_debug E (tl_round_num s) response
                          @ u '']''
              in [append_ui (nl @ banner @ nl), append_ui (nl @ debug @ nl),
                  assistant_text (banner @ nl @ debug)])"

definition requested_tools :: "pydict \<Rightarrow> pyval list" where
  "requested_tools d = as_list (dget (as_dict (dget d ''response'' (PDict []))) ''tool_calls'' PNone)"

definition on_stream_done_event :: "tl_env \<Rightarrow> tool_loop_state \<Rightarrow> pydict \<Rightarrow> tl_transition" where
  "on_stream_done_event E s d =
     (let response = as_dict (dget d ''response'' (PDict []));
          has_audio = dget d ''has_audio'' (PBool False);
          tool_calls = requested_tools d;
          content = dget response ''content'' PNone;
          pre = (if truthy has_audio then [CleanupAudio] else [])
                @ [LogAgent (u ''tool_loop.py:tool_round'') (u ''Tool loop round response'')
                     [(u ''round'', PInt (tl_round_num s)),
                      (u ''has_tool_calls'', PBool (tool_calls \<noteq> [])),
                      (u ''num_tool_calls'', PInt (int (length tool_calls)))] (u ''A'')]
      in if tool_calls = []
         then \<lparr>state = s\<lparr>tl_status := u ''Ready''\<rparr>,
               effects = pre
                 @ [LogAgent (u ''tool_loop.py:exit_no_tools'') (u ''Exiting loop: no tool_calls'')
                      [(u ''round'', PInt (tl_round_num s))] (u ''A'')]
                 @ answer_effects E s response
                 @ [status_ui (u ''Ready''), ExitLoop]\<rparr>
         else \<lparr>state = s\<lparr>tl_pending_tools := tl_pending_tools s @ tool_calls\<rparr>,
               effects = pre
                 @ [AddMessage (u ''assistant'') content (Some tool_calls) PNone
                      (Some (replay_of E response))]
                 @ (if truthy content then [append_ui nl] else [])
                 @ [TriggerNextTool]\<rparr>)"

definition on_round_over :: "tool_loop_state \<Rightarrow> tl_transition" where
  "on_round_over s =
     (let pre = (if \<not> tl_is_stopped s then [status_ui (u ''Sending results to AI...'')] else []);
          new_round = tl_round_num s + 1
      in if new_round \<ge> tl_max_rounds s
         then \<lparr>state = s\<lparr>tl_round_num := max (tl_round_num s) (tl_max_rounds s)\<rparr>,
               effects = pre
                 @ [LogAgent (u ''tool_loop.py:exit_exhausted'')
                      (u ''Exiting loop: exhausted max_tool_rounds'')
                      [(u ''rounds'', PInt (tl_max_rounds s))] (u ''A''), SpawnFinalStream]\<rparr>
         else \<lparr>state = s\<lparr>tl_round_num := new_round\<rparr>, effects = pre @ [SpawnLLMWorker new_round]\<rparr>)"

definition parsed_args :: "tl_env \<Rightarrow> pyval \<Rightarrow> pydict" where
  "parsed_args E v = as_dict (if truthy v then loads E v else PDict [])"

definition on_run_tool :: "tl_env \<Rightarrow> tool_loop_state \<Rightarrow> pyval \<Rightarrow> pyval list \<Rightarrow> tl_transition" where
  "on_run_tool E s tc rest =
     (case pending_tool_call_fields tc of (f, arg_str, call_id) \<Rightarrow>
        let args = parsed_args E (PStr arg_str);
            (status_text, run_line) = format_tool_running_ui E f args
        in \<lparr>state = s\<lparr>tl_pending_tools := rest\<rparr>,
            effects =
              [status_ui status_text, append_ui run_line,
               UpdateActivityState (u ''tool_execute'') (Some (tl_round_num s)) (Some f),
               LogAgent (u ''tool_loop.py:tool_execute'') (u ''Executing tool'')
                 [(u ''tool'', PStr f), (u ''round'', PInt (tl_round_num s))] (u ''C,D,E''),
               debug_ui (u ''Tool call: '' @ f @ u ''('' @ arg_str @ u '')''),
               SpawnToolWorker call_id f arg_str args (f \<in> set (tl_async_tools s))]\<rparr>)"

definition on_next_tool :: "tl_env \<Rightarrow> tool_loop_state \<Rightarrow> tl_transition" where
  "on_next_tool E s =
     (case tl_pending_tools s of
        [] \<Rightarrow> on_round_over s
      | tc # rest \<Rightarrow> if tl_is_stopped s then on_round_over s else on_run_tool E s tc rest)"

definition params_display :: "pystr \<Rightarrow> pystr" where
  "params_display s = (if length s \<le> 800 then s else take 800 s @ u ''...'')"

definition on_tool_result :: "tl_env \<Rightarrow> tool_loop_state \<Rightarrow> pydict \<Rightarrow> tl_transition" where
  "on_tool_result E s d =
     (let result = dget d ''result'' (PStr []);
          f = fmt E (dget d ''func_name'' (PStr []));
          arg_str = dget d ''func_args_str'' (PStr []);
          call_id = dget d ''call_id'' (PStr []);
          mutates = dget d ''mutates_document'' (PBool False);
          res = parsed_args E result;
          args = parsed_args E arg_str;
          note = (if dget res ''status'' PNone = PStr (u ''error'')
                  then dget res ''message'' (PStr (u ''Unknown error'')) else result_note res);
          is_success = (dget res ''success'' PNone = PBool True
                        \<or> dget res ''status'' PNone = PStr (u ''ok''))
      in \<lparr>state = s,
          effects =
            [debug_ui (u ''Tool result: '' @ fmt E result),
             append_ui (format_tool_result_chat_text E f args res)]
            @ (if f = u ''apply_document_content'' \<and> is_replaced_zero_result res note
               then [append_ui (u ''[Debug: params '' @ params_display (str_or [] arg_str) @ u '']'' @ nl)]
               else [])
            @ [AddMessage (u ''tool'') result None call_id None]
            @ (if is_success \<and> truthy mutates then [UpdateDocumentContext] else [])
            @ [TriggerNextTool]\<rparr>)"

definition tl_next_state :: "tl_env \<Rightarrow> tool_loop_state \<Rightarrow> tl_event \<Rightarrow> tl_transition" where
  "tl_next_state E s e =
     (case tl_kind e of
        StopRequest \<Rightarrow> on_stop_request s
      | FinalDone \<Rightarrow> on_final_done E s (tl_data e)
      | LoopError \<Rightarrow> on_loop_error s
      | StreamDoneKind \<Rightarrow> on_stream_done_event E s (tl_data e)
      | NextTool \<Rightarrow> on_next_tool E s
      | ToolResult \<Rightarrow> on_tool_result E s (tl_data e))"

lemmas tl_branches = on_stop_request_def on_final_done_def on_loop_error_def on_stream_done_event_def
  on_round_over_def on_run_tool_def on_next_tool_def on_tool_result_def

lemmas ui_defs = status_ui_def append_ui_def debug_ui_def assistant_text_def banner_effects_def

subsection \<open>Control flow: one control effect per event\<close>

text \<open>The effects that decide what happens next; all others only report.\<close>

fun is_control :: "tl_effect \<Rightarrow> bool" where
  "is_control ExitLoop = True"
| "is_control TriggerNextTool = True"
| "is_control SpawnFinalStream = True"
| "is_control (SpawnLLMWorker r) = True"
| "is_control (SpawnToolWorker i f s a b) = True"
| "is_control _ = False"

lemma is_control_ui [simp]:
  "\<not> is_control (status_ui t)" "\<not> is_control (append_ui t)" "\<not> is_control (debug_ui t)"
  "\<not> is_control (assistant_text t)"
  by (simp_all add: ui_defs)

lemma is_tool_spawn_control: "is_tool_spawn f \<Longrightarrow> is_control f"
  by (cases f) simp_all

lemma answer_effects_no_control [simp]: "filter is_control (answer_effects E s r) = []"
  by (simp add: answer_effects_def banner_effects_def Let_def)

text \<open>The control effect of each event, by the case it is in.\<close>

definition tool_spawn_of :: "tl_env \<Rightarrow> tool_loop_state \<Rightarrow> pyval \<Rightarrow> tl_effect" where
  "tool_spawn_of E s tc =
     (case pending_tool_call_fields tc of (f, arg_str, call_id) \<Rightarrow>
        SpawnToolWorker call_id f arg_str (parsed_args E (PStr arg_str)) (f \<in> set (tl_async_tools s)))"

definition round_control :: "tool_loop_state \<Rightarrow> tl_effect" where
  "round_control s = (if tl_round_num s + 1 \<ge> tl_max_rounds s then SpawnFinalStream
                      else SpawnLLMWorker (tl_round_num s + 1))"

definition control_of :: "tl_env \<Rightarrow> tool_loop_state \<Rightarrow> tl_event \<Rightarrow> tl_effect" where
  "control_of E s e =
     (case tl_kind e of
        NextTool \<Rightarrow>
          if tl_pending_tools s = [] \<or> tl_is_stopped s then round_control s
          else tool_spawn_of E s (hd (tl_pending_tools s))
      | ToolResult \<Rightarrow> TriggerNextTool
      | StreamDoneKind \<Rightarrow> if requested_tools (tl_data e) = [] then ExitLoop else TriggerNextTool
      | _ \<Rightarrow> ExitLoop)"

lemma is_control_round_control [simp]: "is_control (round_control s)"
  by (simp add: round_control_def)

lemma round_over_effects:
  "effects (on_round_over s) =
     (if tl_is_stopped s then [] else [status_ui (u ''Sending results to AI...'')])
     @ (if tl_round_num s + 1 \<ge> tl_max_rounds s
        then [LogAgent (u ''tool_loop.py:exit_exhausted'') (u ''Exiting loop: exhausted max_tool_rounds'')
               [(u ''rounds'', PInt (tl_max_rounds s))] (u ''A'')] else [])
     @ [round_control s]"
  by (simp add: on_round_over_def round_control_def Let_def)

lemma run_tool_control:
  "filter is_control (effects (on_run_tool E s tc rest)) = [tool_spawn_of E s tc] \<and>
   last (effects (on_run_tool E s tc rest)) = tool_spawn_of E s tc \<and>
   state (on_run_tool E s tc rest) = s\<lparr>tl_pending_tools := rest\<rparr>"
  by (simp add: on_run_tool_def tool_spawn_of_def Let_def split: prod.split)

lemma next_tool_control:
  "filter is_control (effects (on_next_tool E s)) =
     [if tl_pending_tools s = [] \<or> tl_is_stopped s then round_control s
      else tool_spawn_of E s (hd (tl_pending_tools s))] \<and>
   last (effects (on_next_tool E s)) =
     (if tl_pending_tools s = [] \<or> tl_is_stopped s then round_control s
      else tool_spawn_of E s (hd (tl_pending_tools s)))"
  using run_tool_control [of E s "hd (tl_pending_tools s)" "tl (tl_pending_tools s)"]
  by (cases "tl_pending_tools s") (simp_all add: on_next_tool_def round_over_effects)

lemma stream_done_control:
  "filter is_control (effects (on_stream_done_event E s d)) =
     [if requested_tools d = [] then ExitLoop else TriggerNextTool] \<and>
   last (effects (on_stream_done_event E s d)) =
     (if requested_tools d = [] then ExitLoop else TriggerNextTool)"
  by (simp add: on_stream_done_event_def Let_def)

lemma tool_result_control:
  "filter is_control (effects (on_tool_result E s d)) = [TriggerNextTool] \<and>
   last (effects (on_tool_result E s d)) = TriggerNextTool"
  by (simp add: on_tool_result_def Let_def)

lemma event_control:
  "filter is_control (effects (tl_next_state E s e)) = [control_of E s e] \<and>
   last (effects (tl_next_state E s e)) = control_of E s e"
  using next_tool_control [of E s] stream_done_control [of E s "tl_data e"]
    tool_result_control [of E s "tl_data e"]
  by (cases "tl_kind e")
    (simp_all add: tl_next_state_def control_of_def on_stop_request_def on_final_done_def
      on_loop_error_def Let_def)

lemma tool_spawns_of_event:
  "filter is_tool_spawn (effects (tl_next_state E s e)) = filter is_tool_spawn [control_of E s e]"
proof -
  have "filter is_tool_spawn fs = filter is_tool_spawn (filter is_control fs)" for fs
    by (auto simp: is_tool_spawn_control filter_filter intro!: filter_cong)
  then show ?thesis using event_control [of E s e] by metis
qed

lemma next_stopped:
  "tl_is_stopped (state (tl_next_state E s e)) \<longleftrightarrow> tl_is_stopped s \<or> tl_kind e = StopRequest"
  by (cases "tl_kind e")
    (auto simp: tl_next_state_def tl_branches Let_def split: list.split prod.split)

lemma next_round:
  "tl_round_num (state (tl_next_state E s e)) =
     (if tl_kind e = NextTool \<and> (tl_pending_tools s = [] \<or> tl_is_stopped s)
      then if tl_round_num s + 1 \<ge> tl_max_rounds s then max (tl_round_num s) (tl_max_rounds s)
           else tl_round_num s + 1
      else tl_round_num s)"
  by (cases "tl_kind e")
    (auto simp: tl_next_state_def tl_branches Let_def split: list.split prod.split)

lemma next_pending:
  "tl_pending_tools (state (tl_next_state E s e)) =
     (case tl_kind e of
        StreamDoneKind \<Rightarrow> tl_pending_tools s @ requested_tools (tl_data e)
      | NextTool \<Rightarrow> if tl_is_stopped s then tl_pending_tools s else tl (tl_pending_tools s)
      | _ \<Rightarrow> tl_pending_tools s)"
  by (cases "tl_kind e")
    (auto simp: tl_next_state_def tl_branches Let_def split: list.split prod.split)

lemma next_fixed [simp]:
  "tl_max_rounds (state (tl_next_state E s e)) = tl_max_rounds s"
  "tl_async_tools (state (tl_next_state E s e)) = tl_async_tools s"
  by (cases "tl_kind e";
      simp add: tl_next_state_def tl_branches Let_def split: list.split prod.split)+

interpretation tool_loop: fsm_quiet_latch "tl_next_state E" "\<lambda>e. True" tl_is_stopped
    "\<lambda>f. \<not> is_tool_spawn f"
proof unfold_locales
  fix e s f
  show "tl_is_stopped s \<Longrightarrow> tl_is_stopped (state (tl_next_state E s e))"
    by (simp add: next_stopped)
  assume s: "tl_is_stopped s" and f: "f \<in> set (effects (tl_next_state E s e))"
  from s have "filter is_tool_spawn (effects (tl_next_state E s e)) = []"
    by (cases "tl_kind e") (simp_all add: tool_spawns_of_event control_of_def round_control_def)
  with f show "\<not> is_tool_spawn f" by (auto simp: filter_empty_conv)
qed

subsection \<open>Rounds and tool calls over a run\<close>

fun llm_round :: "tl_effect \<Rightarrow> int option" where
  "llm_round (SpawnLLMWorker r) = Some r"
| "llm_round _ = None"

fun tool_call_of :: "tl_effect \<Rightarrow> (pystr \<times> pystr \<times> pystr) option" where
  "tool_call_of (SpawnToolWorker call_id f arg_str args b) = Some (f, arg_str, call_id)"
| "tool_call_of _ = None"

lemma map_filter_control:
  assumes "\<And>f. p f \<noteq> None \<Longrightarrow> is_control f"
  shows "List.map_filter p (effects (tl_next_state E s e)) = List.map_filter p [control_of E s e]"
proof -
  have "List.map_filter p fs = List.map_filter p (filter is_control fs)" for fs
    using assms by (induction fs) (auto simp: List.map_filter_def)
  then show ?thesis using event_control [of E s e] by metis
qed

lemma llm_rounds_event:
  "List.map_filter llm_round (effects (tl_next_state E s e)) = List.map_filter llm_round [control_of E s e]"
proof (rule map_filter_control)
  show "is_control f" if "llm_round f \<noteq> None" for f using that by (cases f) simp_all
qed

lemma tool_calls_event:
  "List.map_filter tool_call_of (effects (tl_next_state E s e)) =
     List.map_filter tool_call_of [control_of E s e]"
proof (rule map_filter_control)
  show "is_control f" if "tool_call_of f \<noteq> None" for f using that by (cases f) simp_all
qed

lemma map_filter_append [simp]:
  "List.map_filter p (xs @ ys) = List.map_filter p xs @ List.map_filter p ys"
  by (simp add: List.map_filter_def)

lemma map_filter_single: "List.map_filter p [x] = (case p x of None \<Rightarrow> [] | Some y \<Rightarrow> [y])"
  by (simp add: List.map_filter_def split: option.split)

lemma final_round_mono: "tl_round_num s \<le> tl_round_num (fsm_final (tl_next_state E) s es)"
proof (induction es arbitrary: s)
  case Nil
  then show ?case by simp
next
  case (Cons e es)
  have "tl_round_num s \<le> tl_round_num (state (tl_next_state E s e))"
    by (simp add: next_round)
  then show ?case using Cons [of "state (tl_next_state E s e)"] by simp
qed

lemma rounds_of_event:
  "List.map_filter llm_round (effects (tl_next_state E s e)) =
     (if tl_round_num (state (tl_next_state E s e)) = tl_round_num s + 1
         \<and> tl_round_num s + 1 < tl_max_rounds s
      then [tl_round_num s + 1] else [])"
  by (cases "tl_kind e")
    (auto simp: llm_rounds_event control_of_def next_round round_control_def map_filter_single
      tool_spawn_of_def split: prod.split)

definition requested_by :: "tl_event \<Rightarrow> pyval list" where
  "requested_by e = (if tl_kind e = StreamDoneKind then requested_tools (tl_data e) else [])"

lemma calls_of_event:
  "List.map_filter tool_call_of (effects (tl_next_state E s e))
     @ map pending_tool_call_fields (tl_pending_tools (state (tl_next_state E s e)))
   = map pending_tool_call_fields (tl_pending_tools s @ requested_by e)"
  by (cases "tl_kind e"; cases "tl_pending_tools s")
    (auto simp: tool_calls_event control_of_def next_pending round_control_def map_filter_single
      tool_spawn_of_def requested_by_def split: prod.split)

subsection \<open>A whole round\<close>

definition next_tool_event :: tl_event where
  "next_tool_event = \<lparr>tl_kind = NextTool, tl_data = []\<rparr>"

definition tool_result_event :: "pydict \<Rightarrow> tl_event" where
  "tool_result_event d = \<lparr>tl_kind = ToolResult, tl_data = d\<rparr>"

definition run_tools :: "pydict list \<Rightarrow> tl_event list" where
  "run_tools ds = concat (map (\<lambda>d. [next_tool_event, tool_result_event d]) ds)"

lemma run_tools_controls:
  assumes "\<not> tl_is_stopped s" and "length ds = length (tl_pending_tools s)"
  shows "filter is_control (run_effects (tl_next_state E) s (run_tools ds)) =
      concat (map (\<lambda>tc. [tool_spawn_of E s tc, TriggerNextTool]) (tl_pending_tools s)) \<and>
    fsm_final (tl_next_state E) s (run_tools ds) = s\<lparr>tl_pending_tools := []\<rparr>"
  using assms
proof (induction ds arbitrary: s)
  case Nil
  then show ?case by (simp add: run_tools_def)
next
  case (Cons d ds)
  then obtain tc rest where p: "tl_pending_tools s = tc # rest" by (cases "tl_pending_tools s") auto
  let ?s = "s\<lparr>tl_pending_tools := rest\<rparr>"
  have st: "state (tl_next_state E s next_tool_event) = ?s"
    using p Cons.prems run_tool_control [of E s tc rest]
    by (simp add: tl_next_state_def next_tool_event_def on_next_tool_def)
  have st2: "state (tl_next_state E ?s (tool_result_event d)) = ?s"
    by (simp add: tl_next_state_def tool_result_event_def on_tool_result_def Let_def)
  have same: "tool_spawn_of E ?s = tool_spawn_of E s"
    by (simp add: tool_spawn_of_def fun_eq_iff)
  have ctl: "filter is_control (effects (tl_next_state E s next_tool_event)) = [tool_spawn_of E s tc]"
    "filter is_control (effects (tl_next_state E ?s (tool_result_event d))) = [TriggerNextTool]"
    using event_control [of E s next_tool_event] event_control [of E ?s "tool_result_event d"] p Cons.prems
    by (simp_all add: control_of_def next_tool_event_def tool_result_event_def)
  have "run_tools (d # ds) = next_tool_event # tool_result_event d # run_tools ds"
    by (simp add: run_tools_def)
  then show ?case using Cons.IH [of ?s] Cons.prems p
    by (simp add: st st2 ctl same)
qed

subsection \<open>Properties\<close>

text \<open>Every event has exactly one control effect, and it is the last one: Stop, an error and
  the final answer exit the loop; a model response exits it when it calls no tool and otherwise
  triggers the next tool, as a tool result does; the trigger runs the oldest pending tool, or,
  when none is left or the user has stopped, starts the next round, or the final stream when the
  rounds are used up. So the loop neither stalls nor runs two branches at once.\<close>

theorem tool_loop_one_control:
  "filter is_control (effects (tl_next_state E s e)) = [last (effects (tl_next_state E s e))] \<and>
   last (effects (tl_next_state E s e)) =
     (case tl_kind e of
        NextTool \<Rightarrow>
          if tl_pending_tools s = [] \<or> tl_is_stopped s
          then if tl_round_num s + 1 \<ge> tl_max_rounds s then SpawnFinalStream
               else SpawnLLMWorker (tl_round_num s + 1)
          else tool_spawn_of E s (hd (tl_pending_tools s))
      | ToolResult \<Rightarrow> TriggerNextTool
      | StreamDoneKind \<Rightarrow> if requested_tools (tl_data e) = [] then ExitLoop else TriggerNextTool
      | _ \<Rightarrow> ExitLoop)"
  using event_control [of E s e] unfolding control_of_def round_control_def by simp

text \<open>Over any run the model is asked for the rounds after the current one, each once and in
  order, and never for a round at or past \<open>max_rounds\<close>: the rounds started are exactly those from
  the current one up to the one the final state is in, or the last allowed one.\<close>

theorem tool_loop_rounds:
  "List.map_filter llm_round (run_effects (tl_next_state E) s es) =
     [tl_round_num s + 1 .. min (tl_round_num (fsm_final (tl_next_state E) s es)) (tl_max_rounds s - 1)]"
proof (induction es arbitrary: s)
  case Nil
  then show ?case by (simp add: List.map_filter_def)
next
  case (Cons e es)
  let ?s = "state (tl_next_state E s e)"
  have "tl_round_num ?s \<le> tl_round_num (fsm_final (tl_next_state E) ?s es)"
    by (rule final_round_mono)
  moreover have "tl_round_num ?s = tl_round_num s \<or> tl_round_num ?s = tl_round_num s + 1 \<and>
      tl_round_num s + 1 < tl_max_rounds s \<or> tl_round_num s + 1 \<ge> tl_max_rounds s"
    by (auto simp: next_round split: if_splits)
  moreover have "tl_round_num s \<le> tl_round_num ?s"
    by (simp add: next_round)
  moreover have "upto a b = a # upto (a + 1) b" if "a \<le> b" for a b :: int
    using that by (rule upto_rec1)
  ultimately show ?case
    by (auto simp: Cons rounds_of_event)
qed

text \<open>C19: No requested tool call is lost, repeated or reordered: at any point of any run, the calls
  handed to workers, followed by those still pending, are the calls pending at the start followed
  by those the model responses of the run asked for, in that order.\<close>

theorem tool_loop_calls_in_order:
  "List.map_filter tool_call_of (run_effects (tl_next_state E) s es)
     @ map pending_tool_call_fields (tl_pending_tools (fsm_final (tl_next_state E) s es))
   = map pending_tool_call_fields (tl_pending_tools s @ concat (map requested_by es))"
proof (induction es arbitrary: s)
  case Nil
  then show ?case by (simp add: List.map_filter_def)
next
  case (Cons e es)
  let ?s = "state (tl_next_state E s e)" and ?f = "map pending_tool_call_fields"
  have "List.map_filter tool_call_of (run_effects (tl_next_state E) s (e # es))
      @ ?f (tl_pending_tools (fsm_final (tl_next_state E) s (e # es)))
    = (List.map_filter tool_call_of (effects (tl_next_state E s e)) @ ?f (tl_pending_tools ?s))
      @ ?f (concat (map requested_by es))"
    using Cons [of ?s] by simp
  then show ?case by (simp only: calls_of_event) simp
qed

text \<open>C20: Stop is final: from a stop on, whatever the workers still deliver, the state stays
  stopped and no tool worker is spawned; the calls already pending are never run.\<close>

theorem tool_loop_stop_is_final:
  assumes "tl_kind e = StopRequest"
    and "t \<in> set (drop (Suc (length es)) (fsm_run (tl_next_state E) s (es @ e # fs)))"
  shows "tl_is_stopped (state t) \<and> stopped_effects_exclude_tool_spawns (state t) (effects t) \<and>
    (\<forall>f \<in> set (effects t). tool_call_of f = None)"
proof -
  have "tl_is_stopped (state (tl_next_state E (fsm_final (tl_next_state E) s es) e))"
    using assms(1) by (simp add: next_stopped)
  from tool_loop.quiet_from [OF this _ assms(2)]
  have "tl_is_stopped (state t)" and q: "\<forall>f \<in> set (effects t). \<not> is_tool_spawn f"
    by (simp_all add: list_all_iff)
  moreover have "tool_call_of f = None" if "\<not> is_tool_spawn f" for f using that by (cases f) simp_all
  ultimately show ?thesis by (simp add: stopped_effects_exclude_tool_spawns_def list_ex_iff)
qed

definition plain_env :: tl_env where
  "plain_env = \<lparr>loads = \<lambda>v. PDict [], dumps_compact = \<lambda>d. None, dumps_indent = \<lambda>d. [],
     py_repr = small_repr, replay_of = \<lambda>d. [], cache_chat = \<lambda>d. []\<rparr>"

definition fresh_loop :: "int \<Rightarrow> tool_loop_state" where
  "fresh_loop n = \<lparr>tl_round_num = 0, tl_pending_tools = [], tl_max_rounds = n,
     tl_status = u ''Thinking...'', tl_is_stopped = False, tl_doc_type = [], tl_async_tools = []\<rparr>"

definition call_tools :: "string list \<Rightarrow> tl_event" where
  "call_tools fs = \<lparr>tl_kind = StreamDoneKind, tl_data = [(u ''response'', PDict [(u ''tool_calls'',
     PList (map (\<lambda>f. PDict [(u ''function'', PDict [(u ''name'', PStr (u f))])]) fs))])]\<rparr>"

theorem tool_loop_stop_is_final_witness:
  "let t = last (fsm_run (tl_next_state plain_env) (fresh_loop 5)
     [call_tools [''a''], \<lparr>tl_kind = StopRequest, tl_data = []\<rparr>, next_tool_event])
   in tl_is_stopped (state t) \<and> stopped_effects_exclude_tool_spawns (state t) (effects t)"
proof -
  let ?es = "[call_tools [''a'']]" and ?e = "\<lparr>tl_kind = StopRequest, tl_data = []\<rparr>" and ?fs = "[next_tool_event]"
  let ?r = "fsm_run (tl_next_state plain_env) (fresh_loop 5) (?es @ ?e # ?fs)"
  have "last ?r \<in> set (drop (Suc (length ?es)) ?r)" by (simp add: Let_def)
  from tool_loop_stop_is_final [OF _ this] show ?thesis unfolding Let_def by simp
qed

text \<open>A round runs to its end: when the model asks for tools in a live loop with nothing
  pending, and each trigger is answered by the result of the worker it started, then the loop
  runs exactly the requested tools in order, triggers itself after the response and after every
  result, and closes with the next round (or the final stream), with nothing pending.\<close>

theorem tool_loop_round_completes:
  assumes "\<not> tl_is_stopped s" and "tl_pending_tools s = []" and "tl_kind e = StreamDoneKind"
    and "requested_tools (tl_data e) \<noteq> []" and "length ds = length (requested_tools (tl_data e))"
  shows "filter is_control (run_effects (tl_next_state E) s (e # run_tools ds @ [next_tool_event])) =
      TriggerNextTool
      # concat (map (\<lambda>tc. [tool_spawn_of E s tc, TriggerNextTool]) (requested_tools (tl_data e)))
      @ [round_control s]
    \<and> tl_pending_tools (fsm_final (tl_next_state E) s (e # run_tools ds @ [next_tool_event])) = []"
proof -
  let ?s = "s\<lparr>tl_pending_tools := requested_tools (tl_data e)\<rparr>"
  have st: "state (tl_next_state E s e) = ?s"
    using assms by (simp add: tl_next_state_def on_stream_done_event_def Let_def)
  have same: "tool_spawn_of E ?s = tool_spawn_of E s"
    by (simp add: tool_spawn_of_def fun_eq_iff)
  have run: "run_effects nxt s0 (xs @ ys) = run_effects nxt s0 xs @ run_effects nxt (fsm_final nxt s0 xs) ys"
    for nxt s0 and xs ys :: "tl_event list"
    by (simp add: run_effects_def fsm_run_append)
  let ?t = "s\<lparr>tl_pending_tools := []\<rparr>"
  have "filter is_control (effects (tl_next_state E ?t next_tool_event)) = [round_control s]"
    using event_control [of E ?t next_tool_event]
    by (simp add: control_of_def next_tool_event_def round_control_def)
  moreover have "tl_pending_tools (state (tl_next_state E ?t next_tool_event)) = []"
    by (simp add: next_pending next_tool_event_def)
  moreover have "filter is_control (effects (tl_next_state E s e)) = [TriggerNextTool]"
    using event_control [of E s e] assms by (simp add: control_of_def)
  ultimately show ?thesis
    using run_tools_controls [of ?s ds E] assms by (simp add: st run same fsm_final_append)
qed

theorem tool_loop_round_completes_witness:
  "map is_tool_spawn (filter is_control (run_effects (tl_next_state plain_env) (fresh_loop 5)
     (call_tools [''a'', ''b''] # run_tools [[], []] @ [next_tool_event]))) =
   [False, True, False, True, False, False]"
proof -
  have r: "requested_tools (tl_data (call_tools [''a'', ''b''])) =
      [PDict [(u ''function'', PDict [(u ''name'', PStr (u ''a''))])],
       PDict [(u ''function'', PDict [(u ''name'', PStr (u ''b''))])]]"
    by (simp add: call_tools_def requested_tools_def dget_def)
  show ?thesis
    by (subst conjunct1 [OF tool_loop_round_completes])
      (simp_all add: fresh_loop_def r, simp_all add: call_tools_def tool_spawn_of_def round_control_def
        split: prod.split)
qed

end
