(* ===== verification/StreamDrain.thy ===== *)
theory StreamDrain
  imports PyVal
begin

text \<open>
  The stream queue between worker threads and the chat panel
  (\<open>plugin/framework/async_stream.py\<close>): workers put tagged items on a queue, the main thread
  drains it in batches, coalesces text, opens and closes the thinking block, and calls back into
  the panel; \<open>BatchingStreamQueue\<close> coalesces text on the producer side.

  The panel is a host state \<open>'h\<close> with its callbacks. A call that may raise is an action: it
  returns \<open>Inl\<close> the payload \<open>format_error_payload\<close> makes of the exception, or \<open>Inr\<close> its
  value, with the state it leaves in either case. Event pumping, logging and the nested-drain
  guard are not modelled; a batch the queue delivers is an argument, \<open>[]\<close> for a timeout.
\<close>

subsection \<open>Actions that may raise\<close>

type_synonym ('s, 'a) act = "'s \<Rightarrow> (pyval + 'a) \<times> 's"

definition ret :: "'a \<Rightarrow> ('s, 'a) act" where
  "ret x s = (Inr x, s)"

definition modify :: "('s \<Rightarrow> 's) \<Rightarrow> ('s, unit) act" where
  "modify f s = (Inr (), f s)"

fun seq :: "('s, unit) act list \<Rightarrow> ('s, unit) act" where
  "seq [] s = (Inr (), s)"
| "seq (m # ms) s = (case m s of (Inl e, s') \<Rightarrow> (Inl e, s') | (Inr _, s') \<Rightarrow> seq ms s')"

definition whenever :: "('s \<Rightarrow> bool) \<Rightarrow> ('s, unit) act \<Rightarrow> ('s, unit) act" where
  "whenever P m s = (if P s then m s else (Inr (), s))"

text \<open>\<open>try: m except Exception: pass\<close>.\<close>

definition attempt :: "('s, unit) act \<Rightarrow> 's \<Rightarrow> 's" where
  "attempt m s = snd (m s)"

subsection \<open>Items, callbacks, drain state\<close>

datatype sq_kind =
    CHUNK | THINKING | STATUS | STREAM_DONE | NEXT_TOOL | TOOL_DONE | TOOL_THINKING
  | APPROVAL_REQUIRED | FINAL_DONE | STOPPED | ERROR | TOOL_CALL | TOOL_RESULT

text \<open>A tuple tagged with a \<open>StreamQueueKind\<close> and its arguments, or anything else.\<close>

datatype sq_item = Item sq_kind "pyval list" | Untagged pyval

fun item_data :: "sq_item \<Rightarrow> pyval" where
  "item_data (Item k (v # vs)) = v"
| "item_data _ = PNone"

record 'h drain_host =
  apply_chunk :: "pystr \<Rightarrow> bool \<Rightarrow> ('h, unit) act"
  on_stream_done :: "sq_item \<Rightarrow> ('h, bool) act"
  on_stopped :: "('h, unit) act"
  on_error :: "pyval \<Rightarrow> ('h, bool) act"  \<comment> \<open>whether the handler recovered\<close>
  on_status :: "(pyval \<Rightarrow> ('h, unit) act) option"
  on_approval :: "(sq_item \<Rightarrow> ('h, unit) act) option"
  stop_checker :: "('h, bool) act option"
  show_search_thinking :: bool
  dumps :: "pyval \<Rightarrow> pystr option"  \<comment> \<open>\<open>json.dumps\<close>, \<open>None\<close> when it raises\<close>
  to_str :: "pyval \<Rightarrow> pystr"
  tag_error :: pyval  \<comment> \<open>payload of the \<open>TypeError\<close> for an untagged item\<close>
  join_error :: pyval  \<comment> \<open>payload of the \<open>TypeError\<close> of joining a non-string\<close>

record 'h drain_state =
  host :: 'h
  current_content :: "pyval list"
  current_thinking :: "pyval list"
  thinking_open :: bool
  job_done :: bool

definition call :: "('h, 'a) act \<Rightarrow> ('h drain_state, 'a) act" where
  "call m s = (case m (host s) of (r, h) \<Rightarrow> (r, s\<lparr>host := h\<rparr>))"

text \<open>\<open>"".join(parts)\<close>.\<close>

definition join_strs :: "pyval list \<Rightarrow> pystr option" where
  "join_strs vs = (if list_all is_str vs then Some (concat (map (str_or []) vs)) else None)"

definition apply_joined :: "'h drain_host \<Rightarrow> pyval list \<Rightarrow> bool \<Rightarrow> ('h drain_state, unit) act" where
  "apply_joined cb vs thinking s =
     (case join_strs vs of
        None \<Rightarrow> (Inl (join_error cb), s)
      | Some t \<Rightarrow> call (apply_chunk cb t thinking) s)"

definition close_thinking :: "'h drain_host \<Rightarrow> ('h drain_state, unit) act" where
  "close_thinking cb =
     whenever thinking_open
       (seq [call (apply_chunk cb (u '' /thinking'' @ nl) True),
             modify (\<lambda>s. s\<lparr>thinking_open := False\<rparr>)])"

definition flush_thinking :: "'h drain_host \<Rightarrow> ('h drain_state, unit) act" where
  "flush_thinking cb =
     whenever (\<lambda>s. current_thinking s \<noteq> [])
       (seq [whenever (\<lambda>s. \<not> thinking_open s)
               (seq [call (apply_chunk cb (u ''[Thinking] '') True),
                     modify (\<lambda>s. s\<lparr>thinking_open := True\<rparr>)]),
             \<lambda>s. apply_joined cb (current_thinking s) True s,
             modify (\<lambda>s. s\<lparr>current_thinking := []\<rparr>)])"

definition flush_content :: "'h drain_host \<Rightarrow> ('h drain_state, unit) act" where
  "flush_content cb =
     whenever (\<lambda>s. current_content s \<noteq> [])
       (seq [close_thinking cb,
             \<lambda>s. apply_joined cb (current_content s) False s,
             modify (\<lambda>s. s\<lparr>current_content := []\<rparr>)])"

definition flush_buffers :: "'h drain_host \<Rightarrow> ('h drain_state, unit) act" where
  "flush_buffers cb = seq [flush_thinking cb, flush_content cb]"

subsection \<open>The handlers and their dispatch\<close>

definition agent_tool_line :: "'h drain_host \<Rightarrow> pystr \<Rightarrow> pyval \<Rightarrow> pystr" where
  "agent_tool_line cb pre data =
     (let body = (if is_dict data \<or> is_list data
                  then (case dumps cb data of Some t \<Rightarrow> t | None \<Rightarrow> to_str cb data)
                  else if data \<noteq> PNone then to_str cb data else [])
      in nl @ pre @ u '' '' @ body @ nl)"

definition handle_chunk :: "'h drain_host \<Rightarrow> pyval \<Rightarrow> ('h drain_state, unit) act" where
  "handle_chunk cb data =
     seq [whenever (\<lambda>s. current_thinking s \<noteq> []) (flush_buffers cb),
          modify (\<lambda>s. s\<lparr>current_content := current_content s @ [data]\<rparr>)]"

definition handle_thinking :: "'h drain_host \<Rightarrow> pyval \<Rightarrow> ('h drain_state, unit) act" where
  "handle_thinking cb data =
     seq [whenever (\<lambda>s. current_content s \<noteq> []) (flush_buffers cb),
          modify (\<lambda>s. s\<lparr>current_thinking := current_thinking s @ [data]\<rparr>)]"

definition handle_status :: "'h drain_host \<Rightarrow> pyval \<Rightarrow> ('h drain_state, unit) act" where
  "handle_status cb data = (case on_status cb of None \<Rightarrow> ret () | Some f \<Rightarrow> call (f data))"

definition finish :: "('h drain_state, unit) act" where
  "finish = modify (\<lambda>s. s\<lparr>job_done := True\<rparr>)"

text \<open>Run a callback that returns a bool and end the job when the bool is as given.\<close>

definition finish_if :: "bool \<Rightarrow> ('h, bool) act \<Rightarrow> ('h drain_state, unit) act" where
  "finish_if b m s =
     (case call m s of (Inl e, s') \<Rightarrow> (Inl e, s')
      | (Inr r, s') \<Rightarrow> if r = b then finish s' else (Inr (), s'))"

definition handle_stream_done_like :: "'h drain_host \<Rightarrow> sq_item \<Rightarrow> ('h drain_state, unit) act" where
  "handle_stream_done_like cb item =
     seq [flush_buffers cb, close_thinking cb, finish_if True (on_stream_done cb item)]"

definition handle_tool_thinking :: "'h drain_host \<Rightarrow> pyval \<Rightarrow> ('h drain_state, unit) act" where
  "handle_tool_thinking cb data =
     (if show_search_thinking cb then handle_thinking cb data else ret ())"

definition handle_tool_line :: "'h drain_host \<Rightarrow> pystr \<Rightarrow> pyval \<Rightarrow> ('h drain_state, unit) act" where
  "handle_tool_line cb pre data =
     seq [flush_buffers cb, close_thinking cb, call (apply_chunk cb (agent_tool_line cb pre data) False)]"

definition handle_approval_required :: "'h drain_host \<Rightarrow> sq_item \<Rightarrow> ('h drain_state, unit) act" where
  "handle_approval_required cb item =
     seq [flush_buffers cb, close_thinking cb,
          (case on_approval cb of None \<Rightarrow> ret ()
           | Some f \<Rightarrow> (\<lambda>s. (Inr (), attempt (call (f item)) s)))]"

definition handle_stopped :: "'h drain_host \<Rightarrow> ('h drain_state, unit) act" where
  "handle_stopped cb = seq [flush_buffers cb, close_thinking cb, call (on_stopped cb), finish]"

definition handle_error_item :: "'h drain_host \<Rightarrow> pyval \<Rightarrow> ('h drain_state, unit) act" where
  "handle_error_item cb data =
     seq [flush_buffers cb, close_thinking cb, finish_if False (on_error cb data)]"

text \<open>An untagged item reports a \<open>TypeError\<close> and ends the job whatever the handler says.\<close>

definition handle_untagged :: "'h drain_host \<Rightarrow> ('h drain_state, unit) act" where
  "handle_untagged cb =
     seq [flush_buffers cb, close_thinking cb,
          (\<lambda>s. case call (on_error cb (tag_error cb)) s of (Inl e, s') \<Rightarrow> (Inl e, s')
               | (Inr _, s') \<Rightarrow> (Inr (), s')), finish]"

fun dispatch :: "'h drain_host \<Rightarrow> sq_item \<Rightarrow> ('h drain_state, unit) act" where
  "dispatch cb (Untagged v) = handle_untagged cb"
| "dispatch cb (Item k vs) =
     (let item = Item k vs; data = item_data item in
      case k of
        CHUNK \<Rightarrow> handle_chunk cb data
      | THINKING \<Rightarrow> handle_thinking cb data
      | STATUS \<Rightarrow> handle_status cb data
      | STREAM_DONE \<Rightarrow> handle_stream_done_like cb item
      | TOOL_DONE \<Rightarrow> handle_stream_done_like cb item
      | FINAL_DONE \<Rightarrow> handle_stream_done_like cb item
      | NEXT_TOOL \<Rightarrow> handle_stream_done_like cb item
      | TOOL_THINKING \<Rightarrow> handle_tool_thinking cb data
      | TOOL_CALL \<Rightarrow> handle_tool_line cb (u ''[Tool call]'') data
      | TOOL_RESULT \<Rightarrow> handle_tool_line cb (u ''[Tool result]'') data
      | APPROVAL_REQUIRED \<Rightarrow> handle_approval_required cb item
      | STOPPED \<Rightarrow> handle_stopped cb
      | ERROR \<Rightarrow> handle_error_item cb data)"

subsection \<open>A batch\<close>

text \<open>A handler that raised: the buffers are flushed as far as possible and the error is reported
  once; the batch goes on only when the panel recovered.\<close>

definition report_failure :: "'h drain_host \<Rightarrow> pyval \<Rightarrow> 'h drain_state \<Rightarrow> bool \<times> 'h drain_state" where
  "report_failure cb e s =
     (let s1 = attempt (seq [flush_buffers cb, close_thinking cb]) s
      in case call (on_error cb e) s1 of
           (Inr True, s2) \<Rightarrow> (True, s2)
         | (r, s2) \<Rightarrow> (False, s2\<lparr>job_done := True\<rparr>))"

definition stop_wanted :: "'h drain_host \<Rightarrow> ('h drain_state, bool) act" where
  "stop_wanted cb = (case stop_checker cb of None \<Rightarrow> ret False | Some m \<Rightarrow> call m)"

definition stop_batch :: "'h drain_host \<Rightarrow> ('h drain_state, unit) act" where
  "stop_batch cb = seq [flush_buffers cb, close_thinking cb, call (on_stopped cb), finish]"

text \<open>The loop over the items; the value says whether the trailing flush is to be skipped.\<close>

fun drain_items :: "'h drain_host \<Rightarrow> sq_item list \<Rightarrow> ('h drain_state, bool) act" where
  "drain_items cb [] s = (Inr False, s)"
| "drain_items cb (item # items) s =
     (case stop_wanted cb s of
        (Inl e, s1) \<Rightarrow> (Inl e, s1)
      | (Inr True, s1) \<Rightarrow>
          (case stop_batch cb s1 of (Inl e, s2) \<Rightarrow> (Inl e, s2) | (Inr _, s2) \<Rightarrow> (Inr False, s2))
      | (Inr False, s1) \<Rightarrow>
          (case dispatch cb item s1 of
             (Inl e, s2) \<Rightarrow>
               (case report_failure cb e s2 of
                  (True, s3) \<Rightarrow> drain_items cb items s3
                | (False, s3) \<Rightarrow> (Inr True, s3))
           | (Inr _, s2) \<Rightarrow> if job_done s2 then (Inr False, s2) else drain_items cb items s2))"

definition process_batch :: "'h drain_host \<Rightarrow> sq_item list \<Rightarrow> ('h drain_state, unit) act" where
  "process_batch cb items s =
     (case drain_items cb items s of
        (Inl e, s1) \<Rightarrow> (Inl e, s1)
      | (Inr True, s1) \<Rightarrow> (Inr (), s1)
      | (Inr False, s1) \<Rightarrow> flush_buffers cb s1)"

subsection \<open>The drain loop\<close>

definition report_fatal :: "'h drain_host \<Rightarrow> pyval \<Rightarrow> 'h drain_state \<Rightarrow> 'h drain_state" where
  "report_fatal cb e s = snd (call (on_error cb e) s)"

text \<open>One turn of the loop on the batch the queue delivers, \<open>None\<close> when reading the queue
  raised; \<open>Inl\<close> is an exception that leaves the loop.\<close>

definition drain_turn :: "'h drain_host \<Rightarrow> (pyval + sq_item list) \<Rightarrow> ('h drain_state, unit) act" where
  "drain_turn cb batch s =
     (case stop_wanted cb s of
        (Inl e, s1) \<Rightarrow> (Inl e, s1)
      | (Inr True, s1) \<Rightarrow> seq [call (on_stopped cb), finish] s1
      | (Inr False, s1) \<Rightarrow>
          (case batch of
             Inl e \<Rightarrow>
               (case call (on_error cb e) s1 of
                  (Inl e', s2) \<Rightarrow> (Inl e', s2) | (Inr _, s2) \<Rightarrow> finish s2)
           | Inr [] \<Rightarrow> (Inr (), s1)
           | Inr items \<Rightarrow>
               (case process_batch cb items s1 of
                  (Inl e, s2) \<Rightarrow> (Inr (), report_fatal cb e (s2\<lparr>job_done := True\<rparr>))
                | (Inr _, s2) \<Rightarrow> (Inr (), s2))))"

fun drain_loop :: "'h drain_host \<Rightarrow> (pyval + sq_item list) list \<Rightarrow> 'h drain_state \<Rightarrow> 'h drain_state" where
  "drain_loop cb [] s = s"
| "drain_loop cb (b # bs) s =
     (if job_done s then s
      else case drain_turn cb b s of
             (Inl e, s1) \<Rightarrow> (report_fatal cb e s1)\<lparr>job_done := True\<rparr>
           | (Inr _, s1) \<Rightarrow> drain_loop cb bs s1)"

definition drain_start :: "'h \<Rightarrow> 'h drain_state" where
  "drain_start h = \<lparr>host = h, current_content = [], current_thinking = [], thinking_open = False,
     job_done = False\<rparr>"

subsection \<open>The producer-side batcher\<close>

text \<open>\<open>BatchingStreamQueue\<close>: \<open>batch_deadline\<close> is the time the pending one-shot timer fires.
  \<open>delta\<close> is the text of a display item: a falsy payload counts as the empty string.\<close>

record batcher =
  content_buf :: "pystr list"
  thinking_buf :: "pystr list"
  batch_deadline :: "rat option"
  raw_queue :: "sq_item list"

definition delta :: "sq_item \<Rightarrow> pystr" where
  "delta it = str_or [] (item_data it)"

definition batch_flush :: "batcher \<Rightarrow> batcher" where
  "batch_flush b =
     b\<lparr>raw_queue := raw_queue b
         @ (if content_buf b \<noteq> [] then [Item CHUNK [PStr (concat (content_buf b))]] else [])
         @ (if thinking_buf b \<noteq> [] then [Item THINKING [PStr (concat (thinking_buf b))]] else []),
       content_buf := [], thinking_buf := [], batch_deadline := None\<rparr>"

definition schedule :: "rat \<Rightarrow> rat \<Rightarrow> bool \<Rightarrow> batcher \<Rightarrow> batcher" where
  "schedule interval now first b = (if first then b\<lparr>batch_deadline := Some (now + interval)\<rparr> else b)"

fun batch_put :: "rat \<Rightarrow> rat \<Rightarrow> sq_item \<Rightarrow> batcher \<Rightarrow> batcher" where
  "batch_put interval now (Item CHUNK vs) b =
     schedule interval now (content_buf b = [])
       (b\<lparr>content_buf := content_buf b @ [delta (Item CHUNK vs)]\<rparr>)"
| "batch_put interval now (Item THINKING vs) b =
     schedule interval now (thinking_buf b = [])
       (b\<lparr>thinking_buf := thinking_buf b @ [delta (Item THINKING vs)]\<rparr>)"
| "batch_put interval now item b =
     (let b' = batch_flush b in b'\<lparr>raw_queue := raw_queue b' @ [item]\<rparr>)"

lemmas act_defs = ret_def modify_def whenever_def call_def

lemma seq_Inl: "seq (m # ms) s = (Inl e, s') \<longleftrightarrow>
    m s = (Inl e, s') \<or> (\<exists>s1. m s = (Inr (), s1) \<and> seq ms s1 = (Inl e, s'))"
  by (auto split: prod.splits sum.splits)

lemma seq_Inr: "seq (m # ms) s = (Inr x, s') \<longleftrightarrow> (\<exists>s1. m s = (Inr (), s1) \<and> seq ms s1 = (Inr x, s'))"
  by (auto split: prod.splits sum.splits)

subsection \<open>The contract of the callbacks\<close>

text \<open>What the drain asks of a panel, for a condition \<open>quiet\<close> that holds while the job runs and a
  condition \<open>closed\<close> that holds once it has been told the end: displays and status lines keep it
  quiet, also when they raise; a completion handler that says so, a stop and an unrecovered error
  close it; the error handler does not raise.\<close>

locale drain_contract =
  fixes cb :: "'h drain_host"
    and quiet :: "'h \<Rightarrow> bool"
    and closed :: "'h \<Rightarrow> bool"
  assumes apply_quiet: "quiet h \<Longrightarrow> quiet (snd (apply_chunk cb t b h))"
    and status_quiet: "quiet h \<Longrightarrow> on_status cb = Some f \<Longrightarrow> quiet (snd (f v h))"
    and approval_quiet: "quiet h \<Longrightarrow> on_approval cb = Some g \<Longrightarrow> quiet (snd (g item h))"
    and stop_quiet: "quiet h \<Longrightarrow> stop_checker cb = Some m \<Longrightarrow> quiet (snd (m h))"
    and done_quiet: "quiet h \<Longrightarrow> fst (on_stream_done cb item h) \<noteq> Inr True \<Longrightarrow>
      quiet (snd (on_stream_done cb item h))"
    and done_closed: "quiet h \<Longrightarrow> fst (on_stream_done cb item h) = Inr True \<Longrightarrow>
      closed (snd (on_stream_done cb item h))"
    and stopped_quiet: "quiet h \<Longrightarrow> fst (on_stopped cb h) = Inl e \<Longrightarrow> quiet (snd (on_stopped cb h))"
    and stopped_closed: "quiet h \<Longrightarrow> fst (on_stopped cb h) = Inr x \<Longrightarrow> closed (snd (on_stopped cb h))"
    and error_returns: "quiet h \<Longrightarrow> \<exists>r. fst (on_error cb e h) = Inr r"
    and error_recovered: "quiet h \<Longrightarrow> fst (on_error cb e h) = Inr True \<Longrightarrow> quiet (snd (on_error cb e h))"
    and error_closed: "quiet h \<Longrightarrow> closed (snd (on_error cb e h))"
begin

definition live :: "'h drain_state \<Rightarrow> bool" where
  "live s \<longleftrightarrow> \<not> job_done s \<and> quiet (host s)"

definition over :: "'h drain_state \<Rightarrow> bool" where
  "over s \<longleftrightarrow> job_done s \<and> closed (host s)"

definition drained :: "'h drain_state \<Rightarrow> bool" where
  "drained s \<longleftrightarrow> current_content s = [] \<and> current_thinking s = []"

text \<open>An action that keeps the job live, also when it raises.\<close>

definition keeps :: "('h drain_state, unit) act \<Rightarrow> bool" where
  "keeps m \<longleftrightarrow> (\<forall>s. live s \<longrightarrow> live (snd (m s)))"

lemma keepsD: "keeps m \<Longrightarrow> live s \<Longrightarrow> m s = (r, s') \<Longrightarrow> live s'"
  by (force simp: keeps_def)

lemma keeps_seq: "list_all keeps ms \<Longrightarrow> keeps (seq ms)"
proof (induction ms)
  case Nil
  then show ?case by (simp add: keeps_def)
next
  case (Cons m ms)
  then have m: "keeps m" and ms: "keeps (seq ms)" by simp_all
  then show ?case
    by (auto simp: keeps_def split: prod.split sum.split dest: keepsD [OF m] keepsD [OF ms])
qed

lemma keeps_whenever: "keeps m \<Longrightarrow> keeps (whenever P m)"
  by (simp add: keeps_def whenever_def)

lemma keeps_modify:
  "(\<And>s. host (f s) = host s) \<Longrightarrow> (\<And>s. job_done (f s) = job_done s) \<Longrightarrow> keeps (modify f)"
  by (simp add: keeps_def modify_def live_def)

lemma keeps_call: "(\<And>h. quiet h \<Longrightarrow> quiet (snd (m h))) \<Longrightarrow> keeps (call m)"
  by (simp add: keeps_def call_def live_def split: prod.split) (metis snd_conv)

lemma keeps_apply_joined: "keeps (\<lambda>s. apply_joined cb (vs s) b s)"
proof -
  have "keeps (call (apply_chunk cb t b))" for t
    by (rule keeps_call) (rule apply_quiet)
  then show ?thesis by (simp add: keeps_def apply_joined_def split: option.split)
qed

lemma keeps_apply: "keeps (call (apply_chunk cb t b))"
  by (rule keeps_call) (rule apply_quiet)

lemmas keeps_basic = keeps_seq keeps_whenever keeps_modify keeps_apply keeps_apply_joined

lemma keeps_close_thinking: "keeps (close_thinking cb)"
  by (simp add: close_thinking_def keeps_basic)

lemma keeps_flush_buffers: "keeps (flush_buffers cb)"
  by (simp add: flush_buffers_def flush_thinking_def flush_content_def keeps_basic keeps_close_thinking)

lemma keeps_shut: "keeps (seq [flush_buffers cb, close_thinking cb])"
  by (simp add: keeps_basic keeps_close_thinking keeps_flush_buffers)

lemma keeps_ret: "keeps (ret x)"
  by (simp add: keeps_def ret_def)

lemma apply_joined_buffers:
  "apply_joined cb vs b s = (r, s') \<Longrightarrow>
     current_content s' = current_content s \<and> current_thinking s' = current_thinking s"
  by (auto simp: apply_joined_def call_def split: option.splits prod.splits)

lemma close_thinking_buffers:
  "close_thinking cb s = (r, s') \<Longrightarrow>
     current_content s' = current_content s \<and> current_thinking s' = current_thinking s"
  by (auto simp: close_thinking_def act_defs split: if_splits prod.splits sum.splits)

lemma whenever_true: "P s \<Longrightarrow> whenever P m s = m s"
  by (simp add: whenever_def)

lemma seq_one: "seq [m] s = m s"
  by (auto split: prod.splits sum.splits)

lemma flush_thinking_buffers:
  assumes "flush_thinking cb s = (Inr x, s')"
  shows "current_thinking s' = [] \<and> current_content s' = current_content s"
proof (cases "current_thinking s = []")
  case True
  with assms show ?thesis by (simp add: flush_thinking_def whenever_def)
next
  case False
  with assms obtain s1 s2 where
    o: "whenever (\<lambda>s. \<not> thinking_open s) (seq [call (apply_chunk cb (u ''[Thinking] '') True),
        modify (\<lambda>s. s\<lparr>thinking_open := True\<rparr>)]) s = (Inr (), s1)"
    and a: "apply_joined cb (current_thinking s1) True s1 = (Inr (), s2)"
    and m: "modify (\<lambda>s. s\<lparr>current_thinking := []\<rparr>) s2 = (Inr x, s')"
    by (auto simp: flush_thinking_def whenever_true seq_Inr simp del: seq.simps(2))
  from o have "current_content s1 = current_content s"
    by (auto simp: whenever_def call_def modify_def split: if_splits prod.splits sum.splits)
  with apply_joined_buffers [OF a] m show ?thesis by (auto simp: modify_def)
qed

lemma flush_content_buffers:
  assumes "flush_content cb s = (Inr x, s')"
  shows "current_content s' = [] \<and> current_thinking s' = current_thinking s"
proof (cases "current_content s = []")
  case True
  with assms show ?thesis by (simp add: flush_content_def whenever_def)
next
  case False
  with assms obtain s1 s2 where c: "close_thinking cb s = (Inr (), s1)"
    and a: "apply_joined cb (current_content s1) False s1 = (Inr (), s2)"
    and m: "modify (\<lambda>s. s\<lparr>current_content := []\<rparr>) s2 = (Inr x, s')"
    by (auto simp: flush_content_def whenever_true seq_Inr simp del: seq.simps(2))
  from close_thinking_buffers [OF c] apply_joined_buffers [OF a] m show ?thesis
    by (auto simp: modify_def)
qed

lemma flush_drained: "flush_buffers cb s = (Inr x, s') \<Longrightarrow> drained s'"
  unfolding flush_buffers_def seq_Inr
  by (auto simp: drained_def dest!: flush_thinking_buffers flush_content_buffers)

lemma flush_of_drained: "drained s \<Longrightarrow> flush_buffers cb s = (Inr (), s)"
  by (simp add: drained_def flush_buffers_def flush_thinking_def flush_content_def whenever_def)

lemma shut_drained: "seq [flush_buffers cb, close_thinking cb] s = (Inr x, s') \<Longrightarrow> drained s'"
  unfolding seq_Inr by (auto simp: drained_def dest!: flush_drained close_thinking_buffers)

text \<open>What a handler leaves: live, or over with nothing left to flush; live if it raised.\<close>

definition settles :: "('h drain_state, unit) act \<Rightarrow> bool" where
  "settles m \<longleftrightarrow> (\<forall>s r s'. live s \<longrightarrow> m s = (r, s') \<longrightarrow>
     (case r of Inl e \<Rightarrow> live s' | Inr x \<Rightarrow> live s' \<or> over s' \<and> drained s'))"

lemma settlesI_keeps: "keeps m \<Longrightarrow> settles m"
  by (auto simp: settles_def dest: keepsD split: sum.split)

lemma settles_after_shut:
  assumes "\<And>s r s'. live s \<Longrightarrow> drained s \<Longrightarrow> seq ms s = (r, s') \<Longrightarrow>
      (case r of Inl e \<Rightarrow> live s' | Inr x \<Rightarrow> live s' \<or> over s' \<and> drained s')"
  shows "settles (seq (flush_buffers cb # close_thinking cb # ms))"
  unfolding settles_def
proof (intro allI impI)
  fix s r s'
  assume s: "live s" and run: "seq (flush_buffers cb # close_thinking cb # ms) s = (r, s')"
  obtain r1 s1 where sh: "seq [flush_buffers cb, close_thinking cb] s = (r1, s1)" by (cases "seq [flush_buffers cb, close_thinking cb] s") auto
  have l1: "live s1" using keepsD [OF keeps_shut s sh] .
  have split: "seq (flush_buffers cb # close_thinking cb # ms) s =
      (case r1 of Inl e \<Rightarrow> (Inl e, s1) | Inr x \<Rightarrow> seq ms s1)"
    using sh by (auto split: prod.splits sum.splits)
  show "case r of Inl e \<Rightarrow> live s' | Inr x \<Rightarrow> live s' \<or> over s' \<and> drained s'"
  proof (cases r1)
    case (Inl e)
    then show ?thesis using split run l1 by auto
  next
    case (Inr x)
    then show ?thesis using split run assms [OF l1] shut_drained [OF sh [unfolded Inr]] by auto
  qed
qed

lemma finish_if_done:
  assumes "live s" and "drained s" and "finish_if True (on_stream_done cb item) s = (r, s')"
  shows "case r of Inl e \<Rightarrow> live s' | Inr x \<Rightarrow> live s' \<or> over s' \<and> drained s'"
  using assms done_quiet [of "host s" item] done_closed [of "host s" item]
  by (auto simp: finish_if_def call_def finish_def modify_def live_def over_def drained_def
      split: prod.splits sum.splits if_splits)

lemma finish_if_error:
  assumes "live s" and "drained s" and "finish_if False (on_error cb e) s = (r, s')"
  shows "case r of Inl e \<Rightarrow> live s' | Inr x \<Rightarrow> live s' \<or> over s' \<and> drained s'"
  using assms error_recovered [of "host s" e] error_closed [of "host s" e] error_returns [of "host s" e]
  by (auto simp: finish_if_def call_def finish_def modify_def live_def over_def drained_def
      split: prod.splits sum.splits if_splits)

lemma stop_settles:
  assumes "live s" and "drained s" and "seq [call (on_stopped cb), finish] s = (r, s')"
  shows "case r of Inl e \<Rightarrow> live s' | Inr x \<Rightarrow> over s' \<and> drained s'"
  using assms stopped_quiet [of "host s"] stopped_closed [of "host s"]
  by (auto simp: call_def finish_def modify_def live_def over_def drained_def
      split: prod.splits sum.splits)

lemma untagged_settles: "settles (handle_untagged cb)"
  unfolding handle_untagged_def
proof (rule settles_after_shut)
  fix s r s'
  assume "live s" "drained s"
    and "seq [\<lambda>s. case call (on_error cb (tag_error cb)) s of (Inl e, s') \<Rightarrow> (Inl e, s')
        | (Inr _, s') \<Rightarrow> (Inr (), s'), finish] s = (r, s')"
  then show "case r of Inl e \<Rightarrow> live s' | Inr x \<Rightarrow> live s' \<or> over s' \<and> drained s'"
    using error_closed [of "host s" "tag_error cb"] error_returns [of "host s" "tag_error cb"]
    by (auto simp: call_def finish_def modify_def live_def over_def drained_def
        split: prod.splits sum.splits)
qed

lemma stream_done_settles: "settles (handle_stream_done_like cb item)"
  unfolding handle_stream_done_like_def
  by (rule settles_after_shut) (simp only: seq_one, rule finish_if_done)

lemma error_item_settles: "settles (handle_error_item cb v)"
  unfolding handle_error_item_def
  by (rule settles_after_shut) (simp only: seq_one, rule finish_if_error)

lemma stopped_settles: "settles (handle_stopped cb)"
  unfolding handle_stopped_def
  by (rule settles_after_shut) (use stop_settles in \<open>fastforce split: sum.splits\<close>)

lemma chunk_keeps: "keeps (handle_chunk cb v)"
  by (simp add: handle_chunk_def keeps_basic keeps_flush_buffers)

lemma thinking_keeps: "keeps (handle_thinking cb v)"
  by (simp add: handle_thinking_def keeps_basic keeps_flush_buffers)

lemma tool_line_keeps: "keeps (handle_tool_line cb p v)"
  by (simp add: handle_tool_line_def keeps_basic keeps_flush_buffers keeps_close_thinking)

lemma status_keeps: "keeps (handle_status cb v)"
  by (auto simp: handle_status_def keeps_ret status_quiet intro!: keeps_call split: option.split)

lemma approval_keeps: "keeps (handle_approval_required cb item)"
proof -
  have "keeps (\<lambda>s. (Inr (), attempt (call (f item)) s))" if "on_approval cb = Some f" for f
    using keeps_call [OF approval_quiet [OF _ that]] by (simp add: keeps_def attempt_def)
  then show ?thesis
    by (auto simp: handle_approval_required_def keeps_basic keeps_flush_buffers keeps_close_thinking
        keeps_ret split: option.split)
qed

lemma dispatch_settles: "settles (dispatch cb item)"
proof (cases item)
  case (Untagged v)
  then show ?thesis by (simp add: untagged_settles)
next
  case (Item k vs)
  then show ?thesis
    by (cases k) (simp_all add: Let_def stream_done_settles error_item_settles stopped_settles
        settlesI_keeps chunk_keeps thinking_keeps tool_line_keeps status_keeps approval_keeps
        handle_tool_thinking_def keeps_ret)
qed

lemma stop_wanted_live: "live s \<Longrightarrow> stop_wanted cb s = (r, s') \<Longrightarrow> live s'"
  using stop_quiet [of "host s"]
  by (auto simp: stop_wanted_def call_def ret_def live_def split: option.splits prod.splits)

lemma stop_batch_settles:
  "live s \<Longrightarrow> stop_batch cb s = (r, s') \<Longrightarrow>
     (case r of Inl e \<Rightarrow> live s' | Inr x \<Rightarrow> over s' \<and> drained s')"
proof -
  assume s: "live s" and run: "stop_batch cb s = (r, s')"
  obtain r1 s1 where sh: "seq [flush_buffers cb, close_thinking cb] s = (r1, s1)"
    by (cases "seq [flush_buffers cb, close_thinking cb] s") auto
  have l1: "live s1" using keepsD [OF keeps_shut s sh] .
  have split: "stop_batch cb s =
      (case r1 of Inl e \<Rightarrow> (Inl e, s1) | Inr x \<Rightarrow> seq [call (on_stopped cb), finish] s1)"
    using sh by (auto simp: stop_batch_def split: prod.splits sum.splits)
  show ?thesis
  proof (cases r1)
    case (Inl e)
    then show ?thesis using split run l1 by auto
  next
    case (Inr x)
    then show ?thesis using split run stop_settles [OF l1] shut_drained [OF sh [unfolded Inr]] by auto
  qed
qed

lemma report_failure_settles:
  assumes "live s" and "report_failure cb e s = (b, s')"
  shows "if b then live s' else over s'"
proof -
  let ?s1 = "attempt (seq [flush_buffers cb, close_thinking cb]) s"
  have l: "live ?s1"
    using keeps_shut assms(1) by (simp add: keeps_def attempt_def)
  then have q: "quiet (host ?s1)" by (simp add: live_def)
  obtain r h where er: "on_error cb e (host ?s1) = (Inr r, h)"
    using error_returns [OF q, of e] by (metis prod.collapse)
  with l q assms(2) error_recovered [OF q, of e] error_closed [OF q, of e] show ?thesis
    by (cases r) (auto simp: report_failure_def call_def Let_def live_def over_def)
qed

lemma drain_items_settles:
  "live s \<Longrightarrow> drain_items cb items s = (r, s') \<Longrightarrow>
     (case r of Inl e \<Rightarrow> live s' | Inr True \<Rightarrow> over s' | Inr False \<Rightarrow> live s' \<or> over s' \<and> drained s')"
proof (induction items arbitrary: s)
  case Nil
  then show ?case by auto
next
  case (Cons item items)
  obtain r1 s1 where w: "stop_wanted cb s = (r1, s1)" by (cases "stop_wanted cb s") auto
  have l1: "live s1" using stop_wanted_live [OF Cons.prems(1) w] .
  consider (raised) e where "r1 = Inl e" | (stop) "r1 = Inr True" | (go) "r1 = Inr False"
    by (cases r1) (auto split: bool.splits)
  then show ?case
  proof cases
    case raised
    then show ?thesis using Cons.prems w l1 by auto
  next
    case stop
    obtain r2 s2 where b: "stop_batch cb s1 = (r2, s2)" by (cases "stop_batch cb s1") auto
    then show ?thesis using stop_batch_settles [OF l1 b] Cons.prems w stop
      by (auto split: sum.splits)
  next
    case go
    obtain r2 s2 where d: "dispatch cb item s1 = (r2, s2)" by (cases "dispatch cb item s1") auto
    have st: "case r2 of Inl e \<Rightarrow> live s2 | Inr x \<Rightarrow> live s2 \<or> over s2 \<and> drained s2"
      using dispatch_settles [of item] l1 d unfolding settles_def by blast
    show ?thesis
    proof (cases r2)
      case (Inl e)
      obtain b s3 where rf: "report_failure cb e s2 = (b, s3)" by (cases "report_failure cb e s2") auto
      have "if b then live s3 else over s3"
        using report_failure_settles [OF _ rf] st Inl by simp
      then show ?thesis using Cons.IH [of s3] Cons.prems(2) w go d Inl rf by (cases b) auto
    next
      case (Inr x)
      show ?thesis
      proof (cases "job_done s2")
        case True
        then show ?thesis using st Inr Cons.prems(2) w go d by (auto simp: live_def)
      next
        case False
        then have "live s2" using st Inr by (auto simp: over_def)
        then show ?thesis using Cons.IH [of s2] Cons.prems(2) w go d Inr False by auto
      qed
    qed
  qed
qed

lemma process_batch_settles:
  assumes "live s" and "process_batch cb items s = (r, s')"
  shows "case r of Inl e \<Rightarrow> live s' | Inr x \<Rightarrow> live s' \<or> over s'"
proof -
  obtain r1 s1 where d: "drain_items cb items s = (r1, s1)" by (cases "drain_items cb items s") auto
  note st = drain_items_settles [OF assms(1) d]
  consider (raised) e where "r1 = Inl e" | (skip) "r1 = Inr True" | (flush) "r1 = Inr False"
    by (cases r1) (auto split: bool.splits)
  then show ?thesis
  proof cases
    case flush
    with st consider "live s1" | "over s1" "drained s1" by auto
    then show ?thesis
    proof cases
      case 1
      then show ?thesis
        using keepsD [OF keeps_flush_buffers 1] assms(2) d flush
        by (auto simp: process_batch_def split: sum.split)
    next
      case 2
      then show ?thesis
        using flush_of_drained [OF 2(2)] assms(2) d flush by (auto simp: process_batch_def)
    qed
  qed (use st assms(2) d in \<open>auto simp: process_batch_def\<close>)
qed

lemma report_fatal_over: "quiet (host s) \<Longrightarrow> over ((report_fatal cb e s)\<lparr>job_done := True\<rparr>)"
  using error_closed [of "host s" e]
  by (auto simp: report_fatal_def call_def over_def split: prod.split)

lemma report_fatal_done: "quiet (host s) \<Longrightarrow> job_done s \<Longrightarrow> over (report_fatal cb e s)"
  using error_closed [of "host s" e]
  by (auto simp: report_fatal_def call_def over_def split: prod.split)

lemma drain_turn_settles:
  assumes "live s" and "drain_turn cb batch s = (r, s')"
  shows "case r of Inl e \<Rightarrow> live s' | Inr x \<Rightarrow> live s' \<or> over s'"
proof -
  obtain r1 s1 where w: "stop_wanted cb s = (r1, s1)" by (cases "stop_wanted cb s") auto
  have l1: "live s1" using stop_wanted_live [OF assms(1) w] .
  consider (raised) e where "r1 = Inl e" | (stop) "r1 = Inr True" | (go) "r1 = Inr False"
    by (cases r1) (auto split: bool.splits)
  then show ?thesis
  proof cases
    case raised
    then show ?thesis using assms(2) w l1 by (auto simp: drain_turn_def)
  next
    case stop
    then show ?thesis
      using l1 assms(2) w stopped_quiet [of "host s1"] stopped_closed [of "host s1"]
      by (auto simp: drain_turn_def call_def finish_def modify_def live_def over_def
          split: prod.splits sum.splits)
  next
    case go
    show ?thesis
    proof (cases batch)
      case (Inl e)
      then show ?thesis
        using l1 assms(2) w go error_closed [of "host s1" e] error_returns [of "host s1" e]
        by (auto simp: drain_turn_def call_def finish_def modify_def live_def over_def
            split: prod.splits sum.splits)
    next
      case (Inr items)
      obtain r2 s2 where b: "process_batch cb items s1 = (r2, s2)"
        by (cases "process_batch cb items s1") auto
      note st = process_batch_settles [OF l1 b]
      have "over (report_fatal cb e (s2\<lparr>job_done := True\<rparr>))" if "r2 = Inl e" for e
        using st that by (auto simp: live_def intro!: report_fatal_done)
      with Inr assms(2) w go b st l1 show ?thesis
        by (auto simp: drain_turn_def split: list.splits sum.splits)
    qed
  qed
qed

lemma drain_loop_over: "over s \<Longrightarrow> drain_loop cb batches s = s"
  by (cases batches) (simp_all add: over_def)

lemma drain_loop_settles: "live s \<Longrightarrow> live (drain_loop cb batches s) \<or> over (drain_loop cb batches s)"
proof (induction batches arbitrary: s)
  case Nil
  then show ?case by simp
next
  case (Cons b bs)
  obtain r s1 where t: "drain_turn cb b s = (r, s1)" by (cases "drain_turn cb b s") auto
  note st = drain_turn_settles [OF Cons.prems t]
  show ?case
  proof (cases r)
    case (Inl e)
    then show ?thesis using st t Cons.prems report_fatal_over [of s1 e] by (auto simp: live_def)
  next
    case (Inr x)
    then consider "live s1" | "over s1" using st by auto
    then show ?thesis
      using Cons.IH [of s1] drain_loop_over [of s1 bs] t Inr Cons.prems
      by cases (auto simp: live_def)
  qed
qed

end

subsection \<open>A panel that logs its callbacks\<close>

text \<open>The calls the drain makes on a panel whose decisions are arbitrary: \<open>bad\<close> says which display,
  status or completion calls raise, \<open>fin\<close> which completions end the job, \<open>rec\<close> which errors are
  recovered, \<open>stop\<close> what the stop checker answers the \<open>n\<close>th time.\<close>

datatype drain_call =
    CApply pystr bool
  | CStatus pyval
  | CApproval sq_item
  | CDone sq_item bool
  | CStopped
  | CError pyval bool

type_synonym panel = "drain_call list \<times> nat"

definition log_call :: "(drain_call list \<Rightarrow> drain_call \<Rightarrow> bool) \<Rightarrow> drain_call \<Rightarrow> 'a \<Rightarrow> (panel, 'a) act" where
  "log_call bad c x h = (if bad (fst h) c then (Inl PNone, h) else (Inr x, (fst h @ [c], snd h)))"

definition log_host ::
  "(drain_call list \<Rightarrow> drain_call \<Rightarrow> bool) \<Rightarrow> (drain_call list \<Rightarrow> sq_item \<Rightarrow> bool) \<Rightarrow>
   (drain_call list \<Rightarrow> pyval \<Rightarrow> bool) \<Rightarrow> (nat \<Rightarrow> bool) \<Rightarrow> bool \<Rightarrow> panel drain_host" where
  "log_host bad fin rec stop show_thinking =
     \<lparr>apply_chunk = \<lambda>t b. log_call bad (CApply t b) (),
      on_stream_done = \<lambda>item h. log_call bad (CDone item (fin (fst h) item)) (fin (fst h) item) h,
      on_stopped = log_call (\<lambda>l c. False) CStopped (),
      on_error = \<lambda>e h. log_call (\<lambda>l c. False) (CError e (rec (fst h) e)) (rec (fst h) e) h,
      on_status = Some (\<lambda>v. log_call bad (CStatus v) ()),
      on_approval = Some (\<lambda>item. log_call bad (CApproval item) ()),
      stop_checker = Some (\<lambda>h. (Inr (stop (snd h)), (fst h, Suc (snd h)))),
      show_search_thinking = show_thinking,
      dumps = \<lambda>v. None, to_str = small_repr,
      tag_error = PStr (u ''TypeError''), join_error = PStr (u ''TypeError'')\<rparr>"

text \<open>The calls that tell the panel the job is over.\<close>

fun ends_job :: "drain_call \<Rightarrow> bool" where
  "ends_job (CDone item b) = b"
| "ends_job CStopped = True"
| "ends_job (CError e recovered) = (\<not> recovered)"
| "ends_job _ = False"

fun is_end_call :: "drain_call \<Rightarrow> bool" where
  "is_end_call (CError e recovered) = True"
| "is_end_call c = ends_job c"

definition told_once :: "drain_call list \<Rightarrow> bool" where
  "told_once l \<longleftrightarrow> l \<noteq> [] \<and> is_end_call (last l) \<and> \<not> list_ex ends_job (butlast l)"

interpretation logged: drain_contract "log_host bad fin rec stop show_thinking"
    "\<lambda>h. \<not> list_ex ends_job (fst h)" "\<lambda>h. told_once (fst h)"
  by unfold_locales (auto simp: log_host_def log_call_def told_once_def split: if_splits)

text \<open>Whatever arrives on the queue and in whatever batches, whichever panel callbacks raise and
  whenever the stop checker fires, the panel is told the end of the job at most once: as long as
  the job is not done it has seen no final completion, no stop and no unrecovered error, and when
  the job is done the last call it got is one of these (or the fatal error report) and no earlier
  one is. Nothing is displayed after that call.\<close>

theorem drain_tells_end_once:
  "let s = drain_loop (log_host bad fin rec stop show_thinking) batches (drain_start ([], 0));
       l = fst (host s)
   in if job_done s then l \<noteq> [] \<and> is_end_call (last l) \<and> \<not> list_ex ends_job (butlast l)
      else \<not> list_ex ends_job l"
proof -
  have "logged.live (drain_start ([], 0))"
    by (simp add: logged.live_def drain_start_def)
  note st = logged.drain_loop_settles [OF this, unfolded logged.live_def logged.over_def]
  show ?thesis using st [of bad fin rec stop show_thinking batches, unfolded told_once_def]
    by (auto simp: Let_def)
qed

subsection \<open>The transcript\<close>

text \<open>What the user sees, as a function of the items alone: characters with their thinking flag,
  interleaved with the calls that are not display calls.\<close>

type_synonym shown = "(nat \<times> bool) + drain_call"

definition text_shown :: "bool \<Rightarrow> pystr \<Rightarrow> shown list" where
  "text_shown b t = map (\<lambda>c. Inl (c, b)) t"

fun shown_call :: "drain_call \<Rightarrow> shown list" where
  "shown_call (CApply t b) = text_shown b t"
| "shown_call (CStatus v) = []"
| "shown_call c = [Inr c]"

definition shown_log :: "drain_call list \<Rightarrow> shown list" where
  "shown_log l = concat (map shown_call l)"

record transcript =
  shown :: "shown list"
  block_open :: bool
  over_flag :: bool

definition t_close :: "transcript \<Rightarrow> transcript" where
  "t_close t = (if block_open t
     then t\<lparr>shown := shown t @ text_shown True (u '' /thinking'' @ nl), block_open := False\<rparr> else t)"

definition t_say :: "pystr \<Rightarrow> transcript \<Rightarrow> transcript" where
  "t_say x t = (let t' = t_close t in t'\<lparr>shown := shown t' @ text_shown False x\<rparr>)"

definition t_think :: "pystr \<Rightarrow> transcript \<Rightarrow> transcript" where
  "t_think x t = t\<lparr>shown := shown t @ (if block_open t then [] else text_shown True (u ''[Thinking] ''))
     @ text_shown True x, block_open := True\<rparr>"

definition t_call :: "drain_call \<Rightarrow> bool \<Rightarrow> transcript \<Rightarrow> transcript" where
  "t_call c d t = (let t' = t_close t in t'\<lparr>shown := shown t' @ [Inr c], over_flag := d\<rparr>)"

definition t_item :: "(sq_item \<Rightarrow> bool) \<Rightarrow> (pyval \<Rightarrow> bool) \<Rightarrow> bool \<Rightarrow> sq_item \<Rightarrow> transcript \<Rightarrow> transcript" where
  "t_item fin rec show_thinking item t =
     (if over_flag t then t
      else case item of
        Untagged v \<Rightarrow> t_call (CError (PStr (u ''TypeError'')) (rec (PStr (u ''TypeError'')))) True t
      | Item k vs \<Rightarrow>
          (let x = str_or [] (item_data item); v = item_data item;
               line = (\<lambda>p. nl @ p @ u '' '' @ (if v \<noteq> PNone then small_repr v else []) @ nl) in
           case k of
             CHUNK \<Rightarrow> t_say x t
           | THINKING \<Rightarrow> t_think x t
           | TOOL_THINKING \<Rightarrow> if show_thinking then t_think x t else t
           | STATUS \<Rightarrow> t
           | TOOL_CALL \<Rightarrow> t_say (line (u ''[Tool call]'')) t
           | TOOL_RESULT \<Rightarrow> t_say (line (u ''[Tool result]'')) t
           | APPROVAL_REQUIRED \<Rightarrow> t_call (CApproval item) False t
           | STOPPED \<Rightarrow> t_call CStopped True t
           | ERROR \<Rightarrow> t_call (CError v (rec v)) (\<not> rec v) t
           | _ \<Rightarrow> t_call (CDone item (fin item)) (fin item) t))"

definition transcript_of ::
  "(sq_item \<Rightarrow> bool) \<Rightarrow> (pyval \<Rightarrow> bool) \<Rightarrow> bool \<Rightarrow> sq_item list \<Rightarrow> transcript" where
  "transcript_of fin rec show_thinking items =
     fold (t_item fin rec show_thinking) items \<lparr>shown = [], block_open = False, over_flag = False\<rparr>"

text \<open>A panel whose callbacks do not raise, decide by the item alone, and are never stopped from
  outside; and what a drain state will have shown once its buffers are flushed.\<close>

definition text_host :: "(sq_item \<Rightarrow> bool) \<Rightarrow> (pyval \<Rightarrow> bool) \<Rightarrow> bool \<Rightarrow> panel drain_host" where
  "text_host fin rec show_thinking =
     log_host (\<lambda>l c. False) (\<lambda>l. fin) (\<lambda>l. rec) (\<lambda>n. False) show_thinking"

definition joined :: "pyval list \<Rightarrow> pystr" where
  "joined vs = concat (map (str_or []) vs)"

definition view :: "panel drain_state \<Rightarrow> transcript" where
  "view s =
     (let t = \<lparr>shown = shown_log (fst (host s)), block_open = thinking_open s, over_flag = job_done s\<rparr>
      in if current_thinking s \<noteq> [] then t_think (joined (current_thinking s)) t
         else if current_content s \<noteq> [] then t_say (joined (current_content s)) t else t)"

definition buffers_ok :: "panel drain_state \<Rightarrow> bool" where
  "buffers_ok s \<longleftrightarrow> (current_thinking s = [] \<or> current_content s = []) \<and>
     list_all is_str (current_thinking s) \<and> list_all is_str (current_content s)"

fun text_item :: "sq_item \<Rightarrow> bool" where
  "text_item (Item k vs) \<longleftrightarrow> (k \<in> {CHUNK, THINKING, TOOL_THINKING} \<longrightarrow> is_str (item_data (Item k vs)))"
| "text_item (Untagged v) = True"

lemma text_shown_append [simp]: "text_shown b (x @ y) = text_shown b x @ text_shown b y"
  by (simp add: text_shown_def)

lemma shown_log_append [simp]: "shown_log (l @ l') = shown_log l @ shown_log l'"
  by (simp add: shown_log_def)

lemma shown_log_simps [simp]: "shown_log [] = []" "shown_log (c # l) = shown_call c @ shown_log l"
  by (simp_all add: shown_log_def)

lemma joined_append [simp]: "joined (vs @ ws) = joined vs @ joined ws"
  by (simp add: joined_def)

lemma joined_Nil [simp]: "joined [] = []"
  by (simp add: joined_def)

lemma joined_single [simp]: "joined [v] = str_or [] v"
  by (simp add: joined_def)

lemma t_think_think: "t_think y (t_think x t) = t_think (x @ y) t"
  by (simp add: t_think_def)

lemma t_say_say: "t_say y (t_say x t) = t_say (x @ y) t"
  by (simp add: t_say_def t_close_def Let_def)

lemma text_host_simps [simp]:
  "apply_chunk (text_host fin rec sh) t b h = (Inr (), (fst h @ [CApply t b], snd h))"
  "on_stream_done (text_host fin rec sh) item h = (Inr (fin item), (fst h @ [CDone item (fin item)], snd h))"
  "on_stopped (text_host fin rec sh) h = (Inr (), (fst h @ [CStopped], snd h))"
  "on_error (text_host fin rec sh) e h = (Inr (rec e), (fst h @ [CError e (rec e)], snd h))"
  "on_status (text_host fin rec sh) = Some (\<lambda>v h. (Inr (), (fst h @ [CStatus v], snd h)))"
  "on_approval (text_host fin rec sh) = Some (\<lambda>item h. (Inr (), (fst h @ [CApproval item], snd h)))"
  "stop_checker (text_host fin rec sh) = Some (\<lambda>h. (Inr False, (fst h, Suc (snd h))))"
  "show_search_thinking (text_host fin rec sh) = sh"
  "dumps (text_host fin rec sh) v = None" "to_str (text_host fin rec sh) = small_repr"
  "tag_error (text_host fin rec sh) = PStr (u ''TypeError'')"
  by (simp_all add: text_host_def log_host_def log_call_def fun_eq_iff)

lemma flush_view:
  assumes "buffers_ok s"
  shows "\<exists>s'. flush_buffers (text_host fin rec sh) s = (Inr (), s') \<and> view s' = view s \<and>
    current_thinking s' = [] \<and> current_content s' = []"
proof -
  consider "current_thinking s = []" "current_content s = []"
    | "current_thinking s \<noteq> []" "current_content s = []"
    | "current_thinking s = []" "current_content s \<noteq> []"
    using assms by (auto simp: buffers_ok_def)
  then show ?thesis
    using assms
    by cases (auto simp: flush_buffers_def flush_thinking_def flush_content_def close_thinking_def
        whenever_def modify_def call_def apply_joined_def join_strs_def joined_def view_def
        buffers_ok_def t_think_def t_say_def t_close_def Let_def)
qed

lemma close_view:
  assumes "current_thinking s = []" and "current_content s = []"
  shows "\<exists>s'. close_thinking (text_host fin rec sh) s = (Inr (), s') \<and> view s' = t_close (view s) \<and>
    \<not> thinking_open s' \<and> current_thinking s' = [] \<and> current_content s' = []"
  using assms
  by (auto simp: close_thinking_def whenever_def modify_def call_def view_def t_close_def Let_def)

lemma shut_view:
  assumes "buffers_ok s"
  obtains s1 where
    "\<And>ms. seq (flush_buffers (text_host fin rec sh) # close_thinking (text_host fin rec sh) # ms) s = seq ms s1"
    and "view s1 = t_close (view s)" and "\<not> thinking_open s1"
    and "current_thinking s1 = []" and "current_content s1 = []"
proof -
  obtain s0 where f: "flush_buffers (text_host fin rec sh) s = (Inr (), s0)" "view s0 = view s"
    "current_thinking s0 = []" "current_content s0 = []"
    using flush_view [OF assms] by blast
  obtain s1 where c: "close_thinking (text_host fin rec sh) s0 = (Inr (), s1)"
    "view s1 = t_close (view s0)" "\<not> thinking_open s1" "current_thinking s1 = []" "current_content s1 = []"
    using close_view [OF f(3,4)] by blast
  show ?thesis by (rule that [of s1]) (use f c in simp_all)
qed

lemma view_flags [simp]: "over_flag (view s) = job_done s"
  by (simp add: view_def t_think_def t_say_def t_close_def Let_def)

lemma view_empty:
  "current_thinking s = [] \<Longrightarrow> current_content s = [] \<Longrightarrow>
     view s = \<lparr>shown = shown_log (fst (host s)), block_open = thinking_open s, over_flag = job_done s\<rparr>"
  by (simp add: view_def)

lemma chunk_view:
  assumes "buffers_ok s" and "is_str v"
  shows "\<exists>s'. handle_chunk (text_host fin rec sh) v s = (Inr (), s') \<and> buffers_ok s' \<and>
    view s' = t_say (str_or [] v) (view s)"
proof -
  obtain s1 where f: "flush_buffers (text_host fin rec sh) s = (Inr (), s1)" "view s1 = view s"
    "current_thinking s1 = []" "current_content s1 = []"
    using flush_view [OF assms(1)] by blast
  show ?thesis
  proof (cases "current_thinking s = []")
    case True
    then show ?thesis using assms
      by (auto simp: handle_chunk_def whenever_def modify_def buffers_ok_def view_def t_say_say
          Let_def)
  next
    case False
    then show ?thesis using f assms(2)
      by (auto simp: handle_chunk_def whenever_def modify_def buffers_ok_def view_def [of "current_content_update _ _"]
          view_empty joined_def)
  qed
qed

lemma thinking_view:
  assumes "buffers_ok s" and "is_str v"
  shows "\<exists>s'. handle_thinking (text_host fin rec sh) v s = (Inr (), s') \<and> buffers_ok s' \<and>
    view s' = t_think (str_or [] v) (view s)"
proof -
  obtain s1 where f: "flush_buffers (text_host fin rec sh) s = (Inr (), s1)" "view s1 = view s"
    "current_thinking s1 = []" "current_content s1 = []"
    using flush_view [OF assms(1)] by blast
  show ?thesis
  proof (cases "current_content s = []")
    case True
    then show ?thesis using assms
      by (auto simp: handle_thinking_def whenever_def modify_def buffers_ok_def view_def t_think_think
          Let_def)
  next
    case False
    then show ?thesis using f assms(2)
      by (auto simp: handle_thinking_def whenever_def modify_def buffers_ok_def
          view_def [of "current_thinking_update _ _"] view_empty joined_def)
  qed
qed

lemma shut_call_view:
  assumes "buffers_ok s"
    and "\<And>s1. seq ms s1 = (Inr (), s1\<lparr>host := (fst (host s1) @ [c], snd (host s1)), job_done := job_done s1 \<or> d\<rparr>)"
    and "shown_call c = [Inr c]" and "\<not> job_done s"
  shows "\<exists>s'. seq (flush_buffers (text_host fin rec sh) # close_thinking (text_host fin rec sh) # ms) s = (Inr (), s')
    \<and> buffers_ok s' \<and> view s' = t_call c d (view s)"
proof -
  obtain s1 where s1: "\<And>ms. seq (flush_buffers (text_host fin rec sh) # close_thinking (text_host fin rec sh) # ms) s = seq ms s1"
    "view s1 = t_close (view s)" "\<not> thinking_open s1" "current_thinking s1 = []" "current_content s1 = []"
    by (rule shut_view [OF assms(1), where fin = fin and rec = rec and sh = sh]) blast
  have "job_done s1 = job_done s"
    using arg_cong [OF s1(2), of over_flag] by (simp add: t_close_def)
  with assms(4) s1 show ?thesis
    unfolding s1(1) assms(2)
    by (auto simp: buffers_ok_def t_call_def Let_def view_empty assms(3) simp flip: s1(2))
qed

lemma tool_line_view:
  assumes "buffers_ok s"
  shows "\<exists>s'. handle_tool_line (text_host fin rec sh) p v s = (Inr (), s') \<and> buffers_ok s' \<and>
    view s' = t_say (nl @ p @ u '' '' @ (if v \<noteq> PNone then small_repr v else []) @ nl) (view s)"
proof -
  obtain s1 where s1: "\<And>ms. seq (flush_buffers (text_host fin rec sh) # close_thinking (text_host fin rec sh) # ms) s = seq ms s1"
    "view s1 = t_close (view s)" "\<not> thinking_open s1" "current_thinking s1 = []" "current_content s1 = []"
    by (rule shut_view [OF assms(1), where fin = fin and rec = rec and sh = sh]) blast
  have "agent_tool_line (text_host fin rec sh) p v = nl @ p @ u '' '' @ (if v \<noteq> PNone then small_repr v else []) @ nl"
    by (cases v) (simp_all add: agent_tool_line_def)
  with s1 show ?thesis
    unfolding handle_tool_line_def s1(1)
    by (auto simp: buffers_ok_def t_say_def Let_def view_empty call_def simp flip: s1(2))
qed

lemma dispatch_view:
  assumes "buffers_ok s" and "\<not> job_done s" and "text_item item"
  shows "\<exists>s'. dispatch (text_host fin rec sh) item s = (Inr (), s') \<and> buffers_ok s' \<and>
    view s' = t_item fin rec sh item (view s)"
proof -
  have done_like: "\<exists>s'. handle_stream_done_like (text_host fin rec sh) item s = (Inr (), s') \<and> buffers_ok s' \<and>
      view s' = t_call (CDone item (fin item)) (fin item) (view s)"
    unfolding handle_stream_done_like_def
    by (rule shut_call_view [OF assms(1) _ _ assms(2)])
      (simp_all add: finish_if_def call_def finish_def modify_def)
  have err: "\<exists>s'. handle_error_item (text_host fin rec sh) v s = (Inr (), s') \<and> buffers_ok s' \<and>
      view s' = t_call (CError v (rec v)) (\<not> rec v) (view s)" for v
    unfolding handle_error_item_def
    by (rule shut_call_view [OF assms(1) _ _ assms(2)])
      (simp_all add: finish_if_def call_def finish_def modify_def)
  have stp: "\<exists>s'. handle_stopped (text_host fin rec sh) s = (Inr (), s') \<and> buffers_ok s' \<and>
      view s' = t_call CStopped True (view s)"
    unfolding handle_stopped_def
    by (rule shut_call_view [OF assms(1) _ _ assms(2)])
      (simp_all add: call_def finish_def modify_def)
  have appr: "\<exists>s'. handle_approval_required (text_host fin rec sh) item s = (Inr (), s') \<and> buffers_ok s' \<and>
      view s' = t_call (CApproval item) False (view s)"
    unfolding handle_approval_required_def
    by (rule shut_call_view [OF assms(1) _ _ assms(2)])
      (simp_all add: attempt_def call_def)
  have unt: "\<exists>s'. handle_untagged (text_host fin rec sh) s = (Inr (), s') \<and> buffers_ok s' \<and>
      view s' = t_call (CError (PStr (u ''TypeError'')) (rec (PStr (u ''TypeError'')))) True (view s)"
    unfolding handle_untagged_def
    by (rule shut_call_view [OF assms(1) _ _ assms(2)])
      (simp_all add: call_def finish_def modify_def)
  have status: "\<exists>s'. handle_status (text_host fin rec sh) v s = (Inr (), s') \<and> buffers_ok s' \<and>
      view s' = view s" for v
    using assms(1)
    by (auto simp: handle_status_def call_def buffers_ok_def view_def Let_def)
  show ?thesis
  proof (cases item)
    case (Untagged v)
    then show ?thesis using unt assms(2) by (simp add: t_item_def)
  next
    case (Item k vs)
    then show ?thesis
      using done_like err stp appr status tool_line_view [OF assms(1)] chunk_view [OF assms(1)]
        thinking_view [OF assms(1)] assms
      by (cases k) (auto simp: t_item_def Let_def handle_tool_thinking_def ret_def)
  qed
qed

lemma view_tick [simp]: "view (s\<lparr>host := (fst (host s), n)\<rparr>) = view s"
  by (simp add: view_def Let_def)

lemma stop_wanted_text:
  "stop_wanted (text_host fin rec sh) s = (Inr False, s\<lparr>host := (fst (host s), Suc (snd (host s)))\<rparr>)"
  by (simp add: stop_wanted_def call_def)

lemma fold_t_item_over: "over_flag t \<Longrightarrow> fold (t_item fin rec sh) items t = t"
  by (induction items) (simp_all add: t_item_def)

lemma drain_items_view:
  assumes "buffers_ok s" and "\<not> job_done s" and "list_all text_item items"
  shows "\<exists>s'. drain_items (text_host fin rec sh) items s = (Inr False, s') \<and> buffers_ok s' \<and>
    view s' = fold (t_item fin rec sh) items (view s)"
  using assms
proof (induction items arbitrary: s)
  case Nil
  then show ?case by simp
next
  case (Cons item items)
  let ?s = "s\<lparr>host := (fst (host s), Suc (snd (host s)))\<rparr>"
  have "buffers_ok ?s" "\<not> job_done ?s" "text_item item"
    using Cons.prems by (simp_all add: buffers_ok_def)
  then obtain s1 where d: "dispatch (text_host fin rec sh) item ?s = (Inr (), s1)"
    and ok: "buffers_ok s1" and v: "view s1 = t_item fin rec sh item (view s)"
    using dispatch_view [of ?s item fin rec sh] by auto
  show ?case
  proof (cases "job_done s1")
    case True
    then have "over_flag (view s1)" by simp
    then show ?thesis using True d ok v
      by (simp add: stop_wanted_text fold_t_item_over)
  next
    case False
    then show ?thesis using Cons.IH [OF ok False] Cons.prems(3) d v
      by (simp add: stop_wanted_text)
  qed
qed

lemma process_batch_view:
  assumes "buffers_ok s" and "\<not> job_done s" and "list_all text_item items"
  shows "\<exists>s'. process_batch (text_host fin rec sh) items s = (Inr (), s') \<and>
    current_thinking s' = [] \<and> current_content s' = [] \<and>
    view s' = fold (t_item fin rec sh) items (view s)"
proof -
  obtain s1 where d: "drain_items (text_host fin rec sh) items s = (Inr False, s1)"
    and ok: "buffers_ok s1" and v: "view s1 = fold (t_item fin rec sh) items (view s)"
    using drain_items_view [OF assms] by blast
  obtain s2 where "flush_buffers (text_host fin rec sh) s1 = (Inr (), s2)" "view s2 = view s1"
    "current_thinking s2 = []" "current_content s2 = []"
    using flush_view [OF ok] by blast
  with d v show ?thesis by (simp add: process_batch_def)
qed

lemma drain_loop_view:
  assumes "current_thinking s = []" and "current_content s = []"
    and "list_all text_item (concat batches)"
  shows "let s' = drain_loop (text_host fin rec sh) (map Inr batches) s
    in current_thinking s' = [] \<and> current_content s' = [] \<and>
       view s' = fold (t_item fin rec sh) (concat batches) (view s)"
  using assms
proof (induction batches arbitrary: s)
  case Nil
  then show ?case by simp
next
  case (Cons b bs)
  show ?case
  proof (cases "job_done s")
    case True
    then have "over_flag (view s)" by simp
    then show ?thesis using True Cons.prems by (simp add: fold_t_item_over)
  next
    case False
    let ?s = "s\<lparr>host := (fst (host s), Suc (snd (host s)))\<rparr>"
    have "buffers_ok ?s" "\<not> job_done ?s" using False Cons.prems by (simp_all add: buffers_ok_def)
    then obtain s1 where p: "process_batch (text_host fin rec sh) b ?s = (Inr (), s1)"
      and e: "current_thinking s1 = []" "current_content s1 = []"
      and v: "view s1 = fold (t_item fin rec sh) b (view s)"
      using process_batch_view [of ?s b fin rec sh] Cons.prems(3) by auto
    have "drain_turn (text_host fin rec sh) (Inr b) s = (if b = [] then (Inr (), ?s) else (Inr (), s1))"
      using p by (cases b) (simp_all add: drain_turn_def stop_wanted_text)
    with Cons.IH [of ?s] Cons.IH [OF e] Cons.prems False v show ?thesis
      by (cases b) (simp_all add: Let_def)
  qed
qed

text \<open>C21: The transcript depends on the items alone: however the queue happens to cut them into
  batches (and with any empty reads in between), a panel that is not stopped is shown exactly the
  transcript of the item sequence: text in order and complete, each run of thinking opened and
  closed by its markers, the closing marker before any answer text or callback, and nothing after
  the item that ends the job.\<close>

theorem drain_shows_transcript:
  assumes "list_all text_item (concat batches)"
  shows "let s = drain_loop (text_host fin rec show_thinking) (map Inr batches) (drain_start ([], 0));
             t = transcript_of fin rec show_thinking (concat batches)
         in shown_log (fst (host s)) = shown t \<and> thinking_open s = block_open t \<and> job_done s = over_flag t"
proof -
  let ?s = "drain_loop (text_host fin rec show_thinking) (map Inr batches) (drain_start ([], 0))"
  have "view (drain_start ([], 0)) = \<lparr>shown = [], block_open = False, over_flag = False\<rparr>"
    by (simp add: view_def drain_start_def)
  with drain_loop_view [OF _ _ assms, of "drain_start ([], 0)" fin rec show_thinking]
  have "current_thinking ?s = []" "current_content ?s = []"
    "view ?s = transcript_of fin rec show_thinking (concat batches)"
    by (simp_all add: drain_start_def transcript_of_def Let_def)
  then have "transcript_of fin rec show_thinking (concat batches) =
      \<lparr>shown = shown_log (fst (host ?s)), block_open = thinking_open ?s, over_flag = job_done ?s\<rparr>"
    using view_empty by metis
  then show ?thesis by (simp add: Let_def)
qed

theorem drain_shows_transcript_witness:
  "let s = drain_loop (text_host (\<lambda>i. True) (\<lambda>e. False) False)
         (map Inr [[Item THINKING [PStr (u ''hm'')]], [], [Item CHUNK [PStr (u ''ok'')], Item STREAM_DONE []]])
         (drain_start ([], 0))
   in shown_log (fst (host s)) =
      text_shown True (u ''[Thinking] hm /thinking'' @ nl) @ text_shown False (u ''ok'')
      @ [Inr (CDone (Item STREAM_DONE []) True)] \<and> job_done s"
proof -
  have ok: "list_all text_item (concat [[Item THINKING [PStr (u ''hm'')]], [],
      [Item CHUNK [PStr (u ''ok'')], Item STREAM_DONE []]])" by simp
  show ?thesis
    using drain_shows_transcript [OF ok, of "\<lambda>i. True" "\<lambda>e. False" False]
    by (simp add: Let_def transcript_of_def t_item_def t_say_def t_think_def t_call_def t_close_def
        text_shown_def u_def)
qed

subsection \<open>What the batcher delivers\<close>

text \<open>A use of the batcher: items put at a time, explicit flushes, the timer firing (which flushes
  as well).\<close>

datatype batch_op = BPut rat sq_item | BFlush | BTimer

fun batch_step :: "rat \<Rightarrow> batch_op \<Rightarrow> batcher \<Rightarrow> batcher" where
  "batch_step interval (BPut now item) b = batch_put interval now item b"
| "batch_step interval BFlush b = batch_flush b"
| "batch_step interval BTimer b = (if batch_deadline b = None then b else batch_flush b)"

definition batch_run :: "rat \<Rightarrow> batch_op list \<Rightarrow> batcher \<Rightarrow> batcher" where
  "batch_run interval ops = fold (batch_step interval) ops"

definition batch_new :: batcher where
  "batch_new = \<lparr>content_buf = [], thinking_buf = [], batch_deadline = None, raw_queue = []\<rparr>"

fun puts :: "batch_op list \<Rightarrow> sq_item list" where
  "puts [] = []"
| "puts (BPut now item # ops) = item # puts ops"
| "puts (_ # ops) = puts ops"

text \<open>The content and the thinking text between two boundary items.\<close>

fun segments :: "pystr \<Rightarrow> pystr \<Rightarrow> sq_item list \<Rightarrow> (pystr \<times> pystr \<times> sq_item option) list" where
  "segments c t [] = [(c, t, None)]"
| "segments c t (Item CHUNK vs # xs) = segments (c @ delta (Item CHUNK vs)) t xs"
| "segments c t (Item THINKING vs # xs) = segments c (t @ delta (Item THINKING vs)) xs"
| "segments c t (x # xs) = (c, t, Some x) # segments [] [] xs"

definition is_text :: "sq_item \<Rightarrow> bool" where
  "is_text x \<longleftrightarrow> (\<exists>vs. x = Item CHUNK vs) \<or> (\<exists>vs. x = Item THINKING vs)"

lemma segments_boundary: "\<not> is_text x \<Longrightarrow> segments c t (x # xs) = (c, t, Some x) # segments [] [] xs"
  by (cases "(c, t, x # xs)" rule: segments.cases) (auto simp: is_text_def)

lemma batch_put_boundary:
  "\<not> is_text x \<Longrightarrow> batch_put interval now x b =
     (let b' = batch_flush b in b'\<lparr>raw_queue := raw_queue b' @ [x]\<rparr>)"
  by (cases "(interval, now, x, b)" rule: batch_put.cases) (auto simp: is_text_def)

text \<open>The segments of a queue followed by more items, given those of the items that follow.\<close>

definition onto :: "(pystr \<times> pystr \<times> sq_item option) list \<Rightarrow> sq_item list \<Rightarrow> (pystr \<times> pystr \<times> sq_item option) list" where
  "onto ss xs = (case last ss of (c, t, _) \<Rightarrow> butlast ss @ segments c t xs)"

lemma segments_ne [simp]: "segments c t xs \<noteq> []"
  by (induction c t xs rule: segments.induct) simp_all

lemma segments_append: "segments c t (xs @ ys) = onto (segments c t xs) ys"
  by (induction c t xs rule: segments.induct) (simp_all add: onto_def split: prod.split)

text \<open>The content of a batcher as a queue: what it has emitted, then its buffers.\<close>

definition pending_items :: "batcher \<Rightarrow> sq_item list" where
  "pending_items b = raw_queue (batch_flush b)"

definition same_text :: "sq_item list \<Rightarrow> sq_item list \<Rightarrow> bool" where
  "same_text xs ys \<longleftrightarrow> segments [] [] xs = segments [] [] ys"

lemma same_text_append: "same_text xs ys \<Longrightarrow> same_text (xs @ zs) (ys @ zs)"
  by (simp add: same_text_def segments_append)

lemma pending_put_text:
  "is_text x \<Longrightarrow> same_text (pending_items (batch_put interval now x b)) (pending_items b @ [x])"
proof -
  assume "is_text x"
  have d: "delta (Item CHUNK [PStr z]) = z" "delta (Item THINKING [PStr z]) = z" for z
    by (simp_all add: delta_def)
  from \<open>is_text x\<close> consider vs where "x = Item CHUNK vs" | vs where "x = Item THINKING vs"
    by (auto simp: is_text_def)
  then show ?thesis
    by cases (auto simp: same_text_def pending_items_def batch_flush_def schedule_def segments_append
        onto_def d split: prod.split)
qed

lemma pending_put:
  "same_text (pending_items (batch_put interval now x b)) (pending_items b @ [x])"
proof (cases "is_text x")
  case True
  then show ?thesis by (rule pending_put_text)
next
  case False
  then show ?thesis
    by (simp add: batch_put_boundary same_text_def pending_items_def batch_flush_def Let_def)
qed

lemma pending_flush [simp]: "pending_items (batch_flush b) = pending_items b"
  by (simp add: pending_items_def batch_flush_def)

lemma pending_run:
  "same_text (pending_items (batch_run interval ops b)) (pending_items b @ puts ops)"
proof (induction ops arbitrary: b)
  case Nil
  then show ?case by (simp add: batch_run_def same_text_def)
next
  case (Cons op ops)
  show ?case
  proof (cases op)
    case (BPut now x)
    have "same_text (pending_items (batch_run interval ops (batch_put interval now x b)))
        (pending_items (batch_put interval now x b) @ puts ops)"
      by (rule Cons.IH)
    moreover have "same_text (pending_items (batch_put interval now x b) @ puts ops)
        ((pending_items b @ [x]) @ puts ops)"
      by (rule same_text_append) (rule pending_put)
    ultimately show ?thesis using BPut by (simp add: batch_run_def same_text_def)
  next
    case BFlush
    then show ?thesis using Cons.IH [of "batch_flush b"] by (simp add: batch_run_def)
  next
    case BTimer
    then show ?thesis using Cons.IH [of "batch_flush b"] Cons.IH [of b] by (simp add: batch_run_def)
  qed
qed

text \<open>Batching loses, invents and reorders no text of a kind, and no text crosses a boundary
  item: for any interleaving of puts, flushes and timer firings, the queue after a last flush has
  the same boundary items in the same order as the items put, and between two of them the same
  answer text and the same thinking text.\<close>

theorem batcher_preserves_text:
  "segments [] [] (raw_queue (batch_flush (batch_run interval ops batch_new))) = segments [] [] (puts ops)"
  using pending_run [of interval ops batch_new]
  by (simp add: same_text_def pending_items_def batch_new_def batch_flush_def)

text \<open>The flush deadline is not the promised hard maximum of one interval after the first
  fragment: a thinking fragment arriving while answer text is pending (or the reverse) starts its
  own buffer and re-arms the single timer, so answer text put at time 0 is still unsent and only
  due at \<open>d + interval\<close>; and the flush then sends the answer text before the thinking, whichever
  came first.\<close>

theorem batcher_deadline_pushed:
  "let b = batch_put interval d (Item THINKING [PStr t]) (batch_put interval 0 (Item CHUNK [PStr c]) batch_new);
       b' = batch_put interval d (Item CHUNK [PStr c]) (batch_put interval 0 (Item THINKING [PStr t]) batch_new)
   in raw_queue b = [] \<and> batch_deadline b = Some (d + interval) \<and> batch_deadline b' = Some (d + interval) \<and>
      raw_queue (batch_flush b') = [Item CHUNK [PStr c], Item THINKING [PStr t]]"
  by (simp add: batch_new_def schedule_def delta_def batch_flush_def)

end
