(* ===== verification/ToolDrive.thy ===== *)
theory ToolDrive
  imports ToolLoop StreamDrain
begin

text \<open>
  The tool loop running: the main thread takes items off the stream queue, turns the ones the
  state machine knows into events (\<open>tool_loop.py\<close>), and executes the effects
  (\<open>tool_loop_actions.py\<close>), which post to the queue, start worker threads, or run a tool
  inline; the workers post their result when they end. A step relation interleaves the workers,
  the user's Stop and the drain.

  \<open>drive_env\<close> holds what lies outside: what a synchronous tool returns, which tools change the
  document, which errors mean that the model rejects audio, whether a speech model is configured
  and what it makes of the recording (\<open>None\<close> when it raises).
\<close>

record drive_env =
  loop_env :: tl_env
  run_tool :: "pystr \<Rightarrow> pydict \<Rightarrow> pyval"
  detects_mutation :: "pystr \<Rightarrow> bool"
  audio_rejected :: "pyval \<Rightarrow> bool"
  has_stt :: bool
  transcribe :: "pystr option"

datatype loop_worker = LLMWorker int | FinalWorker | ToolWorker pystr pystr pystr

record drive =
  loop :: tool_loop_state
  queue :: "sq_item list"
  workers :: "loop_worker list"
  session :: "tl_effect list"  \<comment> \<open>the assistant and tool messages added, in order\<close>
  audio_pending :: bool  \<comment> \<open>\<open>audio_wav_path\<close> is set\<close>
  terminal :: pystr
  stop_flag :: bool  \<comment> \<open>\<open>stop_requested\<close>\<close>
  refused :: bool  \<comment> \<open>the user has refused a web search a tool asked for\<close>
  exited :: bool

subsection \<open>Effects\<close>

definition post :: "sq_item \<Rightarrow> drive \<Rightarrow> drive" where
  "post item c = c\<lparr>queue := queue c @ [item]\<rparr>"

definition spawn :: "loop_worker \<Rightarrow> drive \<Rightarrow> drive" where
  "spawn w c = c\<lparr>workers := workers c @ [w]\<rparr>"

definition spawn_tool_worker ::
  "drive_env \<Rightarrow> pystr \<Rightarrow> pystr \<Rightarrow> pystr \<Rightarrow> pydict \<Rightarrow> bool \<Rightarrow> drive \<Rightarrow> drive" where
  "spawn_tool_worker D call_id f arg_str args is_async c =
     (if is_async then spawn (ToolWorker call_id f arg_str) c
      else post (Item TOOL_DONE [PStr call_id, PStr f, PStr arg_str, run_tool D f args]) c)"

definition execute_ui :: "pystr \<Rightarrow> pystr \<Rightarrow> drive \<Rightarrow> drive" where
  "execute_ui kind text c =
     (if kind = u ''status'' \<and> text \<in> {u ''Stopped'', u ''Ready'', u ''Error''}
      then c\<lparr>terminal := text\<rparr> else c)"

fun execute :: "drive_env \<Rightarrow> tl_effect \<Rightarrow> drive \<Rightarrow> drive" where
  "execute D ExitLoop c = c\<lparr>exited := True\<rparr>"
| "execute D TriggerNextTool c = post (Item NEXT_TOOL []) c"
| "execute D SpawnFinalStream c = spawn FinalWorker c"
| "execute D (SpawnLLMWorker r) c = spawn (LLMWorker r) c"
| "execute D (SpawnToolWorker call_id f arg_str args b) c = spawn_tool_worker D call_id f arg_str args b c"
| "execute D (LoopUI kind text) c = execute_ui kind text c"
| "execute D (AddMessage role content tcs call_id replay) c =
     c\<lparr>session := session c @ [AddMessage role content tcs call_id replay]\<rparr>"
| "execute D CleanupAudio c = c\<lparr>audio_pending := False\<rparr>"
| "execute D UpdateDocumentContext c = c"
| "execute D (LogAgent l m d h) c = c"
| "execute D (UpdateActivityState a r t) c = c"

definition step_loop :: "drive_env \<Rightarrow> tl_event \<Rightarrow> drive \<Rightarrow> drive" where
  "step_loop D e c =
     (let t = tl_next_state (loop_env D) (loop c) e
      in fold (execute D) (effects t) (c\<lparr>loop := state t\<rparr>))"

subsection \<open>Items as events\<close>

fun nth_arg :: "pyval list \<Rightarrow> nat \<Rightarrow> pyval" where
  "nth_arg vs i = (if i < length vs then vs ! i else PNone)"

fun event_of_item :: "drive_env \<Rightarrow> bool \<Rightarrow> sq_item \<Rightarrow> tl_event option" where
  "event_of_item D audio (Item STREAM_DONE vs) =
     Some \<lparr>tl_kind = StreamDoneKind,
           tl_data = [(u ''response'', nth_arg vs 0), (u ''has_audio'', PBool audio)]\<rparr>"
| "event_of_item D audio (Item NEXT_TOOL vs) = Some \<lparr>tl_kind = NextTool, tl_data = []\<rparr>"
| "event_of_item D audio (Item TOOL_DONE vs) =
     Some \<lparr>tl_kind = ToolResult,
           tl_data = [(u ''call_id'', nth_arg vs 0), (u ''func_name'', nth_arg vs 1),
             (u ''func_args_str'', nth_arg vs 2), (u ''result'', nth_arg vs 3),
             (u ''mutates_document'',
                PBool (length vs > 3 \<and> is_str (nth_arg vs 1) \<and> detects_mutation D (str_or [] (nth_arg vs 1))))]\<rparr>"
| "event_of_item D audio (Item FINAL_DONE vs) =
     Some \<lparr>tl_kind = FinalDone, tl_data = [(u ''content'', nth_arg vs 0)]\<rparr>"
| "event_of_item D audio (Item ERROR vs) =
     Some \<lparr>tl_kind = LoopError, tl_data = [(u ''error'', nth_arg vs 0)]\<rparr>"
| "event_of_item D audio _ = None"

fun is_next_tool :: "sq_item \<Rightarrow> bool" where
  "is_next_tool (Item k vs) \<longleftrightarrow> k = NEXT_TOOL"
| "is_next_tool (Untagged v) = False"

definition sync_stop :: "sq_item \<Rightarrow> drive \<Rightarrow> drive" where
  "sync_stop item c =
     (if is_next_tool item \<and> stop_flag c \<and> \<not> tl_is_stopped (loop c)
      then c\<lparr>loop := (loop c)\<lparr>tl_is_stopped := True\<rparr>\<rparr> else c)"

definition handle_stream_completion :: "drive_env \<Rightarrow> sq_item \<Rightarrow> drive \<Rightarrow> drive" where
  "handle_stream_completion D item c =
     (let c1 = sync_stop item c
      in case event_of_item D (audio_pending c1) item of
           None \<Rightarrow> c1
         | Some e \<Rightarrow> step_loop D e c1)"

definition handle_stream_stopped :: "drive_env \<Rightarrow> drive \<Rightarrow> drive" where
  "handle_stream_stopped D c = step_loop D \<lparr>tl_kind = StopRequest, tl_data = []\<rparr> c"

text \<open>The value says whether the handler recovered, so that the drain goes on.\<close>

definition handle_stream_error :: "drive_env \<Rightarrow> pyval \<Rightarrow> drive \<Rightarrow> bool \<times> drive" where
  "handle_stream_error D e c =
     (if audio_pending c \<and> audio_rejected D e \<and> has_stt D
      then (case transcribe D of
              None \<Rightarrow> (False, c)
            | Some t \<Rightarrow>
                (let c1 = c\<lparr>audio_pending := False\<rparr>
                 in if strip t = [] then (True, c1\<lparr>terminal := []\<rparr>)
                    else (True, spawn (LLMWorker (tl_round_num (loop c1))) c1)))
      else (False, c\<lparr>terminal := u ''Error'', audio_pending := False\<rparr>))"

text \<open>What the drain does with an item (\<open>StreamDrain\<close>), as far as the loop is concerned.\<close>

fun drain_item :: "drive_env \<Rightarrow> sq_item \<Rightarrow> drive \<Rightarrow> drive" where
  "drain_item D (Item STOPPED vs) c = (handle_stream_stopped D c)\<lparr>exited := True\<rparr>"
| "drain_item D (Item ERROR vs) c =
     (case handle_stream_error D (item_data (Item ERROR vs)) c of
        (True, c') \<Rightarrow> c' | (False, c') \<Rightarrow> c'\<lparr>exited := True\<rparr>)"
| "drain_item D (Item k vs) c =
     (if k \<in> {STREAM_DONE, NEXT_TOOL, TOOL_DONE, FINAL_DONE}
      then handle_stream_completion D (Item k vs) c else c)"
| "drain_item D (Untagged v) c =
     (let c' = snd (handle_stream_error D (PStr (u ''TypeError'')) c) in c'\<lparr>exited := True\<rparr>)"

subsection \<open>The interleaving\<close>

fun display_item :: "sq_item \<Rightarrow> bool" where
  "display_item (Item k vs) \<longleftrightarrow> k \<in> {CHUNK, THINKING, STATUS, TOOL_THINKING, APPROVAL_REQUIRED, TOOL_CALL, TOOL_RESULT}"
| "display_item (Untagged v) = False"

text \<open>A tool that searches the web may ask for approval (\<open>_web_approval\<close> in \<open>tool_loop_actions.py\<close>): it posts
  the question, waits, and after a refusal posts \<open>STOPPED\<close> and goes on; its result follows later. What
  a worker may post last; one that ends after a stop has been requested does not deliver
  an answer.\<close>

inductive posts :: "bool \<Rightarrow> loop_worker \<Rightarrow> sq_item \<Rightarrow> bool" where
  llm_done: "\<not> stopped \<Longrightarrow> posts stopped (LLMWorker r) (Item STREAM_DONE [PDict response])"
| llm_stopped: "posts stopped (LLMWorker r) (Item STOPPED [])"
| llm_error: "posts stopped (LLMWorker r) (Item ERROR [e])"
| final_done: "\<not> stopped \<Longrightarrow> posts stopped FinalWorker (Item FINAL_DONE [PStr text])"
| final_stopped: "posts stopped FinalWorker (Item STOPPED [])"
| final_error: "posts stopped FinalWorker (Item ERROR [e])"
| tool_done: "posts stopped (ToolWorker i f a) (Item TOOL_DONE [PStr i, PStr f, PStr a, result])"

inductive drive_step :: "drive_env \<Rightarrow> drive \<Rightarrow> drive \<Rightarrow> bool" for D where
  worker_ends: "workers c = ws @ w # ws' \<Longrightarrow> posts (stop_flag c) w item \<Longrightarrow>
     drive_step D c (post item (c\<lparr>workers := ws @ ws'\<rparr>))"
| worker_shows: "workers c \<noteq> [] \<Longrightarrow> display_item item \<Longrightarrow> drive_step D c (post item c)"
| worker_refused: "workers c = ws @ ToolWorker i f a # ws' \<Longrightarrow>
     drive_step D c (post (Item STOPPED []) (c\<lparr>refused := True\<rparr>))"
| user_stops: "drive_step D c (c\<lparr>stop_flag := True\<rparr>)"
| drain_stops: "\<not> exited c \<Longrightarrow> stop_flag c \<Longrightarrow>
     drive_step D c ((handle_stream_stopped D c)\<lparr>exited := True\<rparr>)"
| drain_takes: "\<not> exited c \<Longrightarrow> queue c = item # q \<Longrightarrow>
     drive_step D c (drain_item D item (c\<lparr>queue := q\<rparr>))"

definition drive_start :: "tool_loop_state \<Rightarrow> bool \<Rightarrow> drive" where
  "drive_start s audio =
     \<lparr>loop = s, queue = [], workers = [LLMWorker (tl_round_num s)], session = [],
      audio_pending = audio, terminal = u ''Ready'', stop_flag = False, refused = False, exited = False\<rparr>"

inductive drive_reach :: "drive_env \<Rightarrow> drive \<Rightarrow> drive \<Rightarrow> bool" for D c0 where
  start: "drive_reach D c0 c0"
| step: "drive_reach D c0 c \<Longrightarrow> drive_step D c c' \<Longrightarrow> drive_reach D c0 c'"

subsection \<open>What an event does to the configuration\<close>

fun is_message :: "tl_effect \<Rightarrow> bool" where
  "is_message (AddMessage role content tcs call_id replay) = True"
| "is_message _ = False"

lemma execute_fields [simp]:
  "loop (execute D f c) = loop c" "stop_flag (execute D f c) = stop_flag c" "refused (execute D f c) = refused c"
  "session (execute D f c) = session c @ filter is_message [f]"
  "\<not> is_control f \<Longrightarrow> queue (execute D f c) = queue c"
  "\<not> is_control f \<Longrightarrow> workers (execute D f c) = workers c"
  "\<not> is_control f \<Longrightarrow> exited (execute D f c) = exited c"
  by (cases f; simp add: post_def spawn_def spawn_tool_worker_def execute_ui_def)+

lemma fold_execute_fields [simp]:
  "loop (fold (execute D) fs c) = loop c" "stop_flag (fold (execute D) fs c) = stop_flag c"
  "refused (fold (execute D) fs c) = refused c"
  "session (fold (execute D) fs c) = session c @ filter is_message fs"
  by (induction fs arbitrary: c) simp_all

lemma execute_control_cong:
  assumes "queue c = queue c'" and "workers c = workers c'" and "exited c = exited c'"
  shows "queue (execute D f c) = queue (execute D f c') \<and> workers (execute D f c) = workers (execute D f c')
    \<and> exited (execute D f c) = exited (execute D f c')"
  using assms
  by (cases f) (simp_all add: post_def spawn_def spawn_tool_worker_def execute_ui_def)

lemma fold_execute_control:
  assumes "queue c = queue c'" and "workers c = workers c'" and "exited c = exited c'"
  shows "queue (fold (execute D) fs c) = queue (fold (execute D) (filter is_control fs) c') \<and>
    workers (fold (execute D) fs c) = workers (fold (execute D) (filter is_control fs) c') \<and>
    exited (fold (execute D) fs c) = exited (fold (execute D) (filter is_control fs) c')"
  using assms
proof (induction fs arbitrary: c c')
  case Nil
  then show ?case by simp
next
  case (Cons f fs)
  show ?case
  proof (cases "is_control f")
    case True
    then show ?thesis using Cons.IH execute_control_cong [OF Cons.prems, of D f] by simp
  next
    case False
    then show ?thesis using Cons by simp
  qed
qed

lemma step_loop_fields:
  "loop (step_loop D e c) = state (tl_next_state (loop_env D) (loop c) e)"
  "stop_flag (step_loop D e c) = stop_flag c"
  "refused (step_loop D e c) = refused c"
  "session (step_loop D e c) =
     session c @ filter is_message (effects (tl_next_state (loop_env D) (loop c) e))"
  "queue (step_loop D e c) = queue (execute D (control_of (loop_env D) (loop c) e) c)"
  "workers (step_loop D e c) = workers (execute D (control_of (loop_env D) (loop c) e) c)"
  "exited (step_loop D e c) = exited (execute D (control_of (loop_env D) (loop c) e) c)"
  using fold_execute_control [of "c\<lparr>loop := state (tl_next_state (loop_env D) (loop c) e)\<rparr>" c D
      "effects (tl_next_state (loop_env D) (loop c) e)"]
  by (simp_all add: step_loop_def Let_def event_control)

lemma messages_of_event:
  "filter is_message (effects (tl_next_state E s e)) =
     (case tl_kind e of
        StopRequest \<Rightarrow> [assistant_text (u ''No response.'')]
      | FinalDone \<Rightarrow>
          if truthy (dget (tl_data e) ''content'' PNone)
          then [AddMessage (u ''assistant'') (dget (tl_data e) ''content'' PNone) None PNone
                  (Some (replay_of E (tl_data e)))]
          else []
      | LoopError \<Rightarrow> []
      | StreamDoneKind \<Rightarrow>
          if requested_tools (tl_data e) = []
          then filter is_message (answer_effects E s (as_dict (dget (tl_data e) ''response'' (PDict []))))
          else [AddMessage (u ''assistant'') (dget (as_dict (dget (tl_data e) ''response'' (PDict []))) ''content'' PNone)
                  (Some (requested_tools (tl_data e))) PNone
                  (Some (replay_of E (as_dict (dget (tl_data e) ''response'' (PDict [])))))]
      | NextTool \<Rightarrow> []
      | ToolResult \<Rightarrow>
          [AddMessage (u ''tool'') (dget (tl_data e) ''result'' (PStr [])) None
             (dget (tl_data e) ''call_id'' (PStr [])) None])"
proof -
  have [simp]: "is_message (assistant_text t)" "\<not> is_message (status_ui t)"
    "\<not> is_message (append_ui t)" "\<not> is_message (debug_ui t)" for t
    by (simp_all add: ui_defs)
  show ?thesis
    by (cases "tl_kind e")
      (simp_all add: tl_next_state_def tl_branches Let_def split: list.split prod.split)
qed

subsection \<open>The chat protocol\<close>

text \<open>What a chat API asks of the messages: an assistant message that calls tools is followed by
  one tool message per call, with its id and in order, before the next assistant message. The
  value is the list of ids still to be answered, \<open>None\<close> once the order is broken.\<close>

definition call_id_of :: "pyval \<Rightarrow> pystr" where
  "call_id_of tc = snd (snd (pending_tool_call_fields tc))"

fun api_step :: "tl_effect \<Rightarrow> pystr list option \<Rightarrow> pystr list option" where
  "api_step (AddMessage role content tcs call_id replay) (Some ids) =
     (if role = u ''assistant''
      then if ids \<noteq> [] then None
           else (case tcs of None \<Rightarrow> Some [] | Some xs \<Rightarrow> Some (map call_id_of xs))
      else case ids of
             [] \<Rightarrow> None
           | i # rest \<Rightarrow> if call_id = PStr i then Some rest else None)"
| "api_step _ _ = None"

definition unanswered :: "tl_effect list \<Rightarrow> pystr list option" where
  "unanswered msgs = fold api_step msgs (Some [])"

lemma unanswered_append: "unanswered (xs @ ys) = fold api_step ys (unanswered xs)"
  by (simp add: unanswered_def)

lemma answer_message:
  "fold api_step (filter is_message (answer_effects E s r)) (Some []) = Some []"
  by (simp add: answer_effects_def banner_effects_def ui_defs Let_def)

subsection \<open>One token\<close>

text \<open>Work in progress is a worker or an item that is not mere display. While the loop runs there is
  exactly one, and what it is says which calls are unanswered.\<close>

definition token_items :: "drive \<Rightarrow> sq_item list" where
  "token_items c = filter (\<lambda>x. \<not> display_item x) (queue c)"

definition pending_ids :: "drive \<Rightarrow> pystr list" where
  "pending_ids c = map call_id_of (tl_pending_tools (loop c))"

definition between_calls :: "drive \<Rightarrow> bool" where
  "between_calls c \<longleftrightarrow> \<not> tl_is_stopped (loop c) \<and> tl_pending_tools (loop c) = [] \<and> unanswered (session c) = Some []"

definition asking :: "drive \<Rightarrow> bool" where
  "asking c \<longleftrightarrow> tl_is_stopped (loop c) \<and> stop_flag c \<or> between_calls c"

definition answering :: "pystr list \<Rightarrow> drive \<Rightarrow> bool" where
  "answering ids c \<longleftrightarrow> \<not> tl_is_stopped (loop c) \<and> unanswered (session c) = Some (ids @ pending_ids c)"

fun worker_ok :: "drive \<Rightarrow> loop_worker \<Rightarrow> bool" where
  "worker_ok c (ToolWorker i f a) = answering [i] c"
| "worker_ok c _ = asking c"

fun token_ok :: "drive \<Rightarrow> sq_item \<Rightarrow> bool" where
  "token_ok c (Item TOOL_DONE vs) \<longleftrightarrow> (\<exists>i f a r. vs = [PStr i, PStr f, PStr a, r] \<and> answering [i] c)"
| "token_ok c (Item NEXT_TOOL vs) = answering [] c"
| "token_ok c (Item STREAM_DONE vs) \<longleftrightarrow> (\<exists>r. vs = [PDict r]) \<and> between_calls c"
| "token_ok c (Item FINAL_DONE vs) = between_calls c"
| "token_ok c (Item STOPPED vs) = asking c"
| "token_ok c (Item ERROR vs) = asking c"
| "token_ok c _ = False"

definition hears_speech :: "drive_env \<Rightarrow> bool" where
  "hears_speech D \<longleftrightarrow> (case transcribe D of None \<Rightarrow> True | Some t \<Rightarrow> strip t \<noteq> [])"

definition drive_inv :: "drive_env \<Rightarrow> drive \<Rightarrow> bool" where
  "drive_inv D c \<longleftrightarrow>
     refused c \<or>
     (if exited c then stop_flag c \<or> unanswered (session c) = Some []
      else (\<exists>w. workers c = [w] \<and> token_items c = [] \<and> worker_ok c w)
         \<or> (\<exists>x. workers c = [] \<and> token_items c = [x] \<and> token_ok c x)
         \<or> (\<not> hears_speech D \<and> workers c = [] \<and> token_items c = []))"

lemma token_items_post [simp]:
  "token_items (post x c) = token_items c @ (if display_item x then [] else [x])"
  by (simp add: token_items_def post_def)

lemma post_fields [simp]:
  "loop (post x c) = loop c" "session (post x c) = session c" "workers (post x c) = workers c"
  "stop_flag (post x c) = stop_flag c" "refused (post x c) = refused c" "exited (post x c) = exited c"
  by (simp_all add: post_def)

lemma spawn_fields [simp]:
  "loop (spawn w c) = loop c" "session (spawn w c) = session c" "workers (spawn w c) = workers c @ [w]"
  "stop_flag (spawn w c) = stop_flag c" "refused (spawn w c) = refused c" "exited (spawn w c) = exited c" "queue (spawn w c) = queue c"
  "token_items (spawn w c) = token_items c"
  by (simp_all add: spawn_def token_items_def)

lemma phase_cong:
  assumes "loop c' = loop c" and "session c' = session c" and "stop_flag c \<Longrightarrow> stop_flag c'"
  shows "between_calls c' = between_calls c" and "answering ids c' = answering ids c"
    and "asking c \<Longrightarrow> asking c'"
  using assms by (auto simp: answering_def asking_def between_calls_def pending_ids_def)

lemma worker_ok_cong:
  assumes "loop c' = loop c" and "session c' = session c" and "stop_flag c \<Longrightarrow> stop_flag c'"
    and "worker_ok c w"
  shows "worker_ok c' w"
  using assms(4) phase_cong [OF assms(1-3)] by (cases w) simp_all

lemma token_ok_cong:
  assumes "loop c' = loop c" and "session c' = session c" and "stop_flag c \<Longrightarrow> stop_flag c'"
    and "token_ok c x"
  shows "token_ok c' x"
proof (cases x)
  case (Item k vs)
  then show ?thesis using assms(4) phase_cong [OF assms(1-3)] by (cases k) auto
next
  case (Untagged v)
  then show ?thesis using assms(4) by simp
qed

lemma posts_token:
  assumes "posts (stop_flag c) w x" and "worker_ok c w"
  shows "token_ok c x \<and> \<not> display_item x"
  using assms by cases (auto simp: asking_def between_calls_def)

lemma round_control_step:
  assumes "workers c = []" and "token_items c = []"
  shows "\<exists>w. workers (execute D (round_control s) c) = [w] \<and> token_items (execute D (round_control s) c) = [] \<and>
    (w = FinalWorker \<or> (\<exists>r. w = LLMWorker r)) \<and> exited (execute D (round_control s) c) = exited c"
  using assms by (simp add: round_control_def)

lemma token_items_cong: "queue c = queue c' \<Longrightarrow> token_items c = token_items c'"
  by (simp add: token_items_def)

text \<open>Taking the one token off the queue keeps the invariant.\<close>

lemma take_next_tool:
  assumes "workers c = []" and "token_items c = []" and "\<not> exited c" and "answering [] c"
  shows "drive_inv D (drain_item D (Item NEXT_TOOL vs) c)"
proof -
  let ?e = "\<lparr>tl_kind = NextTool, tl_data = []\<rparr>"
  define c1 where "c1 = sync_stop (Item NEXT_TOOL vs) c"
  let ?c2 = "step_loop D ?e c1"
  have c1: "workers c1 = []" "token_items c1 = []" "\<not> exited c1" "session c1 = session c"
    "stop_flag c1 = stop_flag c" "tl_pending_tools (loop c1) = tl_pending_tools (loop c)"
    "tl_is_stopped (loop c1) = stop_flag c"
    using assms by (simp_all add: c1_def sync_stop_def token_items_def answering_def)
  have d: "drain_item D (Item NEXT_TOOL vs) c = ?c2"
    by (simp add: handle_stream_completion_def c1_def Let_def)
  have msgs: "session ?c2 = session c"
    by (simp add: step_loop_fields messages_of_event c1)
  have st: "tl_is_stopped (loop ?c2) = stop_flag c"
    by (simp add: step_loop_fields next_stopped c1)
  have sf: "stop_flag ?c2 = stop_flag c"
    by (simp add: step_loop_fields c1)
  have un: "unanswered (session c) = Some (pending_ids c)"
    using assms(4) by (simp add: answering_def)
  show ?thesis
  proof (cases "tl_pending_tools (loop c) = [] \<or> stop_flag c")
    case True
    then have ctl: "control_of (loop_env D) (loop c1) ?e = round_control (loop c1)"
      by (auto simp: control_of_def c1)
    obtain w where w: "workers (execute D (round_control (loop c1)) c1) = [w]"
      "token_items (execute D (round_control (loop c1)) c1) = []"
      "w = FinalWorker \<or> (\<exists>r. w = LLMWorker r)" "exited (execute D (round_control (loop c1)) c1) = exited c1"
      using round_control_step [OF c1(1,2)] by blast
    have "tl_pending_tools (loop ?c2) = []" if "\<not> stop_flag c"
      using True that by (simp add: step_loop_fields next_pending c1)
    then have "asking ?c2" using True un
      by (auto simp: asking_def between_calls_def st sf msgs pending_ids_def)
    then have "worker_ok ?c2 w" using w(3) by auto
    moreover have "workers ?c2 = [w]" "token_items ?c2 = []" "\<not> exited ?c2"
      using w c1(3) by (simp_all add: step_loop_fields ctl token_items_def)
    ultimately show ?thesis unfolding d by (simp add: drive_inv_def)
  next
    case False
    then obtain tc rest where p: "tl_pending_tools (loop c) = tc # rest"
      by (cases "tl_pending_tools (loop c)") auto
    obtain f a i where tc: "pending_tool_call_fields tc = (f, a, i)"
      by (cases "pending_tool_call_fields tc") auto
    have ctl: "control_of (loop_env D) (loop c1) ?e = tool_spawn_of (loop_env D) (loop c1) tc"
      using False p by (simp add: control_of_def c1)
    have "pending_ids ?c2 = map call_id_of rest"
      using False p by (simp add: pending_ids_def step_loop_fields next_pending c1)
    then have "answering [i] ?c2"
      using False un p tc by (simp add: answering_def st msgs pending_ids_def call_id_of_def)
    moreover have "\<not> exited ?c2 \<and>
        (workers ?c2 = [ToolWorker i f a] \<and> token_items ?c2 = [] \<or>
         (\<exists>r. workers ?c2 = [] \<and> token_items ?c2 = [Item TOOL_DONE [PStr i, PStr f, PStr a, r]]))"
      using c1(1-3)
      by (simp add: step_loop_fields ctl tool_spawn_of_def tc spawn_tool_worker_def
          token_items_cong [OF step_loop_fields(5)])
    ultimately show ?thesis unfolding d by (auto simp: drive_inv_def)
  qed
qed

text \<open>An event whose control effect exits, or posts the next trigger, after messages that leave the
  given calls unanswered.\<close>

lemma exit_step:
  assumes "control_of (loop_env D) (loop c) e = ExitLoop"
    and "stop_flag c \<or> unanswered (session (step_loop D e c)) = Some []"
  shows "drive_inv D (step_loop D e c)"
  using assms by (auto simp: drive_inv_def step_loop_fields)

lemma trigger_step:
  assumes "control_of (loop_env D) (loop c) e = TriggerNextTool"
    and "workers c = []" and "token_items c = []" and "\<not> exited c"
    and "answering [] (step_loop D e c)"
  shows "drive_inv D (step_loop D e c)"
proof -
  have "workers (step_loop D e c) = []" "\<not> exited (step_loop D e c)"
    "token_items (step_loop D e c) = [Item NEXT_TOOL []]"
    using assms(1-4)
    by (simp_all add: step_loop_fields token_items_cong [OF step_loop_fields(5)])
  with assms(5) show ?thesis by (simp add: drive_inv_def)
qed

lemma take_stream_done:
  assumes "workers c = []" and "token_items c = []" and "\<not> exited c" and "between_calls c"
  shows "drive_inv D (drain_item D (Item STREAM_DONE [PDict r]) c)"
proof -
  let ?e = "\<lparr>tl_kind = StreamDoneKind, tl_data = [(u ''response'', PDict r), (u ''has_audio'', PBool (audio_pending c))]\<rparr>"
  have d: "drain_item D (Item STREAM_DONE [PDict r]) c = step_loop D ?e c"
    by (simp add: handle_stream_completion_def sync_stop_def)
  have un: "unanswered (session c) = Some []" and ns: "\<not> tl_is_stopped (loop c)"
    and p: "tl_pending_tools (loop c) = []"
    using assms(4) by (simp_all add: between_calls_def)
  show ?thesis
  proof (cases "requested_tools (tl_data ?e) = []")
    case True
    then have "unanswered (session (step_loop D ?e c)) = Some []"
      by (simp add: step_loop_fields messages_of_event unanswered_append un answer_message)
    then show ?thesis unfolding d
      by (intro exit_step) (use True in \<open>simp_all add: control_of_def\<close>)
  next
    case False
    have "answering [] (step_loop D ?e c)"
      using False ns p
      by (simp add: answering_def step_loop_fields next_stopped messages_of_event unanswered_append
          un pending_ids_def next_pending)
    then show ?thesis unfolding d
      by (intro trigger_step) (use False assms in \<open>simp_all add: control_of_def\<close>)
  qed
qed

lemma take_tool_done:
  assumes "workers c = []" and "token_items c = []" and "\<not> exited c" and "answering [i] c"
  shows "drive_inv D (drain_item D (Item TOOL_DONE [PStr i, PStr f, PStr a, r]) c)"
proof -
  obtain e where e: "event_of_item D (audio_pending c) (Item TOOL_DONE [PStr i, PStr f, PStr a, r]) = Some e"
    and k: "tl_kind e = ToolResult" "dget (tl_data e) ''call_id'' (PStr []) = PStr i"
    by (simp add: dget_def)
  have d: "drain_item D (Item TOOL_DONE [PStr i, PStr f, PStr a, r]) c = step_loop D e c"
    using e by (simp add: handle_stream_completion_def sync_stop_def)
  have "answering [] (step_loop D e c)"
    using assms(4) k
    by (simp add: answering_def step_loop_fields next_stopped messages_of_event unanswered_append
        pending_ids_def next_pending)
  then show ?thesis unfolding d
    by (intro trigger_step) (use k assms in \<open>simp_all add: control_of_def\<close>)
qed

lemma take_final_done:
  assumes "between_calls c"
  shows "drive_inv D (drain_item D (Item FINAL_DONE vs) c)"
proof -
  let ?e = "\<lparr>tl_kind = FinalDone, tl_data = [(u ''content'', nth_arg vs 0)]\<rparr>"
  have d: "drain_item D (Item FINAL_DONE vs) c = step_loop D ?e c"
    by (simp add: handle_stream_completion_def sync_stop_def)
  have "unanswered (session (step_loop D ?e c)) = Some []"
    using assms by (simp add: between_calls_def step_loop_fields messages_of_event unanswered_append)
  then show ?thesis unfolding d by (intro exit_step) (simp_all add: control_of_def)
qed

lemma take_stopped:
  assumes "asking c"
  shows "drive_inv D (drain_item D (Item STOPPED vs) c)"
proof -
  let ?c = "handle_stream_stopped D c"
  have "stop_flag ?c = stop_flag c"
    by (simp add: handle_stream_stopped_def step_loop_fields)
  moreover have "unanswered (session ?c) = Some []" if "between_calls c"
    using that by (simp add: handle_stream_stopped_def step_loop_fields messages_of_event
        unanswered_append between_calls_def assistant_text_def)
  ultimately show ?thesis using assms by (auto simp: drive_inv_def asking_def)
qed

lemma take_error:
  assumes "workers c = []" and "token_items c = []" and "\<not> exited c" and "asking c"
  shows "drive_inv D (drain_item D (Item ERROR vs) c)"
proof -
  have cong: "asking (c\<lparr>audio_pending := x\<rparr>)" "asking (spawn w (c\<lparr>audio_pending := x\<rparr>))" for x w
    using phase_cong(3) [OF _ _ _ assms(4)] by simp_all
  have "stop_flag c \<or> unanswered (session c) = Some []"
    using assms(4) by (auto simp: asking_def between_calls_def)
  then show ?thesis
    using assms cong
    by (auto simp: handle_stream_error_def drive_inv_def hears_speech_def token_items_def Let_def
        split: option.split)
qed

lemma take_token:
  assumes "workers c = []" and "token_items c = []" and "\<not> exited c" and "token_ok c x"
  shows "drive_inv D (drain_item D x c)"
proof (cases x)
  case (Item k vs)
  then show ?thesis
    using assms take_stream_done take_tool_done take_next_tool take_final_done take_stopped take_error
    by (cases k) (auto simp del: drain_item.simps)
next
  case (Untagged v)
  then show ?thesis using assms(4) by simp
qed

lemma drain_display: "display_item x \<Longrightarrow> drain_item D x c = c"
  by (cases x) (auto split: sq_kind.split)

lemma drain_refused: "refused (drain_item D x c) = refused c"
proof (cases x)
  case (Item k vs)
  have "refused (handle_stream_completion D x c) = refused c"
    by (simp add: handle_stream_completion_def sync_stop_def step_loop_fields Let_def split: option.split)
  moreover have "refused (snd (handle_stream_error D e c)) = refused c" for e
    by (simp add: handle_stream_error_def Let_def split: option.split)
  ultimately show ?thesis
    by (cases k) (auto simp: Item handle_stream_stopped_def step_loop_fields split: prod.split bool.split, (metis snd_conv)+)
next
  case (Untagged v)
  then show ?thesis by (simp add: handle_stream_error_def Let_def split: option.split)
qed

lemma refused_stays: "drive_step D c c' \<Longrightarrow> refused c \<Longrightarrow> refused c'"
  by (induction rule: drive_step.induct) (simp_all add: drain_refused handle_stream_stopped_def step_loop_fields)

lemma drive_step_steady:
  assumes "drive_step D c c'" and "\<not> refused c" and "drive_inv D c"
  shows "drive_inv D c'"
  using assms
proof cases
  case (worker_ends ws w ws' item)
  show ?thesis
  proof (cases "exited c")
    case True
    then show ?thesis using assms(2,3) worker_ends by (simp add: drive_inv_def)
  next
    case False
    then have w: "workers c = [w]" "token_items c = []" "worker_ok c w" "ws = []" "ws' = []"
      using assms(2,3) worker_ends by (auto simp: drive_inv_def append_eq_Cons_conv Cons_eq_append_conv)
    note t = posts_token [OF worker_ends(3) w(3)]
    have "token_ok c' item"
      by (rule token_ok_cong [of _ c]) (use t worker_ends in simp_all)
    moreover have "token_items c' = [item]" "workers c' = []" "\<not> exited c'"
      using w t worker_ends False by (simp_all add: token_items_def post_def)
    ultimately show ?thesis by (simp add: drive_inv_def)
  qed
next
  case (worker_shows item)
  then have "worker_ok c w \<Longrightarrow> worker_ok c' w" for w
    using worker_ok_cong [of c' c] by simp
  then show ?thesis using assms(2,3) worker_shows by (auto simp: drive_inv_def)
next
  case worker_refused
  then show ?thesis by (simp add: drive_inv_def)
next
  case user_stops
  have "worker_ok c w \<Longrightarrow> worker_ok c' w" "token_ok c x \<Longrightarrow> token_ok c' x" for w x
    using worker_ok_cong [of c' c] token_ok_cong [of c' c] user_stops by simp_all
  then show ?thesis using assms(2,3) user_stops by (auto simp: drive_inv_def token_items_def)
next
  case drain_stops
  then show ?thesis by (simp add: drive_inv_def handle_stream_stopped_def step_loop_fields)
next
  case (drain_takes item q)
  let ?c = "c\<lparr>queue := q\<rparr>"
  show ?thesis
  proof (cases "display_item item")
    case True
    then have "token_items ?c = token_items c" using drain_takes by (simp add: token_items_def)
    moreover have "worker_ok c w \<Longrightarrow> worker_ok ?c w" "token_ok c x \<Longrightarrow> token_ok ?c x" for w x
      using worker_ok_cong [of ?c c] token_ok_cong [of ?c c] by simp_all
    ultimately show ?thesis using assms(2,3) drain_takes True
      by (auto simp: drive_inv_def drain_display)
  next
    case False
    then have "token_items c = item # token_items ?c" using drain_takes by (simp add: token_items_def)
    then have t: "workers c = []" "token_items ?c = []" "token_ok c item"
      using assms(2,3) drain_takes by (auto simp: drive_inv_def)
    have "token_ok ?c item" by (rule token_ok_cong [OF _ _ _ t(3)]) simp_all
    then show ?thesis using take_token [of ?c item D] t drain_takes by simp
  qed
qed

lemma drive_step_inv: "drive_step D c c' \<Longrightarrow> drive_inv D c \<Longrightarrow> drive_inv D c'"
  using refused_stays drive_step_steady by (cases "refused c") (auto simp: drive_inv_def)

lemma drive_reach_inv:
  assumes "drive_reach D c0 c" and "drive_inv D c0"
  shows "drive_inv D c"
  using assms by (induction rule: drive_reach.induct) (auto intro: drive_step_inv)

lemma drive_start_inv:
  assumes "\<not> tl_is_stopped s" and "tl_pending_tools s = []"
  shows "drive_inv D (drive_start s audio)"
  using assms
  by (simp add: drive_inv_def drive_start_def token_items_def asking_def between_calls_def
      unanswered_def)

inductive_cases drive_stepE: "drive_step D c c'"

subsection \<open>Properties\<close>

text \<open>However the workers, the drain and the user's Stop interleave, a running loop has exactly
  one piece of work in progress: one worker and no result waiting, or no worker and one result or
  trigger on the queue. So no two tools and no two model requests of a chat run at once, and the
  loop never waits for nothing; this needs that a recording the model rejects is transcribed to
  some text and that the user has not refused a web search.\<close>

theorem drive_one_token:
  assumes "drive_reach D (drive_start s audio) c"
    and "\<not> tl_is_stopped s" and "tl_pending_tools s = []"
    and "case transcribe D of None \<Rightarrow> True | Some t \<Rightarrow> strip t \<noteq> []"
    and "\<not> exited c" and "\<not> refused c"
  shows "length (workers c) + length (filter (\<lambda>x. \<not> display_item x) (queue c)) = 1"
proof -
  have "drive_inv D c"
    using drive_reach_inv [OF assms(1)] drive_start_inv assms(2,3) by blast
  with assms(4-6) show ?thesis
    by (auto simp: drive_inv_def token_items_def hears_speech_def)
qed

definition quiet_env :: "pystr option \<Rightarrow> drive_env" where
  "quiet_env speech = \<lparr>loop_env = plain_env, run_tool = \<lambda>f args. PStr (u ''{}''),
     detects_mutation = \<lambda>f. False, audio_rejected = \<lambda>e. True, has_stt = True, transcribe = speech\<rparr>"

theorem drive_one_token_witness:
  "let c = drive_start (fresh_loop 5) False
   in length (workers c) + length (filter (\<lambda>x. \<not> display_item x) (queue c)) = 1"
  unfolding Let_def
  by (rule drive_one_token [where D = "quiet_env None" and s = "fresh_loop 5" and audio = False])
    (simp_all add: drive_reach.start quiet_env_def fresh_loop_def drive_start_def)

text \<open>C2: The conversation stays well-formed for the model: in a running loop that the user
  has neither stopped nor refused a web search, the messages added so far answer every tool call of an assistant message in order, up
  to the calls still in progress or pending, and when the loop ends so every call has been
  answered; a recording the model rejects must be transcribed to some text.\<close>

theorem drive_conversation_well_formed:
  assumes "drive_reach D (drive_start s audio) c"
    and "\<not> tl_is_stopped s" and "tl_pending_tools s = []" and "hears_speech D"
    and "\<not> stop_flag c" and "\<not> refused c"
  shows "if exited c then unanswered (session c) = Some []
    else \<exists>in_progress. unanswered (session c) =
           Some (in_progress @ map call_id_of (tl_pending_tools (loop c))) \<and> length in_progress \<le> 1"
proof -
  have "drive_inv D c"
    using drive_reach_inv [OF assms(1)] drive_start_inv assms(2,3) by blast
  moreover have "\<exists>ids. unanswered (session c) = Some (ids @ pending_ids c) \<and> length ids \<le> 1"
    if "worker_ok c w" for w
    using that assms(5)
    by (cases w) (auto simp: asking_def between_calls_def answering_def pending_ids_def)
  moreover have "\<exists>ids. unanswered (session c) = Some (ids @ pending_ids c) \<and> length ids \<le> 1"
    if "token_ok c x" for x
  proof (cases x)
    case (Item k vs)
    have "answering ids c \<Longrightarrow> length ids \<le> 1 \<Longrightarrow> ?thesis" "asking c \<Longrightarrow> ?thesis"
      "between_calls c \<Longrightarrow> ?thesis" for ids
      using assms(5) by (auto simp: asking_def between_calls_def answering_def pending_ids_def)
    then show ?thesis using that Item by (cases k) fastforce+
  next
    case (Untagged v)
    then show ?thesis using that by simp
  qed
  ultimately show ?thesis using assms(4-6)
    unfolding drive_inv_def pending_ids_def by (auto split: if_splits)
qed

theorem drive_conversation_well_formed_witness:
  "unanswered (session (drive_start (fresh_loop 5) False)) = Some []"
proof -
  have "if exited (drive_start (fresh_loop 5) False)
    then unanswered (session (drive_start (fresh_loop 5) False)) = Some []
    else \<exists>ids. unanswered (session (drive_start (fresh_loop 5) False)) =
      Some (ids @ map call_id_of (tl_pending_tools (loop (drive_start (fresh_loop 5) False)))) \<and> length ids \<le> 1"
    by (rule drive_conversation_well_formed [where D = "quiet_env None" and s = "fresh_loop 5" and audio = False])
      (simp_all add: drive_reach.start quiet_env_def fresh_loop_def drive_start_def hears_speech_def)
  then show ?thesis by (simp add: drive_start_def unanswered_def)
qed

text \<open>The recording fallback can leave the drain waiting for nothing: when the model rejects the
  audio and the speech model hears no words, the error handler reports recovery although no worker
  was started, so the loop is not left, nothing is running, the queue is empty, and only the
  user's Stop can still happen.\<close>

theorem drive_blank_speech_hangs:
  assumes "audio_rejected D e" and "has_stt D" and "transcribe D = Some t" and "strip t = []"
  shows "\<exists>c. drive_reach D (drive_start s True) c \<and> \<not> exited c \<and> workers c = [] \<and> queue c = []
    \<and> \<not> stop_flag c \<and> (\<forall>c'. drive_step D c c' \<longrightarrow> c' = c\<lparr>stop_flag := True\<rparr>)"
proof -
  let ?c0 = "drive_start s True"
  let ?c1 = "post (Item ERROR [e]) (?c0\<lparr>workers := [] @ []\<rparr>)"
  let ?c2 = "drain_item D (Item ERROR [e]) (?c1\<lparr>queue := []\<rparr>)"
  have "drive_step D ?c0 ?c1"
    by (rule worker_ends [where w = "LLMWorker (tl_round_num s)"])
      (simp_all add: drive_start_def llm_error)
  moreover have "drive_step D ?c1 ?c2"
    by (rule drain_takes) (simp_all add: drive_start_def post_def)
  ultimately have "drive_reach D ?c0 ?c2"
    by (meson drive_reach.intros)
  moreover have c2: "\<not> exited ?c2" "workers ?c2 = []" "queue ?c2 = []" "\<not> stop_flag ?c2"
    using assms by (simp_all add: handle_stream_error_def drive_start_def post_def Let_def)
  moreover have "c' = ?c2\<lparr>stop_flag := True\<rparr>" if "drive_step D ?c2 c'" for c'
    using that c2 by (auto elim!: drive_stepE simp del: drain_item.simps)
  ultimately show ?thesis by blast
qed

theorem drive_blank_speech_hangs_witness:
  "\<exists>c. drive_reach (quiet_env (Some [32])) (drive_start (fresh_loop 5) True) c \<and> \<not> exited c \<and> workers c = []
    \<and> queue c = []"
proof -
  have "strip [32] = []" by code_simp
  then show ?thesis
    using drive_blank_speech_hangs [of "quiet_env (Some [32])" PNone "[32]" "fresh_loop 5"]
    by (auto simp: quiet_env_def)
qed

text \<open>A stop between a model response that calls tools and their results leaves the conversation
  broken: the assistant message with its calls is followed by the assistant message of the stop,
  and the calls are never answered.\<close>

theorem drive_stop_leaves_calls_unanswered:
  assumes "requested_tools [(u ''response'', PDict r)] \<noteq> []"
  shows "\<exists>c. drive_reach D (drive_start s audio) c \<and> exited c \<and> terminal c = u ''Stopped'' \<and>
    workers c = [] \<and> unanswered (session c) = None"
proof -
  let ?c0 = "drive_start s audio"
  let ?c1 = "post (Item STREAM_DONE [PDict r]) (?c0\<lparr>workers := [] @ []\<rparr>)"
  let ?c2 = "drain_item D (Item STREAM_DONE [PDict r]) (?c1\<lparr>queue := []\<rparr>)"
  let ?c3 = "?c2\<lparr>stop_flag := True\<rparr>"
  let ?c4 = "(handle_stream_stopped D ?c3)\<lparr>exited := True\<rparr>"
  have s1: "drive_step D ?c0 ?c1"
    by (rule worker_ends [where w = "LLMWorker (tl_round_num s)"])
      (simp_all add: drive_start_def llm_done)
  have s2: "drive_step D ?c1 ?c2"
    by (rule drain_takes) (simp_all add: drive_start_def post_def)
  have s3: "drive_step D ?c2 ?c3" by (rule user_stops)
  let ?e = "\<lparr>tl_kind = StreamDoneKind, tl_data = [(u ''response'', PDict r), (u ''has_audio'', PBool audio)]\<rparr>"
  have req: "requested_tools (tl_data ?e) \<noteq> []"
    using assms by (simp add: requested_tools_def dget_def)
  have c2: "?c2 = step_loop D ?e (?c1\<lparr>queue := []\<rparr>)"
    by (simp add: handle_stream_completion_def sync_stop_def drive_start_def post_def)
  have ctl: "control_of (loop_env D) s ?e = TriggerNextTool"
    using req by (simp add: control_of_def)
  have f2: "\<not> exited ?c2" "workers ?c2 = []"
    unfolding c2 by (simp_all add: step_loop_fields ctl drive_start_def post_def)
  have un2: "unanswered (session ?c2) = Some (map call_id_of (requested_tools (tl_data ?e)))"
    unfolding c2 using req
    by (simp add: step_loop_fields messages_of_event unanswered_def drive_start_def post_def)
  have s4: "drive_step D ?c3 ?c4" by (rule drain_stops) (use f2 in simp_all)
  have "drive_reach D ?c0 ?c4"
    by (rule step [OF step [OF step [OF step [OF start s1] s2] s3] s4])
  moreover have "unanswered (session ?c4) = None"
    using un2 req
    by (simp add: handle_stream_stopped_def step_loop_fields messages_of_event unanswered_append
        assistant_text_def)
  moreover have "workers ?c4 = []"
    using f2 by (simp add: handle_stream_stopped_def step_loop_fields control_of_def)
  moreover have "terminal ?c4 = u ''Stopped''"
    by (simp add: handle_stream_stopped_def step_loop_def tl_next_state_def on_stop_request_def
        ui_defs execute_ui_def Let_def)
  ultimately show ?thesis by (intro exI [of _ ?c4]) simp
qed

theorem drive_stop_leaves_calls_unanswered_witness:
  "\<exists>c. drive_reach (quiet_env None) (drive_start (fresh_loop 5) False) c \<and> exited c \<and> unanswered (session c) = None"
  using drive_stop_leaves_calls_unanswered
    [of "[(u ''tool_calls'', PList [PNone])]" "quiet_env None" "fresh_loop 5" False]
  by (auto simp: requested_tools_def dget_def)

text \<open>So does a refused web search: the tool that asked goes on, but the loop ends with the message of the stop, and
  the call is never answered.\<close>

theorem drive_refusal_leaves_call_unanswered:
  assumes "drive_reach D (drive_start s audio) c" and "\<not> tl_is_stopped s" and "tl_pending_tools s = []"
    and "\<not> exited c" "\<not> refused c" "workers c = [ToolWorker i f a]" "queue c = []"
  shows "\<exists>c'. drive_reach D (drive_start s audio) c' \<and> exited c' \<and> workers c' = [ToolWorker i f a]
    \<and> unanswered (session c') = None"
proof -
  let ?c1 = "post (Item STOPPED []) (c\<lparr>refused := True\<rparr>)"
  let ?c2 = "drain_item D (Item STOPPED []) (?c1\<lparr>queue := []\<rparr>)"
  have "drive_step D c ?c1" by (rule worker_refused [of _ "[]" i f a "[]"]) (simp add: assms)
  moreover have "drive_step D ?c1 ?c2"
    by (rule drain_takes) (use assms in \<open>simp_all add: post_def\<close>)
  ultimately have "drive_reach D (drive_start s audio) ?c2" using assms(1) by (meson drive_reach.step)
  moreover have "drive_inv D c" using drive_reach_inv [OF assms(1)] drive_start_inv assms(2,3) by blast
  then have "unanswered (session c) = Some (i # pending_ids c)"
    using assms(4-6) by (auto simp: drive_inv_def answering_def)
  then have "unanswered (session ?c2) = None"
    by (simp add: handle_stream_stopped_def step_loop_fields messages_of_event unanswered_append assistant_text_def post_def)
  moreover have "workers ?c2 = [ToolWorker i f a]"
    using assms(6) by (simp add: handle_stream_stopped_def step_loop_fields control_of_def post_def)
  ultimately show ?thesis by (intro exI [of _ ?c2]) simp
qed

end
