(* ===== verification/GrammarQueue.thy ===== *)
theory GrammarQueue
  imports Prelude PyStr "HOL-Library.Multiset"
begin

text \<open>
  The grammar work queue (\<open>plugin/writer/locale/grammar_work_queue.py\<close>): every edit enqueues a
  snapshot of a sentence under an in-flight key; several drain threads share the queue, each
  collects a batch keeping the newest snapshot of a key, drops what has been superseded since,
  and hands the rest to the model in groups. The threads are interleaved by a sequence of steps;
  \<open>gq_enqueued\<close> and \<open>gq_sent\<close> record what was enqueued and what was handed to the model.
  Logging, the status line's texts and the thread start are not modelled; the document context of
  an item is left out.
\<close>

subsection \<open>Work items and the pure helpers\<close>

record grammar_item =
  gi_text :: pystr
  gi_bcp47 :: pystr
  gi_partial :: bool
  gi_doc_id :: pystr
  inflight_key :: pystr
  enqueue_seq :: int
  gi_original :: pystr
  gi_provider :: pystr

type_synonym by_key = "(pystr \<times> grammar_item) list"

definition should_replace_for_key :: "grammar_item option \<Rightarrow> grammar_item \<Rightarrow> bool" where
  "should_replace_for_key existing incoming =
     (case existing of None \<Rightarrow> True | Some x \<Rightarrow> enqueue_seq incoming > enqueue_seq x)"

definition collapse :: "grammar_item \<Rightarrow> by_key \<Rightarrow> by_key" where
  "collapse x acc =
     (if should_replace_for_key (map_of acc (inflight_key x)) x
      then AList.update (inflight_key x) x acc else acc)"

definition deduplicate_grammar_batch :: "grammar_item list \<Rightarrow> grammar_item list" where
  "deduplicate_grammar_batch batch = map snd (fold collapse batch [])"

definition record_enqueue_latest ::
  "(pystr \<times> int) list \<Rightarrow> grammar_item \<Rightarrow> (pystr \<times> int) list \<times> bool \<times> int option" where
  "record_enqueue_latest prev x =
     (let prev_seq = map_of prev (inflight_key x);
          out_of_order = (case prev_seq of None \<Rightarrow> False | Some p \<Rightarrow> enqueue_seq x < p)
      in (AList.update (inflight_key x) (enqueue_seq x) prev, out_of_order,
          if out_of_order then prev_seq else None))"

definition inflight_superseded :: "(pystr \<times> int) list \<Rightarrow> pystr \<Rightarrow> int \<Rightarrow> bool" where
  "inflight_superseded latest_seq key seq =
     (case map_of latest_seq key of None \<Rightarrow> False | Some l \<Rightarrow> seq < l)"

definition add_to_group ::
  "grammar_item \<Rightarrow> ((pystr \<times> pystr) \<times> grammar_item list) list \<Rightarrow> ((pystr \<times> pystr) \<times> grammar_item list) list" where
  "add_to_group x gs =
     (let k = (gi_doc_id x, gi_bcp47 x);
          old = (case map_of gs k of None \<Rightarrow> [] | Some l \<Rightarrow> l)
      in AList.update k (old @ [x]) gs)"

definition filter_stale_and_group ::
  "grammar_item list \<Rightarrow> (grammar_item \<Rightarrow> bool) \<Rightarrow> ((pystr \<times> pystr) \<times> grammar_item list) list" where
  "filter_stale_and_group items is_stale =
     fold (\<lambda>x gs. if is_stale x then gs else add_to_group x gs) items []"

subsection \<open>The queue and its drain threads\<close>

text \<open>A drain thread waits for a first item, collects more until a pause, then executes its groups
  one by one. \<open>None\<close> in the queue is the poison pill, which ends the thread.\<close>

datatype drain_thread =
    Waiting
  | Collecting by_key
  | Executing "grammar_item list list"
  | Ended

record grammar_queue =
  gq_queue :: "grammar_item option list"
  gq_latest :: "(pystr \<times> int) list"
  gq_threads :: "drain_thread list"
  gq_enqueued :: "grammar_item list"
  gq_sent :: "grammar_item list"

datatype gq_event =
    Enqueue grammar_item
  | Poison
  | Get nat  \<comment> \<open>the thread dequeues\<close>
  | Pause nat  \<comment> \<open>its timed get finds the queue empty\<close>
  | RunGroup nat

definition enqueue :: "grammar_item \<Rightarrow> grammar_queue \<Rightarrow> grammar_queue" where
  "enqueue x q =
     q\<lparr>gq_latest := fst (record_enqueue_latest (gq_latest q) x),
       gq_queue := gq_queue q @ [Some x],
       gq_enqueued := gq_enqueued q @ [x]\<rparr>"

definition is_stale :: "grammar_queue \<Rightarrow> grammar_item \<Rightarrow> bool" where
  "is_stale q x = inflight_superseded (gq_latest q) (inflight_key x) (enqueue_seq x)"

definition set_thread :: "nat \<Rightarrow> drain_thread \<Rightarrow> grammar_queue \<Rightarrow> grammar_queue" where
  "set_thread i t q = q\<lparr>gq_threads := (gq_threads q)[i := t]\<rparr>"

fun thread_get :: "nat \<Rightarrow> drain_thread \<Rightarrow> grammar_item option \<Rightarrow> grammar_queue \<Rightarrow> grammar_queue" where
  "thread_get i Waiting (Some x) q = set_thread i (Collecting [(inflight_key x, x)]) q"
| "thread_get i (Collecting acc) (Some x) q = set_thread i (Collecting (collapse x acc)) q"
| "thread_get i t None q = set_thread i Ended q"
| "thread_get i t (Some x) q = q"

fun takes_items :: "drain_thread \<Rightarrow> bool" where
  "takes_items Waiting = True"
| "takes_items (Collecting acc) = True"
| "takes_items _ = False"

definition drain_get :: "nat \<Rightarrow> grammar_queue \<Rightarrow> grammar_queue" where
  "drain_get i q =
     (case gq_queue q of
        [] \<Rightarrow> q
      | x # rest \<Rightarrow>
          if i < length (gq_threads q) \<and> takes_items (gq_threads q ! i)
          then thread_get i (gq_threads q ! i) x (q\<lparr>gq_queue := rest\<rparr>) else q)"

definition drain_pause :: "nat \<Rightarrow> grammar_queue \<Rightarrow> grammar_queue" where
  "drain_pause i q =
     (if i < length (gq_threads q)
      then case gq_threads q ! i of
             Collecting acc \<Rightarrow>
               set_thread i (Executing (map snd (filter_stale_and_group (map snd acc) (is_stale q)))) q
           | _ \<Rightarrow> q
      else q)"

definition run_group :: "nat \<Rightarrow> grammar_queue \<Rightarrow> grammar_queue" where
  "run_group i q =
     (if i < length (gq_threads q)
      then case gq_threads q ! i of
             Executing [] \<Rightarrow> set_thread i Waiting q
           | Executing (g # gs) \<Rightarrow> set_thread i (Executing gs) (q\<lparr>gq_sent := gq_sent q @ g\<rparr>)
           | _ \<Rightarrow> q
      else q)"

fun gq_step :: "gq_event \<Rightarrow> grammar_queue \<Rightarrow> grammar_queue" where
  "gq_step (Enqueue x) q = enqueue x q"
| "gq_step Poison q = q\<lparr>gq_queue := gq_queue q @ [None]\<rparr>"
| "gq_step (Get i) q = drain_get i q"
| "gq_step (Pause i) q = drain_pause i q"
| "gq_step (RunGroup i) q = run_group i q"

definition gq_start :: "nat \<Rightarrow> grammar_queue" where
  "gq_start n = \<lparr>gq_queue = [], gq_latest = [], gq_threads = replicate n Waiting, gq_enqueued = [],
     gq_sent = []\<rparr>"

definition gq_run :: "nat \<Rightarrow> gq_event list \<Rightarrow> grammar_queue" where
  "gq_run n es = fold gq_step es (gq_start n)"

subsection \<open>The status line\<close>

text \<open>\<open>begin_status_cycle\<close>, \<open>record_done_status\<close> and \<open>end_status_cycle\<close>: the last value is the
  status emitted, if any.\<close>

record 'd status_cycle =
  status_inflight :: int
  pending_done :: "'d option"

definition begin_status_cycle :: "'d status_cycle \<Rightarrow> 'd status_cycle" where
  "begin_status_cycle c = c\<lparr>status_inflight := status_inflight c + 1\<rparr>"

definition record_done_status :: "'d \<Rightarrow> 'd status_cycle \<Rightarrow> 'd status_cycle" where
  "record_done_status d c = c\<lparr>pending_done := Some d\<rparr>"

definition end_status_cycle :: "'d status_cycle \<Rightarrow> 'd option \<times> 'd status_cycle" where
  "end_status_cycle c =
     (let c1 = c\<lparr>status_inflight := max 0 (status_inflight c - 1)\<rparr>
      in if status_inflight c1 = 0 then (pending_done c1, c1\<lparr>pending_done := None\<rparr>)
         else (None, c1))"

subsection \<open>The accumulator\<close>

definition keyed :: "by_key \<Rightarrow> bool" where
  "keyed acc \<longleftrightarrow> distinct (map fst acc) \<and> (\<forall>(k, x) \<in> set acc. inflight_key x = k)"

lemma keyed_Nil [simp]: "keyed []"
  by (simp add: keyed_def)

lemma keyed_single [simp]: "keyed [(inflight_key x, x)]"
  by (simp add: keyed_def)

lemma keyed_map_of: "keyed acc \<Longrightarrow> map_of acc k = Some x \<Longrightarrow> inflight_key x = k"
  by (auto simp: keyed_def dest: map_of_SomeD)

lemma keyed_keys: "keyed acc \<Longrightarrow> map fst acc = map (\<lambda>p. inflight_key (snd p)) acc"
  by (auto simp: keyed_def)

lemma keyed_update: "keyed acc \<Longrightarrow> keyed (AList.update (inflight_key x) x acc)"
proof -
  assume k: "keyed acc"
  let ?u = "AList.update (inflight_key x) x acc"
  have d: "distinct (map fst ?u)" using k by (simp add: keyed_def distinct_update)
  have "inflight_key y = j" if "(j, y) \<in> set ?u" for j y
  proof -
    have "map_of ?u j = Some y" using map_of_mem [OF d] that by blast
    then show ?thesis using keyed_map_of [OF k] by (auto simp: map_of_update split: if_splits)
  qed
  with d show ?thesis by (auto simp: keyed_def)
qed

lemma keyed_collapse: "keyed acc \<Longrightarrow> keyed (collapse x acc)"
  by (simp add: collapse_def keyed_update)

lemma map_of_collapse:
  "map_of (collapse x acc) k =
     (if k = inflight_key x \<and> should_replace_for_key (map_of acc k) x then Some x else map_of acc k)"
  by (auto simp: collapse_def map_of_update)

lemma mset_update:
  "mset (map snd (AList.update k v acc)) \<subseteq># add_mset v (mset (map snd acc))"
  by (induction acc) (auto simp: subset_mset.add_increasing2 intro: subset_mset.order_trans)

lemma mset_collapse: "mset (map snd (collapse x acc)) \<subseteq># add_mset x (mset (map snd acc))"
  using mset_update [of "inflight_key x" x acc] by (auto simp: collapse_def)

text \<open>Whatever the accumulator drops, it keeps an item of the same key that is at least as new.\<close>

lemma collapse_keeps:
  assumes "keyed acc" and "y = x \<or> y \<in> snd ` set acc"
  shows "\<exists>z \<in> snd ` set (collapse x acc). inflight_key z = inflight_key y \<and> enqueue_seq y \<le> enqueue_seq z"
proof -
  have in_set: "z \<in> snd ` set (collapse x acc)" if "map_of (collapse x acc) k = Some z" for z k
    using map_of_SomeD [OF that] by force
  consider "y = x" | "y \<in> snd ` set acc" "y \<noteq> x" using assms(2) by blast
  then show ?thesis
  proof cases
    case 1
    show ?thesis
    proof (cases "should_replace_for_key (map_of acc (inflight_key x)) x")
      case True
      then show ?thesis using 1 in_set [of "inflight_key x" x] by (auto simp: map_of_collapse)
    next
      case False
      then obtain z where z: "map_of acc (inflight_key x) = Some z" "enqueue_seq x \<le> enqueue_seq z"
        by (auto simp: should_replace_for_key_def split: option.splits)
      then have "z \<in> snd ` set (collapse x acc)"
        using in_set [of "inflight_key x" z] False by (simp add: map_of_collapse)
      then show ?thesis using 1 z keyed_map_of [OF assms(1) z(1)] by auto
    qed
  next
    case 2
    then obtain k where "(k, y) \<in> set acc" by auto
    then have y: "map_of acc k = Some y" "inflight_key y = k"
      using assms(1) by (auto simp: keyed_def)
    show ?thesis
    proof (cases "k = inflight_key x \<and> should_replace_for_key (map_of acc k) x")
      case True
      then have "enqueue_seq y \<le> enqueue_seq x" using y by (simp add: should_replace_for_key_def)
      then show ?thesis using True y in_set [of k x] by (auto simp: map_of_collapse)
    next
      case False
      then have "map_of (collapse x acc) k = Some y" using y by (auto simp: map_of_collapse)
      from in_set [OF this] show ?thesis by auto
    qed
  qed
qed

lemma fold_collapse:
  assumes "keyed acc"
  shows "keyed (fold collapse batch acc)"
    and "mset (map snd (fold collapse batch acc)) \<subseteq># mset batch + mset (map snd acc)"
    and "y \<in> set batch \<or> y \<in> snd ` set acc \<Longrightarrow>
      \<exists>z \<in> snd ` set (fold collapse batch acc). inflight_key z = inflight_key y \<and> enqueue_seq y \<le> enqueue_seq z"
  using assms
proof (induction batch arbitrary: acc y)
  case Nil
  case 1 show ?case using 1 by simp
  case 2 show ?case by simp
  case 3 then show ?case by auto
next
  case (Cons x batch)
  case 1
  show ?case using Cons.IH(1) [OF keyed_collapse [OF 1]] by simp
  case 2
  have "mset (map snd (fold collapse batch (collapse x acc))) \<subseteq># mset batch + mset (map snd (collapse x acc))"
    by (rule Cons.IH(2) [OF keyed_collapse [OF 2]])
  also have "\<dots> \<subseteq># mset batch + add_mset x (mset (map snd acc))"
    using mset_collapse by (simp add: subset_mset.add_left_mono)
  finally show ?case by simp
  case 3
  show ?case
  proof (cases "y \<in> set batch")
    case True
    then show ?thesis using Cons.IH(3) [OF _ keyed_collapse [OF 3(2)], of y] by simp
  next
    case False
    then obtain z where z: "z \<in> snd ` set (collapse x acc)" "inflight_key z = inflight_key y"
      "enqueue_seq y \<le> enqueue_seq z"
      using collapse_keeps [of acc y x] 3 by auto
    then obtain w where "w \<in> snd ` set (fold collapse batch (collapse x acc))"
      "inflight_key w = inflight_key z" "enqueue_seq z \<le> enqueue_seq w"
      using Cons.IH(3) [OF disjI2 [OF z(1)] keyed_collapse [OF 3(2)]] by blast
    then show ?thesis using z by force
  qed
qed

subsection \<open>Grouping\<close>

lemma concat_add_to_group:
  "mset (concat (map snd (add_to_group x gs))) = add_mset x (mset (concat (map snd gs)))"
proof -
  have "mset (concat (map snd (AList.update k (old @ [x]) gs))) = add_mset x (mset (concat (map snd gs)))"
    if "old = (case map_of gs k of None \<Rightarrow> [] | Some l \<Rightarrow> l)" for k and old :: "grammar_item list"
    using that by (induction gs) auto
  then show ?thesis by (simp add: add_to_group_def Let_def)
qed

lemma concat_filter_stale:
  "mset (concat (map snd (filter_stale_and_group items st))) = mset (filter (\<lambda>x. \<not> st x) items)"
proof -
  have "mset (concat (map snd (fold (\<lambda>x gs. if st x then gs else add_to_group x gs) items gs))) =
      mset (filter (\<lambda>x. \<not> st x) items) + mset (concat (map snd gs))" for gs
    by (induction items arbitrary: gs) (simp_all add: concat_add_to_group)
  from this [of "[]"] show ?thesis by (simp add: filter_stale_and_group_def)
qed

subsection \<open>Where the items are\<close>

fun thread_items :: "drain_thread \<Rightarrow> grammar_item list" where
  "thread_items (Collecting acc) = map snd acc"
| "thread_items (Executing gs) = concat gs"
| "thread_items _ = []"

fun thread_ok :: "drain_thread \<Rightarrow> bool" where
  "thread_ok (Collecting acc) = keyed acc"
| "thread_ok _ = True"

definition held :: "grammar_queue \<Rightarrow> grammar_item multiset" where
  "held q = mset (List.map_filter id (gq_queue q)) + mset (concat (map thread_items (gq_threads q)))
     + mset (gq_sent q)"

definition newest :: "grammar_item list \<Rightarrow> pystr \<Rightarrow> grammar_item option" where
  "newest xs k = (let ys = filter (\<lambda>x. inflight_key x = k) xs in if ys = [] then None else Some (last ys))"

text \<open>Snapshots of a key are enqueued in the order of their sequence numbers.\<close>

definition in_order :: "grammar_item list \<Rightarrow> bool" where
  "in_order xs \<longleftrightarrow> sorted_wrt (\<lambda>x y. inflight_key x = inflight_key y \<longrightarrow> enqueue_seq x < enqueue_seq y) xs"

lemma newest_append:
  "newest (xs @ [x]) k = (if inflight_key x = k then Some x else newest xs k)"
  by (simp add: newest_def Let_def)

lemma newest_mem: "newest xs k = Some x \<Longrightarrow> x \<in> set xs \<and> inflight_key x = k"
proof -
  assume "newest xs k = Some x"
  then have "filter (\<lambda>x. inflight_key x = k) xs \<noteq> [] \<and> x = last (filter (\<lambda>x. inflight_key x = k) xs)"
    by (auto simp: newest_def Let_def split: if_splits)
  then show ?thesis using last_in_filter [of "\<lambda>x. inflight_key x = k" xs] by blast
qed

lemma newest_exists: "x \<in> set xs \<Longrightarrow> \<exists>y. newest xs (inflight_key x) = Some y"
  by (auto simp: newest_def Let_def filter_empty_conv)

text \<open>In such a sequence the newest item of a key is the one with the greatest number.\<close>

lemma newest_greatest:
  assumes "in_order xs" and "newest xs k = Some y" and "z \<in> set xs" and "inflight_key z = k"
  shows "z = y \<or> enqueue_seq z < enqueue_seq y"
  using assms
proof (induction xs rule: rev_induct)
  case Nil
  then show ?case by simp
next
  case (snoc x xs)
  then show ?case
    by (auto simp: in_order_def sorted_wrt_append newest_append dest!: newest_mem split: if_splits)
qed

lemma in_order_distinct: "in_order xs \<Longrightarrow> distinct xs"
  by (induction xs) (auto simp: in_order_def)

lemma distinct_submultiset: "mset ys \<subseteq># mset xs \<Longrightarrow> distinct xs \<Longrightarrow> distinct ys"
proof -
  assume "mset ys \<subseteq># mset xs" and d: "distinct xs"
  then obtain zs where "mset xs = mset (ys @ zs)"
    by (metis ex_mset mset_append subset_mset.add_diff_inverse)
  with d show ?thesis using mset_eq_imp_distinct_iff by fastforce
qed

lemma in_order_prefix: "in_order (xs @ ys) \<Longrightarrow> in_order xs"
  by (simp add: in_order_def sorted_wrt_append)

lemma mset_update_thread:
  assumes "i < length ts"
  shows "mset (concat (map f (ts[i := t]))) + mset (f (ts ! i)) = mset (concat (map f ts)) + mset (f t)"
proof -
  have "ts[i := t] = take i ts @ t # drop (Suc i) ts"
    using assms by (rule upd_conv_take_nth_drop)
  moreover have "ts = take i ts @ ts ! i # drop (Suc i) ts"
    using assms by (rule id_take_nth_drop)
  then have "mset (concat (map f ts)) =
      mset (concat (map f (take i ts))) + mset (f (ts ! i)) + mset (concat (map f (drop (Suc i) ts)))"
    by (metis concat.simps(2) concat_append list.simps(9) map_append mset_append union_assoc)
  ultimately show ?thesis by simp
qed

lemma held_set_thread:
  assumes "i < length (gq_threads q)"
  shows "held (set_thread i t q) + mset (thread_items (gq_threads q ! i)) = held q + mset (thread_items t)"
  using mset_update_thread [OF assms, of thread_items t]
  by (simp add: held_def set_thread_def union_ac)

subsection \<open>The invariant\<close>

definition gq_inv :: "grammar_queue \<Rightarrow> bool" where
  "gq_inv q \<longleftrightarrow>
     (\<forall>k. map_of (gq_latest q) k = map_option enqueue_seq (newest (gq_enqueued q) k))
     \<and> held q \<subseteq># mset (gq_enqueued q)
     \<and> (\<forall>k x. newest (gq_enqueued q) k = Some x \<longrightarrow> x \<in># held q)
     \<and> list_all thread_ok (gq_threads q)"

lemma gq_start_inv: "gq_inv (gq_start n)"
proof -
  have "concat (map thread_items (replicate n Waiting)) = []" by (induction n) simp_all
  then show ?thesis
    by (simp add: gq_inv_def gq_start_def held_def newest_def list_all_iff List.map_filter_def)
qed

lemma enqueue_inv: "gq_inv q \<Longrightarrow> gq_inv (enqueue x q)"
proof -
  assume q: "gq_inv q"
  have h: "held (enqueue x q) = add_mset x (held q)"
    by (simp add: held_def enqueue_def List.map_filter_def)
  have "map_of (gq_latest (enqueue x q)) k = map_option enqueue_seq (newest (gq_enqueued (enqueue x q)) k)" for k
    using q by (simp add: gq_inv_def enqueue_def record_enqueue_latest_def Let_def map_of_update newest_append)
  with q show ?thesis
    by (auto simp: gq_inv_def h) (auto simp: enqueue_def newest_append split: if_splits)
qed

text \<open>A step that only moves items, or drops items another item at least as new of the key stands
  for, keeps the invariant.\<close>

lemma move_inv:
  assumes "gq_inv q" and "in_order (gq_enqueued q)"
    and "gq_latest q' = gq_latest q" and "gq_enqueued q' = gq_enqueued q"
    and "list_all thread_ok (gq_threads q')"
    and "held q' \<subseteq># held q"
    and "\<And>x k. newest (gq_enqueued q) k = Some x \<Longrightarrow> x \<in># held q \<Longrightarrow>
      \<exists>z. z \<in># held q' \<and> inflight_key z = inflight_key x \<and> enqueue_seq x \<le> enqueue_seq z"
  shows "gq_inv q'"
proof -
  have sub: "held q' \<subseteq># mset (gq_enqueued q)"
    using assms(1,6) by (auto simp: gq_inv_def intro: subset_mset.order_trans)
  have "x \<in># held q'" if n: "newest (gq_enqueued q) k = Some x" for k x
  proof -
    have "x \<in># held q" using assms(1) n by (auto simp: gq_inv_def)
    then obtain z where z: "z \<in># held q'" "inflight_key z = inflight_key x" "enqueue_seq x \<le> enqueue_seq z"
      using assms(7) [OF n] by blast
    then have "z \<in> set (gq_enqueued q)" using sub by (auto dest: mset_subset_eqD)
    then have "z = x" using newest_greatest [OF assms(2) n] z newest_mem [OF n] by fastforce
    with z show ?thesis by simp
  qed
  with assms(1,3-5) sub show ?thesis by (simp add: gq_inv_def)
qed

lemma held_thread_items: "i < length (gq_threads q) \<Longrightarrow> x \<in> set (thread_items (gq_threads q ! i)) \<Longrightarrow> x \<in># held q"
  by (auto simp: held_def)

lemma set_thread_fields [simp]:
  "gq_latest (set_thread i t q) = gq_latest q" "gq_enqueued (set_thread i t q) = gq_enqueued q"
  "gq_queue (set_thread i t q) = gq_queue q" "gq_sent (set_thread i t q) = gq_sent q"
  "gq_threads (set_thread i t q) = (gq_threads q)[i := t]"
  by (simp_all add: set_thread_def)

lemma threads_ok_update:
  "list_all thread_ok ts \<Longrightarrow> thread_ok t \<Longrightarrow> list_all thread_ok (ts[i := t])"
  by (auto simp: list_all_iff dest!: set_update_subset_insert [THEN subsetD])

text \<open>Replacing the items of a thread.\<close>

lemma replace_inv:
  assumes "gq_inv q" and "in_order (gq_enqueued q)" and i: "i < length (gq_threads q)"
    and q1: "gq_latest q1 = gq_latest q" "gq_enqueued q1 = gq_enqueued q" "gq_threads q1 = gq_threads q"
    and held: "held q = held q1 + extra" and "thread_ok t"
    and sub: "mset (thread_items t) \<subseteq># mset (thread_items (gq_threads q ! i)) + extra"
    and keep: "\<And>x k. newest (gq_enqueued q) k = Some x \<Longrightarrow>
      x \<in> set (thread_items (gq_threads q ! i)) \<or> x \<in># extra \<Longrightarrow>
      \<exists>z \<in> set (thread_items t). inflight_key z = inflight_key x \<and> enqueue_seq x \<le> enqueue_seq z"
  shows "gq_inv (set_thread i t q1)"
proof -
  let ?M = "mset (thread_items (gq_threads q ! i))" and ?C = "mset (thread_items t)"
  have bal: "held (set_thread i t q1) + ?M = held q1 + ?C"
    using held_set_thread [of i q1 t] i q1 by simp
  also have "\<dots> \<subseteq># held q + ?M"
    using subset_mset.add_left_mono [OF sub, of "held q1"] held by (simp add: union_ac)
  finally have le: "held (set_thread i t q1) \<subseteq># held q" by simp
  show ?thesis
  proof (rule move_inv [OF assms(1,2)])
    show "list_all thread_ok (gq_threads (set_thread i t q1))"
      using assms(1) q1 \<open>thread_ok t\<close> by (simp add: gq_inv_def threads_ok_update)
    show "held (set_thread i t q1) \<subseteq># held q" by (rule le)
    fix x k
    assume n: "newest (gq_enqueued q) k = Some x" and x: "x \<in># held q"
    have "z \<in># held (set_thread i t q1)" if "z \<in> set (thread_items t)" for z
      using held_thread_items [of i "set_thread i t q1" z] that i q1 by simp
    moreover have "x \<in># held (set_thread i t q1) \<or> x \<in># ?M \<or> x \<in># extra"
    proof -
      from x held have "x \<in># held q1 \<or> x \<in># extra" by auto
      moreover have "x \<in># held (set_thread i t q1) + ?M" if "x \<in># held q1"
        unfolding bal using that by simp
      ultimately show ?thesis by auto
    qed
    ultimately show "\<exists>z. z \<in># held (set_thread i t q1) \<and> inflight_key z = inflight_key x \<and>
        enqueue_seq x \<le> enqueue_seq z"
      using keep [OF n] by fastforce
  qed (use q1 in simp_all)
qed

lemma drain_get_inv:
  assumes "gq_inv q" and "in_order (gq_enqueued q)" and "None \<notin> set (gq_queue q)"
  shows "gq_inv (drain_get i q)"
proof (cases "gq_queue q")
  case Nil
  then show ?thesis using assms(1) by (simp add: drain_get_def)
next
  case (Cons mx rest)
  then obtain x where x: "mx = Some x" using assms(3) by (cases mx) auto
  let ?q1 = "q\<lparr>gq_queue := rest\<rparr>"
  have held: "held q = held ?q1 + {#x#}"
    using Cons x by (simp add: held_def List.map_filter_def)
  consider "\<not> (i < length (gq_threads q) \<and> takes_items (gq_threads q ! i))"
    | (waiting) "i < length (gq_threads q)" "gq_threads q ! i = Waiting"
    | (collecting) acc where "i < length (gq_threads q)" "gq_threads q ! i = Collecting acc"
    by (cases "gq_threads q ! i") auto
  then show ?thesis
  proof cases
    case 1
    then show ?thesis using assms(1) Cons by (auto simp: drain_get_def)
  next
    case waiting
    have "gq_inv (set_thread i (Collecting [(inflight_key x, x)]) ?q1)"
      by (rule replace_inv [OF assms(1,2) waiting(1) _ _ _ held]) (simp_all add: waiting)
    then show ?thesis using Cons x waiting by (simp add: drain_get_def)
  next
    case collecting
    have k: "keyed acc"
      using assms(1) collecting by (auto simp: gq_inv_def list_all_length dest: spec [of _ i])
    have "gq_inv (set_thread i (Collecting (collapse x acc)) ?q1)"
    proof (rule replace_inv [OF assms(1,2) collecting(1) _ _ _ held])
      fix y j
      assume "y \<in> set (thread_items (gq_threads q ! i)) \<or> y \<in># {#x#}"
      then show "\<exists>z \<in> set (thread_items (Collecting (collapse x acc))).
          inflight_key z = inflight_key y \<and> enqueue_seq y \<le> enqueue_seq z"
        using collapse_keeps [OF k, of y x] collecting by auto
    next
      show "mset (thread_items (Collecting (collapse x acc)))
          \<subseteq># mset (thread_items (gq_threads q ! i)) + {#x#}"
        using mset_collapse [of x acc] collecting by simp
    qed (simp_all add: keyed_collapse [OF k])
    then show ?thesis using Cons x collecting by (simp add: drain_get_def)
  qed
qed

lemma stale_iff:
  assumes "gq_inv q" and "in_order (gq_enqueued q)" and "x \<in># held q"
  shows "is_stale q x \<longleftrightarrow> newest (gq_enqueued q) (inflight_key x) \<noteq> Some x"
proof -
  have x: "x \<in> set (gq_enqueued q)" using assms(1,3) by (auto simp: gq_inv_def dest: mset_subset_eqD)
  then obtain y where y: "newest (gq_enqueued q) (inflight_key x) = Some y" using newest_exists by blast
  have "map_of (gq_latest q) (inflight_key x) = Some (enqueue_seq y)"
    using assms(1) y by (simp add: gq_inv_def)
  then have "is_stale q x \<longleftrightarrow> enqueue_seq x < enqueue_seq y"
    by (simp add: is_stale_def inflight_superseded_def)
  then show ?thesis using newest_greatest [OF assms(2) y x] y by auto
qed

lemma drain_pause_inv:
  assumes "gq_inv q" and "in_order (gq_enqueued q)"
  shows "gq_inv (drain_pause i q)"
proof (cases "i < length (gq_threads q) \<and> (\<exists>acc. gq_threads q ! i = Collecting acc)")
  case False
  then show ?thesis using assms(1) by (cases "gq_threads q ! i") (auto simp: drain_pause_def)
next
  case True
  then obtain acc where i: "i < length (gq_threads q)" and c: "gq_threads q ! i = Collecting acc" by blast
  let ?gs = "map snd (filter_stale_and_group (map snd acc) (is_stale q))"
  have m: "mset (concat ?gs) = mset (filter (\<lambda>x. \<not> is_stale q x) (map snd acc))"
    by (rule concat_filter_stale)
  have "gq_inv (set_thread i (Executing ?gs) q)"
  proof (rule replace_inv [OF assms i, where extra = "{#}"])
    show "mset (thread_items (Executing ?gs)) \<subseteq># mset (thread_items (gq_threads q ! i)) + {#}"
      using m c by (simp add: mset_filter)
    fix x k
    assume n: "newest (gq_enqueued q) k = Some x"
      and "x \<in> set (thread_items (gq_threads q ! i)) \<or> x \<in># {#}"
    then have x: "x \<in> set (map snd acc)" using c by simp
    then have "x \<in># held q" using held_thread_items [OF i] c by simp
    then have "\<not> is_stale q x" using stale_iff [OF assms] n newest_mem [OF n] by auto
    then have "x \<in> set (concat ?gs)"
      using x arg_cong [OF m, of set_mset] by (simp del: set_concat)
    then show "\<exists>z \<in> set (thread_items (Executing ?gs)). inflight_key z = inflight_key x \<and> enqueue_seq x \<le> enqueue_seq z"
      by (intro bexI [of _ x]) simp_all
  qed (use c in simp_all)
  then show ?thesis using i c by (simp add: drain_pause_def)
qed

lemma run_group_held: "held (run_group i q) = held q"
proof (cases "i < length (gq_threads q) \<and> (\<exists>gs. gq_threads q ! i = Executing gs)")
  case False
  then show ?thesis by (cases "gq_threads q ! i") (auto simp: run_group_def)
next
  case True
  then obtain gs where i: "i < length (gq_threads q)" and e: "gq_threads q ! i = Executing gs" by blast
  show ?thesis
  proof (cases gs)
    case Nil
    then show ?thesis using held_set_thread [OF i, of Waiting] i e by (simp add: run_group_def)
  next
    case (Cons g rest)
    have "held (set_thread i (Executing rest) (q\<lparr>gq_sent := gq_sent q @ g\<rparr>)) + mset (concat gs)
        = held (q\<lparr>gq_sent := gq_sent q @ g\<rparr>) + mset (concat rest)"
      using held_set_thread [of i "q\<lparr>gq_sent := gq_sent q @ g\<rparr>" "Executing rest"] i e by simp
    moreover have "held (q\<lparr>gq_sent := gq_sent q @ g\<rparr>) = held q + mset g" by (simp add: held_def)
    ultimately show ?thesis using i e Cons by (simp add: run_group_def)
  qed
qed

lemma run_group_inv:
  assumes "gq_inv q" and "in_order (gq_enqueued q)"
  shows "gq_inv (run_group i q)"
proof (rule move_inv [OF assms])
  show "list_all thread_ok (gq_threads (run_group i q))"
    using assms(1) by (auto simp: gq_inv_def run_group_def threads_ok_update split: drain_thread.split list.split)
  show "gq_latest (run_group i q) = gq_latest q" "gq_enqueued (run_group i q) = gq_enqueued q"
    by (auto simp: run_group_def split: drain_thread.split list.split)
qed (auto simp: run_group_held)

lemma thread_get_fields [simp]:
  "gq_enqueued (thread_get i t x q) = gq_enqueued q" "gq_queue (thread_get i t x q) = gq_queue q"
  by (cases "(i, t, x, q)" rule: thread_get.cases; simp)+

lemma gq_step_enqueued:
  "gq_enqueued (gq_step e q) = gq_enqueued q @ (case e of Enqueue x \<Rightarrow> [x] | _ \<Rightarrow> [])"
  by (cases e)
    (auto simp: enqueue_def drain_get_def drain_pause_def run_group_def
      split: drain_thread.split list.split)

lemma gq_step_queue:
  "e \<noteq> Poison \<Longrightarrow> None \<notin> set (gq_queue q) \<Longrightarrow> None \<notin> set (gq_queue (gq_step e q))"
  by (cases e)
    (auto simp: enqueue_def drain_get_def drain_pause_def run_group_def
      split: drain_thread.split list.split)

definition gq_ok :: "gq_event list \<Rightarrow> bool" where
  "gq_ok es \<longleftrightarrow> Poison \<notin> set es \<and> in_order [x. Enqueue x \<leftarrow> es]"

lemma gq_run_enqueued: "gq_enqueued (gq_run n es) = [x. Enqueue x \<leftarrow> es]"
proof (induction es rule: rev_induct)
  case Nil
  then show ?case by (simp add: gq_run_def gq_start_def)
next
  case (snoc e es)
  then show ?case by (cases e) (simp_all add: gq_run_def gq_step_enqueued del: gq_step.simps)
qed

lemma gq_run_inv:
  "gq_ok es \<Longrightarrow> gq_inv (gq_run n es) \<and> None \<notin> set (gq_queue (gq_run n es))"
proof (induction es rule: rev_induct)
  case Nil
  then show ?case by (simp add: gq_run_def gq_start_inv) (simp add: gq_start_def)
next
  case (snoc e es)
  let ?q = "gq_run n es"
  have "gq_ok es" and e: "e \<noteq> Poison"
    using snoc.prems by (auto simp: gq_ok_def in_order_def sorted_wrt_append)
  then have q: "gq_inv ?q" "None \<notin> set (gq_queue ?q)" "in_order (gq_enqueued ?q)"
    using snoc.IH by (simp_all add: gq_run_enqueued gq_ok_def)
  have "gq_inv (gq_step e ?q)"
    using q e drain_get_inv drain_pause_inv run_group_inv enqueue_inv by (cases e) auto
  with gq_step_queue [OF e q(2)] show ?case by (simp add: gq_run_def)
qed

lemma gq_run_facts:
  assumes "gq_ok es"
  shows "gq_inv (gq_run n es)" and "in_order (gq_enqueued (gq_run n es))"
  using gq_run_inv [OF assms] assms by (simp_all add: gq_run_enqueued gq_ok_def)

subsection \<open>Properties\<close>

text \<open>C23: No edit is lost and none is checked twice: whatever the threads interleave, as long as the
  snapshots of a key are enqueued in the order of their numbers and no thread is shut down, no
  snapshot is handed to the model twice, and the newest snapshot of every key is still queued,
  collected or about to run, or has been handed to the model; so once the queue is empty and all
  threads wait, the newest snapshot of every key has been.\<close>

theorem grammar_queue_newest_never_lost:
  assumes "Poison \<notin> set es" and "in_order [x. Enqueue x \<leftarrow> es]"
  shows "distinct (gq_sent (gq_run n es)) \<and>
    (\<forall>k x. newest [x. Enqueue x \<leftarrow> es] k = Some x \<longrightarrow> x \<in># held (gq_run n es) \<and>
       (gq_queue (gq_run n es) = [] \<and> list_all ((=) Waiting) (gq_threads (gq_run n es)) \<longrightarrow>
        x \<in> set (gq_sent (gq_run n es))))"
proof -
  let ?q = "gq_run n es"
  have ok: "gq_ok es" using assms by (simp add: gq_ok_def)
  note inv = gq_run_facts [OF ok, of n]
  have "mset (gq_sent ?q) \<subseteq># mset (gq_enqueued ?q)"
    using inv(1) by (auto simp: gq_inv_def held_def intro: subset_mset.order_trans [rotated])
  then have d: "distinct (gq_sent ?q)"
    using in_order_distinct [OF inv(2)] distinct_submultiset by blast
  have "x \<in> set (gq_sent ?q)"
    if "x \<in># held ?q" "gq_queue ?q = []" "list_all ((=) Waiting) (gq_threads ?q)" for x
  proof -
    have "thread_items t = []" if "t \<in> set (gq_threads ?q)" for t
      using that \<open>list_all ((=) Waiting) (gq_threads ?q)\<close> by (auto simp: list_all_iff)
    then have "concat (map thread_items (gq_threads ?q)) = []" by simp
    then have "held ?q = mset (gq_sent ?q)"
      using that(2) by (simp add: held_def List.map_filter_def)
    with that(1) show ?thesis by simp
  qed
  moreover have "x \<in># held ?q" if "newest [x. Enqueue x \<leftarrow> es] k = Some x" for k x
    using inv(1) that by (simp add: gq_inv_def gq_run_enqueued)
  ultimately show ?thesis using d by blast
qed

definition snapshot :: "string \<Rightarrow> string \<Rightarrow> int \<Rightarrow> grammar_item" where
  "snapshot doc key n = \<lparr>gi_text = [], gi_bcp47 = u ''fa'', gi_partial = True, gi_doc_id = u doc,
     inflight_key = u key, enqueue_seq = n, gi_original = [], gi_provider = []\<rparr>"

definition typing :: "gq_event list" where
  "typing = [Enqueue (snapshot ''d'' ''k'' 1), Get 0, Enqueue (snapshot ''d'' ''k'' 2), Get 1, Pause 0, Pause 1,
     RunGroup 0, RunGroup 1, RunGroup 1]"

theorem grammar_queue_newest_never_lost_witness:
  "distinct (gq_sent (gq_run 2 typing)) \<and> snapshot ''d'' ''k'' 2 \<in> set (gq_sent (gq_run 2 typing))"
proof -
  have e: "[x. Enqueue x \<leftarrow> typing] = [snapshot ''d'' ''k'' 1, snapshot ''d'' ''k'' 2]"
    by (simp add: typing_def)
  have p: "Poison \<notin> set typing" by (simp add: typing_def)
  have o: "in_order [x. Enqueue x \<leftarrow> typing]"
    unfolding e by (simp add: in_order_def snapshot_def)
  have n: "newest [x. Enqueue x \<leftarrow> typing] (u ''k'') = Some (snapshot ''d'' ''k'' 2)"
    unfolding e by (simp add: newest_def snapshot_def)
  have q: "gq_queue (gq_run 2 typing) = [] \<and> list_all ((=) Waiting) (gq_threads (gq_run 2 typing))"
    by (simp add: gq_run_def typing_def gq_start_def snapshot_def enqueue_def drain_get_def drain_pause_def
        run_group_def set_thread_def record_enqueue_latest_def filter_stale_and_group_def is_stale_def
        inflight_superseded_def add_to_group_def numeral_2_eq_2 Let_def)
  from grammar_queue_newest_never_lost [OF p o, of 2] n q show ?thesis by blast
qed

text \<open>The stale check is exact: when a thread closes its batch, the items it keeps for the model
  are precisely those of the batch that are the newest snapshot of their key enqueued so far.\<close>

theorem grammar_queue_stale_check_exact:
  assumes "Poison \<notin> set es" and "in_order [x. Enqueue x \<leftarrow> es]"
    and "i < length (gq_threads (gq_run n es))" and "gq_threads (gq_run n es) ! i = Collecting acc"
  shows "\<exists>gs. gq_threads (gq_step (Pause i) (gq_run n es)) ! i = Executing gs \<and>
    mset (concat gs) =
      mset (filter (\<lambda>x. newest [x. Enqueue x \<leftarrow> es] (inflight_key x) = Some x) (map snd acc))"
proof -
  let ?q = "gq_run n es"
  let ?gs = "map snd (filter_stale_and_group (map snd acc) (is_stale ?q))"
  have ok: "gq_ok es" using assms(1,2) by (simp add: gq_ok_def)
  have "is_stale ?q x \<longleftrightarrow> newest (gq_enqueued ?q) (inflight_key x) \<noteq> Some x" if "x \<in> set (map snd acc)" for x
    by (rule stale_iff [OF gq_run_facts [OF ok]]) (use held_thread_items [OF assms(3)] assms(4) that in simp)
  then have "filter (\<lambda>x. \<not> is_stale ?q x) (map snd acc) =
      filter (\<lambda>x. newest [x. Enqueue x \<leftarrow> es] (inflight_key x) = Some x) (map snd acc)"
    by (intro filter_cong) (simp_all add: gq_run_enqueued)
  then have "mset (concat ?gs) =
      mset (filter (\<lambda>x. newest [x. Enqueue x \<leftarrow> es] (inflight_key x) = Some x) (map snd acc))"
    by (simp only: concat_filter_stale)
  moreover have "gq_threads (gq_step (Pause i) ?q) ! i = Executing ?gs"
    using assms(3,4) by (simp add: drain_pause_def)
  ultimately show ?thesis by blast
qed

theorem grammar_queue_stale_check_exact_witness:
  "\<exists>gs. gq_threads (gq_step (Pause 0) (gq_run 1 [Enqueue (snapshot ''d'' ''k'' 1), Get 0,
     Enqueue (snapshot ''d'' ''k'' 2)])) ! 0 = Executing gs \<and> mset (concat gs) = {#}"
proof -
  let ?es = "[Enqueue (snapshot ''d'' ''k'' 1), Get 0, Enqueue (snapshot ''d'' ''k'' 2)]"
  have p: "Poison \<notin> set ?es" by simp
  have o: "in_order [x. Enqueue x \<leftarrow> ?es]" by (simp add: in_order_def snapshot_def)
  have t: "gq_threads (gq_run 1 ?es) = [Collecting [(u ''k'', snapshot ''d'' ''k'' 1)]]"
    by (simp add: gq_run_def gq_start_def enqueue_def drain_get_def set_thread_def snapshot_def)
  then have i: "0 < length (gq_threads (gq_run 1 ?es))"
    and c: "gq_threads (gq_run 1 ?es) ! 0 = Collecting [(u ''k'', snapshot ''d'' ''k'' 1)]" by simp_all
  show ?thesis
    using grammar_queue_stale_check_exact [OF p o i c] by (simp add: newest_def snapshot_def)
qed

text \<open>The check is made once for a whole batch: a snapshot superseded while an earlier group of
  its batch is with the model is handed to the model all the same, although a newer snapshot of its
  key had been recorded by then.\<close>

theorem grammar_queue_superseded_still_sent:
  "let es = [Enqueue (snapshot ''d'' ''a'' 1), Enqueue (snapshot ''e'' ''b'' 2), Get 0, Get 0, Pause 0,
             RunGroup 0, Enqueue (snapshot ''e'' ''b'' 3)]
   in is_stale (gq_run 1 es) (snapshot ''e'' ''b'' 2) \<and>
      gq_sent (gq_run 1 (es @ [RunGroup 0])) = [snapshot ''d'' ''a'' 1, snapshot ''e'' ''b'' 2]"
  by (simp add: gq_run_def gq_start_def snapshot_def enqueue_def drain_get_def drain_pause_def
      run_group_def set_thread_def record_enqueue_latest_def filter_stale_and_group_def is_stale_def
      inflight_superseded_def add_to_group_def collapse_def should_replace_for_key_def Let_def)

end
