(* ===== verification/CellAddress.thy ===== *)
theory CellAddress
  imports Prelude PyStr
begin

text \<open>
  Spreadsheet references (\<open>plugin/calc/address_utils.py\<close>): column letters are numbers in
  bijective base 26, an address is letters and a row number, a range two addresses, and a
  reference may name its sheet. The regular expressions are written out as the scans they
  describe; references are ASCII, as the contracts of the code require. A \<open>ValueError\<close> is a value
  of \<open>address_error\<close>.
\<close>

subsection \<open>Columns\<close>

text \<open>The loop of \<open>index_to_column\<close> on the incremented index, most significant letter first.\<close>

function column_letters :: "int \<Rightarrow> pystr" where
  "column_letters n =
     (if n > 0 then column_letters ((n - 1) div 26) @ [65 + nat ((n - 1) mod 26)] else [])"
  by auto
termination
  by (relation "measure nat") (auto simp: div_less_dividend)

declare column_letters.simps [simp del]

definition index_to_column :: "int \<Rightarrow> pystr" where
  "index_to_column i = column_letters (i + 1)"

definition column_value :: "pystr \<Rightarrow> int" where
  "column_value s = foldl (\<lambda>r c. r * 26 + (int c - 65 + 1)) 0 s"

definition column_to_index :: "pystr \<Rightarrow> int" where
  "column_to_index s = column_value (upper s) - 1"

lemma column_value_snoc [simp]: "column_value (s @ [c]) = column_value s * 26 + (int c - 64)"
  by (simp add: column_value_def)

lemma column_value_Nil [simp]: "column_value [] = 0"
  by (simp add: column_value_def)

lemma column_letters_le: "n \<le> 0 \<Longrightarrow> column_letters n = []"
  by (simp add: column_letters.simps)

lemma column_letters_pos:
  "0 < n \<Longrightarrow> column_letters n = column_letters ((n - 1) div 26) @ [65 + nat ((n - 1) mod 26)]"
  by (simp add: column_letters.simps)

lemma column_value_letters: "0 \<le> n \<Longrightarrow> column_value (column_letters n) = n"
proof (induction n rule: column_letters.induct)
  case (1 n)
  show ?case
  proof (cases "0 < n")
    case True
    moreover have "0 \<le> (n - 1) div 26" using True by simp
    ultimately show ?thesis using 1 by (simp add: column_letters_pos)
  next
    case False
    with 1 show ?thesis by (simp add: column_letters_le)
  qed
qed

lemma column_letters_upper: "list_all is_upper (column_letters n)"
proof (induction n rule: column_letters.induct)
  case (1 n)
  show ?case
  proof (cases "0 < n")
    case True
    have "nat ((n - 1) mod 26) < 26" by (simp add: nat_less_iff)
    then have "is_upper (65 + nat ((n - 1) mod 26))" unfolding is_upper_def by linarith
    with True 1 show ?thesis by (simp add: column_letters_pos)
  qed (simp add: column_letters_le)
qed

lemma column_value_nonneg: "list_all is_upper s \<Longrightarrow> 0 \<le> column_value s \<and> (s \<noteq> [] \<longrightarrow> 0 < column_value s)"
  by (induction s rule: rev_induct) (auto simp: is_upper_def)

lemma base26: "0 \<le> d \<Longrightarrow> d < 26 \<Longrightarrow> (d + k * 26) div 26 = k \<and> (d + k * 26) mod 26 = (d :: int)"
  by simp

lemma column_letters_value: "list_all is_upper s \<Longrightarrow> column_letters (column_value s) = s"
proof (induction s rule: rev_induct)
  case Nil
  then show ?case by (simp add: column_letters_le)
next
  case (snoc c s)
  then have s: "list_all is_upper s" and "is_upper c" by simp_all
  then have c: "65 \<le> c" "c \<le> 90" by (simp_all add: is_upper_def)
  let ?d = "int c - 65"
  have eq: "column_value (s @ [c]) - 1 = ?d + column_value s * 26" by simp
  have "(column_value (s @ [c]) - 1) div 26 = column_value s \<and> (column_value (s @ [c]) - 1) mod 26 = ?d"
    unfolding eq by (rule base26) (use c in simp_all)
  then have "(column_value (s @ [c]) - 1) div 26 = column_value s"
    "(column_value (s @ [c]) - 1) mod 26 = ?d" by simp_all
  moreover have "0 < column_value (s @ [c])"
    using column_value_nonneg [OF snoc.prems] by simp
  ultimately show ?case using snoc.IH [OF s] c
    by (simp add: column_letters_pos del: column_value_snoc)
qed

lemma column_letters_ne: "0 < n \<Longrightarrow> column_letters n \<noteq> []"
  by (simp add: column_letters_pos)

subsection \<open>Sheet prefixes\<close>

text \<open>\<open>\s*(.+)$\<close> and \<open>strip\<close> on what follows the separator: a line, possibly ended by a newline,
  after any whitespace; if there is only whitespace the dot still takes one character that is not
  a newline.\<close>

definition address_part :: "pystr \<Rightarrow> pystr option" where
  "address_part r =
     (let d = lstrip r;
          body = (if d \<noteq> [] \<and> last d = 10 then butlast d else d);
          r' = (if r \<noteq> [] \<and> last r = 10 then butlast r else r)
      in if d \<noteq> [] then (if 10 \<in> set body then None else Some (strip body))
         else if r' \<noteq> [] \<and> last r' \<noteq> 10 then Some [] else None)"

definition separated :: "pystr \<Rightarrow> pystr option" where
  "separated r =
     (case lstrip r of
        [] \<Rightarrow> None
      | c # rest \<Rightarrow> if c = 46 \<or> c = 33 then address_part rest else None)"

text \<open>\<open>[^.!']\<close>.\<close>

definition name_char :: "nat \<Rightarrow> bool" where
  "name_char x \<longleftrightarrow> x \<noteq> 46 \<and> x \<noteq> 33 \<and> x \<noteq> 39"

definition match_sheet_prefix :: "pystr \<Rightarrow> (pystr \<times> pystr) option" where
  "match_sheet_prefix ref =
     (case lstrip ref of
        [] \<Rightarrow> None
      | c # t \<Rightarrow>
          if c = 39
          then let name = takeWhile (\<lambda>x. x \<noteq> 39) t; after = dropWhile (\<lambda>x. x \<noteq> 39) t
               in if name = [] \<or> after = [] then None
                  else map_option (Pair (strip name)) (separated (tl after))
          else let run = takeWhile name_char (c # t);
                   after = dropWhile name_char (c # t)
               in if run = [] then None
                  else map_option (Pair (strip run)) (separated after))"

definition split_sheet_prefix :: "pystr \<Rightarrow> pystr option \<times> pystr" where
  "split_sheet_prefix ref =
     (if ref = [] then (None, ref)
      else case match_sheet_prefix ref of
             None \<Rightarrow> (None, strip ref)
           | Some (name, rest) \<Rightarrow> (Some name, rest))"

subsection \<open>Addresses and ranges\<close>

datatype address_error =
    NamesSheet pystr pystr
  | InvalidAddress pystr
  | InvalidRow int

text \<open>\<open>([A-Z]+)([0-9]+)\<close> at the start of a string: the two groups and what follows.\<close>

definition match_cell :: "pystr \<Rightarrow> (pystr \<times> pystr \<times> pystr) option" where
  "match_cell s =
     (let col = takeWhile is_upper s;
          r = dropWhile is_upper s;
          row = takeWhile is_digit r
      in if col = [] \<or> row = [] then None else Some (col, row, dropWhile is_digit r))"

definition cell_indices :: "pystr \<Rightarrow> pystr \<Rightarrow> address_error + (int \<times> int)" where
  "cell_indices col row =
     (let row_num = int (dec_val row)
      in if row_num < 1 then Inl (InvalidRow row_num) else Inr (column_to_index col, row_num - 1))"

definition parse_address :: "pystr \<Rightarrow> address_error + (int \<times> int)" where
  "parse_address address =
     (case split_sheet_prefix address of
        (Some sheet, rest) \<Rightarrow> Inl (NamesSheet sheet rest)
      | (None, rest) \<Rightarrow>
          let a = upper (strip rest) in
          case match_cell a of
            Some (col, row, []) \<Rightarrow> cell_indices col row
          | _ \<Rightarrow> Inl (InvalidAddress a))"

definition parse_range_string ::
  "pystr \<Rightarrow> address_error + ((int \<times> int) \<times> (int \<times> int))" where
  "parse_range_string range_str =
     (case split_sheet_prefix range_str of
        (Some sheet, rest) \<Rightarrow> Inl (NamesSheet sheet rest)
      | (None, rest) \<Rightarrow>
          let a = upper (strip rest) in
          case match_cell a of
            Some (col, row, []) \<Rightarrow>
              (case cell_indices col row of Inl e \<Rightarrow> Inl e | Inr p \<Rightarrow> Inr (p, p))
          | Some (col, row, c # b) \<Rightarrow>
              (case match_cell b of
                 Some (col2, row2, []) \<Rightarrow>
                   if c = 58
                   then case cell_indices col row of
                          Inl e \<Rightarrow> Inl e
                        | Inr p \<Rightarrow>
                            (case cell_indices col2 row2 of Inl e \<Rightarrow> Inl e | Inr p2 \<Rightarrow> Inr (p, p2))
                   else Inl (InvalidAddress a)
               | _ \<Rightarrow> Inl (InvalidAddress a))
          | None \<Rightarrow> Inl (InvalidAddress a))"

definition format_address :: "int \<Rightarrow> int \<Rightarrow> pystr" where
  "format_address col row = index_to_column col @ str_of_int (row + 1)"

subsection \<open>Reading back what was printed\<close>

lemma upper_no_sep: "is_upper c \<Longrightarrow> name_char c \<and> \<not> is_space c \<and> \<not> is_digit c \<and> c \<noteq> 58"
  by (auto simp: is_upper_def is_space_def is_digit_def name_char_def)

lemma digit_no_sep: "is_digit c \<Longrightarrow> name_char c \<and> \<not> is_space c \<and> \<not> is_upper c \<and> c \<noteq> 58"
  by (auto simp: is_upper_def is_space_def is_digit_def name_char_def)

lemma match_bare:
  assumes "lstrip ref = c # t" and "c \<noteq> 39" and "takeWhile name_char (c # t) \<noteq> []"
  shows "match_sheet_prefix ref =
    map_option (Pair (strip (takeWhile name_char (c # t))))
      (separated (dropWhile name_char (c # t)))"
  using assms unfolding match_sheet_prefix_def Let_def by simp

lemma newline_space: "is_space 10"
  by (simp add: is_space_def)

lemma address_part_plain:
  assumes "list_all (\<lambda>c. \<not> is_space c) s" and "s \<noteq> []"
  shows "address_part s = Some s"
proof -
  have l: "lstrip s = s" using assms by (cases s) (simp_all add: lstrip_def)
  have n: "10 \<notin> set s" using assms(1) newline_space by (auto simp: list_all_iff)
  then have "last s \<noteq> 10" using last_in_set [OF assms(2)] by metis
  then show ?thesis
    unfolding address_part_def Let_def l using n assms(2) strip_id [OF assms(1)] by simp
qed

text \<open>A string without separators, quotes and whitespace names no sheet.\<close>

lemma split_plain:
  assumes "list_all (\<lambda>c. name_char c \<and> \<not> is_space c) s"
  shows "split_sheet_prefix s = (None, s)"
proof (cases s)
  case Nil
  then show ?thesis by (simp add: split_sheet_prefix_def)
next
  case (Cons c t)
  have l: "lstrip s = s" using assms Cons by (simp add: lstrip_def)
  have d: "dropWhile name_char (c # t) = []" and c: "c \<noteq> 39"
    using assms Cons by (auto simp: list_all_iff dropWhile_eq_Nil_conv name_char_def)
  have "match_sheet_prefix s = None"
    using match_bare [of s c t, unfolded d] l c assms Cons by (simp add: separated_def lstrip_def)
  moreover have "strip s = s" by (rule strip_id) (use assms in \<open>auto simp: list_all_iff\<close>)
  ultimately show ?thesis using Cons by (simp add: split_sheet_prefix_def)
qed

lemma match_cell_append:
  assumes "list_all is_upper col" and "col \<noteq> []" and "list_all is_digit row" and "row \<noteq> []"
    and "rest = [] \<or> \<not> is_digit (hd rest)"
  shows "match_cell (col @ row @ rest) = Some (col, row, rest)"
proof -
  have r: "takeWhile is_upper (row @ rest) = []" "dropWhile is_upper (row @ rest) = row @ rest"
    using assms(3,4) by (cases row; simp add: digit_not_upper)+
  have "takeWhile is_upper (col @ row @ rest) = col" "dropWhile is_upper (col @ row @ rest) = row @ rest"
    using assms(1) r by (simp_all add: takeWhile_append2 dropWhile_append2 list_all_iff)
  moreover have "takeWhile is_digit (row @ rest) = row" "dropWhile is_digit (row @ rest) = rest"
    using assms(3,5) by (cases rest; simp add: takeWhile_append2 dropWhile_append2 list_all_iff)+
  ultimately show ?thesis using assms(2,4) by (simp add: match_cell_def)
qed

lemma format_parts:
  assumes "0 \<le> col" and "0 \<le> row"
  shows "format_address col row = column_letters (col + 1) @ dec_digits (nat (row + 1))"
    and "cell_indices (column_letters (col + 1)) (dec_digits (nat (row + 1))) = Inr (col, row)"
proof -
  show "format_address col row = column_letters (col + 1) @ dec_digits (nat (row + 1))"
    using assms by (simp add: format_address_def index_to_column_def str_of_int_def)
  have "upper (column_letters (col + 1)) = column_letters (col + 1)"
    by (rule upper_id) (use column_letters_upper [of "col + 1"] in \<open>auto simp: list_all_iff upper_not_lower\<close>)
  then show "cell_indices (column_letters (col + 1)) (dec_digits (nat (row + 1))) = Inr (col, row)"
    using assms by (simp add: cell_indices_def column_to_index_def column_value_letters Let_def)
qed

lemma format_plain:
  assumes "0 \<le> col" and "0 \<le> row"
  shows "list_all (\<lambda>c. is_upper c \<or> is_digit c) (format_address col row)"
  unfolding format_parts(1) [OF assms]
  using column_letters_upper [of "col + 1"] dec_digits_digit [of "nat (row + 1)"]
  by (auto simp: list_all_iff)

lemma plain_upper: "list_all (\<lambda>c. is_upper c \<or> is_digit c \<or> c = 58) s \<Longrightarrow>
    split_sheet_prefix s = (None, s) \<and> upper (strip s) = s"
proof -
  assume p: "list_all (\<lambda>c. is_upper c \<or> is_digit c \<or> c = 58) s"
  have ns: "list_all (\<lambda>c. name_char c \<and> \<not> is_space c) s"
    using p by (auto simp: list_all_iff is_upper_def is_digit_def is_space_def name_char_def)
  then have "split_sheet_prefix s = (None, s)" by (rule split_plain)
  moreover have "strip s = s" by (rule strip_id) (use ns in \<open>auto simp: list_all_iff\<close>)
  moreover have "upper s = s"
    by (rule upper_id) (use p in \<open>auto simp: list_all_iff is_upper_def is_digit_def is_lower_def\<close>)
  ultimately show ?thesis by simp
qed

subsection \<open>Properties\<close>

text \<open>Column names and indices correspond one to one: every index is read back from its letters,
  and every non-empty string of ASCII letters, in any case, is the name of exactly the index it is
  read as, in upper case.\<close>

theorem column_round_trip:
  assumes "0 \<le> i" and "s \<noteq> []" and "list_all (\<lambda>c. is_upper c \<or> is_lower c) s"
  shows "column_to_index (index_to_column i) = i \<and> 0 \<le> column_to_index s \<and>
    index_to_column (column_to_index s) = upper s"
proof -
  have "upper (column_letters (i + 1)) = column_letters (i + 1)"
    by (rule upper_id) (use column_letters_upper [of "i + 1"] in \<open>auto simp: list_all_iff upper_not_lower\<close>)
  then have "column_to_index (index_to_column i) = i"
    using assms(1) by (simp add: column_to_index_def index_to_column_def column_value_letters)
  moreover have u: "list_all is_upper (upper s)"
    using assms(3) by (auto simp: list_all_iff upper_def is_upper_def is_lower_def)
  moreover have "0 < column_value (upper s)"
    using column_value_nonneg [OF u] assms(2) by (simp add: upper_def)
  ultimately show ?thesis
    by (simp add: column_to_index_def index_to_column_def column_letters_value)
qed

theorem column_round_trip_witness:
  "column_to_index (index_to_column 701) = 701 \<and> index_to_column (column_to_index (u ''zZ'')) = u ''ZZ''"
proof -
  have "list_all (\<lambda>c. is_upper c \<or> is_lower c) (u ''zZ'')" and "upper (u ''zZ'') = u ''ZZ''"
    by code_simp+
  then show ?thesis using column_round_trip [of 701 "u ''zZ''"] by simp
qed

text \<open>Every address that is parsed is printed as the same letters in capitals and the same row number.\<close>

lemma parse_then_format:
  assumes "parse_address s = Inr (c, r)"
  shows "0 \<le> c \<and> 0 \<le> r \<and> (\<exists>col row. upper (strip s) = col @ row \<and> col \<noteq> [] \<and> row \<noteq> [] \<and> list_all is_upper col
    \<and> list_all is_digit row \<and> format_address c r = col @ str_of_int (int (dec_val row)))"
proof -
  have rest: "split_sheet_prefix s = (None, strip s)"
    using assms by (auto simp: parse_address_def split_sheet_prefix_def split: prod.splits option.splits if_splits)
  then obtain col row where m: "match_cell (upper (strip s)) = Some (col, row, [])" and ci: "cell_indices col row = Inr (c, r)"
    using assms by (auto simp: parse_address_def strip_strip Let_def split: option.splits list.splits)
  have parts: "upper (strip s) = col @ row" "col \<noteq> []" "row \<noteq> []" "list_all is_upper col" "list_all is_digit row"
    using m by (auto simp: match_cell_def Let_def dropWhile_eq_Nil_conv list_all_iff dest: set_takeWhileD split: if_splits)
      (metis append.right_neutral dropWhile_eq_Nil_conv takeWhile_dropWhile_id)
  have up: "upper col = col" by (rule upper_id) (use parts(4) in \<open>auto simp: list_all_iff upper_not_lower\<close>)
  have v: "0 < column_value col" using column_value_nonneg [OF parts(4)] parts(2) by simp
  have "c = column_value col - 1" "r = int (dec_val row) - 1" "1 \<le> int (dec_val row)"
    using ci by (auto simp: cell_indices_def column_to_index_def up Let_def split: if_splits)
  then show ?thesis using parts v
    by (auto simp: format_address_def index_to_column_def column_letters_value)
qed

lemma split_bare_sheet:
  assumes "sheet \<noteq> []" and "list_all (\<lambda>x. name_char x \<and> \<not> is_space x) sheet" and "sep = 46 \<or> sep = 33"
    and "a \<noteq> []" and "list_all (\<lambda>c. \<not> is_space c) a"
  shows "split_sheet_prefix (sheet @ [sep] @ a) = (Some sheet, a)"
proof -
  obtain x t where s: "sheet = x # t" using assms(1) by (cases sheet) auto
  have l: "lstrip (sheet @ sep # a) = sheet @ sep # a" using s assms(2) by (simp add: lstrip_def)
  have n: "\<not> name_char sep" "\<not> is_space sep" using assms(3) by (auto simp: name_char_def is_space_def)
  have tw: "takeWhile name_char (sheet @ sep # a) = sheet" "dropWhile name_char (sheet @ sep # a) = sep # a"
    using assms(2) n by (simp_all add: takeWhile_append2 dropWhile_append2 list_all_iff)
  have st: "strip sheet = sheet" by (rule strip_id) (use assms(2) in \<open>auto simp: list_all_iff\<close>)
  have "separated (sep # a) = Some a"
    using address_part_plain [OF assms(5,4)] assms(3) n by (auto simp: separated_def lstrip_def)
  then have "match_sheet_prefix (sheet @ sep # a) = Some (sheet, a)"
    using match_bare [of "sheet @ sep # a" x "t @ sep # a"] l s assms(2) tw st by (auto simp: name_char_def [of x])
  then show ?thesis using s by (simp add: split_sheet_prefix_def)
qed

lemma split_quoted_sheet:
  assumes "q \<noteq> []" and "39 \<notin> set q" and "sep = 46 \<or> sep = 33" and "a \<noteq> []" and "list_all (\<lambda>c. \<not> is_space c) a"
  shows "split_sheet_prefix ([39] @ q @ [39, sep] @ a) = (Some (strip q), a)"
proof -
  have n: "\<not> is_space sep" using assms(3) by (auto simp: is_space_def)
  have tw: "takeWhile (\<lambda>x. x \<noteq> 39) (q @ 39 # sep # a) = q" "dropWhile (\<lambda>x. x \<noteq> 39) (q @ 39 # sep # a) = 39 # sep # a"
  proof -
    have "\<And>x. x \<in> set q \<Longrightarrow> x \<noteq> 39" using assms(2) by auto
    then show "takeWhile (\<lambda>x. x \<noteq> 39) (q @ 39 # sep # a) = q" "dropWhile (\<lambda>x. x \<noteq> 39) (q @ 39 # sep # a) = 39 # sep # a"
      using takeWhile_append2 [of q "\<lambda>x. x \<noteq> 39" "39 # sep # a"] dropWhile_append2 [of q "\<lambda>x. x \<noteq> 39" "39 # sep # a"]
      by simp_all
  qed
  have "separated (sep # a) = Some a"
    using address_part_plain [OF assms(5,4)] assms(3) n by (auto simp: separated_def lstrip_def)
  then have "match_sheet_prefix (39 # q @ 39 # sep # a) = Some (strip q, a)"
    using assms(1) tw by (simp add: match_sheet_prefix_def lstrip_def is_space_def)
  then show ?thesis by (simp add: split_sheet_prefix_def)
qed

text \<open>C30: Parsing a printed address gives back its indices, and so does a range of two addresses; printing what was
  parsed from any text gives the same letters in capitals and the same row number without leading zeros. A reference that
  names a sheet, bare or in quotes, before a dot or an exclamation mark, is split into the name and the printed address,
  and parsing it without splitting is an error that carries both.\<close>

theorem address_round_trip:
  assumes "0 \<le> c" and "0 \<le> r" and "0 \<le> c2" and "0 \<le> r2"
    and "sheet \<noteq> []" and "list_all (\<lambda>x. name_char x \<and> \<not> is_space x) sheet" and "q \<noteq> []" and "39 \<notin> set q"
    and "sep = 46 \<or> sep = 33"
  shows "parse_address (format_address c r) = Inr (c, r) \<and>
    parse_range_string (format_address c r) = Inr ((c, r), (c, r)) \<and>
    parse_range_string (format_address c r @ [58] @ format_address c2 r2) = Inr ((c, r), (c2, r2)) \<and>
    (\<forall>s i k. parse_address s = Inr (i, k) \<longrightarrow> 0 \<le> i \<and> 0 \<le> k \<and>
       (\<exists>col row. upper (strip s) = col @ row \<and> list_all is_upper col \<and> list_all is_digit row
          \<and> format_address i k = col @ str_of_int (int (dec_val row)))) \<and>
    split_sheet_prefix (sheet @ [sep] @ format_address c r) = (Some sheet, format_address c r) \<and>
    split_sheet_prefix ([39] @ q @ [39, sep] @ format_address c r) = (Some (strip q), format_address c r) \<and>
    parse_address (sheet @ [sep] @ format_address c r) = Inl (NamesSheet sheet (format_address c r))"
proof -
  let ?a = "format_address c r" and ?b = "format_address c2 r2"
  note a = format_parts [OF assms(1,2)] and b = format_parts [OF assms(3,4)]
  note pa = format_plain [OF assms(1,2)] and pb = format_plain [OF assms(3,4)]
  have ne: "column_letters (c + 1) \<noteq> []" "column_letters (c2 + 1) \<noteq> []"
    using assms by (simp_all add: column_letters_ne)
  have ma: "match_cell (?a @ rest) = Some (column_letters (c + 1), dec_digits (nat (r + 1)), rest)"
    if "rest = [] \<or> \<not> is_digit (hd rest)" for rest
    unfolding a(1) append_assoc
    by (rule match_cell_append) (use that ne in \<open>simp_all add: column_letters_upper dec_digits_digit\<close>)
  have mb: "match_cell ?b = Some (column_letters (c2 + 1), dec_digits (nat (r2 + 1)), [])"
    using match_cell_append [of "column_letters (c2 + 1)" "dec_digits (nat (r2 + 1))" "[]"] ne
    unfolding b(1) by (simp add: column_letters_upper dec_digits_digit)
  have plain: "split_sheet_prefix ?a = (None, ?a)" "upper (strip ?a) = ?a"
    "split_sheet_prefix (?a @ 58 # ?b) = (None, ?a @ 58 # ?b)"
    "upper (strip (?a @ 58 # ?b)) = ?a @ 58 # ?b"
    using plain_upper [of ?a] plain_upper [of "?a @ 58 # ?b"] pa pb by (auto simp: list_all_iff)
  have "parse_address ?a = Inr (c, r)"
    using ma [of "[]"] a(2) by (simp add: parse_address_def plain Let_def)
  moreover have "parse_range_string ?a = Inr ((c, r), (c, r))"
    using ma [of "[]"] a(2) by (simp add: parse_range_string_def plain Let_def)
  moreover have "parse_range_string (?a @ [58] @ ?b) = Inr ((c, r), (c2, r2))"
    using ma [of "58 # ?b"] mb a(2) b(2)
    by (simp add: parse_range_string_def plain is_digit_def Let_def)
  moreover have a_ok: "?a \<noteq> []" "list_all (\<lambda>c. \<not> is_space c) ?a"
    using ne pa by (simp add: a(1)) (use pa in \<open>auto simp: list_all_iff dest: upper_no_sep digit_no_sep\<close>)
  moreover have "split_sheet_prefix (sheet @ [sep] @ ?a) = (Some sheet, ?a)"
    by (rule split_bare_sheet [OF assms(5,6,9) a_ok])
  moreover from this have "parse_address (sheet @ [sep] @ ?a) = Inl (NamesSheet sheet ?a)"
    by (simp add: parse_address_def)
  moreover have "split_sheet_prefix ([39] @ q @ [39, sep] @ ?a) = (Some (strip q), ?a)"
    by (rule split_quoted_sheet [OF assms(7,8,9) a_ok])
  ultimately show ?thesis using parse_then_format by blast
qed

theorem address_round_trip_witness:
  "parse_range_string (format_address 0 0 @ [58] @ format_address 27 9) = Inr ((0, 0), (27, 9)) \<and>
   parse_address (u ''Sheet1'' @ [46] @ format_address 0 0) = Inl (NamesSheet (u ''Sheet1'') (format_address 0 0))"
proof -
  have "list_all (\<lambda>x. name_char x \<and> \<not> is_space x) (u ''Sheet1'')"
    by (simp add: u_def name_char_def is_space_def)
  moreover have "39 \<notin> set (u ''a b'')" by (simp add: u_def)
  ultimately show ?thesis using address_round_trip [of 0 0 27 9 "u ''Sheet1''" "u ''a b''" 46] by simp
qed

end
