(* ===== verification/WordDiff.thy ===== *)
theory WordDiff
  imports Prelude PyStr "HOL-Library.Product_Lexorder" Complex_Main
begin

text \<open>
  The word-level splitter of tracked changes (\<open>plugin/writer/word_diff_split.py\<close>): the tokens
  of a text, the changed fraction, and the sub-edits that turn the old text into the new one.
  \<open>difflib.SequenceMatcher\<close> (with \<open>autojunk=False\<close> and no junk) is modelled as the standard
  library documents and implements it; the change fraction is a rational where Python has a float.
\<close>

subsection \<open>Tokens\<close>

record token =
  tk_text :: pystr
  tk_start :: nat
  tk_end :: nat
  is_word :: bool

text \<open>The loop of \<open>tokenize\<close> from offset \<open>i\<close>, whose rest of the text is the second
  argument.\<close>

function tokenize_at :: "nat \<Rightarrow> pystr \<Rightarrow> token list" where
  "tokenize_at i [] = []"
| "tokenize_at i (c # cs) =
     (let w = (\<not> is_space c);
          run = c # takeWhile (\<lambda>d. (\<not> is_space d) = w) cs
      in \<lparr>tk_text = run, tk_start = i, tk_end = i + length run, is_word = w\<rparr>
         # tokenize_at (i + length run) (dropWhile (\<lambda>d. (\<not> is_space d) = w) cs))"
  by pat_completeness auto
termination
  by (relation "measure (length \<circ> snd)") (auto simp: le_imp_less_Suc length_dropWhile_le)

definition tokenize :: "pystr \<Rightarrow> token list" where
  "tokenize s = tokenize_at 0 s"

definition word_tokens :: "token list \<Rightarrow> token list" where
  "word_tokens ts = filter is_word ts"

subsection \<open>\<open>difflib.SequenceMatcher\<close>\<close>

text \<open>The length of the longest common prefix.\<close>

fun common_prefix :: "'a list \<Rightarrow> 'a list \<Rightarrow> nat" where
  "common_prefix (x # xs) (y # ys) = (if x = y then Suc (common_prefix xs ys) else 0)"
| "common_prefix _ _ = 0"

text \<open>\<open>find_longest_match\<close>: of the longest blocks the one that starts first in \<open>a\<close>, and of
  those the one that starts first in \<open>b\<close>.\<close>

definition find_longest_match ::
  "'a list \<Rightarrow> 'a list \<Rightarrow> nat \<Rightarrow> nat \<Rightarrow> nat \<Rightarrow> nat \<Rightarrow> nat \<times> nat \<times> nat" where
  "find_longest_match a b alo ahi blo bhi =
     fold (\<lambda>(i, j) best. case best of (bi, bj, k) \<Rightarrow>
         (let n = common_prefix (slice i ahi a) (slice j bhi b)
          in if k < n then (i, j, n) else best))
       (List.product [alo..<ahi] [blo..<bhi]) (alo, blo, 0)"

text \<open>The blocks of \<open>get_matching_blocks\<close>, sorted: those before the longest match, the match
  itself, those behind it.\<close>

lemma common_prefix_le: "common_prefix xs ys \<le> length xs" "common_prefix xs ys \<le> length ys"
  by (induction xs ys rule: common_prefix.induct) auto

lemma common_prefix_take:
  "n \<le> common_prefix xs ys \<Longrightarrow> take n xs = take n ys"
proof (induction xs ys arbitrary: n rule: common_prefix.induct)
  case (1 x xs y ys)
  then show ?case by (cases n) (auto split: if_splits)
qed auto

definition is_block :: "'a list \<Rightarrow> 'a list \<Rightarrow> nat \<Rightarrow> nat \<Rightarrow> nat \<Rightarrow> nat \<Rightarrow> nat \<times> nat \<times> nat \<Rightarrow> bool" where
  "is_block a b alo ahi blo bhi x \<longleftrightarrow> (case x of (i, j, k) \<Rightarrow>
     alo \<le> i \<and> blo \<le> j \<and> (0 < k \<longrightarrow> i + k \<le> ahi \<and> j + k \<le> bhi) \<and>
     slice i (i + k) a = slice j (j + k) b)"

lemma find_longest_match_block: "is_block a b alo ahi blo bhi (find_longest_match a b alo ahi blo bhi)"
proof -
  have "is_block a b alo ahi blo bhi
      (fold (\<lambda>(i, j) best. case best of (bi, bj, k) \<Rightarrow>
         (let n = common_prefix (slice i ahi a) (slice j bhi b)
          in if k < n then (i, j, n) else best)) ijs best)"
    if "list_all (\<lambda>(i, j). alo \<le> i \<and> blo \<le> j) ijs" and "is_block a b alo ahi blo bhi best" for ijs best
    using that
  proof (induction ijs arbitrary: best)
    case Nil
    then show ?case by simp
  next
    case (Cons ij ijs)
    obtain i j where ij: "ij = (i, j)" by (cases ij)
    let ?n = "common_prefix (slice i ahi a) (slice j bhi b)"
    have "?n \<le> ahi - i" "?n \<le> bhi - j"
      using common_prefix_le [of "slice i ahi a" "slice j bhi b"] by (simp_all add: slice_def)
    moreover have "slice i (i + ?n) a = slice j (j + ?n) b"
      using common_prefix_take [of ?n "slice i ahi a" "slice j bhi b"] calculation
      by (simp add: slice_def)
    ultimately have "0 < ?n \<Longrightarrow> is_block a b alo ahi blo bhi (i, j, ?n)"
      using Cons.prems(1) by (auto simp: is_block_def ij)
    then show ?case using Cons by (auto simp: ij Let_def split: prod.split)
  qed
  then show ?thesis
    unfolding find_longest_match_def by (auto simp: list_all_iff is_block_def slice_def)
qed

function matching_blocks :: "'a list \<Rightarrow> 'a list \<Rightarrow> nat \<Rightarrow> nat \<Rightarrow> nat \<Rightarrow> nat \<Rightarrow> (nat \<times> nat \<times> nat) list" where
  "matching_blocks a b alo ahi blo bhi =
     (case find_longest_match a b alo ahi blo bhi of (i, j, k) \<Rightarrow>
        if k = 0 then []
        else (if alo < i \<and> blo < j then matching_blocks a b alo i blo j else [])
           @ (i, j, k)
           # (if i + k < ahi \<and> j + k < bhi then matching_blocks a b (i + k) ahi (j + k) bhi else []))"
  by auto
termination
proof (relation "measure (\<lambda>(a, b, alo, ahi, blo, bhi). ahi - alo)", goal_cases)
  case 1
  show ?case by simp
next
  case (2 a b alo ahi blo bhi)
  then show ?case using find_longest_match_block [of a b alo ahi blo bhi] by (auto simp: is_block_def)
next
  case (3 a b alo ahi blo bhi)
  then show ?case using find_longest_match_block [of a b alo ahi blo bhi] by (auto simp: is_block_def)
qed

declare matching_blocks.simps [simp del]

text \<open>Adjacent blocks are merged; the block \<open>(i, j, k)\<close> is the one being collected.\<close>

fun merge_blocks :: "nat \<times> nat \<times> nat \<Rightarrow> (nat \<times> nat \<times> nat) list \<Rightarrow> (nat \<times> nat \<times> nat) list" where
  "merge_blocks (i, j, k) [] = (if k = 0 then [] else [(i, j, k)])"
| "merge_blocks (i, j, k) ((i', j', k') # bs) =
     (if i + k = i' \<and> j + k = j' then merge_blocks (i, j, k + k') bs
      else (if k = 0 then [] else [(i, j, k)]) @ merge_blocks (i', j', k') bs)"

definition get_matching_blocks :: "'a list \<Rightarrow> 'a list \<Rightarrow> (nat \<times> nat \<times> nat) list" where
  "get_matching_blocks a b =
     merge_blocks (0, 0, 0) (matching_blocks a b 0 (length a) 0 (length b)) @ [(length a, length b, 0)]"

datatype op_tag = OpReplace | OpDelete | OpInsert | OpEqual

fun opcodes_from :: "nat \<Rightarrow> nat \<Rightarrow> (nat \<times> nat \<times> nat) list \<Rightarrow> (op_tag \<times> nat \<times> nat \<times> nat \<times> nat) list" where
  "opcodes_from i j [] = []"
| "opcodes_from i j ((ai, bj, n) # bs) =
     (if i < ai \<and> j < bj then [(OpReplace, i, ai, j, bj)]
      else if i < ai then [(OpDelete, i, ai, j, bj)]
      else if j < bj then [(OpInsert, i, ai, j, bj)] else [])
     @ (if n = 0 then [] else [(OpEqual, ai, ai + n, bj, bj + n)])
     @ opcodes_from (ai + n) (bj + n) bs"

definition get_opcodes :: "'a list \<Rightarrow> 'a list \<Rightarrow> (op_tag \<times> nat \<times> nat \<times> nat \<times> nat) list" where
  "get_opcodes a b = opcodes_from 0 0 (get_matching_blocks a b)"

subsection \<open>Sub-edits\<close>

record sub_edit =
  op :: op_tag
  old_start :: nat
  old_end :: nat
  old_text :: pystr
  new_text :: pystr

datatype split_mode = Block | Surgical

record split_result =
  mode :: split_mode
  fraction_changed :: rat
  sub_edits :: "sub_edit list"

text \<open>The loops that trim common whitespace, at most \<open>limit\<close> characters.\<close>

fun common_space :: "nat \<Rightarrow> pystr \<Rightarrow> pystr \<Rightarrow> nat" where
  "common_space (Suc limit) (x # xs) (y # ys) =
     (if x = y \<and> is_space x then Suc (common_space limit xs ys) else 0)"
| "common_space _ _ _ = 0"

definition edit_op :: "pystr \<Rightarrow> pystr \<Rightarrow> op_tag" where
  "edit_op o_seg n_seg = (if o_seg = [] then OpInsert else if n_seg = [] then OpDelete else OpReplace)"

definition emit_segment :: "pystr \<Rightarrow> pystr \<Rightarrow> nat \<Rightarrow> nat \<Rightarrow> nat \<Rightarrow> nat \<Rightarrow> sub_edit list" where
  "emit_segment old new old_lo old_hi new_lo new_hi =
     (let old_seg = slice old_lo old_hi old; new_seg = slice new_lo new_hi new
      in if old_seg = new_seg then []
         else let limit = min (length old_seg) (length new_seg);
                  p = common_space limit old_seg new_seg;
                  s = common_space (limit - p) (rev old_seg) (rev new_seg);
                  o' = slice (old_lo + p) (old_hi - s) old;
                  n' = slice (new_lo + p) (new_hi - s) new
              in if o' = [] \<and> n' = [] then []
                 else [\<lparr>op = edit_op o' n', old_start = old_lo + p, old_end = old_hi - s,
                        old_text = o', new_text = n'\<rparr>])"

definition anchors_of :: "(op_tag \<times> nat \<times> nat \<times> nat \<times> nat) list \<Rightarrow> (nat \<times> nat) list" where
  "anchors_of ops = concat (map (\<lambda>(tag, i1, i2, j1, j2).
     if tag = OpEqual then map (\<lambda>d. (i1 + d, j1 + d)) [0..<i2 - i1] else []) ops)"

fun emit_segments ::
  "pystr \<Rightarrow> pystr \<Rightarrow> token list \<Rightarrow> token list \<Rightarrow> nat \<Rightarrow> nat \<Rightarrow> (nat \<times> nat) list \<Rightarrow> sub_edit list" where
  "emit_segments old new ows nws prev_old prev_new [] =
     emit_segment old new prev_old (length old) prev_new (length new)"
| "emit_segments old new ows nws prev_old prev_new ((oi, nj) # anchors) =
     emit_segment old new prev_old (tk_start (ows ! oi)) prev_new (tk_start (nws ! nj))
     @ emit_segments old new ows nws (tk_end (ows ! oi)) (tk_end (nws ! nj)) anchors"

definition sort_edits :: "sub_edit list \<Rightarrow> sub_edit list" where
  "sort_edits es = sort_key (\<lambda>e. (old_start e, old_end e)) es"

definition build_surgical_edits ::
  "pystr \<Rightarrow> pystr \<Rightarrow> token list \<Rightarrow> token list \<Rightarrow> (op_tag \<times> nat \<times> nat \<times> nat \<times> nat) list \<Rightarrow> sub_edit list" where
  "build_surgical_edits old new ows nws ops =
     sort_edits (emit_segments old new ows nws 0 0 (anchors_of ops))"

subsection \<open>The decision\<close>

text \<open>Unchanged and changed words of the opcodes.\<close>

fun count_words :: "(op_tag \<times> nat \<times> nat \<times> nat \<times> nat) list \<Rightarrow> nat \<times> nat" where
  "count_words [] = (0, 0)"
| "count_words ((tag, i1, i2, j1, j2) # ops) =
     (case count_words ops of (unchanged, changed) \<Rightarrow>
       (case tag of
          OpEqual \<Rightarrow> (unchanged + (i2 - i1), changed)
        | OpReplace \<Rightarrow> (unchanged, changed + (i2 - i1) + (j2 - j1))
        | OpDelete \<Rightarrow> (unchanged, changed + (i2 - i1))
        | OpInsert \<Rightarrow> (unchanged, changed + (j2 - j1))))"

definition change_fraction :: "(op_tag \<times> nat \<times> nat \<times> nat \<times> nat) list \<Rightarrow> rat" where
  "change_fraction ops =
     (case count_words ops of (unchanged, changed) \<Rightarrow>
        if unchanged + changed = 0 then 0 else of_nat changed / of_nat (unchanged + changed))"

definition split_change :: "pystr \<Rightarrow> pystr \<Rightarrow> rat \<Rightarrow> split_result" where
  "split_change old new threshold =
     (let old_words = word_tokens (tokenize old);
          new_words = word_tokens (tokenize new);
          opcodes = get_opcodes (map tk_text old_words) (map tk_text new_words);
          fraction = change_fraction opcodes;
          force_block = (threshold \<le> 0 \<and> old \<noteq> new)
      in if force_block \<or> fraction > threshold
         then \<lparr>mode = Block, fraction_changed = fraction,
               sub_edits = [\<lparr>op = edit_op old new, old_start = 0, old_end = length old,
                             old_text = old, new_text = new\<rparr>]\<rparr>
         else \<lparr>mode = Surgical, fraction_changed = fraction,
               sub_edits = build_surgical_edits old new old_words new_words opcodes\<rparr>)"

definition apply_sub_edits :: "pystr \<Rightarrow> sub_edit list \<Rightarrow> pystr" where
  "apply_sub_edits old es =
     (case fold (\<lambda>e (out, cursor). (out @ slice cursor (old_start e) old @ new_text e, old_end e))
        (sort_edits es) ([], 0) of (out, cursor) \<Rightarrow> out @ drop cursor old)"

subsection \<open>Blocks and anchors\<close>

text \<open>Blocks in order, disjoint on both sides and equal: what the opcodes are read off.\<close>

fun chain :: "'a list \<Rightarrow> 'a list \<Rightarrow> nat \<Rightarrow> nat \<Rightarrow> nat \<Rightarrow> nat \<Rightarrow> (nat \<times> nat \<times> nat) list \<Rightarrow> bool" where
  "chain a b i j ahi bhi [] \<longleftrightarrow> i \<le> ahi \<and> j \<le> bhi"
| "chain a b i j ahi bhi ((ai, bj, k) # bs) \<longleftrightarrow> i \<le> ai \<and> j \<le> bj \<and>
     slice ai (ai + k) a = slice bj (bj + k) b \<and> chain a b (ai + k) (bj + k) ahi bhi bs"

lemma chain_append:
  "chain a b i j m n xs \<Longrightarrow> chain a b m n ahi bhi ys \<Longrightarrow> chain a b i j ahi bhi (xs @ ys)"
proof (induction xs arbitrary: i j)
  case Nil
  then show ?case by (cases ys) auto
qed auto

lemma chain_weaken: "chain a b i j ahi bhi bs \<Longrightarrow> i' \<le> i \<Longrightarrow> j' \<le> j \<Longrightarrow> chain a b i' j' ahi bhi bs"
  by (cases bs) auto

lemma chain_le: "chain a b i j ahi bhi bs \<Longrightarrow> i \<le> ahi \<and> j \<le> bhi"
  by (induction bs arbitrary: i j) force+

lemma matching_blocks_chain:
  "alo \<le> ahi \<Longrightarrow> blo \<le> bhi \<Longrightarrow> chain a b alo blo ahi bhi (matching_blocks a b alo ahi blo bhi)"
proof (induction a b alo ahi blo bhi rule: matching_blocks.induct)
  case (1 a b alo ahi blo bhi)
  obtain i j k where m: "find_longest_match a b alo ahi blo bhi = (i, j, k)" by (metis surj_pair)
  show ?case
  proof (cases "k = 0")
    case True
    with m "1.prems" show ?thesis by (simp add: matching_blocks.simps)
  next
    case False
    then have bl: "alo \<le> i" "blo \<le> j" "i + k \<le> ahi" "j + k \<le> bhi"
      "slice i (i + k) a = slice j (j + k) b"
      using find_longest_match_block [of a b alo ahi blo bhi] m by (auto simp: is_block_def)
    have "chain a b alo blo i j (if alo < i \<and> blo < j then matching_blocks a b alo i blo j else [])"
      using "1.IH"(1) [OF m [symmetric] refl False] bl by (auto simp: m)
    moreover have "chain a b (i + k) (j + k) ahi bhi
        (if i + k < ahi \<and> j + k < bhi then matching_blocks a b (i + k) ahi (j + k) bhi else [])"
      using "1.IH"(2) [OF m [symmetric] refl False] bl by (auto simp: m)
    ultimately show ?thesis using bl False
      by (subst matching_blocks.simps) (auto simp: m intro!: chain_append)
  qed
qed

lemma merge_blocks_chain:
  "chain a b i0 j0 ahi bhi (x # bs) \<Longrightarrow> chain a b i0 j0 ahi bhi (merge_blocks x bs)"
proof (induction x bs arbitrary: i0 j0 rule: merge_blocks.induct)
  case (1 i j k)
  then show ?case by auto
next
  case (2 i j k i' j' k' bs)
  show ?case
  proof (cases "i + k = i' \<and> j + k = j'")
    case True
    then have i': "i' = i + k" and j': "j' = j + k" by simp_all
    have "slice i (i + k + k') a = slice j (j + k + k') b"
      using "2.prems" slice_append [of i "i + k" "i + k + k'" a] slice_append [of j "j + k" "j + k + k'" b]
      by (simp add: i' j')
    then have "chain a b i0 j0 ahi bhi ((i, j, k + k') # bs)"
      using "2.prems" by (simp add: i' j' add.assoc)
    then show ?thesis using "2.IH"(1) [OF True] True by simp
  next
    case False
    with 2 have "chain a b (i + k) (j + k) ahi bhi (merge_blocks (i', j', k') bs)" by auto
    with False "2.prems" show ?thesis
      using chain_weaken [of a b "i + k" "j + k" ahi bhi "merge_blocks (i', j', k') bs" i0 j0] by auto
  qed
qed

lemma get_matching_blocks_chain:
  "chain a b 0 0 (length a) (length b) (get_matching_blocks a b)"
  unfolding get_matching_blocks_def
  by (intro chain_append [of _ _ _ _ "length a" "length b"] merge_blocks_chain)
    (use matching_blocks_chain [of 0 "length a" 0 "length b" a b] in \<open>simp_all add: slice_def\<close>)

text \<open>Matched words: pairs of positions that grow on both sides and hold the same word.\<close>

fun anchored :: "'a list \<Rightarrow> 'a list \<Rightarrow> nat \<Rightarrow> nat \<Rightarrow> (nat \<times> nat) list \<Rightarrow> bool" where
  "anchored a b i j [] \<longleftrightarrow> True"
| "anchored a b i j ((x, y) # ps) \<longleftrightarrow> i \<le> x \<and> j \<le> y \<and> x < length a \<and> y < length b \<and> a ! x = b ! y
     \<and> anchored a b (Suc x) (Suc y) ps"

lemma anchored_weaken: "anchored a b i j ps \<Longrightarrow> i' \<le> i \<Longrightarrow> j' \<le> j \<Longrightarrow> anchored a b i' j' ps"
  by (cases ps) auto

lemma slice_Suc: "i < length xs \<Longrightarrow> slice i (Suc (i + n)) xs = xs ! i # slice (Suc i) (Suc i + n) xs"
  by (simp add: slice_def Cons_nth_drop_Suc [symmetric] del: drop_Suc_Cons)

lemma anchored_block:
  assumes "slice i (i + n) a = slice j (j + n) b" and "i + n \<le> length a" and "j + n \<le> length b"
    and "anchored a b (i + n) (j + n) ps"
  shows "anchored a b i j (map (\<lambda>d. (i + d, j + d)) [0..<n] @ ps)"
  using assms
proof (induction n arbitrary: i j)
  case 0
  then show ?case by simp
next
  case (Suc n)
  then have eq: "a ! i = b ! j" "slice (Suc i) (Suc i + n) a = slice (Suc j) (Suc j + n) b"
    by (simp_all add: slice_Suc)
  have "map (\<lambda>d. (i + d, j + d)) [0..<Suc n] = (i, j) # map (\<lambda>d. (Suc i + d, Suc j + d)) [0..<n]"
    by (simp add: upt_conv_Cons map_Suc_upt [symmetric] comp_def del: upt_Suc)
  then show ?case using Suc.IH [OF eq(2)] Suc.prems eq(1) by (simp del: upt_Suc)
qed

lemma anchors_of_append: "anchors_of (xs @ ys) = anchors_of xs @ anchors_of ys"
  by (simp add: anchors_of_def)

lemma anchors_anchored:
  "chain a b i j (length a) (length b) bs \<Longrightarrow> anchored a b i j (anchors_of (opcodes_from i j bs))"
proof (induction bs arbitrary: i j)
  case Nil
  then show ?case by (simp add: anchors_of_def)
next
  case (Cons x bs)
  obtain ai bj n where x: "x = (ai, bj, n)" by (cases x)
  have c: "i \<le> ai" "j \<le> bj" "slice ai (ai + n) a = slice bj (bj + n) b"
    "chain a b (ai + n) (bj + n) (length a) (length b) bs"
    using Cons.prems by (simp_all add: x)
  have "anchored a b ai bj (map (\<lambda>d. (ai + d, bj + d)) [0..<n] @
      anchors_of (opcodes_from (ai + n) (bj + n) bs))"
    using Cons.IH [OF c(4)] chain_le [OF c(4)] c(3) by (intro anchored_block) simp_all
  moreover have "anchors_of (opcodes_from i j (x # bs)) = map (\<lambda>d. (ai + d, bj + d)) [0..<n] @
      anchors_of (opcodes_from (ai + n) (bj + n) bs)"
    by (simp add: x anchors_of_append) (simp add: anchors_of_def)
  ultimately show ?case using anchored_weaken c(1,2) by metis
qed

lemma anchored_get_opcodes: "anchored a b 0 0 (anchors_of (get_opcodes a b))"
  unfolding get_opcodes_def by (rule anchors_anchored [OF get_matching_blocks_chain])

subsection \<open>Words and their offsets\<close>

fun tokens_from :: "pystr \<Rightarrow> nat \<Rightarrow> token list \<Rightarrow> bool" where
  "tokens_from s i [] \<longleftrightarrow> i \<le> length s"
| "tokens_from s i (t # ts) \<longleftrightarrow> i \<le> tk_start t \<and> tk_start t < tk_end t \<and>
     tk_text t = slice (tk_start t) (tk_end t) s \<and> tokens_from s (tk_end t) ts"

lemma tokens_from_le: "tokens_from s i ts \<Longrightarrow> i \<le> length s"
  by (induction ts arbitrary: i) force+

lemma tokens_from_weaken: "tokens_from s i ts \<Longrightarrow> j \<le> i \<Longrightarrow> tokens_from s j ts"
  by (cases ts) auto

lemma tokens_from_filter: "tokens_from s i ts \<Longrightarrow> tokens_from s i (filter P ts)"
proof (induction ts arbitrary: i)
  case Nil
  then show ?case by simp
next
  case (Cons t ts)
  then have "tokens_from s (tk_end t) (filter P ts)" "i \<le> tk_end t" by simp_all
  with Cons.prems show ?case using tokens_from_weaken by auto
qed

lemma tokenize_at_tokens:
  "drop i s = r \<Longrightarrow> i \<le> length s \<Longrightarrow>
     tokens_from s i (tokenize_at i r) \<and> concat (map tk_text (tokenize_at i r)) = r"
proof (induction i r rule: tokenize_at.induct)
  case (1 i)
  then show ?case by simp
next
  case (2 i c cs)
  define w where "w = (\<not> is_space c)"
  define run where "run = c # takeWhile (\<lambda>d. (\<not> is_space d) = w) cs"
  define rest where "rest = dropWhile (\<lambda>d. (\<not> is_space d) = w) cs"
  have r: "c # cs = run @ rest" by (simp add: run_def rest_def)
  have "drop (i + length run) s = drop (length run) (drop i s)" by (simp add: add.commute)
  also have "\<dots> = rest" using "2.prems"(1) r by simp
  finally have d: "drop (i + length run) s = rest" .
  have l: "i + length run \<le> length s"
    using arg_cong [OF "2.prems"(1), of length] r "2.prems"(2) by simp
  have ih: "tokens_from s (i + length run) (tokenize_at (i + length run) rest)"
    "concat (map tk_text (tokenize_at (i + length run) rest)) = rest"
    using "2.IH" [OF w_def run_def] d l by (simp_all add: rest_def)
  have "slice i (i + length run) s = run" using "2.prems"(1) r by (simp add: slice_def)
  moreover have "tokenize_at i (c # cs) = \<lparr>tk_text = run, tk_start = i, tk_end = i + length run, is_word = w\<rparr>
      # tokenize_at (i + length run) rest"
    by (simp add: w_def run_def rest_def)
  moreover have "0 < length run" by (simp add: run_def)
  ultimately show ?case using ih r by (simp del: tokenize_at.simps)
qed

lemma words_from: "tokens_from s 0 (word_tokens (tokenize s))"
  using tokenize_at_tokens [of 0 s s] tokens_from_filter by (simp add: word_tokens_def tokenize_def)

lemma tokens_from_nth:
  "tokens_from s i ts \<Longrightarrow> k < length ts \<Longrightarrow> i \<le> tk_start (ts ! k) \<and> tk_start (ts ! k) < tk_end (ts ! k)
     \<and> tk_end (ts ! k) \<le> length s \<and> tk_text (ts ! k) = slice (tk_start (ts ! k)) (tk_end (ts ! k)) s
     \<and> tokens_from s (tk_end (ts ! k)) (drop (Suc k) ts)"
proof (induction ts arbitrary: i k)
  case Nil
  then show ?case by simp
next
  case (Cons t ts)
  show ?case
  proof (cases k)
    case 0
    then show ?thesis using Cons.prems tokens_from_le by auto
  next
    case (Suc j)
    then show ?thesis using Cons.IH [of "tk_end t" j] Cons.prems by auto
  qed
qed

text \<open>The words from position \<open>i\<close> on start at or behind offset \<open>p\<close>.\<close>

definition words_behind :: "pystr \<Rightarrow> token list \<Rightarrow> nat \<Rightarrow> nat \<Rightarrow> bool" where
  "words_behind s ts i p \<longleftrightarrow> tokens_from s p (drop i ts)"

lemma words_behind_step:
  assumes "words_behind s ts i p" and "i \<le> k" and "k < length ts"
  shows "p \<le> tk_start (ts ! k) \<and> tk_start (ts ! k) < tk_end (ts ! k) \<and> tk_end (ts ! k) \<le> length s
    \<and> tk_text (ts ! k) = slice (tk_start (ts ! k)) (tk_end (ts ! k)) s
    \<and> words_behind s ts (Suc k) (tk_end (ts ! k))"
  using tokens_from_nth [of s p "drop i ts" "k - i"] assms by (simp add: words_behind_def)

subsection \<open>Edits in order\<close>

fun edits_from :: "pystr \<Rightarrow> nat \<Rightarrow> sub_edit list \<Rightarrow> bool" where
  "edits_from old i [] \<longleftrightarrow> i \<le> length old"
| "edits_from old i (e # es) \<longleftrightarrow> i \<le> old_start e \<and> old_start e \<le> old_end e \<and>
     old_text e = slice (old_start e) (old_end e) old \<and> op e = edit_op (old_text e) (new_text e) \<and>
     old_text e \<noteq> new_text e \<and> edits_from old (old_end e) es"

fun apply_from :: "pystr \<Rightarrow> nat \<Rightarrow> sub_edit list \<Rightarrow> pystr" where
  "apply_from old c [] = drop c old"
| "apply_from old c (e # es) = slice c (old_start e) old @ new_text e @ apply_from old (old_end e) es"

lemma edits_from_le: "edits_from old i es \<Longrightarrow> i \<le> length old"
  by (induction es arbitrary: i) force+

lemma edits_from_weaken: "edits_from old i es \<Longrightarrow> j \<le> i \<Longrightarrow> edits_from old j es"
  by (cases es) auto

lemma apply_from_earlier:
  "edits_from old i es \<Longrightarrow> c \<le> i \<Longrightarrow> apply_from old c es = slice c i old @ apply_from old i es"
proof (cases es)
  case Nil
  assume "edits_from old i es" "c \<le> i"
  then show ?thesis using slice_to_end [of c i old] by (simp add: Nil)
next
  case (Cons e es')
  assume "edits_from old i es" "c \<le> i"
  then show ?thesis using slice_append [of c i "old_start e" old] by (simp add: Cons)
qed

lemma edits_from_starts:
  "edits_from old i es \<Longrightarrow> e \<in> set es \<Longrightarrow> i \<le> old_start e \<and> old_start e \<le> old_end e"
  by (induction es arbitrary: i) force+

lemma edits_from_sorted: "edits_from old i es \<Longrightarrow> sorted (map (\<lambda>e. (old_start e, old_end e)) es)"
proof (induction es arbitrary: i)
  case Nil
  then show ?case by simp
next
  case (Cons e es)
  have "(old_start e, old_end e) \<le> (old_start x, old_end x)" if "x \<in> set es" for x
    using edits_from_starts [of old "old_end e" es x] that Cons.prems by (auto simp: less_eq_prod_def)
  with Cons show ?case by auto
qed

lemma sort_edits_id: "edits_from old i es \<Longrightarrow> sort_edits es = es"
  unfolding sort_edits_def by (rule sort_key_id_if_sorted) (rule edits_from_sorted)

lemma apply_sub_edits_from: "edits_from old 0 es \<Longrightarrow> apply_sub_edits old es = apply_from old 0 es"
proof -
  have "(case fold (\<lambda>e (out, cursor). (out @ slice cursor (old_start e) old @ new_text e, old_end e))
      es (out, c) of (out, cursor) \<Rightarrow> out @ drop cursor old) = out @ apply_from old c es" for out c
    by (induction es arbitrary: out c) simp_all
  from this [of "[]" 0] show "edits_from old 0 es \<Longrightarrow> apply_sub_edits old es = apply_from old 0 es"
    by (simp add: apply_sub_edits_def sort_edits_id)
qed

subsection \<open>Segments\<close>

lemma common_space_facts:
  "common_space l xs ys \<le> l \<and> common_space l xs ys \<le> length xs \<and> common_space l xs ys \<le> length ys
   \<and> take (common_space l xs ys) xs = take (common_space l xs ys) ys"
  by (induction l xs ys rule: common_space.induct) auto

lemma common_space_stops:
  "common_space l xs ys < l \<Longrightarrow> common_space l xs ys < length xs \<Longrightarrow> common_space l xs ys < length ys \<Longrightarrow>
   \<not> (xs ! common_space l xs ys = ys ! common_space l xs ys \<and> is_space (xs ! common_space l xs ys))"
  by (induction l xs ys rule: common_space.induct) auto

definition tight :: "pystr \<Rightarrow> pystr \<Rightarrow> bool" where
  "tight o' n' \<longleftrightarrow> o' = [] \<or> n' = [] \<or>
     \<not> (hd o' = hd n' \<and> is_space (hd o')) \<and> \<not> (last o' = last n' \<and> is_space (last o'))"

text \<open>Trimming splits both texts into a common start, what is left, and a common end.\<close>

lemma trim_facts:
  fixes o_seg n_seg :: pystr
  defines "p \<equiv> common_space (min (length o_seg) (length n_seg)) o_seg n_seg"
  defines "s \<equiv> common_space (min (length o_seg) (length n_seg) - p) (rev o_seg) (rev n_seg)"
  defines "o' \<equiv> slice p (length o_seg - s) o_seg"
  defines "n' \<equiv> slice p (length n_seg - s) n_seg"
  shows "p + s \<le> length o_seg" and "p + s \<le> length n_seg"
    and "o_seg = take p o_seg @ o' @ drop (length o_seg - s) o_seg"
    and "n_seg = take p o_seg @ n' @ drop (length o_seg - s) o_seg"
    and "tight o' n'"
proof -
  note f = common_space_facts [of "min (length o_seg) (length n_seg)" o_seg n_seg, folded p_def]
  note g = common_space_facts [of "min (length o_seg) (length n_seg) - p" "rev o_seg" "rev n_seg", folded s_def]
  show l: "p + s \<le> length o_seg" "p + s \<le> length n_seg" using f g by auto
  have sp: "xs = take p xs @ slice p (length xs - s) xs @ drop (length xs - s) xs"
    if "p + s \<le> length xs" for xs :: pystr
    using that slice_to_end [of p "length xs - s" xs] by simp
  show "o_seg = take p o_seg @ o' @ drop (length o_seg - s) o_seg"
    unfolding o'_def by (rule sp [OF l(1)])
  have "drop (length o_seg - s) o_seg = drop (length n_seg - s) n_seg"
    using g by (metis rev_rev_ident rev_take length_rev)
  then show "n_seg = take p o_seg @ n' @ drop (length o_seg - s) o_seg"
    using sp [OF l(2)] f by (simp add: n'_def)
  have lo: "length o' = length o_seg - s - p" "length n' = length n_seg - s - p"
    using l by (simp_all add: o'_def n'_def slice_def)
  show "tight o' n'"
  proof (cases "o' = [] \<or> n' = []")
    case True
    then show ?thesis by (auto simp: tight_def)
  next
    case False
    then have "0 < length o'" "0 < length n'" by simp_all
    then have ne: "p + s < length o_seg" "p + s < length n_seg" using lo by linarith+
    have "hd o' = o_seg ! p" "hd n' = n_seg ! p"
      using False ne by (simp_all add: o'_def n'_def slice_def hd_conv_nth)
    moreover have "last o' = rev o_seg ! s" "last n' = rev n_seg ! s"
      using False ne lo l by (simp_all add: o'_def n'_def slice_def last_conv_nth rev_nth)
    moreover have "\<not> (o_seg ! p = n_seg ! p \<and> is_space (o_seg ! p))"
      using common_space_stops [of "min (length o_seg) (length n_seg)" o_seg n_seg, folded p_def] ne by simp
    moreover have "\<not> (rev o_seg ! s = rev n_seg ! s \<and> is_space (rev o_seg ! s))"
      using common_space_stops [of "min (length o_seg) (length n_seg) - p" "rev o_seg" "rev n_seg", folded s_def]
        ne by simp
    ultimately show ?thesis by (simp add: tight_def)
  qed
qed

lemma slice_sub:
  assumes "lo + q \<le> hi - r" and "hi \<le> length xs"
  shows "slice (lo + q) (hi - r) xs = slice q (length (slice lo hi xs) - r) (slice lo hi xs)"
proof -
  have "q + (hi - r - (lo + q)) \<le> hi - lo" "lo + q + (hi - r - (lo + q)) = hi - r"
    "length (slice lo hi xs) - r = q + (hi - r - (lo + q))"
    using assms by (auto simp: length_slice)
  then show ?thesis by (metis slice_slice)
qed

definition edit_tight :: "sub_edit \<Rightarrow> bool" where
  "edit_tight e \<longleftrightarrow> tight (old_text e) (new_text e)"

lemma emit_segment_facts:
  assumes "ol \<le> oh" and "oh \<le> length old" and "na \<le> nb" and "nb \<le> length new"
    and "edits_from old oh es"
  shows "edits_from old ol (emit_segment old new ol oh na nb @ es)"
    and "apply_from old ol (emit_segment old new ol oh na nb @ es) = slice na nb new @ apply_from old oh es"
    and "list_all edit_tight (emit_segment old new ol oh na nb)"
proof -
  let ?o = "slice ol oh old" and ?n = "slice na nb new"
  define p where "p = common_space (min (length ?o) (length ?n)) ?o ?n"
  define s where "s = common_space (min (length ?o) (length ?n) - p) (rev ?o) (rev ?n)"
  define o' where "o' = slice p (length ?o - s) ?o"
  define n' where "n' = slice p (length ?n - s) ?n"
  note t = trim_facts [where o_seg = ?o and n_seg = ?n, folded p_def, folded s_def, folded o'_def n'_def]
  have len: "length ?o = oh - ol" "length ?n = nb - na" using assms by (simp_all add: slice_def)
  have bd: "ol + p \<le> oh - s" "na + p \<le> nb - s" "s \<le> oh - ol" using t(1,2) len assms by linarith+
  have sl: "slice (ol + p) (oh - s) old = o'" "slice (na + p) (nb - s) new = n'"
    using slice_sub [OF bd(1) assms(2)] slice_sub [OF bd(2) assms(4)] by (simp_all add: o'_def n'_def)
  have ne: "?o \<noteq> ?n \<Longrightarrow> o' \<noteq> n'" using t(3,4) by metis
  have em: "emit_segment old new ol oh na nb = (if ?o = ?n then []
      else [\<lparr>op = edit_op o' n', old_start = ol + p, old_end = oh - s, old_text = o', new_text = n'\<rparr>])"
    using ne unfolding emit_segment_def Let_def p_def [symmetric] s_def [symmetric] sl by auto
  have e: "edits_from old (oh - s) es" using assms(5) by (rule edits_from_weaken) simp
  show "edits_from old ol (emit_segment old new ol oh na nb @ es)"
    using e ne bd edits_from_weaken [OF assms(5,1)] by (simp add: em sl)
  show "list_all edit_tight (emit_segment old new ol oh na nb)"
    using t(5) by (simp add: em edit_tight_def)
  show "apply_from old ol (emit_segment old new ol oh na nb @ es) = ?n @ apply_from old oh es"
  proof (cases "?o = ?n")
    case True
    then show ?thesis using apply_from_earlier [OF assms(5,1)] by (simp add: em)
  next
    case False
    have "slice ol (ol + p) old = take p ?o" using bd t(1) len by (simp add: slice_def)
    moreover have "slice (oh - s) oh old = drop (length ?o - s) ?o"
      using bd t(1) len assms(1,2) by (simp add: slice_def drop_take)
    moreover have "apply_from old (oh - s) es = slice (oh - s) oh old @ apply_from old oh es"
      by (rule apply_from_earlier [OF assms(5)]) simp
    ultimately show ?thesis using False t(4) by (simp add: em)
  qed
qed

lemma emit_segments_facts:
  assumes "anchored (map tk_text ows) (map tk_text nws) i j anchors"
    and "words_behind old ows i po" and "words_behind new nws j pn"
    and "po \<le> length old" and "pn \<le> length new"
  shows "edits_from old po (emit_segments old new ows nws po pn anchors)
    \<and> apply_from old po (emit_segments old new ows nws po pn anchors) = drop pn new
    \<and> list_all edit_tight (emit_segments old new ows nws po pn anchors)"
  using assms
proof (induction anchors arbitrary: i j po pn)
  case Nil
  then show ?case using emit_segment_facts [of po "length old" old pn "length new" new "[]"]
    by (simp add: slice_drop)
next
  case (Cons xy anchors)
  obtain x y where xy: "xy = (x, y)" by (cases xy)
  let ?ow = "ows ! x" and ?nw = "nws ! y"
  have a: "i \<le> x" "j \<le> y" "x < length ows" "y < length nws" "tk_text ?ow = tk_text ?nw"
    "anchored (map tk_text ows) (map tk_text nws) (Suc x) (Suc y) anchors"
    using Cons.prems(1) by (auto simp: xy)
  note w = words_behind_step [OF Cons.prems(2) a(1,3)] words_behind_step [OF Cons.prems(3) a(2,4)]
  define es where "es = emit_segments old new ows nws (tk_end ?ow) (tk_end ?nw) anchors"
  have ih: "edits_from old (tk_end ?ow) es" "apply_from old (tk_end ?ow) es = drop (tk_end ?nw) new"
    "list_all edit_tight es"
    using Cons.IH [OF a(6)] w by (simp_all add: es_def)
  have es: "edits_from old (tk_start ?ow) es" by (rule edits_from_weaken [OF ih(1)]) (use w in simp)
  have "apply_from old (tk_start ?ow) es = tk_text ?ow @ drop (tk_end ?nw) new"
    using apply_from_earlier [OF ih(1), of "tk_start ?ow"] w ih(2) by simp
  also have "\<dots> = drop (tk_start ?nw) new"
    using a(5) w slice_to_end [of "tk_start ?nw" "tk_end ?nw" new] by simp
  finally have ap: "apply_from old (tk_start ?ow) es = drop (tk_start ?nw) new" .
  have le: "po \<le> tk_start ?ow" "tk_start ?ow \<le> length old" "pn \<le> tk_start ?nw" "tk_start ?nw \<le> length new"
    using w by auto
  note f = emit_segment_facts [OF le es]
  have "slice pn (tk_start ?nw) new @ drop (tk_start ?nw) new = drop pn new"
    by (rule slice_to_end [OF le(3)])
  then show ?case using f ap ih(3) by (simp add: xy es_def)
qed

lemma surgical_facts:
  fixes old new :: pystr
  defines "ws \<equiv> \<lambda>s. word_tokens (tokenize s)"
  defines "es \<equiv> build_surgical_edits old new (ws old) (ws new)
    (get_opcodes (map tk_text (ws old)) (map tk_text (ws new)))"
  shows "edits_from old 0 es" and "apply_sub_edits old es = new" and "list_all edit_tight es"
proof -
  let ?raw = "emit_segments old new (ws old) (ws new) 0 0
    (anchors_of (get_opcodes (map tk_text (ws old)) (map tk_text (ws new))))"
  have f: "edits_from old 0 ?raw" "apply_from old 0 ?raw = new" "list_all edit_tight ?raw"
    using emit_segments_facts [OF anchored_get_opcodes] words_from
    by (simp_all add: words_behind_def ws_def)
  have "es = ?raw" using sort_edits_id [OF f(1)] by (simp add: es_def build_surgical_edits_def)
  with f show "edits_from old 0 es" "apply_sub_edits old es = new" "list_all edit_tight es"
    using apply_sub_edits_from by simp_all
qed

subsection \<open>The changed fraction\<close>

text \<open>Every word of both sides is counted: the unchanged once for both sides, the changed each on
  its side.\<close>

lemma count_words_append:
  "count_words (xs @ ys) = (case (count_words xs, count_words ys) of ((u1, c1), (u2, c2)) \<Rightarrow> (u1 + u2, c1 + c2))"
  by (induction xs rule: count_words.induct) (auto split: prod.split op_tag.split)

lemma count_opcodes:
  "chain a b i j la lb (bs @ [(la, lb, 0)]) \<Longrightarrow>
     (case count_words (opcodes_from i j (bs @ [(la, lb, 0)])) of (unchanged, changed) \<Rightarrow>
        changed + 2 * unchanged = (la - i) + (lb - j))"
proof (induction bs arbitrary: i j)
  case Nil
  then show ?case by auto
next
  case (Cons x bs)
  obtain ai bj n where x: "x = (ai, bj, n)" by (cases x)
  let ?rest = "opcodes_from (ai + n) (bj + n) (bs @ [(la, lb, 0)])"
  have c: "i \<le> ai" "j \<le> bj" "chain a b (ai + n) (bj + n) la lb (bs @ [(la, lb, 0)])"
    using Cons.prems by (simp_all add: x)
  obtain u v where uv: "count_words ?rest = (u, v)" by (cases "count_words ?rest")
  have "v + 2 * u = (la - (ai + n)) + (lb - (bj + n))" using Cons.IH [OF c(3)] by (simp add: uv)
  moreover have "ai + n \<le> la" "bj + n \<le> lb" using chain_le [OF c(3)] by simp_all
  ultimately show ?case using c by (auto simp: x uv count_words_append split: if_splits)
qed

lemma count_get_opcodes:
  "\<exists>u c. count_words (get_opcodes a b) = (u, c) \<and> c + 2 * u = length a + length b"
proof -
  have "get_matching_blocks a b = merge_blocks (0, 0, 0) (matching_blocks a b 0 (length a) 0 (length b))
      @ [(length a, length b, 0)]" by (simp add: get_matching_blocks_def)
  then have "case count_words (get_opcodes a b) of (n, c) \<Rightarrow> c + 2 * n = length a + length b"
    using count_opcodes get_matching_blocks_chain [of a b] unfolding get_opcodes_def by fastforce
  then show ?thesis by (cases "count_words (get_opcodes a b)") simp
qed

subsection \<open>Equal texts\<close>

lemma common_prefix_self: "common_prefix xs xs = length xs"
  by (induction xs) auto

lemma find_longest_self: "find_longest_match a a 0 (length a) 0 (length a) = (0, 0, length a)"
proof (cases "a = []")
  case True
  then show ?thesis by (simp add: find_longest_match_def)
next
  case False
  let ?f = "\<lambda>(i, j) best. case best of (bi, bj, k) \<Rightarrow>
     (let n = common_prefix (slice i (length a) a) (slice j (length a) a)
      in if k < n then (i, j, n) else (best :: nat \<times> nat \<times> nat))"
  have stay: "fold ?f ijs (0, 0, length a) = (0, 0, length a)" for ijs
  proof (induction ijs)
    case Nil
    then show ?case by simp
  next
    case (Cons ij ijs)
    obtain i j where ij: "ij = (i, j)" by (cases ij)
    have "common_prefix (slice i (length a) a) (slice j (length a) a) \<le> length a"
      using common_prefix_le(1) [of "slice i (length a) a" "slice j (length a) a"] by (simp add: slice_def)
    with Cons show ?case by (simp add: ij Let_def)
  qed
  obtain m where m: "length a = Suc m" using False by (cases a) auto
  have "[0..<length a] = 0 # [1..<length a]" by (simp add: m upt_conv_Cons del: upt_Suc)
  then obtain ijs where "List.product [0..<length a] [0..<length a] = (0, 0) # ijs" by simp
  then show ?thesis using stay False
    by (simp add: find_longest_match_def slice_drop common_prefix_self Let_def)
qed

lemma get_opcodes_self:
  "get_opcodes a a = (if a = [] then [] else [(OpEqual, 0, length a, 0, length a)])"
  by (simp add: get_opcodes_def get_matching_blocks_def matching_blocks.simps [of a a 0 "length a" 0 "length a"]
      find_longest_self)

lemma emit_segments_self:
  "emit_segments old old ws ws p p (map (\<lambda>d. (d, d)) ds) = []"
  by (induction ds arbitrary: p) (simp_all add: emit_segment_def)

subsection \<open>Properties\<close>

lemma word_diff_rebuilds:
  "apply_sub_edits old (sub_edits (split_change old new threshold)) = new"
proof -
  have "apply_sub_edits old [\<lparr>op = edit_op old new, old_start = 0, old_end = length old,
      old_text = old, new_text = new\<rparr>] = new"
    by (simp add: apply_sub_edits_def sort_edits_def)
  then show ?thesis using surgical_facts(2) [of old new] by (simp add: split_change_def Let_def)
qed

text \<open>C1: Whatever the threshold, applying the sub-edits to the old text gives the new text
  exactly.\<close>

theorem word_diff_reconstructs:
  "apply_sub_edits old (sub_edits (split_change old new threshold)) = new"
  by (rule word_diff_rebuilds)

text \<open>The sub-edits of a change are in order and disjoint, each quotes the old text of its range
  and changes it, its operation says whether something is deleted and inserted, and a surgical
  sub-edit neither starts nor ends with whitespace that stays.\<close>

theorem word_diff_edits:
  assumes "old \<noteq> new"
  shows "edits_from old 0 (sub_edits (split_change old new threshold))
    \<and> sub_edits (split_change old new threshold) \<noteq> []
    \<and> (mode (split_change old new threshold) = Surgical \<longrightarrow>
        list_all edit_tight (sub_edits (split_change old new threshold)))"
proof -
  have "apply_sub_edits old [] = old" by (simp add: apply_sub_edits_def sort_edits_def)
  then have "sub_edits (split_change old new threshold) \<noteq> []"
    using word_diff_rebuilds [of old new threshold] assms by auto
  then show ?thesis using surgical_facts(1,3) [of old new] assms
    by (simp add: split_change_def Let_def)
qed

theorem word_diff_edits_witness:
  "edits_from (u ''a b'') 0 (sub_edits (split_change (u ''a b'') (u ''a c'') 1))
    \<and> sub_edits (split_change (u ''a b'') (u ''a c'') 1) \<noteq> []"
  using word_diff_edits [of "u ''a b''" "u ''a c''" 1] by simp

text \<open>The mode follows the threshold, and the fraction compared with it counts every unchanged
  word once and every changed word on its side.\<close>

theorem word_diff_mode:
  "\<exists>unchanged changed.
     changed + 2 * unchanged = length (word_tokens (tokenize old)) + length (word_tokens (tokenize new))
   \<and> fraction_changed (split_change old new threshold) =
       (if unchanged + changed = 0 then 0 else of_nat changed / of_nat (unchanged + changed))
   \<and> 0 \<le> fraction_changed (split_change old new threshold)
   \<and> fraction_changed (split_change old new threshold) \<le> 1
   \<and> (mode (split_change old new threshold) = Block \<longleftrightarrow>
       threshold < fraction_changed (split_change old new threshold) \<or> threshold \<le> 0 \<and> old \<noteq> new)"
proof -
  let ?ops = "get_opcodes (map tk_text (word_tokens (tokenize old))) (map tk_text (word_tokens (tokenize new)))"
  obtain n c where uc: "count_words ?ops = (n, c)"
    "c + 2 * n = length (word_tokens (tokenize old)) + length (word_tokens (tokenize new))"
    using count_get_opcodes by (metis length_map)
  have "fraction_changed (split_change old new threshold) = change_fraction ?ops"
    by (simp add: split_change_def Let_def)
  also have "\<dots> = (if n + c = 0 then 0 else of_nat c / of_nat (n + c))"
    by (simp add: change_fraction_def uc(1))
  finally have f: "fraction_changed (split_change old new threshold) =
      (if n + c = 0 then 0 else of_nat c / of_nat (n + c))" .
  have "(0 :: rat) \<le> (if n + c = 0 then 0 else of_nat c / of_nat (n + c))"
    "(if n + c = 0 then 0 else of_nat c / of_nat (n + c)) \<le> (1 :: rat)"
    by (auto simp: divide_simps)
  moreover have "mode (split_change old new threshold) = Block \<longleftrightarrow>
      threshold < fraction_changed (split_change old new threshold) \<or> threshold \<le> 0 \<and> old \<noteq> new"
    by (auto simp: split_change_def Let_def)
  ultimately have "c + 2 * n = length (word_tokens (tokenize old)) + length (word_tokens (tokenize new)) \<and>
      fraction_changed (split_change old new threshold) =
       (if n + c = 0 then 0 else of_nat c / of_nat (n + c))
   \<and> 0 \<le> fraction_changed (split_change old new threshold)
   \<and> fraction_changed (split_change old new threshold) \<le> 1
   \<and> (mode (split_change old new threshold) = Block \<longleftrightarrow>
       threshold < fraction_changed (split_change old new threshold) \<or> threshold \<le> 0 \<and> old \<noteq> new)"
    using uc(2) f by simp
  then show ?thesis by (intro exI [of _ n] exI [of _ c])
qed

text \<open>A text is not changed into itself: no sub-edit for a threshold that is not negative. A
  negative threshold replaces the whole text with the same text, although the comment on the
  block path calls equal texts a no-op for every threshold up to 0.\<close>

theorem word_diff_equal_texts:
  "split_change s s threshold =
     (if threshold < 0
      then \<lparr>mode = Block, fraction_changed = 0,
            sub_edits = [\<lparr>op = edit_op s s, old_start = 0, old_end = length s, old_text = s, new_text = s\<rparr>]\<rparr>
      else \<lparr>mode = Surgical, fraction_changed = 0, sub_edits = []\<rparr>)"
proof -
  let ?ws = "word_tokens (tokenize s)"
  have a: "anchors_of (get_opcodes (map tk_text ?ws) (map tk_text ?ws)) = map (\<lambda>d. (d, d)) [0..<length ?ws]"
    by (simp add: get_opcodes_self anchors_of_def)
  have "build_surgical_edits s s ?ws ?ws (get_opcodes (map tk_text ?ws) (map tk_text ?ws)) = []"
    by (simp add: build_surgical_edits_def a emit_segments_self sort_edits_def)
  moreover have "change_fraction (get_opcodes (map tk_text ?ws) (map tk_text ?ws)) = 0"
    by (simp add: get_opcodes_self change_fraction_def)
  ultimately show ?thesis by (simp add: split_change_def Let_def)
qed

end
