(* ===== verification/TrackedReplace.thy ===== *)
theory TrackedReplace
  imports Prelude PyStr "HOL-Library.Multiset"
begin

text \<open>
  Replacements inside the selection of a Writer document
  (\<open>plugin/persian/tracked_replace.py\<close>): every occurrence of every source text in the selection is
  collected, the occurrences are replaced from right to left, and each is checked against the
  document again just before.

  The document is its text and the selection a range of it, as \<open>get_selection_text\<close>,
  \<open>get_selection_range\<close> and \<open>get_text_cursor_at_range\<close> present them when deleted text does not
  stay in the document. \<open>fails\<close> says at which occurrences the office raises.
\<close>

subsection \<open>Line breaks and occurrences\<close>

definition normalize_linebreaks :: "pystr \<Rightarrow> pystr" where
  "normalize_linebreaks t = replace_all [13] [10] (replace_all [10, 13] [10] (replace_all [13, 10] [10] t))"

text \<open>The positions \<open>find\<close> returns from \<open>i\<close> on, each search starting after the last match.\<close>

function occurrences :: "pystr \<Rightarrow> pystr \<Rightarrow> nat \<Rightarrow> nat list" where
  "occurrences p s i =
     (if p = [] then []
      else case find_from p s i of None \<Rightarrow> [] | Some j \<Rightarrow> j # occurrences p s (j + length p))"
  by auto
termination
proof (relation "measure (\<lambda>(p, s, i). Suc (length s) - i)", goal_cases)
  case 1
  show ?case by simp
next
  case (2 p s i j)
  then have "i \<le> j" "j + length p \<le> length s" "0 < length p"
    using find_from_Some [of p s i j] by auto
  then show ?case by (cases p) auto
qed

declare occurrences.simps [simp del]

lemma occurrences_Nil [simp]: "occurrences [] s i = []"
  by (subst occurrences.simps) simp

subsection \<open>Collecting the matches\<close>

record edit =
  change_idx :: nat
  source_text :: pystr
  target_text :: pystr
  doc_start :: nat
  doc_end :: nat

definition matches_of :: "nat \<Rightarrow> pystr \<Rightarrow> nat \<Rightarrow> pystr \<times> pystr \<Rightarrow> edit list" where
  "matches_of sel_start selection idx change =
     (case change of (src, tgt) \<Rightarrow>
        if src = [] \<or> src = tgt then []
        else let s = normalize_linebreaks src; t = normalize_linebreaks tgt
             in map (\<lambda>j. \<lparr>change_idx = idx, source_text = s, target_text = t,
                          doc_start = sel_start + j, doc_end = sel_start + j + length s\<rparr>)
                  (occurrences s selection 0))"

definition all_matches :: "nat \<Rightarrow> pystr \<Rightarrow> (pystr \<times> pystr) list \<Rightarrow> edit list" where
  "all_matches sel_start selection changes =
     concat (map (\<lambda>(idx, change). matches_of sel_start selection idx change)
       (zip [0..<length changes] changes))"

text \<open>\<open>all_matches.sort(key=doc_start, reverse=True)\<close>, which keeps equal keys in order.\<close>

definition right_to_left :: "edit list \<Rightarrow> edit list" where
  "right_to_left ms = sort_key (\<lambda>m. - int (doc_start m)) ms"

subsection \<open>Applying them\<close>

datatype uno_failure = NoCursor | CannotRead | CannotSet

datatype edit_status = Applied | NotFound | CursorFailed | ReadFailed | TextMismatch pystr | ApplyFailed

record edit_detail =
  d_change :: "nat option"
  d_source :: pystr
  d_target :: pystr
  d_status :: edit_status
  d_start :: "nat option"

definition edit_detail_of :: "edit \<Rightarrow> edit_status \<Rightarrow> edit_detail" where
  "edit_detail_of m st = \<lparr>d_change = Some (change_idx m), d_source = source_text m, d_target = target_text m, d_status = st,
     d_start = Some (doc_start m)\<rparr>"

definition apply_edit ::
  "(edit \<Rightarrow> uno_failure option) \<Rightarrow> edit \<Rightarrow> pystr \<times> edit_detail list \<Rightarrow> pystr \<times> edit_detail list" where
  "apply_edit fails m = (\<lambda>(doc, details).
     let a = min (doc_start m) (length doc);
         b = min (doc_end m) (length doc);
         cursor_text = normalize_linebreaks (slice a b doc);
         outcome = (\<lambda>st. details @ [edit_detail_of m st])
     in if fails m = Some NoCursor then (doc, outcome CursorFailed)
        else if fails m = Some CannotRead then (doc, outcome ReadFailed)
        else if cursor_text \<noteq> source_text m then (doc, outcome (TextMismatch cursor_text))
        else if fails m = Some CannotSet then (doc, outcome ApplyFailed)
        else (take a doc @ target_text m @ drop b doc, outcome Applied))"

record replace_result =
  applied :: nat
  skipped :: nat
  details :: "edit_detail list"

datatype selection_error = NoTextSelected | EmptySelection

definition skipped_sources :: "(pystr \<times> pystr) list \<Rightarrow> edit list \<Rightarrow> edit_detail list \<Rightarrow> pystr list" where
  "skipped_sources changes ms ds =
     (let found = map source_text
            (filter (\<lambda>m. list_ex (\<lambda>d. d_start d = Some (doc_start m) \<and> d_status d = Applied) ds) ms)
      in filter (\<lambda>s. s \<notin> set found) (remdups (map fst changes)))"

definition apply_tracked_replacements ::
  "(edit \<Rightarrow> uno_failure option) \<Rightarrow> pystr \<Rightarrow> nat \<Rightarrow> nat \<Rightarrow> (pystr \<times> pystr) list \<Rightarrow>
   selection_error + (replace_result \<times> pystr)" where
  "apply_tracked_replacements fails doc sel_start sel_end changes =
     (let sel_text = slice sel_start sel_end doc;
          selection = normalize_linebreaks sel_text;
          ms = all_matches sel_start selection changes
      in if sel_text = [] then Inl NoTextSelected
         else if sel_start = sel_end then Inl EmptySelection
         else if ms = []
         then Inr (\<lparr>applied = 0, skipped = length changes,
                details = map (\<lambda>(s, t). \<lparr>d_change = None, d_source = s, d_target = t, d_status = NotFound, d_start = None\<rparr>)
                  changes\<rparr>, doc)
         else case fold (apply_edit fails) (right_to_left ms) (doc, []) of
                (doc', ds) \<Rightarrow>
                  Inr (\<lparr>applied = length (filter (\<lambda>d. d_status d = Applied) ds),
                        skipped = length (skipped_sources changes ms ds), details = ds\<rparr>, doc'))"

text \<open>Text without carriage returns is already normalised.\<close>

lemma normalize_linebreaks_id: "13 \<notin> set s \<Longrightarrow> normalize_linebreaks s = s"
  by (simp add: normalize_linebreaks_def replace_all_absent [of 13])

subsection \<open>Splicing\<close>

text \<open>The text with the ranges of ascending disjoint edits exchanged, from position \<open>i\<close> on.\<close>

fun splice :: "pystr \<Rightarrow> nat \<Rightarrow> edit list \<Rightarrow> pystr" where
  "splice doc i [] = drop i doc"
| "splice doc i (m # ms) = slice i (doc_start m) doc @ target_text m @ splice doc (doc_end m) ms"

fun disjoint_from :: "nat \<Rightarrow> edit list \<Rightarrow> bool" where
  "disjoint_from i [] = True"
| "disjoint_from i (m # ms) \<longleftrightarrow> i \<le> doc_start m \<and> doc_start m < doc_end m \<and> disjoint_from (doc_end m) ms"

definition edit_fits :: "pystr \<Rightarrow> edit \<Rightarrow> bool" where
  "edit_fits doc m \<longleftrightarrow> doc_end m \<le> length doc \<and> doc_start m \<le> doc_end m \<and>
     source_text m = slice (doc_start m) (doc_end m) doc \<and> 13 \<notin> set (source_text m)"

lemma splice_from:
  assumes "disjoint_from i ms" and "list_all (edit_fits doc) ms" and "k \<le> i" and "i \<le> length doc"
  shows "splice doc k ms = slice k i doc @ splice doc i ms"
  using assms
proof (cases ms)
  case Nil
  then show ?thesis using assms slice_to_end [of k i doc] by simp
next
  case (Cons m ms')
  then show ?thesis using assms slice_append [of k i "doc_start m" doc] by simp
qed

lemma disjoint_starts:
  "disjoint_from i ms \<Longrightarrow> m \<in> set ms \<Longrightarrow> i \<le> doc_start m"
  by (induction ms arbitrary: i) force+

lemma disjoint_sorted: "disjoint_from i ms \<Longrightarrow> sorted_wrt (<) (map doc_start ms)"
proof (induction ms arbitrary: i)
  case Nil
  then show ?case by simp
next
  case (Cons m ms)
  then have "\<forall>x \<in> set ms. doc_end m \<le> doc_start x" using disjoint_starts by auto
  with Cons show ?case by auto
qed

lemma apply_edit_match:
  assumes "doc_start m \<le> doc_end m" and "doc_end m \<le> length doc"
    and "slice (doc_start m) (doc_end m) doc = source_text m" and "13 \<notin> set (source_text m)"
    and "fails m = None"
  shows "apply_edit fails m (doc, ds) =
    (take (doc_start m) doc @ target_text m @ drop (doc_end m) doc, ds @ [edit_detail_of m Applied])"
proof -
  have "normalize_linebreaks (source_text m) = source_text m"
    using assms(4) by (rule normalize_linebreaks_id)
  moreover have "min (doc_start m) (length doc) = doc_start m" "min (doc_end m) (length doc) = doc_end m"
    using assms(1,2) by simp_all
  ultimately show ?thesis using assms(3,5) by (simp add: apply_edit_def Let_def)
qed

lemma apply_edits:
  assumes "disjoint_from i ms" and "list_all (edit_fits doc) ms" and "i \<le> length doc"
    and "\<And>m. m \<in> set ms \<Longrightarrow> fails m = None"
  shows "fold (apply_edit fails) (rev ms) (doc, ds) =
    (take i doc @ splice doc i ms, ds @ map (\<lambda>m. edit_detail_of m Applied) (rev ms))"
  using assms
proof (induction ms arbitrary: i)
  case Nil
  then show ?case by simp
next
  case (Cons m ms)
  have m: "edit_fits doc m" "i \<le> doc_start m" "doc_start m < doc_end m" "fails m = None"
    using Cons.prems by simp_all
  then have len: "doc_end m \<le> length doc" by (simp add: edit_fits_def)
  define doc' where "doc' = take (doc_end m) doc @ splice doc (doc_end m) ms"
  have ih: "fold (apply_edit fails) (rev ms) (doc, ds) =
      (doc', ds @ map (\<lambda>m. edit_detail_of m Applied) (rev ms))"
    unfolding doc'_def by (rule Cons.IH) (use Cons.prems len in simp_all)
  have "slice (doc_start m) (doc_end m) doc' = source_text m" "13 \<notin> set (source_text m)"
    using m len edit_fits_def [of doc m] by (auto simp add: doc'_def slice_def drop_take)
  moreover have "take (doc_start m) doc' = take i doc @ slice i (doc_start m) doc"
    using m len by (simp add: doc'_def take_slice)
  moreover have "drop (doc_end m) doc' = splice doc (doc_end m) ms"
    using len by (simp add: doc'_def)
  moreover have "doc_end m \<le> length doc'" using len by (simp add: doc'_def)
  ultimately show ?case using m apply_edit_match [of m doc' fails]
    by (simp add: ih)
qed

text \<open>Edits with different starts are sorted in one way only.\<close>

lemma right_to_left_disjoint:
  assumes "disjoint_from i ms" and "mset ms' = mset ms"
  shows "right_to_left ms' = rev ms"
proof -
  let ?f = "\<lambda>m. - int (doc_start m)"
  have st: "sorted_wrt (<) (map doc_start ms)" by (rule disjoint_sorted [OF assms(1)])
  then have inj: "inj_on ?f (set ms)"
    by (auto simp: inj_on_def strict_sorted_iff distinct_map)
  have "sorted (map ?f (rev ms))"
    using st by (simp add: sorted_wrt_map rev_map [symmetric] sorted_wrt_rev)
      (simp add: sorted_wrt_iff_nth_less order.strict_implies_order)
  moreover have "mset (map ?f (right_to_left ms')) = mset (map ?f (rev ms))"
    using assms(2) by (simp add: right_to_left_def)
  moreover have "sorted (map ?f (right_to_left ms'))" by (simp add: right_to_left_def)
  ultimately have "map ?f (right_to_left ms') = map ?f (rev ms)"
    by (metis properties_for_sort)
  moreover have "set (right_to_left ms') = set ms" "set (rev ms) = set ms"
    using assms(2) by (simp_all add: right_to_left_def flip: set_mset_mset)
  ultimately show ?thesis
    using inj by (metis (no_types, lifting) Un_absorb map_inj_on)
qed

lemma occurrences_from:
  assumes "p \<noteq> []"
  shows "j \<in> set (occurrences p s i) \<Longrightarrow> i \<le> j \<and> j + length p \<le> length s \<and> slice j (j + length p) s = p"
proof (induction p s i rule: occurrences.induct)
  case (1 p s i)
  show ?case
  proof (cases "find_from p s i")
    case None
    then show ?thesis using "1.prems" by (subst (asm) occurrences.simps) (auto split: if_splits)
  next
    case (Some k)
    note k = find_from_Some [OF Some]
    have "p \<noteq> []" using "1.prems" by (subst (asm) occurrences.simps) (auto split: if_splits)
    then have "j = k \<or> j \<in> set (occurrences p s (k + length p))"
      using "1.prems" Some by (subst (asm) occurrences.simps) simp
    then show ?thesis using "1.IH" [OF \<open>p \<noteq> []\<close> Some] k by auto
  qed
qed

definition edits_at :: "nat \<Rightarrow> nat \<Rightarrow> pystr \<Rightarrow> pystr \<Rightarrow> nat list \<Rightarrow> edit list" where
  "edits_at a idx p t js = map (\<lambda>j. \<lparr>change_idx = idx, source_text = p, target_text = t,
     doc_start = a + j, doc_end = a + j + length p\<rparr>) js"

lemma occurrences_disjoint:
  "p \<noteq> [] \<Longrightarrow> disjoint_from (a + i) (edits_at a idx p t (occurrences p s i))"
proof (induction p s i rule: occurrences.induct)
  case (1 p s i)
  show ?case
  proof (cases "find_from p s i")
    case None
    then show ?thesis using "1.prems" by (subst occurrences.simps) (simp add: edits_at_def)
  next
    case (Some k)
    have "disjoint_from (a + (k + length p)) (edits_at a idx p t (occurrences p s (k + length p)))"
      using "1.IH" [OF "1.prems" Some "1.prems"] .
    then show ?thesis using "1.prems" Some find_from_Some [OF Some]
      by (subst occurrences.simps) (simp add: edits_at_def add.assoc)
  qed
qed

text \<open>Splicing all occurrences of a text is \<open>str.replace\<close> on the selection.\<close>

lemma splice_occurrences:
  assumes "p \<noteq> []" and "i \<le> length s"
  shows "splice (pre @ s @ post) (length pre + i) (edits_at (length pre) idx p t (occurrences p s i))
    = replace_all p t (drop i s) @ post"
  using assms
proof (induction p s i rule: occurrences.induct)
  case (1 p s i)
  show ?case
  proof (cases "find_from p s i")
    case None
    have "replace_all p t (drop i s) = drop i s"
      using replace_all_skip [of p i "length s" s t] find_from_None [OF None] "1.prems"
      by (simp add: slice_drop)
    then show ?thesis using "1.prems" None by (subst occurrences.simps) (simp add: edits_at_def)
  next
    case (Some k)
    note k = find_from_Some [OF Some]
    have "replace_all p t (drop i s) = slice i k s @ replace_all p t (drop k s)"
      by (rule replace_all_skip) (use "1.prems" k find_from_least [OF Some] in auto)
    also have "replace_all p t (drop k s) = t @ replace_all p t (drop (k + length p) s)"
    proof -
      have "prefix p (drop k s)" using k by (simp add: prefix_slice)
      moreover have "0 < length p" using "1.prems"(1) by simp
      then have "k < length s" using k by linarith
      then obtain c cs where "drop k s = c # cs" by (metis Cons_nth_drop_Suc)
      ultimately show ?thesis using "1.prems"
        by (metis drop_drop replace_all_Cons add.commute)
    qed
    finally have r: "replace_all p t (drop i s) = slice i k s @ t @ replace_all p t (drop (k + length p) s)" .
    have ih: "splice (pre @ s @ post) (length pre + (k + length p))
        (edits_at (length pre) idx p t (occurrences p s (k + length p))) =
        replace_all p t (drop (k + length p) s) @ post"
      using "1.IH" [OF _ Some] "1.prems" k by simp
    have "slice (length pre + i) (length pre + k) (pre @ s @ post) = slice i k s"
      using k by (simp add: slice_def)
    then show ?thesis using "1.prems" Some ih
      by (subst occurrences.simps) (simp add: edits_at_def r add.assoc)
  qed
qed

subsection \<open>What a run does to the document\<close>

lemma matches_of_edits:
  assumes "src \<noteq> []" and "src \<noteq> tgt"
  shows "matches_of a s idx (src, tgt) =
    edits_at a idx (normalize_linebreaks src) (normalize_linebreaks tgt)
      (occurrences (normalize_linebreaks src) s 0)"
  using assms by (simp add: matches_of_def edits_at_def Let_def)

lemma set_occurrences:
  "j \<in> set (occurrences p s i) \<Longrightarrow> p \<noteq> [] \<and> i \<le> j \<and> j + length p \<le> length s \<and> slice j (j + length p) s = p"
  using occurrences_from by (cases "p = []") auto

lemma edits_at_fit:
  assumes "a \<le> b" and "b \<le> length doc" and "13 \<notin> set (slice a b doc)"
    and "m \<in> set (edits_at a idx p t (occurrences p (slice a b doc) 0))"
  shows "edit_fits doc m \<and> a \<le> doc_start m \<and> doc_end m \<le> b"
proof -
  obtain j where j: "j \<in> set (occurrences p (slice a b doc) 0)"
    "m = \<lparr>change_idx = idx, source_text = p, target_text = t, doc_start = a + j, doc_end = a + j + length p\<rparr>"
    using assms(4) by (auto simp: edits_at_def)
  from set_occurrences [OF j(1)] have o: "j + length p \<le> length (slice a b doc)"
    "slice j (j + length p) (slice a b doc) = p" by simp_all
  then have "j + length p \<le> b - a" "13 \<notin> set p"
    using assms length_slice [of b doc a] set_slice [of 13 j "j + length p" "slice a b doc"] by auto
  moreover from this(1) have "a + j + length p \<le> b" using assms(1) by linarith
  ultimately show ?thesis using assms(1,2) slice_slice [of j "length p" b a doc] o(2)
    by (simp add: edit_fits_def j(2))
qed

lemma in_all_matches:
  assumes "m \<in> set (all_matches a s changes)"
  shows "\<exists>idx p t. m \<in> set (edits_at a idx p t (occurrences p s 0))"
proof -
  obtain idx src tgt where "m \<in> set (matches_of a s idx (src, tgt))"
    using assms by (auto simp: all_matches_def)
  moreover from this have "src \<noteq> [] \<and> src \<noteq> tgt" by (auto simp: matches_of_def split: if_splits)
  ultimately show ?thesis using matches_of_edits [of src tgt] by auto
qed

lemma all_matches_fit:
  assumes "a \<le> b" and "b \<le> length doc" and "13 \<notin> set (slice a b doc)"
    and "m \<in> set (all_matches a (slice a b doc) changes)"
  shows "edit_fits doc m \<and> a \<le> doc_start m \<and> doc_end m \<le> b"
  using in_all_matches [OF assms(4)] edits_at_fit [OF assms(1-3)] by blast

lemma splice_tail:
  assumes "disjoint_from i ms" and "list_all (\<lambda>m. doc_end m \<le> b) ms" and "i \<le> b" and "b \<le> length doc"
  shows "\<exists>mid. splice doc i ms = mid @ drop b doc"
  using assms
proof (induction ms arbitrary: i)
  case Nil
  then show ?case by (metis slice_to_end splice.simps(1))
next
  case (Cons m ms)
  then obtain mid where "splice doc (doc_end m) ms = mid @ drop b doc" by auto
  then show ?case by auto
qed

lemma run_disjoint:
  assumes "a < b" and "b \<le> length doc" and "13 \<notin> set (slice a b doc)"
    and "disjoint_from a ms" and "mset ms = mset (all_matches a (slice a b doc) changes)"
    and "\<And>m. m \<in> set ms \<Longrightarrow> fails m = None"
  shows "\<exists>r. apply_tracked_replacements fails doc a b changes = Inr (r, take a doc @ splice doc a ms)
    \<and> applied r = length ms"
proof -
  let ?s = "slice a b doc" and ?ms = "all_matches a (slice a b doc) changes"
  have set: "set ms = set ?ms" using assms(5) by (metis set_mset_mset)
  have s: "?s \<noteq> []" using assms(1,2) length_slice [of b doc a] by auto
  have n: "normalize_linebreaks ?s = ?s" using assms(3) by (rule normalize_linebreaks_id)
  have fit: "list_all (edit_fits doc) ms"
    using all_matches_fit [OF _ assms(2,3)] assms(1) set by (auto simp: list_all_iff)
  show ?thesis
  proof (cases "ms = []")
    case True
    with assms(5) have "?ms = []" by simp
    with True s n assms(1) show ?thesis
      by (simp add: apply_tracked_replacements_def Let_def)
  next
    case False
    with assms(5) have ne: "?ms \<noteq> []" by auto
    have "right_to_left ?ms = rev ms" using assms(4,5) by (intro right_to_left_disjoint) simp_all
    moreover have "fold (apply_edit fails) (rev ms) (doc, []) =
        (take a doc @ splice doc a ms, map (\<lambda>m. edit_detail_of m Applied) (rev ms))"
      using apply_edits [OF assms(4) fit, of fails "[]"] assms(1,2,6) by simp
    moreover have "length (filter (\<lambda>d. d_status d = Applied) (map (\<lambda>m. edit_detail_of m Applied) (rev ms)))
        = length ms"
      by (subst filter_True) (auto simp: edit_detail_of_def)
    ultimately show ?thesis using ne s n assms(1)
      by (simp add: apply_tracked_replacements_def Let_def)
  qed
qed

subsection \<open>Properties\<close>

text \<open>A single change replaces exactly the occurrences \<open>str.replace\<close> would replace in the
  selection, reports each of them as applied, and leaves the rest of the document as it is.\<close>

theorem tracked_single_change:
  assumes "a < b" and "b \<le> length doc" and "13 \<notin> set (slice a b doc)"
    and "src \<noteq> []" and "src \<noteq> tgt" and "13 \<notin> set src"
  shows "\<exists>r. apply_tracked_replacements (\<lambda>_. None) doc a b [(src, tgt)] =
      Inr (r, take a doc @ replace_all src (normalize_linebreaks tgt) (slice a b doc) @ drop b doc)
    \<and> applied r = length (occurrences src (slice a b doc) 0)"
proof -
  let ?s = "slice a b doc"
  let ?E = "edits_at a 0 src (normalize_linebreaks tgt) (occurrences src ?s 0)"
  have E: "all_matches a ?s [(src, tgt)] = ?E"
    using assms(4-6) by (simp add: all_matches_def matches_of_edits normalize_linebreaks_id)
  have d: "disjoint_from a ?E" using occurrences_disjoint [OF assms(4), of a 0] by simp
  have "doc = take a doc @ ?s @ drop b doc"
    using assms(1) slice_to_end [of a b doc] append_take_drop_id [of a doc] by simp
  then have "splice doc a ?E = replace_all src (normalize_linebreaks tgt) ?s @ drop b doc"
    using splice_occurrences [OF assms(4), of 0 ?s "take a doc" "drop b doc"] assms(1,2) by simp
  then show ?thesis
    using run_disjoint [OF assms(1-3) d, of "[(src, tgt)]" "\<lambda>_. None"] E by (simp add: edits_at_def)
qed

theorem tracked_single_change_witness:
  "\<exists>r. apply_tracked_replacements (\<lambda>_. None) [1, 2, 1, 2, 1] 1 5 [([1], [7, 8])] =
      Inr (r, [1, 2, 7, 8, 2, 7, 8]) \<and> applied r = 2"
  using tracked_single_change [of 1 5 "[1, 2, 1, 2, 1]" "[1]" "[7, 8]"]
  by (simp add: slice_def replace_all_Cons normalize_linebreaks_id occurrences.simps find_from_def
      numeral_2_eq_2)

text \<open>C22: Changes whose occurrences do not overlap are all applied, in one run and with their
  positions in the original text, and the document outside the selection is left as it is.\<close>

theorem tracked_disjoint_changes:
  assumes "a < b" and "b \<le> length doc" and "13 \<notin> set (slice a b doc)"
    and "disjoint_from a ms" and "mset ms = mset (all_matches a (slice a b doc) changes)"
    and "list_all (\<lambda>m. fails m = None) ms"
  shows "\<exists>r doc'. apply_tracked_replacements fails doc a b changes = Inr (r, doc')
    \<and> applied r = length ms \<and> doc' = take a doc @ splice doc a ms
    \<and> (\<exists>mid. doc' = take a doc @ mid @ drop b doc)"
proof -
  have "list_all (\<lambda>m. doc_end m \<le> b) ms"
    using all_matches_fit [OF _ assms(2,3)] assms(1,5)
    by (auto simp: list_all_iff simp flip: set_mset_mset)
  then obtain mid where "splice doc a ms = mid @ drop b doc"
    using splice_tail [OF assms(4) _ _ assms(2)] assms(1) by auto
  then show ?thesis using run_disjoint [OF assms(1-5)] assms(6) by (auto simp: list_all_iff)
qed

theorem tracked_disjoint_changes_witness:
  "\<exists>r doc'. apply_tracked_replacements (\<lambda>_. None) [9, 1, 2, 1, 9] 1 4 [([1], [5]), ([2], [])] = Inr (r, doc')
    \<and> applied r = 3 \<and> doc' = [9, 5, 5, 9]"
proof -
  let ?m = "\<lambda>i p t k. \<lparr>change_idx = i, source_text = [p], target_text = t, doc_start = k, doc_end = Suc k\<rparr>"
  have "mset [?m 0 1 [5] 1, ?m 1 2 [] 2, ?m 0 1 [5] 3] =
      mset (all_matches 1 (slice 1 4 [9, 1, 2, 1, 9]) [([1], [5]), ([2], [])])"
    by (simp add: all_matches_def matches_of_def slice_def normalize_linebreaks_id occurrences.simps
        find_from_def Let_def numeral_eq_Suc add_mset_commute)
  then show ?thesis
    using tracked_disjoint_changes [of 1 4 "[9, 1, 2, 1, 9]" "[?m 0 1 [5] 1, ?m 1 2 [] 2, ?m 0 1 [5] 3]"
        "[([1], [5]), ([2], [])]" "\<lambda>_. None"]
    by (simp add: slice_def numeral_eq_Suc)
qed

text \<open>With overlapping changes the document outside the selection changes. The selection is
  \<open>ab\<close> and a \<open>b\<close> follows it: deleting the selected \<open>b\<close> moves the one behind it into the range of
  \<open>ab\<close>, the check of the range against its source text then passes, and the \<open>b\<close> outside the selection
  is replaced with it.\<close>

theorem tracked_overlap_leaves_selection:
  "\<exists>r. apply_tracked_replacements (\<lambda>_. None) (u ''abb!'') 0 2 [(u ''b'', []), (u ''ab'', u ''X'')]
     = Inr (r, u ''X!'') \<and> applied r = 2
   \<and> drop 2 (u ''abb!'') = u ''b!''"
  by (simp add: u_def apply_tracked_replacements_def all_matches_def matches_of_def slice_def
      normalize_linebreaks_id occurrences.simps find_from_def right_to_left_def apply_edit_def
      edit_detail_of_def Let_def)

end
