(* ===== verification/PyRegex.thy ===== *)
theory PyRegex
  imports Prelude PyStr
begin

text \<open>
  The part of Python's \<open>re\<close> the modelled code uses. A pattern is a value of \<open>regex\<close>; its
  meaning at a position is the list of the ends of its matches in the order in which Python's
  backtracking finds them: greedy repetition tries the longer match first, an alternative the
  left branch first. \<open>match\<close> is the head of the list, \<open>fullmatch\<close> asks whether the end of
  the text is among them.
\<close>

subsection \<open>Patterns and their matches\<close>

datatype regex =
    Chr "nat \<Rightarrow> bool"
  | At "pystr \<Rightarrow> nat \<Rightarrow> bool"
  | Cat regex regex
  | Alt regex regex
  | Star regex

text \<open>The ends of \<open>r*\<close> from \<open>i\<close>, \<open>f\<close> being the ends of \<open>r\<close>; an iteration that consumes
  nothing ends the repetition.\<close>

function star_ends :: "(nat \<Rightarrow> nat list) \<Rightarrow> nat \<Rightarrow> nat \<Rightarrow> nat list" where
  "star_ends f limit i =
     concat (map (\<lambda>j. if i < j \<and> j \<le> limit then star_ends f limit j else []) (f i)) @ [i]"
  by auto
termination
  by (relation "measure (\<lambda>(f, limit, i). limit - i)") auto

declare star_ends.simps [simp del]

primrec ends :: "regex \<Rightarrow> pystr \<Rightarrow> nat \<Rightarrow> nat list" where
  "ends (Chr p) s i = (if i < length s \<and> p (s ! i) then [Suc i] else [])"
| "ends (At p) s i = (if p s i then [i] else [])"
| "ends (Cat r q) s i = concat (map (ends q s) (ends r s i))"
| "ends (Alt r q) s i = ends r s i @ ends q s i"
| "ends (Star r) s i = star_ends (ends r s) (length s) i"

text \<open>\<open>finditer\<close>: the leftmost match from \<open>i\<close> on, then the next one behind it. (No pattern
  of the modelled code matches the empty text.)\<close>

function finditer_from :: "regex \<Rightarrow> pystr \<Rightarrow> nat \<Rightarrow> (nat \<times> nat) list" where
  "finditer_from r s i =
     (if length s < i then []
      else case ends r s i of
             [] \<Rightarrow> finditer_from r s (Suc i)
           | j # _ \<Rightarrow> (i, j) # finditer_from r s (max j (Suc i)))"
  by auto
termination
  by (relation "measure (\<lambda>(r, s, i). Suc (length s) - i)") auto

declare finditer_from.simps [simp del]

definition finditer :: "regex \<Rightarrow> pystr \<Rightarrow> (nat \<times> nat) list" where
  "finditer r s = finditer_from r s 0"

definition fullmatch :: "regex \<Rightarrow> pystr \<Rightarrow> bool" where
  "fullmatch r s \<longleftrightarrow> length s \<in> set (ends r s 0)"

definition re_search :: "regex \<Rightarrow> pystr \<Rightarrow> bool" where
  "re_search r s \<longleftrightarrow> finditer r s \<noteq> []"

text \<open>\<open>re.sub(r, rep, s)\<close> with a literal replacement.\<close>

fun sub_spans :: "pystr \<Rightarrow> pystr \<Rightarrow> nat \<Rightarrow> (nat \<times> nat) list \<Rightarrow> pystr" where
  "sub_spans rep s k [] = drop k s"
| "sub_spans rep s k ((i, j) # spans) = slice k i s @ rep @ sub_spans rep s j spans"

definition re_sub :: "regex \<Rightarrow> pystr \<Rightarrow> pystr \<Rightarrow> pystr" where
  "re_sub r rep s = sub_spans rep s 0 (finditer r s)"

subsection \<open>Derived patterns\<close>

definition eps :: regex where
  "eps = At (\<lambda>_ _. True)"

definition opt :: "regex \<Rightarrow> regex" where
  "opt r = Alt r eps"

definition plus1 :: "regex \<Rightarrow> regex" where
  "plus1 r = Cat r (Star r)"

primrec times_re :: "nat \<Rightarrow> regex \<Rightarrow> regex" where
  "times_re 0 r = eps"
| "times_re (Suc n) r = Cat r (times_re n r)"

definition at_least :: "nat \<Rightarrow> regex \<Rightarrow> regex" where
  "at_least n r = Cat (times_re n r) (Star r)"

fun lit :: "(nat \<Rightarrow> nat) \<Rightarrow> pystr \<Rightarrow> regex" where
  "lit fold_case [] = eps"
| "lit fold_case (c # cs) = Cat (Chr (\<lambda>d. fold_case d = c)) (lit fold_case cs)"

text \<open>The lower-case form under which \<open>re.IGNORECASE\<close> compares ASCII letters: besides the
  capitals it takes the long s, both Turkish i and the Kelvin sign.\<close>

definition fold_ci :: "nat \<Rightarrow> nat" where
  "fold_ci c = (if is_upper c then c + 32 else if c = 0x17F then 115
     else if c = 0x130 \<or> c = 0x131 then 105 else if c = 0x212A then 107 else c)"

text \<open>\<open>\\b\<close>: exactly one of the characters around the position is a word character, a
  missing one counting as none.\<close>

definition word_boundary :: "(nat \<Rightarrow> bool) \<Rightarrow> pystr \<Rightarrow> nat \<Rightarrow> bool" where
  "word_boundary word s i \<longleftrightarrow>
     (0 < i \<and> i \<le> length s \<and> word (s ! (i - 1))) \<noteq> (i < length s \<and> word (s ! i))"

definition at_start :: regex where
  "at_start = At (\<lambda>s i. i = 0)"

definition at_end :: regex where
  "at_end = At (\<lambda>s i. i = length s \<or> Suc i = length s \<and> s ! i = 10)"

definition ahead :: "regex \<Rightarrow> regex" where
  "ahead r = At (\<lambda>s i. ends r s i \<noteq> [])"

subsection \<open>Character classes\<close>

text \<open>The facts the Unicode database holds: which code points are word characters and decimal
  digits, and the upper-case forms.\<close>

record unicode =
  u_word :: "nat \<Rightarrow> bool"
  u_digit :: "nat \<Rightarrow> bool"
  u_upper :: "nat \<Rightarrow> pystr"

text \<open>\<open>str.upper\<close> maps one character after the other; what it does beyond ASCII (where a character may
  become several) is data.\<close>

definition upper_in :: "unicode \<Rightarrow> pystr \<Rightarrow> pystr" where
  "upper_in U s = concat (map (\<lambda>c. if c < 128 then upper [c] else u_upper U c) s)"

lemma upper_in_append: "upper_in U (s @ t) = upper_in U s @ upper_in U t"
  by (simp add: upper_in_def)

lemma upper_in_ascii: "list_all (\<lambda>c. c < 128) s \<Longrightarrow> upper_in U s = upper s"
  by (induction s) (auto simp: upper_in_def upper_def)

definition one_of :: "string \<Rightarrow> nat \<Rightarrow> bool" where
  "one_of cs c \<longleftrightarrow> list_ex ((=) c) (u cs)"

definition letter :: "nat \<Rightarrow> bool" where
  "letter c \<longleftrightarrow> is_upper c \<or> is_lower c"

definition alnum :: "nat \<Rightarrow> bool" where
  "alnum c \<longleftrightarrow> letter c \<or> is_digit c"

definition non_space :: "nat \<Rightarrow> bool" where
  "non_space c \<longleftrightarrow> \<not> is_space c"

fun cats :: "regex list \<Rightarrow> regex" where
  "cats [] = eps"
| "cats [r] = r"
| "cats (r # q # rs) = Cat r (cats (q # rs))"

definition exactly :: "string \<Rightarrow> regex" where
  "exactly s = lit id (u s)"

definition ignoring_case :: "string \<Rightarrow> regex" where
  "ignoring_case s = lit fold_ci (u s)"

definition bound :: "unicode \<Rightarrow> regex" where
  "bound U = At (word_boundary (u_word U))"

text \<open>A database of ASCII alone, for evaluation.\<close>

definition ascii_db :: unicode where
  "ascii_db = \<lparr>u_word = (\<lambda>c. alnum c \<or> c = 95), u_digit = is_digit, u_upper = (\<lambda>c. [c])\<rparr>"

subsection \<open>Spans\<close>

lemma star_ends_bounds:
  assumes "\<And>i j. i \<le> limit \<Longrightarrow> j \<in> set (f i) \<Longrightarrow> i \<le> j \<and> j \<le> limit"
  shows "i \<le> limit \<Longrightarrow> j \<in> set (star_ends f limit i) \<Longrightarrow> i \<le> j \<and> j \<le> limit"
proof (induction "limit - i" arbitrary: i rule: less_induct)
  case less
  from less.prems(2) consider "j = i"
    | k where "k \<in> set (f i)" "i < k" "k \<le> limit" "j \<in> set (star_ends f limit k)"
    by (subst (asm) star_ends.simps) (auto split: if_splits)
  then show ?case
  proof cases
    case 1
    then show ?thesis using less.prems(1) by simp
  next
    case (2 k)
    then have "limit - k < limit - i" by linarith
    then show ?thesis using less.hyps [of k] 2 by simp
  qed
qed

lemma ends_bounds: "i \<le> length s \<Longrightarrow> j \<in> set (ends r s i) \<Longrightarrow> i \<le> j \<and> j \<le> length s"
proof (induction r arbitrary: i j)
  case (Cat r q)
  from Cat.prems(2) obtain k where "k \<in> set (ends r s i)" "j \<in> set (ends q s k)" by auto
  then show ?case using Cat.IH(1) [of i k] Cat.IH(2) [of k j] Cat.prems(1) by simp
next
  case (Star r)
  show ?case
  proof (rule star_ends_bounds [OF Star.IH])
    show "i \<le> length s" by (rule Star.prems(1))
    show "j \<in> set (star_ends (ends r s) (length s) i)" using Star.prems(2) by (simp only: ends.simps)
  qed
next
  case (Alt r q)
  from Alt.prems(2) consider "j \<in> set (ends r s i)" | "j \<in> set (ends q s i)" by auto
  then show ?case using Alt.IH(1) [of i j] Alt.IH(2) [of i j] Alt.prems(1) by cases simp_all
next
  case (Chr p)
  then show ?case by (auto split: if_splits)
next
  case (At p)
  then show ?case by (auto split: if_splits)
qed

text \<open>A pattern that consumes at least one character.\<close>

definition consuming :: "regex \<Rightarrow> bool" where
  "consuming r \<longleftrightarrow> (\<forall>s i j. i \<le> length s \<longrightarrow> j \<in> set (ends r s i) \<longrightarrow> i < j)"

lemma consumingD: "consuming r \<Longrightarrow> i \<le> length s \<Longrightarrow> j \<in> set (ends r s i) \<Longrightarrow> i < j \<and> j \<le> length s"
  using ends_bounds [of i s j r] unfolding consuming_def by blast

lemma consuming_Chr [intro, simp]: "consuming (Chr p)"
  by (auto simp: consuming_def)

lemma consuming_Cat_left [intro]: "consuming r \<Longrightarrow> consuming (Cat r q)"
  unfolding consuming_def by simp (meson ends_bounds less_le_trans order.strict_implies_order)

lemma consuming_Cat_right [intro]: "consuming q \<Longrightarrow> consuming (Cat r q)"
  unfolding consuming_def by simp (meson ends_bounds le_less_trans)

lemma consuming_Alt [intro]: "consuming r \<Longrightarrow> consuming q \<Longrightarrow> consuming (Alt r q)"
  by (auto simp: consuming_def)

lemma consuming_plus1 [intro]: "consuming r \<Longrightarrow> consuming (plus1 r)"
  by (auto simp: plus1_def)

lemma consuming_at_least [intro]: "consuming r \<Longrightarrow> consuming (at_least (Suc n) r)"
  by (auto simp: at_least_def)

text \<open>Spans in order, disjoint, not empty and inside the text.\<close>

fun spans_from :: "nat \<Rightarrow> nat \<Rightarrow> (nat \<times> nat) list \<Rightarrow> bool" where
  "spans_from n k [] \<longleftrightarrow> True"
| "spans_from n k ((i, j) # spans) \<longleftrightarrow> k \<le> i \<and> i < j \<and> j \<le> n \<and> spans_from n j spans"

lemma spans_from_weaken: "spans_from n k spans \<Longrightarrow> k' \<le> k \<Longrightarrow> spans_from n k' spans"
  by (cases spans) auto

lemma finditer_from_spans:
  assumes "consuming r"
  shows "spans_from (length s) i (finditer_from r s i)
    \<and> (\<forall>(a, b) \<in> set (finditer_from r s i). \<exists>js. ends r s a = b # js)"
  using assms
proof (induction r s i rule: finditer_from.induct)
  case (1 r s i)
  show ?case
  proof (cases "length s < i")
    case True
    then show ?thesis by (subst (1 2) finditer_from.simps) simp
  next
    case le: False
    show ?thesis
    proof (cases "ends r s i")
      case Nil
      have "spans_from (length s) i (finditer_from r s (Suc i))"
        using "1.IH"(1) [OF le Nil "1.prems"] spans_from_weaken by fastforce
      then show ?thesis using "1.IH"(1) [OF le Nil "1.prems"] le Nil
        by (subst (1 2) finditer_from.simps) simp
    next
      case (Cons j js)
      then have "i < j \<and> j \<le> length s" using le by (intro consumingD [OF "1.prems"]) simp_all
      moreover from this have "max j (Suc i) = j" by simp
      ultimately show ?thesis using "1.IH"(2) [OF le Cons "1.prems"] le Cons
        by (subst (1 2) finditer_from.simps) simp
    qed
  qed
qed

lemma finditer_spans: "consuming r \<Longrightarrow> spans_from (length s) 0 (finditer r s)"
  using finditer_from_spans [of r s 0] by (simp add: finditer_def)

lemma spans_from_mem: "spans_from n k spans \<Longrightarrow> (i, j) \<in> set spans \<Longrightarrow> k \<le> i \<and> i < j \<and> j \<le> n"
  by (induction spans arbitrary: k) force+

lemma finditer_mem: "consuming r \<Longrightarrow> (i, j) \<in> set (finditer r s) \<Longrightarrow> i < j \<and> j \<le> length s"
  using spans_from_mem [OF finditer_spans] by blast

subsection \<open>Substitution\<close>

text \<open>Substitution brings in no character but those of the replacement.\<close>

lemma set_sub_spans: "set (sub_spans rep s k spans) \<subseteq> set s \<union> set rep"
  by (induction rep s k spans rule: sub_spans.induct) (auto dest: in_set_dropD set_slice)

lemma set_re_sub: "set (re_sub r rep s) \<subseteq> set s \<union> set rep"
  by (simp add: re_sub_def set_sub_spans)

text \<open>Repetition of a character class runs to the end of the run, longest first.\<close>

lemma star_Chr:
  "i \<le> length s \<Longrightarrow> ends (Star (Chr p)) s i = rev [i..<Suc (i + length (takeWhile p (drop i s)))]"
proof (induction "length s - i" arbitrary: i)
  case 0
  then show ?case by (simp add: star_ends.simps)
next
  case (Suc n)
  then have i: "i < length s" by simp
  have d: "drop i s = s ! i # drop (Suc i) s" using i by (simp add: Cons_nth_drop_Suc)
  show ?case
  proof (cases "p (s ! i)")
    case True
    have "ends (Star (Chr p)) s i = ends (Star (Chr p)) s (Suc i) @ [i]"
      using i True by (subst ends.simps, subst star_ends.simps) simp
    also have "\<dots> = rev [Suc i..<Suc (Suc i + length (takeWhile p (drop (Suc i) s)))] @ [i]"
      using Suc.hyps(1) [of "Suc i"] Suc.hyps(2) i by simp
    also have "\<dots> = rev [i..<Suc (Suc i + length (takeWhile p (drop (Suc i) s)))]"
      by (simp add: upt_conv_Cons del: upt_Suc)
    finally show ?thesis using True by (simp add: d del: upt_Suc)
  next
    case False
    then have "ends (Star (Chr p)) s i = [i]" using i by (simp add: star_ends.simps)
    then show ?thesis using False by (simp add: d)
  qed
qed

lemma hd_star_Chr:
  "i \<le> length s \<Longrightarrow> \<exists>js. ends (Star (Chr p)) s i = (i + length (takeWhile p (drop i s))) # js"
  by (simp only: star_Chr) simp

subsection \<open>The characters of a match\<close>

text \<open>Every character a match of \<open>r\<close> runs over satisfies \<open>P\<close>.\<close>

definition covers :: "(nat \<Rightarrow> bool) \<Rightarrow> regex \<Rightarrow> bool" where
  "covers P r \<longleftrightarrow> (\<forall>s i j k. i \<le> length s \<longrightarrow> j \<in> set (ends r s i) \<longrightarrow> i \<le> k \<longrightarrow> k < j \<longrightarrow> P (s ! k))"

lemma coversD:
  "covers P r \<Longrightarrow> i \<le> length s \<Longrightarrow> j \<in> set (ends r s i) \<Longrightarrow> i \<le> k \<Longrightarrow> k < j \<Longrightarrow> P (s ! k)"
  unfolding covers_def by blast

lemma covers_Chr [intro]: "(\<And>c. p c \<Longrightarrow> P c) \<Longrightarrow> covers P (Chr p)"
  by (auto simp: covers_def less_Suc_eq_le)

lemma covers_Cat [intro]: "covers P r \<Longrightarrow> covers P q \<Longrightarrow> covers P (Cat r q)"
  unfolding covers_def
proof (intro allI impI, goal_cases)
  case (1 s i j k)
  then obtain m where m: "m \<in> set (ends r s i)" "j \<in> set (ends q s m)" by auto
  have "m \<le> length s" using ends_bounds [OF 1(3) m(1)] by simp
  then show ?case using 1 m by (cases "k < m") (meson not_less)+
qed

lemma covers_Star [intro]:
  assumes "covers P r"
  shows "covers P (Star r)"
  unfolding covers_def
proof (intro allI impI)
  fix s i j k
  assume "i \<le> length s" "j \<in> set (ends (Star r) s i)" "i \<le> k" "k < j"
  then show "P (s ! k)"
  proof (induction "length s - i" arbitrary: i rule: less_induct)
    case less
    have "j \<in> set (star_ends (ends r s) (length s) i)" using less.prems(2) by simp
    then consider "j = i" | m where "m \<in> set (ends r s i)" "i < m" "m \<le> length s"
      "j \<in> set (star_ends (ends r s) (length s) m)"
      by (subst (asm) star_ends.simps) (auto split: if_splits)
    then show ?case
    proof cases
      case 1
      then show ?thesis using less.prems by simp
    next
      case (2 m)
      show ?thesis
      proof (cases "k < m")
        case True
        then show ?thesis using coversD [OF assms less.prems(1) 2(1)] less.prems(3) by simp
      next
        case False
        have "length s - m < length s - i" using 2(2,3) by linarith
        then show ?thesis using less.hyps [of m] 2 less.prems(4) False by simp
      qed
    qed
  qed
qed

lemma finditer_covers:
  assumes "covers P r" and "consuming r" and "(i, j) \<in> set (finditer r s)"
  shows "list_all P (slice i j s)"
proof -
  obtain js where js: "ends r s i = j # js"
    using finditer_from_spans [OF assms(2), of s 0] assms(3) by (auto simp: finditer_def)
  have m: "i < j \<and> j \<le> length s" by (rule finditer_mem [OF assms(2,3)])
  have "P (s ! k)" if "i \<le> k" "k < j" for k
    by (rule coversD [OF assms(1), of i s j]) (use m js that in simp_all)
  then show ?thesis using m by (auto simp: list_all_length slice_def)
qed

end
