(* ===== verification/PersianNormalize.thy ===== *)
theory PersianNormalize
  imports Prelude PyStr PyRegex "HOL-Library.Product_Lexorder" "HOL-Library.Sublist"
begin

text \<open>
  The mechanical normalisation of Persian text (\<open>plugin/persian/normalize.py\<close>): the regions
  that are protected from it, the normalisation itself, and the changes read off the original and
  the normalised text. Hazm's normaliser is an argument (\<open>None\<close>: not installed, or a function
  whose \<open>None\<close> is an exception); which code points are word characters and decimal digits, for
  which Python asks the Unicode database, is an argument as well.
\<close>

subsection \<open>The patterns of protected text\<close>

definition URL_PATTERN :: "unicode \<Rightarrow> regex" where
  "URL_PATTERN U = cats [bound U,
     Alt (Cat (ignoring_case ''http'') (opt (ignoring_case ''s''))) (ignoring_case ''ftp''),
     exactly ''://'', Chr (\<lambda>c. non_space c \<and> \<not> one_of ''/$.?#'' c), Chr (\<lambda>c. c \<noteq> 10),
     Star (Chr non_space)]"

definition EMAIL_PATTERN :: "unicode \<Rightarrow> regex" where
  "EMAIL_PATTERN U = cats [bound U, plus1 (Chr (\<lambda>c. alnum c \<or> one_of ''._%+-'' c)), exactly ''@'',
     plus1 (Chr (\<lambda>c. alnum c \<or> one_of ''.-'' c)), exactly ''.'',
     at_least 2 (Chr (\<lambda>c. letter c \<or> one_of ''|'' c)), bound U]"

definition VERSION_PATTERN :: "unicode \<Rightarrow> regex" where
  "VERSION_PATTERN U = cats [bound U,
     opt (Alt (ignoring_case ''v'') (Cat (ignoring_case ''version'') (plus1 (Chr is_space)))),
     plus1 (Chr (u_digit U)), plus1 (Cat (exactly ''.'') (plus1 (Chr (u_digit U)))),
     opt (Cat (exactly ''-'') (plus1 (Chr (\<lambda>c. alnum (fold_ci c))))), bound U]"

definition NUMBER_PATTERN :: "unicode \<Rightarrow> regex" where
  "NUMBER_PATTERN U = (let d = Chr (u_digit U) in
     cats [bound U, d, opt (Cat d (opt d)),
       plus1 (cats [Chr (one_of '',. ''), d, d, d]), opt (Cat (exactly ''.'') (plus1 d)), bound U])"

definition ident_re :: regex where
  "ident_re = Cat (Chr (\<lambda>c. letter c \<or> c = 95)) (Star (Chr (\<lambda>c. alnum c \<or> c = 95)))"

definition CODE_PATTERN :: "unicode \<Rightarrow> regex" where
  "CODE_PATTERN U = Alt (cats [bound U, ident_re, exactly ''()''])
     (Alt (cats [bound U, ident_re, exactly ''.'', ident_re])
       (Cat (exactly ''/'') (plus1 (Chr non_space))))"

definition DOT_PATH_PATTERN :: regex where
  "DOT_PATH_PATTERN = cats [Alt at_start (Chr (\<lambda>c. is_space c \<or> one_of ''([<'' c)),
     plus1 (Cat (plus1 (Chr (\<lambda>c. alnum c \<or> c = 45))) (exactly ''.'')),
     at_least 2 (Chr letter), opt (Cat (exactly ''/'') (Star (Chr non_space))),
     Alt (ahead (Chr (\<lambda>c. is_space c \<or> one_of '')]>.,;:!?'' c))) at_end]"

definition PROTECT_PATTERNS :: "unicode \<Rightarrow> regex list" where
  "PROTECT_PATTERNS U = [URL_PATTERN U, EMAIL_PATTERN U, VERSION_PATTERN U, NUMBER_PATTERN U,
     CODE_PATTERN U, DOT_PATH_PATTERN]"

subsection \<open>Protected text\<close>

record protected_text =
  original :: pystr
  protected_regions :: "(nat \<times> nat \<times> pystr) list"
  placeholder_map :: "(pystr \<times> pystr) list"
  placeholder_counter :: nat

definition protector :: "pystr \<Rightarrow> protected_text" where
  "protector text = \<lparr>original = text, protected_regions = [], placeholder_map = [],
     placeholder_counter = 0\<rparr>"

definition should_protect :: "unicode \<Rightarrow> pystr \<Rightarrow> bool" where
  "should_protect U text =
     (if fullmatch (URL_PATTERN U) text \<or> fullmatch (EMAIL_PATTERN U) text then True
      else if fullmatch (VERSION_PATTERN U) text then True
      else if fullmatch (NUMBER_PATTERN U) text then True
      else if re_search (CODE_PATTERN U) text then True
      else re_search DOT_PATH_PATTERN text)"

definition protect_matches :: "unicode \<Rightarrow> pystr \<Rightarrow> (nat \<times> nat \<times> pystr) list" where
  "protect_matches U text = concat (map (\<lambda>pattern.
     filter (\<lambda>(start, end, t). should_protect U t)
       (map (\<lambda>(i, j). (i, j, slice i j text)) (finditer pattern text))) (PROTECT_PATTERNS U))"

definition overlaps_any :: "(nat \<times> nat \<times> pystr) list \<Rightarrow> nat \<Rightarrow> nat \<Rightarrow> bool" where
  "overlaps_any kept start fin \<longleftrightarrow> list_ex (\<lambda>(f_start, f_end, _). start < f_end \<and> f_start < fin) kept"

definition keep_first :: "(nat \<times> nat \<times> pystr) list \<Rightarrow> (nat \<times> nat \<times> pystr) list" where
  "keep_first ms = fold (\<lambda>(start, fin, t) kept.
     if overlaps_any kept start fin then kept else kept @ [(start, fin, t)]) ms []"

text \<open>The letters of a placeholder: base 26, at least four.\<close>

fun base26 :: "nat \<Rightarrow> pystr" where
  "base26 n = (if n = 0 then [] else base26 (n div 26) @ [97 + n mod 26])"

declare base26.simps [simp del]

lemma base26_0 [simp]: "base26 0 = []"
  by (simp add: base26.simps)

definition placeholder_chars :: "nat \<Rightarrow> pystr" where
  "placeholder_chars n = (if n = 0 then u ''aaaa''
     else replicate (4 - length (base26 n)) 97 @ base26 n)"

definition placeholder :: "nat \<Rightarrow> pystr" where
  "placeholder n = 0 # (u ''PROT_'' @ placeholder_chars n) @ [0]"

definition add_region :: "nat \<times> nat \<times> pystr \<Rightarrow> protected_text \<Rightarrow> protected_text" where
  "add_region m p = (case m of (start, fin, t) \<Rightarrow>
     let ph = placeholder (placeholder_counter p) in
     p\<lparr>placeholder_counter := Suc (placeholder_counter p),
       protected_regions := protected_regions p @ [(start, fin, ph)],
       placeholder_map := AList.update ph t (placeholder_map p)\<rparr>)"

definition find_protected_regions :: "unicode \<Rightarrow> protected_text \<Rightarrow> protected_text" where
  "find_protected_regions U p = fold add_region
     (keep_first (sort_key (\<lambda>(start, fin, _). (int start, - (int fin - int start)))
       (protect_matches U (original p)))) p"

fun with_placeholders :: "pystr \<Rightarrow> nat \<Rightarrow> (nat \<times> nat \<times> pystr) list \<Rightarrow> pystr" where
  "with_placeholders text last_end [] = drop last_end text"
| "with_placeholders text last_end ((start, fin, ph) # regions) =
     slice last_end start text @ ph @ with_placeholders text fin regions"

definition protect :: "unicode \<Rightarrow> protected_text \<Rightarrow> pystr \<times> protected_text" where
  "protect U p =
     (let p' = (if protected_regions p = [] then find_protected_regions U p else p)
      in (if protected_regions p' = [] then original p'
          else with_placeholders (original p') 0 (protected_regions p'), p'))"

definition restore :: "protected_text \<Rightarrow> pystr \<Rightarrow> pystr" where
  "restore p text = fold (\<lambda>(ph, t) result. replace_all ph t result) (placeholder_map p) text"

subsection \<open>Normalisation\<close>

definition normalize_with_hazm :: "(pystr \<Rightarrow> pystr option) option \<Rightarrow> pystr \<Rightarrow> pystr" where
  "normalize_with_hazm hazm text =
     (case hazm of None \<Rightarrow> text
      | Some f \<Rightarrow> (case f text of None \<Rightarrow> text | Some t \<Rightarrow> t))"

definition dots :: regex where
  "dots = at_least 3 (Chr (\<lambda>c. c = 46))"

definition normalize_line :: "pystr \<Rightarrow> pystr" where
  "normalize_line line =
     re_sub (at_least 2 (Chr (\<lambda>c. c = 32))) [32] (replace_all [9] [32] line)"

definition apply_safe_normalizations :: "pystr \<Rightarrow> pystr" where
  "apply_safe_normalizations text =
     (let t1 = replace_all [0x643] [0x6A9] (replace_all [0x64A] [0x6CC] text);
          t2 = join nl (map normalize_line (split_on 10 t1));
          t3 = replace_all [0x640] [] t2
      in re_sub dots [0x2026] t3)"

subsection \<open>Changes\<close>

definition SAFE_ZWNJ_JOINS :: "(pystr \<times> pystr) list" where
  "SAFE_ZWNJ_JOINS =
     [([0x634, 0x6A9, 0x644, 0x20, 0x6AF, 0x6CC, 0x631, 0x6CC],
       [0x634, 0x6A9, 0x644, 0x200C, 0x6AF, 0x6CC, 0x631, 0x6CC]),
      ([0x633, 0x627, 0x632, 0x645, 0x627, 0x646, 0x20, 0x62F, 0x647, 0x6CC],
       [0x633, 0x627, 0x632, 0x645, 0x627, 0x646, 0x200C, 0x62F, 0x647, 0x6CC]),
      ([0x647, 0x645, 0x6A9, 0x627, 0x631, 0x6CC, 0x20, 0x647, 0x627, 0x6CC],
       [0x647, 0x645, 0x6A9, 0x627, 0x631, 0x6CC, 0x200C, 0x647, 0x627, 0x6CC]),
      ([0x646, 0x647, 0x20, 0x62A, 0x646, 0x647, 0x627],
       [0x646, 0x647, 0x200C, 0x62A, 0x646, 0x647, 0x627])]"

definition find_joined_word_changes :: "pystr \<Rightarrow> pystr \<Rightarrow> (pystr \<times> pystr) list" where
  "find_joined_word_changes orig norm =
     filter (\<lambda>(old, new). contains orig old \<and> contains norm new) SAFE_ZWNJ_JOINS"

fun drop_repeats :: "'a list \<Rightarrow> 'a list" where
  "drop_repeats (x # y # xs) = (if x = y then drop_repeats (x # xs) else x # drop_repeats (y # xs))"
| "drop_repeats xs = xs"

definition arabic_pair :: "nat \<Rightarrow> nat \<Rightarrow> bool" where
  "arabic_pair old new \<longleftrightarrow> old = 0x64A \<and> new = 0x6CC \<or> old = 0x643 \<and> new = 0x6A9"

definition find_arabic_char_changes :: "pystr \<Rightarrow> pystr \<Rightarrow> (pystr \<times> pystr) list" where
  "find_arabic_char_changes orig norm =
     drop_repeats (map (\<lambda>(c, d). ([c], [d])) (filter (\<lambda>(c, d). arabic_pair c d) (zip orig norm)))"

definition blanks :: regex where
  "blanks = at_least 2 (Chr (\<lambda>c. c = 32 \<or> c = 9))"

fun merge_spans :: "nat \<times> nat \<Rightarrow> (nat \<times> nat) list \<Rightarrow> (nat \<times> nat) list" where
  "merge_spans (current_start, current_end) [] = [(current_start, current_end)]"
| "merge_spans (current_start, current_end) ((start, fin) # ms) =
     (if start \<le> current_end + 1 then merge_spans (current_start, max current_end fin) ms
      else (current_start, current_end) # merge_spans (start, fin) ms)"

definition find_whitespace_changes :: "pystr \<Rightarrow> pystr \<Rightarrow> (pystr \<times> pystr) list" where
  "find_whitespace_changes orig norm =
     (case finditer blanks orig of
        [] \<Rightarrow> []
      | m # ms \<Rightarrow> filter (\<lambda>(old, new). old \<noteq> new)
          (map (\<lambda>(start, fin). (slice start fin orig, [32])) (merge_spans m ms)))"

definition tatweel_word :: regex where
  "tatweel_word = cats [Star (Chr non_space), Chr (\<lambda>c. c = 0x640), Star (Chr non_space)]"

definition find_tatweel_changes :: "pystr \<Rightarrow> pystr \<Rightarrow> (pystr \<times> pystr) list" where
  "find_tatweel_changes orig norm =
     filter (\<lambda>(old, new). old \<noteq> new)
       (map (\<lambda>(i, j). (slice i j orig, replace_all [0x640] [] (slice i j orig))) (finditer tatweel_word orig))"

definition find_ellipsis_changes :: "pystr \<Rightarrow> pystr \<Rightarrow> (pystr \<times> pystr) list" where
  "find_ellipsis_changes orig norm =
     filter (\<lambda>(old, new). old \<noteq> new) (map (\<lambda>(i, j). (slice i j orig, [0x2026])) (finditer dots orig))"

definition unique :: "'a list \<Rightarrow> 'a list" where
  "unique xs = fold (\<lambda>x seen. if x \<in> set seen then seen else seen @ [x]) xs []"

definition normalized_text :: "unicode \<Rightarrow> (pystr \<Rightarrow> pystr option) option \<Rightarrow> pystr \<Rightarrow> pystr" where
  "normalized_text U hazm text =
     (case protect U (protector text) of (protected, p) \<Rightarrow>
        restore p (apply_safe_normalizations (normalize_with_hazm hazm protected)))"

definition extract_hazm_changes ::
  "unicode \<Rightarrow> (pystr \<Rightarrow> pystr option) option \<Rightarrow> pystr \<Rightarrow> (pystr \<times> pystr) list" where
  "extract_hazm_changes U hazm text =
     (if text = [] \<or> strip text = [] then []
      else let final = normalized_text U hazm text
           in if final = text then []
              else unique (find_joined_word_changes text final @ find_arabic_char_changes text final
                     @ find_whitespace_changes text final @ find_tatweel_changes text final
                     @ find_ellipsis_changes text final))"

subsection \<open>Every pattern consumes\<close>

lemma consuming_cats: "r \<in> set rs \<Longrightarrow> consuming r \<Longrightarrow> consuming (cats rs)"
  by (induction rs rule: cats.induct) auto

lemma consuming_lit: "s \<noteq> [] \<Longrightarrow> consuming (lit f s)"
  by (cases s) auto

lemma consuming_exactly [simp]: "s \<noteq> [] \<Longrightarrow> consuming (exactly s)"
  by (simp add: exactly_def consuming_lit)

lemma consuming_plus1_Chr [simp]: "consuming (plus1 (Chr p))"
  by auto

lemma patterns_consume: "r \<in> set (PROTECT_PATTERNS U) \<Longrightarrow> consuming r"
proof -
  have url: "consuming (URL_PATTERN U)"
    unfolding URL_PATTERN_def by (rule consuming_cats [of "Chr (\<lambda>c. c \<noteq> 10)"]) simp_all
  have email: "consuming (EMAIL_PATTERN U)"
    unfolding EMAIL_PATTERN_def by (rule consuming_cats [of "exactly ''@''"]) simp_all
  have version: "consuming (VERSION_PATTERN U)"
    unfolding VERSION_PATTERN_def by (rule consuming_cats [of "plus1 (Chr (u_digit U))"]) simp_all
  have number: "consuming (NUMBER_PATTERN U)"
    unfolding NUMBER_PATTERN_def Let_def by (rule consuming_cats [of "Chr (u_digit U)"]) simp_all
  have code: "consuming (CODE_PATTERN U)"
    unfolding CODE_PATTERN_def
    by (intro consuming_Alt consuming_Cat_left consuming_cats [of "exactly ''()''"]
        consuming_cats [of "exactly ''.''"]) simp_all
  have "consuming DOT_PATH_PATTERN"
    unfolding DOT_PATH_PATTERN_def
    by (rule consuming_cats [of "plus1 (Cat (plus1 (Chr (\<lambda>c. alnum c \<or> c = 45))) (exactly ''.''))"])
      (simp, intro consuming_plus1 consuming_Cat_left, simp)
  with url email version number code show "r \<in> set (PROTECT_PATTERNS U) \<Longrightarrow> consuming r"
    by (auto simp: PROTECT_PATTERNS_def)
qed

subsection \<open>The protected regions\<close>

text \<open>Regions in order, disjoint, not empty and inside the text, with the text they cover.\<close>

fun regions_from :: "pystr \<Rightarrow> nat \<Rightarrow> (nat \<times> nat \<times> pystr) list \<Rightarrow> bool" where
  "regions_from text i [] \<longleftrightarrow> i \<le> length text"
| "regions_from text i ((start, fin, t) # ms) \<longleftrightarrow> i \<le> start \<and> start < fin \<and> fin \<le> length text
     \<and> t = slice start fin text \<and> regions_from text fin ms"

lemma regions_from_snoc:
  assumes "regions_from text i ms" and "\<And>m. m \<in> set ms \<Longrightarrow> fst (snd m) \<le> start" and "i \<le> start"
    and "start < fin" and "fin \<le> length text"
  shows "regions_from text i (ms @ [(start, fin, slice start fin text)])"
  using assms
proof (induction ms arbitrary: i)
  case Nil
  then show ?case by simp
next
  case (Cons m ms)
  obtain s f t where m: "m = (s, f, t)" by (cases m)
  have "f \<le> start" using Cons.prems(2) [of m] by (simp add: m)
  then have "regions_from text f (ms @ [(start, fin, slice start fin text)])"
    using Cons.prems by (intro Cons.IH) (simp_all add: m)
  then show ?case using Cons.prems(1) by (simp add: m)
qed

lemma protect_matches_mem:
  assumes "(start, fin, t) \<in> set (protect_matches U text)"
  shows "start < fin \<and> fin \<le> length text \<and> t = slice start fin text"
proof -
  obtain r where r: "r \<in> set (PROTECT_PATTERNS U)" "(start, fin) \<in> set (finditer r text)"
    "t = slice start fin text"
    using assms by (auto simp: protect_matches_def)
  from finditer_mem [OF patterns_consume [OF r(1)] r(2)] r(3) show ?thesis by simp
qed

lemma keep_first_regions:
  assumes "sorted (map fst ms)"
    and "\<And>start fin t. (start, fin, t) \<in> set ms \<Longrightarrow> start < fin \<and> fin \<le> length text \<and> t = slice start fin text"
  shows "regions_from text 0 (keep_first ms)"
proof -
  let ?f = "\<lambda>(start, fin, t) kept. if overlaps_any kept start fin then kept else kept @ [(start, fin, t)]"
  have "regions_from text 0 (fold ?f ms kept)"
    if "regions_from text 0 kept" "\<forall>x \<in> set kept. \<forall>y \<in> set ms. fst x \<le> fst y" for kept
    using that assms
  proof (induction ms arbitrary: kept)
    case Nil
    then show ?case by simp
  next
    case (Cons m ms)
    obtain start fin t where m: "m = (start, fin, t)" by (cases m)
    have b: "start < fin" "fin \<le> length text" "t = slice start fin text"
      using Cons.prems(4) [of start fin t] by (simp_all add: m)
    have IH: "regions_from text 0 kept' \<Longrightarrow> \<forall>x \<in> set kept'. \<forall>y \<in> set ms. fst x \<le> fst y \<Longrightarrow>
        regions_from text 0 (fold ?f ms kept')" for kept'
    proof (rule Cons.IH)
      show "sorted (map fst ms)" using Cons.prems(3) by simp
      show "start < fin \<and> fin \<le> length text \<and> t = slice start fin text" if "(start, fin, t) \<in> set ms"
        for start fin t
        by (rule Cons.prems(4)) (use that in simp)
    qed
    show ?case
    proof (cases "overlaps_any kept start fin")
      case True
      then show ?thesis using IH [OF Cons.prems(1)] Cons.prems(2) by (simp add: m)
    next
      case False
      have "fst (snd x) \<le> start" if "x \<in> set kept" for x
      proof -
        have "fst x \<le> start" using Cons.prems(2) that by (simp add: m)
        then have "fst x < fin" using b by simp
        with False that show ?thesis by (force simp: overlaps_any_def list_ex_iff)
      qed
      then have "regions_from text 0 (kept @ [(start, fin, t)])"
        using regions_from_snoc [OF Cons.prems(1), of start fin] b by simp
      moreover have "\<forall>x \<in> set (kept @ [(start, fin, t)]). \<forall>y \<in> set ms. fst x \<le> fst y"
        using Cons.prems(2,3) by (simp add: m)
      ultimately show ?thesis using IH False by (simp add: m)
    qed
  qed
  from this [of "[]"] show ?thesis by (simp add: keep_first_def)
qed

lemma sorted_fst: "sorted (map (\<lambda>x. (f x :: int, g x :: int)) xs) \<Longrightarrow> sorted (map f xs)"
  by (induction xs) (auto simp: less_eq_prod_def)

definition kept_matches :: "unicode \<Rightarrow> pystr \<Rightarrow> (nat \<times> nat \<times> pystr) list" where
  "kept_matches U text = keep_first (sort_key (\<lambda>(start, fin, _). (int start, - (int fin - int start)))
     (protect_matches U text))"

lemma kept_matches_regions: "regions_from text 0 (kept_matches U text)"
  unfolding kept_matches_def
proof (rule keep_first_regions)
  let ?k = "\<lambda>(start :: nat, fin :: nat, _ :: pystr). (int start, - (int fin - int start))"
  let ?ms = "sort_key ?k (protect_matches U text)"
  have "sorted (map ?k ?ms)" by simp
  then have "sorted (map (\<lambda>x. (int (fst x), - (int (fst (snd x)) - int (fst x)))) ?ms)"
    by (simp add: case_prod_unfold)
  from sorted_fst [OF this] have "sorted (map int (map fst ?ms))" by (simp add: comp_def)
  then show "sorted (map fst ?ms)" by (simp add: sorted_wrt_map)
  show "start < fin \<and> fin \<le> length text \<and> t = slice start fin text"
    if "(start, fin, t) \<in> set ?ms" for start fin t
    using that protect_matches_mem by simp
qed

subsection \<open>Placeholders\<close>

definition letters_val :: "pystr \<Rightarrow> nat" where
  "letters_val s = foldl (\<lambda>a c. 26 * a + (c - 97)) 0 s"

lemma letters_val_snoc: "letters_val (s @ [c]) = 26 * letters_val s + (c - 97)"
  by (simp add: letters_val_def)

lemma letters_val_base26: "letters_val (base26 n) = n"
proof (induction n rule: base26.induct)
  case (1 n)
  then show ?case
    by (cases "n = 0") (simp_all add: base26.simps [of n] letters_val_snoc, simp_all add: letters_val_def)
qed

lemma letters_val_pad: "letters_val (replicate k 97 @ s) = letters_val s"
  by (induction k) (simp_all add: letters_val_def)

lemma letters_val_chars: "letters_val (placeholder_chars n) = n"
  by (simp add: placeholder_chars_def letters_val_pad letters_val_base26)
    (simp add: letters_val_def u_def)

lemma base26_letters: "0 \<notin> set (base26 n)"
proof (induction n rule: base26.induct)
  case (1 n)
  then show ?case by (cases "n = 0") (simp_all add: base26.simps [of n])
qed

definition ph_body :: "nat \<Rightarrow> pystr" where
  "ph_body n = u ''PROT_'' @ placeholder_chars n"

lemma placeholder_body: "placeholder n = 0 # ph_body n @ [0]"
  by (simp add: placeholder_def ph_body_def)

lemma ph_body_inj: "ph_body m = ph_body n \<longleftrightarrow> m = n"
  by (auto simp: ph_body_def dest: arg_cong [of _ _ letters_val] simp: letters_val_chars)

lemma ph_body_no_nul: "0 \<notin> set (ph_body n)"
  by (auto simp: ph_body_def placeholder_chars_def base26_letters u_def)

lemma placeholder_inj: "placeholder m = placeholder n \<longleftrightarrow> m = n"
  by (simp add: placeholder_body ph_body_inj)

text \<open>The regions and the map the placeholders of the kept matches make, from counter \<open>k\<close> on.\<close>

fun regions_at :: "nat \<Rightarrow> (nat \<times> nat \<times> pystr) list \<Rightarrow> (nat \<times> nat \<times> pystr) list" where
  "regions_at k [] = []"
| "regions_at k ((start, fin, t) # ms) = (start, fin, placeholder k) # regions_at (Suc k) ms"

fun map_at :: "nat \<Rightarrow> (nat \<times> nat \<times> pystr) list \<Rightarrow> (pystr \<times> pystr) list" where
  "map_at k [] = []"
| "map_at k ((start, fin, t) # ms) = (placeholder k, t) # map_at (Suc k) ms"

lemma fold_add_region:
  "fst ` set (placeholder_map p) \<subseteq> placeholder ` {..<placeholder_counter p} \<Longrightarrow>
   fold add_region ms p = p\<lparr>placeholder_counter := placeholder_counter p + length ms,
     protected_regions := protected_regions p @ regions_at (placeholder_counter p) ms,
     placeholder_map := placeholder_map p @ map_at (placeholder_counter p) ms\<rparr>"
proof (induction ms arbitrary: p)
  case Nil
  then show ?case by simp
next
  case (Cons m ms)
  obtain start fin t where m: "m = (start, fin, t)" by (cases m)
  let ?k = "placeholder_counter p"
  have "placeholder ?k \<notin> fst ` set (placeholder_map p)"
  proof
    assume "placeholder ?k \<in> fst ` set (placeholder_map p)"
    then obtain j where "j < ?k" "placeholder ?k = placeholder j" using Cons.prems by blast
    then show False by (simp add: placeholder_inj)
  qed
  then have step: "add_region m p = p\<lparr>placeholder_counter := Suc ?k,
      protected_regions := protected_regions p @ [(start, fin, placeholder ?k)],
      placeholder_map := placeholder_map p @ [(placeholder ?k, t)]\<rparr>"
    by (simp add: add_region_def m Let_def update_fresh)
  have "fst ` set (placeholder_map p @ [(placeholder ?k, t)]) \<subseteq> placeholder ` {..<Suc ?k}"
    using Cons.prems by (auto simp: lessThan_Suc)
  then show ?case using Cons.IH [of "add_region m p"] by (simp add: step) (simp add: m)
qed

lemma find_protected_regions_eq:
  "find_protected_regions U (protector text) =
     \<lparr>original = text, protected_regions = regions_at 0 (kept_matches U text),
      placeholder_map = map_at 0 (kept_matches U text), placeholder_counter = length (kept_matches U text)\<rparr>"
  using fold_add_region [of "protector text" "kept_matches U text"]
  by (simp add: find_protected_regions_def kept_matches_def protector_def)

subsection \<open>Restoring\<close>

text \<open>A placeholder that is not among the pieces between the zeros does not occur.\<close>

lemma replace_absent_placeholder:
  assumes "ph_body n \<notin> set (split_on 0 s)"
  shows "replace_all (placeholder n) t s = s"
proof (rule replace_all_id)
  show "placeholder n \<noteq> []" by (simp add: placeholder_def)
  fix k
  show "slice k (k + length (placeholder n)) s \<noteq> placeholder n"
  proof
    assume "slice k (k + length (placeholder n)) s = placeholder n"
    then have "drop k s = placeholder n @ drop (k + length (placeholder n)) s"
      using slice_to_end [of k "k + length (placeholder n)" s] by simp
    then have "s = take k s @ 0 # ph_body n @ 0 # drop (k + length (placeholder n)) s"
      by (metis append_take_drop_id append_Cons append.assoc append_Nil placeholder_body)
    then have "split_on 0 s = split_on 0 (take k s) @ [ph_body n] @
        split_on 0 (drop (k + length (placeholder n)) s)"
      by (metis split_on_append_sep split_on_absent ph_body_no_nul)
    with assms show False by simp
  qed
qed

lemma replace_first:
  "c \<notin> set x \<Longrightarrow> replace_all (c # p) t (x @ (c # p) @ y) = x @ t @ replace_all (c # p) t y"
  by (induction x) (auto simp: replace_all_Cons)

lemma slice_sublist: "sublist (slice i j s) s"
  unfolding slice_def by (meson sublist_take sublist_drop sublist_order.order_trans)

text \<open>Between the zeros of a protected text are pieces of the text and the placeholders used.\<close>

lemma pieces_of_protected:
  assumes "regions_from text i ms" and "0 \<notin> set text"
  shows "x \<in> set (split_on 0 (with_placeholders text i (regions_at k ms))) \<Longrightarrow>
    sublist x text \<or> (\<exists>m \<ge> k. x = ph_body m)"
  using assms(1)
proof (induction ms arbitrary: i k)
  case Nil
  have "0 \<notin> set (drop i text)" using assms(2) by (auto dest: in_set_dropD)
  then show ?case using Nil by (auto simp: split_on_absent)
next
  case (Cons m ms)
  obtain start fin t where m: "m = (start, fin, t)" by (cases m)
  have "0 \<notin> set (slice i start text)" using assms(2) set_slice by metis
  then have "split_on 0 (with_placeholders text i (regions_at k (m # ms))) =
      slice i start text # ph_body k # split_on 0 (with_placeholders text fin (regions_at (Suc k) ms))"
    using split_on_append_sep [of 0 "slice i start text"] split_on_append_sep [of 0 "ph_body k"]
    by (simp add: m placeholder_body split_on_absent ph_body_no_nul)
  then consider "x = slice i start text" | "x = ph_body k"
    | "x \<in> set (split_on 0 (with_placeholders text fin (regions_at (Suc k) ms)))"
    using Cons.prems(1) by auto
  then show ?case
  proof cases
    case 1
    then show ?thesis by (simp add: slice_sublist)
  next
    case 2
    then show ?thesis by blast
  next
    case 3
    then have "sublist x text \<or> (\<exists>n \<ge> Suc k. x = ph_body n)"
      using Cons.IH [of fin "Suc k"] Cons.prems(2) by (simp add: m)
    then show ?thesis using Suc_leD by blast
  qed
qed

lemma restore_regions:
  assumes "0 \<notin> set text" and "\<not> sublist (u ''PROT_'') text"
  shows "regions_from text i ms \<Longrightarrow> 0 \<notin> set x \<Longrightarrow>
    fold (\<lambda>(ph, t) result. replace_all ph t result) (map_at k ms)
      (x @ with_placeholders text i (regions_at k ms)) = x @ drop i text"
proof (induction ms arbitrary: i k x)
  case Nil
  then show ?case by simp
next
  case (Cons m ms)
  obtain start fin t where m: "m = (start, fin, t)" by (cases m)
  let ?rest = "with_placeholders text fin (regions_at (Suc k) ms)" and ?g = "slice i start text"
  have r: "i \<le> start" "start < fin" "fin \<le> length text" "t = slice start fin text"
    "regions_from text fin ms" using Cons.prems(1) by (simp_all add: m)
  have no0: "0 \<notin> set (slice a b text)" for a b using assms(1) set_slice by metis
  have "\<not> sublist (ph_body k) text"
    using assms(2) unfolding ph_body_def by (meson sublist_append_leftI sublist_appendI sublist_order.order_trans
        sublist_append_rightI)
  then have "ph_body k \<notin> set (split_on 0 ?rest)"
    using pieces_of_protected [OF r(5) assms(1), of "ph_body k" "Suc k"] by (auto simp: ph_body_inj)
  then have rest: "replace_all (placeholder k) t ?rest = ?rest"
    by (rule replace_absent_placeholder)
  have "replace_all (placeholder k) t (x @ ?g @ placeholder k @ ?rest) = x @ ?g @ t @ ?rest"
    using replace_first [of 0 "x @ ?g" "ph_body k @ [0]" t ?rest] Cons.prems(2) no0 rest
    by (simp add: placeholder_body)
  moreover have "fold (\<lambda>(ph, t) result. replace_all ph t result) (map_at (Suc k) ms)
      ((x @ ?g @ t) @ ?rest) = (x @ ?g @ t) @ drop fin text"
    by (rule Cons.IH) (use r Cons.prems(2) no0 in simp_all)
  moreover have "?g @ t @ drop fin text = drop i text"
    using r slice_to_end [of start fin "text"] slice_to_end [of i start "text"] by simp
  ultimately show ?case by (simp add: m)
qed

lemma restore_protect:
  assumes "0 \<notin> set text" and "\<not> sublist (u ''PROT_'') text"
  shows "case protect U (protector text) of (q, p) \<Rightarrow> restore p q = text"
proof -
  have "regions_at k ms = [] \<longleftrightarrow> ms = []" for k ms by (cases ms) auto
  then show ?thesis
    using restore_regions [OF assms kept_matches_regions, of "[]" 0]
    by (auto simp: protect_def find_protected_regions_eq restore_def protector_def [of "text"]
        Let_def find_protected_regions_eq [unfolded protector_def])
qed

subsection \<open>Where changes come from\<close>

lemma set_unique [simp]: "set (unique xs) = set xs"
proof -
  have "set (fold (\<lambda>x seen. if x \<in> set seen then seen else seen @ [x]) xs acc) = set acc \<union> set xs" for acc
    by (induction xs arbitrary: acc) auto
  then show ?thesis by (simp add: unique_def)
qed

lemma distinct_unique [simp]: "distinct (unique xs)"
proof -
  have "distinct acc \<Longrightarrow>
      distinct (fold (\<lambda>x seen. if x \<in> set seen then seen else seen @ [x]) xs acc)" for acc
    by (induction xs arbitrary: acc) auto
  then show ?thesis by (simp add: unique_def)
qed

definition proper_change :: "pystr \<Rightarrow> pystr \<times> pystr \<Rightarrow> bool" where
  "proper_change text c \<longleftrightarrow> fst c \<noteq> [] \<and> fst c \<noteq> snd c \<and> sublist (fst c) text"

lemma contains_sublist: "contains s p \<Longrightarrow> sublist p s"
proof -
  assume "contains s p"
  then obtain j where "find_sub p s = Some j" by (auto simp: contains_def)
  then have "p = take (length p) (drop j s)" using find_sub_Some by metis
  then show "sublist p s" by (metis sublist_take sublist_drop sublist_order.order_trans)
qed

lemma joined_proper: "c \<in> set (find_joined_word_changes text norm) \<Longrightarrow> proper_change text c"
proof -
  assume "c \<in> set (find_joined_word_changes text norm)"
  moreover have "list_all (\<lambda>(old, new). old \<noteq> [] \<and> old \<noteq> new) SAFE_ZWNJ_JOINS"
    by (simp add: SAFE_ZWNJ_JOINS_def)
  ultimately show "proper_change text c"
    by (auto simp: find_joined_word_changes_def list_all_iff proper_change_def dest: contains_sublist)
qed

lemma set_drop_repeats: "set (drop_repeats xs) = set xs"
  by (induction xs rule: drop_repeats.induct) auto

lemma sublist_single: "c \<in> set s \<Longrightarrow> sublist [c] s"
  by (metis append_Cons append_Nil split_list sublist_appendI)

lemma arabic_proper: "c \<in> set (find_arabic_char_changes text norm) \<Longrightarrow> proper_change text c"
  by (auto simp: find_arabic_char_changes_def set_drop_repeats proper_change_def arabic_pair_def
      dest!: set_zip_leftD intro!: sublist_single)

lemma span_slice: "i < j \<Longrightarrow> j \<le> length s \<Longrightarrow> slice i j s \<noteq> [] \<and> sublist (slice i j s) s"
  by (auto simp: slice_sublist) (auto simp: slice_def)

lemma merge_spans_mem:
  "fst m < snd m \<Longrightarrow> snd m \<le> n \<Longrightarrow> \<forall>x \<in> set ms. fst x < snd x \<and> snd x \<le> n \<Longrightarrow>
   x \<in> set (merge_spans m ms) \<Longrightarrow> fst x < snd x \<and> snd x \<le> n"
proof (induction m ms rule: merge_spans.induct)
  case (1 s e)
  then show ?case by simp
next
  case (2 s e s' e' ms)
  show ?case
  proof (cases "s' \<le> e + 1")
    case True
    then show ?thesis using "2.IH"(1) [OF True] "2.prems" by simp
  next
    case False
    then consider "x = (s, e)" | "x \<in> set (merge_spans (s', e') ms)" using "2.prems"(4) by auto
    then show ?thesis using "2.IH"(2) [OF False] "2.prems" by cases simp_all
  qed
qed

lemma consuming_runs: "0 < n \<Longrightarrow> consuming (at_least n (Chr p))"
  by (cases n) (simp_all add: consuming_at_least)

lemma blanks_consume: "consuming blanks"
  unfolding blanks_def by (rule consuming_runs) simp

lemma dots_consume: "consuming dots"
  unfolding dots_def by (rule consuming_runs) simp

lemma tatweel_consume: "consuming tatweel_word"
  unfolding tatweel_word_def by (rule consuming_cats [of "Chr (\<lambda>c. c = 0x640)"]) simp_all

lemma whitespace_proper:
  assumes "c \<in> set (find_whitespace_changes text norm)"
  shows "proper_change text c"
proof (cases "finditer blanks text")
  case Nil
  then show ?thesis using assms by (simp add: find_whitespace_changes_def)
next
  case (Cons m ms)
  then obtain x where x: "x \<in> set (merge_spans m ms)" "c = (slice (fst x) (snd x) text, [32])"
    "slice (fst x) (snd x) text \<noteq> [32]"
    using assms by (auto simp: find_whitespace_changes_def)
  have "\<forall>x \<in> set (m # ms). fst x < snd x \<and> snd x \<le> length text"
    using finditer_mem [OF blanks_consume, of _ _ "text"] Cons by (metis prod.collapse)
  then have "fst x < snd x \<and> snd x \<le> length text"
    by (intro merge_spans_mem [OF _ _ _ x(1)]) simp_all
  then show ?thesis using x(2,3) span_slice [of "fst x" "snd x" "text"] by (simp add: proper_change_def)
qed

lemma spans_proper:
  assumes "consuming r" and "c \<in> set (filter (\<lambda>(old, new). old \<noteq> new)
      (map (\<lambda>(i, j). (slice i j text, f (slice i j text))) (finditer r text)))"
  shows "proper_change text c"
proof -
  obtain i j where m: "(i, j) \<in> set (finditer r text)" "c = (slice i j text, f (slice i j text))"
    "slice i j text \<noteq> f (slice i j text)"
    using assms(2) by auto
  from finditer_mem [OF assms(1) m(1)] show ?thesis using m(2,3) span_slice [of i j "text"] by (simp add: proper_change_def)
qed

lemma tatweel_proper: "c \<in> set (find_tatweel_changes text norm) \<Longrightarrow> proper_change text c"
  using spans_proper [OF tatweel_consume] unfolding find_tatweel_changes_def .

lemma ellipsis_proper: "c \<in> set (find_ellipsis_changes text norm) \<Longrightarrow> proper_change text c"
  using spans_proper [OF dots_consume, of c "text" "\<lambda>_. [0x2026]"] unfolding find_ellipsis_changes_def .

lemma extract_proper: "c \<in> set (extract_hazm_changes U hazm text) \<Longrightarrow> proper_change text c"
  by (auto simp: extract_hazm_changes_def Let_def split: if_splits
      intro: joined_proper arabic_proper whitespace_proper tatweel_proper ellipsis_proper)

subsection \<open>Evaluation\<close>

text \<open>The Unicode data of the witnesses: word characters and digits of ASCII, and the letters of the
  Arabic block.\<close>

definition ascii_arabic :: unicode where
  "ascii_arabic = \<lparr>u_word = (\<lambda>c. alnum c \<or> c = 95 \<or> 0x620 \<le> c \<and> c \<le> 0x64A \<or> 0x671 \<le> c \<and> c \<le> 0x6D3),
     u_digit = is_digit, u_upper = (\<lambda>c. [c])\<rparr>"

lemmas char_classes = alnum_def letter_def is_upper_def is_lower_def is_digit_def non_space_def
  is_space_def one_of_def fold_ci_def u_def ascii_arabic_def

lemmas re_eval = bound_def word_boundary_def exactly_def ignoring_case_def opt_def plus1_def at_least_def
  eps_def at_start_def at_end_def ahead_def ident_re_def finditer_def finditer_from.simps star_ends.simps

text \<open>A text with one protected region, evaluated.\<close>

definition path_text :: pystr where
  "path_text = u ''/a...b  c''"

lemmas eval_path = PROTECT_PATTERNS_def URL_PATTERN_def EMAIL_PATTERN_def VERSION_PATTERN_def
  NUMBER_PATTERN_def CODE_PATTERN_def DOT_PATH_PATTERN_def re_eval char_classes path_text_def Let_def

lemma path_spans:
  "finditer (URL_PATTERN ascii_arabic) path_text = []"
  "finditer (EMAIL_PATTERN ascii_arabic) path_text = []"
  "finditer (VERSION_PATTERN ascii_arabic) path_text = []"
  "finditer (NUMBER_PATTERN ascii_arabic) path_text = []"
  "finditer (CODE_PATTERN ascii_arabic) path_text = [(0, 6)]"
  "finditer DOT_PATH_PATTERN path_text = []"
  by (simp_all add: eval_path)

lemma path_should: "should_protect ascii_arabic (slice 0 6 path_text)"
  by (simp add: should_protect_def re_search_def slice_def) (simp add: eval_path)

lemma path_kept: "kept_matches ascii_arabic path_text = [(0, 6, u ''/a...b'')]"
proof -
  have "slice 0 6 path_text = u ''/a...b''" by (simp add: path_text_def u_def slice_def)
  then have "protect_matches ascii_arabic path_text = [(0, 6, u ''/a...b'')]"
    using path_should by (simp add: protect_matches_def PROTECT_PATTERNS_def path_spans)
  then show ?thesis by (simp add: kept_matches_def keep_first_def overlaps_any_def)
qed

text \<open>C38: Restoring a protected text gives the text back, when the text holds no NUL character and not the letters
  \<open>PROT_\<close>, with which the placeholders are made.\<close>

theorem protect_round_trip:
  assumes "0 \<notin> set text" and "\<not> sublist (u ''PROT_'') text"
  shows "case protect U (protector text) of (q, p) \<Rightarrow> restore p q = text"
  by (rule restore_protect [OF assms])

theorem protect_round_trip_witness:
  "case protect ascii_arabic (protector (u ''see v1.2'')) of (q, p) \<Rightarrow> restore p q = u ''see v1.2''"
  using protect_round_trip [of "u ''see v1.2''" ascii_arabic]
  by (simp add: u_def sublist_Cons_right)

text \<open>Every change replaces text that occurs in the selection by different text, and no change is
  listed twice, whatever Hazm returns.\<close>

theorem changes_proper:
  "list_all (proper_change text) (extract_hazm_changes U hazm text)
   \<and> distinct (extract_hazm_changes U hazm text)"
  using extract_proper by (auto simp: list_all_iff extract_hazm_changes_def Let_def)

text \<open>Two runs of blanks with a single character between them are merged into one change, and
  the character is lost with it: a one-letter word between double spaces is deleted.\<close>

theorem whitespace_merge_deletes:
  "find_whitespace_changes (u ''a  b  c'') norm = [(u ''  b  '', u '' '')]"
  by (simp add: find_whitespace_changes_def blanks_def re_eval u_def slice_def eval_nat_numeral)

text \<open>The changes are searched in the original text, not in the protected one: dots inside a
  protected path are listed for replacement as soon as anything else in the selection is normalised.\<close>

theorem protected_text_changed:
  "protected_regions (snd (protect ascii_arabic (protector path_text))) = [(0, 6, placeholder 0)]
   \<and> extract_hazm_changes ascii_arabic None path_text = [(u ''  '', u '' ''), (u ''...'', [0x2026])]"
proof -
  have p: "protect ascii_arabic (protector path_text) =
      (placeholder 0 @ u ''  c'', \<lparr>original = path_text, protected_regions = [(0, 6, placeholder 0)],
        placeholder_map = [(placeholder 0, u ''/a...b'')], placeholder_counter = 1\<rparr>)"
    using find_protected_regions_eq [of ascii_arabic path_text] path_kept
    by (simp add: protect_def protector_def Let_def path_text_def u_def)
  have n: "normalized_text ascii_arabic None path_text = u ''/a...b c''"
    by (simp add: normalized_text_def p normalize_with_hazm_def apply_safe_normalizations_def
        placeholder_def placeholder_chars_def u_def replace_char delete_char restore_def re_sub_def
        dots_def normalize_line_def re_eval nl_def slice_def eval_nat_numeral replace_all_Cons)
  have "find_joined_word_changes path_text (u ''/a...b c'') = []"
    "find_arabic_char_changes path_text (u ''/a...b c'') = []"
    by (simp_all add: find_joined_word_changes_def SAFE_ZWNJ_JOINS_def contains_def path_text_def u_def
        find_arabic_char_changes_def arabic_pair_def)
  moreover have "find_whitespace_changes path_text (u ''/a...b c'') = [(u ''  '', u '' '')]"
    by (simp add: find_whitespace_changes_def blanks_def re_eval path_text_def u_def slice_def eval_nat_numeral)
  moreover have "find_tatweel_changes path_text (u ''/a...b c'') = []"
    by (simp add: find_tatweel_changes_def tatweel_word_def re_eval path_text_def char_classes slice_def)
  moreover have "find_ellipsis_changes path_text (u ''/a...b c'') = [(u ''...'', [0x2026])]"
    by (simp add: find_ellipsis_changes_def dots_def re_eval path_text_def u_def slice_def eval_nat_numeral)
  moreover have "path_text \<noteq> []" "strip path_text \<noteq> []" "u ''/a...b c'' \<noteq> path_text"
    by (simp_all add: path_text_def u_def strip_def lstrip_def rstrip_def is_space_def)
  ultimately show ?thesis using p n
    by (simp add: extract_hazm_changes_def Let_def unique_def)
qed
text \<open>An Arabic letter behind a collapsed run of blanks is normalised but not listed, since the
  original and the normalised text are compared position by position.\<close>

theorem arabic_letter_missed:
  "apply_safe_normalizations [97, 32, 32, 0x64A] = [97, 32, 0x6CC]
   \<and> find_arabic_char_changes [97, 32, 32, 0x64A] [97, 32, 0x6CC] = []
   \<and> find_arabic_char_changes [97, 32, 0x64A] [97, 32, 0x6CC] = [([0x64A], [0x6CC])]"
  by (simp add: find_arabic_char_changes_def arabic_pair_def apply_safe_normalizations_def
      replace_char delete_char re_sub_def dots_def normalize_line_def re_eval nl_def slice_def
      eval_nat_numeral)

end
