(* ===== verification/PersianSpelling.thy ===== *)
theory PersianSpelling
  imports TrackedReplace PersianNormalize
begin

text \<open>
  The lexical correction of Persian text (\<open>plugin/persian/spelling.py\<close>): the dictionary of
  approved corrections and the list of candidates with the operations that change them, the search
  for approved corrections outside protected text, and the extraction of candidates. The two JSON
  files are a state; \<open>None\<close> is a file that is missing, unreadable or not JSON.
\<close>

subsection \<open>The dictionary files\<close>

record dict_entry =
  wrong :: pystr
  correct :: pystr
  entry_type :: pystr
  status :: pystr
  source :: "pystr list"

record candidate_entry =
  candidate :: pystr
  frequency :: "int option"
  sources :: "pystr list option"
  contexts :: "pystr list option"

record dict_files =
  approved_file :: "dict_entry list option"
  candidates_file :: "candidate_entry list option"

definition load_approved_dictionary :: "dict_files \<Rightarrow> dict_entry list" where
  "load_approved_dictionary d = (case approved_file d of None \<Rightarrow> []
     | Some data \<Rightarrow> filter (\<lambda>e. status e = u ''approved'') data)"

definition load_candidates_dictionary :: "dict_files \<Rightarrow> candidate_entry list" where
  "load_candidates_dictionary d = (case candidates_file d of None \<Rightarrow> [] | Some data \<Rightarrow> data)"

text \<open>Writing a file succeeds or raises \<open>OSError\<close> when it is opened; \<open>can_write\<close> says which.\<close>

definition save_candidates_dictionary ::
  "bool \<Rightarrow> candidate_entry list \<Rightarrow> dict_files \<Rightarrow> bool \<times> dict_files" where
  "save_candidates_dictionary can_write cs d =
     (if can_write then (True, d\<lparr>candidates_file := Some cs\<rparr>) else (False, d))"

fun bump_candidate ::
  "pystr \<Rightarrow> int \<Rightarrow> pystr list \<Rightarrow> pystr \<Rightarrow> candidate_entry list \<Rightarrow> candidate_entry list option" where
  "bump_candidate c n srcs ctx [] = None"
| "bump_candidate c n srcs ctx (e # es) =
     (if candidate e = c
      then Some (e\<lparr>frequency := Some ((case frequency e of None \<Rightarrow> 0 | Some k \<Rightarrow> k) + n),
             sources := (if srcs = [] then sources e
               else Some ((case sources e of None \<Rightarrow> [] | Some s \<Rightarrow> s) @ srcs)),
             contexts := (if ctx = [] then contexts e
               else Some ((case contexts e of None \<Rightarrow> [] | Some s \<Rightarrow> s) @ [ctx]))\<rparr> # es)
      else map_option ((#) e) (bump_candidate c n srcs ctx es))"

text \<open>\<open>sources=None\<close> and \<open>context=None\<close> behave as the empty list and the empty text.\<close>

definition add_candidate_entry ::
  "bool \<Rightarrow> pystr \<Rightarrow> int \<Rightarrow> pystr list \<Rightarrow> pystr \<Rightarrow> dict_files \<Rightarrow> bool \<times> dict_files" where
  "add_candidate_entry can_write c n srcs ctx d =
     (let candidates = load_candidates_dictionary d
      in case bump_candidate c n srcs ctx candidates of
           Some cs \<Rightarrow> save_candidates_dictionary can_write cs d
         | None \<Rightarrow> save_candidates_dictionary can_write
             (candidates @ [\<lparr>candidate = c, frequency = Some n, sources = Some srcs,
               contexts = (if ctx = [] then None else Some [ctx])\<rparr>]) d)"

definition promote_candidate_to_approved ::
  "bool \<Rightarrow> bool \<Rightarrow> pystr \<Rightarrow> pystr \<Rightarrow> pystr \<Rightarrow> pystr list \<Rightarrow> dict_files \<Rightarrow> bool \<times> dict_files" where
  "promote_candidate_to_approved can_write_candidates can_write_approved c corr etype src d =
     (let candidates = filter (\<lambda>e. candidate e \<noteq> c) (load_candidates_dictionary d);
          new_entry = \<lparr>wrong = c, correct = corr, entry_type = etype, status = u ''approved'',
            source = (if src = [] then [u ''manual''] else src)\<rparr>;
          approved = load_approved_dictionary d @ [new_entry]
      in if \<not> can_write_candidates then (False, d)
         else let d1 = d\<lparr>candidates_file := Some candidates\<rparr>
              in if \<not> can_write_approved then (False, d1)
                 else (True, d1\<lparr>approved_file := Some approved\<rparr>))"

subsection \<open>Finding corrections\<close>

definition spelling_entries :: "dict_entry list \<Rightarrow> dict_entry list" where
  "spelling_entries es = filter (\<lambda>e. entry_type e = u ''spelling'' \<or> entry_type e = u ''terminology'') es"

definition in_protected :: "(nat \<times> nat \<times> pystr) list \<Rightarrow> nat \<Rightarrow> nat \<Rightarrow> bool" where
  "in_protected regions match_start match_end \<longleftrightarrow>
     list_ex (\<lambda>(p_start, p_end, _). p_start \<le> match_start \<and> match_end \<le> p_end) regions"

definition entry_changes ::
  "pystr \<Rightarrow> (nat \<times> nat \<times> pystr) list \<Rightarrow> dict_entry \<Rightarrow> (pystr \<times> pystr \<times> nat) list" where
  "entry_changes text regions e =
     (if wrong e = [] \<or> correct e = [] \<or> wrong e = correct e then []
      else map (\<lambda>i. (wrong e, correct e, i))
        (filter (\<lambda>i. \<not> in_protected regions i (i + length (wrong e))) (occurrences (wrong e) text 0)))"

definition find_spelling_changes :: "unicode \<Rightarrow> dict_files \<Rightarrow> pystr \<Rightarrow> (pystr \<times> pystr) list" where
  "find_spelling_changes U d text =
     (if text = [] \<or> strip text = [] then []
      else let entries = spelling_entries (load_approved_dictionary d)
           in if entries = [] then []
              else let regions = protected_regions (snd (protect U (protector text)));
                       all_changes = concat (map (entry_changes text regions) entries)
                   in unique (map (\<lambda>(w, c, _). (w, c))
                        (sort_key (\<lambda>(_, _, i). - int i) all_changes)))"

subsection \<open>Extracting candidates\<close>

definition persian_letter :: "nat \<Rightarrow> bool" where
  "persian_letter c \<longleftrightarrow> 0x621 \<le> c \<and> c \<le> 0x63A \<or> 0x641 \<le> c \<and> c \<le> 0x64A
     \<or> c = 0x67E \<or> c = 0x686 \<or> c = 0x698 \<or> c = 0x6A9 \<or> c = 0x6AF \<or> c = 0x6CC"

definition PERSIAN_WORD_PATTERN :: regex where
  "PERSIAN_WORD_PATTERN = Cat (plus1 (Chr persian_letter))
     (Star (Cat (Chr (\<lambda>c. c = 0x200C)) (plus1 (Chr persian_letter))))"

definition is_mechanical_anomaly :: "pystr \<Rightarrow> bool" where
  "is_mechanical_anomaly word \<longleftrightarrow> (if 0x64A \<in> set word \<or> 0x643 \<in> set word then True else 0x640 \<in> set word)"

definition persian_words :: "pystr \<Rightarrow> pystr list" where
  "persian_words text = map (\<lambda>(i, j). slice i j text) (finditer PERSIAN_WORD_PATTERN text)"

definition count_word :: "pystr \<Rightarrow> (pystr \<times> nat) list \<Rightarrow> (pystr \<times> nat) list" where
  "count_word w freq = (if 1 < length w
     then AList.update w ((case map_of freq w of None \<Rightarrow> 0 | Some k \<Rightarrow> k) + 1) freq else freq)"

definition extract_candidates_from_text :: "pystr \<Rightarrow> pystr \<Rightarrow> candidate_entry list" where
  "extract_candidates_from_text text source_doc =
     (if text = [] \<or> strip text = [] then []
      else map (\<lambda>(w, n). \<lparr>candidate = w, frequency = Some (int n), sources = Some [source_doc],
               contexts = None\<rparr>)
        (filter (\<lambda>(w, n). 2 \<le> n \<and> is_mechanical_anomaly w)
          (fold count_word (persian_words text) [])))"

subsection \<open>Candidates\<close>

definition candidate_total :: "pystr \<Rightarrow> candidate_entry list \<Rightarrow> int" where
  "candidate_total c cs = sum_list (map (\<lambda>e. case frequency e of None \<Rightarrow> 0 | Some k \<Rightarrow> k)
     (filter (\<lambda>e. candidate e = c) cs))"

lemma bump_candidate_None:
  "bump_candidate c n srcs ctx cs = None \<longleftrightarrow> c \<notin> candidate ` set cs"
  by (induction cs) auto

lemma bump_candidate_Some:
  "bump_candidate c n srcs ctx cs = Some cs' \<Longrightarrow>
     map candidate cs' = map candidate cs \<and> candidate_total c cs' = candidate_total c cs + n
     \<and> filter (\<lambda>e. candidate e \<noteq> c) cs' = filter (\<lambda>e. candidate e \<noteq> c) cs"
proof (induction cs arbitrary: cs')
  case Nil
  then show ?case by simp
next
  case (Cons e es)
  then show ?case by (auto simp: candidate_total_def split: if_splits)
qed

text \<open>The counts of \<open>freq\<close>.\<close>

definition count_of :: "(pystr \<times> nat) list \<Rightarrow> pystr \<Rightarrow> nat" where
  "count_of freq w = (case map_of freq w of None \<Rightarrow> 0 | Some k \<Rightarrow> k)"

lemma count_of_count_word:
  "count_of (count_word v freq) w = count_of freq w + (if v = w \<and> 1 < length v then 1 else 0)"
  by (simp add: count_of_def count_word_def map_of_update)

lemma count_of_fold:
  "count_of (fold count_word ws freq) w =
     count_of freq w + (if 1 < length w then length (filter ((=) w) ws) else 0)"
  by (induction ws arbitrary: freq) (auto simp: count_of_count_word)

lemma fold_count_word_ok:
  "distinct (map fst freq) \<Longrightarrow> list_all (\<lambda>(_, n). 0 < n) freq \<Longrightarrow>
   distinct (map fst (fold count_word ws freq)) \<and> list_all (\<lambda>(_, n). 0 < n) (fold count_word ws freq)"
proof (induction ws arbitrary: freq)
  case Nil
  then show ?case by simp
next
  case (Cons v ws)
  have "list_all (\<lambda>(_, n). 0 < n) (AList.update v (k + 1) freq)" for k
    using Cons.prems(2) by (induction freq) auto
  then have "distinct (map fst (count_word v freq)) \<and> list_all (\<lambda>(_, n). 0 < n) (count_word v freq)"
    using Cons.prems by (simp add: count_word_def distinct_update)
  then show ?case using Cons.IH by simp
qed

lemma in_counts:
  "(w, n) \<in> set (fold count_word ws []) \<longleftrightarrow>
     1 < length w \<and> n = length (filter ((=) w) ws) \<and> 0 < n"
proof -
  let ?f = "fold count_word ws []"
  have f: "distinct (map fst ?f)" "list_all (\<lambda>(_, n). 0 < n) ?f" using fold_count_word_ok [of "[]" ws] by simp_all
  have c: "count_of ?f w = (if 1 < length w then length (filter ((=) w) ws) else 0)"
    by (simp add: count_of_fold) (simp add: count_of_def)
  have "(w, n) \<in> set ?f \<longleftrightarrow> map_of ?f w = Some n" by (rule map_of_mem [OF f(1)])
  moreover have "map_of ?f w = Some n \<Longrightarrow> 0 < n" using f(2) map_of_SomeD by (fastforce simp: list_all_iff)
  ultimately show ?thesis using c by (auto simp: count_of_def split: option.splits if_splits)
qed

lemma word_chars: "w \<in> set (persian_words text) \<Longrightarrow> list_all (\<lambda>c. persian_letter c \<or> c = 0x200C) w"
proof -
  assume "w \<in> set (persian_words text)"
  then obtain i j where m: "(i, j) \<in> set (finditer PERSIAN_WORD_PATTERN text)" "w = slice i j text"
    by (auto simp: persian_words_def)
  have "covers (\<lambda>c. persian_letter c \<or> c = 0x200C) PERSIAN_WORD_PATTERN"
    unfolding PERSIAN_WORD_PATTERN_def plus1_def by (intro covers_Cat covers_Star covers_Chr) simp_all
  moreover have "consuming PERSIAN_WORD_PATTERN" unfolding PERSIAN_WORD_PATTERN_def by auto
  ultimately show ?thesis using m finditer_covers by simp
qed

lemma no_tatweel: "w \<in> set (persian_words text) \<Longrightarrow> 0x640 \<notin> set w"
  using word_chars by (fastforce simp: list_all_iff persian_letter_def)

subsection \<open>Properties\<close>

text \<open>C37: A correction is proposed exactly when the file of approved corrections can be read and has an entry for it
  with status \<open>approved\<close> and type \<open>spelling\<close> or \<open>terminology\<close>, the text (which is not blank) contains the wrong form,
  found from left to right without overlaps, at a place that does not lie inside a protected region, and neither form is
  empty nor both the same. It is proposed once.\<close>

theorem spelling_changes_exact:
  "((w, c) \<in> set (find_spelling_changes U d text) \<longleftrightarrow>
     strip text \<noteq> [] \<and> w \<noteq> [] \<and> c \<noteq> [] \<and> w \<noteq> c \<and>
     (\<exists>data. approved_file d = Some data \<and>
        (\<exists>e \<in> set data. status e = u ''approved'' \<and> (entry_type e = u ''spelling'' \<or> entry_type e = u ''terminology'')
           \<and> wrong e = w \<and> correct e = c)) \<and>
     (\<exists>i \<in> set (occurrences w text 0).
        \<forall>(region_start, region_end, ph) \<in> set (protected_regions (snd (protect U (protector text)))).
          i < region_start \<or> region_end < i + length w))
   \<and> distinct (find_spelling_changes U d text)"
proof -
  let ?r = "protected_regions (snd (protect U (protector text)))"
  let ?es = "spelling_entries (load_approved_dictionary d)"
  have out: "\<not> in_protected ?r i k \<longleftrightarrow> (\<forall>(a, b, ph) \<in> set ?r. i < a \<or> b < k)" for i k
    by (auto simp: in_protected_def list_ex_iff not_le)
  have es: "(\<exists>e \<in> set ?es. wrong e = w \<and> correct e = c) \<longleftrightarrow>
     (\<exists>data. approved_file d = Some data \<and>
        (\<exists>e \<in> set data. status e = u ''approved'' \<and> (entry_type e = u ''spelling'' \<or> entry_type e = u ''terminology'')
           \<and> wrong e = w \<and> correct e = c))"
  proof (cases "approved_file d")
    case (Some data)
    then show ?thesis by (auto simp: spelling_entries_def load_approved_dictionary_def)
  qed (simp add: spelling_entries_def load_approved_dictionary_def)
  have "(w, c) \<in> (\<lambda>(w, c, _). (w, c)) ` set (concat (map (entry_changes text ?r) ?es)) \<longleftrightarrow>
     w \<noteq> [] \<and> c \<noteq> [] \<and> w \<noteq> c \<and> (\<exists>e \<in> set ?es. wrong e = w \<and> correct e = c) \<and>
     (\<exists>i \<in> set (occurrences w text 0). \<not> in_protected ?r i (i + length w))"
    by (auto simp: entry_changes_def image_iff split: if_splits)
  moreover have "strip text \<noteq> [] \<Longrightarrow> text \<noteq> []" by auto
  ultimately have "((w, c) \<in> set (find_spelling_changes U d text) \<longleftrightarrow>
     strip text \<noteq> [] \<and> w \<noteq> [] \<and> c \<noteq> [] \<and> w \<noteq> c \<and> (\<exists>e \<in> set ?es. wrong e = w \<and> correct e = c) \<and>
     (\<exists>i \<in> set (occurrences w text 0). \<not> in_protected ?r i (i + length w)))
   \<and> distinct (find_spelling_changes U d text)"
    by (auto simp: find_spelling_changes_def Let_def)
  then show ?thesis unfolding out es .
qed

text \<open>In \<open>/a...b  c\<close> the path is protected: of two approved corrections the one of \<open>c\<close> is proposed, that of \<open>a\<close> is
  not.\<close>

definition demo_entry :: "string \<Rightarrow> string \<Rightarrow> dict_entry" where
  "demo_entry w c = \<lparr>wrong = u w, correct = u c, entry_type = u ''spelling'', status = u ''approved'', source = []\<rparr>"

lemma demo_occurrences: "occurrences (u ''c'') path_text 0 = [8]" "occurrences (u ''a'') path_text 0 = [1]"
  by (simp_all add: occurrences.simps find_from_def path_text_def u_def)

theorem spelling_changes_exact_witness:
  "(u ''c'', u ''d'') \<in> set (find_spelling_changes ascii_arabic
       \<lparr>approved_file = Some [demo_entry ''a'' ''e'', demo_entry ''c'' ''d''], candidates_file = None\<rparr> path_text)
   \<and> (u ''a'', u ''e'') \<notin> set (find_spelling_changes ascii_arabic
       \<lparr>approved_file = Some [demo_entry ''a'' ''e'', demo_entry ''c'' ''d''], candidates_file = None\<rparr> path_text)"
proof -
  have r: "protected_regions (snd (protect ascii_arabic (protector path_text))) = [(0, 6, placeholder 0)]"
    using protected_text_changed by simp
  have "strip path_text \<noteq> []" by (simp add: path_text_def u_def strip_def lstrip_def rstrip_def is_space_def)
  then show ?thesis
    unfolding spelling_changes_exact [THEN conjunct1] r demo_occurrences
    by (simp add: demo_entry_def)
qed

text \<open>Adding a candidate raises its total frequency by the given count and touches no other
  candidate; a candidate is never listed twice.\<close>

theorem add_candidate_effect:
  "case add_candidate_entry can_write c n srcs ctx d of (ok, d') \<Rightarrow>
     ok = can_write \<and> approved_file d' = approved_file d
   \<and> candidate_total c (load_candidates_dictionary d') =
       candidate_total c (load_candidates_dictionary d) + (if can_write then n else 0)
   \<and> filter (\<lambda>e. candidate e \<noteq> c) (load_candidates_dictionary d') =
       filter (\<lambda>e. candidate e \<noteq> c) (load_candidates_dictionary d)
   \<and> distinct (map candidate (load_candidates_dictionary d')) =
       distinct (map candidate (load_candidates_dictionary d))"
proof (cases "bump_candidate c n srcs ctx (load_candidates_dictionary d)")
  case None
  then have "c \<notin> candidate ` set (load_candidates_dictionary d)" by (simp add: bump_candidate_None)
  then show ?thesis using None
    by (auto simp: add_candidate_entry_def Let_def save_candidates_dictionary_def candidate_total_def
        load_candidates_dictionary_def)
next
  case (Some cs)
  from bump_candidate_Some [OF this] have "map candidate cs = map candidate (load_candidates_dictionary d)"
    "candidate_total c cs = candidate_total c (load_candidates_dictionary d) + n"
    "filter (\<lambda>e. candidate e \<noteq> c) cs = filter (\<lambda>e. candidate e \<noteq> c) (load_candidates_dictionary d)"
    by simp_all
  then show ?thesis using Some
    by (cases can_write) (simp_all add: add_candidate_entry_def save_candidates_dictionary_def,
      simp_all add: load_candidates_dictionary_def)
qed

text \<open>What a promotion leaves behind. When the second file cannot be written the candidate is
  gone from the candidates and not among the approved entries.\<close>

theorem promote_effect:
  "case promote_candidate_to_approved wc wa c corr etype src d of (ok, d') \<Rightarrow>
     ok = (wc \<and> wa)
   \<and> load_candidates_dictionary d' =
       (if wc then filter (\<lambda>e. candidate e \<noteq> c) (load_candidates_dictionary d)
        else load_candidates_dictionary d)
   \<and> load_approved_dictionary d' = load_approved_dictionary d @
       (if wc \<and> wa then [\<lparr>wrong = c, correct = corr, entry_type = etype, status = u ''approved'',
          source = (if src = [] then [u ''manual''] else src)\<rparr>] else [])"
  by (auto simp: promote_candidate_to_approved_def Let_def load_candidates_dictionary_def
      load_approved_dictionary_def split: option.splits)

text \<open>Which candidates are extracted: the words that occur at least twice and hold an Arabic yeh
  or kaf, with the number of their occurrences. No word holds a tatweel, which the word pattern
  does not match, so the branch that looks for it is never taken.\<close>

theorem candidates_extracted:
  "(e \<in> set (extract_candidates_from_text text doc) \<longleftrightarrow>
     strip text \<noteq> [] \<and> (\<exists>w n. e = \<lparr>candidate = w, frequency = Some (int n), sources = Some [doc], contexts = None\<rparr>
       \<and> 1 < length w \<and> n = length (filter ((=) w) (persian_words text)) \<and> 2 \<le> n
       \<and> (0x64A \<in> set w \<or> 0x643 \<in> set w)))
   \<and> list_all (\<lambda>w. 0x640 \<notin> set w) (persian_words text)"
proof -
  have t: "list_all (\<lambda>w. 0x640 \<notin> set w) (persian_words text)"
    using no_tatweel by (simp add: list_all_iff)
  have a: "is_mechanical_anomaly w \<longleftrightarrow> 0x64A \<in> set w \<or> 0x643 \<in> set w"
    if "2 \<le> length (filter ((=) w) (persian_words text))" for w
  proof -
    have "filter ((=) w) (persian_words text) \<noteq> []" using that by auto
    then have "w \<in> set (persian_words text)" by (auto simp: filter_empty_conv)
    then show ?thesis using no_tatweel by (auto simp: is_mechanical_anomaly_def)
  qed
  have "e \<in> (\<lambda>(w, n). \<lparr>candidate = w, frequency = Some (int n), sources = Some [doc], contexts = None\<rparr>) `
      {(w, n) \<in> set (fold count_word (persian_words text) []). 2 \<le> n \<and> is_mechanical_anomaly w} \<longleftrightarrow>
    (\<exists>w n. e = \<lparr>candidate = w, frequency = Some (int n), sources = Some [doc], contexts = None\<rparr>
       \<and> 1 < length w \<and> n = length (filter ((=) w) (persian_words text)) \<and> 2 \<le> n
       \<and> (0x64A \<in> set w \<or> 0x643 \<in> set w))"
    by (force simp: in_counts a image_iff)
  moreover have "strip text \<noteq> [] \<Longrightarrow> text \<noteq> []" by auto
  ultimately show ?thesis using t by (auto simp: extract_candidates_from_text_def)
qed

end
