(* ===== verification/ScriptResult.thy ===== *)
theory ScriptResult
  imports PyVal TrackedReplace
begin

text \<open>
  What happens to the result of a Python script in a Writer document
  (\<open>plugin/scripting/python_runner.py\<close>): a dict with \<open>changes\<close> goes to the tracked replacements
  of the selection, any other result is formatted as HTML and inserted at the selection
  (\<open>insert_content_at_position\<close> in \<open>plugin/writer/html_import.py\<close>). \<open>None\<close> is an exception;
  the text LibreOffice makes of the HTML is an argument.
\<close>

subsection \<open>Formatting\<close>

text \<open>\<open>html.escape\<close>: \<open>&\<close> is replaced first, so one pass over the characters does the same.\<close>

definition escape_char :: "nat \<Rightarrow> pystr" where
  "escape_char c = (if c = 38 then u ''&amp;'' else if c = 60 then u ''&lt;'' else if c = 62 then u ''&gt;''
     else if c = 34 then u ''&quot;'' else if c = 39 then u ''&#x27;'' else [c])"

definition html_escape :: "pystr \<Rightarrow> pystr" where
  "html_escape s = concat (map escape_char s)"

definition html_insert_text :: "(pyval \<Rightarrow> pystr) \<Rightarrow> pyval \<Rightarrow> pystr" where
  "html_insert_text repr v = html_escape (html_escape (py_str repr v))"

definition tag :: "string \<Rightarrow> pystr \<Rightarrow> pystr" where
  "tag name body = u ''<'' @ u name @ u ''>'' @ body @ u ''</'' @ u name @ u ''>''"

text \<open>The cells a row is iterated over: the items of a list, the keys of a dict, the characters of
  a string; other values cannot be iterated.\<close>

fun cells_of :: "pyval \<Rightarrow> pyval list option" where
  "cells_of (PList xs) = Some xs"
| "cells_of (PDict d) = Some (map (PStr \<circ> fst) d)"
| "cells_of (PStr s) = Some (map (\<lambda>c. PStr [c]) s)"
| "cells_of _ = None"

fun map_opt :: "('a \<Rightarrow> 'b option) \<Rightarrow> 'a list \<Rightarrow> 'b list option" where
  "map_opt f [] = Some []"
| "map_opt f (x # xs) = (case f x of None \<Rightarrow> None
     | Some y \<Rightarrow> (case map_opt f xs of None \<Rightarrow> None | Some ys \<Rightarrow> Some (y # ys)))"

definition table_row :: "(pyval \<Rightarrow> pystr) \<Rightarrow> string \<Rightarrow> pyval list \<Rightarrow> pystr" where
  "table_row repr cell vs = tag ''tr'' (concat (map (\<lambda>v. tag cell (html_insert_text repr v)) vs))"

definition format_list_to_table ::
  "(pyval \<Rightarrow> pystr) \<Rightarrow> pyval list \<Rightarrow> pyval list \<Rightarrow> pystr option" where
  "format_list_to_table repr data headers =
     (let rows = (\<lambda>cells. map_option (\<lambda>rs. concat (map (table_row repr ''td'') rs)) (map_opt cells data));
          framed = (\<lambda>hs body. u ''<table border=\"1\"><thead>'' @ table_row repr ''th'' hs @ u ''</thead><tbody>''
            @ body @ u ''</tbody></table>'')
      in case data of [] \<Rightarrow> Some []
         | first # _ \<Rightarrow>
             if headers \<noteq> []
             then map_option (framed headers)
                    (if is_list first then rows cells_of else rows (\<lambda>v. Some [v]))
             else if is_dict first
             then (let keys = map fst (as_dict first)
                   in map_option (framed (map PStr keys))
                        (rows (\<lambda>row. if is_dict row
                           then Some (map (\<lambda>k. case map_of (as_dict row) k of None \<Rightarrow> PStr [] | Some v \<Rightarrow> v) keys)
                           else None)))
             else if is_list first
             then map_option (\<lambda>body. u ''<table border=\"1\">'' @ body @ u ''</table>'') (rows cells_of)
             else Some (join (u ''<br>'') (map (html_insert_text repr) data)))"

definition is_dataframe_payload :: "pyval \<Rightarrow> bool" where
  "is_dataframe_payload v \<longleftrightarrow> is_dict v \<and> (let d = as_dict v in
     dget d ''__wa_payload__'' PNone = PStr (u ''dataframe'') \<and>
     is_list (dget d ''columns'' PNone) \<and> list_all is_str (as_list (dget d ''columns'' PNone)) \<and>
     (case map_of d (u ''data'') of None \<Rightarrow> False | Some x \<Rightarrow> is_list x \<or> is_dict x \<or> x = PNone))"

definition priority_keys :: "pystr list" where
  "priority_keys = [u ''title'', u ''summary'', u ''summary_text'', u ''message'', u ''text'', u ''result'']"

text \<open>\<open>replace("\\n", "<br>")\<close>.\<close>

definition line_breaks :: "pystr \<Rightarrow> pystr" where
  "line_breaks s = replace_all [10] (u ''<br>'') s"

definition dict_part :: "(pyval \<Rightarrow> pystr) \<Rightarrow> pystr \<times> pyval \<Rightarrow> pystr list option" where
  "dict_part repr kv = (case kv of (key, val) \<Rightarrow>
     if is_list val \<and> as_list val \<noteq> []
     then map_option (\<lambda>table. if table = [] then []
            else [tag ''h3'' (html_insert_text repr (PStr key)), table])
          (format_list_to_table repr (as_list val) [])
     else let escaped = line_breaks (html_insert_text repr val)
          in if lower key \<in> set priority_keys then Some [tag ''p'' (tag ''b'' escaped)]
             else Some [tag ''p'' (tag ''b'' (html_insert_text repr (PStr key) @ u '':'') @ u '' '' @ escaped)])"

definition format_result_for_writer :: "(pyval \<Rightarrow> pystr) \<Rightarrow> pyval \<Rightarrow> pystr option" where
  "format_result_for_writer repr result =
     (if result = PNone then Some []
      else if result = PList [] \<or> result = PDict [] then Some []
      else if result = PStr [] then Some []
      else if is_dataframe_payload result
      then format_list_to_table repr (as_list (dget (as_dict result) ''data'' PNone))
             (as_list (dget (as_dict result) ''columns'' PNone))
      else if is_list result then format_list_to_table repr (as_list result) []
      else if is_dict result
      then map_option (\<lambda>parts. join nl (concat parts))
             (map_opt (dict_part repr) (filter (\<lambda>(k, _). \<not> prefix (u ''_'') k) (as_dict result)))
      else Some (line_breaks (html_insert_text repr result)))"

subsection \<open>Where the result goes\<close>

datatype run_outcome =
    TrackedApplied replace_result
  | TrackedFailed
  | Completed
  | InsertFailed

text \<open>\<open>insert_content_at_position(..., "selection")\<close>: the selection is cleared, then the HTML is
  inserted; \<open>render\<close> is the text LibreOffice inserts, \<open>None\<close> when the import raises.\<close>

definition insert_at_selection ::
  "(pystr \<Rightarrow> pystr option) \<Rightarrow> pystr \<Rightarrow> nat \<Rightarrow> nat \<Rightarrow> pystr \<Rightarrow> run_outcome \<times> pystr" where
  "insert_at_selection render doc a b html =
     (let cleared = take a doc @ drop b doc
      in case render html of None \<Rightarrow> (InsertFailed, cleared)
         | Some t \<Rightarrow> (Completed, take a doc @ t @ drop b doc))"

definition insert_result_into_writer ::
  "(pyval \<Rightarrow> pystr) \<Rightarrow> (pystr \<Rightarrow> pystr option) \<Rightarrow> pystr \<Rightarrow> nat \<Rightarrow> nat \<Rightarrow> pyval \<Rightarrow> run_outcome \<times> pystr" where
  "insert_result_into_writer repr render doc a b result =
     (case format_result_for_writer repr result of
        None \<Rightarrow> (InsertFailed, doc)
      | Some [] \<Rightarrow> (Completed, doc)
      | Some html \<Rightarrow> insert_at_selection render doc a b html)"

text \<open>The result \<open>{"changes": [[old, new], ...]}\<close> of the Persian scripts.\<close>

definition changes_result :: "(pystr \<times> pystr) list \<Rightarrow> pyval" where
  "changes_result changes =
     PDict [(u ''changes'', PList (map (\<lambda>(old, new). PList [PStr old, PStr new]) changes))]"

definition writer_changes_run ::
  "(pyval \<Rightarrow> pystr) \<Rightarrow> (pystr \<Rightarrow> pystr option) \<Rightarrow> (edit \<Rightarrow> uno_failure option) \<Rightarrow>
   pystr \<Rightarrow> nat \<Rightarrow> nat \<Rightarrow> (pystr \<times> pystr) list \<Rightarrow> run_outcome \<times> pystr" where
  "writer_changes_run repr render fails doc a b changes =
     (if changes \<noteq> []
      then case apply_tracked_replacements fails doc a b changes of
             Inl _ \<Rightarrow> (TrackedFailed, doc)
           | Inr (r, doc') \<Rightarrow>
               if 0 < applied r then (TrackedApplied r, doc')
               else insert_result_into_writer repr render doc' a b (changes_result changes)
      else insert_result_into_writer repr render doc a b (changes_result changes))"

subsection \<open>Properties\<close>

text \<open>Escaped text holds no markup: neither angle bracket nor quote survives.\<close>

lemma escape_char_plain: "list_all (\<lambda>d. d \<noteq> 60 \<and> d \<noteq> 62 \<and> d \<noteq> 34 \<and> d \<noteq> 39) (escape_char c)"
  by (simp add: escape_char_def u_def)

lemma html_escape_plain: "list_all (\<lambda>d. d \<noteq> 60 \<and> d \<noteq> 62 \<and> d \<noteq> 34 \<and> d \<noteq> 39) (html_escape s)"
  unfolding html_escape_def by (induction s) (simp_all add: escape_char_plain)

lemma empty_changes_html:
  "format_result_for_writer repr (changes_result []) =
     Some (u ''<p><b>changes:</b> '' @ line_breaks (html_insert_text repr (PList [])) @ u ''</p>'')"
proof -
  have "html_insert_text repr (PStr (u ''changes'')) = u ''changes''"
    by (simp add: html_insert_text_def html_escape_def escape_char_def u_def)
  moreover have "\<not> is_dataframe_payload (changes_result [])"
    by (simp add: is_dataframe_payload_def changes_result_def dget_def)
  moreover have "lower (u ''changes'') \<notin> set priority_keys"
    by (simp add: priority_keys_def lower_def u_def is_upper_def)
  ultimately show ?thesis
    by (simp add: format_result_for_writer_def changes_result_def dict_part_def Let_def tag_def)
      (simp add: u_def)
qed

text \<open>When a script finds nothing to change, its empty list of changes is formatted and inserted
  like any other result: the selected text is deleted and replaced with the rendering of
  \<open>changes: []\<close>, although the branch for such results is meant to keep the generic insertion from
  running.\<close>

theorem no_changes_deletes_selection:
  "writer_changes_run repr render fails doc a b [] =
     (case render (u ''<p><b>changes:</b> '' @ line_breaks (html_insert_text repr (PList [])) @ u ''</p>'') of
        None \<Rightarrow> (InsertFailed, take a doc @ drop b doc)
      | Some t \<Rightarrow> (Completed, take a doc @ t @ drop b doc))"
proof -
  have "u ''<p><b>changes:</b> '' @ line_breaks (html_insert_text repr (PList [])) @ u ''</p>'' \<noteq> []"
    by (simp add: u_def)
  then show ?thesis
    by (auto simp: writer_changes_run_def insert_result_into_writer_def empty_changes_html
        insert_at_selection_def Let_def split: list.split option.split)
qed

end
