(* ===== verification/PersianScript.thy ===== *)
theory PersianScript
  imports PersianSpelling ScriptResult
begin

text \<open>
  A run of a Persian script on a selection, composed of the finders of changes (\<open>plugin/persian/\<close>) and the insertion
  of their result in Writer (\<open>plugin/scripting/python_runner.py\<close>).
\<close>

subsection \<open>Normalising a selection\<close>

text \<open>A run of a Persian script is its change finder followed by \<open>writer_changes_run\<close>. The two runs
  below are evaluated on concrete selections; the lemmas before each theorem evaluate its parts.\<close>

definition spaced_text :: pystr where
  "spaced_text = u ''a  b  c''"

lemmas pattern_eval = PROTECT_PATTERNS_def URL_PATTERN_def EMAIL_PATTERN_def VERSION_PATTERN_def
  NUMBER_PATTERN_def CODE_PATTERN_def DOT_PATH_PATTERN_def re_eval char_classes Let_def

lemma spaced_kept: "kept_matches ascii_arabic spaced_text = []"
proof -
  have "finditer (URL_PATTERN ascii_arabic) spaced_text = []"
    "finditer (EMAIL_PATTERN ascii_arabic) spaced_text = []"
    "finditer (VERSION_PATTERN ascii_arabic) spaced_text = []"
    "finditer (NUMBER_PATTERN ascii_arabic) spaced_text = []"
    "finditer (CODE_PATTERN ascii_arabic) spaced_text = []"
    "finditer DOT_PATH_PATTERN spaced_text = []"
    by (simp_all add: pattern_eval spaced_text_def)
  then have "protect_matches ascii_arabic spaced_text = []"
    by (simp add: protect_matches_def PROTECT_PATTERNS_def)
  then show ?thesis by (simp add: kept_matches_def keep_first_def)
qed

lemma spaced_changes: "extract_hazm_changes ascii_arabic None spaced_text = [(u ''  b  '', u '' '')]"
proof -
  have "protect ascii_arabic (protector spaced_text) =
      (spaced_text, \<lparr>original = spaced_text, protected_regions = [], placeholder_map = [], placeholder_counter = 0\<rparr>)"
    using find_protected_regions_eq [of ascii_arabic spaced_text] spaced_kept
    by (simp add: protect_def protector_def Let_def)
  then have n: "normalized_text ascii_arabic None spaced_text = u ''a b c''"
    by (simp add: normalized_text_def normalize_with_hazm_def apply_safe_normalizations_def spaced_text_def
        u_def replace_char delete_char restore_def re_sub_def dots_def normalize_line_def re_eval nl_def
        slice_def eval_nat_numeral)
  have "find_joined_word_changes spaced_text (u ''a b c'') = []"
    "find_arabic_char_changes spaced_text (u ''a b c'') = []"
    by (simp_all add: find_joined_word_changes_def SAFE_ZWNJ_JOINS_def contains_def spaced_text_def u_def
        find_arabic_char_changes_def arabic_pair_def)
  moreover have "find_whitespace_changes spaced_text (u ''a b c'') = [(u ''  b  '', u '' '')]"
    by (simp add: find_whitespace_changes_def blanks_def re_eval spaced_text_def u_def slice_def eval_nat_numeral)
  moreover have "find_tatweel_changes spaced_text (u ''a b c'') = []"
    by (simp add: find_tatweel_changes_def tatweel_word_def re_eval spaced_text_def char_classes slice_def)
  moreover have "find_ellipsis_changes spaced_text (u ''a b c'') = []"
    by (simp add: find_ellipsis_changes_def dots_def re_eval spaced_text_def u_def slice_def eval_nat_numeral)
  moreover have "spaced_text \<noteq> []" "strip spaced_text \<noteq> []" "u ''a b c'' \<noteq> spaced_text"
    by (simp_all add: spaced_text_def u_def strip_def lstrip_def rstrip_def is_space_def)
  ultimately show ?thesis using n
    by (simp add: extract_hazm_changes_def Let_def unique_def)
qed

text \<open>The mechanical normalisation of a selection in which a one-letter word stands between double
  spaces deletes the word: the script lists one change for both runs of blanks and the bridge
  applies it.\<close>

theorem normalisation_loses_word:
  "\<exists>r. writer_changes_run repr render (\<lambda>_. None) spaced_text 0 7
      (extract_hazm_changes ascii_arabic None spaced_text) = (TrackedApplied r, u ''a c'')
    \<and> applied r = 1"
  unfolding spaced_changes
  by (simp add: writer_changes_run_def spaced_text_def u_def apply_tracked_replacements_def all_matches_def
      matches_of_def slice_def normalize_linebreaks_id occurrences.simps find_from_def right_to_left_def
      apply_edit_def edit_detail_of_def Let_def)

subsection \<open>Correcting a corrected text\<close>

text \<open>The first entry of the approved dictionary; its correct form is the wrong form with a diacritic
  (U+064B) appended.\<close>

definition serfan :: pystr where
  "serfan = [0x635, 0x631, 0x641, 0x627]"

definition serfan_dictionary :: dict_files where
  "serfan_dictionary = \<lparr>approved_file = Some [\<lparr>wrong = serfan, correct = serfan @ [0x64B],
     entry_type = u ''spelling'', status = u ''approved'', source = [u ''manual'']\<rparr>], candidates_file = None\<rparr>"

lemma serfan_kept: "kept_matches ascii_arabic (serfan @ [0x64B]) = []"
proof -
  have "finditer (URL_PATTERN ascii_arabic) (serfan @ [0x64B]) = []"
    "finditer (EMAIL_PATTERN ascii_arabic) (serfan @ [0x64B]) = []"
    "finditer (VERSION_PATTERN ascii_arabic) (serfan @ [0x64B]) = []"
    "finditer (NUMBER_PATTERN ascii_arabic) (serfan @ [0x64B]) = []"
    "finditer (CODE_PATTERN ascii_arabic) (serfan @ [0x64B]) = []"
    "finditer DOT_PATH_PATTERN (serfan @ [0x64B]) = []"
    by (simp_all add: pattern_eval serfan_def)
  then have "protect_matches ascii_arabic (serfan @ [0x64B]) = []"
    by (simp add: protect_matches_def PROTECT_PATTERNS_def)
  then show ?thesis by (simp add: kept_matches_def keep_first_def)
qed

text \<open>The correct form of an approved entry contains its wrong form, so a text that is already
  correct is corrected again: the diacritic is appended a second time.\<close>

theorem correction_is_corrected_again:
  "find_spelling_changes ascii_arabic serfan_dictionary (serfan @ [0x64B]) = [(serfan, serfan @ [0x64B])]
   \<and> (\<exists>r. writer_changes_run repr render (\<lambda>_. None) (serfan @ [0x64B]) 0 5
        (find_spelling_changes ascii_arabic serfan_dictionary (serfan @ [0x64B]))
      = (TrackedApplied r, serfan @ [0x64B, 0x64B]))"
proof -
  have "protected_regions (snd (protect ascii_arabic (protector (serfan @ [0x64B])))) = []"
    using find_protected_regions_eq [of ascii_arabic "serfan @ [0x64B]"] serfan_kept
    by (simp add: protect_def protector_def Let_def)
  then have f: "find_spelling_changes ascii_arabic serfan_dictionary (serfan @ [0x64B]) = [(serfan, serfan @ [0x64B])]"
    by (simp add: find_spelling_changes_def serfan_dictionary_def load_approved_dictionary_def
        spelling_entries_def entry_changes_def in_protected_def unique_def serfan_def strip_def lstrip_def rstrip_def
        is_space_def occurrences.simps find_from_def Let_def)
  then show ?thesis unfolding f
    by (simp add: writer_changes_run_def serfan_def apply_tracked_replacements_def all_matches_def
      matches_of_def slice_def normalize_linebreaks_id occurrences.simps find_from_def right_to_left_def
      apply_edit_def edit_detail_of_def Let_def)
qed

end
