(* ===== verification/SheetGraph.thy ===== *)
theory SheetGraph
  imports PyVal PyRegex
begin

text \<open>
  The dependency graph of an ingested sheet (\<open>plugin/calc/spreadsheet_import/graph.py\<close> on the
  models of \<open>models.py\<close>): references of a formula, the graph of formula cells, its topological
  order, and the groups of cells that have no place in it. A \<open>set\<close> the code iterates in no
  particular order is a list without duplicates; only its members matter.
\<close>

subsection \<open>Cells\<close>

datatype cell_type = EmptyCell | ConstantCell | FormulaCell | PyFormulaCell | PromptCell
  | ArrayFormulaCell | ErrorCell

record cell_record =
  address :: pystr
  ctype :: cell_type
  cell_value :: pyval
  formula :: "pystr option"
  number_format :: "int option"
  precedents :: "pystr list"
  error_code :: "pystr option"

record sheet_model =
  sheet_name :: pystr
  used_range :: pystr
  cells :: "(pystr \<times> cell_record) list"
  formula_order :: "pystr list"
  circular_groups :: "pystr list list"

definition FORMULA_LIKE_TYPES :: "cell_type list" where
  "FORMULA_LIKE_TYPES = [FormulaCell, PyFormulaCell, ArrayFormulaCell, ErrorCell]"

definition CALC_ERROR_STRINGS :: "pystr list" where
  "CALC_ERROR_STRINGS = [u ''#NULL!'', u ''#DIV/0!'', u ''#VALUE!'', u ''#REF!'', u ''#NAME?'', u ''#NUM!'',
     u ''#N/A'', u ''#ERROR!'']"

definition is_calc_error_display :: "unicode \<Rightarrow> pyval \<Rightarrow> pystr option" where
  "is_calc_error_display U value =
     (if is_str value
      then let t = upper_in U (strip (str_or [] value))
           in if t \<in> set CALC_ERROR_STRINGS then Some t else None
      else None)"

subsection \<open>References\<close>

text \<open>A match of the pattern is its groups with optional dollar signs before them (and the colon), so
  the reference put together from the groups is the match without its dollar signs.\<close>

definition cell_re :: "unicode \<Rightarrow> regex" where
  "cell_re U = Cat (opt (Chr (\<lambda>c. c = 36))) (Cat (plus1 (Chr (\<lambda>c. is_upper c \<or> is_lower (fold_ci c))))
     (Cat (opt (Chr (\<lambda>c. c = 36))) (plus1 (Chr (u_digit U)))))"

definition RANGE_REF_PATTERN :: "unicode \<Rightarrow> regex" where
  "RANGE_REF_PATTERN U = Cat (cell_re U) (opt (Cat (Chr (\<lambda>c. c = 58)) (cell_re U)))"

definition extract_range_refs :: "unicode \<Rightarrow> pystr \<Rightarrow> pystr list" where
  "extract_range_refs U f =
     (let s = upper_in U f
      in fold (\<lambda>(i, j) ordered. let ref = filter (\<lambda>c. c \<noteq> 36) (slice i j s)
                in if ref \<in> set ordered then ordered else ordered @ [ref])
           (finditer (RANGE_REF_PATTERN U) s) [])"

text \<open>\<open>CELL_REF_PATTERN\<close> is the same without \<open>IGNORECASE\<close>.\<close>

definition CELL_REF_PATTERN :: "unicode \<Rightarrow> regex" where
  "CELL_REF_PATTERN U = Cat (opt (Chr (\<lambda>c. c = 36))) (Cat (plus1 (Chr is_upper))
     (Cat (opt (Chr (\<lambda>c. c = 36))) (plus1 (Chr (u_digit U)))))"

definition extract_cell_refs :: "unicode \<Rightarrow> pystr \<Rightarrow> pystr list" where
  "extract_cell_refs U f =
     (let s = upper_in U f
      in map (\<lambda>(i, j). filter (\<lambda>c. c \<noteq> 36) (slice i j s)) (finditer (CELL_REF_PATTERN U) s))"

definition filter_refs_to_scope :: "unicode \<Rightarrow> pystr list \<Rightarrow> pystr list \<Rightarrow> pystr list" where
  "filter_refs_to_scope U refs scope =
     fold (\<lambda>ref ordered. let key = upper_in U ref
             in if key \<in> set scope \<and> key \<notin> set ordered then ordered @ [key] else ordered) refs []"

text \<open>The precedents the ingest step gives every cell with a formula.\<close>

definition with_precedents :: "unicode \<Rightarrow> pystr list \<Rightarrow> cell_record \<Rightarrow> cell_record" where
  "with_precedents U scope cell =
     (case formula cell of None \<Rightarrow> cell
      | Some f \<Rightarrow> if f = [] then cell
          else cell\<lparr>precedents := filter_refs_to_scope U
            (filter (\<lambda>r. r \<noteq> address cell) (extract_cell_refs U f)) scope\<rparr>)"

subsection \<open>The graph\<close>

type_synonym graph = "(pystr \<times> pystr list) list"

definition formula_like_addresses :: "(pystr \<times> cell_record) list \<Rightarrow> pystr list" where
  "formula_like_addresses cs = sort (map fst (filter (\<lambda>(_, c). ctype c \<in> set FORMULA_LIKE_TYPES) cs))"

definition build_dependency_graph :: "sheet_model \<Rightarrow> graph" where
  "build_dependency_graph m =
     map (\<lambda>addr. (addr,
         case map_of (cells m) addr of None \<Rightarrow> []
         | Some cell \<Rightarrow> filter (\<lambda>p. case map_of (cells m) p of None \<Rightarrow> False | Some c \<Rightarrow> ctype c \<noteq> EmptyCell)
             (precedents cell)))
       (formula_like_addresses (cells m))"

subsection \<open>Topological order\<close>

definition get_list :: "('k \<times> 'a list) list \<Rightarrow> 'k \<Rightarrow> 'a list" where
  "get_list d k = (case map_of d k of None \<Rightarrow> [] | Some xs \<Rightarrow> xs)"

definition get_deg :: "(pystr \<times> int) list \<Rightarrow> pystr \<Rightarrow> int" where
  "get_deg d k = (case map_of d k of None \<Rightarrow> 0 | Some n \<Rightarrow> n)"

definition edge_list :: "graph \<Rightarrow> (pystr \<times> pystr) list" where
  "edge_list g = concat (map (\<lambda>(dep, precs).
     map (\<lambda>p. (p, dep)) (filter (\<lambda>p. p \<in> fst ` set g) precs)) g)"

definition add_edge :: "pystr \<times> pystr \<Rightarrow> graph \<times> (pystr \<times> int) list \<Rightarrow> graph \<times> (pystr \<times> int) list" where
  "add_edge e sd = (case (e, sd) of ((prec, dep), (succs, deg)) \<Rightarrow>
     (AList.update prec (let s = get_list succs prec in if dep \<in> set s then s else s @ [dep]) succs,
      AList.update dep (get_deg deg dep + 1) deg))"

definition edges_and_degrees :: "graph \<Rightarrow> graph \<times> (pystr \<times> int) list" where
  "edges_and_degrees g = fold add_edge (edge_list g) ([], map (\<lambda>(n, _). (n, 0)) g)"

definition relax :: "pystr \<Rightarrow> (pystr \<times> int) list \<times> pystr list \<Rightarrow> (pystr \<times> int) list \<times> pystr list" where
  "relax s dn = (case dn of (deg, new) \<Rightarrow>
     case map_of deg s of None \<Rightarrow> (deg, new)
     | Some k \<Rightarrow> (AList.update s (k - 1) deg, if k - 1 = 0 then new @ [s] else new))"

text \<open>Each step takes one node off the queue; a node joins it when its degree falls from one to
  zero, so the positive degrees and the queue together shrink.\<close>

definition degree_sum :: "(pystr \<times> int) list \<Rightarrow> nat" where
  "degree_sum d = sum_list (map (nat \<circ> snd) d)"

lemma degree_sum_update:
  "map_of d s = Some k \<Longrightarrow> degree_sum (AList.update s (k - 1) d) + nat k = degree_sum d + nat (k - 1)"
  by (induction d) (auto simp: degree_sum_def split: if_splits)

lemma relax_potential:
  "degree_sum (fst (relax s dn)) + length (snd (relax s dn)) \<le> degree_sum (fst dn) + length (snd dn)"
proof (cases dn)
  case (Pair deg new)
  show ?thesis
  proof (cases "map_of deg s")
    case None
    then show ?thesis by (simp add: relax_def Pair)
  next
    case (Some k)
    then show ?thesis using degree_sum_update [OF Some] by (auto simp: relax_def Pair)
  qed
qed

lemma relax_all_potential:
  "degree_sum (fst (fold relax ss dn)) + length (snd (fold relax ss dn)) \<le> degree_sum (fst dn) + length (snd dn)"
proof (induction ss arbitrary: dn)
  case (Cons s ss)
  show ?case using relax_potential [of s dn] Cons.IH [of "relax s dn"] by (simp only: fold_simps order.trans)
qed simp

function kahn :: "graph \<Rightarrow> pystr list \<Rightarrow> (pystr \<times> int) list \<Rightarrow> pystr list \<Rightarrow> pystr list" where
  "kahn succs [] deg ordered = ordered"
| "kahn succs (node # queue) deg ordered =
     (case fold relax (sort (get_list succs node)) (deg, []) of
        (deg', new) \<Rightarrow> kahn succs (queue @ new) deg' (ordered @ [node]))"
  by pat_completeness auto
termination
proof (relation "measure (\<lambda>(succs, queue, deg, ordered). degree_sum deg + length queue)", goal_cases)
  case 1
  show ?case by simp
next
  case (2 succs node queue deg ordered)
  then show ?case using relax_all_potential [of "sort (get_list succs node)" "(deg, [])"]
    by (cases "fold relax (sort (get_list succs node)) (deg, [])") auto
qed

subsection \<open>Groups of the remaining cells\<close>

text \<open>The undirected neighbours among the remaining nodes, which the two loops collect in sets.\<close>

definition neighbours :: "graph \<Rightarrow> pystr list \<Rightarrow> pystr \<Rightarrow> pystr list" where
  "neighbours g remaining n =
     filter (\<lambda>m. m \<in> set (get_list g n) \<or> n \<in> set (get_list g m)) remaining"

definition adjacency :: "graph \<Rightarrow> pystr list \<Rightarrow> graph" where
  "adjacency g remaining = map (\<lambda>n. (n, neighbours g remaining n)) remaining"

text \<open>The inner loop; the stack has its top first, and \<open>None\<close> is a \<open>KeyError\<close>.\<close>

function collect :: "graph \<Rightarrow> pystr list \<Rightarrow> pystr list \<Rightarrow> pystr list \<Rightarrow> pystr list option" where
  "collect adj unvisited [] component = Some component"
| "collect adj unvisited (cur # stack) component =
     (if cur \<in> set component then collect adj unvisited stack component
      else case map_of adj cur of
             None \<Rightarrow> None
           | Some nbs \<Rightarrow> collect adj unvisited
               (rev (filter (\<lambda>nb. nb \<in> set unvisited \<and> nb \<notin> set (component @ [cur])) nbs) @ stack)
               (component @ [cur]))"
  by pat_completeness auto
termination
proof (relation "measures [\<lambda>(adj, unvisited, stack, component). card (fst ` set adj - set component),
      \<lambda>(adj, unvisited, stack, component). length stack]", goal_cases)
  case 1
  show ?case by simp
next
  case (2 adj unvisited cur stack component)
  then show ?case by simp
next
  case (3 adj unvisited cur stack component nbs)
  have "cur \<in> fst ` set adj" using 3(2) by (metis image_eqI fst_conv map_of_SomeD)
  then have "fst ` set adj - set (component @ [cur]) \<subset> fst ` set adj - set component" using 3(1) by auto
  then have "card (fst ` set adj - set (component @ [cur])) < card (fst ` set adj - set component)"
    by (intro psubset_card_mono) simp_all
  then show ?case by simp
qed

lemma collect_contains:
  "collect adj unvisited stack component = Some c \<Longrightarrow> set stack \<union> set component \<subseteq> set c"
  by (induction adj unvisited stack component rule: collect.induct) (auto split: if_splits option.splits)

function cycle_groups :: "graph \<Rightarrow> pystr list \<Rightarrow> pystr list list option" where
  "cycle_groups adj unvisited =
     (if unvisited = [] then Some []
      else case collect adj unvisited [hd (sort unvisited)] [] of
             None \<Rightarrow> None
           | Some component \<Rightarrow>
               map_option ((#) (sort component))
                 (cycle_groups adj (filter (\<lambda>n. n \<notin> set component) unvisited)))"
  by auto
termination
proof (relation "measure (\<lambda>(adj, unvisited). length unvisited)", goal_cases)
  case 1
  show ?case by simp
next
  case (2 adj unvisited component)
  have "hd (sort unvisited) \<in> set unvisited"
    using 2(1) by (metis hd_in_set length_0_conv length_sort set_sort)
  moreover have "hd (sort unvisited) \<in> set component" using collect_contains [OF 2(2)] by simp
  ultimately show ?case by (auto intro: length_filter_less)
qed

declare cycle_groups.simps [simp del]

definition extract_cycle_groups :: "pystr list \<Rightarrow> graph \<Rightarrow> pystr list list option" where
  "extract_cycle_groups remaining g = cycle_groups (adjacency g remaining) remaining"

definition topological_formula_order :: "graph \<Rightarrow> (pystr list \<times> pystr list list) option" where
  "topological_formula_order g =
     (let nodes = map fst g;
          (succs, deg) = edges_and_degrees g;
          queue = sort (filter (\<lambda>n. get_deg deg n = 0) nodes);
          ordered = kahn succs queue deg []
      in if length ordered = length nodes then Some (ordered, [])
         else map_option (Pair ordered)
                (extract_cycle_groups (filter (\<lambda>n. n \<notin> set ordered) nodes) g))"

definition attach_graph_to_model :: "sheet_model \<Rightarrow> sheet_model option" where
  "attach_graph_to_model m =
     (case topological_formula_order (build_dependency_graph m) of
        None \<Rightarrow> None
      | Some (order, cycles) \<Rightarrow> Some (m\<lparr>formula_order := order, circular_groups := cycles\<rparr>))"

subsection \<open>Edges and degrees\<close>

text \<open>The precedents of a node that are nodes themselves.\<close>

definition precs_of :: "graph \<Rightarrow> pystr \<Rightarrow> pystr set" where
  "precs_of g n = {p \<in> fst ` set g. p \<in> set (get_list g n)}"

definition graph_ok :: "graph \<Rightarrow> bool" where
  "graph_ok g \<longleftrightarrow> distinct (map fst g) \<and> list_all (\<lambda>(_, ps). distinct ps) g"

lemma get_list_update:
  "get_list (AList.update k xs d) k' = (if k' = k then xs else get_list d k')"
  by (simp add: get_list_def map_of_update)

lemma get_deg_update: "get_deg (AList.update k x d) k' = (if k' = k then x else get_deg d k')"
  by (simp add: get_deg_def map_of_update)

lemma add_edge_step:
  "set (get_list (fst (add_edge e sd)) p) = set (get_list (fst sd) p) \<union> (if fst e = p then {snd e} else {})"
  "distinct (get_list (fst sd) p) \<Longrightarrow> distinct (get_list (fst (add_edge e sd)) p)"
  "get_deg (snd (add_edge e sd)) n = get_deg (snd sd) n + (if snd e = n then 1 else 0)"
  "fst ` set (snd (add_edge e sd)) = insert (snd e) (fst ` set (snd sd))"
  by (auto simp: add_edge_def get_list_update get_deg_update dom_update Let_def split: prod.splits)

lemma succs_fold:
  "set (get_list (fst (fold add_edge es sd)) p) = set (get_list (fst sd) p) \<union> {n. (p, n) \<in> set es}"
  by (induction es arbitrary: sd) (auto simp: add_edge_step)

lemma succs_distinct:
  "distinct (get_list (fst sd) p) \<Longrightarrow> distinct (get_list (fst (fold add_edge es sd)) p)"
  by (induction es arbitrary: sd) (auto simp: add_edge_step)

lemma degrees_fold:
  "get_deg (snd (fold add_edge es sd)) n = get_deg (snd sd) n + int (length (filter (\<lambda>e. snd e = n) es))"
  by (induction es arbitrary: sd) (auto simp: add_edge_step)

lemma degree_keys: "fst ` set (snd (fold add_edge es sd)) = fst ` set (snd sd) \<union> snd ` set es"
  by (induction es arbitrary: sd) (auto simp: add_edge_step)

lemma get_list_absent: "n \<notin> fst ` set g \<Longrightarrow> get_list g n = []"
  by (simp add: get_list_def split: option.split) (metis map_of_eq_None_iff option.distinct(1))

text \<open>The edges with the node set kept apart from the list they are read off.\<close>

definition edges_in :: "pystr set \<Rightarrow> graph \<Rightarrow> (pystr \<times> pystr) list" where
  "edges_in N g = concat (map (\<lambda>(dep, precs). map (\<lambda>p. (p, dep)) (filter (\<lambda>p. p \<in> N) precs)) g)"

lemma edges_in_mem:
  "distinct (map fst g) \<Longrightarrow> (p, n) \<in> set (edges_in N g) \<longleftrightarrow> p \<in> N \<and> p \<in> set (get_list g n)"
proof (induction g)
  case Nil
  then show ?case by (simp add: edges_in_def get_list_def)
next
  case (Cons x g)
  obtain dep ps where x: "x = (dep, ps)" by (cases x)
  have absent: "get_list g dep = []" by (rule get_list_absent) (use Cons.prems in \<open>simp add: x\<close>)
  have "edges_in N (x # g) = map (\<lambda>p. (p, dep)) (filter (\<lambda>p. p \<in> N) ps) @ edges_in N g"
    by (simp add: x edges_in_def)
  then show ?case using Cons absent by (auto simp: x get_list_def)
qed

lemma edges_in_count:
  "distinct (map fst g) \<Longrightarrow>
     length (filter (\<lambda>e. snd e = n) (edges_in N g)) = length (filter (\<lambda>p. p \<in> N) (get_list g n))"
proof (induction g)
  case Nil
  then show ?case by (simp add: edges_in_def get_list_def)
next
  case (Cons x g)
  obtain dep ps where x: "x = (dep, ps)" by (cases x)
  have absent: "get_list g dep = []" by (rule get_list_absent) (use Cons.prems in \<open>simp add: x\<close>)
  have "edges_in N (x # g) = map (\<lambda>p. (p, dep)) (filter (\<lambda>p. p \<in> N) ps) @ edges_in N g"
    by (simp add: x edges_in_def)
  then show ?case using Cons absent by (auto simp: x get_list_def filter_map comp_def)
qed

lemma edges_and_degrees_facts:
  assumes "graph_ok g" and "edges_and_degrees g = (succs, deg)"
  shows "set (get_list succs p) = {n. p \<in> precs_of g n}" and "distinct (get_list succs p)"
    and "n \<in> fst ` set g \<Longrightarrow> map_of deg n = Some (int (card (precs_of g n)))"
proof -
  let ?N = "fst ` set g" and ?z = "map (\<lambda>(n, _). (n, 0)) g :: (pystr \<times> int) list"
  have d: "distinct (map fst g)" using assms(1) by (simp add: graph_ok_def)
  have f: "fold add_edge (edges_in ?N g) ([], ?z) = (succs, deg)"
    using assms(2) by (simp add: edges_and_degrees_def edge_list_def edges_in_def)
  show "set (get_list succs p) = {n. p \<in> precs_of g n}"
    using succs_fold [of "edges_in ?N g" "([], ?z)" p] edges_in_mem [OF d, of p _ ?N]
    by (auto simp: f precs_of_def get_list_def [of "[]"])
  show "distinct (get_list succs p)"
    using succs_distinct [of "([], ?z)" p "edges_in ?N g"] by (simp add: f get_list_def [of "[]"])
  assume n: "n \<in> fst ` set g"
  have "map_of ?z n = Some 0" using n by (induction g) auto
  then have z: "get_deg ?z n = 0" by (simp add: get_deg_def)
  have dl: "distinct (get_list g n)"
    using assms(1) unfolding graph_ok_def get_list_def
    by (cases "map_of g n") (auto simp: list_all_iff dest!: map_of_SomeD)
  have "precs_of g n = set (filter (\<lambda>p. p \<in> ?N) (get_list g n))" by (auto simp: precs_of_def)
  then have "card (precs_of g n) = length (filter (\<lambda>p. p \<in> ?N) (get_list g n))"
    using distinct_card [OF distinct_filter [OF dl]] by metis
  then have "get_deg deg n = int (card (precs_of g n))"
    using degrees_fold [of "edges_in ?N g" "([], ?z)" n] z edges_in_count [OF d, of n ?N] by (simp add: f)
  moreover have "fst ` set ?z = ?N" by (force simp: image_iff)
  then have "n \<in> fst ` set deg" using degree_keys [of "edges_in ?N g" "([], ?z)"] n by (simp add: f)
  then obtain k where "map_of deg n = Some k" by (metis map_of_eq_None_iff not_Some_eq)
  ultimately show "map_of deg n = Some (int (card (precs_of g n)))" by (simp add: get_deg_def)
qed

subsection \<open>The loop of the topological order\<close>

lemma fold_relax:
  "distinct ss \<Longrightarrow> list_all (\<lambda>s. map_of deg s \<noteq> None) ss \<Longrightarrow>
   map_of (fst (fold relax ss (deg, new))) n =
     (if n \<in> set ss then map_option (\<lambda>k. k - 1) (map_of deg n) else map_of deg n)
   \<and> snd (fold relax ss (deg, new)) = new @ filter (\<lambda>s. map_of deg s = Some 1) ss"
proof (induction ss arbitrary: deg new)
  case Nil
  then show ?case by simp
next
  case (Cons s ss)
  obtain k where k: "map_of deg s = Some k" using Cons.prems(2) by auto
  define deg1 where "deg1 = AList.update s (k - 1) deg"
  define new1 where "new1 = (if k - 1 = 0 then new @ [s] else new)"
  have m: "map_of deg1 x = (if x = s then Some (k - 1) else map_of deg x)" for x
    by (simp add: deg1_def map_of_update)
  have step: "fold relax (s # ss) (deg, new) = fold relax ss (deg1, new1)"
    by (simp add: relax_def k deg1_def new1_def)
  have all: "list_all (\<lambda>s. map_of deg1 s \<noteq> None) ss" using Cons.prems(2) by (auto simp: list_all_iff m)
  have "filter (\<lambda>x. map_of deg1 x = Some 1) ss = filter (\<lambda>x. map_of deg x = Some 1) ss"
    using Cons.prems(1) by (intro filter_cong) (auto simp: m)
  then show ?case using Cons.IH [OF _ all, of new1] Cons.prems(1) unfolding step
    by (auto simp: m k new1_def)
qed

text \<open>Nodes taken off the queue are ordered behind all their precedents; a node is ordered or queued
  when all its precedents are ordered, and its degree counts those that are not.\<close>

fun ordered_ok :: "(pystr \<Rightarrow> pystr set) \<Rightarrow> pystr set \<Rightarrow> pystr list \<Rightarrow> bool" where
  "ordered_ok P before [] \<longleftrightarrow> True"
| "ordered_ok P before (n # ns) \<longleftrightarrow> P n \<subseteq> before \<and> ordered_ok P (insert n before) ns"

lemma ordered_ok_append:
  "ordered_ok P before (xs @ ys) \<longleftrightarrow> ordered_ok P before xs \<and> ordered_ok P (before \<union> set xs) ys"
  by (induction xs arbitrary: before) auto

definition kahn_inv ::
  "(pystr \<Rightarrow> pystr set) \<Rightarrow> pystr set \<Rightarrow> pystr list \<Rightarrow> (pystr \<times> int) list \<Rightarrow> pystr list \<Rightarrow> bool" where
  "kahn_inv P N queue deg ord \<longleftrightarrow> distinct (ord @ queue) \<and> set (ord @ queue) \<subseteq> N
     \<and> (\<forall>n \<in> N. map_of deg n = Some (int (card (P n - set ord))))
     \<and> (\<forall>n \<in> N. n \<in> set (ord @ queue) \<longleftrightarrow> P n \<subseteq> set ord)
     \<and> ordered_ok P {} ord"

lemma card_singleton_diff: "finite A \<Longrightarrow> v \<in> A \<Longrightarrow> card A = 1 \<longleftrightarrow> A \<subseteq> {v}"
  by (auto simp: card_Suc_eq card_1_singleton_iff)

lemma kahn_inv_step:
  assumes inv: "kahn_inv P N (v # queue) deg ord"
    and fin: "\<And>n. finite (P n)"
    and succs: "set ss = {n \<in> N. v \<in> P n}" "distinct ss"
    and step: "fold relax ss (deg, []) = (deg', new)"
  shows "kahn_inv P N (queue @ new) deg' (ord @ [v])"
proof -
  have deg: "map_of deg n = Some (int (card (P n - set ord)))" if "n \<in> N" for n
    using inv that by (simp add: kahn_inv_def)
  have q: "n \<in> set (ord @ v # queue) \<longleftrightarrow> P n \<subseteq> set ord" if "n \<in> N" for n
    using inv that by (simp add: kahn_inv_def)
  have v: "v \<in> N" "v \<notin> set ord" "P v \<subseteq> set ord" using inv q [of v] by (auto simp: kahn_inv_def)
  have all: "list_all (\<lambda>s. map_of deg s \<noteq> None) ss" using succs(1) deg by (auto simp: list_all_iff)
  have relaxed: "map_of deg' n = (if n \<in> set ss then map_option (\<lambda>k. k - 1) (map_of deg n) else map_of deg n)"
    "new = filter (\<lambda>s. map_of deg s = Some 1) ss" for n
    using fold_relax [OF succs(2) all, of "[]" n] by (simp_all add: step)
  have new: "set new = {n \<in> N. v \<in> P n \<and> P n \<subseteq> insert v (set ord)}"
  proof -
    have "map_of deg n = Some 1 \<longleftrightarrow> P n \<subseteq> insert v (set ord)" if "n \<in> N" "v \<in> P n" for n
    proof -
      have "v \<in> P n - set ord" "finite (P n - set ord)" using that v(2) fin by simp_all
      then have "card (P n - set ord) = 1 \<longleftrightarrow> P n - set ord \<subseteq> {v}" by (intro card_singleton_diff)
      then show ?thesis using deg [OF that(1)] by (auto simp del: One_nat_def)
    qed
    then show ?thesis using succs(1) relaxed(2) by auto
  qed
  have d: "distinct ((ord @ [v]) @ queue @ new)"
  proof -
    have "distinct new" using succs(2) relaxed(2) by simp
    moreover have "set new \<inter> set (ord @ v # queue) = {}" using new q v(2) by auto
    ultimately show ?thesis using inv by (auto simp: kahn_inv_def)
  qed
  have deg'': "map_of deg' n = Some (int (card (P n - set (ord @ [v]))))" if "n \<in> N" for n
  proof (cases "v \<in> P n")
    case True
    have "P n - set (ord @ [v]) = (P n - set ord) - {v}" by auto
    then have "card (P n - set (ord @ [v])) = card (P n - set ord) - 1"
      using True v(2) fin by (simp add: card_Diff_singleton)
    moreover have "0 < card (P n - set ord)" using True v(2) fin by (auto simp: card_gt_0_iff)
    ultimately show ?thesis using True that succs(1) deg relaxed(1) by (simp add: of_nat_diff)
  next
    case False
    then have "P n - set (ord @ [v]) = P n - set ord" by auto
    then show ?thesis using False that succs(1) deg relaxed(1) by simp
  qed
  have mem: "n \<in> set ((ord @ [v]) @ queue @ new) \<longleftrightarrow> P n \<subseteq> set (ord @ [v])" if "n \<in> N" for n
    using q [OF that] that new by auto
  have "ordered_ok P {} (ord @ [v])" using inv v(3) by (simp add: kahn_inv_def ordered_ok_append)
  moreover have "set ((ord @ [v]) @ queue @ new) \<subseteq> N" using inv new by (auto simp: kahn_inv_def)
  ultimately show ?thesis using d deg'' mem unfolding kahn_inv_def by blast
qed

lemma kahn_final:
  assumes "kahn_inv P N queue deg ord" and "\<And>n. finite (P n)"
    and "\<And>v. set (get_list succs v) = {n \<in> N. v \<in> P n}" and "\<And>v. distinct (get_list succs v)"
  shows "\<exists>deg'. kahn_inv P N [] deg' (kahn succs queue deg ord)"
  using assms
proof (induction succs queue deg ord rule: kahn.induct)
  case (1 succs deg ord)
  then show ?case by auto
next
  case (2 succs v queue deg ord)
  obtain deg' new where r: "fold relax (sort (get_list succs v)) (deg, []) = (deg', new)"
    by (cases "fold relax (sort (get_list succs v)) (deg, [])")
  have "kahn_inv P N (queue @ new) deg' (ord @ [v])"
    by (rule kahn_inv_step [OF "2.prems"(1,2) _ _ r]) (use "2.prems"(3,4) in simp_all)
  then show ?case using "2.IH" [OF r [symmetric]] "2.prems"(2-4) by (simp add: r)
qed

subsection \<open>Groups\<close>

lemma collect_total:
  "set stack \<subseteq> set unvisited \<Longrightarrow> set unvisited \<subseteq> fst ` set adj \<Longrightarrow> set component \<subseteq> set unvisited \<Longrightarrow>
    distinct component \<Longrightarrow>
    \<exists>c. collect adj unvisited stack component = Some c \<and> set c \<subseteq> set unvisited \<and> distinct c"
proof (induction adj unvisited stack component rule: collect.induct)
  case (1 adj unvisited component)
  then show ?case by simp
next
  case (2 adj unvisited cur stack component)
  show ?case
  proof (cases "cur \<in> set component")
    case True
    then show ?thesis using "2.IH"(1) [OF True] "2.prems" by simp
  next
    case False
    have "cur \<in> fst ` set adj" using "2.prems"(1,2) by auto
    then obtain nbs where nbs: "map_of adj cur = Some nbs" by (metis map_of_eq_None_iff not_Some_eq)
    have "\<exists>c. collect adj unvisited
        (rev (filter (\<lambda>nb. nb \<in> set unvisited \<and> nb \<notin> set (component @ [cur])) nbs) @ stack) (component @ [cur])
        = Some c \<and> set c \<subseteq> set unvisited \<and> distinct c"
      by (rule "2.IH"(2) [OF False nbs]) (use "2.prems" False in auto)
    then show ?thesis using False nbs by simp
  qed
qed

lemma cycle_groups_partition:
  "set unvisited \<subseteq> fst ` set adj \<Longrightarrow> distinct unvisited \<Longrightarrow>
    \<exists>gs. cycle_groups adj unvisited = Some gs \<and> distinct (concat gs) \<and> set (concat gs) = set unvisited
      \<and> list_all sorted gs \<and> [] \<notin> set gs"
proof (induction adj unvisited rule: cycle_groups.induct)
  case (1 adj unvisited)
  show ?case
  proof (cases "unvisited = []")
    case True
    then show ?thesis by (simp add: cycle_groups.simps)
  next
    case False
    then have hd: "hd (sort unvisited) \<in> set unvisited" by (metis hd_in_set length_0_conv length_sort set_sort)
    obtain c where c: "collect adj unvisited [hd (sort unvisited)] [] = Some c" "set c \<subseteq> set unvisited"
      "distinct c"
      using collect_total [of "[hd (sort unvisited)]" unvisited adj "[]"] hd "1.prems"(1) by auto
    have start: "hd (sort unvisited) \<in> set c" using collect_contains [OF c(1)] by simp
    obtain gs where gs: "cycle_groups adj (filter (\<lambda>n. n \<notin> set c) unvisited) = Some gs" "distinct (concat gs)"
      "set (concat gs) = set (filter (\<lambda>n. n \<notin> set c) unvisited)" "list_all sorted gs" "[] \<notin> set gs"
      using "1.IH" [OF False c(1)] "1.prems"(1,2) by auto
    have "cycle_groups adj unvisited = Some (sort c # gs)"
      using False c(1) gs(1) by (subst cycle_groups.simps) simp
    moreover have "distinct (concat (sort c # gs))" using c(3) gs(2,3) by auto
    moreover have "set (concat (sort c # gs)) = set unvisited" using c(2) gs(3) by auto
    moreover have "sort c \<noteq> []" using start by (metis length_pos_if_in_set list.size(3) length_sort less_irrefl)
    ultimately show ?thesis using gs(4,5) by auto
  qed
qed

definition depends :: "graph \<Rightarrow> (pystr \<times> pystr) set" where
  "depends g = {(p, n). n \<in> fst ` set g \<and> p \<in> precs_of g n}"

lemma finite_depends: "finite (depends g)"
proof (rule finite_subset)
  show "depends g \<subseteq> fst ` set g \<times> fst ` set g" by (auto simp: depends_def precs_of_def)
qed simp

text \<open>An order in which every node stands behind its precedents excludes cycles among them.\<close>

definition pos :: "pystr list \<Rightarrow> pystr \<Rightarrow> nat" where
  "pos ns n = length (takeWhile ((\<noteq>) n) ns)"

lemma ordered_pos:
  "ordered_ok P before ns \<Longrightarrow> set ns \<inter> before = {} \<Longrightarrow> distinct ns \<Longrightarrow> n \<in> set ns \<Longrightarrow> p \<in> P n \<Longrightarrow>
     p \<in> before \<or> p \<in> set ns \<and> pos ns p < pos ns n"
proof (induction ns arbitrary: before)
  case Nil
  then show ?case by simp
next
  case (Cons x ns)
  show ?case
  proof (cases "n = x")
    case True
    then show ?thesis using Cons.prems by auto
  next
    case False
    have "p \<in> insert x before \<or> p \<in> set ns \<and> pos ns p < pos ns n"
      by (rule Cons.IH) (use Cons.prems False in auto)
    then show ?thesis using False Cons.prems(3) by (auto simp: pos_def)
  qed
qed

lemma ordered_acyclic:
  assumes "ordered_ok P {} ns" and "distinct ns"
    and "\<And>p n. (p, n) \<in> R \<Longrightarrow> n \<in> set ns \<and> p \<in> P n"
  shows "acyclic R"
proof -
  have "pos ns p < pos ns n" if "(p, n) \<in> R\<^sup>+" for p n
    using that
  proof (induction rule: trancl_induct)
    case (base n)
    then show ?case using ordered_pos [OF assms(1) _ assms(2)] assms(3) by blast
  next
    case (step m n)
    then have "pos ns m < pos ns n" using ordered_pos [OF assms(1) _ assms(2)] assms(3) by blast
    with step.IH show ?case by simp
  qed
  then show ?thesis by (metis acyclic_def less_irrefl)
qed

lemma remaining_not_acyclic:
  assumes "finite R" and "A \<noteq> {}" and "\<And>n. n \<in> A \<Longrightarrow> \<exists>p \<in> A. (p, n) \<in> R"
  shows "\<not> acyclic R"
proof
  assume "acyclic R"
  with assms(1) have "wf R" by (rule finite_acyclic_wf)
  then obtain z where "z \<in> A" "\<And>y. (y, z) \<in> R \<Longrightarrow> y \<notin> A" using wfE_min assms(2) by (metis ex_in_conv)
  with assms(3) show False by blast
qed

subsection \<open>The result\<close>

lemma topological_facts:
  assumes "graph_ok g"
  shows "\<exists>ord gs. topological_formula_order g = Some (ord, gs)
    \<and> ordered_ok (precs_of g) {} ord \<and> distinct (ord @ concat gs) \<and> set (ord @ concat gs) = fst ` set g
    \<and> (\<forall>n \<in> set (concat gs). \<exists>p \<in> set (concat gs). p \<in> precs_of g n)
    \<and> list_all sorted gs \<and> [] \<notin> set gs"
proof -
  let ?N = "fst ` set g"
  obtain succs deg where sd: "edges_and_degrees g = (succs, deg)" by (cases "edges_and_degrees g")
  note f = edges_and_degrees_facts [OF assms sd]
  have d: "distinct (map fst g)" using assms by (simp add: graph_ok_def)
  have P: "precs_of g n \<subseteq> ?N" "finite (precs_of g n)" for n by (auto simp: precs_of_def)
  define queue where "queue = sort (filter (\<lambda>n. get_deg deg n = 0) (map fst g))"
  have start: "get_deg deg n = 0 \<longleftrightarrow> precs_of g n \<subseteq> {}" if "n \<in> ?N" for n
    using f(3) [OF that] P(2) by (simp add: get_deg_def)
  have inv0: "kahn_inv (precs_of g) ?N queue deg []"
    using f(3) start d by (auto simp: kahn_inv_def queue_def)
  have succs: "set (get_list succs v) = {n \<in> ?N. v \<in> precs_of g n}" for v
  proof -
    have "precs_of g n = {}" if "n \<notin> ?N" for n using get_list_absent [OF that] by (simp add: precs_of_def)
    then show ?thesis using f(1) by auto
  qed
  define ord where "ord = kahn succs queue deg []"
  obtain deg' where inv: "kahn_inv (precs_of g) ?N [] deg' ord"
    using kahn_final [OF inv0 P(2) succs f(2)] by (auto simp: ord_def)
  then have ord: "distinct ord" "set ord \<subseteq> ?N" "ordered_ok (precs_of g) {} ord"
    "\<And>n. n \<in> ?N \<Longrightarrow> n \<in> set ord \<longleftrightarrow> precs_of g n \<subseteq> set ord"
    unfolding kahn_inv_def append_Nil2 by blast+
  define rest where "rest = filter (\<lambda>n. n \<notin> set ord) (map fst g)"
  have rest: "distinct rest" "set rest = ?N - set ord" using d by (auto simp: rest_def)
  have adj: "fst ` set (adjacency g rest) = set rest" by (force simp: adjacency_def image_iff)
  obtain gs where gs: "extract_cycle_groups rest g = Some gs" "distinct (concat gs)" "set (concat gs) = set rest"
    "list_all sorted gs" "[] \<notin> set gs"
    using cycle_groups_partition [of rest "adjacency g rest"] rest adj by (auto simp: extract_cycle_groups_def)
  have full: "length ord = length (map fst g) \<longleftrightarrow> rest = []"
  proof
    assume "length ord = length (map fst g)"
    then have "card (set ord) = card ?N" using ord(1) d by (metis distinct_card set_map)
    then have "set ord = ?N" using ord(2) by (intro card_subset_eq) simp_all
    then show "rest = []" by (auto simp: rest_def filter_empty_conv)
  next
    assume "rest = []"
    then have "set ord = set (map fst g)" using rest(2) ord(2) by auto
    then show "length ord = length (map fst g)" using ord(1) d by (metis distinct_card)
  qed
  have "topological_formula_order g = Some (ord, gs)"
  proof (cases "rest = []")
    case True
    then have "gs = []" using gs(1) by (simp add: extract_cycle_groups_def cycle_groups.simps)
    then show ?thesis using full True
      by (simp add: topological_formula_order_def sd Let_def flip: queue_def ord_def)
  next
    case False
    then show ?thesis using full gs(1)
      by (simp add: topological_formula_order_def sd Let_def flip: queue_def ord_def rest_def)
  qed
  moreover have "\<exists>p \<in> set (concat gs). p \<in> precs_of g n" if "n \<in> set (concat gs)" for n
    using that gs(3) rest(2) ord(4) [of n] P(1) [of n] by blast
  moreover have "distinct (ord @ concat gs)" "set (ord @ concat gs) = ?N"
    using ord(1,2) gs(2,3) rest(2) by auto
  ultimately show ?thesis using ord(3) gs(4,5) by blast
qed

subsection \<open>Properties\<close>

text \<open>C35: Every cell of the graph is in the order or in one group, once; a cell stands in the order
  behind all the cells it depends on; and no group remains exactly when the dependencies have no
  cycle. The loops end, and no lookup fails.\<close>

theorem formula_order_topological:
  assumes "graph_ok g"
  shows "\<exists>ord gs. topological_formula_order g = Some (ord, gs)
    \<and> ordered_ok (precs_of g) {} ord \<and> distinct (ord @ concat gs) \<and> set (ord @ concat gs) = fst ` set g
    \<and> (gs = [] \<longleftrightarrow> acyclic (depends g))"
proof -
  obtain ord gs where f: "topological_formula_order g = Some (ord, gs)" "ordered_ok (precs_of g) {} ord"
    "distinct (ord @ concat gs)" "set (ord @ concat gs) = fst ` set g"
    "\<forall>n \<in> set (concat gs). \<exists>p \<in> set (concat gs). p \<in> precs_of g n" "[] \<notin> set gs"
    using topological_facts [OF assms] by blast
  have "acyclic (depends g)" if "gs = []"
    by (rule ordered_acyclic [OF f(2)]) (use f(3,4) that in \<open>auto simp: depends_def\<close>)
  moreover have "\<not> acyclic (depends g)" if "gs \<noteq> []"
  proof (rule remaining_not_acyclic [OF finite_depends])
    show "set (concat gs) \<noteq> {}" using that f(6) by (cases gs) auto
    show "\<exists>p \<in> set (concat gs). (p, n) \<in> depends g" if "n \<in> set (concat gs)" for n
    proof -
      have "n \<in> fst ` set g" using that f(4) by auto
      then show ?thesis using f(5) that by (auto simp: depends_def)
    qed
  qed
  ultimately show ?thesis using f(1-4) by blast
qed

theorem formula_order_topological_witness:
  "\<exists>ord gs. topological_formula_order [([2], [[1]]), ([1], [])] = Some (ord, gs)
    \<and> set (ord @ concat gs) = {[2], [1]}"
  using formula_order_topological [of "[([2], [[1]]), ([1], [])]"] by (auto simp: graph_ok_def)

text \<open>The groups are called circular, but they also hold the cells behind a cycle: here only the
  first cell refers to itself, and the second, which merely uses it, is reported with it.\<close>

theorem dependent_of_cycle_reported:
  "topological_formula_order [([1], [[1]]), ([2], [[1]])] = Some ([], [[[1], [2]]])
   \<and> ([2], [2]) \<notin> (depends [([1], [[1]]), ([2], [[1]])])\<^sup>+"
proof
  show "topological_formula_order [([1], [[1]]), ([2], [[1]])] = Some ([], [[[1], [2]]])"
    by (simp add: topological_formula_order_def edges_and_degrees_def edge_list_def add_edge_def
        get_list_def get_deg_def extract_cycle_groups_def adjacency_def neighbours_def cycle_groups.simps)
  have "p = [1]" if "(p, n) \<in> (depends [([1], [[1]]), ([2], [[1]])])\<^sup>+" for p n
    using that by (induction rule: trancl_induct) (auto simp: depends_def precs_of_def get_list_def split: if_splits)
  then show "([2], [2]) \<notin> (depends [([1], [[1]]), ([2], [[1]])])\<^sup>+" by force
qed

lemma corner_le: "u ''A1'' \<le> u ''A3''"
  by (simp add: u_def)

text \<open>A sheet with a sum over a range whose middle cell is a formula.\<close>

definition range_model :: sheet_model where
  "range_model =
     (let cell = (\<lambda>a t f. with_precedents ascii_db [u ''A1'', u ''A2'', u ''A3'', u ''A4'']
            \<lparr>address = a, ctype = t, cell_value = PInt 1, formula = f, number_format = None,
             precedents = [], error_code = None\<rparr>)
      in \<lparr>sheet_name = u ''S'', used_range = u ''A1:A4'',
          cells = [(u ''A1'', cell (u ''A1'') FormulaCell (Some (u ''=SUM(A2:A4)''))),
                   (u ''A2'', cell (u ''A2'') ConstantCell None),
                   (u ''A3'', cell (u ''A3'') FormulaCell (Some (u ''=2*A2''))),
                   (u ''A4'', cell (u ''A4'') ConstantCell None)],
          formula_order = [], circular_groups = []\<rparr>)"

text \<open>A range stands for its two corners only. The formula sums three cells, the one in the middle
  is a formula itself, and the sum is ordered before it.\<close>

theorem range_precedents_lost:
  "\<exists>m. attach_graph_to_model range_model = Some m
     \<and> map (precedents \<circ> snd) (cells m) = [[u ''A2'', u ''A4''], [], [u ''A2''], []]
     \<and> formula_order m = [u ''A1'', u ''A3'']"
proof -
  have refs: "extract_cell_refs ascii_db (u ''=SUM(A2:A4)'') = [u ''A2'', u ''A4'']"
    "extract_cell_refs ascii_db (u ''=2*A2'') = [u ''A2'']"
    by (simp_all add: extract_cell_refs_def CELL_REF_PATTERN_def finditer_def finditer_from.simps
        star_ends.simps plus1_def opt_def eps_def upper_def is_lower_def is_upper_def is_digit_def u_def
        upper_in_def ascii_db_def
        slice_def Let_def)
  have up: "upper_in ascii_db (u ''A2'') = u ''A2''" "upper_in ascii_db (u ''A4'') = u ''A4''"
    by (simp_all add: upper_in_def upper_def is_lower_def u_def)
  have ne: "u ''=SUM(A2:A4)'' \<noteq> []" "u ''=2*A2'' \<noteq> []" by simp_all
  have cs: "cells range_model =
     [(u ''A1'', \<lparr>address = u ''A1'', ctype = FormulaCell, cell_value = PInt 1,
        formula = Some (u ''=SUM(A2:A4)''), number_format = None, precedents = [u ''A2'', u ''A4''], error_code = None\<rparr>),
      (u ''A2'', \<lparr>address = u ''A2'', ctype = ConstantCell, cell_value = PInt 1,
        formula = None, number_format = None, precedents = [], error_code = None\<rparr>),
      (u ''A3'', \<lparr>address = u ''A3'', ctype = FormulaCell, cell_value = PInt 1,
        formula = Some (u ''=2*A2''), number_format = None, precedents = [u ''A2''], error_code = None\<rparr>),
      (u ''A4'', \<lparr>address = u ''A4'', ctype = ConstantCell, cell_value = PInt 1,
        formula = None, number_format = None, precedents = [], error_code = None\<rparr>)]"
    by (simp add: range_model_def with_precedents_def refs filter_refs_to_scope_def up Let_def)
  have g: "build_dependency_graph range_model = [(u ''A1'', [u ''A2'', u ''A4'']), (u ''A3'', [u ''A2''])]"
    by (simp add: build_dependency_graph_def cs formula_like_addresses_def FORMULA_LIKE_TYPES_def corner_le)
  have "topological_formula_order [(u ''A1'', [u ''A2'', u ''A4'']), (u ''A3'', [u ''A2''])] =
      Some ([u ''A1'', u ''A3''], [])"
    by (simp add: topological_formula_order_def edges_and_degrees_def edge_list_def get_deg_def get_list_def corner_le)
  then show ?thesis by (simp add: attach_graph_to_model_def g cs)
qed

end
