(* ===== verification/PyFormula.thy ===== *)
theory PyFormula
  imports PyRegex CellAddress
begin

text \<open>
  Spreadsheet formulas that call Python, \<open>=PY("code"; ranges)\<close>: taking them apart and building
  them (\<open>plugin/calc/python/formula_edit.py\<close>), the forms under which other products store them
  (\<open>cell_discovery.py\<close>, \<open>collabora_formula.py\<close>) and their normal form
  (\<open>spreadsheet_import/extract.py\<close>). The argument \<open>U\<close> is the Unicode database. A released build
  strips the \<open>deal\<close> contracts, so they are no part of the definitions.
\<close>

subsection \<open>Scanning\<close>

text \<open>The names of the function, longest first.\<close>

definition PY_ALIASES :: "pystr list" where
  "PY_ALIASES = [u ''ORG.EXTENSION.WRITERAGENT.PYTHONFUNCTION.PYTHON'', u ''ORG.EXTENSION.LIBREPY.PYTHONFUNCTION.PYTHON'',
     u ''ORG.EXTENSION.WRITERAGENT.PYTHONFUNCTION.PY'', u ''ORG.EXTENSION.LIBREPY.PYTHONFUNCTION.PY'',
     u ''PYTHON'', u ''PY'']"

definition MAX_PYTHON_ALIAS_LEN :: nat where
  "MAX_PYTHON_ALIAS_LEN = fold max (map length PY_ALIASES) 0"

text \<open>The position behind the whitespace at \<open>i\<close>.\<close>

definition skip_space :: "pystr \<Rightarrow> nat \<Rightarrow> nat" where
  "skip_space s i = i + length (takeWhile is_space (drop i s))"

definition py_call_open_end :: "unicode \<Rightarrow> bool \<Rightarrow> pystr \<Rightarrow> nat option" where
  "py_call_open_end U require_equals raw =
     (if require_equals \<and> (raw = [] \<or> hd raw \<noteq> 61) then None
      else let i = (if require_equals then skip_space raw 1 else 0);
               head = upper_in U (slice i (i + MAX_PYTHON_ALIAS_LEN) raw)
           in case find (\<lambda>alias. prefix alias head) PY_ALIASES of
                None \<Rightarrow> None
              | Some alias \<Rightarrow>
                  let j = skip_space raw (i + length alias)
                  in if j < length raw \<and> raw ! j = 40 then Some (j + 1) else None)"

record python_formula_parts =
  call_prefix :: pystr
  py_code :: pystr
  data_suffix :: pystr

text \<open>The loop of \<open>_parse_quoted_string\<close> on the text behind the opening quote: the characters and how
  many were read, the closing quote included.\<close>

fun quoted_body :: "pystr \<Rightarrow> (pystr \<times> nat) option" where
  "quoted_body [] = None"
| "quoted_body (ch # rest) =
     (if ch = 34
      then (case rest of
              d # rest' \<Rightarrow> if d = 34 then map_option (\<lambda>(chars, n). (34 # chars, n + 2)) (quoted_body rest')
                          else Some ([], 1)
            | [] \<Rightarrow> Some ([], 1))
      else map_option (\<lambda>(chars, n). (ch # chars, n + 1)) (quoted_body rest))"

definition parse_quoted_string :: "pystr \<Rightarrow> int \<Rightarrow> (pystr \<times> nat) option" where
  "parse_quoted_string s start =
     (if start < 0 \<or> int (length s) \<le> start \<or> s ! nat start \<noteq> 34 then None
      else map_option (\<lambda>(chars, n). (chars, nat start + 1 + n)) (quoted_body (drop (nat start + 1) s)))"

text \<open>How many characters stand before the end of an unquoted code argument.\<close>

fun unquoted_end :: "nat \<Rightarrow> pystr \<Rightarrow> nat" where
  "unquoted_end depth [] = 0"
| "unquoted_end depth (ch # rest) =
     (if ch = 40 then Suc (unquoted_end (depth + 1) rest)
      else if ch = 41 then (if depth = 0 then 0 else Suc (unquoted_end (depth - 1) rest))
      else if (ch = 59 \<or> ch = 44) \<and> depth = 0 then 0
      else Suc (unquoted_end depth rest))"

definition parse_unquoted_code_arg :: "pystr \<Rightarrow> pystr option" where
  "parse_unquoted_code_arg inner_body =
     (let s = strip inner_body; n = unquoted_end 0 s
      in if s = [] \<or> hd s = 34 then None
         else Some (if n < length s then strip (take n s) else s))"

definition is_data_arg_separator :: "pystr \<Rightarrow> bool" where
  "is_data_arg_separator rest \<longleftrightarrow> rest \<noteq> [] \<and> (hd rest = 59 \<or> hd rest = 44)"

subsection \<open>Taking a formula apart\<close>

definition QUOTE_NORMALIZE :: "nat \<Rightarrow> nat" where
  "QUOTE_NORMALIZE c = (if c = 0x201C \<or> c = 0x201D then 34 else if c = 0x2018 \<or> c = 0x2019 then 39 else c)"

text \<open>\<open>raw[1:-1].strip()\<close> when the text stands between the two characters.\<close>

definition unwrap :: "nat \<Rightarrow> nat \<Rightarrow> pystr \<Rightarrow> pystr" where
  "unwrap a b raw = (if raw \<noteq> [] \<and> hd raw = a \<and> last raw = b then strip (butlast (tl raw)) else raw)"

definition normalize_formula_string :: "unicode \<Rightarrow> pystr \<Rightarrow> pystr" where
  "normalize_formula_string U f =
     (let raw = unwrap 123 125 (map QUOTE_NORMALIZE (strip f))
      in if raw \<noteq> [] \<and> hd raw \<noteq> 61 \<and> py_call_open_end U False raw \<noteq> None then 61 # raw else raw)"

definition with_rest :: "pystr \<Rightarrow> pystr \<Rightarrow> pystr \<Rightarrow> python_formula_parts option" where
  "with_rest pre code rest =
     (if is_data_arg_separator rest
      then Some \<lparr>call_prefix = pre, py_code = code, data_suffix = rest @ [41]\<rparr>
      else if rest = [] then Some \<lparr>call_prefix = pre, py_code = code, data_suffix = [41]\<rparr>
      else None)"

definition parse_python_formula :: "unicode \<Rightarrow> pystr \<Rightarrow> python_formula_parts option" where
  "parse_python_formula U f =
     (if f = [] then None
      else let raw = normalize_formula_string U f in
      case py_call_open_end U True raw of
        None \<Rightarrow> None
      | Some inner_start \<Rightarrow>
          if length raw \<le> inner_start \<or> raw ! (inner_start - 1) \<noteq> 40 then None
          else let inner = drop inner_start raw in
          if last inner \<noteq> 41 then None
          else let inner_body = strip (butlast inner) in
          if inner_body = [] \<or> hd inner_body \<noteq> 34
          then (case parse_unquoted_code_arg inner_body of
                  None \<Rightarrow> None
                | Some code \<Rightarrow>
                    with_rest (take inner_start raw) code
                      (if code \<noteq> inner_body then strip (drop (length code) inner_body) else []))
          else (case parse_quoted_string inner_body 0 of
                  None \<Rightarrow> None
                | Some (code, end_pos) \<Rightarrow>
                    with_rest (take inner_start raw) code (strip (drop end_pos inner_body))))"

definition extract_python_code_loose :: "unicode \<Rightarrow> pystr \<Rightarrow> pystr option" where
  "extract_python_code_loose U f =
     (case parse_python_formula U f of
        Some parts \<Rightarrow> Some (py_code parts)
      | None \<Rightarrow>
          let raw = normalize_formula_string U f in
          case py_call_open_end U True raw of
            None \<Rightarrow> None
          | Some inner_start \<Rightarrow>
              let inner = drop inner_start raw in
              if inner = [] \<or> last inner \<noteq> 41 then None
              else let body = strip (butlast inner) in
              if body \<noteq> [] \<and> hd body = 34 then map_option fst (parse_quoted_string body 0)
              else parse_unquoted_code_arg body)"

definition cell_looks_python_like :: "unicode \<Rightarrow> pystr \<Rightarrow> bool" where
  "cell_looks_python_like U f \<longleftrightarrow>
     f \<noteq> [] \<and> (parse_python_formula U f \<noteq> None \<or> extract_python_code_loose U f \<noteq> None)"

subsection \<open>Rewriting code for a formula\<close>

text \<open>\<open>pattern.search(code, pos)\<close>.\<close>

definition search_from :: "regex \<Rightarrow> pystr \<Rightarrow> nat \<Rightarrow> (nat \<times> nat) option" where
  "search_from r s pos = (case finditer_from r s pos of [] \<Rightarrow> None | m # _ \<Rightarrow> Some m)"

fun paren_scan :: "int \<Rightarrow> nat \<Rightarrow> pystr \<Rightarrow> nat option" where
  "paren_scan depth i [] = None"
| "paren_scan depth i (ch # rest) =
     (if ch = 40 then paren_scan (depth + 1) (Suc i) rest
      else if ch = 41 then (if depth - 1 = 0 then Some i else paren_scan (depth - 1) (Suc i) rest)
      else paren_scan depth (Suc i) rest)"

definition find_matching_paren :: "pystr \<Rightarrow> int \<Rightarrow> nat option" where
  "find_matching_paren s open_idx =
     (if open_idx < 0 \<or> int (length s) \<le> open_idx then None
      else paren_scan 0 (nat open_idx) (drop (nat open_idx) s))"

text \<open>\<open>\btoken\s*\(\<close>.\<close>

definition token_call :: "unicode \<Rightarrow> string \<Rightarrow> regex" where
  "token_call U token = Cat (bound U) (Cat (exactly token) (Cat (Star (Chr is_space)) (Chr (\<lambda>c. c = 40))))"

lemma search_from_bounds:
  assumes "consuming r" and "search_from r s pos = Some (i, j)"
  shows "pos \<le> i \<and> i < j \<and> j \<le> length s"
proof -
  have "spans_from (length s) pos (finditer_from r s pos)" using finditer_from_spans [OF assms(1)] by blast
  then show ?thesis using assms(2) by (auto simp: search_from_def split: list.splits)
qed

lemma paren_scan_bounds: "paren_scan depth i s = Some k \<Longrightarrow> i \<le> k \<and> k < i + length s"
  by (induction s arbitrary: depth i) (fastforce split: if_splits)+

lemma find_matching_paren_bounds:
  "find_matching_paren s i = Some k \<Longrightarrow> nat i \<le> k \<and> k < length s"
  by (auto simp: find_matching_paren_def dest!: paren_scan_bounds split: if_splits)

lemma consuming_token_call: "consuming (token_call U token)"
  unfolding token_call_def by (intro consuming_Cat_right consuming_Chr)

function rewrite_loop :: "unicode \<Rightarrow> string \<Rightarrow> (pystr \<Rightarrow> pystr) \<Rightarrow> pystr \<Rightarrow> nat \<Rightarrow> pystr" where
  "rewrite_loop U token rewrite_inner code pos =
     (case search_from (token_call U token) code pos of
        None \<Rightarrow> drop pos code
      | Some (start, fin) \<Rightarrow>
          let open_paren = fin - 1 in
          slice pos start code @
            (case find_matching_paren code (int open_paren) of
               None \<Rightarrow> drop start code
             | Some close_paren \<Rightarrow>
                 rewrite_inner (slice (open_paren + 1) close_paren code) @
                   rewrite_loop U token rewrite_inner code (close_paren + 1)))"
  by auto
termination
proof (relation "measure (\<lambda>(U, token, rewrite_inner, code, pos). length code - pos)", goal_cases)
  case 1
  show ?case by simp
next
  case (2 U token rewrite_inner code pos m start fin open_paren close_paren)
  then have "pos \<le> start" "start < fin" "fin - 1 \<le> close_paren" "close_paren < length code"
    using search_from_bounds [OF consuming_token_call] find_matching_paren_bounds [of code "int (fin - 1)"]
    by auto
  then show ?case by simp
qed

declare rewrite_loop.simps [simp del]

definition rewrite_token_calls_body :: "unicode \<Rightarrow> pystr \<Rightarrow> string \<Rightarrow> (pystr \<Rightarrow> pystr) \<Rightarrow> pystr" where
  "rewrite_token_calls_body U code token rewrite_inner = rewrite_loop U token rewrite_inner code 0"

text \<open>\<open>\.text\s*\(\<close>.\<close>

definition XL_TEXT_RE :: regex where
  "XL_TEXT_RE = Cat (exactly ''.text'') (Cat (Star (Chr is_space)) (Chr (\<lambda>c. c = 40)))"

definition sanitize_inline_py_code :: "unicode \<Rightarrow> pystr \<Rightarrow> pystr" where
  "sanitize_inline_py_code U code =
     (if code = [] then code
      else let s1 = replace_all (u ''dtype=float'') (u ''dtype=np.float64'') code;
               s2 = re_sub XL_TEXT_RE (u ''.fmt('') s1;
               s3 = rewrite_token_calls_body U s2 ''float'' (\<lambda>inner. u ''('' @ inner @ u '')+0.0'');
               s4 = rewrite_token_calls_body U s3 ''int'' (\<lambda>inner. u ''(('' @ inner @ u '')//1)'')
           in rewrite_token_calls_body U s4 ''str'' (\<lambda>inner. u ''calc.py_str('' @ inner @ u '')''))"

definition inline_py_code_has_lexer_collisions :: "unicode \<Rightarrow> pystr \<Rightarrow> pystr list" where
  "inline_py_code_has_lexer_collisions U code =
     (if re_search (token_call U ''float'') code then [u ''float''] else [])
     @ (if re_search (token_call U ''int'') code then [u ''int''] else [])
     @ (if re_search (token_call U ''str'') code then [u ''str''] else [])
     @ (if re_search XL_TEXT_RE code then [u ''calc.text''] else [])"

definition double_quotes :: "pystr \<Rightarrow> pystr" where
  "double_quotes s = replace_all [34] [34, 34] s"

definition escape_code_for_formula :: "unicode \<Rightarrow> pystr \<Rightarrow> pystr" where
  "escape_code_for_formula U code = double_quotes (sanitize_inline_py_code U code)"

definition escape_code_for_excel_formula :: "pystr \<Rightarrow> pystr" where
  "escape_code_for_excel_formula code = double_quotes code"

subsection \<open>Building a formula\<close>

definition build_new_python_formula :: "unicode \<Rightarrow> pystr \<Rightarrow> pystr" where
  "build_new_python_formula U code = u ''=PY('' @ [34] @ escape_code_for_formula U code @ [34] @ u '')''"

definition rebuild_python_formula :: "unicode \<Rightarrow> python_formula_parts \<Rightarrow> pystr \<Rightarrow> pystr" where
  "rebuild_python_formula U parts new_code =
     u ''=PY('' @ [34] @ escape_code_for_formula U new_code @ [34] @ data_suffix parts"

definition replace_python_code :: "unicode \<Rightarrow> pystr \<Rightarrow> pystr \<Rightarrow> pystr option" where
  "replace_python_code U f new_code =
     (case parse_python_formula U (normalize_formula_string U f) of
        None \<Rightarrow> None
      | Some parts \<Rightarrow> Some (rebuild_python_formula U parts new_code))"

subsection \<open>Data arguments\<close>

text \<open>\<open>s.strip().lstrip(";,").rstrip(")")\<close>, repeated until nothing changes.\<close>

definition trim_binding :: "pystr \<Rightarrow> pystr" where
  "trim_binding s = drop_last_while (\<lambda>c. c = 41) (dropWhile (\<lambda>c. c = 59 \<or> c = 44) (strip s))"

lemma dropWhile_shrinks: "dropWhile P xs = xs \<or> length (dropWhile P xs) < length xs"
  by (cases xs) (auto simp: length_dropWhile_le less_Suc_eq_le)

lemma drop_last_shrinks: "drop_last_while P xs = xs \<or> length (drop_last_while P xs) < length xs"
  using dropWhile_shrinks [of P "rev xs"] by (auto simp: drop_last_while_def rev_swap)

lemma trim_binding_shrinks: "trim_binding s = s \<or> length (trim_binding s) < length s"
proof -
  define a b c where "a = dropWhile is_space s" and "b = drop_last_while is_space a"
    and "c = dropWhile (\<lambda>c. c = 59 \<or> c = 44) b"
  have "a = s \<or> length a < length s" "b = a \<or> length b < length a" "c = b \<or> length c < length b"
    unfolding a_def b_def c_def by (rule dropWhile_shrinks drop_last_shrinks)+
  moreover have "trim_binding s = c \<or> length (trim_binding s) < length c"
    unfolding trim_binding_def strip_is_drops a_def b_def c_def by (rule drop_last_shrinks)
  ultimately show ?thesis by fastforce
qed

function display_loop :: "pystr \<Rightarrow> pystr" where
  "display_loop s = (let t = trim_binding s in if t = s then s else display_loop t)"
  by auto
termination
  using trim_binding_shrinks by (relation "measure length") auto

declare display_loop.simps [simp del]

definition format_data_binding_display :: "pystr \<Rightarrow> pystr" where
  "format_data_binding_display suffix_text = display_loop suffix_text"

definition parse_data_binding_text :: "pystr \<Rightarrow> pystr list" where
  "parse_data_binding_text txt =
     (if strip txt = [] then []
      else let raw = unwrap 91 93 (strip txt);
               parts = filter (\<lambda>p. p \<noteq> []) (map strip (split_on 44 (replace_all [59] [44] raw)))
           in filter (\<lambda>p. 34 \<notin> set p) parts)"

definition format_data_binding_text :: "pystr list \<Rightarrow> pystr" where
  "format_data_binding_text data_args = join (u '', '') (filter (\<lambda>a. a \<noteq> []) (map strip data_args))"

definition is_ascii_letter :: "nat \<Rightarrow> bool" where
  "is_ascii_letter c \<longleftrightarrow> (65 \<le> c \<and> c \<le> 90) \<or> (97 \<le> c \<and> c \<le> 122)"

definition skip_dollar :: "pystr \<Rightarrow> pystr" where
  "skip_dollar s = (if s \<noteq> [] \<and> hd s = 36 then tl s else s)"

definition is_a1_cell_prefix :: "pystr \<Rightarrow> bool" where
  "is_a1_cell_prefix s =
     (let t = skip_dollar s; rest = skip_dollar (dropWhile is_ascii_letter t)
      in takeWhile is_ascii_letter t \<noteq> [] \<and> rest \<noteq> [] \<and> 48 \<le> hd rest \<and> hd rest \<le> 57)"

definition sheet_char :: "nat \<Rightarrow> bool" where
  "sheet_char c \<longleftrightarrow> c = 95 \<or> (48 \<le> c \<and> c \<le> 57) \<or> is_ascii_letter c"

definition is_sheet_identifier :: "pystr \<Rightarrow> bool" where
  "is_sheet_identifier s =
     (s \<noteq> [] \<and> (hd s = 95 \<or> is_ascii_letter (hd s)) \<and> list_all sheet_char (tl s))"

definition has_whitespace :: "pystr \<Rightarrow> bool" where
  "has_whitespace s = list_ex is_space s"

text \<open>A leading digit beyond ASCII is not a \<open>sheet_char\<close>, so the first test matters for ASCII digits
  only.\<close>

definition sheet_needs_excel_quotes :: "pystr \<Rightarrow> bool" where
  "sheet_needs_excel_quotes s \<longleftrightarrow> (s \<noteq> [] \<and> is_digit (hd s)) \<or> \<not> list_all sheet_char s"

text \<open>\<open>s.strip("'\"")\<close> and \<open>s.partition(c)\<close> where \<open>c\<close> occurs.\<close>

definition strip_quotes :: "pystr \<Rightarrow> pystr" where
  "strip_quotes s = (let q = (\<lambda>c. c = 39 \<or> c = 34) in drop_last_while q (dropWhile q s))"

definition partition_at :: "nat \<Rightarrow> pystr \<Rightarrow> pystr \<times> pystr" where
  "partition_at c s = (takeWhile (\<lambda>x. x \<noteq> c) s, drop 1 (dropWhile (\<lambda>x. x \<noteq> c) s))"

definition quoted_name :: "pystr \<Rightarrow> pystr" where
  "quoted_name s = [39] @ s @ [39]"

definition quote_py_sheet :: "pystr \<Rightarrow> pystr \<Rightarrow> pystr" where
  "quote_py_sheet sheet rest =
     (if has_whitespace sheet \<or> \<not> is_sheet_identifier sheet then quoted_name sheet @ [46] @ rest
      else sheet @ [46] @ rest)"

definition format_py_data_range :: "pystr \<Rightarrow> pystr" where
  "format_py_data_range range_addr =
     (let addr = replace_all [36] [] (strip range_addr)
      in if 33 \<in> set addr
         then (case partition_at 33 addr of (sheet, rest) \<Rightarrow>
                 quote_py_sheet (strip_quotes sheet) (replace_all [36] [] rest))
         else if 46 \<notin> set addr then addr
         else (case partition_at 46 addr of (sheet, rest) \<Rightarrow>
                 if sheet = [] \<or> rest = [] then addr
                 else if is_a1_cell_prefix sheet then addr
                 else if has_whitespace sheet \<or> \<not> is_sheet_identifier sheet
                 then (if hd sheet = 39 then sheet else quoted_name sheet) @ [46] @ rest
                 else sheet @ [46] @ rest))"

definition format_excel_data_range :: "pystr \<Rightarrow> pystr" where
  "format_excel_data_range range_addr =
     (let a0 = replace_all [36] [] (strip range_addr);
          addr = (if 33 \<notin> set a0 \<and> 46 \<in> set a0
                  then (case partition_at 46 a0 of (sheet, rest) \<Rightarrow>
                          if sheet \<noteq> [] \<and> rest \<noteq> [] \<and> \<not> is_a1_cell_prefix sheet then sheet @ [33] @ rest else a0)
                  else a0)
      in if 33 \<in> set addr
         then (case partition_at 33 addr of (sheet0, rest0) \<Rightarrow>
                 let sheet = strip_quotes sheet0; rest = replace_all [36] [] rest0
                 in if sheet_needs_excel_quotes sheet then quoted_name sheet @ [33] @ rest
                    else sheet @ [33] @ rest)
         else addr)"

definition build_data_suffix :: "pystr list \<Rightarrow> pystr \<Rightarrow> bool \<Rightarrow> pystr" where
  "build_data_suffix data_args separator excel_ranges =
     (let sep = (if separator = [59] \<or> separator = [44] then separator else [59]);
          fmt = (if excel_ranges \<or> sep = [44] then format_excel_data_range else format_py_data_range);
          args = map fmt (filter (\<lambda>a. a \<noteq> []) (map strip data_args))
      in if args = [] then [41] else sep @ join sep args @ [41])"

definition rebuild_python_formula_with_data ::
  "unicode \<Rightarrow> pystr \<Rightarrow> pystr list \<Rightarrow> pystr \<Rightarrow> bool \<Rightarrow> pystr" where
  "rebuild_python_formula_with_data U code data_args separator excel_escape =
     (let escaped = (if excel_escape then escape_code_for_excel_formula code else escape_code_for_formula U code)
      in u ''=PY('' @ [34] @ escaped @ [34] @ build_data_suffix data_args separator (excel_escape \<or> separator = [44]))"

definition rebuild_python_formula_with_code_ref :: "pystr \<Rightarrow> pystr list \<Rightarrow> pystr \<Rightarrow> bool \<Rightarrow> pystr" where
  "rebuild_python_formula_with_code_ref code_ref data_args separator excel_ranges =
     (let use_excel = (excel_ranges \<or> separator = [44]);
          fmt = (if use_excel then format_excel_data_range else format_py_data_range)
      in u ''=PY('' @ fmt (strip code_ref) @ build_data_suffix data_args separator use_excel)"

definition py_code_arg_is_cell_ref :: "pystr \<Rightarrow> bool" where
  "py_code_arg_is_cell_ref code =
     (let s = strip code
      in if s = [] \<or> 58 \<in> set s \<or> 10 \<in> set s then False
         else let bare = strip (replace_all [36] [] (snd (split_sheet_prefix s)))
              in bare \<noteq> [] \<and> list_all (\<lambda>c. c < 128) bare \<and> length bare \<le> 256
                 \<and> (case parse_address bare of Inl _ \<Rightarrow> False | Inr _ \<Rightarrow> True))"

definition py_formula_has_unquoted_code_ref :: "unicode \<Rightarrow> pystr \<Rightarrow> bool" where
  "py_formula_has_unquoted_code_ref U f =
     (case parse_python_formula U f of
        None \<Rightarrow> False
      | Some parts \<Rightarrow>
          if \<not> py_code_arg_is_cell_ref (py_code parts) then False
          else let raw = normalize_formula_string U f in
          case py_call_open_end U True raw of
            None \<Rightarrow> False
          | Some start \<Rightarrow>
              let rest = drop start raw;
                  body = strip (if rest \<noteq> [] \<and> last rest = 41 then butlast rest else rest)
              in \<not> (body \<noteq> [] \<and> hd body = 34))"

subsection \<open>Forms stored by other products\<close>

definition ADDIN_PY_PREFIX_RE :: regex where
  "ADDIN_PY_PREFIX_RE =
     cats [at_start, Chr (\<lambda>c. c = 61), Star (Chr is_space), ignoring_case ''org.extension.'',
       Alt (ignoring_case ''writeragent'') (ignoring_case ''librepy''), ignoring_case ''.pythonfunction.'',
       Alt (ignoring_case ''python'') (ignoring_case ''py''), Star (Chr is_space), Chr (\<lambda>c. c = 40)]"

text \<open>The groups of \<open>_COLLABORA_ADDIN_PREFIX\<close>: the equals sign with the whitespace behind it, and
  which of the two names stands before the parenthesis.\<close>

definition COLLABORA_HEAD :: regex where
  "COLLABORA_HEAD = ignoring_case ''org.collaboraoffice.sheet.addin.pythoncomputefunctions.''"

definition collabora_re :: "string \<Rightarrow> regex" where
  "collabora_re method =
     cats [at_start, Chr (\<lambda>c. c = 61), Star (Chr is_space), COLLABORA_HEAD, ignoring_case method,
       Star (Chr is_space), Chr (\<lambda>c. c = 40)]"

definition match_end :: "regex \<Rightarrow> pystr \<Rightarrow> nat option" where
  "match_end r s = (case ends r s 0 of [] \<Rightarrow> None | j # _ \<Rightarrow> Some j)"

definition rewrite_collabora_addin_prefix :: "unicode \<Rightarrow> pystr \<Rightarrow> pystr" where
  "rewrite_collabora_addin_prefix U f =
     (if f = [] then f
      else let raw = normalize_formula_string U f;
               equals = take (skip_space raw 1) raw
           in case match_end (collabora_re ''getpython'') raw of
                Some j \<Rightarrow> equals @ u ''PYTHON('' @ drop j raw
              | None \<Rightarrow>
                  (case match_end (collabora_re ''getpy'') raw of
                     Some j \<Rightarrow> equals @ u ''PY('' @ drop j raw
                   | None \<Rightarrow> f))"

definition is_collabora_py_formula :: "unicode \<Rightarrow> pystr \<Rightarrow> bool" where
  "is_collabora_py_formula U f \<longleftrightarrow>
     f \<noteq> [] \<and> (let raw = normalize_formula_string U f
                in match_end (collabora_re ''getpython'') raw \<noteq> None \<or> match_end (collabora_re ''getpy'') raw \<noteq> None)"

definition canonicalize_py_formula_for_parse :: "unicode \<Rightarrow> pystr \<Rightarrow> pystr" where
  "canonicalize_py_formula_for_parse U f =
     (let raw = rewrite_collabora_addin_prefix U (normalize_formula_string U f)
      in case match_end ADDIN_PY_PREFIX_RE raw of
           Some j \<Rightarrow> u ''=PYTHON('' @ drop j raw
         | None \<Rightarrow> raw)"

definition is_py_formula_text :: "unicode \<Rightarrow> pystr \<Rightarrow> bool" where
  "is_py_formula_text U f = cell_looks_python_like U (canonicalize_py_formula_for_parse U f)"

definition extract_code_from_formula :: "unicode \<Rightarrow> pystr \<Rightarrow> pystr" where
  "extract_code_from_formula U f =
     (let canonical = canonicalize_py_formula_for_parse U f
      in case parse_python_formula U canonical of
           Some parts \<Rightarrow> py_code parts
         | None \<Rightarrow> (case extract_python_code_loose U canonical of None \<Rightarrow> [] | Some code \<Rightarrow> code))"

subsection \<open>The normal form\<close>

definition py_formula_semantics :: "unicode \<Rightarrow> pystr \<Rightarrow> (pystr \<times> pystr list) option" where
  "py_formula_semantics U f =
     (case parse_python_formula U (canonicalize_py_formula_for_parse U f) of
        None \<Rightarrow> None
      | Some parts \<Rightarrow>
          Some (py_code parts, parse_data_binding_text (format_data_binding_display (data_suffix parts))))"

definition normalize_py_formula :: "unicode \<Rightarrow> pystr \<Rightarrow> pystr option" where
  "normalize_py_formula U f =
     (case py_formula_semantics U f of
        None \<Rightarrow> None
      | Some (code, data_args) \<Rightarrow> Some (rebuild_python_formula_with_data U code data_args [59] False))"

subsection \<open>Stripping\<close>

subsection \<open>Quotes\<close>

lemma double_quotes_conv: "double_quotes s = concat (map (\<lambda>c. if c = 34 then [34, 34] else [c]) s)"
  by (induction s) (simp_all add: double_quotes_def replace_all_Cons)

lemma quoted_body_double:
  "rest = [] \<or> hd rest \<noteq> 34 \<Longrightarrow>
     quoted_body (double_quotes s @ 34 # rest) = Some (s, length (double_quotes s) + 1)"
  by (induction s) (auto simp: double_quotes_conv split: list.splits)

lemma parse_quoted_double:
  "rest = [] \<or> hd rest \<noteq> 34 \<Longrightarrow>
     parse_quoted_string (34 # double_quotes s @ 34 # rest) 0 = Some (s, length (double_quotes s) + 2)"
  by (simp add: parse_quoted_string_def quoted_body_double)

definition plain_quotes :: "pystr \<Rightarrow> bool" where
  "plain_quotes s = list_all (\<lambda>c. QUOTE_NORMALIZE c = c) s"

lemma plain_quotes_map: "plain_quotes s \<Longrightarrow> map QUOTE_NORMALIZE s = s"
  by (induction s) (simp_all add: plain_quotes_def)

lemma plain_quotes_append [simp]: "plain_quotes (s @ t) \<longleftrightarrow> plain_quotes s \<and> plain_quotes t"
  by (simp add: plain_quotes_def)

lemma plain_quotes_subset: "plain_quotes s \<Longrightarrow> set t \<subseteq> set s \<Longrightarrow> plain_quotes t"
  by (auto simp: plain_quotes_def list_all_iff)

lemma plain_quotes_normalized: "plain_quotes (map QUOTE_NORMALIZE s)"
  by (auto simp: plain_quotes_def list_all_iff QUOTE_NORMALIZE_def)

lemma plain_quotes_u: "plain_quotes (u cs)"
proof -
  have "QUOTE_NORMALIZE (of_char c) = of_char c" for c
  proof -
    obtain n where n: "of_char c = n" "n < (256 :: nat)" using nat_of_char_less_256 by blast
    show ?thesis unfolding n(1) using n(2) by (simp add: QUOTE_NORMALIZE_def)
  qed
  then show ?thesis by (induction cs) (simp_all add: plain_quotes_def u_def)
qed

lemma set_double_quotes: "set (double_quotes s) \<subseteq> set s"
  by (auto simp: double_quotes_conv split: if_splits)

subsection \<open>Reading back a built formula\<close>

lemma open_end_built: "py_call_open_end U True (u ''=PY('' @ r) = Some 4"
proof -
  have m: "MAX_PYTHON_ALIAS_LEN = 47" by (simp add: MAX_PYTHON_ALIAS_LEN_def PY_ALIASES_def)
  have "slice 1 (1 + MAX_PYTHON_ALIAS_LEN) (u ''=PY('' @ r) = [80, 89, 40] @ take 44 r"
    by (simp add: slice_def m u_def)
  then have "upper_in U (slice 1 (1 + MAX_PYTHON_ALIAS_LEN) (u ''=PY('' @ r)) = [80, 89, 40] @ upper_in U (take 44 r)"
    by (simp only: upper_in_append) (simp add: upper_in_def upper_def is_lower_def)
  moreover have "skip_space (61 # 80 # 89 # 40 # r) (Suc 0) = Suc 0"
    "skip_space (61 # 80 # 89 # 40 # r) (Suc (Suc (Suc 0))) = 3"
    by (simp_all add: skip_space_def is_space_def)
  ultimately show ?thesis
    by (simp add: py_call_open_end_def PY_ALIASES_def u_def Let_def)
qed

lemma normalize_built:
  "plain_quotes r \<Longrightarrow> normalize_formula_string U (u ''=PY('' @ r @ [41]) = u ''=PY('' @ r @ [41]"
proof -
  assume r: "plain_quotes r"
  have s: "strip (u ''=PY('' @ r @ [41]) = u ''=PY('' @ r @ [41]"
    by (rule strip_ends) (simp add: u_def is_space_def)
  have "plain_quotes (u ''=PY('' @ r @ [41])"
    using r by (simp add: plain_quotes_u) (simp add: plain_quotes_def QUOTE_NORMALIZE_def)
  then show ?thesis
    by (simp add: normalize_formula_string_def s plain_quotes_map unwrap_def Let_def) (simp add: u_def QUOTE_NORMALIZE_def)
qed

text \<open>A call with a quoted code argument, possibly followed by data arguments.\<close>

definition call_rest :: "pystr \<Rightarrow> bool" where
  "call_rest r \<longleftrightarrow> plain_quotes r \<and> (r = [] \<or> is_data_arg_separator r)"

lemma call_rest_strip:
  assumes "call_rest r"
  shows "strip r = drop_last_while is_space r" and "call_rest (strip r)" and "strip r = [] \<longleftrightarrow> r = []"
    and "is_data_arg_separator (strip r) \<longleftrightarrow> is_data_arg_separator r"
proof -
  have hd: "r = [] \<or> \<not> is_space (hd r)"
    using assms by (auto simp: call_rest_def is_data_arg_separator_def is_space_def)
  then show eq: "strip r = drop_last_while is_space r" by (rule strip_hd)
  have pq: "plain_quotes (strip r)"
    using assms set_strip [of r] plain_quotes_subset by (auto simp: call_rest_def)
  show e: "strip r = [] \<longleftrightarrow> r = []"
    and d: "is_data_arg_separator (strip r) \<longleftrightarrow> is_data_arg_separator r"
    using hd drop_last_while_append [of is_space "[hd r]" "tl r"] unfolding eq
    by (cases r; auto simp: is_data_arg_separator_def drop_last_while_def)+
  show "call_rest (strip r)" using assms pq e d by (auto simp: call_rest_def)
qed

lemma parse_built:
  assumes "plain_quotes c" and "call_rest r"
  shows "parse_python_formula U (u ''=PY('' @ [34] @ double_quotes c @ [34] @ r @ [41]) =
    Some \<lparr>call_prefix = u ''=PY('', py_code = c, data_suffix = strip r @ [41]\<rparr>"
proof -
  define q where "q = [34] @ double_quotes c @ [34]"
  define raw where "raw = u ''=PY('' @ (q @ r) @ [41]"
  have pq: "plain_quotes (q @ r)"
    using assms set_double_quotes [of c] plain_quotes_subset [of c "double_quotes c"]
    by (auto simp: call_rest_def q_def) (auto simp: plain_quotes_def QUOTE_NORMALIZE_def)
  have n: "normalize_formula_string U raw = raw" unfolding raw_def by (rule normalize_built [OF pq])
  have oe: "py_call_open_end U True raw = Some 4" unfolding raw_def by (rule open_end_built)
  have d: "drop 4 raw = (q @ r) @ [41]" and t: "take 4 raw = u ''=PY(''" and "raw ! 3 = 40" and "4 < length raw"
    and "raw \<noteq> []"
    by (simp_all add: raw_def u_def)
  moreover have "strip (butlast (drop 4 raw)) = q @ strip r" "last (drop 4 raw) = 41"
    unfolding d butlast_snoc last_snoc using strip_append [of q r] call_rest_strip(1) [OF assms(2)]
    by (simp_all add: q_def is_space_def)
  moreover have "parse_quoted_string (q @ strip r) 0 = Some (c, length q)"
    using parse_quoted_double [of "strip r" c] call_rest_strip(2) [OF assms(2)]
    by (auto simp: call_rest_def is_data_arg_separator_def q_def)
  moreover have "q \<noteq> []" "hd (q @ strip r) = 34" by (simp_all add: q_def)
  moreover have "with_rest (u ''=PY('') c (strip r) =
      Some \<lparr>call_prefix = u ''=PY('', py_code = c, data_suffix = strip r @ [41]\<rparr>"
    using call_rest_strip(2) [OF assms(2)] by (auto simp: with_rest_def call_rest_def)
  ultimately have "parse_python_formula U raw =
      Some \<lparr>call_prefix = u ''=PY('', py_code = c, data_suffix = strip r @ [41]\<rparr>"
    by (simp add: parse_python_formula_def n oe strip_strip Let_def)
  then show ?thesis by (simp add: raw_def q_def)
qed

subsection \<open>What the parser returns\<close>

lemma set_unwrap: "set (unwrap a b s) \<subseteq> set s"
proof -
  have "set (butlast (tl s)) \<subseteq> set s" by (cases s) (auto dest: in_set_butlastD)
  then show ?thesis using set_strip [of "butlast (tl s)"] by (auto simp: unwrap_def)
qed

lemma plain_quotes_normalize: "plain_quotes (normalize_formula_string U f)"
proof -
  have "plain_quotes (unwrap 123 125 (map QUOTE_NORMALIZE (strip f)))"
    by (rule plain_quotes_subset [OF plain_quotes_normalized set_unwrap])
  then show ?thesis
    by (simp add: normalize_formula_string_def Let_def) (simp add: plain_quotes_def QUOTE_NORMALIZE_def)
qed

lemma with_rest_Some:
  "with_rest pre code rest = Some p \<longleftrightarrow>
     (rest = [] \<or> is_data_arg_separator rest) \<and> p = \<lparr>call_prefix = pre, py_code = code, data_suffix = rest @ [41]\<rparr>"
  by (auto simp: with_rest_def)

lemma set_quoted_body: "quoted_body s = Some (chars, n) \<Longrightarrow> set chars \<subseteq> set s"
proof (induction s arbitrary: chars n rule: quoted_body.induct)
  case 1
  then show ?case by simp
next
  case (2 ch rest)
  show ?case
  proof (cases "ch = 34")
    case True
    show ?thesis
    proof (cases rest)
      case (Cons d rest')
      then show ?thesis using True 2(1) [OF True Cons] 2(3) by (fastforce split: if_splits)
    qed (use 2(3) True in simp)
  next
    case False
    then show ?thesis using 2(2,3) by fastforce
  qed
qed

lemma set_parse_quoted: "parse_quoted_string s i = Some (chars, n) \<Longrightarrow> set chars \<subseteq> set s"
  using set_quoted_body by (fastforce simp: parse_quoted_string_def split: if_splits dest: in_set_dropD)

lemma set_parse_unquoted: "parse_unquoted_code_arg s = Some code \<Longrightarrow> set code \<subseteq> set s"
proof -
  have "set (strip (take n (strip s))) \<subseteq> set s" for n
    using set_strip [of "take n (strip s)"] set_take_subset [of n "strip s"] set_strip [of s] by blast
  then show "parse_unquoted_code_arg s = Some code \<Longrightarrow> ?thesis"
    using set_strip [of s] by (auto simp: parse_unquoted_code_arg_def Let_def split: if_splits)
qed

lemma parsed_parts:
  assumes "parse_python_formula U f = Some p"
  obtains r where "plain_quotes (py_code p)" and "call_rest r" and "strip r = r" and "data_suffix p = r @ [41]"
proof -
  define raw where "raw = normalize_formula_string U f"
  have pq: "plain_quotes t" if "set t \<subseteq> set raw" for t
    using that plain_quotes_normalize plain_quotes_subset unfolding raw_def by blast
  from assms obtain n where n: "py_call_open_end U True raw = Some n"
    by (auto simp: parse_python_formula_def raw_def Let_def split: if_splits option.splits)
  define b where "b = strip (butlast (drop n raw))"
  have b: "set b \<subseteq> set raw"
    using set_strip [of "butlast (drop n raw)"] unfolding b_def by (auto dest: in_set_butlastD in_set_dropD)
  then have d: "set (strip (drop k b)) \<subseteq> set raw" for k
    using set_strip [of "drop k b"] set_drop_subset [of k b] by blast
  have "\<exists>r. with_rest (take n raw) (py_code p) r = Some p \<and> strip r = r \<and> set r \<subseteq> set raw \<and> set (py_code p) \<subseteq> set b"
  proof (cases "b = [] \<or> hd b \<noteq> 34")
    case True
    with assms n obtain code where c: "parse_unquoted_code_arg b = Some code"
      "with_rest (take n raw) code (if code \<noteq> b then strip (drop (length code) b) else []) = Some p"
      by (auto simp: parse_python_formula_def raw_def b_def Let_def split: if_splits option.splits)
    then have "py_code p = code" by (auto simp: with_rest_Some)
    then show ?thesis using c d set_parse_unquoted [OF c(1)]
      by (intro exI [of _ "if code \<noteq> b then strip (drop (length code) b) else []"]) (auto simp: strip_strip)
  next
    case False
    with assms n obtain code k where c: "parse_quoted_string b 0 = Some (code, k)"
      "with_rest (take n raw) code (strip (drop k b)) = Some p"
      by (auto simp: parse_python_formula_def raw_def b_def Let_def split: if_splits option.splits)
    then have "py_code p = code" by (auto simp: with_rest_Some)
    then show ?thesis using c d set_parse_quoted [OF c(1)]
      by (intro exI [of _ "strip (drop k b)"]) (auto simp: strip_strip)
  qed
  then obtain r where "with_rest (take n raw) (py_code p) r = Some p" "strip r = r" "set r \<subseteq> set raw"
    "set (py_code p) \<subseteq> set raw" using b by blast
  then show thesis using that pq [of r] pq [of "py_code p"] unfolding with_rest_Some
    by (metis call_rest_def python_formula_parts.select_convs(3))
qed

subsection \<open>The rewritten code\<close>

lemma set_rewrite_loop:
  assumes "\<And>t. set (f t) \<subseteq> set t \<union> A"
  shows "set (rewrite_loop U token f code pos) \<subseteq> set code \<union> A"
  using assms
proof (induction U token f code pos rule: rewrite_loop.induct)
  case (1 U token f code pos)
  show ?case
  proof (cases "search_from (token_call U token) code pos")
    case None
    then show ?thesis by (subst rewrite_loop.simps) (auto dest: in_set_dropD)
  next
    case (Some m)
    obtain a b where m: "m = (a, b)" by (cases m)
    note s = Some [unfolded m]
    show ?thesis
    proof (cases "find_matching_paren code (int (b - 1))")
      case None
      then show ?thesis by (subst rewrite_loop.simps) (auto simp: s Let_def dest: in_set_dropD set_slice)
    next
      case c: (Some c)
      have "set (f (slice (b - 1 + 1) c code)) \<subseteq> set code \<union> A"
        using 1(2) [of "slice (b - 1 + 1) c code"] set_slice by fastforce
      moreover have "find_matching_paren code (int (b - Suc 0)) = Some c" using c by simp
      ultimately show ?thesis using 1(1) [OF s refl refl c] 1(2)
        by (subst rewrite_loop.simps) (auto simp: s Let_def dest: set_slice)
    qed
  qed
qed

lemma set_replace_all: "old \<noteq> [] \<Longrightarrow> set (replace_all old new s) \<subseteq> set s \<union> set new"
proof (induction "length s" arbitrary: s rule: less_induct)
  case less
  show ?case
  proof (cases s)
    case (Cons c cs)
    have "set (replace_all old new cs) \<subseteq> set cs \<union> set new" by (rule less) (simp_all add: Cons less.prems)
    moreover have "set (replace_all old new (drop (length old) (c # cs))) \<subseteq> set (drop (length old) (c # cs)) \<union> set new"
      by (rule less) (simp_all add: Cons less.prems)
    ultimately show ?thesis
      using set_drop_subset [of "length old" "c # cs"] by (auto simp: Cons replace_all_Cons less.prems)
  qed (simp add: less.prems)
qed

lemma replace_all_not_contained: "p \<noteq> [] \<Longrightarrow> \<not> contains s p \<Longrightarrow> replace_all p t s = s"
  by (rule replace_all_id) (simp_all add: contains_def slice_def find_sub_None)

lemma plain_quotes_sanitize:
  assumes "plain_quotes c"
  shows "plain_quotes (sanitize_inline_py_code U c)"
proof -
  let ?A = "{x. QUOTE_NORMALIZE x = x}"
  have lits: "set (u cs) \<subseteq> ?A" for cs
    using plain_quotes_u [of cs] by (auto simp: plain_quotes_def list_all_iff)
  have rw: "set (rewrite_token_calls_body U s token (\<lambda>inner. u a @ inner @ u b)) \<subseteq> set s \<union> ?A" for s token a b
    unfolding rewrite_token_calls_body_def using lits [of a] lits [of b] by (intro set_rewrite_loop) auto
  define s1 where "s1 = replace_all (u ''dtype=float'') (u ''dtype=np.float64'') c"
  define s2 where "s2 = re_sub XL_TEXT_RE (u ''.fmt('') s1"
  define s3 where "s3 = rewrite_token_calls_body U s2 ''float'' (\<lambda>inner. u ''('' @ inner @ u '')+0.0'')"
  define s4 where "s4 = rewrite_token_calls_body U s3 ''int'' (\<lambda>inner. u ''(('' @ inner @ u '')//1)'')"
  define s5 where "s5 = rewrite_token_calls_body U s4 ''str'' (\<lambda>inner. u ''calc.py_str('' @ inner @ u '')'')"
  have "set s1 \<subseteq> set c \<union> ?A"
    using set_replace_all [of "u ''dtype=float''"] lits unfolding s1_def by fastforce
  moreover have "set s2 \<subseteq> set s1 \<union> ?A"
    using set_re_sub [of XL_TEXT_RE "u ''.fmt(''" s1] lits [of "''.fmt(''"] unfolding s2_def by blast
  moreover have "set s3 \<subseteq> set s2 \<union> ?A" "set s4 \<subseteq> set s3 \<union> ?A" "set s5 \<subseteq> set s4 \<union> ?A"
    unfolding s3_def s4_def s5_def by (rule rw)+
  ultimately have "set s5 \<subseteq> set c \<union> ?A" by blast
  moreover have "sanitize_inline_py_code U c = (if c = [] then c else s5)"
    by (simp add: sanitize_inline_py_code_def s1_def s2_def s3_def s4_def s5_def Let_def)
  ultimately have "set (sanitize_inline_py_code U c) \<subseteq> set c \<union> ?A" by auto
  then show ?thesis using assms by (auto simp: plain_quotes_def list_all_iff)
qed

lemma search_none: "\<not> re_search r s \<Longrightarrow> search_from r s 0 = None"
  by (simp add: re_search_def finditer_def search_from_def)

lemma rewrite_none: "\<not> re_search (token_call U token) s \<Longrightarrow> rewrite_token_calls_body U s token f = s"
  by (simp add: rewrite_token_calls_body_def rewrite_loop.simps search_none)

lemma re_sub_none: "\<not> re_search r s \<Longrightarrow> re_sub r rep s = s"
  by (simp add: re_search_def re_sub_def)

lemma sanitize_clean:
  assumes "inline_py_code_has_lexer_collisions U c = []" and "\<not> contains c (u ''dtype=float'')"
  shows "sanitize_inline_py_code U c = c"
proof -
  have "\<not> re_search (token_call U ''float'') c" "\<not> re_search (token_call U ''int'') c"
    "\<not> re_search (token_call U ''str'') c" "\<not> re_search XL_TEXT_RE c"
    using assms(1) by (auto simp: inline_py_code_has_lexer_collisions_def split: if_splits)
  moreover have "replace_all (u ''dtype=float'') (u ''dtype=np.float64'') c = c"
    using assms(2) by (intro replace_all_not_contained) simp_all
  ultimately show ?thesis by (simp add: sanitize_inline_py_code_def rewrite_none re_sub_none Let_def)
qed

subsection \<open>Round trips\<close>

lemma parse_rebuilt:
  assumes "plain_quotes code" and "call_rest r" and "strip r = r" and "data_suffix p = r @ [41]"
  shows "parse_python_formula U (rebuild_python_formula U p code) =
    Some \<lparr>call_prefix = u ''=PY('', py_code = sanitize_inline_py_code U code, data_suffix = data_suffix p\<rparr>"
  using parse_built [OF plain_quotes_sanitize [OF assms(1), of U] assms(2), of U] assms(3,4)
  by (simp add: rebuild_python_formula_def escape_code_for_formula_def)

text \<open>C36: Replacing the code of a formula by code without typographic quotes keeps the data arguments, and reading the
  formula back gives the new code as rewritten for Calc: the new code itself when it has no call of \<open>float\<close>, \<open>int\<close> or
  \<open>str\<close>, no call of a method \<open>text\<close> and no \<open>dtype=float\<close>, and otherwise a rewritten one. A text that is no call of the
  function is refused. (Typographic quotes are read as plain ones, so code with them is lost:
  \<open>typographic_quotes_lost\<close>.)\<close>

theorem formula_edit_round_trip:
  assumes "plain_quotes code"
  shows "case parse_python_formula U (normalize_formula_string U f) of
           None \<Rightarrow> replace_python_code U f code = None
         | Some p \<Rightarrow> \<exists>g q. replace_python_code U f code = Some g \<and> parse_python_formula U g = Some q
             \<and> data_suffix q = data_suffix p \<and> py_code q = sanitize_inline_py_code U code
             \<and> (inline_py_code_has_lexer_collisions U code = [] \<and> \<not> contains code (u ''dtype=float'')
                  \<longrightarrow> py_code q = code)"
proof (cases "parse_python_formula U (normalize_formula_string U f)")
  case None
  then show ?thesis by (simp add: replace_python_code_def)
next
  case (Some p)
  obtain r where "call_rest r" "strip r = r" "data_suffix p = r @ [41]" by (rule parsed_parts [OF Some])
  then show ?thesis using parse_rebuilt [OF assms] sanitize_clean [of U code]
    by (simp add: replace_python_code_def Some)
qed

lemma canonical_built:
  assumes "normalize_formula_string U (u ''=PY('' @ r) = u ''=PY('' @ r"
  shows "canonicalize_py_formula_for_parse U (u ''=PY('' @ r) = u ''=PY('' @ r"
proof -
  have "match_end ADDIN_PY_PREFIX_RE (u ''=PY('' @ r) = None"
    and "match_end (collabora_re m) (u ''=PY('' @ r) = None" for m
    by (simp_all add: match_end_def ADDIN_PY_PREFIX_RE_def collabora_re_def COLLABORA_HEAD_def ignoring_case_def
        at_start_def star_ends.simps is_space_def fold_ci_def is_upper_def u_def)
  then show ?thesis
    by (simp add: canonicalize_py_formula_for_parse_def rewrite_collabora_addin_prefix_def assms Let_def)
qed

lemma semantics_built:
  assumes "plain_quotes c" and "call_rest r"
  shows "py_formula_semantics U (u ''=PY('' @ [34] @ double_quotes c @ [34] @ r @ [41]) =
    Some (c, parse_data_binding_text (format_data_binding_display (strip r @ [41])))"
proof -
  have "plain_quotes (([34] @ double_quotes c @ [34]) @ r)"
    using assms set_double_quotes [of c] plain_quotes_subset [of c "double_quotes c"]
    by (auto simp: call_rest_def) (auto simp: plain_quotes_def QUOTE_NORMALIZE_def)
  from canonical_built [of U "([34] @ double_quotes c @ [34] @ r) @ [41]"] normalize_built [OF this, of U]
  have "canonicalize_py_formula_for_parse U (u ''=PY('' @ [34] @ double_quotes c @ [34] @ r @ [41]) =
      u ''=PY('' @ [34] @ double_quotes c @ [34] @ r @ [41]" by simp
  then show ?thesis using parse_built [OF assms, of U] by (simp add: py_formula_semantics_def)
qed

lemma set_format_py: "set (format_py_data_range a) \<subseteq> set a \<union> {39, 46}"
proof -
  let ?b = "replace_all [36] [] (strip a)"
  have b: "set ?b \<subseteq> set a" using set_strip [of a] by (auto simp: delete_char)
  have q: "set (strip_quotes s) \<subseteq> set s" for s
    unfolding strip_quotes_def Let_def using set_drop_last_while by (fastforce dest: set_dropWhileD)
  have "set (fst (partition_at c s)) \<subseteq> set s" "set (snd (partition_at c s)) \<subseteq> set s" for c s
    by (auto simp: partition_at_def dest!: set_takeWhileD in_set_dropD set_dropWhileD)
  note p = this
  obtain sh1 re1 sh2 re2 where e: "partition_at 33 ?b = (sh1, re1)" "partition_at 46 ?b = (sh2, re2)" by fastforce
  have s: "set sh1 \<subseteq> set a" "set re1 \<subseteq> set a" "set sh2 \<subseteq> set a" "set re2 \<subseteq> set a"
    using p [of 33 ?b] p [of 46 ?b] b unfolding e by auto
  have "set (strip_quotes sh1) \<subseteq> set a" "set (replace_all [36] [] re1) \<subseteq> set a"
    using q [of sh1] s(1,2) by (auto simp: delete_char)
  then show ?thesis
    using b s(3,4) unfolding format_py_data_range_def Let_def e prod.case quote_py_sheet_def quoted_name_def
    by (simp split: if_splits) blast
qed

lemma plain_quotes_iff: "plain_quotes s \<longleftrightarrow> set s \<subseteq> {c. QUOTE_NORMALIZE c = c}"
  by (auto simp: plain_quotes_def list_all_iff)

lemma set_join: "set (join sep xs) \<subseteq> set sep \<union> (\<Union>x \<in> set xs. set x)"
  by (induction sep xs rule: join.induct) auto

lemma suffix_call_rest:
  assumes "list_all plain_quotes args"
  obtains r where "build_data_suffix args [59] False = r @ [41]" and "call_rest r"
proof -
  let ?as = "map format_py_data_range (filter (\<lambda>a. a \<noteq> []) (map strip args))"
  have "plain_quotes (format_py_data_range (strip a))" if "a \<in> set args" for a
  proof -
    have "set (format_py_data_range (strip a)) \<subseteq> set a \<union> {39, 46}"
      using set_format_py [of "strip a"] set_strip [of a] by blast
    moreover have "plain_quotes a" using that assms by (simp add: list_all_iff)
    moreover have "{39, 46} \<subseteq> {c. QUOTE_NORMALIZE c = c}" by (simp add: QUOTE_NORMALIZE_def)
    ultimately show ?thesis unfolding plain_quotes_iff by blast
  qed
  moreover have "{59} \<subseteq> {c. QUOTE_NORMALIZE c = c}" by (simp add: QUOTE_NORMALIZE_def)
  ultimately have "plain_quotes (join [59] ?as)"
    using set_join [of "[59]" ?as] unfolding plain_quotes_iff by fastforce
  then have "call_rest ([59] @ join [59] ?as)"
    by (simp add: call_rest_def is_data_arg_separator_def) (simp add: plain_quotes_def QUOTE_NORMALIZE_def)
  moreover have "call_rest []" by (simp add: call_rest_def plain_quotes_def)
  moreover have "build_data_suffix args [59] False = (if ?as = [] then [] else [59] @ join [59] ?as) @ [41]"
    by (simp add: build_data_suffix_def Let_def)
  ultimately show thesis using that by (cases "?as = []") simp_all
qed

lemma rebuilt_semantics:
  assumes "plain_quotes code" and "build_data_suffix args [59] False = r @ [41]" and "call_rest r"
  shows "py_formula_semantics U (rebuild_python_formula_with_data U code args [59] False) =
    Some (sanitize_inline_py_code U code, parse_data_binding_text (format_data_binding_display (strip r @ [41])))"
  using semantics_built [OF plain_quotes_sanitize [OF assms(1), of U] assms(3), of U] assms(2)
  by (simp add: rebuild_python_formula_with_data_def escape_code_for_formula_def)

lemma set_display: "set (display_loop s) \<subseteq> set s"
proof (induction s rule: display_loop.induct)
  case (1 s)
  have "set (trim_binding s) \<subseteq> set s"
    using set_strip [of s] set_drop_last_while [of "\<lambda>c. c = 41"] unfolding trim_binding_def
    by (fastforce dest: set_dropWhileD)
  then show ?case using 1 by (subst display_loop.simps) (auto simp: Let_def)
qed

lemma split_on_set: "x \<in> set (split_on sep s) \<Longrightarrow> set x \<subseteq> set s"
proof (induction s arbitrary: x)
  case (Cons c s)
  then show ?case by (cases "split_on sep s") (fastforce split: if_splits)+
qed simp

lemma plain_binding_text:
  assumes "plain_quotes s"
  shows "list_all plain_quotes (parse_data_binding_text s)"
proof -
  let ?raw = "replace_all [59] [44] (unwrap 91 93 (strip s))"
  have "plain_quotes (unwrap 91 93 (strip s))"
    using assms set_unwrap [of 91 93 "strip s"] set_strip [of s] plain_quotes_subset by blast
  then have "plain_quotes ?raw" by (auto simp: replace_char plain_quotes_def list_all_iff QUOTE_NORMALIZE_def)
  then have "plain_quotes (strip x)" if "x \<in> set (split_on 44 ?raw)" for x
    using that split_on_set [OF that] set_strip [of x] plain_quotes_subset by blast
  then show ?thesis by (auto simp: parse_data_binding_text_def Let_def list_all_iff)
qed

text \<open>The normal form of a formula is read back as a formula with the same code, rewritten for Calc.\<close>

lemma normal_form_parses:
  assumes "py_formula_semantics U f = Some (code, args)"
  shows "\<exists>g args'. normalize_py_formula U f = Some g
    \<and> py_formula_semantics U g = Some (sanitize_inline_py_code U code, args')"
proof -
  from assms obtain p where p: "parse_python_formula U (canonicalize_py_formula_for_parse U f) = Some p"
    "code = py_code p" "args = parse_data_binding_text (format_data_binding_display (data_suffix p))"
    by (auto simp: py_formula_semantics_def split: option.splits)
  obtain r where r: "plain_quotes (py_code p)" "call_rest r" "data_suffix p = r @ [41]"
    by (rule parsed_parts [OF p(1)])
  have "plain_quotes (data_suffix p)" using r by (simp add: call_rest_def) (simp add: plain_quotes_def QUOTE_NORMALIZE_def)
  then have "plain_quotes (format_data_binding_display (data_suffix p))"
    unfolding format_data_binding_display_def using set_display plain_quotes_subset by blast
  then have "list_all plain_quotes args" unfolding p(3) by (rule plain_binding_text)
  then obtain r' where "build_data_suffix args [59] False = r' @ [41]" "call_rest r'" by (rule suffix_call_rest)
  from rebuilt_semantics [OF r(1) this, of U] show ?thesis
    by (simp add: normalize_py_formula_def assms p(2))
qed

subsection \<open>Data arguments read back\<close>

text \<open>A range with or without a sheet whose name needs no quotes.\<close>

definition range_token :: "pystr \<Rightarrow> bool" where
  "range_token a \<longleftrightarrow> a \<noteq> [] \<and> list_all (\<lambda>c. sheet_char c \<or> c = 58 \<or> c = 46) a
     \<and> (46 \<in> set a \<longrightarrow> is_sheet_identifier (fst (partition_at 46 a)) \<and> snd (partition_at 46 a) \<noteq> [])"

lemma range_token_chars:
  assumes "range_token a" and "c \<in> set a"
  shows "\<not> is_space c" and "c \<noteq> 36" and "c \<noteq> 33" and "c \<noteq> 41" and "c \<noteq> 44" and "c \<noteq> 59" and "c \<noteq> 34"
    and "c \<noteq> 91" and "c \<noteq> 93" and "QUOTE_NORMALIZE c = c"
  using assms by (auto simp: range_token_def list_all_iff sheet_char_def is_ascii_letter_def is_space_def QUOTE_NORMALIZE_def)

lemma range_token_plain: "range_token a \<Longrightarrow> plain_quotes a"
  using range_token_chars(10) by (simp add: plain_quotes_def list_all_iff)

lemma range_token_free: "range_token a \<Longrightarrow> 34 \<notin> set a \<and> 59 \<notin> set a \<and> 44 \<notin> set a"
  using range_token_chars(5) [of a 44] range_token_chars(6) [of a 59] range_token_chars(7) [of a 34] by blast

lemma partition_at_join: "c \<in> set s \<Longrightarrow> fst (partition_at c s) @ [c] @ snd (partition_at c s) = s"
  unfolding partition_at_def fst_conv snd_conv
  by (metis (mono_tags, lifting) append_Cons append_Nil drop0 drop_Suc_Cons hd_dropWhile list.exhaust_sel One_nat_def
      set_takeWhileD takeWhile_dropWhile_id takeWhile_eq_all_conv dropWhile_eq_Nil_conv)

lemma strip_no_space: "(\<And>c. c \<in> set s \<Longrightarrow> \<not> is_space c) \<Longrightarrow> strip s = s"
  by (rule strip_id) (simp add: list_all_iff)

lemma range_token_strip: "range_token a \<Longrightarrow> strip a = a \<and> a \<noteq> []"
  using range_token_chars(1) strip_no_space by (auto simp: range_token_def)

lemma format_range_token:
  assumes "range_token a"
  shows "format_py_data_range a = a"
proof -
  have "strip a = a" using range_token_strip [OF assms] by simp
  moreover have "replace_all [36] [] a = a" "33 \<notin> set a"
    using range_token_chars(2,3) [OF assms] by (auto simp: delete_char intro: filter_True)
  moreover have "46 \<in> set a \<Longrightarrow> \<not> has_whitespace (fst (partition_at 46 a))"
    using range_token_chars(1) [OF assms] by (auto simp: has_whitespace_def list_ex_iff partition_at_def dest: set_takeWhileD)
  moreover have "46 \<in> set a \<Longrightarrow> is_sheet_identifier (fst (partition_at 46 a)) \<and> fst (partition_at 46 a) @ [46] @ snd (partition_at 46 a) = a"
    using assms partition_at_join by (simp add: range_token_def)
  ultimately show ?thesis by (auto simp: format_py_data_range_def Let_def split: prod.splits)
qed

lemma join_ends:
  assumes "list_all range_token xs" and "xs \<noteq> []"
  shows "join [59] xs \<noteq> []" and "hd (join [59] xs) \<in> set (hd xs)" and "last (join [59] xs) \<in> set (last xs)"
proof -
  have "join [59] xs \<noteq> [] \<and> hd (join [59] xs) \<in> set (hd xs) \<and> last (join [59] xs) \<in> set (last xs)"
    using assms
  proof (induction xs)
    case (Cons x xs)
    have "x \<noteq> []" using Cons.prems(1) by (simp add: range_token_def)
    then show ?case using Cons by (cases xs) (auto simp: hd_append)
  qed simp
  then show "join [59] xs \<noteq> []" and "hd (join [59] xs) \<in> set (hd xs)" and "last (join [59] xs) \<in> set (last xs)"
    by blast+
qed

lemma display_tokens:
  assumes "list_all range_token xs" and "xs \<noteq> []"
  shows "format_data_binding_display ([59] @ join [59] xs @ [41]) = join [59] xs"
proof -
  let ?j = "join [59] xs"
  note j = join_ends [OF assms]
  have r: "range_token (hd xs)" "range_token (last xs)" using assms by (simp_all add: list_all_iff)
  note h = range_token_chars [OF r(1) j(2)] and l = range_token_chars [OF r(2) j(3)]
  have "strip ([59] @ ?j @ [41]) = [59] @ ?j @ [41]" by (rule strip_ends) (simp add: is_space_def)
  moreover have "strip ?j = ?j" by (rule strip_ends) (use h(1) l(1) in simp)
  moreover have d: "dropWhile (\<lambda>c. c = 59 \<or> c = 44) (?j @ t) = ?j @ t" for t
    using j(1) h(5,6) by (cases ?j) auto
  moreover have "drop_last_while (\<lambda>c. c = 41) ?j = ?j" using l(4) by (simp add: drop_last_while_id)
  moreover from this have "drop_last_while (\<lambda>c. c = 41) (?j @ [41]) = ?j" by (simp add: drop_last_while_def)
  ultimately have t: "trim_binding ([59] @ ?j @ [41]) = ?j" "trim_binding ?j = ?j"
    using d [of "[]"] by (simp_all add: trim_binding_def)
  have "display_loop ?j = ?j" by (subst display_loop.simps) (simp add: t)
  moreover have "?j \<noteq> [59] @ ?j @ [41]" by (rule notI) (drule arg_cong [of _ _ length], simp)
  ultimately show ?thesis unfolding format_data_binding_display_def
    by (subst display_loop.simps) (simp only: t Let_def if_False if_True)
qed

lemma join_replace: "(\<And>x. x \<in> set xs \<Longrightarrow> 59 \<notin> set x) \<Longrightarrow> replace_all [59] [44] (join [59] xs) = join [44] xs"
proof (induction xs)
  case (Cons x xs)
  have "map (\<lambda>c. if c = 59 then 44 else c) x = x" using Cons.prems [of x] by (intro map_idI) auto
  then show ?case using Cons by (cases xs) (simp_all add: replace_char)
qed simp

lemma parse_tokens:
  assumes "list_all range_token xs" and "xs \<noteq> []"
  shows "parse_data_binding_text (join [59] xs) = xs"
proof -
  let ?j = "join [59] xs"
  note j = join_ends [OF assms]
  have r: "range_token (hd xs)" "range_token (last xs)" using assms by (simp_all add: list_all_iff)
  note h = range_token_chars [OF r(1) j(2)] and l = range_token_chars [OF r(2) j(3)]
  have ch: "range_token x" if "x \<in> set xs" for x using that assms(1) by (simp add: list_all_iff)
  have s: "strip ?j = ?j" by (rule strip_ends) (use h(1) l(1) in simp)
  have x: "strip x = x" "x \<noteq> []" "34 \<notin> set x" "59 \<notin> set x" "44 \<notin> set x" if "x \<in> set xs" for x
    using range_token_chars(1) [OF ch [OF that]] range_token_free [OF ch [OF that]] ch [OF that]
    by (auto simp: range_token_def intro: strip_no_space)
  have "split_on 44 (replace_all [59] [44] ?j) = xs"
    using join_replace [of xs] x(4,5) split_on_join [of xs 44] assms(2) by simp
  moreover have "map strip xs = xs" using x(1) by (auto intro: map_idI)
  moreover have "filter (\<lambda>p. p \<noteq> [] \<and> 34 \<notin> set p) xs = xs" using x by (auto intro: filter_True)
  moreover have "unwrap 91 93 ?j = ?j" using h(8) by (simp add: unwrap_def)
  ultimately show ?thesis using j(1) by (simp add: parse_data_binding_text_def s Let_def conj_commute)
qed

text \<open>A formula built from code and ranges is read back as that code, rewritten for Calc, and those
  ranges in their order.\<close>

theorem formula_data_round_trip:
  assumes "plain_quotes code" and "list_all range_token args"
  shows "py_formula_semantics U (rebuild_python_formula_with_data U code args [59] False) =
    Some (sanitize_inline_py_code U code, args)"
proof -
  have t: "strip a = a" "a \<noteq> []" if "a \<in> set args" for a
    using that assms(2) range_token_strip by (auto simp: list_all_iff)
  have "map strip args = args" "filter (\<lambda>a. a \<noteq> []) args = args" "map format_py_data_range args = args"
    using t assms(2) format_range_token by (auto simp: list_all_iff intro: map_idI filter_True)
  then have b: "build_data_suffix args [59] False = (if args = [] then [] else [59] @ join [59] args) @ [41]"
    by (simp add: build_data_suffix_def Let_def)
  have "list_all plain_quotes args" using assms(2) range_token_plain by (simp add: list_all_iff)
  then obtain r where r: "build_data_suffix args [59] False = r @ [41]" "call_rest r" by (rule suffix_call_rest)
  have "r = (if args = [] then [] else [59] @ join [59] args)" using b r(1) by simp
  moreover have "parse_data_binding_text (format_data_binding_display [41]) = []"
    by (simp add: format_data_binding_display_def display_loop.simps trim_binding_def drop_last_while_def
        parse_data_binding_text_def Let_def strip_is_drops is_space_def)
  moreover have "strip ([59] @ join [59] args) = [59] @ join [59] args" if "args \<noteq> []"
  proof (rule strip_ends)
    have "range_token (last args)" using assms(2) that by (simp add: list_all_iff)
    then show "[59] @ join [59] args = [] \<or> \<not> is_space (hd ([59] @ join [59] args)) \<and> \<not> is_space (last ([59] @ join [59] args))"
      using join_ends [OF assms(2) that] range_token_chars(1) by (simp add: is_space_def)
  qed
  ultimately have "parse_data_binding_text (format_data_binding_display (strip r @ [41])) = args"
    using display_tokens [OF assms(2)] parse_tokens [OF assms(2)] by (cases "args = []") simp_all
  then show ?thesis using rebuilt_semantics [OF assms(1) r, of U] by simp
qed

subsection \<open>Evaluation\<close>

lemmas re_steps = finditer_def finditer_from.simps star_ends.simps bound_def word_boundary_def exactly_def
  ignoring_case_def opt_def plus1_def eps_def at_start_def
lemmas ascii_classes = alnum_def letter_def is_upper_def is_lower_def is_digit_def is_space_def fold_ci_def u_def
  ascii_db_def

text \<open>A literal pattern needs its characters in the text.\<close>

lemma ends_lit: "j \<in> set (ends (lit id p) s i) \<Longrightarrow> set p \<subseteq> set s"
proof (induction p arbitrary: i)
  case (Cons c p)
  then show ?case by (auto split: if_splits)
qed simp

lemma search_ends:
  assumes "consuming r" and "re_search r s"
  shows "\<exists>i j. j \<in> set (ends r s i)"
proof -
  obtain i j where "(i, j) \<in> set (finditer_from r s 0)"
    using assms(2) by (cases "finditer_from r s 0") (auto simp: re_search_def finditer_def)
  then obtain js where "ends r s i = j # js" using finditer_from_spans [OF assms(1), of s 0] by blast
  then show ?thesis by (metis list.set_intros(1))
qed

lemma token_absent: "c \<in> set (u token) \<Longrightarrow> c \<notin> set s \<Longrightarrow> \<not> re_search (token_call U token) s"
  using search_ends [OF consuming_token_call, of U token s] ends_lit [of _ "u token" s]
  by (auto simp: token_call_def bound_def exactly_def split: if_splits)

lemma xl_text_absent: "c \<in> set (u ''.text'') \<Longrightarrow> c \<notin> set s \<Longrightarrow> \<not> re_search XL_TEXT_RE s"
proof -
  have "consuming XL_TEXT_RE" unfolding XL_TEXT_RE_def by (intro consuming_Cat_right consuming_Chr)
  then show "c \<in> set (u ''.text'') \<Longrightarrow> c \<notin> set s \<Longrightarrow> ?thesis"
    using search_ends [of XL_TEXT_RE s] ends_lit [of _ "u ''.text''" s] by (auto simp: XL_TEXT_RE_def exactly_def)
qed

text \<open>Nothing to rewrite but calls of \<open>float\<close>.\<close>

definition float_only :: "pystr \<Rightarrow> bool" where
  "float_only s \<longleftrightarrow> \<not> contains s (u ''dtype=float'') \<and> \<not> re_search XL_TEXT_RE s
     \<and> \<not> re_search (token_call ascii_db ''int'') s \<and> \<not> re_search (token_call ascii_db ''str'') s"

lemma sanitize_float_only:
  assumes "float_only s" and "float_only t" and "s \<noteq> []"
    and "rewrite_token_calls_body ascii_db s ''float'' (\<lambda>inner. u ''('' @ inner @ u '')+0.0'') = t"
  shows "sanitize_inline_py_code ascii_db s = t"
  using assms by (simp add: sanitize_inline_py_code_def float_only_def replace_all_not_contained re_sub_none rewrite_none Let_def)

lemma float_onlyI: "\<not> contains s (u ''dtype=float'') \<Longrightarrow> 120 \<notin> set s \<Longrightarrow> 105 \<notin> set s \<Longrightarrow> 115 \<notin> set s \<Longrightarrow> float_only s"
  unfolding float_only_def
  by (intro conjI xl_text_absent [of 120] token_absent [of 105] token_absent [of 115]) (simp_all add: u_def)

lemma float_only_texts:
  "float_only (u ''float(a)/2'')" "float_only (u ''(a)+0.0/2'')" "float_only (u ''float(float(a))'')"
  "float_only (u ''(float(a))+0.0'')" "float_only (u ''((a)+0.0)+0.0'')"
  by (rule float_onlyI; simp add: contains_def u_def)+

lemmas rewrite_steps = rewrite_token_calls_body_def rewrite_loop.simps search_from_def token_call_def re_steps
  ascii_classes find_matching_paren_def slice_def

lemma quotient_rewrite:
  "rewrite_token_calls_body ascii_db (u ''float(a)/2'') ''float'' (\<lambda>inner. u ''('' @ inner @ u '')+0.0'') = u ''(a)+0.0/2''"
  by (simp add: rewrite_steps eval_nat_numeral)

lemma nested_rewrite:
  "rewrite_token_calls_body ascii_db (u ''float(float(a))'') ''float'' (\<lambda>inner. u ''('' @ inner @ u '')+0.0'')
     = u ''(float(a))+0.0''"
  by (simp add: rewrite_steps eval_nat_numeral)

lemma again_rewrite:
  "rewrite_token_calls_body ascii_db (u ''(float(a))+0.0'') ''float'' (\<lambda>inner. u ''('' @ inner @ u '')+0.0'')
     = u ''((a)+0.0)+0.0''"
  by (simp add: rewrite_steps eval_nat_numeral)

lemmas float_rewrites = quotient_rewrite nested_rewrite again_rewrite

lemma float32_rewrite: "sanitize_inline_py_code ascii_db (u ''dtype=float32'') = u ''dtype=np.float6432''"
proof -
  have "replace_all (u ''dtype=float'') (u ''dtype=np.float64'') (u ''dtype=float32'') = u ''dtype=np.float6432''"
    by (simp add: u_def replace_all_Cons)
  moreover have "\<not> re_search XL_TEXT_RE (u ''dtype=np.float6432'')" by (rule xl_text_absent [of 120]) (simp_all add: u_def)
  moreover have "\<not> re_search (token_call ascii_db ''float'') (u ''dtype=np.float6432'')"
    by (simp add: re_search_def token_call_def re_steps ascii_classes)
  moreover have "\<not> re_search (token_call ascii_db ''int'') (u ''dtype=np.float6432'')"
    by (rule token_absent [of 105]) (simp_all add: u_def)
  moreover have "\<not> re_search (token_call ascii_db ''str'') (u ''dtype=np.float6432'')"
    by (rule token_absent [of 115]) (simp_all add: u_def)
  ultimately show ?thesis by (simp add: sanitize_inline_py_code_def re_sub_none rewrite_none Let_def)
qed

text \<open>The rewriting for Calc changes what the code computes: the type \<open>float32\<close> becomes a name that
  does not exist, a quotient becomes the sum of a number and a quotient, and of nested calls only
  the outer one is rewritten, so that editing the formula again rewrites its code again.\<close>

theorem rewriting_changes_code:
  "sanitize_inline_py_code ascii_db (u ''dtype=float32'') = u ''dtype=np.float6432''
   \<and> sanitize_inline_py_code ascii_db (u ''float(a)/2'') = u ''(a)+0.0/2''
   \<and> sanitize_inline_py_code ascii_db (u ''float(float(a))'') = u ''(float(a))+0.0''
   \<and> sanitize_inline_py_code ascii_db (u ''(float(a))+0.0'') = u ''((a)+0.0)+0.0''"
  using float32_rewrite float_rewrites float_only_texts by (simp add: sanitize_float_only)

text \<open>Code with typographic quotes does not survive: in the formula built from it they are read as
  plain ones, the strict parser refuses it and the loose one returns the empty code.\<close>

theorem typographic_quotes_lost:
  "parse_python_formula ascii_db (build_new_python_formula ascii_db [0x201C, 65, 0x201D]) = None
   \<and> extract_python_code_loose ascii_db (build_new_python_formula ascii_db [0x201C, 65, 0x201D]) = Some []"
proof -
  define raw where "raw = u ''=PY('' @ [34, 34, 65, 34, 34] @ [41]"
  have "sanitize_inline_py_code ascii_db [0x201C, 65, 0x201D] = [0x201C, 65, 0x201D]"
    by (rule sanitize_clean)
      (simp_all add: inline_py_code_has_lexer_collisions_def re_search_def XL_TEXT_RE_def token_call_def re_steps
        ascii_classes contains_def)
  then have b: "build_new_python_formula ascii_db [0x201C, 65, 0x201D] = u ''=PY('' @ [34, 0x201C, 65, 0x201D, 34] @ [41]"
    by (simp add: build_new_python_formula_def escape_code_for_formula_def double_quotes_conv u_def)
  have "strip (u ''=PY('' @ [34, 0x201C, 65, 0x201D, 34] @ [41]) = u ''=PY('' @ [34, 0x201C, 65, 0x201D, 34] @ [41]"
    by (rule strip_ends) (simp add: u_def is_space_def)
  then have n: "normalize_formula_string ascii_db (build_new_python_formula ascii_db [0x201C, 65, 0x201D]) = raw"
    unfolding b raw_def by (simp add: normalize_formula_string_def unwrap_def QUOTE_NORMALIZE_def u_def Let_def)
  have o: "py_call_open_end ascii_db True raw = Some 4" unfolding raw_def by (rule open_end_built)
  have p: "parse_python_formula ascii_db (build_new_python_formula ascii_db [0x201C, 65, 0x201D]) = None"
    by (simp add: parse_python_formula_def n o) (simp add: raw_def u_def parse_quoted_string_def strip_ends
        is_space_def with_rest_def is_data_arg_separator_def Let_def)
  moreover have "extract_python_code_loose ascii_db (build_new_python_formula ascii_db [0x201C, 65, 0x201D]) = Some []"
    by (simp add: extract_python_code_loose_def p n o) (simp add: raw_def u_def parse_quoted_string_def strip_ends
        is_space_def Let_def)
  ultimately show ?thesis by simp
qed

subsection \<open>Witnesses\<close>

definition small_formula :: pystr where
  "small_formula = u ''=PY('' @ [34] @ double_quotes (u ''1'') @ [34] @ u '';A1'' @ [41]"

lemma small_rest: "call_rest (u '';A1'')" "strip (u '';A1'') = u '';A1''"
proof -
  show "call_rest (u '';A1'')"
    unfolding call_rest_def using plain_quotes_u [of "'';A1''"] by (simp add: is_data_arg_separator_def u_def)
  show "strip (u '';A1'') = u '';A1''" by (rule strip_ends) (simp add: u_def is_space_def)
qed

lemma small_normal: "normalize_formula_string U small_formula = small_formula"
  unfolding small_formula_def
  using normalize_built [of "[34] @ double_quotes (u ''1'') @ [34] @ u '';A1''" U] plain_quotes_u
  by (simp add: double_quotes_conv u_def plain_quotes_def QUOTE_NORMALIZE_def)

lemma small_parse: "parse_python_formula U small_formula =
    Some \<lparr>call_prefix = u ''=PY('', py_code = u ''1'', data_suffix = u '';A1'' @ [41]\<rparr>"
  using parse_built [OF plain_quotes_u small_rest(1), of U "''1''"] small_rest(2)
  by (simp add: small_formula_def)

theorem formula_edit_round_trip_witness:
  "\<exists>g q. replace_python_code ascii_db small_formula (u ''2'') = Some g \<and> parse_python_formula ascii_db g = Some q
     \<and> data_suffix q = u '';A1'' @ [41]"
  using formula_edit_round_trip [OF plain_quotes_u, of ascii_db small_formula "''2''"]
  by (auto simp: small_normal small_parse)

theorem formula_data_round_trip_witness:
  "py_formula_semantics ascii_db (rebuild_python_formula_with_data ascii_db (u ''1'') [u ''A1:B2'', u ''Data.C3''] [59] False)
     = Some (sanitize_inline_py_code ascii_db (u ''1''), [u ''A1:B2'', u ''Data.C3''])"
proof (rule formula_data_round_trip [OF plain_quotes_u])
  show "list_all range_token [u ''A1:B2'', u ''Data.C3'']"
    by (simp add: range_token_def u_def sheet_char_def is_ascii_letter_def partition_at_def is_sheet_identifier_def)
qed

end
