(* ===== verification/SheetIngest.thy ===== *)
theory SheetIngest
  imports SheetGraph PyFormula
begin

text \<open>
  The import of a sheet (\<open>plugin/calc/spreadsheet_import/ingest.py\<close>): the two arrays LibreOffice
  returns for the used range become classified cells under their addresses, with precedents and the
  order of \<open>SheetGraph\<close>; the Python formulas among them are extracted in normal form
  (\<open>extract.py\<close>). The arrays are arguments.
\<close>

subsection \<open>Classification\<close>

definition format_used_range :: "int \<Rightarrow> int \<Rightarrow> int \<Rightarrow> int \<Rightarrow> pystr" where
  "format_used_range start_col start_row end_col end_row =
     (let start = format_address start_col start_row; stop = format_address end_col end_row
      in if start = stop then start else start @ [58] @ stop)"

definition PROMPT_HEAD_RE :: regex where
  "PROMPT_HEAD_RE = cats [at_start, Chr (\<lambda>c. c = 61), Star (Chr is_space), ignoring_case ''prompt'',
     Star (Chr is_space), Chr (\<lambda>c. c = 40)]"

definition braced :: "pystr \<Rightarrow> bool" where
  "braced s \<longleftrightarrow> s \<noteq> [] \<and> hd s = 123 \<and> last s = 125"

definition classify_cell ::
  "unicode \<Rightarrow> pyval \<Rightarrow> pystr \<Rightarrow> cell_type \<times> pyval \<times> pystr option \<times> pystr option" where
  "classify_cell U raw_val raw_formula =
     (if raw_formula \<noteq> [] \<and> hd raw_formula = 61 \<or> braced raw_formula
      then (if braced raw_formula then (ArrayFormulaCell, raw_val, Some raw_formula, None)
            else if is_py_formula_text U raw_formula then (PyFormulaCell, raw_val, Some raw_formula, None)
            else if match_end PROMPT_HEAD_RE (normalize_formula_string U raw_formula) \<noteq> None
            then (PromptCell, raw_val, Some raw_formula, None)
            else case is_calc_error_display U raw_val of
                   Some code \<Rightarrow> (ErrorCell, raw_val, Some raw_formula, Some code)
                 | None \<Rightarrow> (FormulaCell, raw_val, Some raw_formula, None))
      else if raw_val \<noteq> PNone \<and> raw_val \<noteq> PStr [] then (ConstantCell, raw_val, None, None)
      else (EmptyCell, PNone, None, None))"

subsection \<open>The arrays\<close>

datatype ingest_error =
    RowCountsDiffer
  | ColumnCountsDiffer nat
  | MissingKey

definition new_cell :: "unicode \<Rightarrow> pystr \<Rightarrow> pyval \<Rightarrow> pystr \<Rightarrow> cell_record" where
  "new_cell U addr raw_val raw_formula =
     (case classify_cell U raw_val raw_formula of (t, v, f, e) \<Rightarrow>
        \<lparr>address = addr, ctype = t, cell_value = v, formula = f, number_format = None, precedents = [], error_code = e\<rparr>)"

fun ingest_row :: "unicode \<Rightarrow> int \<Rightarrow> int \<Rightarrow> (pyval \<times> pystr) list \<Rightarrow> (pystr \<times> cell_record) list
    \<Rightarrow> (pystr \<times> cell_record) list" where
  "ingest_row U abs_row abs_col [] cs = cs"
| "ingest_row U abs_row abs_col ((raw_val, raw_formula) # row) cs =
     (let addr = format_address abs_col abs_row
      in ingest_row U abs_row (abs_col + 1) row (AList.update addr (new_cell U addr raw_val raw_formula) cs))"

fun ingest_rows :: "unicode \<Rightarrow> int \<Rightarrow> int \<Rightarrow> nat \<Rightarrow> (pyval list \<times> pystr list) list \<Rightarrow> (pystr \<times> cell_record) list
    \<Rightarrow> ingest_error + (pystr \<times> cell_record) list" where
  "ingest_rows U start_col start_row row_idx [] cs = Inr cs"
| "ingest_rows U start_col start_row row_idx ((data_row, formula_row) # rows) cs =
     (if length formula_row \<noteq> length data_row then Inl (ColumnCountsDiffer row_idx)
      else ingest_rows U start_col start_row (Suc row_idx) rows
             (ingest_row U (start_row + int row_idx) start_col (zip data_row formula_row) cs))"

definition attached :: "sheet_model \<Rightarrow> ingest_error + sheet_model" where
  "attached m = (case attach_graph_to_model m of None \<Rightarrow> Inl MissingKey | Some m' \<Rightarrow> Inr m')"

definition ingest_from_arrays ::
  "unicode \<Rightarrow> pystr \<Rightarrow> int \<Rightarrow> int \<Rightarrow> pyval list list \<Rightarrow> pystr list list \<Rightarrow> ingest_error + sheet_model" where
  "ingest_from_arrays U name start_col start_row data_array formula_array =
     (if length data_array \<noteq> length formula_array then Inl RowCountsDiffer
      else if data_array = []
      then attached \<lparr>sheet_name = name, used_range = format_address start_col start_row, cells = [],
             formula_order = [], circular_groups = []\<rparr>
      else let end_row = start_row + int (length data_array) - 1;
               end_col = start_col + int (Max (set (map length data_array))) - 1;
               range = format_used_range start_col start_row end_col end_row
           in case ingest_rows U start_col start_row 0 (zip data_array formula_array) [] of
                Inl e \<Rightarrow> Inl e
              | Inr cs \<Rightarrow>
                  attached \<lparr>sheet_name = name, used_range = range,
                    cells = map (\<lambda>(addr, cell). (addr, with_precedents U (map fst cs) cell)) cs,
                    formula_order = [], circular_groups = []\<rparr>)"

subsection \<open>Python cells\<close>

record py_cell_extract =
  x_address :: pystr
  original_formula :: pystr
  normalized_formula :: pystr
  x_code :: pystr
  data_args :: "pystr list"
  changed :: bool

text \<open>One cell of the sorted loop: \<open>None\<close> when it is skipped, \<open>Some None\<close> a failed assertion.\<close>

definition extract_one :: "unicode \<Rightarrow> pystr \<times> cell_record \<Rightarrow> py_cell_extract option option" where
  "extract_one U ac =
     (case formula (snd ac) of
        None \<Rightarrow> None
      | Some f \<Rightarrow>
          if ctype (snd ac) \<noteq> PyFormulaCell \<or> f = [] then None
          else case normalize_py_formula U f of
                 None \<Rightarrow> None
               | Some g \<Rightarrow>
                   Some (case py_formula_semantics U g of
                           None \<Rightarrow> None
                         | Some (code, args) \<Rightarrow>
                             Some \<lparr>x_address = fst ac, original_formula = f, normalized_formula = g,
                               x_code = code, data_args = args, changed = (f \<noteq> g)\<rparr>))"

definition extract_py_cells :: "unicode \<Rightarrow> sheet_model \<Rightarrow> py_cell_extract list option" where
  "extract_py_cells U m =
     those (List.map_filter (extract_one U) (sort_key fst (cells m)))"

subsection \<open>Addresses\<close>

lemma takeWhile_letters: "list_all is_upper xs \<Longrightarrow> list_all is_digit ys \<Longrightarrow> takeWhile is_upper (xs @ ys) = xs"
  by (cases ys) (auto simp: takeWhile_append list_all_iff digit_not_upper)

lemma format_address_inj:
  assumes "0 \<le> c" and "0 \<le> r" and "0 \<le> c'" and "0 \<le> r'" and "format_address c r = format_address c' r'"
  shows "c = c' \<and> r = r'"
proof -
  have e: "column_letters (c + 1) @ dec_digits (nat (r + 1)) = column_letters (c' + 1) @ dec_digits (nat (r' + 1))"
    using assms format_parts(1) by simp
  then have l: "column_letters (c + 1) = column_letters (c' + 1)"
    by (metis takeWhile_letters column_letters_upper dec_digits_digit)
  then have "dec_digits (nat (r + 1)) = dec_digits (nat (r' + 1))" using e by simp
  then have "nat (r + 1) = nat (r' + 1)" by (simp add: dec_digits_inj)
  moreover have "c + 1 = c' + 1" using l assms(1,3) by (metis add_increasing2 column_value_letters zero_le_one)
  ultimately show ?thesis using assms by simp
qed

subsection \<open>What the loops build\<close>


text \<open>The cells of the grid with their addresses, row by row.\<close>

fun row_cells :: "unicode \<Rightarrow> int \<Rightarrow> int \<Rightarrow> (pyval \<times> pystr) list \<Rightarrow> (pystr \<times> cell_record) list" where
  "row_cells U r c [] = []"
| "row_cells U r c ((v, f) # row) =
     (format_address c r, new_cell U (format_address c r) v f) # row_cells U r (c + 1) row"

fun grid_cells :: "unicode \<Rightarrow> int \<Rightarrow> int \<Rightarrow> (pyval \<times> pystr) list list \<Rightarrow> (pystr \<times> cell_record) list" where
  "grid_cells U r c [] = []"
| "grid_cells U r c (row # rows) = row_cells U r c row @ grid_cells U (r + 1) c rows"

lemma row_cells_iff:
  "(a, cell) \<in> set (row_cells U r c row) \<longleftrightarrow>
     (\<exists>j < length row. a = format_address (c + int j) r \<and> cell = new_cell U a (fst (row ! j)) (snd (row ! j)))"
proof (induction row arbitrary: c)
  case (Cons x row)
  then show ?case by (cases x) (auto simp: Ex_less_Suc2 algebra_simps)
qed simp

lemma grid_cells_iff:
  "(a, cell) \<in> set (grid_cells U r c rows) \<longleftrightarrow>
     (\<exists>i < length rows. \<exists>j < length (rows ! i). a = format_address (c + int j) (r + int i)
        \<and> cell = new_cell U a (fst (rows ! i ! j)) (snd (rows ! i ! j)))"
  by (induction rows arbitrary: r) (simp_all add: Ex_less_Suc2 row_cells_iff algebra_simps)

lemma ingest_row_append:
  assumes "0 \<le> r" and "0 \<le> c" and "\<And>j. format_address (c + int j) r \<notin> fst ` set cs"
  shows "ingest_row U r c row cs = cs @ row_cells U r c row"
  using assms(2,3)
proof (induction row arbitrary: c cs)
  case (Cons x row)
  obtain v f where x: "x = (v, f)" by (cases x)
  let ?a = "format_address c r"
  have up: "AList.update ?a (new_cell U ?a v f) cs = cs @ [(?a, new_cell U ?a v f)]"
    by (rule update_fresh) (use Cons.prems(2) [of 0] in simp)
  have "ingest_row U r (c + 1) row (cs @ [(?a, new_cell U ?a v f)]) =
      (cs @ [(?a, new_cell U ?a v f)]) @ row_cells U r (c + 1) row"
  proof (rule Cons.IH)
    show "0 \<le> c + 1" using Cons.prems(1) by simp
    show "format_address (c + 1 + int j) r \<notin> fst ` set (cs @ [(?a, new_cell U ?a v f)])" for j
      using Cons.prems(2) [of "Suc j"] format_address_inj [of "c + 1 + int j" r c r] assms(1) Cons.prems(1)
      by (auto simp: algebra_simps)
  qed
  then show ?case by (simp add: x Let_def up)
qed simp

lemma row_keys: "a \<in> fst ` set (row_cells U r c row) \<Longrightarrow> \<exists>j. a = format_address (c + int j) r"
  by (auto simp: row_cells_iff)

lemma ingest_rows_append:
  assumes "0 \<le> r + int k" and "0 \<le> c"
    and "\<And>i j. format_address (c + int j) (r + int k + int i) \<notin> fst ` set cs"
    and "list_all (\<lambda>(d, f). length f = length d) rows"
  shows "ingest_rows U c r k rows cs = Inr (cs @ grid_cells U (r + int k) c (map (\<lambda>(d, f). zip d f) rows))"
  using assms(1,3,4)
proof (induction rows arbitrary: k cs)
  case (Cons x rows)
  obtain d f where x: "x = (d, f)" by (cases x)
  let ?r = "r + int k"
  have row: "ingest_row U ?r c (zip d f) cs = cs @ row_cells U ?r c (zip d f)"
    by (rule ingest_row_append) (use Cons.prems(1) assms(2) Cons.prems(2) [of _ 0] in simp_all)
  have "ingest_rows U c r (Suc k) rows (cs @ row_cells U ?r c (zip d f)) =
      Inr ((cs @ row_cells U ?r c (zip d f)) @ grid_cells U (r + int (Suc k)) c (map (\<lambda>(d, f). zip d f) rows))"
  proof (rule Cons.IH)
    show "0 \<le> r + int (Suc k)" using Cons.prems(1) by simp
    show "list_all (\<lambda>(d, f). length f = length d) rows" using Cons.prems(3) by simp
    fix i j
    have "format_address (c + int j) (r + int (Suc k) + int i) \<noteq> format_address (c + int j') ?r" for j'
      using format_address_inj [of "c + int j" "r + int (Suc k) + int i" "c + int j'" ?r] Cons.prems(1) assms(2)
      by fastforce
    then show "format_address (c + int j) (r + int (Suc k) + int i) \<notin> fst ` set (cs @ row_cells U ?r c (zip d f))"
      using Cons.prems(2) [of j "Suc i"] row_keys [of _ U ?r c "zip d f"] by (auto simp: algebra_simps)
  qed
  then show ?case using Cons.prems(3) by (simp add: x row algebra_simps)
qed simp

lemma row_cells_distinct: "0 \<le> r \<Longrightarrow> 0 \<le> c \<Longrightarrow> distinct (map fst (row_cells U r c row))"
proof (induction row arbitrary: c)
  case (Cons x row)
  obtain v f where x: "x = (v, f)" by (cases x)
  have "format_address c r \<noteq> format_address (c + 1 + int j) r" for j
    using format_address_inj [of c r "c + 1 + int j" r] Cons.prems by auto
  then have "format_address c r \<notin> fst ` set (row_cells U r (c + 1) row)" using row_keys by metis
  then show ?case using Cons by (simp add: x)
qed simp

lemma grid_cells_distinct: "0 \<le> r \<Longrightarrow> 0 \<le> c \<Longrightarrow> distinct (map fst (grid_cells U r c rows))"
proof (induction rows arbitrary: r)
  case (Cons row rows)
  have "a \<notin> fst ` set (grid_cells U (r + 1) c rows)" if mem: "a \<in> fst ` set (row_cells U r c row)" for a
  proof
    assume "a \<in> fst ` set (grid_cells U (r + 1) c rows)"
    then obtain i j where "a = format_address (c + int j) (r + 1 + int i)" by (auto simp: grid_cells_iff)
    moreover obtain j' where "a = format_address (c + int j') r" using row_keys [OF mem] by blast
    ultimately show False
      using format_address_inj [of "c + int j" "r + 1 + int i" "c + int j'" r] Cons.prems by auto
  qed
  then have "fst ` set (row_cells U r c row) \<inter> fst ` set (grid_cells U (r + 1) c rows) = {}" by blast
  moreover have "distinct (map fst (grid_cells U (r + 1) c rows))" by (rule Cons.IH) (use Cons.prems in simp_all)
  ultimately show ?case
    by (simp only: grid_cells.simps map_append distinct_append set_map row_cells_distinct [OF Cons.prems] simp_thms)
qed simp

subsection \<open>The imported sheet\<close>

lemma distinct_filter_refs: "distinct (filter_refs_to_scope U refs scope)"
proof -
  have "distinct (fold (\<lambda>ref ordered. let key = upper_in U ref
      in if key \<in> set scope \<and> key \<notin> set ordered then ordered @ [key] else ordered) refs ys)" if "distinct ys" for ys
    using that by (induction refs arbitrary: ys) (auto simp: Let_def)
  then show ?thesis by (simp add: filter_refs_to_scope_def)
qed

lemma with_precedents_keeps:
  "address (with_precedents U scope cell) = address cell" "ctype (with_precedents U scope cell) = ctype cell"
  "cell_value (with_precedents U scope cell) = cell_value cell" "formula (with_precedents U scope cell) = formula cell"
  "error_code (with_precedents U scope cell) = error_code cell"
  by (auto simp: with_precedents_def split: option.splits)

lemma distinct_precedents: "distinct (precedents cell) \<Longrightarrow> distinct (precedents (with_precedents U scope cell))"
  by (auto simp: with_precedents_def distinct_filter_refs split: option.splits)

lemma build_graph_ok:
  assumes "distinct (map fst (cells m))" and "list_all (\<lambda>(a, c). distinct (precedents c)) (cells m)"
  shows "graph_ok (build_dependency_graph m)"
proof -
  have "distinct (formula_like_addresses (cells m))"
    using assms(1) by (simp add: formula_like_addresses_def distinct_map_filter)
  then show ?thesis
    using assms(2) by (auto simp: graph_ok_def build_dependency_graph_def comp_def list_all_iff
        intro!: distinct_filter dest!: map_of_SomeD split: option.splits)
qed

definition is_formula_like :: "sheet_model \<Rightarrow> pystr \<Rightarrow> bool" where
  "is_formula_like m a = (case map_of (cells m) a of None \<Rightarrow> False | Some c \<Rightarrow> ctype c \<in> set FORMULA_LIKE_TYPES)"

lemma graph_nodes:
  assumes "distinct (map fst (cells m))"
  shows "fst ` set (build_dependency_graph m) = {a. is_formula_like m a}"
proof -
  have "set (formula_like_addresses (cells m)) = {a. is_formula_like m a}"
  proof (intro set_eqI iffI)
    fix a
    assume "a \<in> set (formula_like_addresses (cells m))"
    then obtain c where "(a, c) \<in> set (cells m)" "ctype c \<in> set FORMULA_LIKE_TYPES"
      by (auto simp: formula_like_addresses_def)
    then show "a \<in> {a. is_formula_like m a}"
      using map_of_is_SomeI [OF assms] by (simp add: is_formula_like_def)
  next
    fix a
    assume "a \<in> {a. is_formula_like m a}"
    then obtain c where "map_of (cells m) a = Some c" "ctype c \<in> set FORMULA_LIKE_TYPES"
      by (auto simp: is_formula_like_def split: option.splits)
    then show "a \<in> set (formula_like_addresses (cells m))"
      by (force simp: formula_like_addresses_def dest: map_of_SomeD)
  qed
  then show ?thesis by (simp add: build_dependency_graph_def image_image)
qed

lemma ordered_ok_before: "ordered_ok P before (xs @ a # ys) \<Longrightarrow> P a \<subseteq> before \<union> set xs"
  by (induction xs arbitrary: before) auto

lemma precs_of_graph:
  assumes "distinct (map fst (cells m))" and "map_of (cells m) a = Some cell" and "is_formula_like m a"
    and "p \<in> set (precedents cell)" and "is_formula_like m p"
  shows "p \<in> precs_of (build_dependency_graph m) a"
proof -
  have "a \<in> set (formula_like_addresses (cells m))"
    using graph_nodes [OF assms(1)] assms(3) by (auto simp: build_dependency_graph_def)
  moreover have "case map_of (cells m) p of None \<Rightarrow> False | Some c \<Rightarrow> ctype c \<noteq> EmptyCell"
    using assms(5) by (auto simp: is_formula_like_def FORMULA_LIKE_TYPES_def split: option.splits)
  ultimately have "p \<in> set (get_list (build_dependency_graph m) a)"
    using assms(2,4) by (simp add: get_list_def build_dependency_graph_def map_of_map_restrict)
  then show ?thesis using graph_nodes [OF assms(1)] assms(5) by (simp add: precs_of_def)
qed

lemma attached_facts:
  assumes "distinct (map fst (cells m))" and "list_all (\<lambda>(a, c). distinct (precedents c)) (cells m)"
  shows "\<exists>ord gs. attached m = Inr (m\<lparr>formula_order := ord, circular_groups := gs\<rparr>)
    \<and> distinct (ord @ concat gs) \<and> set (ord @ concat gs) = {a. is_formula_like m a}
    \<and> ordered_ok (precs_of (build_dependency_graph m)) {} ord"
proof -
  have "graph_ok (build_dependency_graph m)" by (rule build_graph_ok [OF assms])
  then obtain ord gs where "topological_formula_order (build_dependency_graph m) = Some (ord, gs)"
    "ordered_ok (precs_of (build_dependency_graph m)) {} ord" "distinct (ord @ concat gs)"
    "set (ord @ concat gs) = fst ` set (build_dependency_graph m)"
    using topological_facts by blast
  then show ?thesis
    using graph_nodes [OF assms(1)]
    by (intro exI [of _ ord] exI [of _ gs]) (simp add: attached_def attach_graph_to_model_def)
qed

text \<open>The model before the order is attached.\<close>

definition unordered_model :: "unicode \<Rightarrow> pystr \<Rightarrow> int \<Rightarrow> int \<Rightarrow> (pyval \<times> pystr) list list \<Rightarrow> pystr \<Rightarrow> sheet_model" where
  "unordered_model U name c r rows used =
     (let cs = grid_cells U r c rows
      in \<lparr>sheet_name = name, used_range = used,
          cells = map (\<lambda>(addr, cell). (addr, with_precedents U (map fst cs) cell)) cs,
          formula_order = [], circular_groups = []\<rparr>)"

lemma unordered_cells:
  assumes "0 \<le> r" and "0 \<le> c"
  shows "distinct (map fst (cells (unordered_model U name c r rows used)))"
    and "(a, cell) \<in> set (cells (unordered_model U name c r rows used)) \<longleftrightarrow>
      (\<exists>i < length rows. \<exists>j < length (rows ! i). a = format_address (c + int j) (r + int i)
        \<and> cell = with_precedents U (map fst (grid_cells U r c rows)) (new_cell U a (fst (rows ! i ! j)) (snd (rows ! i ! j))))"
proof -
  have "map fst (cells (unordered_model U name c r rows used)) = map fst (grid_cells U r c rows)"
    by (simp add: unordered_model_def Let_def split_def)
  then show "distinct (map fst (cells (unordered_model U name c r rows used)))"
    using grid_cells_distinct [OF assms] by simp
  have "(a, cell) \<in> set (cells (unordered_model U name c r rows used)) \<longleftrightarrow>
      (\<exists>cell0. (a, cell0) \<in> set (grid_cells U r c rows) \<and> cell = with_precedents U (map fst (grid_cells U r c rows)) cell0)"
    by (force simp: unordered_model_def Let_def image_iff)
  then show "(a, cell) \<in> set (cells (unordered_model U name c r rows used)) \<longleftrightarrow>
      (\<exists>i < length rows. \<exists>j < length (rows ! i). a = format_address (c + int j) (r + int i)
        \<and> cell = with_precedents U (map fst (grid_cells U r c rows)) (new_cell U a (fst (rows ! i ! j)) (snd (rows ! i ! j))))"
    by (simp add: grid_cells_iff) blast
qed

lemma new_cell_fields:
  "address (new_cell U a v f) = a" "precedents (new_cell U a v f) = []"
  "(ctype (new_cell U a v f), cell_value (new_cell U a v f), formula (new_cell U a v f), error_code (new_cell U a v f))
     = classify_cell U v f"
  by (simp_all add: new_cell_def split: prod.splits)

lemma ingest_ok:
  assumes "length data = length forms" and "list_all (\<lambda>(d, f). length f = length d) (zip data forms)"
    and "0 \<le> start_col" and "0 \<le> start_row"
  shows "\<exists>used. ingest_from_arrays U name start_col start_row data forms =
    attached (unordered_model U name start_col start_row (map (\<lambda>(d, f). zip d f) (zip data forms)) used)"
proof (cases "data = []")
  case True
  then show ?thesis using assms(1)
    by (intro exI [of _ "format_address start_col start_row"]) (simp add: ingest_from_arrays_def unordered_model_def)
next
  case False
  have "ingest_rows U start_col start_row 0 (zip data forms) [] =
      Inr (grid_cells U start_row start_col (map (\<lambda>(d, f). zip d f) (zip data forms)))"
    using ingest_rows_append [of start_row 0 start_col "[]" "zip data forms" U] assms by simp
  then show ?thesis using False assms(1)
    by (simp add: ingest_from_arrays_def unordered_model_def Let_def) blast
qed

text \<open>C34: Importing a rectangle of cells succeeds. The model has exactly the cells of the rectangle, each under
  its address and classified by its value and formula; the order and the groups hold exactly the
  addresses of the formula cells, each once; and a formula cell in the order stands behind every
  formula cell among its precedents.\<close>

theorem sheet_import:
  assumes "length data = length forms" and "list_all (\<lambda>(d, f). length f = length d) (zip data forms)"
    and "0 \<le> start_col" and "0 \<le> start_row"
  shows "\<exists>m. ingest_from_arrays U name start_col start_row data forms = Inr m
    \<and> (\<forall>a. map_of (cells m) a \<noteq> None \<longleftrightarrow>
         (\<exists>i < length data. \<exists>j < length (data ! i). a = format_address (start_col + int j) (start_row + int i)))
    \<and> (\<forall>i < length data. \<forall>j < length (data ! i).
         \<exists>c. map_of (cells m) (format_address (start_col + int j) (start_row + int i)) = Some c
           \<and> address c = format_address (start_col + int j) (start_row + int i)
           \<and> (ctype c, cell_value c, formula c, error_code c) = classify_cell U (data ! i ! j) (forms ! i ! j))
    \<and> distinct (formula_order m @ concat (circular_groups m))
    \<and> set (formula_order m @ concat (circular_groups m)) = {a. is_formula_like m a}
    \<and> (\<forall>xs a ys c p. formula_order m = xs @ a # ys \<longrightarrow> map_of (cells m) a = Some c \<longrightarrow> p \<in> set (precedents c)
         \<longrightarrow> is_formula_like m p \<longrightarrow> p \<in> set xs)"
proof -
  define rows where "rows = map (\<lambda>(d, f). zip d f) (zip data forms)"
  obtain used where ing: "ingest_from_arrays U name start_col start_row data forms =
      attached (unordered_model U name start_col start_row rows used)" using ingest_ok [OF assms] unfolding rows_def by blast
  define m0 where "m0 = unordered_model U name start_col start_row rows used"
  note cell = unordered_cells [OF assms(4,3), where U = U and name = name and rows = rows and used = used, folded m0_def]
  have shape: "length rows = length data" "\<And>i. i < length data \<Longrightarrow> length (rows ! i) = length (data ! i)"
    "\<And>i j. i < length data \<Longrightarrow> j < length (data ! i) \<Longrightarrow> rows ! i ! j = (data ! i ! j, forms ! i ! j)"
    using assms(1,2) by (auto simp: list_all_length rows_def)
  have "distinct (precedents c)" if "(a, c) \<in> set (cells m0)" for a c
    using that unfolding cell(2) by (auto intro!: distinct_precedents simp: new_cell_fields)
  then have dist: "list_all (\<lambda>(a, c). distinct (precedents c)) (cells m0)" by (auto simp: list_all_iff)
  obtain ord gs where at: "attached m0 = Inr (m0\<lparr>formula_order := ord, circular_groups := gs\<rparr>)"
    "distinct (ord @ concat gs)" "set (ord @ concat gs) = {a. is_formula_like m0 a}"
    "ordered_ok (precs_of (build_dependency_graph m0)) {} ord"
    using attached_facts [OF cell(1) dist] by blast
  define m where "m = m0\<lparr>formula_order := ord, circular_groups := gs\<rparr>"
  have m: "cells m = cells m0" "formula_order m = ord" "circular_groups m = gs" by (simp_all add: m_def)
  have like: "is_formula_like m a \<longleftrightarrow> is_formula_like m0 a" for a by (simp add: is_formula_like_def m)
  have some: "map_of (cells m0) a = Some c \<longleftrightarrow> (a, c) \<in> set (cells m0)" for a c
    using cell(1) by (simp add: map_of_eq_Some_iff)
  have "map_of (cells m) a \<noteq> None \<longleftrightarrow>
      (\<exists>i < length data. \<exists>j < length (data ! i). a = format_address (start_col + int j) (start_row + int i))" for a
    unfolding m not_None_eq some cell(2) shape(1) by (metis shape(2))
  moreover have "\<exists>c. map_of (cells m) (format_address (start_col + int j) (start_row + int i)) = Some c
      \<and> address c = format_address (start_col + int j) (start_row + int i)
      \<and> (ctype c, cell_value c, formula c, error_code c) = classify_cell U (data ! i ! j) (forms ! i ! j)"
    if "i < length data" "j < length (data ! i)" for i j
  proof -
    let ?a = "format_address (start_col + int j) (start_row + int i)"
    let ?c = "with_precedents U (map fst (grid_cells U start_row start_col rows)) (new_cell U ?a (data ! i ! j) (forms ! i ! j))"
    have "(?a, ?c) \<in> set (cells m0)" unfolding cell(2) using that shape by (intro exI [of _ i] exI [of _ j] conjI) simp_all
    then show ?thesis unfolding m some by (intro exI [of _ ?c]) (simp add: with_precedents_keeps new_cell_fields)
  qed
  moreover have "p \<in> set xs" if "ord = xs @ a # ys" "map_of (cells m) a = Some c" "p \<in> set (precedents c)" "is_formula_like m p"
    for xs a ys c p
  proof -
    have "is_formula_like m0 a" using at(3) that(1) by auto
    then have "p \<in> precs_of (build_dependency_graph m0) a"
      using precs_of_graph [OF cell(1)] that(2-4) like by (simp add: m)
    then show ?thesis using ordered_ok_before [OF at(4) [unfolded that(1)]] by auto
  qed
  ultimately show ?thesis
    using at ing by (intro exI [of _ m]) (simp add: m like flip: m0_def m_def)
qed

subsection \<open>Rejected arrays\<close>

lemma ingest_rows_error:
  "ingest_rows U c r k rows cs = Inl e \<longleftrightarrow>
     (\<exists>i < length rows. length (snd (rows ! i)) \<noteq> length (fst (rows ! i))
        \<and> list_all (\<lambda>(d, f). length f = length d) (take i rows) \<and> e = ColumnCountsDiffer (k + i))"
proof (induction rows arbitrary: k cs)
  case (Cons x rows)
  obtain d f where x: "x = (d, f)" by (cases x)
  show ?case
  proof (cases "length f = length d")
    case True
    then show ?thesis by (simp add: x Cons.IH Ex_less_Suc2)
  next
    case False
    then show ?thesis by (auto simp: x Ex_less_Suc2)
  qed
qed simp

lemma ingest_rows_Inr:
  "ingest_rows U c r k rows cs = Inr cs' \<Longrightarrow> list_all (\<lambda>(d, f). length f = length d) rows"
  by (induction U c r k rows cs rule: ingest_rows.induct) (auto split: if_splits)

lemma unordered_attached:
  assumes "0 \<le> r" and "0 \<le> c"
  shows "\<exists>m. attached (unordered_model U name c r rows used) = Inr m"
proof -
  define m0 where "m0 = unordered_model U name c r rows used"
  note cell = unordered_cells [OF assms, where U = U and name = name and rows = rows and used = used, folded m0_def]
  have "distinct (precedents cl)" if "(a, cl) \<in> set (cells m0)" for a cl
    using that unfolding cell(2) by (auto intro!: distinct_precedents simp: new_cell_fields)
  then have "list_all (\<lambda>(a, cl). distinct (precedents cl)) (cells m0)" by (auto simp: list_all_iff)
  from attached_facts [OF cell(1) this] show ?thesis by (auto simp: m0_def)
qed

text \<open>An import is rejected exactly when the arrays have different numbers of rows, or two rows of
  different length; then the error names the first such row. No other error is possible.\<close>

theorem sheet_import_errors:
  assumes "0 \<le> start_col" and "0 \<le> start_row"
  shows "ingest_from_arrays U name start_col start_row data forms = Inl e \<longleftrightarrow>
    (length data \<noteq> length forms \<and> e = RowCountsDiffer)
    \<or> (length data = length forms
        \<and> (\<exists>i < length data. length (forms ! i) \<noteq> length (data ! i)
             \<and> list_all (\<lambda>(d, f). length f = length d) (take i (zip data forms)) \<and> e = ColumnCountsDiffer i))"
proof (cases "length data = length forms")
  case False
  then show ?thesis by (auto simp: ingest_from_arrays_def)
next
  case len: True
  show ?thesis
  proof (cases "list_all (\<lambda>(d, f). length f = length d) (zip data forms)")
    case True
    obtain used where "ingest_from_arrays U name start_col start_row data forms =
        attached (unordered_model U name start_col start_row (map (\<lambda>(d, f). zip d f) (zip data forms)) used)"
      using ingest_ok [OF len True assms] by blast
    moreover obtain m where "attached (unordered_model U name start_col start_row (map (\<lambda>(d, f). zip d f) (zip data forms)) used) = Inr m"
      using unordered_attached assms by blast
    moreover have "length (forms ! i) = length (data ! i)" if "i < length data" for i
      using True that len by (auto simp: list_all_length)
    ultimately show ?thesis using len by simp
  next
    case False
    then have ne: "data \<noteq> []" using len by auto
    have err: "ingest_rows U start_col start_row 0 (zip data forms) [] = Inl e' \<longleftrightarrow>
        (\<exists>i < length data. length (forms ! i) \<noteq> length (data ! i)
             \<and> list_all (\<lambda>(d, f). length f = length d) (take i (zip data forms)) \<and> e' = ColumnCountsDiffer i)" for e'
      using len by (auto simp: ingest_rows_error)
    obtain e0 where e0: "ingest_rows U start_col start_row 0 (zip data forms) [] = Inl e0"
      using False ingest_rows_Inr by (cases "ingest_rows U start_col start_row 0 (zip data forms) []") blast+
    have "ingest_from_arrays U name start_col start_row data forms = Inl e \<longleftrightarrow> e = e0"
      using len ne by (auto simp: ingest_from_arrays_def e0 Let_def)
    moreover have "e = e0 \<longleftrightarrow> ingest_rows U start_col start_row 0 (zip data forms) [] = Inl e" using e0 by auto
    ultimately show ?thesis using err len by simp
  qed
qed

subsection \<open>Extraction\<close>

lemma those_map_Some: "those (map Some xs) = Some xs"
  by (induction xs) auto

text \<open>What is extracted from one cell, with the assertion out of the way.\<close>

definition extracted :: "unicode \<Rightarrow> pystr \<times> cell_record \<Rightarrow> py_cell_extract option" where
  "extracted U ac =
     (case formula (snd ac) of
        None \<Rightarrow> None
      | Some f \<Rightarrow>
          if ctype (snd ac) \<noteq> PyFormulaCell \<or> f = [] \<or> py_formula_semantics U f = None then None
          else let g = the (normalize_py_formula U f); ca = the (py_formula_semantics U g)
               in Some \<lparr>x_address = fst ac, original_formula = f, normalized_formula = g,
                    x_code = fst ca, data_args = snd ca, changed = (f \<noteq> g)\<rparr>)"

lemma normal_form_cases:
  obtains "py_formula_semantics U f = None" and "normalize_py_formula U f = None"
  | code args g args' where "py_formula_semantics U f = Some (code, args)" and "normalize_py_formula U f = Some g"
    and "py_formula_semantics U g = Some (sanitize_inline_py_code U code, args')"
proof (cases "py_formula_semantics U f")
  case None
  then show thesis using that(1) by (simp add: normalize_py_formula_def)
next
  case (Some ca)
  then show thesis using that(2) normal_form_parses by (metis surj_pair)
qed

lemma extract_one_eq: "extract_one U ac = map_option Some (extracted U ac)"
proof (cases "formula (snd ac)")
  case None
  then show ?thesis by (simp add: extract_one_def extracted_def)
next
  case (Some f)
  then show ?thesis
    by (cases rule: normal_form_cases [of U f]) (auto simp: extract_one_def extracted_def Let_def)
qed

lemma extracted_facts:
  assumes "extracted U ac = Some x"
  shows "x_address x = fst ac"
    and "py_formula_semantics U (normalized_formula x) = Some (x_code x, data_args x)
         \<and> (\<exists>code args. py_formula_semantics U (original_formula x) = Some (code, args)
              \<and> x_code x = sanitize_inline_py_code U code)
         \<and> (changed x \<longleftrightarrow> original_formula x \<noteq> normalized_formula x)"
proof -
  obtain f where f: "formula (snd ac) = Some f" using assms by (auto simp: extracted_def split: option.splits)
  show "x_address x = fst ac" using assms by (auto simp: extracted_def Let_def f split: if_splits)
  show "py_formula_semantics U (normalized_formula x) = Some (x_code x, data_args x)
         \<and> (\<exists>code args. py_formula_semantics U (original_formula x) = Some (code, args)
              \<and> x_code x = sanitize_inline_py_code U code)
         \<and> (changed x \<longleftrightarrow> original_formula x \<noteq> normalized_formula x)"
    using assms by (cases rule: normal_form_cases [of U f]) (auto simp: extracted_def Let_def f split: if_splits)
qed

lemma extracted_iff:
  "extracted U ac \<noteq> None \<longleftrightarrow> ctype (snd ac) = PyFormulaCell
     \<and> (\<exists>f. formula (snd ac) = Some f \<and> f \<noteq> [] \<and> py_formula_semantics U f \<noteq> None)"
  by (auto simp: extracted_def Let_def split: option.splits)

lemma map_filter_keys:
  "(\<And>y x. g y = Some x \<Longrightarrow> k x = h y) \<Longrightarrow> map k (List.map_filter g ys) = map h (filter (\<lambda>y. g y \<noteq> None) ys)"
  by (induction ys) (auto simp: List.map_filter_simps split: option.splits)

lemma map_filter_Some: "List.map_filter (\<lambda>y. map_option Some (g y)) ys = map Some (List.map_filter g ys)"
  by (induction ys) (auto simp: List.map_filter_simps split: option.splits)

text \<open>Extracting the Python cells never fails its assertion. It returns, in the order of their
  addresses, the Python formula cells that parse; the normal form of each is a formula with the
  code and the arguments that are reported, and the code is that of the original formula as
  rewritten for Calc.\<close>

theorem extraction_total:
  "\<exists>xs. extract_py_cells U m = Some xs \<and> sorted (map x_address xs)
    \<and> x_address ` set xs = {a. \<exists>c f. (a, c) \<in> set (cells m) \<and> ctype c = PyFormulaCell \<and> formula c = Some f
         \<and> f \<noteq> [] \<and> py_formula_semantics U f \<noteq> None}
    \<and> list_all (\<lambda>x. py_formula_semantics U (normalized_formula x) = Some (x_code x, data_args x)
         \<and> (\<exists>code args. py_formula_semantics U (original_formula x) = Some (code, args)
              \<and> x_code x = sanitize_inline_py_code U code)
         \<and> (changed x \<longleftrightarrow> original_formula x \<noteq> normalized_formula x)) xs"
proof -
  let ?l = "sort_key fst (cells m)"
  define xs where "xs = List.map_filter (extracted U) ?l"
  have r: "extract_py_cells U m = Some xs"
    by (simp add: extract_py_cells_def extract_one_eq [abs_def] map_filter_Some those_map_Some xs_def)
  have k: "map x_address xs = map fst (filter (\<lambda>ac. extracted U ac \<noteq> None) ?l)"
    unfolding xs_def by (rule map_filter_keys) (rule extracted_facts(1))
  then have "sorted (map x_address xs)" by (simp add: sorted_filter)
  moreover have "x_address ` set xs = fst ` {ac \<in> set (cells m). extracted U ac \<noteq> None}"
    using arg_cong [OF k, of set] by simp
  then have "x_address ` set xs = {a. \<exists>c f. (a, c) \<in> set (cells m) \<and> ctype c = PyFormulaCell \<and> formula c = Some f
         \<and> f \<noteq> [] \<and> py_formula_semantics U f \<noteq> None}"
    unfolding extracted_iff set_eq_iff image_iff Bex_def mem_Collect_eq by (metis fst_conv snd_conv surj_pair)
  moreover have "x \<in> set xs \<Longrightarrow> \<exists>ac. extracted U ac = Some x" for x
    by (auto simp: xs_def List.map_filter_def) blast
  then have "list_all (\<lambda>x. py_formula_semantics U (normalized_formula x) = Some (x_code x, data_args x)
         \<and> (\<exists>code args. py_formula_semantics U (original_formula x) = Some (code, args)
              \<and> x_code x = sanitize_inline_py_code U code)
         \<and> (changed x \<longleftrightarrow> original_formula x \<noteq> normalized_formula x)) xs"
    unfolding list_all_iff using extracted_facts(2) by blast
  ultimately show ?thesis using r by blast
qed


subsection \<open>Literals read as references\<close>

lemma open_end_other:
  assumes "c = 34 \<or> c = 65"
  shows "py_call_open_end U True (61 # c # s) = None"
proof -
  have m: "MAX_PYTHON_ALIAS_LEN = 47" by (simp add: MAX_PYTHON_ALIAS_LEN_def PY_ALIASES_def)
  have "slice 1 (1 + MAX_PYTHON_ALIAS_LEN) (61 # c # s) = c # take 46 s" unfolding m by (simp add: slice_def)
  then have h: "upper_in U (slice 1 (1 + MAX_PYTHON_ALIAS_LEN) (61 # c # s)) = c # upper_in U (take 46 s)"
    using assms by (auto simp: upper_in_def upper_def is_lower_def)
  have "skip_space (61 # c # s) 1 = 1" using assms by (auto simp: skip_space_def is_space_def)
  moreover have "find (\<lambda>alias. prefix alias (c # t)) PY_ALIASES = None" for t
    using assms by (auto simp: PY_ALIASES_def u_def)
  ultimately show ?thesis using h by (simp add: py_call_open_end_def Let_def del: One_nat_def)
qed

lemma not_python:
  assumes "f = 61 # c # s" and "c = 34 \<or> c = 65" and "strip f = f" and "plain_quotes f"
  shows "\<not> is_py_formula_text ascii_db f" and "normalize_formula_string ascii_db f = f"
proof -
  have q: "map QUOTE_NORMALIZE f = f" using assms(4) by (rule plain_quotes_map)
  show n: "normalize_formula_string ascii_db f = f"
    unfolding normalize_formula_string_def assms(3) q using assms(1) by (simp add: unwrap_def Let_def)
  have o: "py_call_open_end ascii_db True f = None"
    unfolding assms(1) by (rule open_end_other [OF assms(2)])
  have m: "match_end ADDIN_PY_PREFIX_RE f = None" "match_end (collabora_re t) f = None" for t
    using assms(2) unfolding assms(1)
    by (elim disjE; simp add: match_end_def ADDIN_PY_PREFIX_RE_def collabora_re_def COLLABORA_HEAD_def ignoring_case_def
        at_start_def star_ends.simps is_space_def fold_ci_def is_upper_def u_def)+
  have "f \<noteq> []" using assms(1) by simp
  then have c: "canonicalize_py_formula_for_parse ascii_db f = f"
    by (simp add: canonicalize_py_formula_for_parse_def rewrite_collabora_addin_prefix_def n m Let_def)
  have "parse_python_formula ascii_db f = None" by (simp add: parse_python_formula_def n o Let_def)
  then show "\<not> is_py_formula_text ascii_db f"
    by (simp add: is_py_formula_text_def c cell_looks_python_like_def extract_python_code_loose_def n o Let_def)
qed

definition text_of_b1 :: pystr where
  "text_of_b1 = [61, 34, 66, 49, 34]"

lemma literal_cells:
  "classify_cell ascii_db (PStr (u ''B1'')) text_of_b1 = (FormulaCell, PStr (u ''B1''), Some text_of_b1, None)"
  "classify_cell ascii_db (PStr (u ''B1'')) (u ''=A1'') = (FormulaCell, PStr (u ''B1''), Some (u ''=A1''), None)"
proof -
  have s: "strip text_of_b1 = text_of_b1" "strip (u ''=A1'') = u ''=A1''"
    by (rule strip_ends, simp add: text_of_b1_def u_def is_space_def)+
  have p: "plain_quotes text_of_b1" "plain_quotes (u ''=A1'')"
    by (simp_all add: plain_quotes_u) (simp add: plain_quotes_def text_of_b1_def QUOTE_NORMALIZE_def)
  note n = not_python [OF _ _ s(1) p(1), of 34 "[66, 49, 34]"] not_python [OF _ _ s(2) p(2), of 65 "[49]"]
  have "match_end PROMPT_HEAD_RE text_of_b1 = None" "match_end PROMPT_HEAD_RE (u ''=A1'') = None"
    by (simp_all add: match_end_def PROMPT_HEAD_RE_def ignoring_case_def at_start_def star_ends.simps is_space_def
        fold_ci_def is_upper_def u_def text_of_b1_def)
  moreover have "is_calc_error_display ascii_db (PStr (u ''B1'')) = None"
    by (simp add: is_calc_error_display_def CALC_ERROR_STRINGS_def u_def strip_ends is_space_def upper_in_def upper_def is_lower_def)
  ultimately show "classify_cell ascii_db (PStr (u ''B1'')) text_of_b1 = (FormulaCell, PStr (u ''B1''), Some text_of_b1, None)"
    "classify_cell ascii_db (PStr (u ''B1'')) (u ''=A1'') = (FormulaCell, PStr (u ''B1''), Some (u ''=A1''), None)"
    using n by (simp_all add: classify_cell_def braced_def text_of_b1_def u_def)
qed

lemma first_addresses: "format_address 0 0 = u ''A1''" "format_address 1 0 = u ''B1''"
  by (simp_all add: format_address_def index_to_column_def column_letters.simps str_of_int_def dec_digits.simps u_def)

lemma first_corner_le: "u ''A1'' \<le> u ''B1''"
  by (simp add: u_def)

text \<open>A cell address inside a text literal counts as a reference: the formula that is the text B1 and
  a formula that refers to it are reported as a circle and get no place in the order.\<close>

theorem literal_makes_circle:
  "\<exists>m. ingest_from_arrays ascii_db (u ''S'') 0 0 [[PStr (u ''B1''), PStr (u ''B1'')]] [[text_of_b1, u ''=A1'']] = Inr m
    \<and> formula_order m = [] \<and> circular_groups m = [[u ''A1'', u ''B1'']]"
proof -
  have refs: "extract_cell_refs ascii_db text_of_b1 = [u ''B1'']" "extract_cell_refs ascii_db (u ''=A1'') = [u ''A1'']"
    by (simp_all add: extract_cell_refs_def CELL_REF_PATTERN_def finditer_def finditer_from.simps
        star_ends.simps plus1_def opt_def eps_def upper_def is_lower_def is_upper_def is_digit_def u_def
        upper_in_def ascii_db_def slice_def Let_def text_of_b1_def)
  have up: "upper_in ascii_db (u ''A1'') = u ''A1''" "upper_in ascii_db (u ''B1'') = u ''B1''"
    by (simp_all add: upper_in_def upper_def is_lower_def u_def)
  define c1 c2 where "c1 = \<lparr>address = u ''A1'', ctype = FormulaCell, cell_value = PStr (u ''B1''), formula = Some text_of_b1,
      number_format = None, precedents = [u ''B1''], error_code = None\<rparr>"
    and "c2 = \<lparr>address = u ''B1'', ctype = FormulaCell, cell_value = PStr (u ''B1''), formula = Some (u ''=A1''),
      number_format = None, precedents = [u ''A1''], error_code = None\<rparr>"
  define m where "m = \<lparr>sheet_name = u ''S'', used_range = u ''A1:B1'', cells = [(u ''A1'', c1), (u ''B1'', c2)],
      formula_order = [], circular_groups = []\<rparr>"
  have ne: "text_of_b1 \<noteq> []" by (simp add: text_of_b1_def)
  have rows: "ingest_rows ascii_db 0 0 0 [([PStr (u ''B1''), PStr (u ''B1'')], [text_of_b1, u ''=A1''])] [] =
      Inr [(u ''A1'', new_cell ascii_db (u ''A1'') (PStr (u ''B1'')) text_of_b1),
           (u ''B1'', new_cell ascii_db (u ''B1'') (PStr (u ''B1'')) (u ''=A1''))]"
    by (simp add: first_addresses Let_def)
  have used: "format_used_range 0 0 1 0 = u ''A1:B1''" by (simp add: format_used_range_def first_addresses) (simp add: u_def)
  have p: "with_precedents ascii_db [u ''A1'', u ''B1''] (new_cell ascii_db (u ''A1'') (PStr (u ''B1'')) text_of_b1) = c1"
    "with_precedents ascii_db [u ''A1'', u ''B1''] (new_cell ascii_db (u ''B1'') (PStr (u ''B1'')) (u ''=A1'')) = c2"
    by (simp_all add: new_cell_def literal_cells with_precedents_def refs filter_refs_to_scope_def up Let_def ne c1_def c2_def)
  have "ingest_from_arrays ascii_db (u ''S'') 0 0 [[PStr (u ''B1''), PStr (u ''B1'')]] [[text_of_b1, u ''=A1'']] = attached m"
    by (simp add: ingest_from_arrays_def rows used p m_def Let_def del: ingest_rows.simps)
  moreover have "build_dependency_graph m = [(u ''A1'', [u ''B1'']), (u ''B1'', [u ''A1''])]"
    by (simp add: build_dependency_graph_def m_def formula_like_addresses_def FORMULA_LIKE_TYPES_def c1_def c2_def
        first_corner_le)
  moreover have "topological_formula_order [(u ''A1'', [u ''B1'']), (u ''B1'', [u ''A1''])] = Some ([], [[u ''A1'', u ''B1'']])"
    by (simp add: topological_formula_order_def edges_and_degrees_def edge_list_def add_edge_def
        get_list_def get_deg_def extract_cycle_groups_def adjacency_def neighbours_def cycle_groups.simps first_corner_le)
  ultimately show ?thesis by (simp add: attached_def attach_graph_to_model_def)
qed


subsection \<open>Witnesses\<close>

theorem sheet_import_witness:
  "\<exists>m. ingest_from_arrays ascii_db (u ''S'') 0 0 [[PInt 1, PNone]] [[[], []]] = Inr m
    \<and> map_of (cells m) (format_address 1 0) \<noteq> None \<and> distinct (formula_order m)"
proof -
  obtain m where "ingest_from_arrays ascii_db (u ''S'') 0 0 [[PInt 1, PNone]] [[[], []]] = Inr m"
    and m: "\<forall>a. map_of (cells m) a \<noteq> None \<longleftrightarrow> (\<exists>i < length [[PInt 1, PNone]]. \<exists>j < length ([[PInt 1, PNone]] ! i).
        a = format_address (0 + int j) (0 + int i))"
    and "distinct (formula_order m @ concat (circular_groups m))"
    using sheet_import [of "[[PInt 1, PNone]]" "[[[], []]]" 0 0 ascii_db "u ''S''"] by auto
  moreover have "map_of (cells m) (format_address 1 0) \<noteq> None"
    unfolding m [rule_format] by (intro exI [of _ 0] conjI exI [of _ "Suc 0"]) simp_all
  ultimately show ?thesis by auto
qed

theorem sheet_import_errors_witness:
  "ingest_from_arrays ascii_db (u ''S'') 0 0 [[PNone], [PNone]] [[[]], []] = Inl (ColumnCountsDiffer 1)"
proof -
  have "\<exists>i < length [[PNone], [PNone]]. length ([[[]], []] ! i) \<noteq> length ([[PNone], [PNone]] ! i)
      \<and> list_all (\<lambda>(d, f). length f = length d) (take i (zip [[PNone], [PNone]] [[[]], []]))
      \<and> ColumnCountsDiffer 1 = ColumnCountsDiffer i"
    by (intro exI [of _ 1]) simp
  then show ?thesis
    using sheet_import_errors [of 0 0 ascii_db "u ''S''" "[[PNone], [PNone]]" "[[[]], []]" "ColumnCountsDiffer 1"] by simp
qed

end
