(* ===== verification/MainQueue.thy ===== *)
theory MainQueue
  imports Fsm
begin

text \<open>
  The queue through which background threads have functions executed on the main thread
  (\<open>plugin/framework/queue_executor.py\<close>: \<open>_WorkItem\<close>, \<open>QueueExecutor\<close>). Threads interleave: a
  step is one access to the queue, one block under the claim lock, or one setting or reading of an
  event. The identity of an item is its position in the list of all items. What a called function
  does is open: a step ends it with any result or exception, and until then it may let the main
  thread process further items.
\<close>

subsection \<open>Items and callers\<close>

datatype 'e failure = SendCancelled | TimeoutError | Raised 'e

text \<open>\<open>result\<close> is \<open>None\<close> for Python's \<open>None\<close>.\<close>

record ('v, 'e) work_item =
  blocking :: bool
  event_set :: bool
  result :: "'v option"
  exn :: "'e failure option"
  cancelled :: bool
  claimed :: bool

text \<open>Where the thread stands that enqueued the item: it does not wait; it waits for the event; the
  wait has timed out and the claim lock is next; \<open>execute\<close> has returned or raised.\<close>

datatype ('v, 'e) caller = Posted | Waiting | TimedOut | Returned "'v option" | Failed "'e failure"

text \<open>Where an activation of \<open>process_queue\<close> stands: before the claim lock, in the function, before the
  re-poke.\<close>

datatype phase = Popped | Running | Ended

text \<open>\<open>on_main\<close> are the activations of \<open>process_queue\<close>, the innermost first; \<open>cancels\<close> the activations
  of \<open>cancel_pending_work\<close>, each with the items it has taken and whether it has found the queue
  empty; \<open>callbacks\<close> the pokes the event loop still has to deliver, and \<open>to_poke\<close> the threads between
  enqueueing and poking. \<open>started\<close> records the calls of functions.\<close>

record ('v, 'e) executor =
  items :: "('v, 'e) work_item list"
  callers :: "('v, 'e) caller list"
  queue :: "nat list"
  on_main :: "(nat \<times> phase) list"
  started :: "nat list"
  cancels :: "(bool \<times> nat list) list"
  callbacks :: nat
  to_poke :: nat

definition executor_init :: "('v, 'e) executor" where
  "executor_init = \<lparr>items = [], callers = [], queue = [], on_main = [], started = [], cancels = [],
     callbacks = 0, to_poke = 0\<rparr>"

subsection \<open>The atomic blocks\<close>

definition put_item :: "bool \<Rightarrow> ('v, 'e) executor \<Rightarrow> ('v, 'e) executor" where
  "put_item b s = s\<lparr>items := items s @ [\<lparr>blocking = b, event_set = False, result = None, exn = None,
       cancelled = False, claimed = False\<rparr>],
     callers := callers s @ [if b then Waiting else Posted],
     queue := queue s @ [length (items s)], to_poke := to_poke s + 1\<rparr>"

text \<open>\<open>addCallback\<close> may raise; then nothing is delivered.\<close>

definition poke :: "bool \<Rightarrow> ('v, 'e) executor \<Rightarrow> ('v, 'e) executor" where
  "poke ok s = (if ok then s\<lparr>callbacks := callbacks s + 1\<rparr> else s)"

definition update_item :: "nat \<Rightarrow> (('v, 'e) work_item \<Rightarrow> ('v, 'e) work_item) \<Rightarrow> ('v, 'e) executor \<Rightarrow> ('v, 'e) executor" where
  "update_item i f s = s\<lparr>items := (items s)[i := f (items s ! i)]\<rparr>"

text \<open>The first block of \<open>process_queue\<close>.\<close>

definition get_item :: "('v, 'e) executor \<Rightarrow> ('v, 'e) executor" where
  "get_item s = (case queue s of [] \<Rightarrow> s | i # q \<Rightarrow> s\<lparr>queue := q, on_main := (i, Popped) # on_main s\<rparr>)"

text \<open>Waking the caller of an item that will not be executed.\<close>

definition skip_item :: "('v, 'e) work_item \<Rightarrow> ('v, 'e) work_item" where
  "skip_item it = (if blocking it \<and> \<not> event_set it then it\<lparr>exn := Some SendCancelled, event_set := True\<rparr> else it)"

definition claim :: "nat \<Rightarrow> (nat \<times> phase) list \<Rightarrow> ('v, 'e) executor \<Rightarrow> ('v, 'e) executor" where
  "claim i rest s =
     (if cancelled (items s ! i) then (update_item i skip_item s)\<lparr>on_main := rest\<rparr>
      else (update_item i (\<lambda>it. it\<lparr>claimed := True\<rparr>) s)\<lparr>on_main := (i, Running) # rest, started := started s @ [i]\<rparr>)"

definition store_outcome :: "'e + 'v option \<Rightarrow> ('v, 'e) work_item \<Rightarrow> ('v, 'e) work_item" where
  "store_outcome out it =
     (let it' = (case out of Inr v \<Rightarrow> it\<lparr>result := v\<rparr> | Inl e \<Rightarrow> it\<lparr>exn := Some (Raised e)\<rparr>)
      in if blocking it then it'\<lparr>event_set := True\<rparr> else it')"

text \<open>The outcome is stored and the event set in one step: nobody looks at the result before the event.\<close>

definition finish :: "nat \<Rightarrow> (nat \<times> phase) list \<Rightarrow> 'e + 'v option \<Rightarrow> ('v, 'e) executor \<Rightarrow> ('v, 'e) executor" where
  "finish i rest out s = (update_item i (store_outcome out) s)\<lparr>on_main := (i, Ended) # rest\<rparr>"

definition repoke :: "(nat \<times> phase) list \<Rightarrow> bool \<Rightarrow> ('v, 'e) executor \<Rightarrow> ('v, 'e) executor" where
  "repoke rest ok s = (if queue s \<noteq> [] then poke ok (s\<lparr>on_main := rest\<rparr>) else s\<lparr>on_main := rest\<rparr>)"

definition set_caller :: "nat \<Rightarrow> ('v, 'e) caller \<Rightarrow> ('v, 'e) executor \<Rightarrow> ('v, 'e) executor" where
  "set_caller i c s = s\<lparr>callers := (callers s)[i := c]\<rparr>"

text \<open>The two ends of \<open>_wait_for_result\<close>.\<close>

definition reply_of :: "('v, 'e) work_item \<Rightarrow> ('v, 'e) caller" where
  "reply_of it = (case exn it of Some e \<Rightarrow> Failed e | None \<Rightarrow> Returned (result it))"

definition give_up :: "nat \<Rightarrow> ('v, 'e) executor \<Rightarrow> ('v, 'e) executor" where
  "give_up i s = set_caller i (Failed TimeoutError)
     (if claimed (items s ! i) then s else update_item i (\<lambda>it. it\<lparr>cancelled := True\<rparr>) s)"

text \<open>The three blocks of \<open>cancel_pending_work\<close>.\<close>

definition take_pending :: "nat \<Rightarrow> ('v, 'e) executor \<Rightarrow> ('v, 'e) executor" where
  "take_pending k s =
     (case queue s of
        [] \<Rightarrow> s\<lparr>cancels := (cancels s)[k := (True, snd (cancels s ! k))]\<rparr>
      | i # q \<Rightarrow> s\<lparr>queue := q, cancels := (cancels s)[k := (False, snd (cancels s ! k) @ [i])]\<rparr>)"

definition mark_item :: "nat \<Rightarrow> ('v, 'e) executor \<Rightarrow> ('v, 'e) executor" where
  "mark_item i = update_item i (\<lambda>it. skip_item (it\<lparr>cancelled := True\<rparr>))"

definition mark_pending :: "nat \<Rightarrow> ('v, 'e) executor \<Rightarrow> ('v, 'e) executor" where
  "mark_pending k s = (fold mark_item (snd (cancels s ! k)) s)\<lparr>cancels := (cancels s)[k := (True, [])]\<rparr>"

subsection \<open>Interleavings\<close>

text \<open>The main thread can turn to the queue when no activation of \<open>process_queue\<close> stands before its claim
  or before its re-poke.\<close>

fun main_ready :: "(nat \<times> phase) list \<Rightarrow> bool" where
  "main_ready [] = True"
| "main_ready ((i, p) # rest) = (p = Running)"

text \<open>A wait may time out even though the event has just been set. \<open>reliable\<close> says whether every call of
  \<open>addCallback\<close> succeeds; the action separates what comes from outside, waits that expire, and the
  chat loop's pumping of the queue from the work that is due anyway.\<close>

datatype action = Arrival | Expiry | Pumping | Work

inductive executor_step :: "bool \<Rightarrow> action \<Rightarrow> ('v, 'e) executor \<Rightarrow> ('v, 'e) executor \<Rightarrow> bool" for reliable where
  Put: "executor_step reliable Arrival s (put_item b s)"
| Poke: "to_poke s = Suc n \<Longrightarrow> reliable \<longrightarrow> ok \<Longrightarrow> executor_step reliable Work s (poke ok (s\<lparr>to_poke := n\<rparr>))"
| Notify: "callbacks s = Suc n \<Longrightarrow> main_ready (on_main s)
    \<Longrightarrow> executor_step reliable Work s (get_item (s\<lparr>callbacks := n\<rparr>))"
| Pump: "main_ready (on_main s) \<Longrightarrow> queue s \<noteq> [] \<Longrightarrow> executor_step reliable Pumping s (get_item s)"
| Claim: "on_main s = (i, Popped) # rest \<Longrightarrow> executor_step reliable Work s (claim i rest s)"
| Finish: "on_main s = (i, Running) # rest \<Longrightarrow> executor_step reliable Work s (finish i rest out s)"
| Repoke: "on_main s = (i, Ended) # rest \<Longrightarrow> reliable \<longrightarrow> ok \<Longrightarrow> executor_step reliable Work s (repoke rest ok s)"
| Wake: "i < length (callers s) \<Longrightarrow> callers s ! i = Waiting \<Longrightarrow> event_set (items s ! i)
    \<Longrightarrow> executor_step reliable Work s (set_caller i (reply_of (items s ! i)) s)"
| Timeout: "i < length (callers s) \<Longrightarrow> callers s ! i = Waiting
    \<Longrightarrow> executor_step reliable Expiry s (set_caller i TimedOut s)"
| GiveUp: "i < length (callers s) \<Longrightarrow> callers s ! i = TimedOut \<Longrightarrow> executor_step reliable Work s (give_up i s)"
| Cancel: "executor_step reliable Arrival s (s\<lparr>cancels := cancels s @ [(False, [])]\<rparr>)"
| Take: "k < length (cancels s) \<Longrightarrow> \<not> fst (cancels s ! k) \<Longrightarrow> executor_step reliable Work s (take_pending k s)"
| Mark: "k < length (cancels s) \<Longrightarrow> fst (cancels s ! k) \<Longrightarrow> snd (cancels s ! k) \<noteq> []
    \<Longrightarrow> executor_step reliable Work s (mark_pending k s)"

subsection \<open>Invariant\<close>

text \<open>What holds of an item and its caller, given whether the item is still to be looked at (queued,
  taken but not claimed, or held by a cancellation), whether its function runs, and whether it has
  been started.\<close>

definition item_ok :: "('v, 'e) work_item \<Rightarrow> ('v, 'e) caller \<Rightarrow> bool \<Rightarrow> bool \<Rightarrow> bool \<Rightarrow> bool" where
  "item_ok it c ahead running st \<longleftrightarrow>
     (blocking it \<longleftrightarrow> c \<noteq> Posted) \<and> (claimed it \<longleftrightarrow> st) \<and> \<not> (claimed it \<and> cancelled it)
     \<and> (ahead \<longrightarrow> \<not> claimed it \<and> \<not> event_set it \<and> exn it = None) \<and> (running \<longrightarrow> claimed it \<and> \<not> event_set it \<and> exn it = None)
     \<and> (ahead \<or> claimed it \<or> cancelled it)
     \<and> (event_set it \<longrightarrow> claimed it \<or> cancelled it \<and> exn it = Some SendCancelled)
     \<and> (claimed it \<longrightarrow> exn it \<noteq> Some SendCancelled \<and> exn it \<noteq> Some TimeoutError)
     \<and> (blocking it \<and> \<not> event_set it \<longrightarrow> ahead \<or> running)
     \<and> (case c of
          Returned r \<Rightarrow> claimed it \<and> event_set it \<and> exn it = None \<and> result it = r
        | Failed (Raised e) \<Rightarrow> claimed it \<and> event_set it \<and> exn it = Some (Raised e)
        | Failed SendCancelled \<Rightarrow> cancelled it
        | Failed TimeoutError \<Rightarrow> claimed it \<or> cancelled it
        | _ \<Rightarrow> True)"

definition pending :: "('v, 'e) executor \<Rightarrow> nat list" where
  "pending s = concat (map snd (cancels s))"

definition popped :: "('v, 'e) executor \<Rightarrow> nat list" where
  "popped s = map fst (filter (\<lambda>ip. snd ip = Popped) (on_main s))"

definition running :: "('v, 'e) executor \<Rightarrow> nat list" where
  "running s = map fst (filter (\<lambda>ip. snd ip = Running) (on_main s))"

definition is_ahead :: "('v, 'e) executor \<Rightarrow> nat \<Rightarrow> bool" where
  "is_ahead s j \<longleftrightarrow> j \<in> set (queue s) \<union> set (popped s) \<union> set (pending s)"

definition items_inv :: "('v, 'e) executor \<Rightarrow> bool" where
  "items_inv s \<longleftrightarrow> (\<forall>j < length (items s).
     item_ok (items s ! j) (callers s ! j) (is_ahead s j) (j \<in> set (running s)) (j \<in> set (started s)))"

text \<open>Every item is in one place; items are started in the order of the queue, and at most one
  activation has not claimed its item yet, the innermost.\<close>

definition places_inv :: "('v, 'e) executor \<Rightarrow> bool" where
  "places_inv s \<longleftrightarrow> length (callers s) = length (items s)
     \<and> distinct (queue s @ map fst (on_main s) @ pending s)
     \<and> set (queue s @ map fst (on_main s) @ pending s @ started s) \<subseteq> {..< length (items s)}
     \<and> sorted_wrt (<) (started s @ popped s @ queue s)
     \<and> list_all (\<lambda>ip. snd ip = Running) (tl (on_main s))
     \<and> set (running s) \<subseteq> set (started s)"

definition executor_inv :: "('v, 'e) executor \<Rightarrow> bool" where
  "executor_inv s \<longleftrightarrow> places_inv s \<and> items_inv s"

lemmas item_fields = item_ok_def skip_item_def store_outcome_def reply_of_def

lemma items_invI:
  assumes "\<And>j. j < length (items s) \<Longrightarrow>
    item_ok (items s ! j) (callers s ! j) (is_ahead s j) (j \<in> set (running s)) (j \<in> set (started s))"
  shows "items_inv s"
  using assms by (simp add: items_inv_def)

text \<open>A step that changes one item, or one caller, or none.\<close>

lemma items_inv_one:
  assumes "items_inv s" and "length (items t) = length (items s)"
    and "\<And>j. j < length (items s) \<Longrightarrow> j \<noteq> i \<Longrightarrow> items t ! j = items s ! j \<and> callers t ! j = callers s ! j
      \<and> is_ahead t j = is_ahead s j \<and> (j \<in> set (running t)) = (j \<in> set (running s))
      \<and> (j \<in> set (started t)) = (j \<in> set (started s))"
    and "i < length (items s) \<Longrightarrow>
      item_ok (items s ! i) (callers s ! i) (is_ahead s i) (i \<in> set (running s)) (i \<in> set (started s)) \<Longrightarrow>
      item_ok (items t ! i) (callers t ! i) (is_ahead t i) (i \<in> set (running t)) (i \<in> set (started t))"
  shows "items_inv t"
proof (rule items_invI)
  fix j
  assume j: "j < length (items t)"
  show "item_ok (items t ! j) (callers t ! j) (is_ahead t j) (j \<in> set (running t)) (j \<in> set (started t))"
    using assms(1,2,4) assms(3) [of j] j by (cases "j = i") (auto simp: items_inv_def)
qed

lemmas executor_defs = put_item_def poke_def update_item_def get_item_def claim_def finish_def repoke_def set_caller_def
  give_up_def take_pending_def

lemma main_ready_popped: "main_ready (on_main s) \<Longrightarrow> list_all (\<lambda>ip. snd ip = Running) (tl (on_main s)) \<Longrightarrow> popped s = []"
  by (cases "on_main s") (auto simp: popped_def filter_empty_conv list_all_iff)

lemma popped_single: "on_main s = (i, p) # rest \<Longrightarrow> list_all (\<lambda>ip. snd ip = Running) rest \<Longrightarrow>
    popped s = (if p = Popped then [i] else []) \<and> running s = (if p = Running then [i] else []) @ map fst rest"
  by (cases p) (auto simp: popped_def running_def filter_empty_conv list_all_iff filter_id_conv)

lemma put_inv: "executor_inv s \<Longrightarrow> executor_inv (put_item b s)"
proof -
  assume inv: "executor_inv s"
  then have p: "places_inv s" and it: "items_inv s" by (simp_all add: executor_inv_def)
  let ?t = "put_item b s"
  have pl: "popped ?t = popped s" "running ?t = running s" "pending ?t = pending s"
    by (simp_all add: popped_def running_def pending_def put_item_def)
  have lt: "\<forall>i \<in> set (queue s @ map fst (on_main s) @ pending s @ started s). i < length (items s)"
    using p by (auto simp: places_inv_def)
  moreover have "set (popped s) \<subseteq> set (map fst (on_main s))" by (auto simp: popped_def)
  ultimately have srt: "\<forall>i \<in> set (started s @ popped s @ queue s). i < length (items s)" by auto
  have "places_inv ?t"
    using p lt srt unfolding places_inv_def pl by (auto simp: put_item_def sorted_wrt_append less_Suc_eq)
  moreover have "items_inv ?t"
  proof (rule items_invI)
    fix j
    assume j: "j < length (items ?t)"
    have len: "length (callers s) = length (items s)" using p by (simp add: places_inv_def)
    have ah: "is_ahead ?t j \<longleftrightarrow> is_ahead s j \<or> j = length (items s)"
      unfolding is_ahead_def pl by (auto simp: put_item_def)
    show "item_ok (items ?t ! j) (callers ?t ! j) (is_ahead ?t j) (j \<in> set (running ?t)) (j \<in> set (started ?t))"
    proof (cases "j = length (items s)")
      case True
      have "j \<notin> set (started s)" "j \<notin> set (running s)"
        using p True by (auto simp: places_inv_def)
      then show ?thesis unfolding ah pl using True len by (simp add: put_item_def item_ok_def nth_append)
    next
      case False
      then have "j < length (items s)" using j by (simp add: put_item_def)
      then show ?thesis using it False len unfolding ah pl by (simp add: put_item_def items_inv_def nth_append)
    qed
  qed
  ultimately show ?thesis by (simp add: executor_inv_def)
qed

subsection \<open>Every step keeps the invariant\<close>

text \<open>Steps that move no item and touch neither items nor callers.\<close>

lemma same_views:
  assumes "executor_inv s" and "items t = items s" and "callers t = callers s" and "queue t = queue s"
    and "on_main t = on_main s" and "started t = started s" and "pending t = pending s"
  shows "executor_inv t"
proof -
  have "popped t = popped s" "running t = running s" using assms(5) by (simp_all add: popped_def running_def)
  then show ?thesis using assms by (simp add: executor_inv_def places_inv_def items_inv_def is_ahead_def)
qed

lemma poke_inv: "executor_inv s \<Longrightarrow> executor_inv (poke ok (s\<lparr>to_poke := n\<rparr>))"
  by (erule same_views) (simp_all add: poke_def pending_def)

lemma cancel_inv: "executor_inv s \<Longrightarrow> executor_inv (s\<lparr>cancels := cancels s @ [(False, [])]\<rparr>)"
  by (erule same_views) (simp_all add: pending_def)

lemma callbacks_inv: "executor_inv s \<Longrightarrow> executor_inv (s\<lparr>callbacks := n\<rparr>)"
  by (erule same_views) (simp_all add: pending_def)

lemma get_item_inv:
  assumes "executor_inv s" and "main_ready (on_main s)"
  shows "executor_inv (get_item s)"
proof (cases "queue s")
  case Nil
  then show ?thesis using assms by (simp add: get_item_def)
next
  case (Cons i q)
  let ?t = "get_item s"
  from assms have p: "places_inv s" and it: "items_inv s" by (simp_all add: executor_inv_def)
  have ps: "popped s = []" using main_ready_popped [OF assms(2)] p by (simp add: places_inv_def)
  have pl: "popped ?t = i # popped s" "running ?t = running s" "pending ?t = pending s"
    by (simp_all add: popped_def running_def pending_def get_item_def Cons)
  have run: "list_all (\<lambda>ip. snd ip = Running) (on_main s)"
    using assms(2) p by (cases "on_main s") (auto simp: places_inv_def)
  have "places_inv ?t" using p run unfolding places_inv_def pl ps by (auto simp: get_item_def Cons)
  moreover have "is_ahead ?t j = is_ahead s j" for j unfolding is_ahead_def pl by (auto simp: get_item_def Cons)
  then have "items_inv ?t" using it by (simp add: items_inv_def pl(2)) (simp add: get_item_def Cons)
  ultimately show ?thesis by (simp add: executor_inv_def)
qed

lemma take_inv:
  assumes "executor_inv s" and "k < length (cancels s)"
  shows "executor_inv (take_pending k s)"
proof -
  have upd: "concat (map snd (cs[k := (b, snd (cs ! k) @ xs)])) =
      concat (map snd (take k cs)) @ (snd (cs ! k) @ xs) @ concat (map snd (drop (Suc k) cs))"
    if "k < length cs" for cs :: "(bool \<times> nat list) list" and b xs
    using that by (simp add: upd_conv_take_nth_drop)
  have old: "pending s = concat (map snd (take k (cancels s))) @ snd (cancels s ! k) @ concat (map snd (drop (Suc k) (cancels s)))"
    using upd [OF assms(2), of _ "[]"] assms(2) by (simp add: pending_def) (metis id_take_nth_drop concat_append map_append list.simps(9) concat.simps(2))
  show ?thesis
  proof (cases "queue s")
    case Nil
    show ?thesis
      by (rule same_views [OF assms(1)])
        (use old upd [OF assms(2), of True "[]"] in \<open>simp_all add: take_pending_def Nil pending_def\<close>)
  next
    case (Cons i q)
    let ?t = "take_pending k s"
    from assms have p: "places_inv s" and it: "items_inv s" by (simp_all add: executor_inv_def)
    have new: "pending ?t = concat (map snd (take k (cancels s))) @ (snd (cancels s ! k) @ [i]) @ concat (map snd (drop (Suc k) (cancels s)))"
      using upd [OF assms(2), of False "[i]"] by (simp add: pending_def take_pending_def Cons)
    have pl: "popped ?t = popped s" "running ?t = running s"
      by (simp_all add: popped_def running_def take_pending_def Cons)
    have pe: "set (pending ?t) = insert i (set (pending s))" "distinct (i # pending s) \<longleftrightarrow> distinct (pending ?t)"
      unfolding new old by auto
    have t: "queue ?t = q" "on_main ?t = on_main s" "items ?t = items s" "callers ?t = callers s" "started ?t = started s"
      by (simp_all add: take_pending_def Cons)
    have "places_inv ?t"
      using p pe unfolding places_inv_def pl t by (auto simp: Cons sorted_wrt_append)
    moreover have "is_ahead ?t j = is_ahead s j" for j unfolding is_ahead_def pl pe t by (auto simp: Cons)
    then have "items_inv ?t" using it by (simp add: items_inv_def pl t)
    ultimately show ?thesis by (simp add: executor_inv_def)
  qed
qed

lemma claim_inv:
  assumes "executor_inv s" and "on_main s = (i, Popped) # rest"
  shows "executor_inv (claim i rest s)"
proof -
  define t where "t = claim i rest s"
  from assms have p: "places_inv s" and it: "items_inv s" by (simp_all add: executor_inv_def)
  have run: "list_all (\<lambda>ip. snd ip = Running) rest" "list_all (\<lambda>ip. snd ip = Running) (tl rest)"
    using p assms(2) by (simp_all add: places_inv_def) (cases rest, simp_all)
  note ps = popped_single [OF assms(2) run(1)]
  have i: "i < length (items s)" "i \<notin> set (queue s)" "i \<notin> set (pending s)" "i \<notin> set (map fst rest)" "is_ahead s i"
    using p ps by (auto simp: places_inv_def assms(2) is_ahead_def)
  have nst: "i \<notin> set (started s)" using it i(1,5) by (auto simp: items_inv_def item_ok_def)
  have nrun: "i \<notin> set (running s)" using ps i(4) by auto
  let ?c = "cancelled (items s ! i)"
  have t: "items t = (items s)[i := if ?c then skip_item (items s ! i) else (items s ! i)\<lparr>claimed := True\<rparr>]"
    "callers t = callers s" "queue t = queue s" "on_main t = (if ?c then rest else (i, Running) # rest)"
    "started t = started s @ (if ?c then [] else [i])" "cancels t = cancels s"
    by (simp_all add: t_def claim_def update_item_def)
  have pl: "popped t = []" "running t = (if ?c then [] else [i]) @ running s" "pending t = pending s"
    using run ps by (auto simp: popped_def running_def pending_def t list_all_iff filter_empty_conv filter_id_conv)
  have "places_inv t"
    using p ps run unfolding places_inv_def pl t by (auto simp: assms(2) sorted_wrt_append)
  moreover have "items_inv t"
  proof (rule items_inv_one [OF it, where i = i])
    show "item_ok (items t ! i) (callers t ! i) (is_ahead t i) (i \<in> set (running t)) (i \<in> set (started t))"
      if "item_ok (items s ! i) (callers s ! i) (is_ahead s i) (i \<in> set (running s)) (i \<in> set (started s))"
    proof -
      have "\<not> is_ahead t i" unfolding is_ahead_def pl t using i by simp
      then show ?thesis using that i nst nrun unfolding pl t
        by (auto simp: item_fields split: caller.splits failure.splits)
    qed
  qed (use ps in \<open>auto simp: t is_ahead_def pl\<close>)
  ultimately show ?thesis by (simp add: executor_inv_def t_def)
qed

lemma finish_inv:
  assumes "executor_inv s" and "on_main s = (i, Running) # rest"
  shows "executor_inv (finish i rest out s)"
proof -
  define t where "t = finish i rest out s"
  from assms have p: "places_inv s" and it: "items_inv s" by (simp_all add: executor_inv_def)
  have run: "list_all (\<lambda>ip. snd ip = Running) rest" using p assms(2) by (simp add: places_inv_def)
  note ps = popped_single [OF assms(2) run]
  have i: "i < length (items s)" "i \<notin> set (queue s)" "i \<notin> set (pending s)" "i \<notin> set (map fst rest)" "i \<in> set (started s)"
    using p ps by (auto simp: places_inv_def assms(2))
  have t: "items t = (items s)[i := store_outcome out (items s ! i)]" "callers t = callers s" "queue t = queue s"
    "on_main t = (i, Ended) # rest" "started t = started s" "cancels t = cancels s"
    by (simp_all add: t_def finish_def update_item_def)
  have pl: "popped t = []" "running t = map fst rest" "pending t = pending s"
    using popped_single [OF t(4) run] by (simp_all add: pending_def t)
  have "places_inv t"
    using p ps run unfolding places_inv_def pl t by (auto simp: assms(2) sorted_wrt_append)
  moreover have "items_inv t"
  proof (rule items_inv_one [OF it, where i = i])
    show "item_ok (items t ! i) (callers t ! i) (is_ahead t i) (i \<in> set (running t)) (i \<in> set (started t))"
      if "item_ok (items s ! i) (callers s ! i) (is_ahead s i) (i \<in> set (running s)) (i \<in> set (started s))"
    proof -
      have "\<not> is_ahead t i" unfolding is_ahead_def pl t using i by simp
      then show ?thesis using that i ps unfolding pl t
        by (cases out) (auto simp: item_fields Let_def split: caller.splits failure.splits)
    qed
  qed (use ps in \<open>auto simp: t is_ahead_def pl\<close>)
  ultimately show ?thesis by (simp add: executor_inv_def t_def)
qed

lemma repoke_inv:
  assumes "executor_inv s" and "on_main s = (i, Ended) # rest"
  shows "executor_inv (repoke rest ok s)"
proof -
  define t where "t = repoke rest ok s"
  from assms have p: "places_inv s" and it: "items_inv s" by (simp_all add: executor_inv_def)
  have run: "list_all (\<lambda>ip. snd ip = Running) rest" "list_all (\<lambda>ip. snd ip = Running) (tl rest)"
    using p assms(2) by (simp_all add: places_inv_def) (cases rest, simp_all)
  note ps = popped_single [OF assms(2) run(1)]
  have t: "items t = items s" "callers t = callers s" "queue t = queue s"
    "on_main t = rest" "started t = started s" "cancels t = cancels s"
    by (simp_all add: t_def repoke_def poke_def)
  have pl: "popped t = popped s" "running t = running s" "pending t = pending s"
    using run ps by (auto simp: popped_def running_def pending_def t list_all_iff filter_empty_conv filter_id_conv)
  have "places_inv t" using p run unfolding places_inv_def pl t by (auto simp: assms(2))
  moreover have "items_inv t" using it by (simp add: items_inv_def is_ahead_def t pl)
  ultimately show ?thesis by (simp add: executor_inv_def t_def)
qed

text \<open>Steps of callers.\<close>

lemma caller_inv:
  assumes "executor_inv s" and "items t = (items s)[i := it']" and "callers t = (callers s)[i := c]" and "queue t = queue s"
    and "on_main t = on_main s" and "started t = started s" and "cancels t = cancels s" and "i < length (callers s)"
    and "\<And>a r st. item_ok (items s ! i) (callers s ! i) a r st \<Longrightarrow> item_ok it' c a r st"
  shows "executor_inv t"
proof -
  have pl: "popped t = popped s" "running t = running s" "pending t = pending s"
    using assms(5,7) by (simp_all add: popped_def running_def pending_def)
  have len: "length (callers s) = length (items s)" using assms(1) by (simp add: executor_inv_def places_inv_def)
  have "places_inv t" using assms(1-7) unfolding executor_inv_def places_inv_def pl by simp
  moreover have "items_inv t"
  proof (rule items_inv_one [where i = i])
    show "items_inv s" using assms(1) by (simp add: executor_inv_def)
  qed (use assms len pl in \<open>auto simp: is_ahead_def\<close>)
  ultimately show ?thesis by (simp add: executor_inv_def)
qed

lemma wake_inv:
  assumes "executor_inv s" and "i < length (callers s)" and "callers s ! i = Waiting" and "event_set (items s ! i)"
  shows "executor_inv (set_caller i (reply_of (items s ! i)) s)"
  by (rule caller_inv [OF assms(1), where i = i and it' = "items s ! i"])
    (use assms in \<open>auto simp: set_caller_def item_fields split: option.splits failure.splits\<close>)

lemma timeout_inv:
  assumes "executor_inv s" and "i < length (callers s)" and "callers s ! i = Waiting"
  shows "executor_inv (set_caller i TimedOut s)"
  by (rule caller_inv [OF assms(1), where i = i and it' = "items s ! i"])
    (use assms in \<open>auto simp: set_caller_def item_fields\<close>)

lemma give_up_inv:
  assumes "executor_inv s" and "i < length (callers s)" and "callers s ! i = TimedOut"
  shows "executor_inv (give_up i s)"
  by (rule caller_inv [OF assms(1), where i = i
        and it' = "if claimed (items s ! i) then items s ! i else (items s ! i)\<lparr>cancelled := True\<rparr>"])
    (use assms in \<open>auto simp: give_up_def set_caller_def update_item_def item_fields\<close>)

text \<open>Marking what a cancellation has taken.\<close>

lemma fold_mark:
  "distinct ids \<Longrightarrow> set ids \<subseteq> {..< length (items s)} \<Longrightarrow>
     items (fold mark_item ids s) = map (\<lambda>j. if j \<in> set ids then skip_item ((items s ! j)\<lparr>cancelled := True\<rparr>) else items s ! j)
       [0 ..< length (items s)]
     \<and> callers (fold mark_item ids s) = callers s \<and> queue (fold mark_item ids s) = queue s
     \<and> on_main (fold mark_item ids s) = on_main s \<and> started (fold mark_item ids s) = started s
     \<and> cancels (fold mark_item ids s) = cancels s"
proof (induction ids arbitrary: s)
  case Nil
  then show ?case by (simp add: map_nth)
next
  case (Cons i ids)
  have len: "length (items (mark_item i s)) = length (items s)" by (simp add: mark_item_def update_item_def)
  have "items (fold mark_item ids (mark_item i s)) =
      map (\<lambda>j. if j \<in> set ids then skip_item ((items (mark_item i s) ! j)\<lparr>cancelled := True\<rparr>) else items (mark_item i s) ! j)
       [0 ..< length (items s)]" (is "_ = ?r")
    using Cons.IH [of "mark_item i s"] Cons.prems by (simp add: len)
  also have "?r = map (\<lambda>j. if j \<in> set (i # ids) then skip_item ((items s ! j)\<lparr>cancelled := True\<rparr>) else items s ! j)
       [0 ..< length (items s)]"
    using Cons.prems by (auto simp: mark_item_def update_item_def nth_list_update)
  finally show ?case using Cons.IH [of "mark_item i s"] Cons.prems
    by (simp add: len) (simp add: mark_item_def update_item_def)
qed

lemma mark_inv:
  assumes "executor_inv s" and "k < length (cancels s)"
  shows "executor_inv (mark_pending k s)"
proof -
  let ?t = "mark_pending k s"
  define ids where "ids = snd (cancels s ! k)"
  from assms have p: "places_inv s" and it: "items_inv s" by (simp_all add: executor_inv_def)
  have split: "pending s = concat (map snd (take k (cancels s))) @ ids @ concat (map snd (drop (Suc k) (cancels s)))"
    unfolding pending_def ids_def using id_take_nth_drop [OF assms(2)]
    by (metis concat.simps(2) concat_append list.simps(9) map_append)
  have new: "pending ?t = concat (map snd (take k (cancels s))) @ concat (map snd (drop (Suc k) (cancels s)))"
    using assms(2) by (simp add: pending_def mark_pending_def upd_conv_take_nth_drop)
  have fresh: "distinct ids" "set ids \<subseteq> {..< length (items s)}" "set ids \<inter> set (pending ?t) = {}"
    "set ids \<inter> set (queue s) = {}" "set ids \<inter> set (map fst (on_main s)) = {}"
    using p unfolding places_inv_def split new by auto
  note f = fold_mark [OF fresh(1,2)]
  have t: "items ?t = map (\<lambda>j. if j \<in> set ids then skip_item ((items s ! j)\<lparr>cancelled := True\<rparr>) else items s ! j) [0 ..< length (items s)]"
    "callers ?t = callers s" "queue ?t = queue s" "on_main ?t = on_main s" "started ?t = started s"
    using f by (simp_all add: mark_pending_def flip: ids_def)
  have pl: "popped ?t = popped s" "running ?t = running s" by (simp_all add: popped_def running_def t)
  have pe: "set (pending s) = set ids \<union> set (pending ?t)" unfolding split new by auto
  have "distinct (queue s @ map fst (on_main s) @ pending ?t)"
    using p unfolding places_inv_def split new by auto
  then have "places_inv ?t" using p pe unfolding places_inv_def pl t by auto
  moreover have "items_inv ?t"
  proof (rule items_invI)
    fix j
    assume "j < length (items ?t)"
    then have j: "j < length (items s)" by (simp add: t)
    have ok: "item_ok (items s ! j) (callers s ! j) (is_ahead s j) (j \<in> set (running s)) (j \<in> set (started s))"
      using it j by (simp add: items_inv_def)
    show "item_ok (items ?t ! j) (callers ?t ! j) (is_ahead ?t j) (j \<in> set (running ?t)) (j \<in> set (started ?t))"
    proof (cases "j \<in> set ids")
      case True
      have m: "j \<notin> set (map fst (on_main s))" using True fresh(5) by blast
      have "j \<notin> set (popped s)" "j \<notin> set (running s)" using m by (auto simp: popped_def running_def)
      then have a: "is_ahead s j" "\<not> is_ahead ?t j" "j \<notin> set (running s)"
        using True fresh(3,4) pe unfolding is_ahead_def pl t by auto
      show ?thesis using ok a j True unfolding pl t
        by (auto simp: item_fields split: caller.splits failure.splits)
    next
      case False
      then have "is_ahead ?t j = is_ahead s j" unfolding is_ahead_def pl t using pe by auto
      then show ?thesis using ok j False by (simp add: t pl)
    qed
  qed
  ultimately show ?thesis by (simp add: executor_inv_def)
qed

lemma executor_init_inv: "executor_inv executor_init"
  by (simp add: executor_inv_def places_inv_def items_inv_def executor_init_def popped_def pending_def running_def)

lemma executor_step_inv: "executor_step reliable a s t \<Longrightarrow> executor_inv s \<Longrightarrow> executor_inv t"
  by (induction rule: executor_step.induct)
    (auto intro!: put_inv poke_inv get_item_inv callbacks_inv claim_inv finish_inv repoke_inv wake_inv timeout_inv give_up_inv
      cancel_inv take_inv mark_inv)

subsection \<open>Runs\<close>

definition executor_moves :: "bool \<Rightarrow> ('v, 'e) executor \<Rightarrow> ('v, 'e) executor \<Rightarrow> bool" where
  "executor_moves reliable s t \<longleftrightarrow> (\<exists>a. executor_step reliable a s t)"

inductive executor_run :: "bool \<Rightarrow> action list \<Rightarrow> ('v, 'e) executor \<Rightarrow> ('v, 'e) executor \<Rightarrow> bool" for reliable where
  Stop: "executor_run reliable [] s s"
| Go: "executor_run reliable as s t \<Longrightarrow> executor_step reliable a t u \<Longrightarrow> executor_run reliable (as @ [a]) s u"

lemma executor_movesI: "executor_step reliable a s t \<Longrightarrow> executor_moves reliable s t"
  by (auto simp: executor_moves_def)

interpretation mq: step_invariant "\<lambda>s. s = executor_init" "executor_moves reliable" executor_inv for reliable
  by unfold_locales (auto simp: executor_init_inv executor_moves_def executor_step_inv)

text \<open>A cancelled item stays cancelled, and an answer is final.\<close>

lemma nth_updated: "xs[j := v] ! i = (if i = j \<and> j < length xs then v else xs ! i)"
  by (cases "j < length xs") (simp_all add: nth_list_update list_update_beyond)

lemma mark_pending_views:
  assumes "executor_inv s" and "k < length (cancels s)"
  shows "length (items (mark_pending k s)) = length (items s)" and "callers (mark_pending k s) = callers s"
    and "queue (mark_pending k s) = queue s" and "on_main (mark_pending k s) = on_main s"
    and "started (mark_pending k s) = started s"
    and "i < length (items s) \<Longrightarrow> items (mark_pending k s) ! i
      = (if i \<in> set (snd (cancels s ! k)) then skip_item ((items s ! i)\<lparr>cancelled := True\<rparr>) else items s ! i)"
proof -
  have "distinct (snd (cancels s ! k)) \<and> set (snd (cancels s ! k)) \<subseteq> {..< length (items s)}"
    using assms id_take_nth_drop [OF assms(2)] unfolding executor_inv_def places_inv_def pending_def
    by (metis (no_types, lifting) Un_subset_iff concat.simps(2) concat_append distinct_append list.simps(9) map_append set_append)
  note f = fold_mark [OF this [THEN conjunct1] this [THEN conjunct2]]
  show "length (items (mark_pending k s)) = length (items s)" and "callers (mark_pending k s) = callers s"
    and "queue (mark_pending k s) = queue s" and "on_main (mark_pending k s) = on_main s"
    and "started (mark_pending k s) = started s"
    and "i < length (items s) \<Longrightarrow> items (mark_pending k s) ! i
      = (if i \<in> set (snd (cancels s ! k)) then skip_item ((items s ! i)\<lparr>cancelled := True\<rparr>) else items s ! i)"
    using f by (simp_all add: mark_pending_def)
qed

lemma cancelled_step:
  assumes "executor_inv s" and "i < length (items s) \<and> cancelled (items s ! i)" and "executor_step reliable a s t"
  shows "i < length (items t) \<and> cancelled (items t ! i)"
  using assms(3,1,2)
proof (induction rule: executor_step.induct)
  case (Mark k s)
  then show ?case by (simp add: mark_pending_views skip_item_def)
qed (auto simp: executor_defs nth_append nth_updated skip_item_def store_outcome_def Let_def split: list.splits sum.splits)

fun answered :: "('v, 'e) caller \<Rightarrow> bool" where
  "answered (Returned r) = True"
| "answered (Failed e) = True"
| "answered c = False"

lemma answered_step:
  assumes "executor_inv s" and "i < length (callers s) \<and> callers s ! i = c" and "answered c" and "executor_step reliable a s t"
  shows "i < length (callers t) \<and> callers t ! i = c"
  using assms(4,1,2,3)
proof (induction rule: executor_step.induct)
  case (Mark k s)
  then show ?case by (simp add: mark_pending_views)
qed (auto simp: executor_defs nth_append nth_updated Let_def split: list.splits)

interpretation sealed: step_stable "\<lambda>s. s = executor_init" "executor_moves reliable" executor_inv
  "\<lambda>s. i < length (items s) \<and> cancelled (items s ! i)" for reliable i
  by unfold_locales (auto simp: executor_moves_def dest: cancelled_step)

interpretation answer: step_stable "\<lambda>s. s = executor_init" "executor_moves reliable" executor_inv
  "\<lambda>s. answered c \<and> i < length (callers s) \<and> callers s ! i = c" for reliable i c
  by unfold_locales (auto simp: executor_moves_def dest: answered_step)

lemma reached_item:
  assumes "executor_inv s" and "i < length (callers s)"
  shows "i < length (items s)"
    and "item_ok (items s ! i) (callers s ! i) (is_ahead s i) (i \<in> set (running s)) (i \<in> set (started s))"
  using assms by (auto simp: executor_inv_def places_inv_def items_inv_def)

subsection \<open>Work that is due\<close>

text \<open>A weight that every step of the executor lowers; an arrival adds at most nine.\<close>

fun phase_work :: "phase \<Rightarrow> nat" where
  "phase_work Popped = 4" | "phase_work Running = 3" | "phase_work Ended = 2"

fun caller_work :: "('v, 'e) caller \<Rightarrow> nat" where
  "caller_work Waiting = 2" | "caller_work TimedOut = 1" | "caller_work c = 0"

fun cancel_work :: "bool \<times> nat list \<Rightarrow> nat" where
  "cancel_work (closed, xs) = (if closed then 0 else 1) + length xs"

definition executor_work :: "('v, 'e) executor \<Rightarrow> nat" where
  "executor_work s = 5 * length (queue s) + sum_list (map (\<lambda>ip. phase_work (snd ip)) (on_main s))
     + 2 * to_poke s + callbacks s + sum_list (map caller_work (callers s)) + sum_list (map cancel_work (cancels s))"

lemma sum_list_updated:
  fixes f :: "'a \<Rightarrow> nat"
  shows "i < length xs \<Longrightarrow> sum_list (map f (xs[i := x])) + f (xs ! i) = sum_list (map f xs) + f x"
  by (induction xs arbitrary: i) (auto split: nat.splits simp: nth_Cons' less_Suc_eq_0_disj)

lemma answered_no_work: "caller_work (reply_of it) = 0"
  by (simp add: reply_of_def split: option.splits)

lemma fold_keeps: "to_poke (fold mark_item ids s) = to_poke s \<and> callbacks (fold mark_item ids s) = callbacks s"
  by (induction ids arbitrary: s) (simp_all add: mark_item_def update_item_def)

lemma step_work:
  "executor_step reliable a s t \<Longrightarrow> executor_inv s \<Longrightarrow>
     executor_work t + 1 \<le> executor_work s + (if a = Arrival then 10 else 0)"
proof (induction rule: executor_step.induct)
  case (Wake i s)
  then show ?case using sum_list_updated [of i "callers s" caller_work "reply_of (items s ! i)"]
    by (simp add: executor_work_def set_caller_def answered_no_work)
next
  case (Timeout i s)
  then show ?case using sum_list_updated [of i "callers s" caller_work TimedOut]
    by (simp add: executor_work_def set_caller_def)
next
  case (GiveUp i s)
  then show ?case using sum_list_updated [of i "callers s" caller_work "Failed TimeoutError"]
    by (simp add: executor_work_def set_caller_def give_up_def update_item_def)
next
  case (Take k s)
  then show ?case
    using sum_list_updated [of k "cancels s" cancel_work "(True, snd (cancels s ! k))"]
      sum_list_updated [of k "cancels s" cancel_work "(False, snd (cancels s ! k) @ [hd (queue s)])"]
    by (cases "cancels s ! k") (auto simp: executor_work_def take_pending_def split: list.splits)
next
  case (Mark k s)
  then have "sum_list (map cancel_work ((cancels s)[k := (True, [])])) + 1 \<le> sum_list (map cancel_work (cancels s))"
    using sum_list_updated [of k "cancels s" cancel_work "(True, [])"]
    by (cases "cancels s ! k"; cases "snd (cancels s ! k)") auto
  moreover have "to_poke (mark_pending k s) = to_poke s" "callbacks (mark_pending k s) = callbacks s"
    by (simp_all add: mark_pending_def fold_keeps)
  moreover have "cancels (mark_pending k s) = (cancels s)[k := (True, [])]" by (simp add: mark_pending_def)
  ultimately show ?case using Mark by (simp add: executor_work_def mark_pending_views)
qed (auto simp: executor_work_def executor_defs Let_def split: list.splits)

lemma run_moves: "executor_run reliable as s t \<Longrightarrow> (executor_moves reliable)\<^sup>*\<^sup>* s t"
  by (induction rule: executor_run.induct) (auto intro: executor_movesI rtranclp.rtrancl_into_rtrancl)

lemma run_work:
  "executor_run reliable as s t \<Longrightarrow> executor_inv s \<Longrightarrow>
     length as + executor_work t \<le> executor_work s + 10 * count_list as Arrival"
proof (induction rule: executor_run.induct)
  case (Go as s t a u)
  have "executor_inv t" using mq.steps_inv [OF run_moves [OF Go.hyps(1)] Go.prems] .
  from step_work [OF Go.hyps(2) this] Go.IH [OF Go.prems] show ?case by (auto split: if_splits)
qed simp

subsection \<open>No lost wake-ups\<close>

text \<open>With reliable pokes every queued item has a callback of its own still to come.\<close>

lemma callback_pending_step:
  "executor_step reliable a s t \<Longrightarrow> reliable \<Longrightarrow> length (queue s) \<le> callbacks s + to_poke s
     \<Longrightarrow> length (queue t) \<le> callbacks t + to_poke t"
proof (induction rule: executor_step.induct)
  case (Mark k s)
  have "queue (fold mark_item ids s) = queue s" for ids and s :: "('a, 'b) executor"
    by (induction ids arbitrary: s) (simp_all add: mark_item_def update_item_def)
  then show ?case using Mark by (simp add: mark_pending_def fold_keeps)
qed (auto simp: executor_defs Let_def split: list.splits)

interpretation callback: step_invariant "\<lambda>s. s = executor_init" "executor_moves True"
  "\<lambda>s. length (queue s) \<le> callbacks s + to_poke s"
  by unfold_locales (auto simp: executor_init_def executor_moves_def intro: callback_pending_step)

text \<open>Where no work is due, the queue and the main thread are idle, every cancellation is over, and
  nobody waits.\<close>

lemma idle_main:
  assumes "executor_inv s" and "\<forall>t. \<not> executor_step reliable Work s t"
  shows "on_main s = []"
proof (cases "on_main s")
  case (Cons ip rest)
  then show ?thesis using assms(2) Claim [of s] Finish [of s] Repoke [of s "fst ip" rest reliable reliable]
    by (cases ip; cases "snd ip") fastforce+
qed simp

lemma idle_queue:
  assumes "executor_inv s" and "length (queue s) \<le> callbacks s + to_poke s" and "\<forall>t. \<not> executor_step True Work s t"
  shows "queue s = []"
proof -
  have "on_main s = []" using idle_main [OF assms(1,3)] .
  then have "callbacks s = 0" using assms(3) Notify [of s] by (cases "callbacks s") auto
  moreover have "to_poke s = 0" using assms(3) Poke [of s] by (cases "to_poke s") auto
  ultimately show ?thesis using assms(2) by simp
qed

lemma idle_cancels:
  assumes "\<forall>t. \<not> executor_step reliable Work s t"
  shows "pending s = []"
proof -
  have "snd (cancels s ! k) = []" if "k < length (cancels s)" for k
    using assms Take [OF that] Mark [OF that] by (cases "fst (cancels s ! k)") auto
  then have "\<forall>x \<in> set (cancels s). snd x = []" by (metis in_set_conv_nth)
  then show ?thesis by (simp add: pending_def)
qed

lemma idle_callers:
  assumes "executor_inv s" and "queue s = []" and "\<forall>t. \<not> executor_step reliable Work s t" and "i < length (callers s)"
  shows "callers s ! i = Posted \<or> answered (callers s ! i)"
proof -
  have "on_main s = []" "pending s = []" using idle_main [OF assms(1,3)] idle_cancels [OF assms(3)] .
  then have "\<not> is_ahead s i" "i \<notin> set (running s)"
    using assms(2) by (simp_all add: is_ahead_def popped_def running_def)
  with reached_item(2) [OF assms(1,4)] have "blocking (items s ! i) \<Longrightarrow> event_set (items s ! i)"
    "blocking (items s ! i) \<longleftrightarrow> callers s ! i \<noteq> Posted" by (auto simp: item_ok_def)
  moreover have "callers s ! i = Waiting \<Longrightarrow> \<not> event_set (items s ! i)" "callers s ! i \<noteq> TimedOut"
    using assms(3) Wake [OF assms(4)] GiveUp [OF assms(4)] by auto
  ultimately show ?thesis by (cases "callers s ! i") auto
qed


subsection \<open>Properties\<close>

text \<open>C10: A caller that has been told its call was cancelled, or that has timed out on a function not yet
  started, can rely on it: however the threads interleave from then on, the function never starts.\<close>

theorem given_up_never_starts:
  assumes "(executor_moves reliable)\<^sup>*\<^sup>* executor_init s" and "(executor_moves reliable)\<^sup>*\<^sup>* s t"
    and "i < length (callers s)"
    and "callers s ! i = Failed SendCancelled \<or> callers s ! i = Failed TimeoutError \<and> i \<notin> set (started s)"
  shows "i \<notin> set (started t)"
proof -
  have inv: "executor_inv s" using mq.reach_inv [OF refl assms(1)] .
  note item = reached_item [OF inv assms(3)]
  have "cancelled (items s ! i)" using item(2) assms(4) by (auto simp: item_ok_def)
  with item(1) have t: "i < length (items t) \<and> cancelled (items t ! i)"
    using sealed.stable_steps [OF assms(2) inv] by blast
  have "executor_inv t" using mq.steps_inv [OF assms(2) inv] .
  then have "item_ok (items t ! i) (callers t ! i) (is_ahead t i) (i \<in> set (running t)) (i \<in> set (started t))"
    using t by (simp add: executor_inv_def items_inv_def)
  then show ?thesis using t by (auto simp: item_ok_def)
qed

text \<open>What \<open>execute\<close> returns or raises is the outcome of its own function, which has been started,
  and neither the answer nor the outcome ever changes.\<close>

theorem answer_is_outcome:
  assumes "(executor_moves reliable)\<^sup>*\<^sup>* executor_init s" and "(executor_moves reliable)\<^sup>*\<^sup>* s t"
    and "i < length (callers s)" and "callers s ! i = c" and "c \<in> {Returned v, Failed (Raised e)}"
  shows "callers t ! i = c \<and> i \<in> set (started t) \<and> reply_of (items t ! i) = c"
proof -
  have inv: "executor_inv s" using mq.reach_inv [OF refl assms(1)] .
  have "answered c" using assms(5) by auto
  then have t: "i < length (callers t)" "callers t ! i = c"
    using answer.stable_steps [OF assms(2) inv, of c i] assms(3,4) by blast+
  have "executor_inv t" using mq.steps_inv [OF assms(2) inv] .
  from reached_item(2) [OF this t(1)] t(2) assms(5) show ?thesis
    by (auto simp: item_ok_def reply_of_def)
qed

text \<open>Functions are started in the order in which they were enqueued, each at most once.\<close>

theorem started_in_order:
  assumes "(executor_moves reliable)\<^sup>*\<^sup>* executor_init s"
  shows "sorted_wrt (<) (started s @ queue s)"
  using mq.reach_inv [OF refl assms] by (auto simp: executor_inv_def places_inv_def sorted_wrt_append)

text \<open>C11: As long as every callback is delivered nobody waits in vain: where no work is due any more,
  without a wait expiring and without the chat loop's pumping, the queue and the main thread are
  idle, every call has been answered, and every function has been started or cancelled.\<close>

theorem executor_settles:
  assumes "(executor_moves True)\<^sup>*\<^sup>* executor_init s" and "\<forall>t. \<not> executor_step True Work s t"
  shows "queue s = [] \<and> on_main s = []
    \<and> (\<forall>i < length (callers s). (callers s ! i = Posted \<or> answered (callers s ! i))
        \<and> (i \<in> set (started s) \<or> cancelled (items s ! i)))"
proof -
  have inv: "executor_inv s" using mq.reach_inv [OF refl assms(1)] .
  have q: "queue s = []" using idle_queue [OF inv _ assms(2)] callback.reach_inv [OF refl assms(1)] by blast
  have m: "on_main s = []" "pending s = []" using idle_main [OF inv assms(2)] idle_cancels [OF assms(2)] .
  have "i \<in> set (started s) \<or> cancelled (items s ! i)" if "i < length (callers s)" for i
    using reached_item(2) [OF inv that] q m by (auto simp: item_ok_def is_ahead_def popped_def)
  with q m(1) idle_callers [OF inv q assms(2)] show ?thesis by blast
qed

text \<open>The executor comes to rest: a run has at most ten steps for every arrival, be it a function or a
  cancellation, whatever the threads do.\<close>

theorem run_bounded_by_arrivals:
  assumes "executor_run reliable as executor_init s"
  shows "length as \<le> 10 * count_list as Arrival"
  using run_work [OF assms executor_init_inv] by (simp add: executor_work_def executor_init_def)

subsection \<open>Concrete runs\<close>

inductive_simps work_iff: "executor_step reliable Work s t"

lemmas moves_into = converse_rtranclp_into_rtranclp [of "executor_moves reliable" for reliable, OF executor_movesI]

text \<open>A function whose caller has timed out is taken from the queue and skipped.\<close>

definition abandoned :: "(nat, nat) executor" where
  "abandoned = give_up 0 (set_caller 0 TimedOut (put_item True executor_init))"

definition skipped :: "(nat, nat) executor" where
  "skipped = claim 0 [] (get_item abandoned)"

lemma reach_abandoned: "(executor_moves reliable)\<^sup>*\<^sup>* executor_init abandoned"
proof -
  have "executor_step reliable Arrival executor_init (put_item True executor_init)" by (rule Put)
  moreover have "executor_step reliable Expiry (put_item True executor_init) (set_caller 0 TimedOut (put_item True executor_init))"
    by (rule Timeout) (simp_all add: put_item_def executor_init_def)
  moreover have "executor_step reliable Work (set_caller 0 TimedOut (put_item True executor_init)) abandoned"
    unfolding abandoned_def by (rule GiveUp) (simp_all add: put_item_def set_caller_def executor_init_def)
  ultimately show ?thesis by (meson moves_into rtranclp.rtrancl_refl)
qed

lemma reach_skipped: "(executor_moves reliable)\<^sup>*\<^sup>* abandoned skipped"
proof -
  have "executor_step reliable Pumping abandoned (get_item abandoned)"
    by (rule Pump) (simp_all add: abandoned_def executor_defs executor_init_def)
  moreover have "executor_step reliable Work (get_item abandoned) skipped"
    unfolding skipped_def by (rule Claim) (simp add: abandoned_def executor_defs executor_init_def)
  ultimately show ?thesis by (meson moves_into rtranclp.rtrancl_refl)
qed

theorem given_up_never_starts_witness:
  "(executor_moves True)\<^sup>*\<^sup>* executor_init abandoned \<and> (executor_moves True)\<^sup>*\<^sup>* abandoned skipped
   \<and> (0::nat) \<notin> set (started skipped) \<and> queue skipped = []"
proof -
  have "0 < length (callers abandoned)" "callers abandoned ! 0 = Failed TimeoutError" "0 \<notin> set (started abandoned)"
    by (simp_all add: abandoned_def executor_defs executor_init_def)
  then have "0 \<notin> set (started skipped)"
    using given_up_never_starts [OF reach_abandoned [of True] reach_skipped, of 0] by blast
  then show ?thesis using reach_abandoned reach_skipped
    by (simp add: skipped_def abandoned_def executor_defs executor_init_def)
qed

text \<open>A call that is answered: enqueued, poked, taken, claimed, run, and woken.\<close>

definition one_call :: "bool \<Rightarrow> bool \<Rightarrow> (nat, nat) caller \<Rightarrow> nat list \<Rightarrow> (nat \<times> phase) list \<Rightarrow> nat \<Rightarrow> nat \<Rightarrow> (nat, nat) executor" where
  "one_call cl done c q m cb tp = \<lparr>items = [\<lparr>blocking = True, event_set = done, result = (if done then Some 7 else None),
       exn = None, cancelled = False, claimed = cl\<rparr>], callers = [c], queue = q, on_main = m,
     started = (if cl then [0] else []), cancels = [], callbacks = cb, to_poke = tp\<rparr>"

definition replied :: "(nat, nat) executor" where
  "replied = one_call True True (Returned (Some 7)) [] [] 0 0"

lemma run_replied: "executor_run True [Arrival, Work, Work, Work, Work, Work, Work] executor_init replied"
proof -
  let ?s1 = "one_call False False Waiting [0] [] 0 1" and ?s2 = "one_call False False Waiting [0] [] 1 0"
  let ?s3 = "one_call False False Waiting [] [(0, Popped)] 0 0" and ?s4 = "one_call True False Waiting [] [(0, Running)] 0 0"
  let ?s5 = "one_call True True Waiting [] [(0, Ended)] 0 0" and ?s6 = "one_call True True Waiting [] [] 0 0"
  have a: "executor_step True Arrival executor_init ?s1"
    using Put [of True executor_init True] by (simp add: put_item_def executor_init_def one_call_def)
  have b: "executor_step True Work ?s1 ?s2"
    using Poke [of ?s1 0 True True] by (simp add: poke_def one_call_def)
  have c: "executor_step True Work ?s2 ?s3"
    using Notify [of ?s2 0 True] by (simp add: get_item_def one_call_def)
  have d: "executor_step True Work ?s3 ?s4"
    using Claim [of ?s3 0 "[]" True] by (simp add: claim_def update_item_def one_call_def)
  have e: "executor_step True Work ?s4 ?s5"
    using Finish [of ?s4 0 "[]" True "Inr (Some 7)"] by (simp add: finish_def update_item_def store_outcome_def one_call_def)
  have f: "executor_step True Work ?s5 ?s6"
    using Repoke [of ?s5 0 "[]" True True] by (simp add: repoke_def one_call_def)
  have g: "executor_step True Work ?s6 replied"
    using Wake [of 0 ?s6 True] by (simp add: set_caller_def reply_of_def replied_def one_call_def)
  note r1 = Go [OF Stop a] note r2 = Go [OF r1 b] note r3 = Go [OF r2 c] note r4 = Go [OF r3 d]
  note r5 = Go [OF r4 e] note r6 = Go [OF r5 f] note r7 = Go [OF r6 g]
  from r7 show ?thesis by simp
qed

lemma replied_rests: "\<not> executor_step True Work replied t"
  by (auto simp: work_iff replied_def one_call_def)

theorem run_bounded_by_arrivals_witness:
  "executor_run True [Arrival, Work, Work, Work, Work, Work, Work] executor_init replied
   \<and> length [Arrival, Work, Work, Work, Work, Work, Work] \<le> 10 * count_list [Arrival, Work, Work, Work, Work, Work, Work] Arrival"
  using run_replied run_bounded_by_arrivals [OF run_replied] by simp

theorem executor_settles_witness:
  "(executor_moves True)\<^sup>*\<^sup>* executor_init replied \<and> callers replied = [Returned (Some 7)] \<and> 0 \<in> set (started replied)"
proof -
  have "0 \<in> set (started replied) \<or> cancelled (items replied ! 0)"
    using executor_settles [OF run_moves [OF run_replied]] replied_rests by (simp add: replied_def one_call_def)
  then show ?thesis using run_moves [OF run_replied] by (simp add: replied_def one_call_def)
qed

theorem answer_is_outcome_witness:
  "callers replied ! 0 = Returned (Some 7) \<and> 0 \<in> set (started replied) \<and> reply_of (items replied ! 0) = Returned (Some 7)"
  by (rule answer_is_outcome [OF run_moves [OF run_replied], where v = "Some 7" and e = 0])
    (simp_all add: replied_def one_call_def reply_of_def)

theorem started_in_order_witness: "sorted_wrt (<) (started replied @ queue replied) \<and> started replied = [0]"
  using started_in_order [OF run_moves [OF run_replied]] by (simp add: replied_def one_call_def)

text \<open>\<open>process_queue\<close> returns from a cancelled item without a re-poke. If one \<open>addCallback\<close> fails and the
  caller of its item times out, the callback of the next item is spent on the cancelled one, and the
  next caller waits with no callback to come.\<close>

definition two_calls :: "bool \<Rightarrow> bool \<Rightarrow> nat list \<Rightarrow> (nat \<times> phase) list \<Rightarrow> nat \<Rightarrow> nat \<Rightarrow> (nat, nat) executor" where
  "two_calls gone done q m cb tp = \<lparr>items =
       [\<lparr>blocking = True, event_set = done, result = None, exn = (if done then Some SendCancelled else None),
         cancelled = gone, claimed = False\<rparr>,
        \<lparr>blocking = True, event_set = False, result = None, exn = None, cancelled = False, claimed = False\<rparr>],
     callers = [Failed TimeoutError, Waiting], queue = q, on_main = m,
     started = [], cancels = [], callbacks = cb, to_poke = tp\<rparr>"

theorem cancelled_head_strands_next:
  "\<exists>s :: (nat, nat) executor. executor_run False [Arrival, Work, Expiry, Work, Arrival, Work, Work, Work] executor_init s
     \<and> queue s = [1] \<and> callers s ! 1 = Waiting \<and> \<not> cancelled (items s ! 1)
     \<and> (\<forall>t. \<not> executor_step False Work s t)"
proof -
  let ?s1 = "one_call False False Waiting [0] [] 0 1" and ?s2 = "one_call False False Waiting [0] [] 0 0"
  let ?s3 = "one_call False False TimedOut [0] [] 0 0"
  let ?s4 = "?s3\<lparr>items := [(items ?s3 ! 0)\<lparr>cancelled := True\<rparr>], callers := [Failed TimeoutError]\<rparr>"
  let ?s5 = "two_calls True False [0, 1] [] 0 1" and ?s6 = "two_calls True False [0, 1] [] 1 0"
  let ?s7 = "two_calls True False [1] [(0, Popped)] 0 0" and ?s8 = "two_calls True True [1] [] 0 0"
  have a: "executor_step False Arrival executor_init ?s1"
    using Put [of False executor_init True] by (simp add: put_item_def executor_init_def one_call_def)
  have b: "executor_step False Work ?s1 ?s2"
    using Poke [of ?s1 0 False False] by (simp add: poke_def one_call_def)
  have c: "executor_step False Expiry ?s2 ?s3"
    using Timeout [of 0 ?s2 False] by (simp add: set_caller_def one_call_def)
  have d: "executor_step False Work ?s3 ?s4"
    using GiveUp [of 0 ?s3 False] by (simp add: give_up_def set_caller_def update_item_def one_call_def)
  have e: "executor_step False Arrival ?s4 ?s5"
    using Put [of False ?s4 True] by (simp add: put_item_def one_call_def two_calls_def)
  have f: "executor_step False Work ?s5 ?s6"
    using Poke [of ?s5 0 False True] by (simp add: poke_def two_calls_def)
  have g: "executor_step False Work ?s6 ?s7"
    using Notify [of ?s6 0 False] by (simp add: get_item_def two_calls_def)
  have h: "executor_step False Work ?s7 ?s8"
    using Claim [of ?s7 0 "[]" False] by (simp add: claim_def update_item_def skip_item_def two_calls_def)
  have rest: "\<not> executor_step False Work ?s8 t" for t
    by (auto simp: work_iff two_calls_def less_Suc_eq nth_Cons split: nat.splits)
  note r1 = Go [OF Stop a] note r2 = Go [OF r1 b] note r3 = Go [OF r2 c] note r4 = Go [OF r3 d]
  note r5 = Go [OF r4 e] note r6 = Go [OF r5 f] note r7 = Go [OF r6 g] note r8 = Go [OF r7 h]
  from r8 have "executor_run False [Arrival, Work, Expiry, Work, Arrival, Work, Work, Work] executor_init ?s8" by simp
  moreover have "queue ?s8 = [1]" "callers ?s8 ! 1 = Waiting" "\<not> cancelled (items ?s8 ! 1)"
    by (simp_all add: two_calls_def)
  ultimately show ?thesis using rest by blast
qed

end
