(* ===== verification/SendScope.thy ===== *)
theory SendScope
  imports MainQueue
begin

text \<open>
  The scopes around the executor (\<open>plugin/framework/queue_executor.py\<close>, \<open>async_drain_guard.py\<close>): the cancellation
  scope of a send, the gates before a local model, the owner of the event pump, and the route a call to the main
  thread takes. Where threads meet, a step is one block under a lock, one setting or reading of the flag, or one
  call of a hook.
\<close>

subsection \<open>Cancelling a send\<close>

text \<open>What \<open>cancel\<close> calls: the \<open>stop\<close> of a registered client, or a hook.\<close>

datatype cancel_hook = Client nat | Hook nat

text \<open>Where a call of \<open>cancel\<close> stands: it has found the flag unset; it has set it; it goes through the hooks and
  executors it has copied.\<close>

datatype cancel_phase = ToSet | ToSnapshot | Calling "cancel_hook list" "nat list"

text \<open>\<open>late\<close> are the clients whose registering thread has found the flag set and is about to stop them; \<open>called\<close>
  and \<open>flushed\<close> record the calls, \<open>early\<close> the hooks registered before the flag was set. Executor 0 is the
  default one.\<close>

record send_scope =
  flag :: bool
  hooks :: "cancel_hook list"
  bound :: "nat list"
  late :: "cancel_hook list"
  cancelling :: "cancel_phase list"
  called :: "cancel_hook list"
  flushed :: "nat list"
  early :: "cancel_hook list"

definition scope_init :: send_scope where
  "scope_init = \<lparr>flag = False, hooks = [], bound = [], late = [], cancelling = [], called = [], flushed = [], early = []\<rparr>"

definition bind_executor :: "nat \<Rightarrow> send_scope \<Rightarrow> send_scope" where
  "bind_executor e s = (if e \<in> set (bound s) then s else s\<lparr>bound := bound s @ [e]\<rparr>)"

definition note_early :: "cancel_hook \<Rightarrow> send_scope \<Rightarrow> send_scope" where
  "note_early h s = (if flag s then s else s\<lparr>early := early s @ [h]\<rparr>)"

text \<open>The locked block of \<open>register_client\<close>.\<close>

definition register_client :: "nat \<Rightarrow> send_scope \<Rightarrow> send_scope" where
  "register_client c s = note_early (Client c)
     (s\<lparr>hooks := hooks s @ [Client c], late := (if flag s then late s @ [Client c] else late s)\<rparr>)"

definition stop_late :: "nat \<Rightarrow> send_scope \<Rightarrow> send_scope" where
  "stop_late i s = s\<lparr>late := take i (late s) @ drop (Suc i) (late s), called := called s @ [late s ! i]\<rparr>"

definition register_on_cancel :: "nat \<Rightarrow> send_scope \<Rightarrow> send_scope" where
  "register_on_cancel h s = note_early (Hook h) (s\<lparr>hooks := hooks s @ [Hook h]\<rparr>)"

text \<open>The blocks of \<open>cancel\<close>.\<close>

definition begin_cancel :: "send_scope \<Rightarrow> send_scope" where
  "begin_cancel s = (if flag s then s else s\<lparr>cancelling := cancelling s @ [ToSet]\<rparr>)"

definition set_flag :: "nat \<Rightarrow> send_scope \<Rightarrow> send_scope" where
  "set_flag k s = s\<lparr>flag := True, cancelling := (cancelling s)[k := ToSnapshot]\<rparr>"

definition snapshot :: "nat \<Rightarrow> send_scope \<Rightarrow> send_scope" where
  "snapshot k s = s\<lparr>cancelling := (cancelling s)[k := Calling (hooks s) (if bound s = [] then [0] else bound s)]\<rparr>"

definition call_next :: "nat \<Rightarrow> send_scope \<Rightarrow> send_scope" where
  "call_next k s =
     (case cancelling s ! k of
        Calling (h # hs) es \<Rightarrow> s\<lparr>called := called s @ [h], cancelling := (cancelling s)[k := Calling hs es]\<rparr>
      | Calling [] (e # es) \<Rightarrow> s\<lparr>flushed := flushed s @ [e], cancelling := (cancelling s)[k := Calling [] es]\<rparr>
      | _ \<Rightarrow> s)"

inductive scope_step :: "send_scope \<Rightarrow> send_scope \<Rightarrow> bool" where
  BindExecutor: "scope_step s (bind_executor e s)"
| RegisterClient: "scope_step s (register_client c s)"
| StopLate: "i < length (late s) \<Longrightarrow> scope_step s (stop_late i s)"
| RegisterHook: "scope_step s (register_on_cancel h s)"
| BeginCancel: "scope_step s (begin_cancel s)"
| SetFlag: "k < length (cancelling s) \<Longrightarrow> cancelling s ! k = ToSet \<Longrightarrow> scope_step s (set_flag k s)"
| Snapshot: "k < length (cancelling s) \<Longrightarrow> cancelling s ! k = ToSnapshot \<Longrightarrow> scope_step s (snapshot k s)"
| CallNext: "k < length (cancelling s) \<Longrightarrow> cancelling s ! k = Calling hs es \<Longrightarrow> hs \<noteq> [] \<or> es \<noteq> []
    \<Longrightarrow> scope_step s (call_next k s)"

lemmas scope_defs = bind_executor_def note_early_def register_client_def stop_late_def register_on_cancel_def
  begin_cancel_def set_flag_def snapshot_def call_next_def

text \<open>A hook is seen to: called, about to be called, or in the list a call of \<open>cancel\<close> will copy or has copied.\<close>

fun covers :: "cancel_hook set \<Rightarrow> cancel_hook \<Rightarrow> cancel_phase \<Rightarrow> bool" where
  "covers H h ToSet = False"
| "covers H h ToSnapshot = (h \<in> H)"
| "covers H h (Calling hs es) = (h \<in> set hs)"

definition seen_to :: "send_scope \<Rightarrow> cancel_hook \<Rightarrow> bool" where
  "seen_to s h \<longleftrightarrow> h \<in> set (called s) \<or> h \<in> set (late s) \<or> (\<exists>p \<in> set (cancelling s). covers (set (hooks s)) h p)"

fun is_client :: "cancel_hook \<Rightarrow> bool" where
  "is_client (Client c) = True"
| "is_client (Hook h) = False"

definition scope_inv :: "send_scope \<Rightarrow> bool" where
  "scope_inv s \<longleftrightarrow> set (early s) \<subseteq> set (hooks s) \<and> (\<not> flag s \<longrightarrow> set (hooks s) \<subseteq> set (early s))
     \<and> (flag s \<longrightarrow> (\<forall>h \<in> set (hooks s). h \<in> set (early s) \<or> is_client h \<longrightarrow> seen_to s h))"

text \<open>A step that registers at most one hook and forgets none.\<close>

lemma scope_inv_step:
  assumes "scope_inv s" and "\<And>h. seen_to s h \<Longrightarrow> seen_to t h" and "flag t = flag s"
    and "hooks t = hooks s @ hs" and "early t = early s @ (if flag s then [] else hs)"
    and "\<And>h. flag s \<Longrightarrow> h \<in> set hs \<Longrightarrow> is_client h \<Longrightarrow> seen_to t h"
    and "\<And>h. flag s \<Longrightarrow> h \<in> set hs \<Longrightarrow> h \<in> set (early s) \<Longrightarrow> h \<in> set (hooks s)"
  shows "scope_inv t"
proof (cases "flag s")
  case True
  then have s: "set (early s) \<subseteq> set (hooks s)" "\<And>h. h \<in> set (hooks s) \<Longrightarrow> h \<in> set (early s) \<or> is_client h \<Longrightarrow> seen_to s h"
    using assms(1) by (auto simp: scope_inv_def)
  have "seen_to t h" if "h \<in> set (hooks t)" "h \<in> set (early t) \<or> is_client h" for h
    using that s assms(2,6,7) True by (auto simp: assms(4,5))
  then show ?thesis using s(1) True by (auto simp: scope_inv_def assms(3-5))
next
  case False
  then show ?thesis using assms(1) by (auto simp: scope_inv_def assms(3-5))
qed

lemma covers_mono: "covers H h p \<Longrightarrow> H \<subseteq> K \<Longrightarrow> covers K h p"
  by (cases p) auto

lemma seen_to_mono:
  assumes "seen_to s h" and "set (called s) \<subseteq> set (called t)" and "set (late s) \<subseteq> set (late t) \<union> set (called t)"
    and "set (hooks s) \<subseteq> set (hooks t)" and "set (cancelling s) \<subseteq> set (cancelling t)"
  shows "seen_to t h"
  using assms covers_mono unfolding seen_to_def by blast

lemma phase_cases: "p \<in> set xs \<Longrightarrow> k < length xs \<Longrightarrow> p = xs ! k \<or> p \<in> set (xs[k := q])"
  by (metis in_set_conv_nth length_list_update nth_list_update_neq)

lemma seen_to_update:
  assumes "seen_to s h" and "k < length (cancelling s)" and "cancelling t = (cancelling s)[k := q]"
    and "late t = late s" and "hooks t = hooks s" and "set (called s) \<subseteq> set (called t)"
    and "covers (set (hooks s)) h (cancelling s ! k) \<Longrightarrow> h \<in> set (called t) \<or> covers (set (hooks s)) h q"
  shows "seen_to t h"
proof -
  have q: "q \<in> set (cancelling t)" using assms(2,3) by (simp add: set_update_memI)
  consider "h \<in> set (called s) \<union> set (late s)" | p where "p \<in> set (cancelling s)" "covers (set (hooks s)) h p"
    using assms(1) unfolding seen_to_def by blast
  then show ?thesis
  proof cases
    case 1
    then show ?thesis using assms(4,6) by (auto simp: seen_to_def)
  next
    case 2
    from phase_cases [OF 2(1) assms(2), of q] show ?thesis
      using 2(2) assms(7) q unfolding seen_to_def assms(3,5) by blast
  qed
qed

lemma scope_step_inv: "scope_step s t \<Longrightarrow> scope_inv s \<Longrightarrow> scope_inv t"
proof (induction rule: scope_step.induct)
  case (BindExecutor s e)
  show ?case
    by (rule scope_inv_step [OF BindExecutor, where hs = "[]"])
      (auto simp: bind_executor_def elim!: seen_to_mono)
next
  case (RegisterClient s c)
  define t where "t = register_client c s"
  have t: "flag t = flag s" "hooks t = hooks s @ [Client c]" "early t = early s @ (if flag s then [] else [Client c])"
    "late t = (if flag s then late s @ [Client c] else late s)" "called t = called s" "cancelling t = cancelling s"
    by (simp_all add: t_def register_client_def note_early_def)
  have old: "seen_to s h \<Longrightarrow> seen_to t h" for h by (rule seen_to_mono) (auto simp: t)
  have new: "flag s \<Longrightarrow> seen_to t (Client c)" by (simp add: seen_to_def t)
  have "h \<in> set (early s) \<Longrightarrow> h \<in> set (hooks s)" for h using RegisterClient by (auto simp: scope_inv_def)
  then show ?case unfolding t_def [symmetric] using new
    by (intro scope_inv_step [OF RegisterClient old t(1-3)]) auto
next
  case (StopLate i s)
  define t where "t = stop_late i s"
  have l: "late s = take i (late s) @ late s ! i # drop (Suc i) (late s)" using StopLate.hyps by (rule id_take_nth_drop)
  have t: "flag t = flag s" "hooks t = hooks s" "early t = early s" "late t = take i (late s) @ drop (Suc i) (late s)"
    "called t = called s @ [late s ! i]" "cancelling t = cancelling s" by (simp_all add: t_def stop_late_def)
  have "set (late s) \<subseteq> set (late t) \<union> set (called t)" by (subst l) (auto simp: t)
  then have "seen_to s h \<Longrightarrow> seen_to t h" for h by (erule_tac seen_to_mono) (auto simp: t)
  then show ?case unfolding t_def [symmetric]
    by (intro scope_inv_step [OF StopLate.prems, where hs = "[]"]) (auto simp: t)
next
  case (RegisterHook s h)
  define t where "t = register_on_cancel h s"
  have t: "flag t = flag s" "hooks t = hooks s @ [Hook h]" "early t = early s @ (if flag s then [] else [Hook h])"
    "late t = late s" "called t = called s" "cancelling t = cancelling s"
    by (simp_all add: t_def register_on_cancel_def note_early_def)
  have old: "seen_to s g \<Longrightarrow> seen_to t g" for g by (rule seen_to_mono) (auto simp: t)
  have "g \<in> set (early s) \<Longrightarrow> g \<in> set (hooks s)" for g using RegisterHook by (auto simp: scope_inv_def)
  then show ?case unfolding t_def [symmetric]
    by (intro scope_inv_step [OF RegisterHook old t(1-3)]) auto
next
  case (BeginCancel s)
  show ?case
    by (rule scope_inv_step [OF BeginCancel, where hs = "[]"])
      (auto simp: begin_cancel_def elim!: seen_to_mono)
next
  case (SetFlag k s)
  have "ToSnapshot \<in> set (cancelling (set_flag k s))" using SetFlag.hyps(1) by (simp add: set_flag_def set_update_memI)
  then have "seen_to (set_flag k s) h" if "h \<in> set (hooks s)" for h
    using that by (auto simp: seen_to_def set_flag_def intro!: bexI [of _ ToSnapshot])
  then show ?case using SetFlag.prems by (auto simp: scope_inv_def set_flag_def)
next
  case (Snapshot k s)
  have old: "seen_to s h \<Longrightarrow> seen_to (snapshot k s) h" for h
    by (erule seen_to_update [OF _ Snapshot.hyps(1)]) (auto simp: snapshot_def Snapshot.hyps(2))
  show ?case by (rule scope_inv_step [OF Snapshot.prems old, where hs = "[]"]) (auto simp: snapshot_def)
next
  case (CallNext k s hs es)
  have old: "seen_to (call_next k s) h" if h: "seen_to s h" for h
  proof (cases hs)
    case Nil
    then obtain e es' where "es = e # es'" using CallNext.hyps by (cases es) auto
    then show ?thesis using CallNext.hyps Nil h by (intro seen_to_update [OF h CallNext.hyps(1)]) (auto simp: call_next_def)
  next
    case (Cons g hs')
    then show ?thesis using CallNext.hyps h by (intro seen_to_update [OF h CallNext.hyps(1)]) (auto simp: call_next_def)
  qed
  show ?case
    by (rule scope_inv_step [OF CallNext.prems old, where hs = "[]"])
      (auto simp: call_next_def split: cancel_phase.splits list.splits)
qed

lemma scope_init_inv: "scope_inv scope_init"
  by (simp add: scope_inv_def scope_init_def)

interpretation scope: step_invariant "\<lambda>s. s = scope_init" scope_step scope_inv
  by unfold_locales (auto intro: scope_step_inv scope_init_inv)

definition cancel_over :: "send_scope \<Rightarrow> bool" where
  "cancel_over s \<longleftrightarrow> flag s \<and> late s = [] \<and> list_all (\<lambda>p. p = Calling [] []) (cancelling s)"

text \<open>C13: Once a cancellation is over, every client that was ever registered has been stopped, also one registered
  while it went on, and every hook registered before it has been called, in every interleaving.\<close>

theorem clients_stopped:
  assumes "scope_step\<^sup>*\<^sup>* scope_init s" and "cancel_over s" and "h \<in> set (hooks s)"
    and "is_client h \<or> h \<in> set (early s)"
  shows "h \<in> set (called s)"
proof -
  have "seen_to s h" using scope.reach_inv [OF refl assms(1)] assms(2-4) by (auto simp: scope_inv_def cancel_over_def)
  then show ?thesis using assms(2) by (auto simp: seen_to_def cancel_over_def list_all_iff)
qed

text \<open>Two runs: a hook that comes after the copy, and two threads that cancel at once.\<close>

lemma then_step:
  "scope_step\<^sup>*\<^sup>* r s \<Longrightarrow> scope_step\<^sup>*\<^sup>* r (register_client c s)"
  "scope_step\<^sup>*\<^sup>* r s \<Longrightarrow> scope_step\<^sup>*\<^sup>* r (register_on_cancel h s)"
  "scope_step\<^sup>*\<^sup>* r s \<Longrightarrow> scope_step\<^sup>*\<^sup>* r (begin_cancel s)"
  "scope_step\<^sup>*\<^sup>* r s \<Longrightarrow> i < length (late s) \<Longrightarrow> scope_step\<^sup>*\<^sup>* r (stop_late i s)"
  "scope_step\<^sup>*\<^sup>* r s \<Longrightarrow> k < length (cancelling s) \<Longrightarrow> cancelling s ! k = ToSet \<Longrightarrow> scope_step\<^sup>*\<^sup>* r (set_flag k s)"
  "scope_step\<^sup>*\<^sup>* r s \<Longrightarrow> k < length (cancelling s) \<Longrightarrow> cancelling s ! k = ToSnapshot \<Longrightarrow> scope_step\<^sup>*\<^sup>* r (snapshot k s)"
  "scope_step\<^sup>*\<^sup>* r s \<Longrightarrow> k < length (cancelling s) \<Longrightarrow> (case cancelling s ! k of Calling hs es \<Rightarrow> hs \<noteq> [] \<or> es \<noteq> [] | _ \<Rightarrow> False)
     \<Longrightarrow> scope_step\<^sup>*\<^sup>* r (call_next k s)"
  by (auto intro: rtranclp.rtrancl_into_rtrancl scope_step.intros split: cancel_phase.splits)

definition stopped_scope :: "send_scope" where
  "stopped_scope = stop_late 0 (register_client 2 (call_next 0 (call_next 0 (snapshot 0 (set_flag 0 (begin_cancel
     (register_client 1 scope_init)))))))"

lemma reach_stopped: "scope_step\<^sup>*\<^sup>* scope_init stopped_scope"
  unfolding stopped_scope_def by (intro then_step rtranclp.rtrancl_refl) (simp_all add: scope_defs scope_init_def)

theorem clients_stopped_witness:
  "Client 2 \<in> set (called stopped_scope) \<and> flushed stopped_scope = [0]"
proof -
  have "cancel_over stopped_scope" "Client 2 \<in> set (hooks stopped_scope)"
    by (simp_all add: cancel_over_def stopped_scope_def scope_defs scope_init_def)
  then have "Client 2 \<in> set (called stopped_scope)" using clients_stopped [OF reach_stopped] by simp
  then show ?thesis by (simp add: stopped_scope_def scope_defs scope_init_def)
qed

text \<open>A hook registered after the cancellation is never called: the cancellation is over, and no step but
  further registrations is possible.\<close>

theorem late_hook_lost:
  "\<exists>s. scope_step\<^sup>*\<^sup>* scope_init s \<and> cancel_over s \<and> Hook 7 \<in> set (hooks s) \<and> Hook 7 \<notin> set (called s)"
proof -
  let ?s = "register_on_cancel 7 stopped_scope"
  have "scope_step\<^sup>*\<^sup>* scope_init ?s" using reach_stopped RegisterHook by (rule rtranclp.rtrancl_into_rtrancl)
  moreover have "cancel_over ?s" "Hook 7 \<in> set (hooks ?s)" "Hook 7 \<notin> set (called ?s)"
    by (simp_all add: cancel_over_def stopped_scope_def scope_defs scope_init_def)
  ultimately show ?thesis by blast
qed

definition twice_scope :: send_scope where
  "twice_scope = call_next 1 (snapshot 1 (set_flag 1 (call_next 0 (snapshot 0 (set_flag 0 (begin_cancel (begin_cancel
     (register_on_cancel 5 scope_init))))))))"

text \<open>Two threads that cancel at the same time both call every hook.\<close>

theorem hook_called_twice:
  "scope_step\<^sup>*\<^sup>* scope_init twice_scope \<and> called twice_scope = [Hook 5, Hook 5]"
proof
  show "scope_step\<^sup>*\<^sup>* scope_init twice_scope"
    unfolding twice_scope_def by (intro then_step rtranclp.rtrancl_refl) (simp_all add: scope_defs scope_init_def)
  show "called twice_scope = [Hook 5, Hook 5]" by (simp add: twice_scope_def scope_defs scope_init_def)
qed

subsection \<open>The owner of the event pump\<close>

text \<open>\<open>drain_owner_scope\<close>: the owner, the depth, and the open scopes, the innermost first, each with the owner it
  has found.\<close>

record pump =
  owner :: "string option"
  depth :: int
  scopes :: "(string \<times> string option) list"

definition pump_init :: pump where
  "pump_init = \<lparr>owner = None, depth = 0, scopes = []\<rparr>"

text \<open>\<open>None\<close> is the \<open>NestedDrainOwnerError\<close>.\<close>

definition enter_drain :: "string \<Rightarrow> pump \<Rightarrow> pump option" where
  "enter_drain n s =
     (if owner s \<noteq> None \<and> owner s \<noteq> Some n then None
      else Some (s\<lparr>owner := Some n, depth := depth s + 1, scopes := (n, owner s) # scopes s\<rparr>))"

definition leave_drain :: "nat \<Rightarrow> pump \<Rightarrow> pump" where
  "leave_drain i s =
     s\<lparr>depth := depth s - 1, owner := (if depth s - 1 = 0 then None else snd (scopes s ! i)),
       scopes := take i (scopes s) @ drop (Suc i) (scopes s)\<rparr>"

definition is_vcl_pump_allowed :: "pump \<Rightarrow> bool" where
  "is_vcl_pump_allowed s \<longleftrightarrow> depth s \<le> 1"

text \<open>The argument says whether scopes are left in the reverse order of entering, as on one thread.\<close>

inductive drain_step :: "bool \<Rightarrow> pump \<Rightarrow> pump \<Rightarrow> bool" for nested where
  Enter: "enter_drain n s = Some t \<Longrightarrow> drain_step nested s t"
| Leave: "i < length (scopes s) \<Longrightarrow> nested \<longrightarrow> i = 0 \<Longrightarrow> drain_step nested s (leave_drain i s)"

fun scopes_ok :: "string \<Rightarrow> (string \<times> string option) list \<Rightarrow> bool" where
  "scopes_ok n [] = True"
| "scopes_ok n ((m, prev) # rest) = (m = n \<and> prev = (if rest = [] then None else Some n) \<and> scopes_ok n rest)"

definition pump_inv :: "pump \<Rightarrow> bool" where
  "pump_inv s \<longleftrightarrow> depth s = int (length (scopes s))
     \<and> (case owner s of None \<Rightarrow> scopes s = [] | Some n \<Rightarrow> scopes s \<noteq> [] \<and> scopes_ok n (scopes s))"

lemma drain_step_inv: "drain_step True s t \<Longrightarrow> pump_inv s \<Longrightarrow> pump_inv t"
proof (induction rule: drain_step.induct)
  case (Enter n s t)
  then show ?case by (auto simp: enter_drain_def pump_inv_def split: if_splits option.splits)
next
  case (Leave i s)
  then obtain m prev rest where "scopes s = (m, prev) # rest" by (cases "scopes s") auto
  then show ?case using Leave by (cases rest) (auto simp: leave_drain_def pump_inv_def split: option.splits)
qed

interpretation drain: step_invariant "\<lambda>s. s = pump_init" "drain_step True" pump_inv
  by unfold_locales (simp_all add: pump_inv_def pump_init_def, metis drain_step_inv pump_inv_def)

text \<open>As long as scopes nest, all open scopes have one name, which is the owner, the depth is their number, and
  any other owner is refused until the last one is left.\<close>

theorem one_drain_owner:
  assumes "(drain_step True)\<^sup>*\<^sup>* pump_init s"
  shows "depth s = int (length (scopes s)) \<and> (\<forall>x \<in> set (scopes s). owner s = Some (fst x))
    \<and> (owner s = None \<longleftrightarrow> scopes s = []) \<and> (enter_drain n s = None \<longleftrightarrow> owner s \<noteq> None \<and> owner s \<noteq> Some n)"
proof -
  have "scopes_ok m xs \<Longrightarrow> x \<in> set xs \<Longrightarrow> fst x = m" for m xs x by (induction xs) auto
  then show ?thesis using drain.reach_inv [OF refl assms]
    by (auto simp: pump_inv_def enter_drain_def split: option.splits)
qed

theorem one_drain_owner_witness:
  "\<exists>s. (drain_step True)\<^sup>*\<^sup>* pump_init s \<and> owner s = Some ''send'' \<and> enter_drain ''dialog'' s = None"
proof -
  let ?s = "\<lparr>owner = Some ''send'', depth = 1, scopes = [(''send'', None)]\<rparr>"
  have "drain_step True pump_init ?s" by (rule Enter [of "''send''"]) (simp add: enter_drain_def pump_init_def)
  then have r: "(drain_step True)\<^sup>*\<^sup>* pump_init ?s" by simp
  then show ?thesis using one_drain_owner [OF r, of "''dialog''"] by (intro exI [of _ ?s]) simp
qed

text \<open>Two scopes of one name that do not nest leave no owner behind while one of them is open, and a second owner
  gets in.\<close>

theorem two_drain_owners:
  "\<exists>s. (drain_step False)\<^sup>*\<^sup>* pump_init s \<and> map fst (scopes s) = [''dialog'', ''send'']"
proof -
  let ?a = "\<lparr>owner = Some ''send'', depth = 1, scopes = [(''send'', None)]\<rparr>"
  let ?b = "\<lparr>owner = Some ''send'', depth = 2, scopes = [(''send'', Some ''send''), (''send'', None)]\<rparr>"
  let ?c = "\<lparr>owner = None, depth = 1, scopes = [(''send'', Some ''send'')]\<rparr>"
  let ?d = "\<lparr>owner = Some ''dialog'', depth = 2, scopes = [(''dialog'', None), (''send'', Some ''send'')]\<rparr>"
  have "drain_step False pump_init ?a"
    by (rule Enter [of "''send''"]) (simp add: enter_drain_def pump_init_def)
  moreover have "drain_step False ?a ?b" by (rule Enter [of "''send''"]) (simp add: enter_drain_def)
  moreover have "drain_step False ?b ?c"
    using drain_step.Leave [of 1 ?b False] by (simp add: leave_drain_def)
  moreover have "drain_step False ?c ?d" by (rule Enter [of "''dialog''"]) (simp add: enter_drain_def)
  ultimately have "(drain_step False)\<^sup>*\<^sup>* pump_init ?d"
    by (meson converse_rtranclp_into_rtranclp rtranclp.rtrancl_refl)
  then show ?thesis by (intro exI [of _ ?d]) simp
qed

subsection \<open>The gates before a local model\<close>

text \<open>\<open>llm_request_lane\<close> is a lock; \<open>grammar_llm_request_gate\<close> with a limit above one counts. Every user of a gate is
  listed with its limit and where it stands; a limit of at most one means the lane.\<close>

datatype gate_phase = Waits | Inside | Left | Refused

record gate =
  lane_held :: bool
  in_flight :: nat
  users :: "(nat \<times> gate_phase) list"

definition gate_init :: gate where
  "gate_init = \<lparr>lane_held = False, in_flight = 0, users = []\<rparr>"

definition set_user :: "nat \<Rightarrow> gate_phase \<Rightarrow> gate \<Rightarrow> gate" where
  "set_user i p s = s\<lparr>users := (users s)[i := (fst (users s ! i), p)]\<rparr>"

definition may_enter :: "nat \<Rightarrow> gate \<Rightarrow> bool" where
  "may_enter limit s \<longleftrightarrow> (if limit \<le> 1 then \<not> lane_held s else in_flight s < limit)"

definition enter_gate :: "nat \<Rightarrow> gate \<Rightarrow> gate" where
  "enter_gate i s = set_user i Inside
     (if fst (users s ! i) \<le> 1 then s\<lparr>lane_held := True\<rparr> else s\<lparr>in_flight := in_flight s + 1\<rparr>)"

definition leave_gate :: "nat \<Rightarrow> gate \<Rightarrow> gate" where
  "leave_gate i s = set_user i Left
     (if fst (users s ! i) \<le> 1 then s\<lparr>lane_held := False\<rparr> else s\<lparr>in_flight := in_flight s - 1\<rparr>)"

inductive gate_step :: "gate \<Rightarrow> gate \<Rightarrow> bool" where
  Request: "gate_step s (s\<lparr>users := users s @ [(limit, Waits)]\<rparr>)"
| Admit: "i < length (users s) \<Longrightarrow> snd (users s ! i) = Waits \<Longrightarrow> may_enter (fst (users s ! i)) s \<Longrightarrow> gate_step s (enter_gate i s)"
| GiveUpGate: "i < length (users s) \<Longrightarrow> snd (users s ! i) = Waits \<Longrightarrow> gate_step s (set_user i Refused s)"
| Release: "i < length (users s) \<Longrightarrow> snd (users s ! i) = Inside \<Longrightarrow> gate_step s (leave_gate i s)"

fun in_lane :: "nat \<times> gate_phase \<Rightarrow> nat" where
  "in_lane (l, p) = (if l \<le> 1 \<and> p = Inside then 1 else 0)"

fun counted :: "nat \<times> gate_phase \<Rightarrow> nat" where
  "counted (l, p) = (if 1 < l \<and> p = Inside then 1 else 0)"

definition largest :: "(nat \<times> gate_phase) list \<Rightarrow> nat" where
  "largest xs = foldr max (map fst xs) 0"

definition gate_inv :: "gate \<Rightarrow> bool" where
  "gate_inv s \<longleftrightarrow> sum_list (map in_lane (users s)) = (if lane_held s then 1 else 0)
     \<and> sum_list (map counted (users s)) = in_flight s \<and> in_flight s \<le> largest (users s)"

lemma largest_le: "largest xs \<le> N \<longleftrightarrow> (\<forall>x \<in> set xs. fst x \<le> N)"
  by (induction xs) (auto simp: largest_def)

lemma largest_append: "largest xs \<le> largest (xs @ ys)"
  using largest_le [of "xs @ ys" "largest (xs @ ys)"] by (simp add: largest_le)

lemma largest_nth: "i < length xs \<Longrightarrow> fst (xs ! i) \<le> largest xs"
  using largest_le [of xs "largest xs"] by simp

lemma largest_set: "i < length xs \<Longrightarrow> fst y = fst (xs ! i) \<Longrightarrow> largest (xs[i := y]) = largest xs"
  by (simp add: largest_def map_update) (metis list_update_id map_update nth_map)

lemma sums_updated:
  assumes "i < length (users s)" and "users s ! i = (l, p)"
  shows "sum_list (map in_lane ((users s)[i := (l, q)])) = sum_list (map in_lane (users s)) + in_lane (l, q) - in_lane (l, p)"
    and "sum_list (map counted ((users s)[i := (l, q)])) = sum_list (map counted (users s)) + counted (l, q) - counted (l, p)"
    and "largest ((users s)[i := (l, q)]) = largest (users s)"
  using assms sum_list_update [of i "map in_lane (users s)" "in_lane (l, q)"]
    sum_list_update [of i "map counted (users s)" "counted (l, q)"] largest_set [OF assms(1), of "(l, q)"]
  by (simp_all add: map_update)

lemma user_counted:
  assumes "i < length (users s)" and "users s ! i = (l, p)"
  shows "in_lane (l, p) \<le> sum_list (map in_lane (users s))" and "counted (l, p) \<le> sum_list (map counted (users s))"
    and "l \<le> largest (users s)"
  using assms elem_le_sum_list [of i "map in_lane (users s)"] elem_le_sum_list [of i "map counted (users s)"]
    largest_nth [OF assms(1)] by simp_all

lemma gate_step_inv: "gate_step s t \<Longrightarrow> gate_inv s \<Longrightarrow> gate_inv t"
proof (induction rule: gate_step.induct)
  case (Request s limit)
  then show ?case using largest_append [of "users s" "[(limit, Waits)]"] by (simp add: gate_inv_def)
next
  case (Admit i s)
  obtain l where l: "users s ! i = (l, Waits)" using Admit.hyps(2) by (cases "users s ! i") auto
  then show ?case using Admit sums_updated [OF Admit.hyps(1) l, of Inside] user_counted [OF Admit.hyps(1) l]
    by (cases "l \<le> 1") (simp_all add: gate_inv_def enter_gate_def set_user_def may_enter_def)
next
  case (GiveUpGate i s)
  obtain l where l: "users s ! i = (l, Waits)" using GiveUpGate.hyps(2) by (cases "users s ! i") auto
  then show ?case using GiveUpGate sums_updated [OF GiveUpGate.hyps(1) l, of Refused]
    by (simp add: gate_inv_def set_user_def)
next
  case (Release i s)
  obtain l where l: "users s ! i = (l, Inside)" using Release.hyps(2) by (cases "users s ! i") auto
  then show ?case using Release sums_updated [OF Release.hyps(1) l, of Left] user_counted [OF Release.hyps(1) l]
    by (cases "l \<le> 1") (auto simp: gate_inv_def leave_gate_def set_user_def split: if_splits)
qed

lemma gate_init_inv: "gate_inv gate_init"
  by (simp add: gate_init_def gate_inv_def)

interpretation gate: step_invariant "\<lambda>s. s = gate_init" gate_step gate_inv
  by unfold_locales (auto intro: gate_step_inv gate_init_inv)

definition inside :: "gate \<Rightarrow> (nat \<times> gate_phase) list" where
  "inside s = filter (\<lambda>x. snd x = Inside) (users s)"

lemma inside_sums:
  "length (filter (\<lambda>x. fst x \<le> 1) (inside s)) = sum_list (map in_lane (users s))"
  "length (filter (\<lambda>x. 1 < fst x) (inside s)) = sum_list (map counted (users s))"
proof -
  have "length (filter (\<lambda>x. fst x \<le> 1) (filter (\<lambda>x. snd x = Inside) us)) = sum_list (map in_lane us)
    \<and> length (filter (\<lambda>x. 1 < fst x) (filter (\<lambda>x. snd x = Inside) us)) = sum_list (map counted us)" for us
    by (induction us) (auto split: prod.splits)
  then show "length (filter (\<lambda>x. fst x \<le> 1) (inside s)) = sum_list (map in_lane (users s))"
    "length (filter (\<lambda>x. 1 < fst x) (inside s)) = sum_list (map counted (users s))" by (simp_all add: inside_def)
qed

text \<open>At most one user is in the lane of a local model at a time, and when no user of the counting gate asks for
  more than \<open>N\<close>, at most \<open>N\<close> are inside it, in every interleaving of requests, admissions, timeouts and
  releases.\<close>

theorem gates_bound:
  assumes "gate_step\<^sup>*\<^sup>* gate_init s"
  shows "length (filter (\<lambda>x. fst x \<le> 1) (inside s)) \<le> 1
    \<and> ((\<forall>x \<in> set (users s). fst x \<le> N) \<longrightarrow> length (filter (\<lambda>x. 1 < fst x) (inside s)) \<le> N)"
  using gate.reach_inv [OF refl assms] unfolding inside_sums largest_le [symmetric] gate_inv_def by auto

theorem gates_bound_witness:
  "\<exists>s. gate_step\<^sup>*\<^sup>* gate_init s \<and> users s = [(0, Inside)]
    \<and> length (filter (\<lambda>x. fst x \<le> 1) (inside s)) \<le> 1 \<and> length (filter (\<lambda>x. 1 < fst x) (inside s)) \<le> 0"
proof -
  define a where "a = gate_init\<lparr>users := users gate_init @ [(0, Waits)]\<rparr>"
  define b where "b = enter_gate 0 a"
  note defs = b_def a_def enter_gate_def set_user_def may_enter_def gate_init_def
  have "gate_step gate_init a" unfolding a_def by (rule Request)
  moreover have "gate_step a b" unfolding b_def by (rule Admit) (simp_all add: defs)
  ultimately have r: "gate_step\<^sup>*\<^sup>* gate_init b" by (meson converse_rtranclp_into_rtranclp rtranclp.rtrancl_refl)
  have u: "users b = [(0, Inside)]" by (simp add: defs)
  show ?thesis using gates_bound [OF r, of 0] u r by (intro exI [of _ b]) simp
qed


subsection \<open>Which way a call to the main thread takes\<close>

text \<open>What \<open>QueueExecutor.execute\<close> and \<open>post\<close> ask: the module flag \<open>_force_marshal_mode\<close>, the name of the background
  task of the calling thread, the designated main thread, the calling thread, the main thread of Python, whether the
  caller is inside a synchronous host dispatch, \<open>WRITERAGENT_TESTING\<close>, whether \<open>AsyncCallback\<close> is there, and whether an
  agent is active. A name that is empty counts as no task.\<close>

record call_site =
  force_marshal :: bool
  bg_task :: "string option"
  designated :: "nat option"
  this_thread :: nat
  main_thread :: nat
  sync_dispatch :: bool
  testing :: bool
  async_there :: bool
  agent_active :: bool

datatype route = Inline | RefusedDispatch | RefusedNoAsync | Unsafe | Queued | Dropped

definition on_bg_task :: "call_site \<Rightarrow> bool" where
  "on_bg_task c \<longleftrightarrow> bg_task c \<noteq> None \<and> bg_task c \<noteq> Some []"

definition may_run_marshal_inline :: "call_site \<Rightarrow> bool" where
  "may_run_marshal_inline c =
     (if force_marshal c then False
      else if on_bg_task c then False
      else case designated c of Some t \<Rightarrow> this_thread c = t | None \<Rightarrow> this_thread c = main_thread c)"

definition should_run_inline :: "call_site \<Rightarrow> bool" where
  "should_run_inline c = (if force_marshal c then False else testing c)"

definition execute_route :: "call_site \<Rightarrow> route" where
  "execute_route c =
     (if may_run_marshal_inline c then Inline
      else if sync_dispatch c then RefusedDispatch
      else if should_run_inline c \<and> \<not> on_bg_task c then Inline
      else let svc = \<not> force_marshal c \<and> async_there c
           in if \<not> svc \<and> \<not> force_marshal c then (if agent_active c \<or> on_bg_task c then RefusedNoAsync else Unsafe)
              else Queued)"

definition post_route :: "call_site \<Rightarrow> route" where
  "post_route c =
     (if should_run_inline c then Inline
      else let svc = \<not> force_marshal c \<and> async_there c
           in if \<not> svc \<and> \<not> force_marshal c then (if on_bg_task c then Dropped else Unsafe) else Queued)"

definition runs_here :: "route \<Rightarrow> bool" where
  "runs_here r \<longleftrightarrow> r = Inline \<or> r = Unsafe"

lemmas route_defs = execute_route_def post_route_def may_run_marshal_inline_def should_run_inline_def runs_here_def Let_def

text \<open>A background task never runs a document operation on its own thread through \<open>execute\<close>: the call waits in the
  queue or is refused; and a thread inside a synchronous host dispatch that is not the main thread never waits.\<close>

theorem execute_off_thread:
  shows "on_bg_task c \<Longrightarrow> \<not> runs_here (execute_route c)"
    and "sync_dispatch c \<Longrightarrow> execute_route c \<noteq> Queued"
    and "execute_route c = Unsafe \<Longrightarrow> \<not> async_there c \<and> \<not> agent_active c \<and> \<not> on_bg_task c"
  by (auto simp: route_defs split: if_splits option.splits)

text \<open>Outside tests \<open>post\<close> keeps a background task off its own thread too, at the price of losing the call when
  \<open>AsyncCallback\<close> is missing; in tests it runs the call on the thread of the task.\<close>

theorem post_off_thread:
  "on_bg_task c \<Longrightarrow> runs_here (post_route c) \<longleftrightarrow> testing c \<and> \<not> force_marshal c"
  by (auto simp: route_defs split: if_splits)

definition grammar_caller :: call_site where
  "grammar_caller = \<lparr>force_marshal = False, bg_task = Some ''grammar'', designated = None, this_thread = 2,
     main_thread = 1, sync_dispatch = False, testing = True, async_there = False, agent_active = False\<rparr>"

theorem post_off_thread_witness:
  "post_route grammar_caller = Inline \<and> execute_route grammar_caller = RefusedNoAsync"
  using post_off_thread [of grammar_caller]
  by (simp add: grammar_caller_def route_defs on_bg_task_def)

end
