(* ===== verification/PyDouble.thy ===== *)
theory PyDouble
  imports "HOL-Library.Word" Prelude
begin

text \<open>
  Python's \<open>float\<close> as the machine has it: an IEEE 754 double, given by its 64 bits, with the
  conversions the modelled code applies to it. \<open>float(i)\<close> rounds an integer to the nearest double, ties
  to even, and raises when it is too large; \<open>int(x)\<close> truncates; \<open>array.array("d")\<close> writes
  and reads eight bytes per value, least significant first.
\<close>

type_synonym double = "64 word"
type_synonym byte = "8 word"

subsection \<open>Fields\<close>

definition exponent :: "double \<Rightarrow> nat" where
  "exponent d = unat d div 2 ^ 52 mod 2 ^ 11"

definition fraction :: "double \<Rightarrow> nat" where
  "fraction d = unat d mod 2 ^ 52"

definition negative :: "double \<Rightarrow> bool" where
  "negative d \<longleftrightarrow> 2 ^ 63 \<le> unat d"

definition is_nan :: "double \<Rightarrow> bool" where
  "is_nan d \<longleftrightarrow> exponent d = 2047 \<and> fraction d \<noteq> 0"

text \<open>\<open>math.nan\<close>, \<open>1.0\<close>, and the comparison with \<open>0.0\<close>, which both zeros satisfy.\<close>

definition nan :: double where
  "nan = 0x7FF8000000000000"

definition one_double :: double where
  "one_double = 0x3FF0000000000000"

definition is_zero :: "double \<Rightarrow> bool" where
  "is_zero d \<longleftrightarrow> unat d mod 2 ^ 63 = 0"

subsection \<open>Integers\<close>

fun bit_length :: "nat \<Rightarrow> nat" where
  "bit_length n = (if n = 0 then 0 else Suc (bit_length (n div 2)))"

declare bit_length.simps [simp del]

text \<open>The magnitude bits of the double nearest to \<open>n\<close>: a significand of 53 bits, whose carry runs into
  the exponent.\<close>

definition nearest_bits :: "nat \<Rightarrow> nat" where
  "nearest_bits n =
     (if n = 0 then 0
      else let k = bit_length n
        in if k \<le> 53 then (k + 1021) * 2 ^ 52 + n * 2 ^ (53 - k)
           else let q = n div 2 ^ (k - 53); r = n mod 2 ^ (k - 53); half = 2 ^ (k - 54)
             in (k + 1021) * 2 ^ 52 + (if r > half \<or> r = half \<and> odd q then q + 1 else q))"

text \<open>\<open>float(i)\<close>; \<open>None\<close> is the \<open>OverflowError\<close>.\<close>

definition float_of_int :: "int \<Rightarrow> double option" where
  "float_of_int i =
     (let b = nearest_bits (nat \<bar>i\<bar>)
      in if 2047 * 2 ^ 52 \<le> b then None else Some (word_of_nat (if i < 0 then 2 ^ 63 + b else b)))"

text \<open>\<open>int(x)\<close>; \<open>None\<close> is the \<open>ValueError\<close> of a NaN and the \<open>OverflowError\<close> of an infinity.\<close>

definition int_of_float :: "double \<Rightarrow> int option" where
  "int_of_float d =
     (if exponent d = 2047 then None
      else let m = (if exponent d = 0 then fraction d else 2 ^ 52 + fraction d);
             v = (if 1075 \<le> exponent d then m * 2 ^ (exponent d - 1075) else m div 2 ^ (1075 - max 1 (exponent d)))
        in Some (if negative d then - int v else int v))"

lemma bit_length_0 [simp]: "bit_length 0 = 0"
  by (simp add: bit_length.simps)

lemma bit_length_bounds: "0 < n \<Longrightarrow> 2 ^ (bit_length n - 1) \<le> n \<and> n < 2 ^ bit_length n \<and> 0 < bit_length n"
proof (induction n rule: bit_length.induct)
  case (1 n)
  show ?case
  proof (cases "n div 2 = 0")
    case True
    then have "n = 1" using 1 by auto
    then show ?thesis by (simp add: bit_length.simps)
  next
    case False
    then obtain k where k: "bit_length (n div 2) = Suc k" using 1 by (auto simp: gr0_conv_Suc)
    then have "bit_length n = Suc (Suc k)" using False by (subst bit_length.simps) auto
    then show ?thesis using 1 False k by auto
  qed
qed

lemma bit_length_le: "0 < n \<Longrightarrow> n < 2 ^ k \<Longrightarrow> bit_length n \<le> k"
proof (rule ccontr)
  assume a: "0 < n" "n < 2 ^ k" "\<not> bit_length n \<le> k"
  then have "(2::nat) ^ k \<le> 2 ^ (bit_length n - 1)" by (intro power_increasing) auto
  then show False using bit_length_bounds [OF a(1)] a(2) by linarith
qed

text \<open>A number of at most 53 bits is a double.\<close>

lemma nearest_bits_fields:
  assumes "0 < n" and "bit_length n \<le> 53"
  shows "nearest_bits n = (bit_length n + 1022) * 2 ^ 52 + (n * 2 ^ (53 - bit_length n) - 2 ^ 52)"
    and "2 ^ 52 \<le> n * 2 ^ (53 - bit_length n)" and "n * 2 ^ (53 - bit_length n) < 2 ^ 53"
proof -
  let ?k = "bit_length n"
  have b: "2 ^ (?k - 1) \<le> n" "n < 2 ^ ?k" "0 < ?k" using bit_length_bounds [OF assms(1)] by simp_all
  have "2 ^ (?k - 1) * 2 ^ (53 - ?k) = (2::nat) ^ 52" using b(3) assms(2) by (simp flip: power_add)
  then show lo: "2 ^ 52 \<le> n * 2 ^ (53 - ?k)" using mult_le_mono1 [OF b(1), of "2 ^ (53 - ?k)"] by simp
  have "2 ^ ?k * 2 ^ (53 - ?k) = (2::nat) ^ 53" using assms(2) by (simp flip: power_add)
  then show "n * 2 ^ (53 - ?k) < 2 ^ 53" using b(2) mult_less_mono1 [OF b(2), of "2 ^ (53 - ?k)"] by simp
  show "nearest_bits n = (?k + 1022) * 2 ^ 52 + (n * 2 ^ (53 - ?k) - 2 ^ 52)"
    using assms lo by (simp add: nearest_bits_def Let_def)
qed

lemma digits_base: "f < c \<Longrightarrow> (a * c + f) div c = a \<and> (a * c + f) mod c = f" for a c f :: nat
  by simp

lemma word_fields:
  assumes "e < 2048" and "f < 2 ^ 52"
  shows "exponent (word_of_nat (e * 2 ^ 52 + f)) = e" and "fraction (word_of_nat (e * 2 ^ 52 + f)) = f"
    and "\<not> negative (word_of_nat (e * 2 ^ 52 + f))"
    and "exponent (word_of_nat (2 ^ 63 + (e * 2 ^ 52 + f))) = e" and "fraction (word_of_nat (2 ^ 63 + (e * 2 ^ 52 + f))) = f"
    and "negative (word_of_nat (2 ^ 63 + (e * 2 ^ 52 + f)))"
proof -
  have lt: "e * 2 ^ 52 + f < 2 ^ 63" using assms by simp
  then have u: "unat (word_of_nat (e * 2 ^ 52 + f) :: double) = e * 2 ^ 52 + f"
    "unat (word_of_nat (2 ^ 63 + (e * 2 ^ 52 + f)) :: double) = 2 ^ 63 + (e * 2 ^ 52 + f)"
    unfolding unat_of_nat using lt by simp_all
  have split: "2 ^ 63 + (e * 2 ^ 52 + f) = (2048 + e) * 2 ^ 52 + f" by simp
  note h = digits_base [OF assms(2), of "2048 + e"]
  show "exponent (word_of_nat (e * 2 ^ 52 + f)) = e" "fraction (word_of_nat (e * 2 ^ 52 + f)) = f"
    "\<not> negative (word_of_nat (e * 2 ^ 52 + f))"
    unfolding exponent_def fraction_def negative_def u using assms lt by simp_all
  show "exponent (word_of_nat (2 ^ 63 + (e * 2 ^ 52 + f))) = e" "fraction (word_of_nat (2 ^ 63 + (e * 2 ^ 52 + f))) = f"
    "negative (word_of_nat (2 ^ 63 + (e * 2 ^ 52 + f)))"
    unfolding exponent_def fraction_def negative_def u unfolding split conjunct1 [OF h] conjunct2 [OF h]
    using assms by simp_all
qed


text \<open>Every integer up to \<open>2 ^ 53\<close> survives the conversion; the next one does not.\<close>

lemma nearest_bits_double:
  assumes "n \<le> 2 ^ 53"
  shows "\<exists>e f. nearest_bits n = e * 2 ^ 52 + f \<and> e < 2047 \<and> f < 2 ^ 52
    \<and> (if e = 0 then n = 0 \<and> f = 0
       else e \<le> 1075 \<and> n = (2 ^ 52 + f) div 2 ^ (1075 - e) \<or> e = 1076 \<and> f = 0 \<and> n = 2 ^ 53)"
proof (cases "n = 0 \<or> n = 2 ^ 53")
  case True
  have "bit_length (2 ^ 53) = 54" by (simp add: bit_length.simps)
  then have "nearest_bits (2 ^ 53) = 1076 * 2 ^ 52 + 0" by (simp add: nearest_bits_def Let_def)
  moreover have "nearest_bits 0 = 0 * 2 ^ 52 + 0" by (simp add: nearest_bits_def)
  ultimately show ?thesis using True
    by (elim disjE) (intro exI [of _ "0::nat"], simp, intro exI [of _ "1076::nat"] exI [of _ "0::nat"], simp)
next
  case False
  then have n: "0 < n" "n < 2 ^ 53" using assms by auto
  let ?k = "bit_length n"
  have k: "?k \<le> 53" "0 < ?k" using bit_length_le [OF n] bit_length_bounds [OF n(1)] by simp_all
  note f = nearest_bits_fields [OF n(1) k(1)]
  define g where "g = n * 2 ^ (53 - ?k) - 2 ^ 52"
  have g: "2 ^ 52 + g = n * 2 ^ (53 - ?k)" "g < 2 ^ 52" using f(2,3) by (simp_all add: g_def)
  have "(2 ^ 52 + g) div 2 ^ (1075 - (?k + 1022)) = n" using k unfolding g(1) by simp
  moreover have "nearest_bits n = (?k + 1022) * 2 ^ 52 + g" using f(1) by (simp add: g_def)
  ultimately show ?thesis using g(2) k by (intro exI [of _ "?k + 1022"] exI [of _ g]) simp
qed

lemma float_of_int_exact:
  assumes "\<bar>i\<bar> \<le> 2 ^ 53"
  shows "\<exists>d. float_of_int i = Some d \<and> int_of_float d = Some i \<and> \<not> is_nan d"
proof -
  let ?n = "nat \<bar>i\<bar>"
  have "?n \<le> 2 ^ 53" using assms by (simp add: nat_le_iff)
  from nearest_bits_double [OF this] obtain e f where b: "nearest_bits ?n = e * 2 ^ 52 + f" "e < 2047" "f < 2 ^ 52"
    and c: "if e = 0 then ?n = 0 \<and> f = 0
       else e \<le> 1075 \<and> ?n = (2 ^ 52 + f) div 2 ^ (1075 - e) \<or> e = 1076 \<and> f = 0 \<and> ?n = 2 ^ 53" by blast
  note w = word_fields [of e f]
  have lt: "e * 2 ^ 52 + f < 2047 * 2 ^ 52" using b by simp
  define d :: double where "d = word_of_nat (if i < 0 then 2 ^ 63 + (e * 2 ^ 52 + f) else e * 2 ^ 52 + f)"
  have d: "float_of_int i = Some d" using lt by (simp add: float_of_int_def d_def b(1) Let_def)
  have fields: "exponent d = e" "fraction d = f" "negative d \<longleftrightarrow> i < 0"
    using w b by (auto simp: d_def)
  have "int_of_float d = Some i"
  proof (cases "e = 1076")
    case True
    then have "?n = 2 ^ 53" "f = 0" using c by auto
    then show ?thesis using fields True by (auto simp: int_of_float_def Let_def)
  next
    case False
    then have m: "(if 1075 \<le> e then (if e = 0 then f else 2 ^ 52 + f) * 2 ^ (e - 1075)
        else (if e = 0 then f else 2 ^ 52 + f) div 2 ^ (1075 - max 1 e)) = ?n"
      using c by (cases "e = 1075") (auto split: if_splits simp: max_def)
    show ?thesis unfolding int_of_float_def fields Let_def m using b(2) by auto
  qed
  then show ?thesis using d fields b(2) by (auto simp: is_nan_def)
qed

text \<open>\<open>float(i)\<close> is never a NaN.\<close>

lemma float_of_int_not_nan:
  assumes "float_of_int i = Some d"
  shows "\<not> is_nan d"
proof -
  let ?b = "nearest_bits (nat \<bar>i\<bar>)"
  have b: "?b < 2047 * 2 ^ 52" "d = word_of_nat (if i < 0 then 2 ^ 63 + ?b else ?b)"
    using assms by (auto simp: float_of_int_def Let_def split: if_splits)
  have "exponent d = ?b div 2 ^ 52"
    using word_fields [of "?b div 2 ^ 52" "?b mod 2 ^ 52"] b by (auto simp: less_mult_imp_div_less)
  then show ?thesis using b(1) by (simp add: is_nan_def less_mult_imp_div_less nat_neq_iff)
qed

lemma conversions:
  "is_nan nan" "float_of_int 0 = Some 0" "float_of_int 1 = Some one_double" "is_zero 0" "\<not> is_nan 0" "\<not> is_nan one_double"
  "\<not> is_zero one_double"
  by (simp_all add: is_nan_def nan_def exponent_def fraction_def is_zero_def float_of_int_def nearest_bits_def
      one_double_def bit_length.simps Let_def)

lemma first_inexact:
  "float_of_int (2 ^ 53 + 1) = float_of_int (2 ^ 53)"
  by (simp add: float_of_int_def nearest_bits_def bit_length.simps Let_def)


subsection \<open>Bytes\<close>

fun little_endian :: "nat \<Rightarrow> nat \<Rightarrow> byte list" where
  "little_endian 0 n = []"
| "little_endian (Suc k) n = word_of_nat (n mod 256) # little_endian k (n div 256)"

fun of_little_endian :: "byte list \<Rightarrow> nat" where
  "of_little_endian [] = 0"
| "of_little_endian (b # bs) = unat b + 256 * of_little_endian bs"

text \<open>\<open>tobytes()\<close> and \<open>frombytes()\<close> of an \<open>array.array("d")\<close>; \<open>None\<close> is the \<open>ValueError\<close> of a
  length that is no multiple of eight.\<close>

definition to_bytes :: "double list \<Rightarrow> byte list" where
  "to_bytes ds = concat (map (\<lambda>d. little_endian 8 (unat d)) ds)"

fun from_bytes :: "byte list \<Rightarrow> double list option" where
  "from_bytes bs =
     (if bs = [] then Some []
      else if length bs < 8 then None
      else map_option (Cons (word_of_nat (of_little_endian (take 8 bs)))) (from_bytes (drop 8 bs)))"

declare from_bytes.simps [simp del]

lemma length_little_endian [simp]: "length (little_endian k n) = k"
  by (induction k arbitrary: n) simp_all

lemma of_little_endian_inv: "of_little_endian (little_endian k n) = n mod 256 ^ k"
  by (induction k arbitrary: n) (simp_all add: unat_of_nat mod_mult2_eq)

lemma double_bytes: "word_of_nat (of_little_endian (little_endian 8 (unat d))) = (d :: double)"
  using unsigned_less [of d, where ?'a = nat] by (simp add: of_little_endian_inv)

lemma from_bytes_Nil [simp]: "from_bytes [] = Some []"
  by (simp add: from_bytes.simps)

lemma from_bytes_append: "length b = 8 \<Longrightarrow> from_bytes (b @ bs) = map_option (Cons (word_of_nat (of_little_endian b))) (from_bytes bs)"
  by (subst from_bytes.simps) auto

lemma from_to_bytes [simp]: "from_bytes (to_bytes ds) = Some ds"
  by (induction ds) (simp_all add: to_bytes_def from_bytes_append double_bytes)

lemma length_to_bytes: "length (to_bytes ds) = 8 * length ds"
  by (induction ds) (simp_all add: to_bytes_def)

end
