(* ===== verification/GridCodec.thy ===== *)
theory GridCodec
  imports PyDouble PyStr
begin

text \<open>
  The wire format of tables (\<open>plugin/scripting/payload_codec.py\<close>, \<open>_flatten_grid_to_components\<close>,
  \<open>host_pack_split_grid\<close>, \<open>host_unpack_split_grid\<close>, and the compiled flattening in
  \<open>native/writeragent_vec/src/writeragent_vec/pack.pyx\<close>): a table becomes one buffer of doubles, a
  dictionary of the text cells by position, and a kind per column.
\<close>

subsection \<open>Values\<close>

datatype codec_error = ValueErr | TypeErr | OverflowErr | KeyErr | AttributeErr | ZeroDivisionErr | WrappedCount

text \<open>An object that is none of Python's own kinds of data is given by what the code asks of it: the module
  and name of its type, the kind of its \<open>dtype\<close> (if it has one, and that has one), what \<open>float()\<close> makes of it or
  raises, and \<open>str()\<close>.\<close>

datatype pyobj = PyObj (type_module: string) (type_name: string) (dtype_kind: "string option option")
  (as_float: "codec_error + double") (as_str: pystr)

datatype key = KStr pystr | KInt int

datatype val =
    VNone
  | VBool bool
  | VInt int
  | VFloat double
  | VStr pystr
  | VBytes "byte list"
  | VList "val list"
  | VTuple "val list"
  | VDict "(key \<times> val) list"
  | VObj pyobj

text \<open>Python's own conversions of data that is no plain cell: \<open>float()\<close> of a byte string, \<open>str()\<close> of a
  byte string or a container, and the base64 decoder.\<close>

record conversions =
  bytes_float :: "byte list \<Rightarrow> codec_error + double"
  repr_of :: "val \<Rightarrow> pystr"
  b64decode :: "pystr \<Rightarrow> codec_error + byte list"

fun float_of :: "conversions \<Rightarrow> val \<Rightarrow> codec_error + double" where
  "float_of P (VBool b) = Inr (if b then one_double else 0)"
| "float_of P (VInt i) = (case float_of_int i of None \<Rightarrow> Inl OverflowErr | Some d \<Rightarrow> Inr d)"
| "float_of P (VFloat d) = Inr d"
| "float_of P (VBytes b) = bytes_float P b"
| "float_of P (VObj ob) = as_float ob"
| "float_of P v = Inl TypeErr"

fun str_of :: "conversions \<Rightarrow> val \<Rightarrow> pystr" where
  "str_of P (VStr s) = s"
| "str_of P (VObj ob) = as_str ob"
| "str_of P v = repr_of P v"

text \<open>The sequence a list or tuple is.\<close>

fun items_of :: "val \<Rightarrow> val list option" where
  "items_of (VList xs) = Some xs"
| "items_of (VTuple xs) = Some xs"
| "items_of v = None"

subsection \<open>Flattening\<close>

text \<open>The column states are 0 for nothing seen, 1 for \<open>bool\<close>, 2 for \<open>int\<close>, 3 for \<open>float\<close>.\<close>

record flat =
  buf :: "double list"
  strings :: "(nat \<times> pystr) list"
  col_states :: "nat list"
  col_none :: "bool list"
  non_numeric :: bool

fun starts_with :: "string \<Rightarrow> string \<Rightarrow> bool" where
  "starts_with s [] = True"
| "starts_with [] (p # ps) = False"
| "starts_with (c # cs) (p # ps) = (c = p \<and> starts_with cs ps)"

definition as_bool :: "nat \<Rightarrow> nat" where "as_bool st = (if st = 0 then 1 else st)"
definition as_int :: "nat \<Rightarrow> nat" where "as_int st = (if st < 2 then 2 else st)"

text \<open>\<open>_flatten_update_column_state\<close>, on the state of one column.\<close>

fun upgraded :: "val \<Rightarrow> nat \<Rightarrow> nat" where
  "upgraded (VBool b) st = (if st = 3 then 3 else as_bool st)"
| "upgraded (VFloat d) st = 3"
| "upgraded (VInt i) st = (if st = 3 then 3 else as_int st)"
| "upgraded (VObj ob) st =
     (if st = 3 then 3
      else case dtype_kind ob of
        Some k \<Rightarrow>
          if k = Some ''f'' then 3
          else if k = Some ''i'' \<or> k = Some ''u'' then as_int st
          else if k = Some ''b'' then as_bool st
          else st
      | None \<Rightarrow>
          if starts_with (type_name ob) ''bool'' then as_bool st
          else if starts_with (type_name ob) ''int'' \<or> starts_with (type_name ob) ''uint'' then as_int st
          else 3)"
| "upgraded v st = 3"

definition put_number :: "nat \<Rightarrow> (nat \<Rightarrow> nat) \<Rightarrow> double \<Rightarrow> flat \<Rightarrow> flat" where
  "put_number c f d s = s\<lparr>buf := buf s @ [d], col_states := (col_states s)[c := f (col_states s ! c)]\<rparr>"

definition put_none :: "nat \<Rightarrow> flat \<Rightarrow> flat" where
  "put_none c s = s\<lparr>buf := buf s @ [nan], col_none := (col_none s)[c := True]\<rparr>"

definition put_text :: "nat \<Rightarrow> pystr \<Rightarrow> flat \<Rightarrow> flat" where
  "put_text idx t s = s\<lparr>buf := buf s @ [nan], strings := AList.update idx t (strings s)\<rparr>"

definition put_float_of :: "conversions \<Rightarrow> val \<Rightarrow> nat \<Rightarrow> (nat \<Rightarrow> nat) \<Rightarrow> flat \<Rightarrow> codec_error + flat" where
  "put_float_of P v c f s = (case float_of P v of Inl e \<Rightarrow> Inl e | Inr d \<Rightarrow> Inr (put_number c f d s))"

text \<open>\<open>_flatten_append_cell_slow\<close>.\<close>

fun append_slow :: "conversions \<Rightarrow> val \<Rightarrow> nat \<Rightarrow> nat \<Rightarrow> flat \<Rightarrow> codec_error + flat" where
  "append_slow P VNone c idx s = Inr (put_none c s)"
| "append_slow P (VBool b) c idx s = put_float_of P (VBool b) c as_bool s"
| "append_slow P (VInt i) c idx s = put_float_of P (VInt i) c as_int s"
| "append_slow P (VFloat d) c idx s = Inr (put_number c (\<lambda>_. 3) d s)"
| "append_slow P (VObj ob) c idx s =
     (case dtype_kind ob of
        Some k \<Rightarrow>
          if k = Some ''f'' then put_float_of P (VObj ob) c (\<lambda>_. 3) s
          else if k = Some ''i'' \<or> k = Some ''u'' then put_float_of P (VObj ob) c as_int s
          else if k = Some ''b'' then put_float_of P (VObj ob) c as_bool s
          else Inr (put_text idx (as_str ob) s)
      | None \<Rightarrow>
          if starts_with (type_name ob) ''bool'' then put_float_of P (VObj ob) c as_bool s
          else if starts_with (type_name ob) ''int'' \<or> starts_with (type_name ob) ''uint''
          then put_float_of P (VObj ob) c as_int s
          else if starts_with (type_name ob) ''float'' then put_float_of P (VObj ob) c (\<lambda>_. 3) s
          else Inr (put_text idx (as_str ob) s))"
| "append_slow P v c idx s = Inr (put_text idx (str_of P v) s)"

definition seen_text :: "flat \<Rightarrow> flat" where
  "seen_text s = s\<lparr>non_numeric := True\<rparr>"

text \<open>One round of \<open>_stdlib_flatten_pass\<close>.\<close>

fun flatten_cell :: "conversions \<Rightarrow> nat \<Rightarrow> nat \<Rightarrow> val \<Rightarrow> flat \<Rightarrow> codec_error + flat" where
  "flatten_cell P c idx VNone s = Inr (put_none c s)"
| "flatten_cell P c idx (VStr t) s = append_slow P (VStr t) c idx (seen_text s)"
| "flatten_cell P c idx v s =
     (if non_numeric s then append_slow P v c idx s
      else case v of
        VFloat d \<Rightarrow> Inr (put_number c (\<lambda>_. 3) d s)
      | VInt i \<Rightarrow> put_float_of P v c as_int s
      | VBool b \<Rightarrow> put_float_of P v c as_bool s
      | _ \<Rightarrow>
          (case float_of P v of
             Inr d \<Rightarrow> Inr (put_number c (upgraded v) d s)
           | Inl e \<Rightarrow> if e = TypeErr \<or> e = ValueErr then append_slow P v c idx (seen_text s) else Inl e))"

fun flatten_pass :: "conversions \<Rightarrow> (nat \<times> nat \<times> val) list \<Rightarrow> flat \<Rightarrow> codec_error + flat" where
  "flatten_pass P [] s = Inr s"
| "flatten_pass P ((c, idx, v) # cells) s =
     (case flatten_cell P c idx v s of Inl e \<Rightarrow> Inl e | Inr s' \<Rightarrow> flatten_pass P cells s')"

text \<open>\<open>_iter_split_grid_cells\<close>.\<close>

fun row_cells :: "nat \<Rightarrow> nat \<Rightarrow> val list \<Rightarrow> (nat \<times> nat \<times> val) list" where
  "row_cells c idx [] = []"
| "row_cells c idx (v # vs) = (c, idx, v) # row_cells (Suc c) (Suc idx) vs"

fun iter_rows :: "nat \<Rightarrow> val list list \<Rightarrow> (nat \<times> nat \<times> val) list" where
  "iter_rows idx [] = []"
| "iter_rows idx (r # rs) = row_cells 0 idx r @ iter_rows (idx + length r) rs"

fun iter_flat :: "nat \<Rightarrow> val list \<Rightarrow> (nat \<times> nat \<times> val) list" where
  "iter_flat idx [] = []"
| "iter_flat idx (v # vs) = (0, idx, v) # iter_flat (Suc idx) vs"

definition flat_init :: "nat \<Rightarrow> flat" where
  "flat_init n = \<lparr>buf = [], strings = [], col_states = replicate n 0, col_none = replicate n False, non_numeric = False\<rparr>"

definition kind_of_state :: "flat \<Rightarrow> nat \<Rightarrow> string" where
  "kind_of_state s c =
     (if strings s = [] \<and> col_none s ! c then ''float''
      else if col_states s ! c = 3 then ''float''
      else if col_states s ! c = 1 then ''bool''
      else ''int'')"

text \<open>The rows of a table, where the first element is a list or tuple; any other element among them breaks
  the contract of the function.\<close>

fun rows_of :: "val list \<Rightarrow> val list list option" where
  "rows_of [] = Some []"
| "rows_of (v # vs) = (case (items_of v, rows_of vs) of (Some r, Some rs) \<Rightarrow> Some (r # rs) | _ \<Rightarrow> None)"

definition is_2d :: "val list \<Rightarrow> bool" where
  "is_2d grid = (case grid of [] \<Rightarrow> False | v # vs \<Rightarrow> items_of v \<noteq> None)"

text \<open>\<open>_flatten_grid_to_components\<close> without the compiled accelerator, with \<open>_validate_rectangular_grid\<close>:
  the buffer, the texts, the column kinds and the shape.\<close>

type_synonym components = "double list \<times> (nat \<times> pystr) list \<times> string list \<times> nat list"

definition components_of :: "nat \<Rightarrow> nat list \<Rightarrow> codec_error + flat \<Rightarrow> codec_error + components" where
  "components_of n shape r =
     (case r of Inl e \<Rightarrow> Inl e | Inr s \<Rightarrow> Inr (buf s, strings s, map (kind_of_state s) [0 ..< n], shape))"

definition flatten_grid :: "conversions \<Rightarrow> val list \<Rightarrow> codec_error + components" where
  "flatten_grid P grid =
     (if grid = [] then Inr ([], [], [], [0])
      else if is_2d grid
      then case rows_of grid of
          None \<Rightarrow> Inl TypeErr
        | Some rows \<Rightarrow>
            let n = length (hd rows)
            in if list_all (\<lambda>r. length r = n) rows
               then components_of n [length rows, n] (flatten_pass P (iter_rows 0 rows) (flat_init n))
               else Inl ValueErr
      else components_of 1 [length grid] (flatten_pass P (iter_flat 0 grid) (flat_init 1)))"

subsection \<open>The envelope\<close>

definition field :: "(key \<times> val) list \<Rightarrow> string \<Rightarrow> val option" where
  "field d k = map_of d (KStr (u k))"

definition entry :: "string \<Rightarrow> val \<Rightarrow> key \<times> val" where
  "entry k v = (KStr (u k), v)"

definition vstr :: "string \<Rightarrow> val" where
  "vstr s = VStr (u s)"

definition split_envelope :: "string list \<Rightarrow> nat list \<Rightarrow> (nat \<times> pystr) list \<Rightarrow> byte list \<Rightarrow> val" where
  "split_envelope kinds shape texts bytes = VDict
     [entry ''__wa_payload__'' (vstr ''split_grid''), entry ''dtype'' (vstr ''float64''),
      entry ''column_kinds'' (VList (map vstr kinds)), entry ''shape'' (VList (map (\<lambda>n. VInt (int n)) shape)),
      entry ''strings'' (VDict (map (\<lambda>(i, t). (KInt (int i), VStr t)) texts)), entry ''buffer'' (VBytes bytes)]"

definition host_pack_split_grid :: "conversions \<Rightarrow> val list \<Rightarrow> codec_error + val" where
  "host_pack_split_grid P grid =
     (if grid = [] then Inr (split_envelope [] [0] [] [])
      else case flatten_grid P grid of
          Inl e \<Rightarrow> Inl e
        | Inr (ds, texts, kinds, shape) \<Rightarrow> Inr (split_envelope kinds shape texts (to_bytes ds)))"

text \<open>\<open>isinstance(d, int) and d >= 0\<close>, which \<open>bool\<close> satisfies.\<close>

fun as_nat :: "val \<Rightarrow> nat option" where
  "as_nat (VInt i) = (if 0 \<le> i then Some (nat i) else None)"
| "as_nat (VBool b) = Some (if b then 1 else 0)"
| "as_nat v = None"

fun nats_of :: "val list \<Rightarrow> nat list option" where
  "nats_of [] = Some []"
| "nats_of (v # vs) = (case (as_nat v, nats_of vs) of (Some n, Some ns) \<Rightarrow> Some (n # ns) | _ \<Rightarrow> None)"

definition shape_of :: "(key \<times> val) list \<Rightarrow> nat list option" where
  "shape_of d = (case field d ''shape'' of Some (VList xs) \<Rightarrow> nats_of xs | _ \<Rightarrow> None)"

fun is_bytes :: "val option \<Rightarrow> bool" where
  "is_bytes (Some (VBytes b)) = True"
| "is_bytes v = False"

fun is_text :: "val option \<Rightarrow> bool" where
  "is_text (Some (VStr b)) = True"
| "is_text v = False"

definition has_tag :: "(key \<times> val) list \<Rightarrow> string \<Rightarrow> bool" where
  "has_tag d t \<longleftrightarrow> field d ''__wa_payload__'' = Some (vstr t)"

fun is_split_grid :: "val \<Rightarrow> bool" where
  "is_split_grid (VDict d) =
     (has_tag d ''split_grid''
      \<and> (case shape_of d of Some ns \<Rightarrow> length ns = 1 \<or> length ns = 2 | None \<Rightarrow> False)
      \<and> (is_bytes (field d ''buffer'') \<or> is_text (field d ''b64'')))"
| "is_split_grid v = False"

subsection \<open>Unpacking\<close>

fun falsy :: "val \<Rightarrow> bool" where
  "falsy VNone = True"
| "falsy (VBool b) = (\<not> b)"
| "falsy (VInt i) = (i = 0)"
| "falsy (VFloat d) = is_zero d"
| "falsy (VStr s) = (s = [])"
| "falsy (VBytes b) = (b = [])"
| "falsy (VList xs) = (xs = [])"
| "falsy (VTuple xs) = (xs = [])"
| "falsy (VDict d) = (d = [])"
| "falsy (VObj ob) = False"

text \<open>\<open>{int(k): v for k, v in raw_strings.items()}\<close>.\<close>

fun int_keys :: "(key \<times> val) list \<Rightarrow> (int \<times> val) list \<Rightarrow> codec_error + (int \<times> val) list" where
  "int_keys [] acc = Inr acc"
| "int_keys ((KInt i, v) # d) acc = int_keys d (AList.update i v acc)"
| "int_keys ((KStr s, v) # d) acc =
     (case parse_int s of None \<Rightarrow> Inl ValueErr | Some i \<Rightarrow> int_keys d (AList.update i v acc))"

definition wire_strings :: "(key \<times> val) list \<Rightarrow> codec_error + (int \<times> val) list" where
  "wire_strings d =
     (case field d ''strings'' of
        None \<Rightarrow> Inr []
      | Some v \<Rightarrow> if falsy v then Inr [] else case v of VDict t \<Rightarrow> int_keys t [] | _ \<Rightarrow> Inl AttributeErr)"

definition kind_name :: "val \<Rightarrow> string" where
  "kind_name v = (if v = vstr ''int'' then ''int'' else if v = vstr ''bool'' then ''bool'' else ''float'')"

definition envelope_column_kinds :: "(key \<times> val) list \<Rightarrow> nat \<Rightarrow> string list" where
  "envelope_column_kinds d ncols =
     (case field d ''column_kinds'' of
        Some (VList ks) \<Rightarrow> if length ks = ncols then map kind_name ks else replicate ncols ''float''
      | _ \<Rightarrow> replicate ncols ''float'')"

definition uniform_column_kind :: "string list \<Rightarrow> string option" where
  "uniform_column_kind ks = (case ks of [] \<Rightarrow> None | k # _ \<Rightarrow> if list_all (\<lambda>x. x = k) ks then Some k else None)"

fun traverse :: "('a \<Rightarrow> 'e + 'b) \<Rightarrow> 'a list \<Rightarrow> 'e + 'b list" where
  "traverse f [] = Inr []"
| "traverse f (x # xs) =
     (case f x of Inl e \<Rightarrow> Inl e | Inr y \<Rightarrow> (case traverse f xs of Inl e \<Rightarrow> Inl e | Inr ys \<Rightarrow> Inr (y # ys)))"

definition int_cell :: "double \<Rightarrow> codec_error + val" where
  "int_cell d = (case int_of_float d of Some i \<Rightarrow> Inr (VInt i) | None \<Rightarrow> Inl (if is_nan d then ValueErr else OverflowErr))"

definition uniform_cell :: "string \<Rightarrow> double \<Rightarrow> codec_error + val" where
  "uniform_cell k d =
     (if k = ''int'' then if is_nan d then Inr (VFloat nan) else int_cell d
      else if k = ''bool'' then Inr (if is_nan d then VFloat nan else VBool (d = one_double))
      else Inr (VFloat d))"

definition mixed_cell :: "(int \<times> val) list \<Rightarrow> string \<Rightarrow> nat \<Rightarrow> double \<Rightarrow> codec_error + val" where
  "mixed_cell texts k i d =
     (case map_of texts (int i) of
        Some v \<Rightarrow> Inr v
      | None \<Rightarrow>
          if is_nan d then Inr (VFloat d)
          else if k = ''bool'' \<and> d = one_double then Inr (VBool True)
          else if k = ''bool'' \<and> is_zero d then Inr (VBool False)
          else if k = ''int'' then int_cell d
          else Inr (VFloat d))"

definition wire_buffer :: "conversions \<Rightarrow> (key \<times> val) list \<Rightarrow> codec_error + double list" where
  "wire_buffer P d =
     (let decode = (\<lambda>b. case from_bytes b of None \<Rightarrow> Inl ValueErr | Some ds \<Rightarrow> Inr ds)
      in case field d ''buffer'' of
          Some (VBytes b) \<Rightarrow> decode b
        | Some v \<Rightarrow> Inl TypeErr
        | None \<Rightarrow>
            case field d ''b64'' of
              Some (VStr s) \<Rightarrow> (case b64decode P s of Inl e \<Rightarrow> Inl e | Inr b \<Rightarrow> decode b)
            | Some v \<Rightarrow> Inl AttributeErr
            | None \<Rightarrow> Inl ValueErr)"

definition enumerated :: "'a list \<Rightarrow> (nat \<times> 'a) list" where
  "enumerated xs = zip [0 ..< length xs] xs"

definition unpack_cells :: "(int \<times> val) list \<Rightarrow> string list \<Rightarrow> bool \<Rightarrow> nat \<Rightarrow> double list \<Rightarrow> codec_error + val list" where
  "unpack_cells texts kinds is_1d ncols ds =
     (case (texts, uniform_column_kind kinds) of
        ([], Some k) \<Rightarrow> traverse (uniform_cell k) ds
      | _ \<Rightarrow>
          if \<not> is_1d \<and> ncols = 0 \<and> ds \<noteq> [] then Inl ZeroDivisionErr
          else traverse (\<lambda>(i, d). mixed_cell texts (kinds ! (if is_1d then 0 else i mod ncols)) i d) (enumerated ds))"

text \<open>\<open>host_unpack_split_grid\<close>, for an envelope that \<open>is_split_grid\<close> accepts.\<close>

definition host_unpack_split_grid :: "conversions \<Rightarrow> bool \<Rightarrow> (key \<times> val) list \<Rightarrow> codec_error + val list" where
  "host_unpack_split_grid P as_nested d =
     (case wire_buffer P d of
        Inl e \<Rightarrow> Inl e
      | Inr ds \<Rightarrow>
          case shape_of d of
            None \<Rightarrow> Inl KeyErr
          | Some shape \<Rightarrow>
              let is_1d = (length shape = 1);
                  nrows = hd shape;
                  ncols = (if is_1d then 1 else shape ! 1)
              in case wire_strings d of
                   Inl e \<Rightarrow> Inl e
                 | Inr texts \<Rightarrow>
                     case unpack_cells texts (envelope_column_kinds d ncols) is_1d ncols ds of
                       Inl e \<Rightarrow> Inl e
                     | Inr cells \<Rightarrow>
                         Inr (if \<not> as_nested \<or> is_1d then cells
                              else map (\<lambda>r. VList (slice (r * ncols) ((r + 1) * ncols) cells)) [0 ..< nrows]))"

subsection \<open>The compiled flattening\<close>

text \<open>\<open>pack.pyx\<close>. A conversion that fails leaves the function: \<open>PyFloat_AsDouble\<close> is declared with an error
  value, so that the caller falls back to the pass above.\<close>

fun fast_upgraded :: "val \<Rightarrow> nat \<Rightarrow> nat" where
  "fast_upgraded (VFloat d) st = 3"
| "fast_upgraded (VBool b) st = (if st = 3 then 3 else as_bool st)"
| "fast_upgraded (VInt i) st = (if st = 3 then 3 else as_int st)"
| "fast_upgraded (VObj ob) st =
     (if st = 3 then 3
      else case dtype_kind ob of
        Some k \<Rightarrow>
          if k = Some ''f'' then 3
          else if k = Some ''i'' \<or> k = Some ''u'' then as_int st
          else if k = Some ''b'' then as_bool st
          else 3
      | None \<Rightarrow> 3)"
| "fast_upgraded v st = 3"

fun fast_cell :: "conversions \<Rightarrow> nat \<Rightarrow> nat \<Rightarrow> val \<Rightarrow> flat \<Rightarrow> codec_error + flat" where
  "fast_cell P c idx VNone s = Inr (put_none c s)"
| "fast_cell P c idx (VStr t) s = Inr (put_text idx t (seen_text s))"
| "fast_cell P c idx v s = put_float_of P v c (fast_upgraded v) s"

fun fast_pass :: "conversions \<Rightarrow> (nat \<times> nat \<times> val) list \<Rightarrow> flat \<Rightarrow> codec_error + flat" where
  "fast_pass P [] s = Inr s"
| "fast_pass P ((c, idx, v) # cells) s =
     (case fast_cell P c idx v s of Inl e \<Rightarrow> Inl e | Inr s' \<Rightarrow> fast_pass P cells s')"

text \<open>The numbers of rows and cells are C integers of 32 bits without a check of overflow: beyond them the function
  writes outside its buffer or leaves rows out. \<open>WrappedCount\<close> stands for that; it is no exception, so nothing falls
  back on the pass above. The number of columns is converted from a Python integer, which raises \<open>OverflowError\<close>.\<close>

definition c_int_limit :: nat where
  "c_int_limit = 2 ^ 31"

definition fast_flatten_grid :: "conversions \<Rightarrow> val list \<Rightarrow> codec_error + components" where
  "fast_flatten_grid P grid =
     (if is_2d grid
      then case rows_of grid of
          None \<Rightarrow> Inl TypeErr
        | Some rows \<Rightarrow>
            let n = length (hd rows)
            in if c_int_limit \<le> n then Inl OverflowErr
               else if c_int_limit \<le> length rows \<or> c_int_limit \<le> length rows * n then Inl WrappedCount
               else if list_all (\<lambda>r. length r = n) rows
               then components_of n [length rows, n] (fast_pass P (iter_rows 0 rows) (flat_init n))
               else Inl ValueErr
      else if c_int_limit \<le> length grid then Inl WrappedCount
      else components_of 1 [length grid] (fast_pass P (iter_flat 0 grid) (flat_init 1)))"

text \<open>\<open>_flatten_grid_to_components\<close> with the accelerator loaded.\<close>

definition accelerated_grid :: "conversions \<Rightarrow> val list \<Rightarrow> codec_error + components" where
  "accelerated_grid P grid =
     (if grid = [] then Inr ([], [], [], [0])
      else case fast_flatten_grid P grid of
             Inr r \<Rightarrow> Inr r
           | Inl e \<Rightarrow> if e = WrappedCount then Inl e else flatten_grid P grid)"

subsection \<open>Plain cells\<close>

text \<open>The cells a Calc range holds: nothing, truth values, numbers and texts.\<close>

fun plain :: "val \<Rightarrow> bool" where
  "plain VNone = True"
| "plain (VBool b) = True"
| "plain (VInt i) = (float_of_int i \<noteq> None)"
| "plain (VFloat d) = True"
| "plain (VStr s) = True"
| "plain v = False"

fun cell_double :: "val \<Rightarrow> double" where
  "cell_double (VBool b) = (if b then one_double else 0)"
| "cell_double (VInt i) = the (float_of_int i)"
| "cell_double (VFloat d) = d"
| "cell_double v = nan"

fun rank :: "val \<Rightarrow> nat" where
  "rank (VBool b) = 1" | "rank (VInt i) = 2" | "rank (VFloat d) = 3" | "rank v = 0"

definition plain_step :: "nat \<times> nat \<times> val \<Rightarrow> flat \<Rightarrow> flat" where
  "plain_step x s = (case x of (c, idx, v) \<Rightarrow>
     s\<lparr>buf := buf s @ [cell_double v],
       strings := (case v of VStr t \<Rightarrow> AList.update idx t (strings s) | _ \<Rightarrow> strings s),
       col_states := (col_states s)[c := max (col_states s ! c) (rank v)],
       col_none := (if v = VNone then (col_none s)[c := True] else col_none s),
       non_numeric := (case v of VStr t \<Rightarrow> True | _ \<Rightarrow> non_numeric s)\<rparr>)"

lemma as_max: "as_bool st = max st 1" "as_int st = max st 2"
  by (simp_all add: as_bool_def as_int_def)

lemma float_of_plain: "plain v \<Longrightarrow> rank v \<noteq> 0 \<Longrightarrow> float_of P v = Inr (cell_double v)"
  by (cases v) (auto split: option.splits)

lemma capped: "(if st = 3 then 3 else max st 1) = max st (1 :: nat)" "(if st = 3 then 3 else max st 2) = max st (2 :: nat)"
  by simp_all

lemmas put_defs = put_number_def put_none_def put_text_def put_float_of_def plain_step_def seen_text_def as_max

lemma flatten_cell_plain:
  assumes "plain v" and "col_states s ! c \<le> 3"
  shows "flatten_cell P c idx v s = Inr (plain_step (c, idx, v) s)"
  using assms float_of_plain [OF assms(1), of P]
  by (cases v) (auto simp: put_defs max_absorb2 capped)

lemma fast_cell_plain:
  assumes "plain v" and "col_states s ! c \<le> 3"
  shows "fast_cell P c idx v s = Inr (plain_step (c, idx, v) s)"
  using assms float_of_plain [OF assms(1), of P]
  by (cases v) (auto simp: put_defs max_absorb2 capped)

definition states_ok :: "nat \<Rightarrow> flat \<Rightarrow> bool" where
  "states_ok n s \<longleftrightarrow> length (col_states s) = n \<and> length (col_none s) = n \<and> list_all (\<lambda>st. st \<le> 3) (col_states s)"

lemma rank_le: "rank v \<le> 3"
  by (cases v) simp_all

lemma plain_step_ok: "states_ok n s \<Longrightarrow> c < n \<Longrightarrow> states_ok n (plain_step (c, i, v) s)"
  using rank_le [of v] by (auto simp: states_ok_def plain_step_def list_all_length nth_list_update)

lemma passes_plain:
  "states_ok n s \<Longrightarrow> list_all (\<lambda>(c, i, v). c < n \<and> plain v) cells \<Longrightarrow>
     flatten_pass P cells s = Inr (fold plain_step cells s) \<and> fast_pass P cells s = Inr (fold plain_step cells s)"
proof (induction cells arbitrary: s)
  case (Cons x cells)
  obtain c i v where x: "x = (c, i, v)" by (cases x)
  with Cons.prems have cv: "c < n" "plain v" by simp_all
  then have "col_states s ! c \<le> 3" "states_ok n (plain_step x s)"
    using Cons.prems(1) plain_step_ok [OF Cons.prems(1) cv(1)] by (auto simp: x states_ok_def list_all_length)
  then show ?case using Cons.IH [of "plain_step x s"] Cons.prems cv
    by (simp add: x flatten_cell_plain fast_cell_plain)
qed simp

text \<open>What a pass leaves behind.\<close>

fun texts_of :: "(nat \<times> nat \<times> val) list \<Rightarrow> (nat \<times> pystr) list" where
  "texts_of [] = []"
| "texts_of ((c, i, v) # cells) = (case v of VStr t \<Rightarrow> (i, t) # texts_of cells | _ \<Rightarrow> texts_of cells)"

definition in_column :: "nat \<Rightarrow> (nat \<times> nat \<times> val) list \<Rightarrow> val list" where
  "in_column c cells = map (\<lambda>x. snd (snd x)) (filter (\<lambda>x. fst x = c) cells)"

lemma update_new: "k \<notin> fst ` set al \<Longrightarrow> AList.update k v al = al @ [(k, v)]"
  by (induction al) auto

lemma fold_plain_buf: "buf (fold plain_step cells s) = buf s @ map (\<lambda>x. cell_double (snd (snd x))) cells"
  by (induction cells arbitrary: s) (auto simp: plain_step_def split: prod.split)

lemma fold_plain_strings:
  "distinct (map fst (strings s) @ map (\<lambda>x. fst (snd x)) cells) \<Longrightarrow>
     strings (fold plain_step cells s) = strings s @ texts_of cells"
proof (induction cells arbitrary: s)
  case (Cons x cells)
  obtain c i v where x: "x = (c, i, v)" by (cases x)
  have new: "i \<notin> fst ` set (strings s)" using Cons.prems by (simp add: x)
  have "distinct (map fst (strings (plain_step x s)) @ map (\<lambda>x. fst (snd x)) cells)"
    using Cons.prems by (auto simp: x plain_step_def update_new [OF new] split: val.split)
  from Cons.IH [OF this] show ?case
    by (cases v) (simp_all add: x plain_step_def update_new [OF new])
qed simp

lemma fold_plain_none:
  "c < length (col_none s) \<Longrightarrow> col_none (fold plain_step cells s) ! c \<longleftrightarrow> col_none s ! c \<or> VNone \<in> set (in_column c cells)"
proof (induction cells arbitrary: s)
  case (Cons x cells)
  obtain c' i v where x: "x = (c', i, v)" by (cases x)
  show ?case using Cons.prems Cons.IH [of "plain_step x s"]
    by (cases "v = VNone"; cases "c' = c") (auto simp: x plain_step_def in_column_def nth_list_update)
qed (simp add: in_column_def)

lemma fold_plain_states:
  "c < length (col_states s) \<Longrightarrow>
     col_states (fold plain_step cells s) ! c = fold max (map rank (in_column c cells)) (col_states s ! c)"
proof (induction cells arbitrary: s)
  case (Cons x cells)
  obtain c' i v where x: "x = (c', i, v)" by (cases x)
  show ?case using Cons.prems Cons.IH [of "plain_step x s"]
    by (cases "c' = c") (auto simp: x plain_step_def in_column_def nth_list_update max.commute)
qed (simp add: in_column_def)

lemma fold_max_le: "fold max xs (a :: nat) \<le> b \<longleftrightarrow> a \<le> b \<and> (\<forall>x \<in> set xs. x \<le> b)"
  by (induction xs arbitrary: a) auto

text \<open>The kind of a column, from its cells and whether the table has texts.\<close>

definition column_kind :: "bool \<Rightarrow> val list \<Rightarrow> string" where
  "column_kind texts vs =
     (if \<not> texts \<and> VNone \<in> set vs then ''float''
      else if \<exists>v \<in> set vs. rank v = 3 then ''float''
      else if \<exists>v \<in> set vs. rank v = 2 then ''int''
      else if \<exists>v \<in> set vs. rank v = 1 then ''bool''
      else ''int'')"

lemma fold_rank_kind:
  "(if fold max (map rank vs) 0 = 3 then ''float'' else if fold max (map rank vs) 0 = 1 then ''bool'' else ''int'')
     = column_kind True vs"
proof -
  let ?m = "fold max (map rank vs) 0"
  have le: "?m \<le> b \<longleftrightarrow> (\<forall>v \<in> set vs. rank v \<le> b)" for b
    using fold_max_le [of "map rank vs" 0 b] by simp
  have three: "?m = 3 \<longleftrightarrow> (\<exists>v \<in> set vs. rank v = 3)"
  proof -
    have "?m = 3 \<longleftrightarrow> \<not> ?m \<le> 2" using le [of 3] rank_le by auto
    also have "\<dots> \<longleftrightarrow> (\<exists>v \<in> set vs. \<not> rank v \<le> 2)" using le by auto
    also have "\<dots> \<longleftrightarrow> (\<exists>v \<in> set vs. rank v = 3)"
      using rank_le by (intro bex_cong refl) (metis le_antisym not_less_eq_eq numeral_2_eq_2 numeral_3_eq_3 Suc_n_not_le_n)
    finally show ?thesis .
  qed
  have one: "?m = 1 \<longleftrightarrow> (\<forall>v \<in> set vs. rank v \<le> 1) \<and> (\<exists>v \<in> set vs. rank v = 1)"
  proof -
    have "?m = 1 \<longleftrightarrow> ?m \<le> 1 \<and> \<not> ?m \<le> 0" by auto
    then show ?thesis unfolding le by (auto simp: le_Suc_eq)
  qed
  have two: "(\<forall>v \<in> set vs. rank v \<le> 1) \<longleftrightarrow> \<not> (\<exists>v \<in> set vs. rank v = 3) \<and> \<not> (\<exists>v \<in> set vs. rank v = 2)"
  proof -
    have "rank v \<le> 1 \<longleftrightarrow> rank v \<noteq> 3 \<and> rank v \<noteq> 2" for v by (cases v) simp_all
    then show ?thesis by auto
  qed
  show ?thesis unfolding column_kind_def three one two by auto
qed

subsection \<open>Walking a table\<close>

fun texts_from :: "nat \<Rightarrow> val list \<Rightarrow> (nat \<times> pystr) list" where
  "texts_from i [] = []"
| "texts_from i (v # vs) = (case v of VStr t \<Rightarrow> (i, t) # texts_from (Suc i) vs | _ \<Rightarrow> texts_from (Suc i) vs)"

lemma texts_of_append: "texts_of (xs @ ys) = texts_of xs @ texts_of ys"
  by (induction xs rule: texts_of.induct) (auto split: val.split)

lemma texts_from_append: "texts_from i (vs @ ws) = texts_from i vs @ texts_from (i + length vs) ws"
  by (induction vs arbitrary: i) (auto split: val.split)

lemma row_cells_eq: "row_cells c i vs = map (\<lambda>j. (c + j, i + j, vs ! j)) [0 ..< length vs]"
  by (induction vs arbitrary: c i) (simp_all add: upt_conv_Cons map_Suc_upt [symmetric] del: upt_Suc map_Suc_upt)

lemma row_cells_texts: "texts_of (row_cells c i vs) = texts_from i vs"
  by (induction vs arbitrary: c i) (auto split: val.split)

lemma iter_rows_texts: "texts_of (iter_rows i rows) = texts_from i (concat rows)"
  by (induction rows arbitrary: i) (simp_all add: texts_of_append texts_from_append row_cells_texts)

lemma iter_flat_texts: "texts_of (iter_flat i vs) = texts_from i vs"
  by (induction vs arbitrary: i) (auto split: val.split)

lemma row_cells_vals: "map (\<lambda>x. snd (snd x)) (row_cells c i vs) = vs"
  by (induction vs arbitrary: c i) simp_all

lemma iter_rows_vals: "map (\<lambda>x. snd (snd x)) (iter_rows i rows) = concat rows"
  by (induction rows arbitrary: i) (simp_all add: row_cells_vals)

lemma iter_flat_vals: "map (\<lambda>x. snd (snd x)) (iter_flat i vs) = vs"
  by (induction vs arbitrary: i) simp_all

lemma upt_first: "[i ..< Suc (i + k)] = i # [Suc i ..< Suc (i + k)]"
  by (simp add: upt_conv_Cons del: upt_Suc)

lemma row_cells_idx: "map (\<lambda>x. fst (snd x)) (row_cells c i vs) = [i ..< i + length vs]"
  by (induction vs arbitrary: c i) (simp_all add: upt_first del: upt_Suc)

lemma iter_rows_idx: "map (\<lambda>x. fst (snd x)) (iter_rows i rows) = [i ..< i + length (concat rows)]"
proof (induction rows arbitrary: i)
  case (Cons r rows)
  then show ?case
    by (simp add: row_cells_idx add.assoc) (metis le_add1 add.assoc upt_add_eq_append)
qed simp

lemma iter_flat_idx: "map (\<lambda>x. fst (snd x)) (iter_flat i vs) = [i ..< i + length vs]"
  by (induction vs arbitrary: i) (simp_all add: upt_first del: upt_Suc)

lemma row_cells_column: "in_column k (row_cells c i vs) = (if c \<le> k \<and> k < c + length vs then [vs ! (k - c)] else [])"
proof -
  have "filter (\<lambda>x. fst x = k) (row_cells c i vs) =
      (if c \<le> k \<and> k < c + length vs then [(k, i + (k - c), vs ! (k - c))] else [])"
    by (induction vs arbitrary: c i) (auto simp: nth_Cons')
  then show ?thesis by (simp add: in_column_def)
qed

lemma iter_rows_column:
  "list_all (\<lambda>r. length r = n) rows \<Longrightarrow> k < n \<Longrightarrow> in_column k (iter_rows i rows) = map (\<lambda>r. r ! k) rows"
proof (induction rows arbitrary: i)
  case (Cons r rows)
  then show ?case using row_cells_column [of k 0 i r] by (simp add: in_column_def)
qed (simp add: in_column_def)

lemma iter_flat_column: "in_column 0 (iter_flat i vs) = vs"
  by (induction vs arbitrary: i) (simp_all add: in_column_def)

lemma iter_rows_all:
  "list_all (\<lambda>r. length r = n \<and> list_all p r) rows \<Longrightarrow> list_all (\<lambda>(c, i, v). c < n \<and> p v) (iter_rows i rows)"
proof (induction rows arbitrary: i)
  case (Cons r rows)
  then have "list_all (\<lambda>(c, i, v). c < n \<and> p v) (row_cells 0 i r)"
    by (auto simp: row_cells_eq list_all_length)
  then show ?case using Cons by simp
qed simp

lemma iter_flat_all: "list_all p vs \<Longrightarrow> list_all (\<lambda>(c, i, v). c < 1 \<and> p v) (iter_flat i vs)"
  by (induction vs arbitrary: i) simp_all

lemma texts_from_lookup:
  "map_of (map (\<lambda>(i, t). (int i, VStr t)) (texts_from k vs)) (int j) =
     (if k \<le> j \<and> j < k + length vs then case vs ! (j - k) of VStr t \<Rightarrow> Some (VStr t) | _ \<Rightarrow> None else None)"
proof (induction vs arbitrary: k)
  case (Cons v vs)
  have "Suc k \<le> j \<and> j < Suc k + length vs \<Longrightarrow> (v # vs) ! (j - k) = vs ! (j - Suc k)" by (simp add: nth_Cons')
  then show ?case using Cons.IH [of "Suc k"] by (cases v) (auto split: val.split)
qed auto

lemma texts_from_Nil: "texts_from i vs = [] \<longleftrightarrow> (\<forall>v \<in> set vs. \<not> is_text (Some v))"
  by (induction vs arbitrary: i) (auto split: val.splits)

lemma texts_from_distinct: "distinct (map fst (texts_from i vs)) \<and> (\<forall>x \<in> set (texts_from i vs). i \<le> fst x)"
proof (induction vs arbitrary: i)
  case (Cons v vs)
  then have "\<forall>x \<in> set (texts_from (Suc i) vs). Suc i \<le> fst x" "distinct (map fst (texts_from (Suc i) vs))" by auto
  then show ?case by (cases v) (auto dest: Suc_leD)
qed simp

subsection \<open>Flattening plain tables\<close>

definition has_text :: "val list \<Rightarrow> bool" where
  "has_text vs \<longleftrightarrow> (\<exists>v \<in> set vs. is_text (Some v))"

lemma flat_init_ok: "states_ok n (flat_init n)"
  by (simp add: states_ok_def flat_init_def list_all_length)

lemma kind_after:
  assumes "states_ok n s" and "c < n" and "col_states s ! c = 0" and "\<not> col_none s ! c"
    and "strings (fold plain_step cells s) = [] \<longleftrightarrow> \<not> texts"
  shows "kind_of_state (fold plain_step cells s) c = column_kind texts (in_column c cells)"
proof -
  have "col_states (fold plain_step cells s) ! c = fold max (map rank (in_column c cells)) 0"
    "col_none (fold plain_step cells s) ! c \<longleftrightarrow> VNone \<in> set (in_column c cells)"
    using assms(1-4) by (simp_all add: fold_plain_states fold_plain_none states_ok_def)
  moreover have "column_kind texts vs = (if \<not> texts \<and> VNone \<in> set vs then ''float'' else column_kind True vs)" for vs
    by (simp add: column_kind_def)
  ultimately show ?thesis using assms(5) by (simp only: kind_of_state_def flip: fold_rank_kind)
qed

definition column_kinds :: "nat \<Rightarrow> val list list \<Rightarrow> string list" where
  "column_kinds n rows = map (\<lambda>c. column_kind (has_text (concat rows)) (map (\<lambda>r. r ! c) rows)) [0 ..< n]"

definition rectangle :: "nat \<Rightarrow> (val \<Rightarrow> bool) \<Rightarrow> val list list \<Rightarrow> bool" where
  "rectangle n p rows \<longleftrightarrow> rows \<noteq> [] \<and> list_all (\<lambda>r. length r = n \<and> list_all p r) rows"

lemma rows_of_lists [simp]: "rows_of (map VList rows) = Some rows"
  by (induction rows) simp_all

lemma components_of_pass:
  assumes "list_all (\<lambda>(c, i, v). c < n \<and> plain v) cells" and "distinct (map (\<lambda>x. fst (snd x)) cells)"
    and "vals = map (\<lambda>x. snd (snd x)) cells" and "texts_of cells = texts_from 0 vals"
  shows "components_of n shape (flatten_pass P cells (flat_init n)) = Inr (map cell_double vals, texts_from 0 vals,
       map (\<lambda>c. column_kind (has_text vals) (in_column c cells)) [0 ..< n], shape)"
    and "fast_pass P cells (flat_init n) = flatten_pass P cells (flat_init n)"
proof -
  let ?s = "fold plain_step cells (flat_init n)"
  have pass: "flatten_pass P cells (flat_init n) = Inr ?s" "fast_pass P cells (flat_init n) = Inr ?s"
    using passes_plain [OF flat_init_ok assms(1)] by simp_all
  have str: "strings ?s = texts_from 0 vals"
    using fold_plain_strings [of "flat_init n" cells] assms(2,4) by (simp add: flat_init_def)
  have b: "buf ?s = map cell_double vals" by (simp add: fold_plain_buf assms(3) flat_init_def comp_def)
  have "kind_of_state ?s c = column_kind (has_text vals) (in_column c cells)" if "c < n" for c
    by (rule kind_after [OF flat_init_ok that])
      (use that str in \<open>auto simp: flat_init_def texts_from_Nil has_text_def\<close>)
  then have "map (kind_of_state ?s) [0 ..< n] = map (\<lambda>c. column_kind (has_text vals) (in_column c cells)) [0 ..< n]"
    by simp
  then show "components_of n shape (flatten_pass P cells (flat_init n)) = Inr (map cell_double vals, texts_from 0 vals,
       map (\<lambda>c. column_kind (has_text vals) (in_column c cells)) [0 ..< n], shape)"
    unfolding components_of_def pass sum.case b str by simp
  show "fast_pass P cells (flat_init n) = flatten_pass P cells (flat_init n)" using pass by simp
qed

lemma flatten_rectangle:
  assumes "rectangle n plain rows"
  shows "flatten_grid P (map VList rows) =
       Inr (map cell_double (concat rows), texts_from 0 (concat rows), column_kinds n rows, [length rows, n])"
    and "length rows < c_int_limit \<Longrightarrow> length rows * n < c_int_limit \<Longrightarrow>
       fast_flatten_grid P (map VList rows) = flatten_grid P (map VList rows)"
proof -
  have all: "list_all (\<lambda>r. length r = n) rows" "length (hd rows) = n" "rows \<noteq> []"
    using assms by (auto simp: rectangle_def list_all_iff)
  have two: "is_2d (map VList rows)" using all(3) by (cases rows) (simp_all add: is_2d_def)
  have cells: "list_all (\<lambda>(c, i, v). c < n \<and> plain v) (iter_rows 0 rows)"
    using assms iter_rows_all by (auto simp: rectangle_def)
  have dist: "distinct (map (\<lambda>x. fst (snd x)) (iter_rows 0 rows))" by (simp add: iter_rows_idx)
  note c = components_of_pass [OF cells dist iter_rows_vals [symmetric] iter_rows_texts]
  have "map (\<lambda>c. column_kind (has_text (concat rows)) (in_column c (iter_rows 0 rows))) [0 ..< n] = column_kinds n rows"
    using iter_rows_column [OF all(1)] by (simp add: column_kinds_def)
  then show "flatten_grid P (map VList rows) =
       Inr (map cell_double (concat rows), texts_from 0 (concat rows), column_kinds n rows, [length rows, n])"
    using all two c(1) [of "[length rows, n]" P] by (simp add: flatten_grid_def Let_def)
  show "fast_flatten_grid P (map VList rows) = flatten_grid P (map VList rows)"
    if "length rows < c_int_limit" "length rows * n < c_int_limit"
  proof -
    have "n \<le> length rows * n" using all(3) by (cases rows) simp_all
    then have "\<not> c_int_limit \<le> n" using that(2) by linarith
    then show ?thesis using all two c(2) [of P] that by (simp add: flatten_grid_def fast_flatten_grid_def Let_def)
  qed
qed

lemma flatten_flat:
  assumes "list_all plain vs" and "vs \<noteq> []"
  shows "flatten_grid P vs = Inr (map cell_double vs, texts_from 0 vs, [column_kind (has_text vs) vs], [length vs])"
    and "length vs < c_int_limit \<Longrightarrow> fast_flatten_grid P vs = flatten_grid P vs"
proof -
  have one: "\<not> is_2d vs" using assms by (cases vs; cases "hd vs") (simp_all add: is_2d_def)
  have cells: "list_all (\<lambda>(c, i, v). c < 1 \<and> plain v) (iter_flat 0 vs)" using iter_flat_all [OF assms(1)] .
  have dist: "distinct (map (\<lambda>x. fst (snd x)) (iter_flat 0 vs))" by (simp add: iter_flat_idx)
  note c = components_of_pass [OF cells dist iter_flat_vals [symmetric] iter_flat_texts]
  show "flatten_grid P vs = Inr (map cell_double vs, texts_from 0 vs, [column_kind (has_text vs) vs], [length vs])"
    using one assms(2) c(1) [of "[length vs]" P] by (simp add: flatten_grid_def iter_flat_column)
  show "fast_flatten_grid P vs = flatten_grid P vs" if "length vs < c_int_limit"
    using that
    using one assms(2) c(2) [of P] by (simp add: flatten_grid_def fast_flatten_grid_def)
qed

subsection \<open>Unpacking what was packed\<close>

text \<open>What becomes of a cell in a column of a kind.\<close>

fun decoded :: "string \<Rightarrow> val \<Rightarrow> val" where
  "decoded k VNone = VFloat nan"
| "decoded k (VBool b) =
     (if k = ''bool'' then VBool b else if k = ''int'' then VInt (if b then 1 else 0)
      else VFloat (if b then one_double else 0))"
| "decoded k (VInt i) = (if k = ''int'' then VInt i else VFloat (the (float_of_int i)))"
| "decoded k v = v"

text \<open>Integers that a double holds.\<close>

fun exact :: "val \<Rightarrow> bool" where
  "exact (VInt i) = (\<bar>i\<bar> \<le> 2 ^ 53)"
| "exact v = plain v"

lemma exact_int:
  assumes "\<bar>i\<bar> \<le> 2 ^ 53"
  shows "float_of_int i \<noteq> None" and "int_cell (the (float_of_int i)) = Inr (VInt i)" and "\<not> is_nan (the (float_of_int i))"
  using float_of_int_exact [OF assms] by (auto simp: int_cell_def)

lemma exact_plain: "exact v \<Longrightarrow> plain v"
  using exact_int(1) by (cases v) auto

lemma int_cell_bool: "int_cell one_double = Inr (VInt 1)" "int_cell 0 = Inr (VInt 0)"
  by (simp_all add: int_cell_def int_of_float_def exponent_def fraction_def negative_def one_double_def Let_def)

text \<open>Columns whose kind can hold the cell.\<close>

fun fits :: "string \<Rightarrow> val \<Rightarrow> bool" where
  "fits k (VFloat d) = (k = ''float'')"
| "fits k (VInt i) = (k \<noteq> ''bool'')"
| "fits k v = True"

lemma column_kind_fits: "v \<in> set vs \<Longrightarrow> fits (column_kind texts vs) v"
proof -
  assume v: "v \<in> set vs"
  have "column_kind texts vs = ''float''" if "rank v = 3"
    using v that unfolding column_kind_def by (metis (full_types))
  moreover have "column_kind texts vs \<noteq> ''bool''" if "rank v = 2"
  proof -
    have "\<exists>v \<in> set vs. rank v = 2" using v that by blast
    then show ?thesis by (simp add: column_kind_def)
  qed
  ultimately show ?thesis by (cases v) simp_all
qed

lemma one_not_zero: "one_double \<noteq> 0" "(0 = one_double) = False"
  by (simp_all add: one_double_def)

lemma uniform_decoded:
  "exact v \<Longrightarrow> fits k v \<Longrightarrow> \<not> is_text (Some v) \<Longrightarrow> uniform_cell k (cell_double v) = Inr (decoded k v)"
  using exact_int conversions int_cell_bool one_not_zero by (cases v) (auto simp: uniform_cell_def)

lemma mixed_decoded:
  assumes "exact v" and "fits k v" and "map_of texts (int i) = (case v of VStr t \<Rightarrow> Some (VStr t) | _ \<Rightarrow> None)"
  shows "mixed_cell texts k i (cell_double v) = Inr (decoded k v)"
  using assms exact_int conversions int_cell_bool one_not_zero by (cases v) (auto simp: mixed_cell_def)

lemma traverse_pointwise:
  "length xs = length ys \<Longrightarrow> (\<And>i. i < length xs \<Longrightarrow> f (xs ! i) = Inr (ys ! i)) \<Longrightarrow> traverse f xs = Inr ys"
proof (induction xs arbitrary: ys)
  case (Cons x xs)
  then obtain y ys' where ys: "ys = y # ys'" by (cases ys) auto
  have "f x = Inr y" using Cons.prems(2) [of 0] by (simp add: ys)
  moreover have "traverse f xs = Inr ys'"
    using Cons.IH [of ys'] Cons.prems(1) Cons.prems(2) [of "Suc _"] by (simp add: ys)
  ultimately show ?case by (simp add: ys)
qed simp

lemma unpack_decoded:
  assumes "list_all exact vs" and "length out = length vs" and "ncols = 0 \<Longrightarrow> is_1d \<or> vs = []"
    and "\<And>i. i < length vs \<Longrightarrow> fits (kinds ! (if is_1d then 0 else i mod ncols)) (vs ! i)
      \<and> out ! i = decoded (kinds ! (if is_1d then 0 else i mod ncols)) (vs ! i)
      \<and> kinds ! (if is_1d then 0 else i mod ncols) \<in> set kinds"
  shows "unpack_cells (map (\<lambda>(i, t). (int i, VStr t)) (texts_from 0 vs)) kinds is_1d ncols (map cell_double vs) = Inr out"
proof -
  let ?texts = "map (\<lambda>(i, t). (int i, VStr t)) (texts_from 0 vs)"
  let ?k = "\<lambda>i. kinds ! (if is_1d then 0 else i mod ncols)"
  have ex: "exact (vs ! i)" if "i < length vs" for i using assms(1) that by (simp add: list_all_length)
  have mixed: "traverse (\<lambda>(i, d). mixed_cell ?texts (?k i) i d) (enumerated (map cell_double vs)) = Inr out"
  proof (rule traverse_pointwise)
    show "(\<lambda>(i, d). mixed_cell ?texts (?k i) i d) (enumerated (map cell_double vs) ! i) = Inr (out ! i)"
      if "i < length (enumerated (map cell_double vs))" for i
    proof -
      have i: "i < length vs" using that by (simp add: enumerated_def)
      have "map_of ?texts (int i) = (case vs ! i of VStr t \<Rightarrow> Some (VStr t) | _ \<Rightarrow> None)"
        using texts_from_lookup [of 0 vs i] i by simp
      then show ?thesis using mixed_decoded [OF ex [OF i]] assms(4) [OF i] i by (simp add: enumerated_def)
    qed
  qed (simp add: enumerated_def assms(2))
  show ?thesis
  proof (cases "?texts = [] \<and> uniform_column_kind kinds \<noteq> None")
    case True
    then obtain k where k: "uniform_column_kind kinds = Some k" by blast
    have same: "x = k" if "x \<in> set kinds" for x
      using k that by (auto simp: uniform_column_kind_def list_all_iff split: list.splits if_splits)
    have "\<not> is_text (Some (vs ! i))" if "i < length vs" for i using True texts_from_Nil [of 0 vs] that by auto
    then have "uniform_cell k (map cell_double vs ! i) = Inr (out ! i)" if "i < length vs" for i
      using uniform_decoded [OF ex [OF that], of k] assms(4) [OF that] same [of "?k i"] that by simp
    then have "traverse (uniform_cell k) (map cell_double vs) = Inr out"
      by (intro traverse_pointwise) (simp_all add: assms(2))
    then show ?thesis using True k by (simp add: unpack_cells_def)
  next
    case False
    then have "unpack_cells ?texts kinds is_1d ncols (map cell_double vs) =
        (if \<not> is_1d \<and> ncols = 0 \<and> map cell_double vs \<noteq> [] then Inl ZeroDivisionErr
         else traverse (\<lambda>(i, d). mixed_cell ?texts (?k i) i d) (enumerated (map cell_double vs)))"
      by (auto simp: unpack_cells_def split: list.split option.split)
    then show ?thesis using mixed assms(3) by auto
  qed
qed


lemma concat_uniform:
  assumes "list_all (\<lambda>r. length r = n) rows"
  shows "length (concat rows) = length rows * n"
    and "i < length rows * n \<Longrightarrow> concat rows ! i = rows ! (i div n) ! (i mod n) \<and> i div n < length rows \<and> i mod n < n"
    and "i < length rows \<Longrightarrow> slice (i * n) ((i + 1) * n) (concat rows) = rows ! i"
  using assms
proof (induction rows arbitrary: i)
  case (Cons x rows)
  case 1
  then show ?case using Cons by simp
next
  case (Cons x rows)
  case 2
  have n: "0 < n" using 2 by (cases n) auto
  have x: "length x = n" using 2 by simp
  show ?case
  proof (cases "i < n")
    case True
    then show ?thesis using x by (simp add: nth_append)
  next
    case False
    then have "i - n < length rows * n" using 2 by auto
    then have "concat rows ! (i - n) = rows ! ((i - n) div n) ! ((i - n) mod n) \<and> (i - n) div n < length rows"
      using Cons.IH(2) [of "i - n"] 2 by simp
    then show ?thesis using False x n by (simp add: nth_append le_div_geq le_mod_geq not_less)
  qed
next
  case (Cons x rows)
  case 3
  then show ?case using Cons.IH(3) [of "i - 1"]
    by (cases i) (simp_all add: slice_def algebra_simps)
qed simp_all

text \<open>Reading the envelope back.\<close>

definition envelope_fields :: "string list \<Rightarrow> nat list \<Rightarrow> (nat \<times> pystr) list \<Rightarrow> byte list \<Rightarrow> (key \<times> val) list" where
  "envelope_fields kinds shape texts bytes = (case split_envelope kinds shape texts bytes of VDict d \<Rightarrow> d | _ \<Rightarrow> [])"

lemma split_envelope_fields: "split_envelope kinds shape texts bytes = VDict (envelope_fields kinds shape texts bytes)"
  by (simp add: envelope_fields_def split_envelope_def)

lemma nats_of_ints [simp]: "nats_of (map (\<lambda>n. VInt (int n)) ns) = Some ns"
  by (induction ns) simp_all

lemma fields:
  "field (envelope_fields kinds shape texts bytes) ''__wa_payload__'' = Some (vstr ''split_grid'')"
  "field (envelope_fields kinds shape texts bytes) ''column_kinds'' = Some (VList (map vstr kinds))"
  "field (envelope_fields kinds shape texts bytes) ''shape'' = Some (VList (map (\<lambda>n. VInt (int n)) shape))"
  "field (envelope_fields kinds shape texts bytes) ''strings'' = Some (VDict (map (\<lambda>(i, t). (KInt (int i), VStr t)) texts))"
  "field (envelope_fields kinds shape texts bytes) ''buffer'' = Some (VBytes bytes)"
  by (simp_all add: envelope_fields_def split_envelope_def field_def entry_def)

lemma int_keys_new:
  "distinct (map fst acc @ map (int \<circ> fst) texts) \<Longrightarrow>
     int_keys (map (\<lambda>(i, t). (KInt (int i), VStr t)) texts) acc = Inr (acc @ map (\<lambda>(i, t). (int i, VStr t)) texts)"
proof (induction texts arbitrary: acc)
  case (Cons x texts)
  obtain i t where x: "x = (i, t)" by (cases x)
  have "int i \<notin> fst ` set acc" using Cons.prems by (auto simp: x)
  then show ?case using Cons.IH [of "acc @ [(int i, VStr t)]"] Cons.prems by (simp add: x update_new)
qed simp

lemma wire_strings_fields:
  "distinct (map fst texts) \<Longrightarrow> wire_strings (envelope_fields kinds shape texts bytes) = Inr (map (\<lambda>(i, t). (int i, VStr t)) texts)"
proof -
  assume "distinct (map fst texts)"
  then have "distinct (map (int \<circ> fst) texts)" by (simp add: distinct_map inj_on_def)
  with int_keys_new [of "[]" texts] show ?thesis by (cases "texts = []") (simp_all add: wire_strings_def fields)
qed

lemma kind_name_vstr: "k \<in> {''int'', ''bool'', ''float''} \<Longrightarrow> kind_name (vstr k) = k"
  by (auto simp: kind_name_def vstr_def)

lemma envelope_kinds:
  assumes "set kinds \<subseteq> {''int'', ''bool'', ''float''}" and "length kinds = n"
  shows "envelope_column_kinds (envelope_fields kinds shape texts bytes) n = kinds"
proof -
  have "map (kind_name \<circ> vstr) kinds = kinds" using assms(1) by (intro map_idI) (auto simp: kind_name_vstr)
  then show ?thesis using assms(2) by (simp add: envelope_column_kinds_def fields)
qed

lemma column_kind_cases: "column_kind texts vs \<in> {''int'', ''bool'', ''float''}"
  by (simp add: column_kind_def)

text \<open>The envelope of cells, kinds and shape, unpacked.\<close>

lemma unpack_packed:
  assumes "set kinds \<subseteq> {''int'', ''bool'', ''float''}"
    and "length kinds = (if length shape = 1 then 1 else shape ! 1)" and "length shape = 1 \<or> length shape = 2"
    and "list_all exact vs" and "length out = length vs" and "length shape = 2 \<Longrightarrow> shape ! 1 = 0 \<Longrightarrow> vs = []"
    and "\<And>i. i < length vs \<Longrightarrow>
      (let k = kinds ! (if length shape = 1 then 0 else i mod shape ! 1) in fits k (vs ! i) \<and> out ! i = decoded k (vs ! i) \<and> k \<in> set kinds)"
  shows "is_split_grid (VDict (envelope_fields kinds shape (texts_from 0 vs) (to_bytes (map cell_double vs))))"
    and "host_unpack_split_grid P True (envelope_fields kinds shape (texts_from 0 vs) (to_bytes (map cell_double vs))) =
      Inr (if length shape = 1 then out
           else map (\<lambda>r. VList (slice (r * shape ! 1) ((r + 1) * shape ! 1) out)) [0 ..< shape ! 0])"
proof -
  let ?d = "envelope_fields kinds shape (texts_from 0 vs) (to_bytes (map cell_double vs))"
  define one where "one \<longleftrightarrow> length shape = 1"
  define n where "n = (if one then 1 else shape ! 1)"
  have sh: "shape_of ?d = Some shape" by (simp add: shape_of_def fields)
  show "is_split_grid (VDict ?d)" using assms(3) by (auto simp: has_tag_def fields sh)
  have b: "wire_buffer P ?d = Inr (map cell_double vs)" by (simp add: wire_buffer_def fields)
  have t: "wire_strings ?d = Inr (map (\<lambda>(i, t). (int i, VStr t)) (texts_from 0 vs))"
    using wire_strings_fields texts_from_distinct by blast
  have k: "envelope_column_kinds ?d n = kinds" using envelope_kinds assms(1,2) by (simp add: n_def one_def)
  have u: "unpack_cells (map (\<lambda>(i, t). (int i, VStr t)) (texts_from 0 vs)) kinds one n (map cell_double vs) = Inr out"
    using assms(3-7) by (intro unpack_decoded) (auto simp: Let_def n_def one_def split: if_splits)
  have hd: "hd shape = shape ! 0" using assms(3) by (cases shape) auto
  have "host_unpack_split_grid P True ?d =
      Inr (if \<not> True \<or> one then out else map (\<lambda>r. VList (slice (r * n) ((r + 1) * n) out)) [0 ..< shape ! 0])"
    unfolding host_unpack_split_grid_def b sum.case sh option.case t Let_def
    by (simp only: one_def [symmetric] n_def [symmetric] k u sum.case hd)
  then show "host_unpack_split_grid P True ?d =
      Inr (if length shape = 1 then out
           else map (\<lambda>r. VList (slice (r * shape ! 1) ((r + 1) * shape ! 1) out)) [0 ..< shape ! 0])"
    by (simp add: one_def n_def)
qed

subsection \<open>Properties\<close>

lemma rectangle_mono: "rectangle n p rows \<Longrightarrow> (\<And>v. p v \<Longrightarrow> q v) \<Longrightarrow> rectangle n q rows"
  by (auto simp: rectangle_def list_all_iff)

lemma rectangle_lengths: "rectangle n p rows \<Longrightarrow> list_all (\<lambda>r. length r = n) rows"
  by (simp add: rectangle_def list_all_iff)

lemma column_kinds_facts:
  "set (column_kinds n rows) \<subseteq> {''int'', ''bool'', ''float''}" "length (column_kinds n rows) = n"
  using column_kind_cases by (auto simp: column_kinds_def)

lemma column_kinds_nth:
  "c < n \<Longrightarrow> column_kinds n rows ! c = column_kind (has_text (concat rows)) (map (\<lambda>r. r ! c) rows)"
  by (simp add: column_kinds_def)

lemma pack_rectangle:
  assumes "rectangle n plain rows"
  shows "host_pack_split_grid P (map VList rows) = Inr (VDict (envelope_fields (column_kinds n rows) [length rows, n]
       (texts_from 0 (concat rows)) (to_bytes (map cell_double (concat rows)))))"
  using assms flatten_rectangle(1) [OF assms, of P]
  by (auto simp: host_pack_split_grid_def split_envelope_fields rectangle_def)

lemma pack_unpack_rectangle:
  assumes "rectangle n exact rows"
  shows "is_split_grid (VDict (envelope_fields (column_kinds n rows) [length rows, n]
       (texts_from 0 (concat rows)) (to_bytes (map cell_double (concat rows)))))"
    and "host_unpack_split_grid P True (envelope_fields (column_kinds n rows) [length rows, n]
       (texts_from 0 (concat rows)) (to_bytes (map cell_double (concat rows))))
     = Inr (map (\<lambda>r. VList (map2 decoded (column_kinds n rows) r)) rows)"
proof -
  let ?ks = "column_kinds n rows" and ?shape = "[length rows, n]" and ?vs = "concat rows"
  let ?out = "map (map2 decoded ?ks) rows"
  have len: "list_all (\<lambda>r. length r = n) rows" "list_all (\<lambda>r. length r = n) ?out"
    using rectangle_lengths [OF assms] by (simp_all add: list_all_iff column_kinds_facts)
  note vs = concat_uniform [OF len(1)] and out = concat_uniform [OF len(2), unfolded length_map]
  have exact: "list_all exact ?vs" using assms by (auto simp: rectangle_def list_all_iff)
  have cell: "let k = ?ks ! (if length ?shape = 1 then 0 else i mod ?shape ! 1)
      in fits k (?vs ! i) \<and> concat ?out ! i = decoded k (?vs ! i) \<and> k \<in> set ?ks" if i: "i < length ?vs" for i
  proof -
    let ?r = "i div n" and ?c = "i mod n"
    have rc: "?vs ! i = rows ! ?r ! ?c" "concat ?out ! i = ?out ! ?r ! ?c" "?r < length rows" "?c < n"
      using vs(2) [of i] out(2) [of i] i vs(1) by simp_all
    have "rows ! ?r ! ?c \<in> set (map (\<lambda>r. r ! ?c) rows)" using rc(3) by auto
    then have "fits (?ks ! ?c) (rows ! ?r ! ?c)" using column_kind_fits by (simp only: column_kinds_nth [OF rc(4)])
    moreover have "length (rows ! ?r) = n" using len(1) rc(3) by (simp add: list_all_length)
    ultimately show ?thesis using rc by (simp add: column_kinds_facts)
  qed
  let ?d = "envelope_fields ?ks ?shape (texts_from 0 ?vs) (to_bytes (map cell_double ?vs))"
  have "length ?ks = (if length ?shape = 1 then 1 else ?shape ! 1)" "length ?shape = 1 \<or> length ?shape = 2"
    "length (concat ?out) = length ?vs" "length ?shape = 2 \<Longrightarrow> ?shape ! 1 = 0 \<Longrightarrow> ?vs = []"
    using vs(1) out(1) len(1) by (simp_all add: column_kinds_facts list_all_iff)
  note u = unpack_packed [OF column_kinds_facts(1) this(1,2) exact this(3,4) cell]
  show "is_split_grid (VDict ?d)" by (rule u(1))
  have "host_unpack_split_grid P True ?d =
      Inr (map (\<lambda>r. VList (slice (r * n) ((r + 1) * n) (concat ?out))) [0 ..< length rows])"
    using u(2) [of P] by simp
  also have "map (\<lambda>r. VList (slice (r * n) ((r + 1) * n) (concat ?out))) [0 ..< length rows] = map VList ?out"
    using out(3) by (intro nth_equalityI) simp_all
  finally show "host_unpack_split_grid P True ?d = Inr (map (\<lambda>r. VList (map2 decoded ?ks r)) rows)"
    by (simp add: comp_def)
qed

text \<open>A column holds one kind of cell, and no empty one.\<close>

definition typed :: "nat \<Rightarrow> val list list \<Rightarrow> bool" where
  "typed n rows \<longleftrightarrow> (\<forall>c < n. \<forall>r \<in> set rows. r ! c \<noteq> VNone \<and> rank (r ! c) = rank (hd rows ! c))"

lemma kind_of_typed:
  assumes "v \<in> set vs" and "\<forall>w \<in> set vs. w \<noteq> VNone \<and> rank w = rank v"
  shows "column_kind texts vs = (if rank v = 3 then ''float'' else if rank v = 2 then ''int'' else if rank v = 1 then ''bool'' else ''int'')"
proof -
  have n: "VNone \<notin> set vs" using assms(2) by blast
  have e: "(\<exists>w \<in> set vs. rank w = k) \<longleftrightarrow> rank v = k" for k using assms(1,2) by metis
  show ?thesis unfolding column_kind_def e using n by simp
qed

lemma decoded_typed:
  assumes "v \<in> set vs" and "\<forall>w \<in> set vs. w \<noteq> VNone \<and> rank w = rank v" and "exact v"
  shows "decoded (column_kind texts vs) v = v"
proof -
  have "v \<noteq> VNone" using assms(1,2) by blast
  then show ?thesis unfolding kind_of_typed [OF assms(1,2)] using assms(3) by (cases v) simp_all
qed

lemma typed_rows:
  assumes "rectangle n exact rows" and "typed n rows"
  shows "map (\<lambda>r. VList (map2 decoded (column_kinds n rows) r)) rows = map VList rows"
proof -
  have "map2 decoded (column_kinds n rows) r = r" if r: "r \<in> set rows" for r
  proof (rule nth_equalityI)
    have len: "length r = n" using assms(1) r by (auto simp: rectangle_def list_all_iff)
    then show "length (map2 decoded (column_kinds n rows) r) = length r" by (simp add: column_kinds_facts)
    show "map2 decoded (column_kinds n rows) r ! c = r ! c" if "c < length (map2 decoded (column_kinds n rows) r)" for c
    proof -
      have c: "c < n" using that by (simp add: column_kinds_facts)
      have e: "exact (r ! c)" using assms(1) r c len by (auto simp: rectangle_def list_all_iff)
      have same: "\<forall>w \<in> set (map (\<lambda>r. r ! c) rows). w \<noteq> VNone \<and> rank w = rank (r ! c)"
      proof
        fix w
        assume "w \<in> set (map (\<lambda>r. r ! c) rows)"
        then obtain r' where "r' \<in> set rows" "w = r' ! c" by auto
        moreover have h: "x \<in> set rows \<Longrightarrow> x ! c \<noteq> VNone \<and> rank (x ! c) = rank (hd rows ! c)" for x
          using assms(2) c by (simp only: typed_def) blast
        ultimately show "w \<noteq> VNone \<and> rank w = rank (r ! c)" using h [of r'] h [of r] r by simp
      qed
      have "r ! c \<in> set (map (\<lambda>r. r ! c) rows)" using r by simp
      from decoded_typed [OF this same e] have "decoded (column_kinds n rows ! c) (r ! c) = r ! c"
        by (simp only: column_kinds_nth [OF c])
      then show ?thesis using c len by (simp add: column_kinds_facts)
    qed
  qed
  then show ?thesis by simp
qed

text \<open>C31: A table of plain cells, its integers within \<open>2 ^ 53\<close>, is packed and unpacked column by column: texts come
  back as they are and every number and truth value in the kind of its column, which is \<open>bool\<close>, \<open>int\<close> or \<open>float\<close> by the
  widest cell of the column. An empty cell does not come back: it is NaN afterwards, in every table. So a table whose
  columns each hold one kind of cell and no empty one comes back as it was.\<close>

theorem split_grid_round_trip:
  assumes "rectangle n exact rows"
  shows "\<exists>d. host_pack_split_grid P (map VList rows) = Inr (VDict d) \<and> is_split_grid (VDict d)
     \<and> host_unpack_split_grid P True d = Inr (map (\<lambda>r. VList (map2 decoded (column_kinds n rows) r)) rows)
     \<and> (typed n rows \<longrightarrow> host_unpack_split_grid P True d = Inr (map VList rows))"
  using pack_unpack_rectangle [OF assms] pack_rectangle [OF rectangle_mono [OF assms exact_plain]] typed_rows [OF assms]
  by fastforce

text \<open>A table whose columns hold one kind of cell each comes back as it was.\<close>

theorem typed_grid_round_trip:
  assumes "rectangle n exact rows" and "typed n rows" and "host_pack_split_grid P (map VList rows) = Inr (VDict d)"
  shows "host_unpack_split_grid P True d = Inr (map VList rows)"
proof -
  have plain: "rectangle n plain rows" using rectangle_mono [OF assms(1)] exact_plain by blast
  show ?thesis
    using pack_unpack_rectangle(2) [OF assms(1), of P] pack_rectangle [OF plain, of P] assms(3)
    by (simp add: typed_rows [OF assms(1,2)])
qed

text \<open>C32: On tables of plain cells with fewer than \<open>2 ^ 31\<close> rows and cells, and on flat lists of fewer than \<open>2 ^ 31\<close>
  plain cells, the compiled flattening computes the same buffer, texts, kinds and shape as the Python one.\<close>

theorem accelerator_agrees:
  assumes "rectangle n plain rows" and "length rows < 2 ^ 31" and "length rows * n < 2 ^ 31"
    and "list_all plain vs" and "length vs < 2 ^ 31"
  shows "accelerated_grid P (map VList rows) = flatten_grid P (map VList rows)
    \<and> accelerated_grid P vs = flatten_grid P vs"
proof -
  have "accelerated_grid P (map VList rows) = flatten_grid P (map VList rows)"
    using flatten_rectangle [OF assms(1), of P] assms(1-3) by (auto simp: accelerated_grid_def rectangle_def c_int_limit_def)
  moreover have "accelerated_grid P vs = flatten_grid P vs"
    using flatten_flat [OF assms(4), of P] assms(5) by (auto simp: accelerated_grid_def flatten_grid_def c_int_limit_def)
  ultimately show ?thesis ..
qed

text \<open>A table with rows of different lengths is refused, with or without the compiled flattening.\<close>

theorem jagged_grid_refused:
  assumes "\<not> list_all (\<lambda>r. length r = length (hd rows)) rows" and "rows \<noteq> []"
    and "length rows < 2 ^ 31" and "length rows * length (hd rows) < 2 ^ 31"
  shows "host_pack_split_grid P (map VList rows) = Inl ValueErr \<and> accelerated_grid P (map VList rows) = Inl ValueErr"
proof -
  have "is_2d (map VList rows)" using assms(2) by (cases rows) (simp_all add: is_2d_def)
  then show ?thesis using assms
    by (auto simp: host_pack_split_grid_def accelerated_grid_def flatten_grid_def fast_flatten_grid_def c_int_limit_def Let_def)
qed

text \<open>The same for a flat list, which is one column.\<close>

lemma pack_unpack_flat:
  assumes "list_all exact vs" and "vs \<noteq> []"
  shows "\<exists>d. host_pack_split_grid P vs = Inr (VDict d) \<and> is_split_grid (VDict d)
     \<and> host_unpack_split_grid P True d = Inr (map (decoded (column_kind (has_text vs) vs)) vs)"
proof -
  let ?k = "column_kind (has_text vs) vs"
  have plain: "list_all plain vs" using assms(1) exact_plain by (auto simp: list_all_iff)
  have cell: "let k = [?k] ! (if length [length vs] = 1 then 0 else i mod [length vs] ! 1)
      in fits k (vs ! i) \<and> map (decoded ?k) vs ! i = decoded k (vs ! i) \<and> k \<in> set [?k]" if "i < length vs" for i
    using that column_kind_fits [of "vs ! i" vs] by simp
  have k: "set [?k] \<subseteq> {''int'', ''bool'', ''float''}" using column_kind_cases by simp
  have "length [?k] = (if length [length vs] = 1 then 1 else [length vs] ! 1)" "length [length vs] = 1 \<or> length [length vs] = 2"
    "length (map (decoded ?k) vs) = length vs" "length [length vs] = 2 \<Longrightarrow> [length vs] ! 1 = 0 \<Longrightarrow> vs = []" by simp_all
  note u = unpack_packed [OF k this(1,2) assms(1) this(3,4) cell]
  have "\<not> is_2d vs" using plain assms(2) by (cases vs; cases "hd vs") (simp_all add: is_2d_def)
  then have "host_pack_split_grid P vs =
      Inr (VDict (envelope_fields [?k] [length vs] (texts_from 0 vs) (to_bytes (map cell_double vs))))"
    using flatten_flat(1) [OF plain assms(2), of P] assms(2) by (simp add: host_pack_split_grid_def split_envelope_fields)
  then show ?thesis using u(1) u(2) [of P] by simp
qed

subsection \<open>Concrete tables\<close>

text \<open>Conversions that are not reached on plain cells.\<close>

definition no_conversions :: conversions where
  "no_conversions = \<lparr>bytes_float = (\<lambda>b. Inl ValueErr), repr_of = (\<lambda>v. []), b64decode = (\<lambda>s. Inl ValueErr)\<rparr>"

definition small_table :: "val list list" where
  "small_table = [[VInt 1, VNone, VStr [97]], [VInt (-7), VFloat one_double, VBool True]]"

lemma small_rectangle: "rectangle 3 exact small_table"
  by (simp add: rectangle_def small_table_def)

theorem split_grid_round_trip_witness:
  "\<exists>d. host_pack_split_grid no_conversions (map VList small_table) = Inr (VDict d) \<and> is_split_grid (VDict d)
     \<and> host_unpack_split_grid no_conversions True d =
       Inr [VList [VInt 1, VFloat nan, VStr [97]], VList [VInt (-7), VFloat one_double, VBool True]]"
proof -
  have "column_kinds 3 small_table = [''int'', ''float'', ''bool'']"
    by (simp add: column_kinds_def column_kind_def small_table_def has_text_def upt_rec)
  then have "map (\<lambda>r. VList (map2 decoded (column_kinds 3 small_table) r)) small_table =
      [VList [VInt 1, VFloat nan, VStr [97]], VList [VInt (-7), VFloat one_double, VBool True]]"
    by (simp add: small_table_def)
  then show ?thesis using split_grid_round_trip [OF small_rectangle, of no_conversions] by (simp only:) blast
qed

definition typed_table :: "val list list" where
  "typed_table = [[VInt 3, VStr [97]], [VInt 4, VStr []]]"

theorem typed_grid_round_trip_witness:
  "\<exists>d. host_pack_split_grid no_conversions (map VList typed_table) = Inr (VDict d)
     \<and> host_unpack_split_grid no_conversions True d = Inr (map VList typed_table)"
proof -
  have r: "rectangle 2 exact typed_table" by (simp add: rectangle_def typed_table_def)
  moreover have "typed 2 typed_table" by (auto simp: typed_def typed_table_def less_Suc_eq numeral_eq_Suc)
  moreover obtain d where "host_pack_split_grid no_conversions (map VList typed_table) = Inr (VDict d)"
    using pack_rectangle [OF rectangle_mono [OF r exact_plain]] by blast
  ultimately show ?thesis using typed_grid_round_trip by blast
qed

theorem accelerator_agrees_witness:
  "accelerated_grid no_conversions (map VList small_table) = flatten_grid no_conversions (map VList small_table)"
  using accelerator_agrees [OF rectangle_mono [OF small_rectangle exact_plain], of "[]" no_conversions]
  by (simp add: small_table_def)

theorem jagged_grid_refused_witness:
  "host_pack_split_grid no_conversions (map VList [[VNone], []]) = Inl ValueErr
   \<and> accelerated_grid no_conversions (map VList [[VNone], []]) = Inl ValueErr"
  by (rule jagged_grid_refused) simp_all

text \<open>A number that is none of Python's own, here of the value one, is stored as a number above the first text
  of the table and as a text below it; the compiled flattening stores a number in both places.\<close>

definition decimal_one :: val where
  "decimal_one = VObj (PyObj ''decimal'' ''Decimal'' None (Inr one_double) (u ''1''))"

text \<open>How a cell of another numeric type is stored depends on whether a text comes before it, and on the
  accelerator.\<close>

theorem decimal_depends_on_order:
  "flatten_grid P [decimal_one, VStr [97]] = Inr ([one_double, nan], [(1, [97])], [''float''], [2])
   \<and> flatten_grid P [VStr [97], decimal_one] = Inr ([nan, nan], [(0, [97]), (1, u ''1'')], [''int''], [2])
   \<and> accelerated_grid P [VStr [97], decimal_one] = Inr ([nan, one_double], [(0, [97])], [''float''], [2])"
  by (simp add: flatten_grid_def accelerated_grid_def fast_flatten_grid_def c_int_limit_def is_2d_def decimal_one_def components_of_def
      put_float_of_def put_number_def put_text_def seen_text_def flat_init_def kind_of_state_def)

text \<open>The first integer that no double holds comes back as another one, from a column of kind \<open>int\<close>.\<close>

theorem integers_changed:
  "\<exists>d. host_pack_split_grid no_conversions [VInt (2 ^ 53 + 1)] = Inr (VDict d)
     \<and> host_unpack_split_grid no_conversions True d = Inr [VInt (2 ^ 53)]"
proof -
  have "float_of_int (2 ^ 53 + 1) = float_of_int (2 ^ 53)" by (rule first_inexact)
  moreover obtain x where x: "float_of_int (2 ^ 53) = Some x" using exact_int(1) [of "2 ^ 53"] by auto
  ultimately have "flatten_grid no_conversions [VInt (2 ^ 53 + 1)] = flatten_grid no_conversions [VInt (2 ^ 53)]"
    by (simp add: flatten_grid_def is_2d_def components_of_def put_float_of_def)
  then have same: "host_pack_split_grid no_conversions [VInt (2 ^ 53 + 1)] = host_pack_split_grid no_conversions [VInt (2 ^ 53)]"
    by (simp add: host_pack_split_grid_def)
  show ?thesis using same pack_unpack_flat [of "[VInt (2 ^ 53)]" no_conversions] by (auto simp: column_kind_def)
qed

end
