(* ===== verification/WirePack.thy ===== *)
theory WirePack
  imports GridCodec
begin

text \<open>
  What crosses the line between LibreOffice and the worker (\<open>plugin/scripting/payload_codec.py\<close>,
  \<open>plugin/scripting/calc_range.py\<close>, \<open>plugin/calc/calc_addin_data.py\<close>): when a table is packed, the
  envelopes of ranges and results, and how they are unpacked on the host. The branches of \<open>child_pack_result\<close> for
  NumPy values are an argument.
\<close>

subsection \<open>Policy\<close>

definition cell_count :: "nat list \<Rightarrow> nat" where
  "cell_count shape = foldl (*) 1 shape"

definition should_use_binary_envelope :: "nat list \<Rightarrow> nat \<Rightarrow> string \<Rightarrow> bool" where
  "should_use_binary_envelope shape min_cells force =
     (if force = ''always'' then True
      else if force = ''never'' then False
      else 0 < length shape \<and> min_cells \<le> cell_count shape)"

definition binary_min_cells :: nat where
  "binary_min_cells = 100"

text \<open>\<open>list(v)\<close>; \<open>None\<close> is the \<open>TypeError\<close>.\<close>

fun key_val :: "key \<Rightarrow> val" where
  "key_val (KStr s) = VStr s"
| "key_val (KInt i) = VInt i"

fun list_of :: "val \<Rightarrow> val list option" where
  "list_of (VList xs) = Some xs"
| "list_of (VTuple xs) = Some xs"
| "list_of (VStr s) = Some (map (\<lambda>c. VStr [c]) s)"
| "list_of (VBytes b) = Some (map (\<lambda>x. VInt (uint x)) b)"
| "list_of (VDict d) = Some (map (\<lambda>x. key_val (fst x)) d)"
| "list_of v = None"

definition is_sequence :: "val \<Rightarrow> bool" where
  "is_sequence v \<longleftrightarrow> items_of v \<noteq> None"

text \<open>\<open>_cell_for_json\<close> returns its argument.\<close>

definition grid_from_nested_list :: "val list \<Rightarrow> val list" where
  "grid_from_nested_list grid =
     (case rows_of grid of
        Some rows \<Rightarrow> map VList rows
      | None \<Rightarrow> grid)"

definition max_width :: "val list list \<Rightarrow> nat" where
  "max_width rows = foldr (\<lambda>r. max (length r)) rows 0"

definition host_pack_data :: "conversions \<Rightarrow> nat \<Rightarrow> string \<Rightarrow> val list \<Rightarrow> codec_error + val" where
  "host_pack_data P min_cells force grid =
     (if grid = [] then Inr (VList [])
      else if force = ''always'' then host_pack_split_grid P grid
      else if is_2d grid \<and> force = ''auto'' \<and> min_cells \<le> length grid then host_pack_split_grid P grid
      else
        case (if is_2d grid then map_option (\<lambda>rows. [length grid, max_width rows]) (rows_of grid) else Some [length grid]) of
          None \<Rightarrow> Inl TypeErr
        | Some shape \<Rightarrow>
            if should_use_binary_envelope shape min_cells force then host_pack_split_grid P grid
            else Inr (VList (grid_from_nested_list grid)))"

definition host_pack_multi_data :: "conversions \<Rightarrow> nat \<Rightarrow> string \<Rightarrow> val list list \<Rightarrow> codec_error + val" where
  "host_pack_multi_data P min_cells force grids =
     (case traverse (host_pack_data P min_cells force) grids of
        Inl e \<Rightarrow> Inl e
      | Inr items \<Rightarrow> Inr (VDict [entry ''__wa_payload__'' (vstr ''multi_data''), entry ''items'' (VList items)]))"

subsection \<open>Ranges\<close>

fun lists_of :: "val list \<Rightarrow> val list list option" where
  "lists_of [] = Some []"
| "lists_of (v # vs) = (case (list_of v, lists_of vs) of (Some r, Some rs) \<Rightarrow> Some (r # rs) | _ \<Rightarrow> None)"

definition padded :: "nat \<Rightarrow> val list \<Rightarrow> val list" where
  "padded n r = r @ replicate (n - length r) VNone"

definition ensure_rectangular_2d :: "val \<Rightarrow> codec_error + val list list" where
  "ensure_rectangular_2d v =
     (if v = VNone then Inr []
      else case items_of v of
          None \<Rightarrow> Inr [[v]]
        | Some grid \<Rightarrow>
            if grid = [] then Inr []
            else if is_sequence (hd grid)
            then (case lists_of grid of
                    None \<Rightarrow> Inl TypeErr
                  | Some rows \<Rightarrow> Inr (map (padded (max_width rows)) rows))
            else Inr [grid])"

definition calc_range_fields :: "val \<Rightarrow> val \<Rightarrow> val \<Rightarrow> (key \<times> val) list" where
  "calc_range_fields shape inner address =
     [entry ''__wa_payload__'' (vstr ''calc_range''), entry ''shape'' shape, entry ''data'' inner] @ (if falsy address then [] else [entry ''address'' address])"

text \<open>\<open>pack_calc_range_envelope\<close>, called with a grid that is a list of lists, and a string or nothing for the
  address.\<close>

definition pack_calc_range_envelope ::
  "(val list \<Rightarrow> codec_error + val) \<Rightarrow> val \<Rightarrow> pystr option \<Rightarrow> codec_error + val" where
  "pack_calc_range_envelope pack_inner grid address =
     (case ensure_rectangular_2d grid of
        Inl e \<Rightarrow> Inl e
      | Inr rows \<Rightarrow>
          case pack_inner (map VList rows) of
            Inl e \<Rightarrow> Inl e
          | Inr inner \<Rightarrow>
              Inr (VDict (calc_range_fields (VList [VInt (int (length rows)), VInt (int (if rows = [] then 0 else length (hd rows)))]) inner
                (case address of None \<Rightarrow> VNone | Some a \<Rightarrow> VStr a))))"

definition pack_calc_data_for_wire :: "conversions \<Rightarrow> string \<Rightarrow> val \<Rightarrow> pystr option \<Rightarrow> codec_error + val" where
  "pack_calc_data_for_wire P force v address =
     (if v = VNone then Inr VNone
      else case ensure_rectangular_2d v of
          Inl e \<Rightarrow> Inl e
        | Inr rows \<Rightarrow>
            pack_calc_range_envelope (host_pack_data P binary_min_cells force) (VList (map VList rows)) address)"

definition pack_calc_multi_data_for_wire ::
  "conversions \<Rightarrow> string \<Rightarrow> pystr option list option \<Rightarrow> val list \<Rightarrow> codec_error + val" where
  "pack_calc_multi_data_for_wire P force addresses ranges =
     (if ranges = [] then Inr VNone
      else
        let addr = (\<lambda>i. case addresses of None \<Rightarrow> None | Some as \<Rightarrow> if i < length as then as ! i else None)
        in case traverse (\<lambda>(i, v). pack_calc_data_for_wire P force v (addr i)) (enumerated ranges) of
             Inl e \<Rightarrow> Inl e
           | Inr items \<Rightarrow> Inr (VDict [entry ''__wa_payload__'' (vstr ''multi_data''), entry ''items'' (VList items)]))"

text \<open>\<open>finalize_python_data\<close>.\<close>

definition finalize_python_data :: "val \<Rightarrow> codec_error + val list list option" where
  "finalize_python_data raw =
     (if raw = VNone then Inr None
      else case items_of raw of
          None \<Rightarrow> Inr (Some [[raw]])
        | Some xs \<Rightarrow> if xs = [] then Inr (Some []) else map_sum id Some (ensure_rectangular_2d raw))"

subsection \<open>Recognising envelopes\<close>

definition is_ndarray :: "val \<Rightarrow> bool" where
  "is_ndarray v \<longleftrightarrow> (case v of VObj ob \<Rightarrow> type_name ob = ''ndarray'' \<and> type_module ob = ''numpy'' | _ \<Rightarrow> False)"

fun is_list_or_dict :: "val \<Rightarrow> bool" where
  "is_list_or_dict (VList xs) = True"
| "is_list_or_dict (VDict d) = True"
| "is_list_or_dict v = False"

fun is_multi_data :: "val \<Rightarrow> bool" where
  "is_multi_data (VDict d) =
     (has_tag d ''multi_data'' \<and> (case field d ''items'' of Some (VList xs) \<Rightarrow> list_all is_list_or_dict xs | _ \<Rightarrow> False))"
| "is_multi_data v = False"

fun is_image_payload :: "val \<Rightarrow> bool" where
  "is_image_payload (VDict d) = (has_tag d ''image'' \<and> is_bytes (field d ''data'') \<and> is_text (field d ''format''))"
| "is_image_payload v = False"

fun is_dataframe_envelope :: "val \<Rightarrow> bool" where
  "is_dataframe_envelope (VDict d) =
     (has_tag d ''dataframe''
      \<and> (case field d ''columns'' of Some (VList cs) \<Rightarrow> list_all (\<lambda>c. is_text (Some c)) cs | _ \<Rightarrow> False)
      \<and> (case field d ''data'' of
          None \<Rightarrow> False
        | Some v \<Rightarrow> is_sequence v \<or> is_list_or_dict v \<or> v = VNone \<or> is_ndarray v))"
| "is_dataframe_envelope v = False"

fun is_calc_range_payload :: "val \<Rightarrow> bool" where
  "is_calc_range_payload (VDict d) =
     (has_tag d ''calc_range''
      \<and> (case shape_of d of Some ns \<Rightarrow> length ns = 2 | None \<Rightarrow> False)
      \<and> field d ''data'' \<noteq> None)"
| "is_calc_range_payload v = False"

subsection \<open>Unpacking on the host\<close>

lemma traverse_cong [fundef_cong]:
  "xs = ys \<Longrightarrow> (\<And>x. x \<in> set ys \<Longrightarrow> f x = g x) \<Longrightarrow> traverse f xs = traverse g ys"
proof (induction ys arbitrary: xs)
  case (Cons y ys)
  then have "f y = g y" "traverse f ys = traverse g ys" by auto
  then show ?case using Cons.prems(1) by (cases "g y") simp_all
qed simp

text \<open>The parts of a value are smaller than it.\<close>

lemma entry_size: "x \<in> set d \<Longrightarrow> (k, v) = x \<Longrightarrow> size v < size_list (size_prod (\<lambda>x. 0) size) d + Suc 0"
  by (induction d) (auto simp: less_Suc_eq_le)

lemma field_size: "field d k = Some v \<Longrightarrow> size v < size_list (size_prod (\<lambda>x. 0) size) d + Suc 0"
  unfolding field_def by (drule map_of_SomeD) (rule entry_size [OF _ refl])

lemma item_size: "v \<in> set xs \<Longrightarrow> size v < size_list size xs + Suc 0"
  by (induction xs) (auto simp: less_Suc_eq_le)

lemma field_item_size:
  "field d k = Some (VList xs) \<Longrightarrow> v \<in> set xs \<Longrightarrow> size v < size_list (size_prod (\<lambda>x. 0) size) d + Suc 0"
  using field_size [of d k "VList xs"] item_size [of v xs] by simp

lemmas part_sizes = entry_size field_size item_size field_item_size

text \<open>\<open>d.get(k)\<close>, and with \<open>or\<close> a list for what is falsy.\<close>

definition get_or_none :: "(key \<times> val) list \<Rightarrow> string \<Rightarrow> val" where
  "get_or_none d k = (case field d k of None \<Rightarrow> VNone | Some v \<Rightarrow> v)"

definition get_or_list :: "(key \<times> val) list \<Rightarrow> string \<Rightarrow> val list \<Rightarrow> val" where
  "get_or_list d k xs = (if falsy (get_or_none d k) then VList xs else get_or_none d k)"

definition andthen :: "'e + 'a \<Rightarrow> ('a \<Rightarrow> 'b) \<Rightarrow> 'e + 'b" where
  "andthen r f = (case r of Inl e \<Rightarrow> Inl e | Inr x \<Rightarrow> Inr (f x))"

lemma andthen_simps [simp]: "andthen (Inl e) f = Inl e" "andthen (Inr x) f = Inr (f x)"
  by (simp_all add: andthen_def)

function host_unpack_data :: "conversions \<Rightarrow> bool \<Rightarrow> val \<Rightarrow> codec_error + val" where
  "host_unpack_data P nested (VDict d) =
     (if is_image_payload (VDict d) then Inr (VDict d)
      else if is_calc_range_payload (VDict d)
      then andthen (case field d ''data'' of None \<Rightarrow> Inr VNone | Some v \<Rightarrow> host_unpack_data P nested v)
        (\<lambda>inner. VDict (calc_range_fields (get_or_list d ''shape'' [VInt 0, VInt 0]) inner (get_or_none d ''address'')))
      else if is_multi_data (VDict d)
      then (case field d ''items'' of
          Some (VList items) \<Rightarrow> andthen (traverse (host_unpack_data P nested) items) VList
        | _ \<Rightarrow> Inr (VList []))
      else if is_split_grid (VDict d) then andthen (host_unpack_split_grid P nested d) VList
      else if is_dataframe_envelope (VDict d)
      then andthen (case field d ''data'' of None \<Rightarrow> Inr VNone | Some v \<Rightarrow> host_unpack_data P nested v)
        (\<lambda>inner. VDict [entry ''__wa_payload__'' (vstr ''dataframe''), entry ''columns'' (get_or_list d ''columns'' []),
           entry ''data'' inner])
      else andthen (traverse (\<lambda>(k, v). andthen (host_unpack_data P nested v) (Pair k)) d) VDict)"
| "host_unpack_data P nested (VList xs) = andthen (traverse (host_unpack_data P nested) xs) VList"
| "host_unpack_data P nested (VTuple xs) = andthen (traverse (host_unpack_data P nested) xs) VTuple"
| "host_unpack_data P nested VNone = Inr VNone"
| "host_unpack_data P nested (VBool b) = Inr (VBool b)"
| "host_unpack_data P nested (VInt i) = Inr (VInt i)"
| "host_unpack_data P nested (VFloat x) = Inr (VFloat x)"
| "host_unpack_data P nested (VStr s) = Inr (VStr s)"
| "host_unpack_data P nested (VBytes b) = Inr (VBytes b)"
| "host_unpack_data P nested (VObj ob) = Inr (VObj ob)"
  by pat_completeness auto
termination
  by (relation "measure (\<lambda>(P, nested, v). size v)")
    (simp_all only: wf_measure in_measure split val.size, (erule (1) part_sizes | erule part_sizes)+)

text \<open>\<open>find_image_payloads\<close>.\<close>

function find_image_payloads :: "val \<Rightarrow> val list" where
  "find_image_payloads (VDict d) =
     (if is_image_payload (VDict d) then [VDict d] else concat (map (\<lambda>(k, v). find_image_payloads v) d))"
| "find_image_payloads (VList xs) = concat (map find_image_payloads xs)"
| "find_image_payloads (VTuple xs) = concat (map find_image_payloads xs)"
| "find_image_payloads VNone = []"
| "find_image_payloads (VBool b) = []"
| "find_image_payloads (VInt i) = []"
| "find_image_payloads (VFloat x) = []"
| "find_image_payloads (VStr s) = []"
| "find_image_payloads (VBytes b) = []"
| "find_image_payloads (VObj ob) = []"
  by pat_completeness auto
termination
  by (relation "measure size")
    (simp_all only: wf_measure in_measure split val.size, (erule (1) part_sizes | erule part_sizes)+)

subsection \<open>Counting cells\<close>

fun len_of :: "val \<Rightarrow> codec_error + nat" where
  "len_of (VList xs) = Inr (length xs)"
| "len_of (VTuple xs) = Inr (length xs)"
| "len_of (VStr s) = Inr (length s)"
| "len_of (VBytes b) = Inr (length b)"
| "len_of (VDict d) = Inr (length d)"
| "len_of v = Inl TypeErr"

definition sequence_count :: "val list \<Rightarrow> codec_error + nat" where
  "sequence_count xs =
     (if xs = [] then Inr 0
      else if is_sequence (hd xs) then andthen (traverse len_of xs) sum_list
      else Inr (length xs))"

function wire_cell_count :: "val \<Rightarrow> codec_error + nat" where
  "wire_cell_count (VDict d) =
     (if is_calc_range_payload (VDict d)
      then (case shape_of d of Some [r, c] \<Rightarrow> Inr (r * c) | _ \<Rightarrow> Inr 0)
      else if is_multi_data (VDict d)
      then (case field d ''items'' of
          Some (VList items) \<Rightarrow> andthen (traverse wire_cell_count items) sum_list
        | _ \<Rightarrow> Inr 0)
      else if is_split_grid (VDict d) then Inr (case shape_of d of Some ns \<Rightarrow> cell_count ns | None \<Rightarrow> 0)
      else if is_dataframe_envelope (VDict d)
      then (case field d ''data'' of Some v \<Rightarrow> wire_cell_count v | None \<Rightarrow> Inr 0)
      else Inr 1)"
| "wire_cell_count (VList xs) = sequence_count xs"
| "wire_cell_count (VTuple xs) = sequence_count xs"
| "wire_cell_count VNone = Inr 0"
| "wire_cell_count (VBool b) = Inr 1"
| "wire_cell_count (VInt i) = Inr 1"
| "wire_cell_count (VFloat x) = Inr 1"
| "wire_cell_count (VStr s) = Inr 1"
| "wire_cell_count (VBytes b) = Inr 1"
| "wire_cell_count (VObj ob) = Inr 1"
  by pat_completeness auto
termination
  by (relation "measure size")
    (simp_all only: wf_measure in_measure split val.size, (erule (1) part_sizes | erule part_sizes)+)

subsection \<open>Packing a result\<close>

text \<open>NumPy: what is an array, and the branches of \<open>child_pack_result\<close> for arrays and NumPy scalars, which return
  any other object as it is.\<close>

record numpy =
  is_array :: "pyobj \<Rightarrow> bool"
  pack_object :: "nat \<Rightarrow> string \<Rightarrow> pyobj \<Rightarrow> codec_error + val"

text \<open>\<open>_container_has_packable_nested\<close> and \<open>_needs_elementwise_pack\<close>.\<close>

fun has_packable_nested :: "numpy \<Rightarrow> val \<Rightarrow> bool" where
  "has_packable_nested N (VDict d) = True"
| "has_packable_nested N (VObj ob) = is_array N ob"
| "has_packable_nested N (VList xs) = list_ex (has_packable_nested N) xs"
| "has_packable_nested N (VTuple xs) = list_ex (has_packable_nested N) xs"
| "has_packable_nested N v = False"

definition needs_elementwise_pack :: "numpy \<Rightarrow> val list \<Rightarrow> bool" where
  "needs_elementwise_pack N xs \<longleftrightarrow> list_ex (has_packable_nested N) xs"

definition pack_sequence ::
  "conversions \<Rightarrow> numpy \<Rightarrow> nat \<Rightarrow> string \<Rightarrow> val list \<Rightarrow> codec_error + val \<Rightarrow> codec_error + val" where
  "pack_sequence P N min_cells force xs elementwise =
     (let pack = (\<lambda>grid shape. if should_use_binary_envelope shape min_cells force then host_pack_split_grid P grid
            else Inr (VList (grid_from_nested_list grid)))
      in if needs_elementwise_pack N xs then elementwise
         else if xs \<noteq> [] \<and> is_sequence (hd xs)
         then (case rows_of xs of
             Some rows \<Rightarrow> pack (map VList rows) [length rows, max_width rows]
           | None \<Rightarrow> elementwise)
         else pack xs [length xs])"

fun key_str :: "key \<Rightarrow> pystr" where
  "key_str (KStr s) = s"
| "key_str (KInt i) = str_of_int i"

function child_pack_result :: "conversions \<Rightarrow> numpy \<Rightarrow> nat \<Rightarrow> string \<Rightarrow> val \<Rightarrow> codec_error + val" where
  "child_pack_result P N m force (VDict d) =
     andthen (traverse (\<lambda>(k, v). andthen (child_pack_result P N m force v) (Pair (KStr (key_str k)))) d)
       (\<lambda>items. VDict (fold (\<lambda>(k, v). AList.update k v) items []))"
| "child_pack_result P N m force (VList xs) =
     pack_sequence P N m force xs (andthen (traverse (child_pack_result P N m force) xs) VList)"
| "child_pack_result P N m force (VTuple xs) =
     pack_sequence P N m force xs (andthen (traverse (child_pack_result P N m force) xs) VTuple)"
| "child_pack_result P N m force (VObj ob) = pack_object N m force ob"
| "child_pack_result P N m force VNone = Inr VNone"
| "child_pack_result P N m force (VBool b) = Inr (VBool b)"
| "child_pack_result P N m force (VInt i) = Inr (VInt i)"
| "child_pack_result P N m force (VFloat x) = Inr (VFloat x)"
| "child_pack_result P N m force (VStr s) = Inr (VStr s)"
| "child_pack_result P N m force (VBytes b) = Inr (VBytes b)"
  by pat_completeness auto
termination
  by (relation "measure (\<lambda>(P, N, m, force, v). size v)")
    (simp_all only: wf_measure in_measure split val.size, (erule (1) part_sizes | erule part_sizes)+)

subsection \<open>Rectangles\<close>

lemma max_width_le: "r \<in> set rows \<Longrightarrow> length r \<le> max_width rows"
  by (induction rows) (auto simp: max_width_def)

lemma max_width_equal: "rows \<noteq> [] \<Longrightarrow> list_all (\<lambda>r. length r = n) rows \<Longrightarrow> max_width rows = n"
proof (induction rows)
  case (Cons r rows)
  then show ?case by (cases rows) (simp_all add: max_width_def)
qed simp

lemma lists_of_lists [simp]: "lists_of (map VList rows) = Some rows"
  by (induction rows) simp_all

lemma ensure_lists:
  assumes "list_all (\<lambda>r. length r = n) rows"
  shows "ensure_rectangular_2d (VList (map VList rows)) = Inr rows"
proof (cases rows)
  case (Cons r rs)
  have "map (padded (max_width rows)) rows = rows"
    using assms max_width_equal [OF _ assms] Cons by (intro map_idI) (auto simp: padded_def list_all_iff)
  then show ?thesis by (simp add: ensure_rectangular_2d_def is_sequence_def Cons)
qed (simp add: ensure_rectangular_2d_def)

lemma rectangular_result:
  assumes "ensure_rectangular_2d v = Inr rows"
  shows "list_all (\<lambda>r. length r = length (hd rows)) rows"
proof -
  have "list_all (\<lambda>r. length r = length (hd rows')) rows'" if "rows' = map (padded (max_width rs)) rs" for rs rows'
    using that max_width_le [of _ rs] by (cases rs) (auto simp: padded_def list_all_iff)
  then show ?thesis using assms by (auto simp: ensure_rectangular_2d_def split: if_splits option.splits)
qed

text \<open>Whatever value comes in, the table that comes out is rectangular, and bringing it into shape again
  changes nothing.\<close>

theorem ensure_rectangular:
  assumes "ensure_rectangular_2d v = Inr rows"
  shows "list_all (\<lambda>r. length r = length (hd rows)) rows \<and> ensure_rectangular_2d (VList (map VList rows)) = Inr rows"
  using rectangular_result [OF assms] ensure_lists by blast

subsection \<open>Unpacking packed tables\<close>

lemma traverse_Inr: "(\<And>x. x \<in> set xs \<Longrightarrow> f x = Inr (g x)) \<Longrightarrow> traverse f xs = Inr (map g xs)"
  by (induction xs) simp_all

lemma unpack_plain: "plain v \<Longrightarrow> host_unpack_data P nested v = Inr v"
  by (cases v) simp_all

lemma unpack_plain_rows:
  "list_all (list_all plain) rows \<Longrightarrow> host_unpack_data P nested (VList (map VList rows)) = Inr (VList (map VList rows))"
proof -
  assume plain: "list_all (list_all plain) rows"
  have row: "host_unpack_data P nested (VList r) = Inr (VList r)" if "r \<in> set rows" for r
    using traverse_Inr [of r "host_unpack_data P nested" id] plain that unpack_plain by (auto simp: list_all_iff)
  have "traverse (host_unpack_data P nested) (map VList rows) = Inr (map id (map VList rows))"
    by (rule traverse_Inr) (use row in auto)
  then show ?thesis by simp
qed

lemma unpack_split_grid:
  assumes "is_split_grid (VDict d)"
  shows "host_unpack_data P nested (VDict d) = andthen (host_unpack_split_grid P nested d) VList"
  using assms by (auto simp: has_tag_def vstr_def)

lemma cell_count_pair: "cell_count [r, c] = r * c"
  by (simp add: cell_count_def)

lemma host_pack_data_cases:
  assumes "rectangle n plain rows"
  shows "host_pack_data P m force (map VList rows) = Inr (VList (map VList rows))
     \<or> host_pack_data P m force (map VList rows) = host_pack_split_grid P (map VList rows)"
proof -
  have "rows \<noteq> []" using assms by (simp add: rectangle_def)
  then have two: "is_2d (map VList rows)" by (cases rows) (simp_all add: is_2d_def)
  show ?thesis using two assms
    by (simp add: host_pack_data_def grid_from_nested_list_def rectangle_def)
qed

lemma pack_data_round_trip:
  assumes "rectangle n exact rows" and "typed n rows"
    and "w = VList (map VList rows) \<or> host_pack_split_grid P (map VList rows) = Inr w"
  shows "host_unpack_data P True w = Inr (VList (map VList rows)) \<and> wire_cell_count w = Inr (length rows * n)"
proof -
  have plain: "rectangle n plain rows" using rectangle_mono [OF assms(1) exact_plain] .
  have rows: "rows \<noteq> []" "list_all (\<lambda>r. length r = n) rows" "list_all (list_all plain) rows"
    using plain by (auto simp: rectangle_def list_all_iff)
  show ?thesis
  proof (cases "w = VList (map VList rows)")
    case True
    have "traverse len_of (map VList rows) = Inr (map (\<lambda>v. n) (map VList rows))"
      using rows(2) by (intro traverse_Inr) (auto simp: list_all_iff)
    then have "wire_cell_count w = Inr (length rows * n)" using rows(1) True
      by (simp add: sequence_count_def is_sequence_def hd_map sum_list_replicate map_replicate_const comp_def)
    then show ?thesis using unpack_plain_rows [OF rows(3)] True by simp
  next
    case False
    define d where "d = envelope_fields (column_kinds n rows) [length rows, n]
       (texts_from 0 (concat rows)) (to_bytes (map cell_double (concat rows)))"
    have w: "w = VDict d" using False assms(3) pack_rectangle [OF plain, of P] by (simp add: d_def)
    have sg: "is_split_grid (VDict d)" using pack_unpack_rectangle(1) [OF assms(1)] by (simp add: d_def)
    have "host_unpack_split_grid P True d = Inr (map VList rows)"
      using pack_unpack_rectangle(2) [OF assms(1), of P] by (simp add: d_def typed_rows [OF assms(1,2)])
    moreover have "shape_of d = Some [length rows, n]"
      using nats_of_ints [of "[length rows, n]"] by (simp add: shape_of_def d_def fields)
    ultimately show ?thesis using unpack_split_grid [OF sg] sg unfolding w
      by (auto simp: has_tag_def vstr_def cell_count_pair)
  qed
qed

lemma calc_range_recognised:
  "is_calc_range_payload (VDict (calc_range_fields (VList [VInt (int r), VInt (int c)]) inner addr))"
  "\<not> is_image_payload (VDict (calc_range_fields (VList [VInt (int r), VInt (int c)]) inner addr))"
  "field (calc_range_fields sh inner addr) ''data'' = Some inner"
  "get_or_none (calc_range_fields sh inner addr) ''shape'' = sh"
  "falsy addr \<Longrightarrow> get_or_none (calc_range_fields sh inner addr) ''address'' = VNone"
  "\<not> falsy addr \<Longrightarrow> get_or_none (calc_range_fields sh inner addr) ''address'' = addr"
  by (auto simp: calc_range_fields_def has_tag_def field_def entry_def vstr_def shape_of_def get_or_none_def)

lemma calc_range_address: "falsy addr \<Longrightarrow> calc_range_fields sh inner VNone = calc_range_fields sh inner addr"
  by (simp add: calc_range_fields_def)

lemma host_pack_data_total:
  assumes "rectangle n exact rows"
  shows "\<exists>w. host_pack_data P m force (map VList rows) = Inr w
     \<and> (w = VList (map VList rows) \<or> host_pack_split_grid P (map VList rows) = Inr w)"
  using host_pack_data_cases [OF rectangle_mono [OF assms exact_plain], of P m force]
    pack_rectangle [OF rectangle_mono [OF assms exact_plain], of P] by auto

text \<open>Nothing of a Calc range whose columns hold one kind of cell each is lost in its envelope, whether it is packed or
  sent as lists: the host itself unpacks it to the same rows, with its shape and address, and counts its cells as rows
  times columns. (The worker unpacks it into NumPy arrays, which are not modelled.)\<close>

theorem calc_range_round_trip:
  assumes "rectangle n exact rows" and "typed n rows"
  shows "\<exists>w. pack_calc_data_for_wire P force (VList (map VList rows)) address = Inr w
     \<and> host_unpack_data P True w = Inr (VDict (calc_range_fields (VList [VInt (int (length rows)), VInt (int n)])
         (VList (map VList rows)) (case address of None \<Rightarrow> VNone | Some a \<Rightarrow> VStr a)))
     \<and> wire_cell_count w = Inr (length rows * n)"
proof -
  let ?shape = "VList [VInt (int (length rows)), VInt (int n)]"
  let ?addr = "case address of None \<Rightarrow> VNone | Some a \<Rightarrow> VStr a"
  have rows: "rows \<noteq> []" "list_all (\<lambda>r. length r = n) rows" "length (hd rows) = n"
    using assms(1) by (auto simp: rectangle_def list_all_iff)
  obtain x where x: "host_pack_data P binary_min_cells force (map VList rows) = Inr x"
    "x = VList (map VList rows) \<or> host_pack_split_grid P (map VList rows) = Inr x"
    using host_pack_data_total [OF assms(1)] by blast
  have un: "host_unpack_data P True x = Inr (VList (map VList rows))"
    using pack_data_round_trip [OF assms x(2)] by simp
  define d where "d = calc_range_fields ?shape x ?addr"
  have pack: "pack_calc_data_for_wire P force (VList (map VList rows)) address = Inr (VDict d)"
    using rows x(1) by (simp add: pack_calc_data_for_wire_def pack_calc_range_envelope_def ensure_lists d_def)
  have facts: "is_calc_range_payload (VDict d)" "\<not> is_image_payload (VDict d)" "field d ''data'' = Some x"
    "get_or_list d ''shape'' [VInt 0, VInt 0] = ?shape"
    using calc_range_recognised(1,2) [of "length rows" n x ?addr] by (simp_all add: d_def get_or_list_def calc_range_recognised)
  have addr: "calc_range_fields ?shape y (get_or_none d ''address'') = calc_range_fields ?shape y ?addr" for y
    using calc_range_recognised(5,6) [of ?addr ?shape x] calc_range_address [of ?addr]
    by (cases "falsy ?addr") (simp_all add: d_def)
  have "host_unpack_data P True (VDict d) = Inr (VDict (calc_range_fields ?shape (VList (map VList rows)) ?addr))"
    unfolding host_unpack_data.simps(1) facts(3) option.case un facts(4) addr andthen_simps
    by (simp only: facts if_True if_False)
  moreover have "shape_of d = Some [length rows, n]"
    by (simp add: shape_of_def d_def calc_range_fields_def field_def entry_def)
  then have "wire_cell_count (VDict d) = Inr (length rows * n)"
    using facts(1) by (simp only: wire_cell_count.simps if_True) simp
  ultimately show ?thesis using pack by blast
qed

text \<open>Results of the worker: what JSON has, in lists and dictionaries, with every list below the threshold.\<close>

definition tag_free :: "(key \<times> val) list \<Rightarrow> bool" where
  "tag_free d \<longleftrightarrow> distinct (map fst d) \<and> field d ''__wa_payload__'' = None"

fun is_str_key :: "key \<Rightarrow> bool" where
  "is_str_key (KStr s) = True" | "is_str_key (KInt i) = False"

definition below :: "nat \<Rightarrow> val list \<Rightarrow> bool" where
  "below m xs = (case rows_of xs of Some rows \<Rightarrow> xs = [] \<and> 0 < m \<or> length rows * max_width rows < m | None \<Rightarrow> length xs < m)"

fun json_value :: "nat \<Rightarrow> val \<Rightarrow> bool" where
  "json_value m (VList xs) = (list_all (json_value m) xs \<and> below m xs)"
| "json_value m (VDict d) = (list_all (\<lambda>(k, v). is_str_key k \<and> json_value m v) d \<and> tag_free d)"
| "json_value m (VTuple xs) = False"
| "json_value m (VObj ob) = False"
| "json_value m v = True"

lemma rows_of_json: "rows_of xs = Some rows \<Longrightarrow> list_all (json_value m) xs \<Longrightarrow> map VList rows = xs"
proof (induction xs arbitrary: rows)
  case (Cons x xs)
  then show ?case by (cases x) (auto split: option.splits)
qed simp

lemma fold_update_distinct:
  "distinct (map fst (acc @ d)) \<Longrightarrow> fold (\<lambda>(k, v). AList.update k v) d acc = acc @ d"
proof (induction d arbitrary: acc)
  case (Cons x d)
  obtain k v where x: "x = (k, v)" by (cases x)
  have "k \<notin> fst ` set acc" using Cons.prems by (auto simp: x)
  then show ?case using Cons.IH [of "acc @ [x]"] Cons.prems by (simp add: x update_new)
qed simp

lemma traverse_same: "(\<And>x. x \<in> set xs \<Longrightarrow> f x = Inr x) \<Longrightarrow> traverse f xs = Inr xs"
  using traverse_Inr [of xs f id] by simp

lemma pack_small_sequence:
  assumes "list_all (json_value m) xs" and "below m xs"
  shows "pack_sequence P N m ''auto'' xs (Inr (VList xs)) = Inr (VList xs)"
proof (cases "needs_elementwise_pack N xs")
  case False
  show ?thesis
  proof (cases "rows_of xs")
    case None
    then have "xs \<noteq> []" "\<not> (xs \<noteq> [] \<and> is_sequence (hd xs)) \<Longrightarrow> length xs < m" using assms(2) by (auto simp: below_def)
    then show ?thesis using None False by (auto simp: pack_sequence_def Let_def should_use_binary_envelope_def cell_count_def grid_from_nested_list_def)
  next
    case (Some rows)
    note xs = rows_of_json [OF Some assms(1)]
    have "xs = [] \<and> 0 < m \<or> length rows * max_width rows < m" using assms(2) Some by (simp add: below_def)
    moreover have "xs \<noteq> [] \<Longrightarrow> is_sequence (hd xs)" using Some by (cases xs) (auto simp: is_sequence_def split: option.splits)
    ultimately show ?thesis using Some False xs
      by (cases rows) (auto simp: pack_sequence_def Let_def should_use_binary_envelope_def cell_count_def grid_from_nested_list_def)
  qed
qed (simp add: pack_sequence_def)

lemma pack_small: "json_value m v \<Longrightarrow> child_pack_result P N m ''auto'' v = Inr v"
proof (induction v)
  case (VList xs)
  have "traverse (child_pack_result P N m ''auto'') xs = Inr xs"
    by (rule traverse_same) (use VList in \<open>auto simp: list_all_iff\<close>)
  then show ?case using pack_small_sequence VList.prems by simp
next
  case (VDict d)
  have "traverse (\<lambda>(k, v). andthen (child_pack_result P N m ''auto'' v) (Pair (KStr (key_str k)))) d = Inr d"
  proof (rule traverse_same)
    fix x
    assume x: "x \<in> set d"
    obtain k v where kv: "x = (k, v)" by (cases x)
    then have "is_str_key k" "child_pack_result P N m ''auto'' v = Inr v"
      using VDict.IH [of x v] VDict.prems x by (auto simp: list_all_iff)
    then show "(\<lambda>(k, v). andthen (child_pack_result P N m ''auto'' v) (Pair (KStr (key_str k)))) x = Inr x"
      by (cases k) (simp_all add: kv)
  qed
  then show ?case using VDict.prems fold_update_distinct [of "[]" d] by (simp add: tag_free_def)
qed simp_all

lemma unpack_small: "json_value m v \<Longrightarrow> host_unpack_data P nested v = Inr v"
proof (induction v)
  case (VList xs)
  have "traverse (host_unpack_data P nested) xs = Inr xs"
    by (rule traverse_same) (use VList in \<open>auto simp: list_all_iff\<close>)
  then show ?case by simp
next
  case (VDict d)
  have "traverse (\<lambda>(k, v). andthen (host_unpack_data P nested v) (Pair k)) d = Inr d"
    by (rule traverse_same) (use VDict in \<open>auto simp: list_all_iff\<close>)
  moreover have "\<not> has_tag d t" for t using VDict.prems by (auto simp: tag_free_def has_tag_def)
  ultimately show ?case by simp
qed simp_all

text \<open>A result of nested lists and dictionaries, none of whose lists reaches the threshold and none of whose
  dictionaries carries the payload tag, crosses unchanged.\<close>

theorem small_result_unchanged:
  assumes "json_value m v"
  shows "child_pack_result P N m ''auto'' v = Inr v \<and> host_unpack_data P nested v = Inr v"
  using pack_small [OF assms] unpack_small [OF assms] by blast

lemma plain_no_nested: "plain v \<Longrightarrow> \<not> has_packable_nested N v"
  by (cases v) simp_all

lemma pack_result_rows:
  assumes "rectangle n plain rows"
  shows "child_pack_result P N m force (VList (map VList rows)) =
    (if should_use_binary_envelope [length rows, n] m force then host_pack_split_grid P (map VList rows)
     else Inr (VList (map VList rows)))"
proof -
  have rows: "rows \<noteq> []" "list_all (\<lambda>r. length r = n) rows" "\<forall>r \<in> set rows. \<forall>v \<in> set r. plain v"
    using assms by (auto simp: rectangle_def list_all_iff)
  then have "\<not> needs_elementwise_pack N (map VList rows)"
    using plain_no_nested by (auto simp: needs_elementwise_pack_def list_ex_iff)
  then show ?thesis using rows(1) max_width_equal [OF rows(1,2)]
    by (simp add: pack_sequence_def is_sequence_def hd_map grid_from_nested_list_def)
qed

text \<open>A result that is a table of typed columns comes back as it was, for every threshold and policy.\<close>

theorem table_result_round_trip:
  assumes "rectangle n exact rows" and "typed n rows"
  shows "\<exists>w. child_pack_result P N m force (VList (map VList rows)) = Inr w
     \<and> host_unpack_data P True w = Inr (VList (map VList rows))"
proof -
  have plain: "rectangle n plain rows" using rectangle_mono [OF assms(1) exact_plain] .
  obtain w where "child_pack_result P N m force (VList (map VList rows)) = Inr w"
    "w = VList (map VList rows) \<or> host_pack_split_grid P (map VList rows) = Inr w"
    using pack_result_rows [OF plain, of P N m force] pack_rectangle [OF plain, of P] by (auto split: if_splits)
  then show ?thesis using pack_data_round_trip [OF assms, of w P] by blast
qed

text \<open>A list inside a table is sent as it is below the threshold, and as the text Python prints for it at the
  threshold.\<close>

theorem nested_list_becomes_text:
  "child_pack_result P N 1 ''auto'' (VList [VList [VList [VInt 1]]]) =
       host_pack_split_grid P [VList [VList [VInt 1]]]
     \<and> child_pack_result P N 2 ''auto'' (VList [VList [VList [VInt 1]]]) = Inr (VList [VList [VList [VInt 1]]])
     \<and> flatten_grid P [VList [VList [VInt 1]]] =
       Inr ([nan], [(0, repr_of P (VList [VInt 1]))], [''int''], [1, 1])"
  by (simp add: pack_sequence_def needs_elementwise_pack_def is_sequence_def should_use_binary_envelope_def cell_count_def
      max_width_def grid_from_nested_list_def flatten_grid_def is_2d_def components_of_def flat_init_def put_text_def
      seen_text_def kind_of_state_def)

text \<open>C33: A result the worker sends comes back on the host as it was, for every threshold and policy when it is a table
  whose columns hold one kind of cell each and no empty one, with integers within \<open>2 ^ 53\<close>; and with automatic packing
  when it is made of nested lists and dictionaries with text keys, none of whose lists reaches the threshold and none of
  whose dictionaries carries the payload tag.\<close>

theorem worker_result_round_trip:
  assumes "rectangle n exact rows" and "typed n rows" and "json_value m v"
  shows "(\<exists>w. child_pack_result P N k force (VList (map VList rows)) = Inr w
        \<and> host_unpack_data P True w = Inr (VList (map VList rows)))
    \<and> (\<exists>w. child_pack_result P N m ''auto'' v = Inr w \<and> host_unpack_data P True w = Inr v)"
  using table_result_round_trip [OF assms(1,2)] small_result_unchanged [OF assms(3)] by blast

subsection \<open>Concrete values\<close>

definition no_numpy :: numpy where
  "no_numpy = \<lparr>is_array = (\<lambda>ob. False), pack_object = (\<lambda>m force ob. Inr (VObj ob))\<rparr>"

lemma typed_table_ok: "rectangle 2 exact typed_table" "typed 2 typed_table"
  by (simp add: rectangle_def typed_table_def) (auto simp: typed_def typed_table_def less_Suc_eq numeral_eq_Suc)

theorem calc_range_round_trip_witness:
  "\<exists>w. pack_calc_data_for_wire no_conversions ''always'' (VList (map VList typed_table)) (Some (u ''A1:B2'')) = Inr w
     \<and> host_unpack_data no_conversions True w = Inr (VDict (calc_range_fields (VList [VInt 2, VInt 2])
         (VList (map VList typed_table)) (VStr (u ''A1:B2''))))
     \<and> wire_cell_count w = Inr 4"
  using calc_range_round_trip [OF typed_table_ok, of no_conversions "''always''" "Some (u ''A1:B2'')"]
  by (simp add: typed_table_def)

theorem worker_result_round_trip_witness:
  "\<exists>w. child_pack_result no_conversions no_numpy 4 ''auto'' (VList (map VList typed_table)) = Inr w
     \<and> host_unpack_data no_conversions True w = Inr (VList (map VList typed_table))"
proof -
  have "json_value 100 (VDict [(KStr (u ''a''), VList [VInt 1, VNone])])" by (simp add: tag_free_def field_def below_def)
  from worker_result_round_trip [OF typed_table_ok this] show ?thesis by (rule conjunct1)
qed

theorem table_result_round_trip_witness:
  "\<exists>w. child_pack_result no_conversions no_numpy 4 ''auto'' (VList (map VList typed_table)) = Inr w
     \<and> host_unpack_data no_conversions True w = Inr (VList (map VList typed_table))"
  by (rule table_result_round_trip [OF typed_table_ok])

theorem small_result_unchanged_witness:
  "child_pack_result no_conversions no_numpy 100 ''auto'' (VDict [(KStr (u ''a''), VList [VInt 1, VNone])])
     = Inr (VDict [(KStr (u ''a''), VList [VInt 1, VNone])])
   \<and> host_unpack_data no_conversions True (VDict [(KStr (u ''a''), VList [VInt 1, VNone])])
     = Inr (VDict [(KStr (u ''a''), VList [VInt 1, VNone])])"
  by (rule small_result_unchanged [where m = 100]) (simp add: tag_free_def field_def below_def)

theorem ensure_rectangular_witness:
  "list_all (\<lambda>r. length r = length (hd [[VInt 1, VInt 2], [VInt 3, VNone]])) [[VInt 1, VInt 2], [VInt 3, VNone]]
   \<and> ensure_rectangular_2d (VList (map VList [[VInt 1, VInt 2], [VInt 3, VNone]])) = Inr [[VInt 1, VInt 2], [VInt 3, VNone]]"
  by (rule ensure_rectangular [of "VList [VTuple [VInt 1, VInt 2], VList [VInt 3]]"])
    (simp add: ensure_rectangular_2d_def is_sequence_def padded_def max_width_def)

subsection \<open>Column names\<close>

text \<open>\<open>_dedupe_column_names\<close>: the names with the number of earlier columns of the same name, and the label
  made of both.\<close>

definition base_name :: "pystr \<Rightarrow> pystr" where
  "base_name raw =
     (let b = strip (if raw = [] then u ''column'' else raw) in if b = [] then u ''column'' else b)"

definition column_label :: "pystr \<times> nat \<Rightarrow> pystr" where
  "column_label bc = (case bc of (b, n) \<Rightarrow> if n = 0 then b else b @ u ''_'' @ str_of_int (int n))"

fun dedupe_loop :: "(pystr \<times> nat) list \<Rightarrow> pystr list \<Rightarrow> pystr list" where
  "dedupe_loop seen [] = []"
| "dedupe_loop seen (raw # names) =
     (let b = base_name raw; n = (case map_of seen b of None \<Rightarrow> 0 | Some k \<Rightarrow> k)
      in column_label (b, n) # dedupe_loop (AList.update b (n + 1) seen) names)"

definition dedupe_column_names :: "pystr list \<Rightarrow> pystr list" where
  "dedupe_column_names names = dedupe_loop [] names"

fun numbered :: "(pystr \<Rightarrow> nat) \<Rightarrow> pystr list \<Rightarrow> (pystr \<times> nat) list" where
  "numbered f [] = []"
| "numbered f (b # bs) = (b, f b) # numbered (f(b := Suc (f b))) bs"

lemma dedupe_numbered:
  "(\<And>b. f b = (case map_of seen b of None \<Rightarrow> 0 | Some k \<Rightarrow> k)) \<Longrightarrow>
     dedupe_loop seen names = map column_label (numbered f (map base_name names))"
proof (induction names arbitrary: seen f)
  case (Cons raw names)
  let ?b = "base_name raw"
  have "dedupe_loop (AList.update ?b (Suc (f ?b)) seen) names =
      map column_label (numbered (f(?b := Suc (f ?b))) (map base_name names))"
    using Cons.prems by (intro Cons.IH) (auto simp: map_of_update)
  then show ?case using Cons.prems [of ?b] by (simp add: Let_def)
qed simp

lemma numbered_ge: "(b, n) \<in> set (numbered f bs) \<Longrightarrow> f b \<le> n \<and> b \<in> set bs"
  by (induction bs arbitrary: f) (fastforce split: if_splits)+

lemma numbered_distinct: "distinct (numbered f bs)"
proof (induction bs arbitrary: f)
  case (Cons b bs)
  have "(b, f b) \<notin> set (numbered (f(b := Suc (f b))) bs)"
    using numbered_ge [of b "f b" "f(b := Suc (f b))" bs] by auto
  then show ?case using Cons by simp
qed simp

lemma split_at_last:
  assumes "a @ c # p = b @ c # q" and "c \<notin> set p" and "c \<notin> set q"
  shows "a = b \<and> p = q"
proof -
  have "takeWhile (\<lambda>x. x \<noteq> c) (rev (a @ c # p)) = rev p" "takeWhile (\<lambda>x. x \<noteq> c) (rev (b @ c # q)) = rev q"
    using assms(2,3) by (auto simp: takeWhile_append)
  then show ?thesis using assms(1) by (metis append_same_eq rev_rev_ident)
qed

text \<open>The column names are distinct, provided no name given looks like the numbered form of another one.\<close>

theorem dedupe_distinct:
  assumes "\<forall>a \<in> set (map base_name names). \<forall>b \<in> set (map base_name names). \<forall>n. a \<noteq> b @ u ''_'' @ str_of_int (int (Suc n))"
  shows "distinct (dedupe_column_names names) \<and> length (dedupe_column_names names) = length names"
proof -
  let ?bs = "map base_name names"
  let ?xs = "numbered (\<lambda>b. 0) ?bs"
  have out: "dedupe_column_names names = map column_label ?xs"
    unfolding dedupe_column_names_def by (rule dedupe_numbered) simp
  have "inj_on column_label (set ?xs)"
  proof (rule inj_onI)
    fix x y
    assume xy: "x \<in> set ?xs" "y \<in> set ?xs" "column_label x = column_label y"
    obtain a m b n where ab: "x = (a, m)" "y = (b, n)" by (cases x; cases y)
    have mem: "a \<in> set ?bs" "b \<in> set ?bs" using xy numbered_ge ab by blast+
    show "x = y"
    proof (cases "m = 0 \<or> n = 0")
      case True
      have "m = 0 \<and> n = 0"
      proof (rule ccontr)
        assume "\<not> (m = 0 \<and> n = 0)"
        then consider k where "m = 0" "n = Suc k" | k where "n = 0" "m = Suc k" using True by (metis not0_implies_Suc)
        then show False
        proof cases
          case 1
          then have "a = b @ u ''_'' @ str_of_int (int (Suc k))" using xy(3) by (simp add: ab column_label_def)
          then show ?thesis using assms mem by blast
        next
          case 2
          then have "b = a @ u ''_'' @ str_of_int (int (Suc k))" using xy(3) by (simp add: ab column_label_def)
          then show ?thesis using assms mem by blast
        qed
      qed
      then show ?thesis using xy(3) by (simp add: ab column_label_def)
    next
      case False
      then have eq: "a @ u ''_'' @ str_of_int (int m) = b @ u ''_'' @ str_of_int (int n)"
        using xy(3) by (simp add: ab column_label_def)
      have digits: "u ''_'' ! 0 = 95" "95 \<notin> set (str_of_int (int k))" for k
        using dec_digits_digit [of k] by (auto simp: u_def str_of_int_def list_all_iff is_digit_def)
      have "a = b \<and> str_of_int (int m) = str_of_int (int n)"
        using eq split_at_last [of a 95 "str_of_int (int m)" b "str_of_int (int n)"] digits(2) by (simp add: u_def)
      then show ?thesis using dec_digits_inj by (simp add: ab str_of_int_def)
    qed
  qed
  then have "distinct (map column_label ?xs)" by (simp add: distinct_map numbered_distinct)
  moreover have "length (numbered f bs) = length bs" for f bs by (induction bs arbitrary: f) simp_all
  ultimately show ?thesis by (simp add: out)
qed

text \<open>Two columns of one name and a third that looks like the second's numbered form get the same name twice.\<close>

theorem dedupe_repeats_name:
  "dedupe_column_names [u ''a'', u ''a'', u ''a_1''] = [u ''a'', u ''a_1'', u ''a_1'']"
  by (simp add: dedupe_column_names_def base_name_def column_label_def u_def strip_def lstrip_def rstrip_def is_space_def
      str_of_int_def dec_digits.simps Let_def)


theorem dedupe_distinct_witness:
  "distinct (dedupe_column_names [u ''a'', u '' '', u ''a'']) \<and> length (dedupe_column_names [u ''a'', u '' '', u ''a'']) = length [u ''a'', u '' '', u ''a'']"
proof (rule dedupe_distinct)
  have "map base_name [u ''a'', u '' '', u ''a''] = [u ''a'', u ''column'', u ''a'']"
    by (simp add: base_name_def u_def strip_def lstrip_def rstrip_def is_space_def Let_def)
  moreover have "\<forall>n. 95 \<in> set (b @ u ''_'' @ str_of_int n)" for b :: pystr by (simp add: u_def)
  moreover have "95 \<notin> set (u ''a'')" "95 \<notin> set (u ''column'')" by (simp_all add: u_def)
  ultimately show "\<forall>a \<in> set (map base_name [u ''a'', u '' '', u ''a'']). \<forall>b \<in> set (map base_name [u ''a'', u '' '', u ''a'']).
      \<forall>n. a \<noteq> b @ u ''_'' @ str_of_int (int (Suc n))" by (metis set_ConsD empty_iff list.set(1))
qed

subsection \<open>Arguments of the add-in function\<close>

text \<open>What PyUNO adds to Python's values: an \<open>uno.Any\<close> wraps a value, and an object may be iterated.\<close>

record pyuno =
  any_value :: "pyobj \<Rightarrow> val option"
  iterated :: "pyobj \<Rightarrow> val list option"

definition unwrap_any :: "pyuno \<Rightarrow> val \<Rightarrow> val" where
  "unwrap_any U v = (case v of VObj ob \<Rightarrow> (case any_value U ob of Some w \<Rightarrow> w | None \<Rightarrow> v) | _ \<Rightarrow> v)"

definition unwrap_cell :: "pyuno \<Rightarrow> pystr list \<Rightarrow> pystr list \<Rightarrow> val \<Rightarrow> val" where
  "unwrap_cell U trues falses v =
     (case unwrap_any U v of
        VStr s \<Rightarrow>
          if s = [] then VNone
          else if strip s \<in> set trues then VBool True
          else if strip s \<in> set falses then VBool False
          else VStr s
      | w \<Rightarrow> w)"

text \<open>\<open>list(v)\<close> of what \<open>_is_row_sequence\<close> accepts.\<close>

fun row_sequence :: "pyuno \<Rightarrow> val \<Rightarrow> val list option" where
  "row_sequence U (VList xs) = Some xs"
| "row_sequence U (VTuple xs) = Some xs"
| "row_sequence U (VDict d) = Some (map (\<lambda>x. key_val (fst x)) d)"
| "row_sequence U (VObj ob) = iterated U ob"
| "row_sequence U v = None"

text \<open>Rows that a comprehension iterates: a string among them gives its characters.\<close>

definition iterate :: "pyuno \<Rightarrow> val \<Rightarrow> val list option" where
  "iterate U v = (case row_sequence U v of Some xs \<Rightarrow> Some xs | None \<Rightarrow> list_of v)"

fun iterate_all :: "pyuno \<Rightarrow> val list \<Rightarrow> val list list option" where
  "iterate_all U [] = Some []"
| "iterate_all U (v # vs) = (case (iterate U v, iterate_all U vs) of (Some r, Some rs) \<Rightarrow> Some (r # rs) | _ \<Rightarrow> None)"

definition is_legacy_single_column_range :: "val list \<Rightarrow> bool" where
  "is_legacy_single_column_range xs \<longleftrightarrow>
     1 < length xs \<and> list_all (\<lambda>v. case items_of v of Some [w] \<Rightarrow> \<not> is_sequence w | _ \<Rightarrow> False) xs"

definition split_python_addin_data_args :: "pyuno \<Rightarrow> val \<Rightarrow> val list" where
  "split_python_addin_data_args U raw =
     (if raw = VNone then []
      else let v = unwrap_cell U [] [] raw
        in case row_sequence U v of
             None \<Rightarrow> [v]
           | Some xs \<Rightarrow> if is_legacy_single_column_range xs then [v] else xs)"

text \<open>\<open>calc_addin_data_to_python\<close>; the inner \<open>None\<close> is Python's, the error is the \<open>TypeError\<close> of a row that cannot
  be iterated.\<close>

definition calc_addin_data_to_python ::
  "pyuno \<Rightarrow> pystr list \<Rightarrow> pystr list \<Rightarrow> val \<Rightarrow> codec_error + val list list option" where
  "calc_addin_data_to_python U trues falses value =
     (if value = VNone then Inr None
      else let v = unwrap_cell U trues falses value
        in case row_sequence U v of
             None \<Rightarrow> Inr (Some [[v]])
           | Some rows \<Rightarrow>
               if rows = [] then Inr (Some [])
               else if row_sequence U (hd rows) \<noteq> None
               then (case iterate_all U rows of
                   None \<Rightarrow> Inl TypeErr
                 | Some rs \<Rightarrow>
                     let grid = map (map (unwrap_cell U trues falses)) rs
                     in if 1 < length grid \<and> list_all (\<lambda>r. length r = 1) grid then Inr (Some grid)
                        else map_sum id Some (ensure_rectangular_2d (VList (map VList grid))))
               else Inr (Some [map (unwrap_cell U trues falses) rows]))"

definition calc_addin_args_from_split ::
  "pyuno \<Rightarrow> pystr list \<Rightarrow> pystr list \<Rightarrow> val list \<Rightarrow> codec_error + (val list list option + val list list list) option" where
  "calc_addin_args_from_split U trues falses args =
     (case args of
        [] \<Rightarrow> Inr None
      | [a] \<Rightarrow> andthen (calc_addin_data_to_python U trues falses a) (\<lambda>r. Some (Inl r))
      | _ \<Rightarrow> andthen (traverse (\<lambda>a. andthen (calc_addin_data_to_python U trues falses a) (case_option [] id)) args)
               (\<lambda>gs. Some (Inr gs)))"

text \<open>Whatever Calc passes as the argument of the function, a script sees a rectangular table.\<close>

theorem addin_data_rectangular:
  assumes "calc_addin_data_to_python U trues falses value = Inr (Some rows)"
  shows "list_all (\<lambda>r. length r = length (hd rows)) rows"
proof -
  let ?v = "unwrap_cell U trues falses value"
  have nn: "value \<noteq> VNone" using assms by (auto simp: calc_addin_data_to_python_def)
  show ?thesis
  proof (cases "row_sequence U ?v")
    case None
    then show ?thesis using assms nn by (auto simp: calc_addin_data_to_python_def Let_def)
  next
    case (Some rs)
    note seq = Some
    show ?thesis
    proof (cases "rs = [] \<or> row_sequence U (hd rs) = None")
      case True
      then show ?thesis using assms nn seq by (auto simp: calc_addin_data_to_python_def Let_def split: if_splits)
    next
      case False
      then obtain rss where rss: "iterate_all U rs = Some rss"
        using assms nn seq by (auto simp: calc_addin_data_to_python_def Let_def split: option.splits if_splits)
      define grid where "grid = map (map (unwrap_cell U trues falses)) rss"
      have "(if 1 < length grid \<and> list_all (\<lambda>r. length r = 1) grid then Inr (Some grid)
          else map_sum id Some (ensure_rectangular_2d (VList (map VList grid)))) = Inr (Some rows)"
        using assms nn seq False rss by (auto simp add: calc_addin_data_to_python_def Let_def grid_def simp del: map_map split: if_split_asm)
      then consider "rows = grid" "list_all (\<lambda>r. length r = 1) grid" | "ensure_rectangular_2d (VList (map VList grid)) = Inr rows"
        by (cases "ensure_rectangular_2d (VList (map VList grid))") (auto split: if_splits)
      then show ?thesis
      proof cases
        case 1
        then show ?thesis by (cases rows) (auto simp: list_all_iff)
      next
        case 2
        then show ?thesis by (rule rectangular_result)
      qed
    qed
  qed
qed

definition plain_uno :: pyuno where
  "plain_uno = \<lparr>any_value = (\<lambda>ob. None), iterated = (\<lambda>ob. None)\<rparr>"

theorem addin_data_rectangular_witness:
  "calc_addin_data_to_python plain_uno [u ''TRUE''] [] (VTuple [VTuple [VStr (u '' TRUE''), VStr []], VTuple [VInt 1]])
     = Inr (Some [[VBool True, VNone], [VInt 1, VNone]])
   \<and> list_all (\<lambda>r. length r = length (hd [[VBool True, VNone], [VInt 1, VNone]])) [[VBool True, VNone], [VInt 1, VNone]]"
proof -
  have "calc_addin_data_to_python plain_uno [u ''TRUE''] [] (VTuple [VTuple [VStr (u '' TRUE''), VStr []], VTuple [VInt 1]])
     = Inr (Some [[VBool True, VNone], [VInt 1, VNone]])"
    by (simp add: calc_addin_data_to_python_def unwrap_cell_def unwrap_any_def iterate_def ensure_rectangular_2d_def
        is_sequence_def padded_def max_width_def u_def strip_def lstrip_def rstrip_def is_space_def Let_def)
  then show ?thesis using addin_data_rectangular by blast
qed

end
