(* ===== verification/StreamText.thy ===== *)
theory StreamText
  imports PyStr
begin

text \<open>
  Text that arrives in pieces (\<open>framework/client/stream_normalizer.py\<close>, \<open>framework/html_stripper.py\<close>): the
  splitter that tells the thoughts of a model from its answer by inline tags, the same separation on the complete
  text, and the stripper of HTML tags. The locale \<open>chunk_machine\<close> states what the two machines promise: what they
  put out depends on the text, not on the pieces.
\<close>

subsection \<open>Machines fed in pieces\<close>

fun feeds :: "('s \<Rightarrow> 'c \<Rightarrow> 's \<times> 'o) \<Rightarrow> 's \<Rightarrow> 'c list \<Rightarrow> 's \<times> 'o list" where
  "feeds feed s [] = (s, [])"
| "feeds feed s (c # cs) =
     (let (t, out) = feed s c; (t', outs) = feeds feed t cs in (t', out # outs))"

locale chunk_machine =
  fixes feed :: "'s \<Rightarrow> 'c list \<Rightarrow> 's \<times> 'o"
    and finish :: "'s \<Rightarrow> 'o"
    and shown :: "'o \<Rightarrow> 'b list"
    and spec :: "'s \<Rightarrow> 'c list \<Rightarrow> 'b list"
    and ok :: "'s \<Rightarrow> bool"
  assumes feed_ok: "ok s \<Longrightarrow> ok (fst (feed s c))"
    and feed_spec: "ok s \<Longrightarrow> shown (snd (feed s c)) @ spec (fst (feed s c)) rest = spec s (c @ rest)"
    and finish_spec: "ok s \<Longrightarrow> shown (finish s) = spec s []"
begin

lemma feeds_ok: "ok s \<Longrightarrow> ok (fst (feeds feed s cs))"
  using feed_ok by (induction cs arbitrary: s) (simp_all add: split_beta Let_def)

lemma feeds_spec:
  "ok s \<Longrightarrow> concat (map shown (snd (feeds feed s cs))) @ spec (fst (feeds feed s cs)) rest = spec s (concat cs @ rest)"
proof (induction cs arbitrary: s)
  case Nil
  then show ?case by simp
next
  case (Cons c cs)
  then show ?case
    using feed_ok [OF Cons.prems, of c] feed_spec [OF Cons.prems, of c "concat cs @ rest"]
    by (simp add: split_beta Let_def)
qed

lemma run_spec:
  assumes "ok s"
  shows "concat (map shown (snd (feeds feed s cs))) @ shown (finish (fst (feeds feed s cs))) = spec s (concat cs)"
  using feeds_spec [OF assms, of cs "[]"] finish_spec [OF feeds_ok [OF assms]] by simp

end

subsection \<open>Searching in a text that grows\<close>

lemma find_sub_extend: "p \<noteq> [] \<Longrightarrow> find_sub p s = Some i \<Longrightarrow> find_sub p (s @ t) = Some i"
proof (induction p s arbitrary: i rule: find_sub.induct)
  case (1 p)
  then show ?case by simp
next
  case (2 p c cs)
  show ?case
  proof (cases "prefix p (c # cs)")
    case True
    then have "prefix p ((c # cs) @ t)" by (rule prefix_prefix)
    then show ?thesis using True "2.prems" by simp
  next
    case False
    then obtain j where j: "find_sub p cs = Some j" "i = Suc j" using "2.prems" by auto
    have "length p \<le> length cs"
      using find_sub_Some [OF j(1)] by (metis add_leD2 le_add_diff_inverse length_drop length_take min.absorb_iff2 min.commute
        diff_le_self order.trans)
    then have "\<not> prefix p ((c # cs) @ t)"
      using False by (metis le_SucI length_Cons prefix_length_prefix prefix_order.refl prefix_prefix same_prefix_prefix
        prefix_append append_Nil2 prefixI prefix_length_le)
    then show ?thesis using "2.IH" [OF False "2.prems"(1) j(1)] j(2) by simp
  qed
qed

lemma find_sub_skip:
  assumes "p \<noteq> []" and "\<And>i. i < length a \<Longrightarrow> \<not> prefix p (drop i a @ s)"
  shows "find_sub p (a @ s) = map_option ((+) (length a)) (find_sub p s)"
  using assms(2)
proof (induction a)
  case Nil
  then show ?case by (simp add: option.map_ident_strong)
next
  case (Cons x a)
  have "\<not> prefix p ((x # a) @ s)" using Cons.prems [of 0] by simp
  moreover have "find_sub p (a @ s) = map_option ((+) (length a)) (find_sub p s)"
    using Cons.prems [of "Suc i" for i] by (intro Cons.IH) auto
  ultimately show ?case by (simp add: option.map_comp comp_def)
qed

lemma find_sub_None_prefix: "find_sub p s = None \<Longrightarrow> i \<le> length s \<Longrightarrow> \<not> prefix p (drop i s)"
  using find_sub_None [of p s i] by (auto elim!: prefixE)

subsection \<open>The splitter of thoughts\<close>

text \<open>The tag the splitter looks for: the opening one outside a thought, the closing one inside.\<close>

definition think_tag :: "bool \<Rightarrow> pystr" where
  "think_tag thinking = (if thinking then u ''</think>'' else u ''<think>'')"

record splitter =
  in_thinking :: bool
  kept :: pystr

definition new_splitter :: splitter where
  "new_splitter = \<lparr>in_thinking = False, kept = []\<rparr>"

text \<open>The longest end of the text, of at most \<open>n\<close> characters, that may be the beginning of the tag.\<close>

fun partial_up_to :: "nat \<Rightarrow> pystr \<Rightarrow> pystr \<Rightarrow> nat option" where
  "partial_up_to 0 t s = None"
| "partial_up_to (Suc n) t s =
     (if prefix (drop (length s - Suc n) s) t then Some (Suc n) else partial_up_to n t s)"

definition partial_tag :: "pystr \<Rightarrow> pystr \<Rightarrow> nat option" where
  "partial_tag t s = partial_up_to (min (length t - 1) (length s)) t s"

function split_loop :: "bool \<Rightarrow> pystr \<Rightarrow> (bool \<times> pystr) list \<times> splitter" where
  "split_loop b s =
     (if s = [] then ([], \<lparr>in_thinking = b, kept = []\<rparr>)
      else case find_sub (think_tag b) s of
        Some i \<Rightarrow>
          let (res, st) = split_loop (\<not> b) (drop (i + length (think_tag b)) s)
          in ((if 0 < i then [(b, take i s)] else []) @ res, st)
      | None \<Rightarrow>
          (case partial_tag (think_tag b) s of
             Some p \<Rightarrow> ((if p < length s then [(b, take (length s - p) s)] else []),
                        \<lparr>in_thinking = b, kept = drop (length s - p) s\<rparr>)
           | None \<Rightarrow> ([(b, s)], \<lparr>in_thinking = b, kept = []\<rparr>)))"
  by auto
termination
  by (relation "measure (\<lambda>(b, s). length s)") (auto simp: think_tag_def u_def)

declare split_loop.simps [simp del]

definition split_feed :: "splitter \<Rightarrow> pystr \<Rightarrow> splitter \<times> (bool \<times> pystr) list" where
  "split_feed st chunk =
     (if chunk = [] then (st, [])
      else let (res, t) = split_loop (in_thinking st) (kept st @ chunk)
           in (t, filter (\<lambda>(b, s). s \<noteq> []) res))"

definition split_flush :: "splitter \<Rightarrow> (bool \<times> pystr) list" where
  "split_flush st = (if kept st = [] then [] else [(in_thinking st, kept st)])"

text \<open>What is shown, character by character, and the same for a complete text: every character outside a tag, marked
  by whether it belongs to a thought.\<close>

definition marked :: "(bool \<times> pystr) list \<Rightarrow> (bool \<times> nat) list" where
  "marked res = concat (map (\<lambda>(b, s). map (Pair b) s) res)"

function marks :: "bool \<Rightarrow> pystr \<Rightarrow> (bool \<times> nat) list" where
  "marks b s =
     (case find_sub (think_tag b) s of
        None \<Rightarrow> map (Pair b) s
      | Some i \<Rightarrow> map (Pair b) (take i s) @ (if s = [] then [] else marks (\<not> b) (drop (i + length (think_tag b)) s)))"
  by auto
termination
  by (relation "measure (\<lambda>(b, s). length s)") (auto simp: think_tag_def u_def)

declare marks.simps [simp del]

lemma think_tag_ne [simp]: "think_tag b \<noteq> []"
  by (simp add: think_tag_def)

lemma marks_Nil [simp]: "marks b [] = []"
  by (subst marks.simps) simp

lemma marked_simps [simp]:
  "marked [] = []" "marked ((b, s) # res) = map (Pair b) s @ marked res" "marked (xs @ ys) = marked xs @ marked ys"
  by (simp_all add: marked_def)

lemma marked_filter: "marked (filter (\<lambda>(b, s). s \<noteq> []) res) = marked res"
  by (induction res) (auto simp: marked_def)

text \<open>The tag cannot begin before the part that is kept.\<close>

lemma partial_up_to_None: "partial_up_to n t s = None \<Longrightarrow> 0 < p \<Longrightarrow> p \<le> n \<Longrightarrow> \<not> prefix (drop (length s - p) s) t"
  by (induction n) (auto simp: le_Suc_eq split: if_splits)

lemma partial_up_to_Some:
  "partial_up_to n t s = Some p \<Longrightarrow> 0 < p \<and> p \<le> n \<and> prefix (drop (length s - p) s) t
    \<and> (\<forall>q. p < q \<and> q \<le> n \<longrightarrow> \<not> prefix (drop (length s - q) s) t)"
  by (induction n) (auto simp: le_Suc_eq split: if_splits)

lemma partial_tag_None:
  assumes "partial_tag t s = None" and "0 < p" and "p \<le> length s" and "p < length t"
  shows "\<not> prefix (drop (length s - p) s) t"
  using partial_up_to_None [OF assms(1) [unfolded partial_tag_def] assms(2)] assms(3,4) by simp

lemma partial_tag_Some:
  assumes "partial_tag t s = Some p"
  shows "0 < p" and "p \<le> length s" and "p < length t \<or> t = []" and "prefix (drop (length s - p) s) t"
    and "p < q \<Longrightarrow> q \<le> length s \<Longrightarrow> q < length t \<Longrightarrow> \<not> prefix (drop (length s - q) s) t"
  using partial_up_to_Some [OF assms [unfolded partial_tag_def]] by auto

lemma no_tag_before:
  assumes "find_sub t s = None" and "\<And>q. p < q \<Longrightarrow> q \<le> length s \<Longrightarrow> q < length t \<Longrightarrow> \<not> prefix (drop (length s - q) s) t"
    and "i < length s - p"
  shows "\<not> prefix t (drop i s @ r)"
proof
  assume pre: "prefix t (drop i s @ r)"
  show False
  proof (cases "length t \<le> length s - i")
    case True
    then have "prefix t (drop i s)" using pre by (metis length_drop prefix_length_prefix prefixI)
    then show False using find_sub_None_prefix [OF assms(1), of i] assms(3) by simp
  next
    case False
    then have "prefix (drop i s) t" using pre by (metis le_cases length_drop prefix_length_prefix prefixI)
    moreover have "p < length s - i" "i \<le> length s" using assms(3) by linarith+
    ultimately show False using assms(2) [of "length s - i"] False by simp
  qed
qed

lemma marks_keep:
  assumes "find_sub (think_tag b) s = None" and "p \<le> length s"
    and "\<And>q. p < q \<Longrightarrow> q \<le> length s \<Longrightarrow> q < length (think_tag b) \<Longrightarrow> \<not> prefix (drop (length s - q) s) (think_tag b)"
  shows "map (Pair b) (take (length s - p) s) @ marks b (drop (length s - p) s @ r) = marks b (s @ r)"
proof -
  let ?a = "take (length s - p) s" and ?k = "drop (length s - p) s @ r"
  have d: "drop i ?a @ ?k = drop i s @ r" if "i < length ?a" for i
  proof -
    have "drop i s = drop i ?a @ drop (length s - p) s"
      using that drop_append [of i ?a "drop (length s - p) s"] by simp
    then show ?thesis by simp
  qed
  have "\<not> prefix (think_tag b) (drop i ?a @ ?k)" if "i < length ?a" for i
    unfolding d [OF that] using no_tag_before [OF assms(1,3), where i = i and r = r] that by simp
  then have f: "find_sub (think_tag b) (?a @ ?k) = map_option ((+) (length ?a)) (find_sub (think_tag b) ?k)"
    by (intro find_sub_skip) simp_all
  have "map (Pair b) a @ marks b k = marks b (a @ k)"
    if f: "find_sub (think_tag b) (a @ k) = map_option ((+) (length a)) (find_sub (think_tag b) k)" for a k
  proof (cases "find_sub (think_tag b) k")
    case None
    then show ?thesis using f by (simp add: marks.simps [of b k] marks.simps [of b "a @ k"])
  next
    case (Some i)
    then have "k \<noteq> []" by auto
    then show ?thesis using f Some by (simp add: marks.simps [of b k] marks.simps [of b "a @ k"])
  qed
  note joined = this [OF f]
  have "?a @ ?k = s @ r" by (metis append_assoc append_take_drop_id)
  then show ?thesis using joined by (simp only:)
qed


text \<open>What a splitter has yet to say about the text still to come.\<close>

definition to_come :: "splitter \<Rightarrow> pystr \<Rightarrow> (bool \<times> nat) list" where
  "to_come st s = marks (in_thinking st) (kept st @ s)"

definition splitter_ok :: "splitter \<Rightarrow> bool" where
  "splitter_ok st \<longleftrightarrow> kept st = [] \<or> (strict_prefix (kept st) (think_tag (in_thinking st)))"

lemma split_loop_spec:
  "marked (fst (split_loop b s)) @ to_come (snd (split_loop b s)) r = marks b (s @ r)
    \<and> splitter_ok (snd (split_loop b s))"
proof (induction b s rule: split_loop.induct)
  case (1 b s)
  show ?case
  proof (cases "s = []")
    case True
    then show ?thesis by (simp add: split_loop.simps to_come_def splitter_ok_def)
  next
    case False
    show ?thesis
    proof (cases "find_sub (think_tag b) s")
      case (Some i)
      let ?rest = "drop (i + length (think_tag b)) s"
      have f: "find_sub (think_tag b) (s @ r) = Some i" using Some by (intro find_sub_extend) simp_all
      have len: "i + length (think_tag b) \<le> length s"
      proof -
        have "take (length (think_tag b)) (drop i s) = think_tag b" "i \<le> length s" using find_sub_Some [OF Some] by simp_all
        then have "length (think_tag b) \<le> length s - i" by (metis length_drop length_take min.absorb_iff2 min.commute)
        then show ?thesis using \<open>i \<le> length s\<close> by simp
      qed
      have "marks b (s @ r) = map (Pair b) (take i s) @ marks (\<not> b) (?rest @ r)"
        using False len by (simp add: marks.simps [of b "s @ r"] f)
      moreover have "marked (fst (split_loop (\<not> b) ?rest)) @ to_come (snd (split_loop (\<not> b) ?rest)) r = marks (\<not> b) (?rest @ r)
        \<and> splitter_ok (snd (split_loop (\<not> b) ?rest))" by (rule "1.IH" [OF False Some])
      ultimately show ?thesis using False Some
        by (simp add: split_loop.simps [of b s] split_beta Let_def)
    next
      case None
      show ?thesis
      proof (cases "partial_tag (think_tag b) s")
        case (Some p)
        note P = partial_tag_Some [OF Some]
        have "map (Pair b) (take (length s - p) s) @ marks b (drop (length s - p) s @ r) = marks b (s @ r)"
          by (rule marks_keep [OF None P(2)]) (use P(5) in blast)
        moreover have "strict_prefix (drop (length s - p) s) (think_tag b)"
          using P(1-4) by (auto simp: strict_prefix_def) (metis diff_diff_cancel length_drop less_irrefl)
        ultimately show ?thesis using False None Some P(1,2)
          by (auto simp: split_loop.simps [of b s] to_come_def splitter_ok_def)
      next
        case none: None
        have "map (Pair b) (take (length s - 0) s) @ marks b (drop (length s - 0) s @ r) = marks b (s @ r)"
          by (rule marks_keep [OF None]) (use partial_tag_None [OF none] in auto)
        then show ?thesis using False None none by (simp add: split_loop.simps [of b s] to_come_def splitter_ok_def)
      qed
    qed
  qed
qed

lemma short_marks: "length s < length (think_tag b) \<Longrightarrow> marks b s = map (Pair b) s"
proof -
  assume a: "length s < length (think_tag b)"
  have "find_sub (think_tag b) s = None"
  proof (rule ccontr)
    assume "find_sub (think_tag b) s \<noteq> None"
    then obtain i where "find_sub (think_tag b) s = Some i" by auto
    then have "take (length (think_tag b)) (drop i s) = think_tag b" using find_sub_Some by blast
    then have "length (think_tag b) \<le> length s" by (metis diff_le_self le_trans length_drop length_take min.cobounded1)
    then show False using a by simp
  qed
  then show ?thesis by (simp add: marks.simps [of b s])
qed

interpretation think: chunk_machine split_feed split_flush marked to_come splitter_ok
proof unfold_locales
  fix st c rest
  assume ok: "splitter_ok st"
  have l: "marked (fst (split_loop (in_thinking st) (kept st @ c))) @ to_come (snd (split_loop (in_thinking st) (kept st @ c))) rest
      = marks (in_thinking st) (kept st @ c @ rest)"
    "splitter_ok (snd (split_loop (in_thinking st) (kept st @ c)))"
    using split_loop_spec [of "in_thinking st" "kept st @ c" rest] by simp_all
  show "splitter_ok (fst (split_feed st c))" using ok l(2) by (simp add: split_feed_def split_beta)
  show "marked (snd (split_feed st c)) @ to_come (fst (split_feed st c)) rest = to_come st (c @ rest)"
    using l(1) by (simp add: split_feed_def split_beta marked_filter to_come_def)
next
  fix st
  assume "splitter_ok st"
  then have "length (kept st) < length (think_tag (in_thinking st))"
    by (auto simp: splitter_ok_def intro: prefix_length_less)
  then show "marked (split_flush st) = to_come st []" by (simp add: split_flush_def to_come_def short_marks)
qed

definition splitter_shows :: "pystr list \<Rightarrow> (bool \<times> nat) list" where
  "splitter_shows cs =
     marked (concat (snd (feeds split_feed new_splitter cs)) @ split_flush (fst (feeds split_feed new_splitter cs)))"

lemma splitter_marks: "splitter_shows cs = marks False (concat cs)"
proof -
  have "splitter_ok new_splitter" by (simp add: splitter_ok_def new_splitter_def)
  moreover have "marked (concat xs) = concat (map marked xs)" for xs by (induction xs) simp_all
  ultimately show ?thesis using think.run_spec [of new_splitter cs]
    by (simp add: splitter_shows_def to_come_def new_splitter_def)
qed

text \<open>C5: However a text is cut into pieces, the splitter shows the same characters in the same order, each as answer
  or thought: those outside the tags of the whole text, nothing twice and nothing lost.\<close>

theorem splitter_ignores_chunks: "splitter_shows cs = marks False (concat cs)"
  by (rule splitter_marks)

subsection \<open>Separating a complete text\<close>

text \<open>\<open>re.sub\<close> with the lazy pattern takes the leftmost opening tag with a closing one behind it, and the first of
  these; without one behind the leftmost there is none behind a later one. The result are the thoughts and the rest.\<close>

function sub_blocks :: "pystr \<Rightarrow> pystr list \<times> pystr" where
  "sub_blocks s =
     (case find_sub (think_tag False) s of
        None \<Rightarrow> ([], s)
      | Some i \<Rightarrow>
          let body = drop (i + length (think_tag False)) s
          in case find_sub (think_tag True) body of
               None \<Rightarrow> ([], s)
             | Some j \<Rightarrow>
                 if s = [] then ([], s)
                 else let (ts, rest) = sub_blocks (drop (j + length (think_tag True)) body)
                      in (take j body # ts, take i s @ rest))"
  by auto
termination
  by (relation "measure length") (auto simp: think_tag_def u_def)

declare sub_blocks.simps [simp del]

definition thoughts_of :: "pystr \<Rightarrow> pystr list \<times> pystr" where
  "thoughts_of s =
     (let (ts, clean) = sub_blocks s
      in case find_sub (think_tag False) clean of
           None \<Rightarrow> (ts, clean)
         | Some i \<Rightarrow> (ts @ [drop (i + length (think_tag False)) clean], take i clean))"

definition strip_think_tags :: "pystr option \<Rightarrow> pystr \<times> pystr option" where
  "strip_think_tags text =
     (case text of
        None \<Rightarrow> ([], None)
      | Some [] \<Rightarrow> ([], None)
      | Some s \<Rightarrow>
          let (ts, clean) = thoughts_of s
          in (strip clean,
              if ts \<noteq> [] then Some (join (nl @ nl) (filter (\<lambda>t. t \<noteq> []) (map strip ts))) else None))"

definition part :: "bool \<Rightarrow> (bool \<times> nat) list \<Rightarrow> pystr" where
  "part b ms = map snd (filter (\<lambda>m. fst m = b) ms)"

lemma part_simps [simp]:
  "part b [] = []" "part b (map (Pair b) s) = s" "part b (map (Pair (\<not> b)) s) = []"
  "part b (xs @ ys) = part b xs @ part b ys"
  by (simp_all add: part_def filter_map comp_def)

lemma part_marks [simp]:
  "part False (map (Pair False) s) = s" "part True (map (Pair True) s) = s"
  "part False (map (Pair True) s) = []" "part True (map (Pair False) s) = []"
  using part_simps(2,3) [of False s] part_simps(2,3) [of True s] by simp_all

lemma find_tag_Some:
  assumes "find_sub (think_tag b) s = Some i"
  shows "s = take i s @ think_tag b @ drop (i + length (think_tag b)) s" and "s \<noteq> []" and "length (take i s) = i"
proof -
  have "take (length (think_tag b)) (drop i s) = think_tag b" "i \<le> length s" using find_sub_Some [OF assms] by simp_all
  then show "s = take i s @ think_tag b @ drop (i + length (think_tag b)) s" "length (take i s) = i"
    by (metis add.commute append_take_drop_id drop_drop, simp)
  then show "s \<noteq> []" using think_tag_ne [of b] by (metis append_is_Nil_conv)
qed

text \<open>The separation by \<open>sub\<close> in terms of the marks: an unclosed thought stays in the rest, behind its tag.\<close>

lemma sub_blocks_marks:
  "(\<exists>open_thought. snd (sub_blocks s) = part False (marks False s) @ open_thought
      \<and> (open_thought = [] \<and> concat (fst (sub_blocks s)) = part True (marks False s)
        \<or> (\<exists>r. open_thought = think_tag False @ r \<and> concat (fst (sub_blocks s)) @ r = part True (marks False s))))"
proof (induction s rule: sub_blocks.induct)
  case (1 s)
  show ?case
  proof (cases "find_sub (think_tag False) s")
    case None
    then show ?thesis by (simp add: sub_blocks.simps [of s] marks.simps [of False s])
  next
    case (Some i)
    note S = find_tag_Some [OF Some]
    let ?body = "drop (i + length (think_tag False)) s"
    have m: "marks False s = map (Pair False) (take i s) @ marks True ?body"
      using Some S(2) by (simp add: marks.simps [of False s])
    show ?thesis
    proof (cases "find_sub (think_tag True) ?body")
      case None
      then have "marks True ?body = map (Pair True) ?body" by (simp add: marks.simps [of True ?body])
      moreover have "sub_blocks s = ([], s)" using Some None by (simp add: sub_blocks.simps [of s] Let_def)
      ultimately show ?thesis using m S(1) by (intro exI [of _ "think_tag False @ ?body"]) simp
    next
      case j: (Some j)
      let ?rest = "drop (j + length (think_tag True)) ?body"
      have mb: "marks True ?body = map (Pair True) (take j ?body) @ marks False ?rest"
        using j find_tag_Some(2) [OF j] by (simp add: marks.simps [of True ?body])
      have sb: "sub_blocks s = (take j ?body # fst (sub_blocks ?rest), take i s @ snd (sub_blocks ?rest))"
        using Some j S(2) by (simp add: sub_blocks.simps [of s] Let_def split_beta)
      have "\<exists>open_thought. snd (sub_blocks ?rest) = part False (marks False ?rest) @ open_thought
        \<and> (open_thought = [] \<and> concat (fst (sub_blocks ?rest)) = part True (marks False ?rest)
          \<or> (\<exists>r. open_thought = think_tag False @ r \<and> concat (fst (sub_blocks ?rest)) @ r = part True (marks False ?rest)))"
        using "1.IH" [OF Some refl j S(2)] by simp
      then show ?thesis by (auto simp: sb m mb)
    qed
  qed
qed

text \<open>The opening tag contains its first character once, so a new tag cannot begin inside one.\<close>

lemma find_before_tag:
  "find_sub (think_tag False) (a @ think_tag False @ r) =
     (case find_sub (think_tag False) a of Some i \<Rightarrow> Some i | None \<Rightarrow> Some (length a))"
proof (cases "find_sub (think_tag False) a")
  case (Some i)
  then show ?thesis using find_sub_extend [of "think_tag False" a i "think_tag False @ r"] by simp
next
  case None
  have "\<not> prefix (think_tag False) (drop i a @ think_tag False @ r)" if i: "i < length a" for i
  proof
    assume pre: "prefix (think_tag False) (drop i a @ think_tag False @ r)"
    show False
    proof (cases "length (think_tag False) \<le> length a - i")
      case True
      then have "prefix (think_tag False) (drop i a)" using pre by (metis length_drop prefix_length_prefix prefixI)
      then show False using find_sub_None_prefix [OF None, of i] i by simp
    next
      case False
      then have k: "0 < length (drop i a)" "length (drop i a) < length (think_tag False)" using i by auto
      obtain z where "drop i a @ think_tag False @ r = think_tag False @ z" using pre by (auto elim: prefixE)
      then have "(think_tag False @ z) ! length (drop i a) = (drop i a @ think_tag False @ r) ! length (drop i a)" by simp
      also have "\<dots> = 60" by (simp only: nth_append_length_plus [of _ _ 0, simplified]) (simp add: think_tag_def u_def)
      finally have "think_tag False ! length (drop i a) = 60" using k(2) by (simp add: nth_append)
      then show False using k by (auto simp: think_tag_def u_def nth_Cons' split: if_splits)
    qed
  qed
  then have "find_sub (think_tag False) (a @ think_tag False @ r) = map_option ((+) (length a)) (find_sub (think_tag False) (think_tag False @ r))"
    by (intro find_sub_skip) simp_all
  moreover have "find_sub (think_tag False) (think_tag False @ r) = Some 0" by (simp add: think_tag_def u_def)
  ultimately show ?thesis using None by simp
qed

definition until_tag :: "pystr \<Rightarrow> pystr" where
  "until_tag a = (case find_sub (think_tag False) a of None \<Rightarrow> a | Some i \<Rightarrow> take i a)"

lemma thoughts_of_marks:
  "snd (thoughts_of s) = until_tag (part False (marks False s))"
  "find_sub (think_tag False) (part False (marks False s)) = None \<Longrightarrow> concat (fst (thoughts_of s)) = part True (marks False s)"
proof -
  obtain ts clean where sb: "sub_blocks s = (ts, clean)" by (cases "sub_blocks s")
  define a where "a = part False (marks False s)"
  consider "clean = a" "concat ts = part True (marks False s)"
    | r where "clean = a @ think_tag False @ r" "concat ts @ r = part True (marks False s)"
    using sub_blocks_marks [of s] by (auto simp: sb a_def)
  then have "snd (thoughts_of s) = until_tag a
    \<and> (find_sub (think_tag False) a = None \<longrightarrow> concat (fst (thoughts_of s)) = part True (marks False s))"
  proof cases
    case 1
    then show ?thesis by (simp add: thoughts_of_def sb until_tag_def split: option.splits)
  next
    case (2 r)
    have "find_sub (think_tag False) clean = (case find_sub (think_tag False) a of Some i \<Rightarrow> Some i | None \<Rightarrow> Some (length a))"
      unfolding 2(1) by (rule find_before_tag)
    moreover have "i \<le> length a" if "find_sub (think_tag False) a = Some i" for i using find_sub_Some [OF that] by simp
    ultimately show ?thesis using 2
      by (cases "find_sub (think_tag False) a") (simp_all add: thoughts_of_def sb until_tag_def)
  qed
  then show "snd (thoughts_of s) = until_tag (part False (marks False s))"
    "find_sub (think_tag False) (part False (marks False s)) = None \<Longrightarrow> concat (fst (thoughts_of s)) = part True (marks False s)"
    by (simp_all add: a_def)
qed

lemma strip_think_tags_eq: "fst (strip_think_tags (Some s)) = strip (snd (thoughts_of s))"
proof (cases "s = []")
  case True
  then show ?thesis
    by (simp add: strip_think_tags_def thoughts_of_def sub_blocks.simps [of "[]"] split: option.splits)
next
  case False
  then show ?thesis by (cases s) (simp_all add: strip_think_tags_def split_beta)
qed

text \<open>What is stored as the answer is what was shown as the answer, without the blanks around it, whatever the
  pieces it came in: only when the shown answer itself contains an opening tag the stored one ends before it. The
  thoughts found are the characters shown as thoughts.\<close>

theorem stored_answer_is_shown:
  "fst (strip_think_tags (Some (concat cs))) = strip (until_tag (part False (splitter_shows cs)))
    \<and> (find_sub (think_tag False) (part False (splitter_shows cs)) = None \<longrightarrow>
        fst (strip_think_tags (Some (concat cs))) = strip (part False (splitter_shows cs))
        \<and> concat (fst (thoughts_of (concat cs))) = part True (splitter_shows cs))"
  by (simp add: strip_think_tags_eq splitter_marks thoughts_of_marks) (simp add: until_tag_def)

theorem stored_answer_is_shown_witness:
  "fst (strip_think_tags (Some (concat [u ''<th'', u ''ink>why</'', u ''think> yes''])))
     = strip (part False (splitter_shows [u ''<th'', u ''ink>why</'', u ''think> yes'']))"
proof -
  have "part False (splitter_shows [u ''<th'', u ''ink>why</'', u ''think> yes'']) = u '' yes''"
    by (simp add: splitter_marks u_def think_tag_def marks.simps part_def)
  then have "find_sub (think_tag False) (part False (splitter_shows [u ''<th'', u ''ink>why</'', u ''think> yes''])) = None"
    by (simp add: think_tag_def u_def)
  then show ?thesis using stored_answer_is_shown [of "[u ''<th'', u ''ink>why</'', u ''think> yes'']"] by blast
qed

text \<open>A thought inside an opening tag: the splitter shows the two halves of the tag and what follows as answer,
  but the stored answer is empty and what follows is a thought.\<close>

theorem spliced_tag:
  "part False (splitter_shows [u ''<th<think>a</think>ink>yes'']) = u ''<think>yes''
    \<and> strip_think_tags (Some (u ''<th<think>a</think>ink>yes'')) = ([], Some (u ''a'' @ nl @ nl @ u ''yes''))"
  by (simp add: splitter_marks strip_think_tags_def thoughts_of_def sub_blocks.simps marks.simps think_tag_def u_def nl_def strip_def
      lstrip_def rstrip_def is_space_def part_def)

text \<open>The postcondition of \<open>strip_think_tags\<close>.\<close>

lemma find_sub_inside: "find_sub p (a @ s @ z) = None \<Longrightarrow> find_sub p s = None"
proof (rule ccontr)
  assume none: "find_sub p (a @ s @ z) = None" and "find_sub p s \<noteq> None"
  then obtain i where i: "find_sub p s = Some i" by auto
  then have "prefix p (drop i s)" "i \<le> length s" using find_sub_Some [OF i] by (metis take_is_prefix, simp)
  then have "prefix p (drop (length a + i) (a @ s @ z))" by (simp add: prefix_prefix)
  then show False using find_sub_None_prefix [OF none, of "length a + i"] \<open>i \<le> length s\<close> by simp
qed

lemma until_tag_free: "find_sub (think_tag False) (until_tag a) = None"
proof (cases "find_sub (think_tag False) a")
  case None
  then show ?thesis by (simp add: until_tag_def)
next
  case (Some i)
  have "find_sub (think_tag False) (take i a) = None"
  proof (rule ccontr)
    assume "find_sub (think_tag False) (take i a) \<noteq> None"
    then obtain j where j: "find_sub (think_tag False) (take i a) = Some j" by auto
    then have "find_sub (think_tag False) (take i a @ drop i a) = Some j" by (intro find_sub_extend) simp_all
    then have "j = i" using Some by simp
    moreover have "take (length (think_tag False)) (drop j (take i a)) = think_tag False" using find_sub_Some [OF j] by simp
    ultimately show False using think_tag_ne [of False] by simp
  qed
  then show ?thesis using Some by (simp add: until_tag_def)
qed

lemma strip_inside: "\<exists>a z. s = a @ strip s @ z"
proof -
  have "s = takeWhile is_space s @ lstrip s" by (simp add: lstrip_def)
  moreover have "lstrip s = rstrip (lstrip s) @ rev (takeWhile is_space (rev (lstrip s)))"
    unfolding rstrip_def by (metis rev_append rev_rev_ident takeWhile_dropWhile_id)
  ultimately show ?thesis unfolding strip_def by metis
qed

text \<open>Neither a block nor an opening tag is left in the stored answer.\<close>

theorem no_tag_left: "\<not> contains (fst (strip_think_tags t)) (think_tag False)"
proof (cases t)
  case None
  then show ?thesis by (simp add: strip_think_tags_def contains_def)
next
  case (Some s)
  have "find_sub (think_tag False) (strip (until_tag a)) = None" for a
    using strip_inside [of "until_tag a"] until_tag_free [of a] find_sub_inside by metis
  then show ?thesis by (simp add: Some strip_think_tags_eq thoughts_of_marks contains_def)
qed

subsection \<open>The stripper of HTML tags\<close>

text \<open>\<open>alpha\<close> is \<open>str.isalpha\<close> on one character. The source builds the output as a list of pieces; here it is their
  join.\<close>

record stripper =
  in_tag :: bool
  tag_buffer :: pystr

definition new_stripper :: stripper where
  "new_stripper = \<lparr>in_tag = False, tag_buffer = []\<rparr>"

definition tag_start :: "(nat \<Rightarrow> bool) \<Rightarrow> nat \<Rightarrow> bool" where
  "tag_start alpha c \<longleftrightarrow> alpha c \<or> c \<in> {47, 33, 63}"

definition strip_char :: "(nat \<Rightarrow> bool) \<Rightarrow> nat \<Rightarrow> stripper \<Rightarrow> stripper \<times> pystr" where
  "strip_char alpha c st =
     (if \<not> in_tag st then
        if c = 60 then (\<lparr>in_tag = True, tag_buffer = [60]\<rparr>, []) else (st, [c])
      else if c = 60 then (st\<lparr>tag_buffer := [60]\<rparr>, tag_buffer st)
      else if c = 62 then (\<lparr>in_tag = False, tag_buffer = []\<rparr>, [])
      else let buf = tag_buffer st @ [c]
           in if length buf = 2 then
                if \<not> tag_start alpha (buf ! 1) then (\<lparr>in_tag = False, tag_buffer = []\<rparr>, buf)
                else (st\<lparr>tag_buffer := buf\<rparr>, [])
              else if 256 < length buf then (\<lparr>in_tag = False, tag_buffer = []\<rparr>, buf)
              else (st\<lparr>tag_buffer := buf\<rparr>, []))"

fun html_feed :: "(nat \<Rightarrow> bool) \<Rightarrow> stripper \<Rightarrow> pystr \<Rightarrow> stripper \<times> pystr" where
  "html_feed alpha st [] = (st, [])"
| "html_feed alpha st (c # s) =
     (let (st', out) = strip_char alpha c st; (st'', out') = html_feed alpha st' s in (st'', out @ out'))"

definition html_finalize :: "stripper \<Rightarrow> pystr" where
  "html_finalize st = (if in_tag st \<and> tag_buffer st \<noteq> [] then tag_buffer st else [])"

text \<open>The slices \<open>text[i : i + n]\<close>; \<open>n\<close> is \<open>DEAL_MAX_HTML_CHUNK\<close>.\<close>

function pieces :: "nat \<Rightarrow> pystr \<Rightarrow> pystr list" where
  "pieces n s = (if s = [] \<or> n = 0 then [] else take n s # pieces n (drop n s))"
  by auto
termination
  by (relation "measure (\<lambda>(n, s). length s)") auto

declare pieces.simps [simp del]

definition strip_html_tags :: "(nat \<Rightarrow> bool) \<Rightarrow> nat \<Rightarrow> pystr \<Rightarrow> pystr" where
  "strip_html_tags alpha n s =
     (if s = [] then []
      else let (st, parts) = feeds (html_feed alpha) new_stripper (pieces n s) in concat parts @ html_finalize st)"

text \<open>What a tag is: an opening angle bracket, at most 255 characters other than angle brackets, the first of them (if
  any) a letter, a slash, an exclamation or a question mark, and a closing bracket. The reference removes the tags and
  keeps the rest.\<close>

definition tag_body :: "(nat \<Rightarrow> bool) \<Rightarrow> pystr \<Rightarrow> bool" where
  "tag_body alpha b \<longleftrightarrow> b = [] \<or> tag_start alpha (hd b) \<and> length b \<le> 255"

definition no_bracket :: "nat \<Rightarrow> bool" where
  "no_bracket c \<longleftrightarrow> c \<noteq> 60 \<and> c \<noteq> 62"

function without_tags :: "(nat \<Rightarrow> bool) \<Rightarrow> pystr \<Rightarrow> pystr" where
  "without_tags alpha [] = []"
| "without_tags alpha (c # s) =
     (if c = 60 \<and> tag_body alpha (takeWhile no_bracket s) \<and> take 1 (dropWhile no_bracket s) = [62]
      then without_tags alpha (drop 1 (dropWhile no_bracket s))
      else c # without_tags alpha s)"
  by pat_completeness auto
termination
proof (relation "measure (\<lambda>(al, s). length s)")
  fix al :: "nat \<Rightarrow> bool" and c :: nat and s :: pystr
  have "length (dropWhile no_bracket s) \<le> length s" by (rule length_dropWhile_le)
  then show "((al, drop 1 (dropWhile no_bracket s)), al, c # s) \<in> measure (\<lambda>(al, s). length s)" by simp
qed simp_all

definition rest_stripped :: "(nat \<Rightarrow> bool) \<Rightarrow> stripper \<Rightarrow> pystr \<Rightarrow> pystr" where
  "rest_stripped alpha st s = without_tags alpha (tag_buffer st @ s)"

definition stripper_ok :: "(nat \<Rightarrow> bool) \<Rightarrow> stripper \<Rightarrow> bool" where
  "stripper_ok alpha st \<longleftrightarrow>
     (if in_tag st then \<exists>b. tag_buffer st = 60 # b \<and> list_all no_bracket b \<and> tag_body alpha b else tag_buffer st = [])"

lemma without_tags_plain: "list_all no_bracket b \<Longrightarrow> without_tags alpha (b @ s) = b @ without_tags alpha s"
  by (induction b) (auto simp: no_bracket_def)

lemma split_at_bracket:
  "list_all no_bracket b \<Longrightarrow> takeWhile no_bracket (b @ s) = b @ takeWhile no_bracket s \<and> dropWhile no_bracket (b @ s) = dropWhile no_bracket s"
  by (induction b) auto

lemma no_tag_body:
  assumes "list_all no_bracket b" and "b \<noteq> []" and "\<not> tag_start alpha (hd b) \<or> 255 < length b"
  shows "without_tags alpha (60 # b @ s) = 60 # b @ without_tags alpha s"
proof -
  have "\<not> tag_body alpha (takeWhile no_bracket (b @ s))"
    using split_at_bracket [OF assms(1), of s] assms(2,3) by (auto simp: tag_body_def)
  then show ?thesis using without_tags_plain [OF assms(1), of alpha s] by simp
qed

lemma strip_char_spec:
  assumes "stripper_ok alpha st"
  shows "snd (strip_char alpha c st) @ rest_stripped alpha (fst (strip_char alpha c st)) s = rest_stripped alpha st (c # s)
    \<and> stripper_ok alpha (fst (strip_char alpha c st))"
proof (cases "in_tag st")
  case False
  then show ?thesis using assms
    by (auto simp: strip_char_def rest_stripped_def stripper_ok_def tag_body_def)
next
  case True
  then obtain b where b: "tag_buffer st = 60 # b" "list_all no_bracket b" "tag_body alpha b"
    using assms by (auto simp: stripper_ok_def)
  consider "c = 60" | "c = 62" | "no_bracket c" by (auto simp: no_bracket_def)
  then show ?thesis
  proof cases
    case 1
    then show ?thesis using True b split_at_bracket [OF b(2), of "60 # s"] without_tags_plain [OF b(2), of alpha "60 # s"]
      by (simp add: strip_char_def rest_stripped_def stripper_ok_def tag_body_def no_bracket_def)
  next
    case 2
    then show ?thesis using True b split_at_bracket [OF b(2), of "62 # s"]
      by (simp add: strip_char_def rest_stripped_def stripper_ok_def no_bracket_def)
  next
    case 3
    let ?b = "b @ [c]"
    have nb: "list_all no_bracket ?b" using b(2) 3 by simp
    have c: "c \<noteq> 60" "c \<noteq> 62" using 3 by (simp_all add: no_bracket_def)
    show ?thesis
    proof (cases "(b = [] \<and> \<not> tag_start alpha c) \<or> 255 < length ?b")
      case flush: True
      then have "strip_char alpha c st = (\<lparr>in_tag = False, tag_buffer = []\<rparr>, 60 # ?b)"
        using True c b(1) by (auto simp: strip_char_def Let_def)
      moreover have "without_tags alpha (60 # ?b @ s) = 60 # ?b @ without_tags alpha s"
        by (rule no_tag_body [OF nb]) (use flush in auto)
      ultimately show ?thesis using b(1) by (simp add: rest_stripped_def stripper_ok_def)
    next
      case keep: False
      then have "strip_char alpha c st = (st\<lparr>tag_buffer := 60 # ?b\<rparr>, [])"
        using True c b(1) by (auto simp: strip_char_def Let_def)
      moreover have "tag_body alpha ?b" using keep b(3) by (cases b) (auto simp: tag_body_def)
      ultimately show ?thesis using b(1) nb True by (simp add: rest_stripped_def stripper_ok_def)
    qed
  qed
qed

lemma html_feed_spec:
  "stripper_ok alpha st \<Longrightarrow> snd (html_feed alpha st c) @ rest_stripped alpha (fst (html_feed alpha st c)) s = rest_stripped alpha st (c @ s)
    \<and> stripper_ok alpha (fst (html_feed alpha st c))"
proof (induction c arbitrary: st)
  case Nil
  then show ?case by simp
next
  case (Cons x c)
  then show ?case using strip_char_spec [OF Cons.prems, of x "c @ s"] by (simp add: split_beta Let_def)
qed

interpretation html: chunk_machine "html_feed alpha" html_finalize "\<lambda>s. s" "rest_stripped alpha" "stripper_ok alpha"
proof unfold_locales
  fix st
  assume ok: "stripper_ok alpha st"
  show "html_finalize st = rest_stripped alpha st []"
  proof (cases "in_tag st")
    case True
    then obtain b where b: "tag_buffer st = 60 # b" "list_all no_bracket b" using ok by (auto simp: stripper_ok_def)
    then have "take (Suc 0) (dropWhile no_bracket b) \<noteq> [62]"
      by (metis dropWhile_eq_Nil_conv list_all_iff take_Nil list.distinct(1))
    then show ?thesis using True b without_tags_plain [OF b(2), of alpha "[]"]
      by (simp add: html_finalize_def rest_stripped_def)
  next
    case False
    then show ?thesis using ok by (simp add: html_finalize_def rest_stripped_def stripper_ok_def)
  qed
qed (use html_feed_spec in auto)

lemma concat_pieces: "0 < n \<Longrightarrow> concat (pieces n s) = s"
proof (induction n s rule: pieces.induct)
  case (1 n s)
  then show ?case by (cases "s = []") (simp_all add: pieces.simps [of n s] pieces.simps [of n "[]"])
qed

text \<open>C6: However the text is cut into pieces, the stripper puts out the text without its tags; nothing else is lost,
  and at most 256 characters are held back.\<close>

theorem html_ignores_chunks:
  "concat (snd (feeds (html_feed alpha) new_stripper cs)) @ html_finalize (fst (feeds (html_feed alpha) new_stripper cs))
     = without_tags alpha (concat cs)
   \<and> length (tag_buffer (fst (feeds (html_feed alpha) new_stripper cs))) \<le> 256"
proof -
  have ok: "stripper_ok alpha new_stripper" by (simp add: stripper_ok_def new_stripper_def)
  have "stripper_ok alpha (fst (feeds (html_feed alpha) new_stripper cs))" by (rule html.feeds_ok [OF ok])
  then have "length (tag_buffer (fst (feeds (html_feed alpha) new_stripper cs))) \<le> 256"
    by (auto simp: stripper_ok_def tag_body_def split: if_splits)
  then show ?thesis using html.run_spec [OF ok, of cs] by (simp add: rest_stripped_def new_stripper_def)
qed

text \<open>The function for a complete text agrees with the reference.\<close>

theorem strip_html_tags_eq: "0 < n \<Longrightarrow> strip_html_tags alpha n s = without_tags alpha s"
  using html.run_spec [of alpha new_stripper "pieces n s"] concat_pieces [of n s]
  by (simp add: strip_html_tags_def split_beta Let_def rest_stripped_def new_stripper_def stripper_ok_def)

text \<open>A text without an opening bracket is left as it is; but a tag inside a tag leaves a tag behind.\<close>

theorem tag_left_behind:
  "(60 \<notin> set s \<longrightarrow> without_tags alpha s = s) \<and> without_tags is_lower (u ''<<b>b>x</<b>b>'') = u ''<b>x</b>''"
proof
  show "60 \<notin> set s \<longrightarrow> without_tags alpha s = s" by (induction s) auto
  show "without_tags is_lower (u ''<<b>b>x</<b>b>'') = u ''<b>x</b>''"
    by (simp add: u_def tag_body_def tag_start_def no_bracket_def is_lower_def)
qed

end
