(* ===== verification/StreamMessage.thy ===== *)
theory StreamMessage
  imports PyVal
begin

text \<open>
  The messages of a streaming answer: the repairs of a delta and the extraction of thoughts
  (\<open>framework/client/stream_normalizer.py\<close>), and the accumulation of the deltas into a message
  (\<open>framework/async_stream.py\<close>, \<open>accumulate_delta\<close>). A delta is changed in place and then dropped, so the definitions
  return it.
\<close>

datatype stream_error = TypeErr | RuntimeErr | NetworkErr string

text \<open>\<open>x or ''''\<close>.\<close>

definition or_empty :: "pyval \<Rightarrow> pyval" where
  "or_empty v = (if truthy v then v else PStr [])"

definition str_is :: "pyval \<Rightarrow> string \<Rightarrow> bool" where
  "str_is v s \<longleftrightarrow> v = PStr (u s)"

text \<open>\<open>''''.join(parts)\<close>.\<close>

fun join_strs :: "pyval list \<Rightarrow> stream_error + pystr" where
  "join_strs [] = Inr []"
| "join_strs (PStr s # vs) = (case join_strs vs of Inl e \<Rightarrow> Inl e | Inr t \<Rightarrow> Inr (s @ t))"
| "join_strs (_ # vs) = Inl TypeErr"

subsection \<open>Repairing a delta\<close>

definition repair_call :: "pyval \<Rightarrow> pyval" where
  "repair_call tc =
     (case tc of
        PDict d \<Rightarrow>
          let d1 = (if dget d ''type'' PNone = PNone then AList.update (u ''type'') (PStr (u ''function'')) d else d)
          in (case dget d1 ''function'' PNone of
                PDict fn \<Rightarrow>
                  (if dget fn ''arguments'' PNone = PNone
                   then PDict (AList.update (u ''function'') (PDict (AList.update (u ''arguments'') (PStr []) fn)) d1)
                   else PDict d1)
              | _ \<Rightarrow> PDict d1)
      | v \<Rightarrow> v)"

definition normalize_delta :: "pydict \<Rightarrow> pydict" where
  "normalize_delta d =
     (let d1 = (if map_of d (u ''role'') = Some PNone then AList.update (u ''role'') (PStr (u ''assistant'')) d else d)
      in case dget d1 ''tool_calls'' PNone of
           PList tcs \<Rightarrow> AList.update (u ''tool_calls'') (PList (map repair_call tcs)) d1
         | _ \<Rightarrow> d1)"

fun call_repaired :: "pyval \<Rightarrow> bool" where
  "call_repaired (PDict d) \<longleftrightarrow> dget d ''type'' PNone \<noteq> PNone
     \<and> (case dget d ''function'' PNone of PDict fn \<Rightarrow> dget fn ''arguments'' PNone \<noteq> PNone | _ \<Rightarrow> True)"
| "call_repaired _ \<longleftrightarrow> True"

definition normalize_delta_tool_calls_ok :: "pydict \<Rightarrow> bool" where
  "normalize_delta_tool_calls_ok d \<longleftrightarrow>
     (case dget d ''tool_calls'' PNone of PList tcs \<Rightarrow> list_all call_repaired tcs | _ \<Rightarrow> True)"

subsection \<open>Thoughts in a delta\<close>

definition normalize_stream_delta :: "pyval \<Rightarrow> pydict" where
  "normalize_stream_delta v =
     (case v of
        PDict chunk \<Rightarrow>
          (case dget chunk ''choices'' PNone of
             PList (PDict choice # _) \<Rightarrow> (case dget choice ''delta'' PNone of PDict d \<Rightarrow> d | _ \<Rightarrow> chunk)
           | _ \<Rightarrow> chunk)
      | _ \<Rightarrow> [])"

definition thinking_fields :: "string list" where
  "thinking_fields = [''reasoning_content'', ''reasoning'', ''thought'', ''thinking'']"

fun detail_parts :: "pyval list \<Rightarrow> pyval list" where
  "detail_parts [] = []"
| "detail_parts (PDict d # vs) =
     (let ty = dget d ''type'' PNone
      in if str_is ty ''reasoning.text'' \<or> str_is ty ''thought'' \<or> str_is ty ''reasoning''
         then or_empty (dget d ''text'' PNone) # detail_parts vs
         else if str_is ty ''reasoning.summary'' then or_empty (dget d ''summary'' PNone) # detail_parts vs
         else detail_parts vs)"
| "detail_parts (_ # vs) = detail_parts vs"

definition thinking_text_from_delta :: "pydict \<Rightarrow> stream_error + pystr" where
  "thinking_text_from_delta d =
     (case find (\<lambda>f. is_str (dget d f PNone) \<and> truthy (dget d f PNone)) thinking_fields of
        Some f \<Rightarrow> Inr (str_or [] (dget d f PNone))
      | None \<Rightarrow>
          (case dget d ''reasoning_details'' PNone of
             PList items \<Rightarrow> join_strs (detail_parts items)
           | _ \<Rightarrow> Inr []))"

definition extract_thinking_from_delta :: "pyval \<Rightarrow> stream_error + pystr" where
  "extract_thinking_from_delta v = thinking_text_from_delta (normalize_stream_delta v)"

subsection \<open>Accumulating deltas\<close>

fun as_number :: "pyval \<Rightarrow> rat option" where
  "as_number (PBool b) = Some (if b then 1 else 0)"
| "as_number (PInt i) = Some (of_int i)"
| "as_number (PFloat r) = Some r"
| "as_number _ = None"

fun is_int :: "pyval \<Rightarrow> bool" where
  "is_int (PBool b) = True"
| "is_int (PInt i) = True"
| "is_int _ = False"

text \<open>The sum of two numbers is an \<open>int\<close> when both are.\<close>

definition add_numbers :: "pyval \<Rightarrow> pyval \<Rightarrow> rat \<Rightarrow> pyval" where
  "add_numbers a b r = (if is_int a \<and> is_int b then PInt \<lfloor>r\<rfloor> else PFloat r)"

definition plain_item :: "pyval \<Rightarrow> bool" where
  "plain_item v \<longleftrightarrow> is_str v \<or> as_number v \<noteq> None"

fun int_index :: "pyval \<Rightarrow> int option" where
  "int_index (PBool b) = Some (if b then 1 else 0)"
| "int_index (PInt i) = Some i"
| "int_index _ = None"

text \<open>\<open>xs[i]\<close> counts from the end for a negative index; \<open>insert\<close> clamps it.\<close>

definition item_pos :: "int \<Rightarrow> 'a list \<Rightarrow> nat option" where
  "item_pos i xs =
     (if 0 \<le> i \<and> i < int (length xs) then Some (nat i)
      else if i < 0 \<and> 0 \<le> i + int (length xs) then Some (nat (i + int (length xs)))
      else None)"

definition insert_at :: "int \<Rightarrow> 'a \<Rightarrow> 'a list \<Rightarrow> 'a list" where
  "insert_at i x xs =
     (let k = (if i < 0 then max 0 (i + int (length xs)) else min i (int (length xs)))
      in take (nat k) xs @ x # drop (nat k) xs)"

fun accumulate_delta :: "pydict \<Rightarrow> pydict \<Rightarrow> stream_error + pydict"
  and merge_value :: "pyval \<Rightarrow> pyval \<Rightarrow> stream_error + pyval"
  and merge_entries :: "pyval list \<Rightarrow> pyval list \<Rightarrow> stream_error + pyval list"
where
  "accumulate_delta acc [] = Inr acc"
| "accumulate_delta acc ((k, v) # delta) =
     (case map_of acc k of
        None \<Rightarrow> accumulate_delta (AList.update k v acc) delta
      | Some a \<Rightarrow>
          if a = PNone \<or> k = u ''index'' \<or> k = u ''type'' then accumulate_delta (AList.update k v acc) delta
          else case merge_value a v of
                 Inl e \<Rightarrow> Inl e
               | Inr a' \<Rightarrow> accumulate_delta (AList.update k a' acc) delta)"
| "merge_value (PStr s) (PStr t) = Inr (PStr (s @ t))"
| "merge_value (PDict a) (PDict d) =
     (case accumulate_delta a d of Inl e \<Rightarrow> Inl e | Inr a' \<Rightarrow> Inr (PDict a'))"
| "merge_value (PList xs) (PList ds) =
     (if list_all plain_item xs then Inr (PList (xs @ ds))
      else case merge_entries xs ds of Inl e \<Rightarrow> Inl e | Inr xs' \<Rightarrow> Inr (PList xs'))"
| "merge_value a v =
     (case (as_number a, as_number v) of
        (Some r, Some q) \<Rightarrow> Inr (add_numbers a v (r + q))
      | _ \<Rightarrow> Inr a)"
| "merge_entries xs [] = Inr xs"
| "merge_entries xs (PDict d # ds) =
     (case map_of d (u ''index'') of
        None \<Rightarrow> Inl RuntimeErr
      | Some iv \<Rightarrow>
          (case int_index iv of
             None \<Rightarrow> Inl TypeErr
           | Some i \<Rightarrow>
               (case item_pos i xs of
                  None \<Rightarrow> merge_entries (insert_at i (PDict d) xs) ds
                | Some p \<Rightarrow>
                    (case xs ! p of
                       PDict a \<Rightarrow>
                         (case accumulate_delta a d of
                            Inl e \<Rightarrow> Inl e
                          | Inr a' \<Rightarrow> merge_entries (xs[p := PDict a']) ds)
                     | _ \<Rightarrow> Inl TypeErr))))"
| "merge_entries xs (_ # ds) = Inl TypeErr"


text \<open>The deltas of a stream, one after the other.\<close>

fun accumulate_all :: "pydict \<Rightarrow> pydict list \<Rightarrow> stream_error + pydict" where
  "accumulate_all acc [] = Inr acc"
| "accumulate_all acc (d # ds) =
     (case accumulate_delta acc d of Inl e \<Rightarrow> Inl e | Inr acc' \<Rightarrow> accumulate_all acc' ds)"

subsection \<open>What a repaired delta has\<close>

lemma dget_update: "dget (AList.update (u k) v d) k' w = (if k' = k then v else dget d k' w)"
  by (simp add: dget_def update_conv)

lemma repair_call_cases:
  "repair_call v = v \<or> (\<exists>d. v = PDict d \<and> is_dict (repair_call v))"
  by (cases v) (auto simp: repair_call_def Let_def split: pyval.splits)

lemma repair_call_ok: "call_repaired (repair_call v)"
proof (cases v)
  case (PDict d)
  define d1 where "d1 = (if dget d ''type'' PNone = PNone then AList.update (u ''type'') (PStr (u ''function'')) d else d)"
  have t: "dget d1 ''type'' PNone \<noteq> PNone" by (simp add: d1_def dget_update)
  show ?thesis
  proof (cases "dget d1 ''function'' PNone")
    case (PDict fn)
    then show ?thesis using t \<open>v = _\<close>
      by (simp add: repair_call_def d1_def [symmetric] dget_update)
  qed (use t \<open>v = _\<close> in \<open>simp_all add: repair_call_def d1_def [symmetric]\<close>)
qed (simp_all add: repair_call_def)

lemma update_same: "map_of d k = Some v \<Longrightarrow> AList.update k v d = d"
  by (induction d) auto

lemma repair_call_id: "call_repaired v \<Longrightarrow> repair_call v = v"
  by (cases v) (auto simp: repair_call_def split: pyval.splits)

text \<open>After the repair no role, no type and no arguments of a tool call are null (the postconditions of
  \<open>_normalize_delta\<close>), and a second repair changes nothing.\<close>

theorem normalized_delta:
  "normalize_delta_tool_calls_ok (normalize_delta d) \<and> map_of (normalize_delta d) (u ''role'') \<noteq> Some PNone
    \<and> normalize_delta (normalize_delta d) = normalize_delta d"
proof -
  define d1 where "d1 = (if map_of d (u ''role'') = Some PNone then AList.update (u ''role'') (PStr (u ''assistant'')) d else d)"
  have r: "map_of d1 (u ''role'') \<noteq> Some PNone" by (simp add: d1_def update_conv)
  show ?thesis
  proof (cases "dget d1 ''tool_calls'' PNone")
    case (PList tcs)
    define d2 where "d2 = AList.update (u ''tool_calls'') (PList (map repair_call tcs)) d1"
    have n: "normalize_delta d = d2" using PList by (simp add: normalize_delta_def d1_def [symmetric] d2_def)
    have g: "dget d2 ''tool_calls'' PNone = PList (map repair_call tcs)" by (simp add: d2_def dget_update)
    have r2: "map_of d2 (u ''role'') \<noteq> Some PNone" using r by (simp add: d2_def update_conv)
    have "map repair_call (map repair_call tcs) = map repair_call tcs"
      by (simp add: repair_call_id [OF repair_call_ok])
    moreover have "map_of d2 (u ''tool_calls'') = Some (PList (map repair_call tcs))" by (simp add: d2_def update_conv)
    ultimately have "normalize_delta d2 = d2" using g r2 by (simp add: normalize_delta_def update_same)
    then show ?thesis using n g r2 by (simp add: normalize_delta_tool_calls_ok_def list_all_iff repair_call_ok)
  qed (use r in \<open>simp_all add: normalize_delta_def normalize_delta_tool_calls_ok_def d1_def [symmetric]\<close>)
qed

subsection \<open>Tool calls in pieces\<close>

text \<open>What a provider sends of the tool calls: the opening of the next call, with the first part of its arguments, or
  a further part of the arguments of a call. \<open>wires\<close> is its form on the wire, \<open>take_piece\<close> what it means.\<close>

datatype call_piece = Opens pystr pystr pystr | More nat pystr

definition wire_call :: "nat \<Rightarrow> pystr \<times> pystr \<times> pystr \<Rightarrow> pyval" where
  "wire_call i c = (case c of (cid, name, args) \<Rightarrow>
     PDict [(u ''index'', PInt (int i)), (u ''id'', PStr cid), (u ''type'', PStr (u ''function'')),
       (u ''function'', PDict [(u ''name'', PStr name), (u ''arguments'', PStr args)])])"

fun wires :: "nat \<Rightarrow> call_piece list \<Rightarrow> pyval list" where
  "wires n [] = []"
| "wires n (Opens cid name args # ps) = wire_call n (cid, name, args) # wires (Suc n) ps"
| "wires n (More i args # ps) =
     PDict [(u ''index'', PInt (int i)), (u ''function'', PDict [(u ''arguments'', PStr args)])] # wires n ps"

fun take_piece :: "call_piece \<Rightarrow> (pystr \<times> pystr \<times> pystr) list \<Rightarrow> (pystr \<times> pystr \<times> pystr) list" where
  "take_piece (Opens cid name args) cs = cs @ [(cid, name, args)]"
| "take_piece (More i more) cs = cs[i := (case cs ! i of (cid, name, args) \<Rightarrow> (cid, name, args @ more))]"

fun pieces_ok :: "nat \<Rightarrow> call_piece list \<Rightarrow> bool" where
  "pieces_ok n [] = True"
| "pieces_ok n (Opens _ _ _ # ps) = pieces_ok (Suc n) ps"
| "pieces_ok n (More i _ # ps) = (i < n \<and> pieces_ok n ps)"

fun opened :: "call_piece list \<Rightarrow> nat" where
  "opened [] = 0"
| "opened (Opens _ _ _ # ps) = Suc (opened ps)"
| "opened (More _ _ # ps) = opened ps"

definition wire_calls :: "(pystr \<times> pystr \<times> pystr) list \<Rightarrow> pyval list" where
  "wire_calls cs = map2 wire_call [0..<length cs] cs"

lemma wire_calls_nth: "i < length cs \<Longrightarrow> wire_calls cs ! i = wire_call i (cs ! i)"
  by (simp add: wire_calls_def)

lemma length_wire_calls [simp]: "length (wire_calls cs) = length cs"
  by (simp add: wire_calls_def)

lemma wire_calls_snoc: "wire_calls (cs @ [c]) = wire_calls cs @ [wire_call (length cs) c]"
  by (simp add: wire_calls_def)

lemma wire_calls_update: "i < length cs \<Longrightarrow> wire_calls (cs[i := c]) = (wire_calls cs)[i := wire_call i c]"
  by (rule nth_equalityI) (auto simp: wire_calls_nth nth_list_update)

lemma length_take_piece: "length (take_piece p cs) = length cs + opened [p]"
  by (cases p) simp_all

text \<open>One piece is merged into the list of calls.\<close>

lemma merge_piece:
  assumes "pieces_ok (length cs) [p]"
  shows "merge_entries (wire_calls cs) (wires (length cs) [p] @ ds) = merge_entries (wire_calls (take_piece p cs)) ds"
proof (cases p)
  case (Opens cid name args)
  then show ?thesis
    by (simp add: wire_call_def item_pos_def insert_at_def wire_calls_snoc)
next
  case (More i more)
  then have i: "i < length cs" using assms by simp
  obtain cid name args where c: "cs ! i = (cid, name, args)" by (cases "cs ! i")
  then show ?thesis using i More
    by (simp add: item_pos_def wire_calls_nth wire_call_def wire_calls_update)
qed

lemma wires_Cons: "wires n (p # ps) = wires n [p] @ wires (n + opened [p]) ps"
  by (cases p) simp_all

lemma pieces_ok_Cons: "pieces_ok n (p # ps) \<longleftrightarrow> pieces_ok n [p] \<and> pieces_ok (n + opened [p]) ps"
  by (cases p) simp_all

lemma merge_pieces:
  "pieces_ok (length cs) ps \<Longrightarrow> merge_entries (wire_calls cs) (wires (length cs) ps) = Inr (wire_calls (fold take_piece ps cs))"
proof (induction ps arbitrary: cs)
  case Nil
  then show ?case by simp
next
  case (Cons p ps)
  have ok: "pieces_ok (length cs) [p]" "pieces_ok (length (take_piece p cs)) ps"
    using Cons.prems pieces_ok_Cons [of "length cs" p ps] unfolding length_take_piece by blast+
  have "merge_entries (wire_calls cs) (wires (length cs) (p # ps))
      = merge_entries (wire_calls (take_piece p cs)) (wires (length (take_piece p cs)) ps)"
    unfolding wires_Cons [of "length cs" p ps] length_take_piece by (rule merge_piece [OF ok(1)])
  then show ?case using Cons.IH [OF ok(2)] by (simp only: fold_simps)
qed

definition calls_delta :: "nat \<Rightarrow> call_piece list \<Rightarrow> pydict" where
  "calls_delta n ps = [(u ''tool_calls'', PList (wires n ps))]"

fun calls_deltas :: "nat \<Rightarrow> call_piece list list \<Rightarrow> pydict list" where
  "calls_deltas n [] = []"
| "calls_deltas n (ps # pss) = calls_delta n ps # calls_deltas (n + opened ps) pss"


lemma opened_append: "opened (xs @ ys) = opened xs + opened ys"
  by (induction xs rule: opened.induct) simp_all

lemma length_fold_take: "length (fold take_piece ps cs) = length cs + opened ps"
proof (induction ps arbitrary: cs)
  case (Cons p ps)
  then show ?case using length_take_piece [of p cs] by (cases p) simp_all
qed simp

lemma merge_later:
  assumes "cs \<noteq> []" and "pieces_ok (length cs) (concat pss)"
  shows "accumulate_all [(u ''tool_calls'', PList (wire_calls cs))] (calls_deltas (length cs) pss)
    = Inr [(u ''tool_calls'', PList (wire_calls (fold take_piece (concat pss) cs)))]"
  using assms
proof (induction pss arbitrary: cs)
  case Nil
  then show ?case by simp
next
  case (Cons ps pss)
  have split: "pieces_ok n (xs @ ys) \<longleftrightarrow> pieces_ok n xs \<and> pieces_ok (n + opened xs) ys" for n xs ys
    by (induction n xs rule: pieces_ok.induct) simp_all
  have ok: "pieces_ok (length cs) ps" "pieces_ok (length (fold take_piece ps cs)) (concat pss)"
    using Cons.prems(2) split by (simp_all add: length_fold_take)
  have ne: "fold take_piece ps cs \<noteq> []" using Cons.prems(1) length_fold_take [of ps cs] by auto
  have "\<not> list_all plain_item (wire_calls cs)"
    using Cons.prems(1) wire_calls_nth [of 0 cs]
    by (auto simp: list_all_length plain_item_def wire_call_def split: prod.splits intro!: exI [of _ 0])
  then have "accumulate_delta [(u ''tool_calls'', PList (wire_calls cs))] (calls_delta (length cs) ps)
      = Inr [(u ''tool_calls'', PList (wire_calls (fold take_piece ps cs)))]"
    by (simp add: calls_delta_def merge_pieces [OF ok(1)])
  then show ?case using Cons.IH [OF ne ok(2)] by (simp add: length_fold_take)
qed

text \<open>C4: The deltas of a stream put the tool calls together again: whatever way the openings and the further parts of
  the arguments are spread over the deltas, the message has every call with its id, its name and its whole
  arguments, in the order of opening, if calls are numbered from zero and the first delta that has any only opens calls.\<close>

theorem tool_calls_assembled:
  assumes "cs \<noteq> []" and "pieces_ok (length cs) (concat pss)"
  shows "accumulate_all [] (calls_deltas 0 (map (\<lambda>(cid, name, args). Opens cid name args) cs # pss))
    = Inr [(u ''tool_calls'', PList (wire_calls (fold take_piece (concat pss) cs)))]"
proof -
  have w: "wires n (map (\<lambda>(cid, name, args). Opens cid name args) cs) = map2 wire_call [n..<n + length cs] cs" for n
  proof (induction cs arbitrary: n)
    case (Cons c cs)
    obtain cid name args where "c = (cid, name, args)" by (cases c)
    then show ?case using Cons.IH [of "Suc n"] by (simp add: upt_rec [of n "Suc (n + length cs)"] del: upt_Suc)
  qed simp
  have o: "opened (map (\<lambda>(cid, name, args). Opens cid name args) cs) = length cs" by (induction cs) auto
  show ?thesis using merge_later [OF assms] w [of 0]
    by (simp add: calls_delta_def o wire_calls_def)
qed

theorem tool_calls_assembled_witness:
  "accumulate_all [] (calls_deltas 0 [[Opens (u ''a'') (u ''find'') (u ''{'')], [Opens (u ''b'') (u ''get'') []],
       [More 0 (u ''}''), More 1 (u ''{}'')]])
    = Inr [(u ''tool_calls'', PList (wire_calls [(u ''a'', u ''find'', u ''{}''), (u ''b'', u ''get'', u ''{}'')]))]"
  using tool_calls_assembled [of "[(u ''a'', u ''find'', u ''{'')]" "[[Opens (u ''b'') (u ''get'') []], [More 0 (u ''}''), More 1 (u ''{}'')]]"]
  by (simp add: u_append [symmetric])

text \<open>A provider that numbers its calls from one: every part of the arguments becomes a call of its own.\<close>

theorem calls_from_one:
  "accumulate_all [] [[(u ''tool_calls'', PList [wire_call 1 (u ''a'', u ''find'', u ''{'')])],
       [(u ''tool_calls'', PList (wires 0 [More 1 (u ''}'')]))]]
    = Inr [(u ''tool_calls'', PList (wire_call 1 (u ''a'', u ''find'', u ''{'') # wires 0 [More 1 (u ''}'')]))]"
  by (simp add: wire_call_def plain_item_def item_pos_def insert_at_def)

text \<open>Calls and a part of the arguments in one first delta: the part stays apart.\<close>

theorem first_delta_kept:
  "accumulate_all [] [calls_delta 0 [Opens (u ''a'') (u ''find'') (u ''{''), More 0 (u ''}'')]]
    = Inr [(u ''tool_calls'', PList (wires 0 [Opens (u ''a'') (u ''find'') (u ''{''), More 0 (u ''}'')]))]"
  by (simp add: calls_delta_def)

subsection \<open>Collecting the thoughts of a stream\<close>

record thinking_meta =
  source :: "pystr option"
  format :: pyval
  signature :: pyval
  index :: pyval
  encrypted_fragments :: "pyval list"

definition new_streaming_thinking_meta :: thinking_meta where
  "new_streaming_thinking_meta =
     \<lparr>source = None, format = PNone, signature = PNone, index = PInt 0, encrypted_fragments = []\<rparr>"

definition streaming_sources :: "pystr list" where
  "streaming_sources = [u ''reasoning_details'', u ''reasoning_content'', u ''reasoning'']"

definition full_str :: "pyval \<Rightarrow> bool" where
  "full_str v \<longleftrightarrow> is_str v \<and> truthy v"

definition choose_source :: "pydict \<Rightarrow> thinking_meta \<Rightarrow> thinking_meta" where
  "choose_source d m0 =
     (let m = (if source m0 \<noteq> None \<and> the (source m0) \<notin> set streaming_sources then m0\<lparr>source := None\<rparr> else m0)
      in if source m \<noteq> None then m
         else if is_list (dget d ''reasoning_details'' PNone) \<and> truthy (dget d ''reasoning_details'' PNone)
           then m\<lparr>source := Some (u ''reasoning_details'')\<rparr>
         else if full_str (dget d ''reasoning_content'' PNone) then m\<lparr>source := Some (u ''reasoning_content'')\<rparr>
         else if list_ex (\<lambda>f. full_str (dget d f PNone)) [''reasoning'', ''thought'', ''thinking'']
           then m\<lparr>source := Some (u ''reasoning'')\<rparr>
         else m)"

definition note_detail :: "pyval \<Rightarrow> thinking_meta \<Rightarrow> thinking_meta" where
  "note_detail v m =
     (case v of
        PDict d \<Rightarrow>
          if str_is (dget d ''type'' PNone) ''reasoning.encrypted''
          then m\<lparr>source := Some (u ''reasoning_details''), encrypted_fragments := encrypted_fragments m @ [v]\<rparr>
          else
            let m1 = (if format m = PNone \<and> dget d ''format'' PNone \<noteq> PNone then m\<lparr>format := dget d ''format'' PNone\<rparr> else m);
                m2 = (if dget d ''signature'' PNone \<noteq> PNone then m1\<lparr>signature := dget d ''signature'' PNone\<rparr> else m1)
            in (if is_int (dget d ''index'' PNone) then m2\<lparr>index := dget d ''index'' PNone\<rparr> else m2)
      | _ \<Rightarrow> m)"

definition accumulate_streaming_thinking ::
    "pydict \<Rightarrow> pystr list \<times> thinking_meta \<Rightarrow> stream_error + pystr list \<times> thinking_meta" where
  "accumulate_streaming_thinking d s =
     (case s of (parts, m) \<Rightarrow>
        let m1 = choose_source d m
        in case thinking_text_from_delta d of
             Inl e \<Rightarrow> Inl e
           | Inr chunk \<Rightarrow>
               let parts1 = (if chunk \<noteq> [] then parts @ [chunk] else parts)
               in case dget d ''reasoning_details'' PNone of
                    PList items \<Rightarrow> Inr (parts1, fold note_detail items m1)
                  | _ \<Rightarrow> Inr (parts1, m1))"

definition source_ok :: "thinking_meta \<Rightarrow> bool" where
  "source_ok m \<longleftrightarrow> (case source m of None \<Rightarrow> True | Some s \<Rightarrow> s \<in> set streaming_sources)"

lemma choose_source_ok: "source_ok (choose_source d m)"
  by (auto simp: choose_source_def source_ok_def streaming_sources_def Let_def)

lemma note_detail_ok: "source_ok m \<Longrightarrow> source_ok (note_detail v m)"
  by (cases v) (auto simp: note_detail_def source_ok_def streaming_sources_def Let_def)

text \<open>A delta adds exactly the text shown for it to the collected thoughts, and the source recorded for the replay is
  always one of the three known ones (the postcondition).\<close>

theorem thinking_collected:
  assumes "accumulate_streaming_thinking d (parts, m) = Inr (parts', m')"
  shows "thinking_text_from_delta d = Inr (drop (length (concat parts)) (concat parts'))
    \<and> take (length (concat parts)) (concat parts') = concat parts \<and> source_ok m'"
proof -
  have ok: "source_ok m1 \<Longrightarrow> source_ok (fold note_detail items m1)" for items m1
    by (induction items arbitrary: m1) (simp_all add: note_detail_ok)
  obtain chunk where c: "thinking_text_from_delta d = Inr chunk"
    using assms by (auto simp: accumulate_streaming_thinking_def Let_def split: sum.splits)
  have p: "parts' = (if chunk \<noteq> [] then parts @ [chunk] else parts)"
    and "m' = choose_source d m \<or> (\<exists>items. m' = fold note_detail items (choose_source d m))"
    using assms c by (auto simp: accumulate_streaming_thinking_def Let_def split: pyval.splits)
  then have "source_ok m'" using ok choose_source_ok by auto
  then show ?thesis using c p by simp
qed

theorem thinking_collected_witness:
  "\<exists>m. accumulate_streaming_thinking [(u ''thought'', PStr (u ''hm''))] ([u ''a''], new_streaming_thinking_meta)
      = Inr ([u ''a'', u ''hm''], m) \<and> source_ok m"
proof -
  define m where "m = choose_source [(u ''thought'', PStr (u ''hm''))] new_streaming_thinking_meta"
  have e: "accumulate_streaming_thinking [(u ''thought'', PStr (u ''hm''))] ([u ''a''], new_streaming_thinking_meta)
      = Inr ([u ''a'', u ''hm''], m)"
    by (simp add: accumulate_streaming_thinking_def thinking_text_from_delta_def thinking_fields_def dget_def m_def)
  show ?thesis using thinking_collected [OF e] e by blast
qed

subsection \<open>The text of a message\<close>

fun text_parts :: "pyval list \<Rightarrow> pyval list" where
  "text_parts [] = []"
| "text_parts (PDict d # vs) =
     (if str_is (dget d ''type'' PNone) ''text'' \<or> map_of d (u ''text'') \<noteq> None
      then or_empty (dget d ''text'' PNone) # text_parts vs else text_parts vs)"
| "text_parts (_ # vs) = text_parts vs"

definition normalize_message_content :: "(pyval \<Rightarrow> pystr) \<Rightarrow> pyval \<Rightarrow> stream_error + pystr option" where
  "normalize_message_content repr v =
     (case v of
        PNone \<Rightarrow> Inr None
      | PStr s \<Rightarrow> Inr (Some s)
      | PList items \<Rightarrow>
          (if text_parts items = [] then Inr None
           else case join_strs (text_parts items) of Inl e \<Rightarrow> Inl e | Inr s \<Rightarrow> Inr (Some s))
      | _ \<Rightarrow> Inr (Some (repr v)))"

subsection \<open>Merging fragments for the replay\<close>

text \<open>A fragment is identified by its type and index; a list or a dict as type cannot be looked up. Numbers are equal
  across their types.\<close>

fun key_of :: "pyval \<Rightarrow> pyval option" where
  "key_of (PList _) = None"
| "key_of (PDict _) = None"
| "key_of v = (case as_number v of None \<Rightarrow> Some v | Some r \<Rightarrow> Some (PFloat r))"

definition detail_text_fields :: "string list" where
  "detail_text_fields = [''text'', ''summary'', ''data'']"

text \<open>\<open>(dest.get(f) or '''') + piece\<close> for the text fields.\<close>

fun append_fields :: "string list \<Rightarrow> pydict \<Rightarrow> pydict \<Rightarrow> stream_error + pydict" where
  "append_fields [] item dest = Inr dest"
| "append_fields (f # fs) item dest =
     (if full_str (dget item f PNone) then
        (case or_empty (dget dest f PNone) of
           PStr old \<Rightarrow> append_fields fs item (AList.update (u f) (PStr (old @ str_or [] (dget item f PNone))) dest)
         | _ \<Rightarrow> Inl TypeErr)
      else append_fields fs item dest)"

definition merge_fragment :: "pydict \<Rightarrow> pydict \<Rightarrow> stream_error + pydict" where
  "merge_fragment item dest =
     (case append_fields detail_text_fields item dest of
        Inl e \<Rightarrow> Inl e
      | Inr d1 \<Rightarrow>
          let d2 = (if dget item ''signature'' PNone \<noteq> PNone
                    then AList.update (u ''signature'') (dget item ''signature'' PNone) d1 else d1);
              keep = (\<lambda>f d. if map_of item (u f) \<noteq> None \<and> dget d f PNone = PNone
                             then AList.update (u f) (dget item f PNone) d else d)
          in Inr (keep ''id'' (keep ''format'' d2)))"

fun merge_details :: "pyval list \<Rightarrow> ((pyval \<times> int) \<times> pydict) list \<Rightarrow> pyval list
    \<Rightarrow> stream_error + ((pyval \<times> int) \<times> pydict) list \<times> pyval list" where
  "merge_details [] merged extra = Inr (merged, extra)"
| "merge_details (PDict item # vs) merged extra =
     (case int_index (dget item ''index'' PNone) of
        None \<Rightarrow> merge_details vs merged (extra @ [PDict item])
      | Some i \<Rightarrow>
          (case key_of (dget item ''type'' PNone) of
             None \<Rightarrow> Inl TypeErr
           | Some ty \<Rightarrow>
               (case map_of merged (ty, i) of
                  None \<Rightarrow> merge_details vs (merged @ [((ty, i), item)]) extra
                | Some dest \<Rightarrow>
                    (case merge_fragment item dest of
                       Inl e \<Rightarrow> Inl e
                     | Inr dest' \<Rightarrow> merge_details vs (AList.update (ty, i) dest' merged) extra))))"
| "merge_details (_ # vs) merged extra = merge_details vs merged extra"

definition merge_reasoning_details :: "pyval list \<Rightarrow> stream_error + pyval list" where
  "merge_reasoning_details entries =
     (case merge_details entries [] [] of
        Inl e \<Rightarrow> Inl e
      | Inr (merged, extra) \<Rightarrow> Inr (map (\<lambda>x. PDict (snd x)) merged @ extra))"

lemma merge_details_length:
  "merge_details vs merged extra = Inr (m', x') \<Longrightarrow>
     length m' + length x' \<le> length merged + length extra + length (filter is_dict vs)
     \<and> (distinct (map fst merged) \<longrightarrow> distinct (map fst m'))"
proof (induction vs merged extra rule: merge_details.induct)
  case (2 item vs merged extra)
  show ?case
  proof (cases "int_index (dget item ''index'' PNone)")
    case None
    then show ?thesis using "2.prems" "2.IH"(1) [OF None] by simp
  next
    case (Some i)
    then obtain ty where ty: "key_of (dget item ''type'' PNone) = Some ty" using "2.prems" by (auto split: option.splits)
    show ?thesis
    proof (cases "map_of merged (ty, i)")
      case None
      then have "(ty, i) \<notin> fst ` set merged" by (simp add: map_of_eq_None_iff)
      then show ?thesis using "2.prems" Some ty None "2.IH"(2) [OF Some ty None] by auto
    next
      case dest: (Some dest)
      then obtain dest' where d: "merge_fragment item dest = Inr dest'" using "2.prems" Some ty by (auto split: sum.splits)
      have "(ty, i) \<in> fst ` set merged" using dest by (metis map_of_eq_None_iff option.distinct(1))
      then show ?thesis using "2.prems" Some ty dest d "2.IH"(3) [OF Some ty dest d]
        by (auto simp: length_update distinct_update)
    qed
  qed
qed simp_all

text \<open>Merging never gives more entries than there are fragments (the postcondition).\<close>

theorem merged_details_bound:
  "merge_reasoning_details entries = Inr r \<Longrightarrow> length r \<le> length (filter is_dict entries)"
  using merge_details_length [of entries "[]" "[]"]
  by (auto simp: merge_reasoning_details_def split: sum.splits)

theorem merged_details_bound_witness:
  "length [PDict [(u ''type'', PStr (u ''t'')), (u ''index'', PInt 0), (u ''text'', PStr (u ''ab''))]] \<le> 2"
  using merged_details_bound [of "[PDict [(u ''type'', PStr (u ''t'')), (u ''index'', PInt 0), (u ''text'', PStr (u ''a''))],
      PDict [(u ''type'', PStr (u ''t'')), (u ''index'', PInt 0), (u ''text'', PStr (u ''b''))]]"
    "[PDict [(u ''type'', PStr (u ''t'')), (u ''index'', PInt 0), (u ''text'', PStr (u ''ab''))]]"]
  by (simp add: merge_reasoning_details_def dget_def merge_fragment_def detail_text_fields_def full_str_def or_empty_def
      u_append [symmetric])

end
