(* ===== verification/LlmStream.thy ===== *)
theory LlmStream
  imports StreamText StreamMessage PyRegex
begin

text \<open>
  One streaming request to a model (\<open>framework/client/llm_client.py\<close>, \<open>_run_streaming_loop\<close> and the streaming half of
  \<open>request_with_tools\<close>; \<open>iterate_sse\<close>; \<open>parse_response_chunk\<close> of the OpenAI-compatible shim): the lines of the response,
  their payloads, what each chunk shows in the panel and adds to the stored message, and the attempts after a lost
  connection. Decoding UTF-8, \<open>json.loads\<close>, \<open>str\<close> of a value that is not a string and the parsers of tool calls
  written as text (the vendored \<open>contrib.tool_call_parsers\<close>, by model; a parser gives the text that is left and the
  calls) are arguments; what \<open>stop_checker\<close> answers comes with the line.
\<close>

record stream_env =
  decode :: "nat list \<Rightarrow> pystr option"
  loads :: "pystr \<Rightarrow> pyval option"
  str_of :: "pyval \<Rightarrow> pystr"
  call_parser :: "pystr \<Rightarrow> (pystr \<Rightarrow> pystr option \<times> pyval) option"

subsection \<open>Server-sent events\<close>

definition is_byte_space :: "nat \<Rightarrow> bool" where
  "is_byte_space c \<longleftrightarrow> c \<in> {9, 10, 11, 12, 13, 32}"

definition strip_bytes :: "nat list \<Rightarrow> nat list" where
  "strip_bytes b = rev (dropWhile is_byte_space (rev (dropWhile is_byte_space b)))"

datatype sse_line = NoPayload | Payload pystr | BadBytes

definition decoded :: "stream_env \<Rightarrow> nat list \<Rightarrow> sse_line" where
  "decoded E b = (case decode E b of None \<Rightarrow> BadBytes | Some s \<Rightarrow> Payload (strip s))"

definition iterate_sse_line :: "stream_env \<Rightarrow> nat list \<Rightarrow> sse_line" where
  "iterate_sse_line E line =
     (let l = strip_bytes line
      in if l = [] \<or> prefix (u '':'') l then NoPayload
         else if prefix (u ''data:'') l then decoded E (drop 5 l)
         else if prefix (u ''{'') l then decoded E l
         else NoPayload)"

subsection \<open>A chunk\<close>

text \<open>\<open>parse_response_chunk\<close>: the content, the reason to finish, the thoughts, and the delta. The loop over \<open>choices\<close>
  fails for a number.\<close>

definition first_choice :: "pyval \<Rightarrow> pydict" where
  "first_choice choices = (case choices of PList (PDict c # _) \<Rightarrow> c | _ \<Rightarrow> [])"

definition reason_in :: "pyval list \<Rightarrow> pyval" where
  "reason_in cs =
     (case find (\<lambda>c. truthy (dget (as_dict c) ''finish_reason'' PNone)) cs of
        Some c \<Rightarrow> dget (as_dict c) ''finish_reason'' PNone | None \<Rightarrow> PNone)"

definition or_value :: "pyval \<Rightarrow> pyval \<Rightarrow> pyval" where
  "or_value v w = (if truthy v then v else w)"

definition chunk_reason :: "pydict \<Rightarrow> stream_error + pyval" where
  "chunk_reason chunk =
     (let choices = dget chunk ''choices'' (PList []);
          choice = first_choice choices;
          r1 = (if choice \<noteq> [] then dget choice ''finish_reason'' PNone else PNone);
          r2 = (if truthy r1 then r1 else or_value (dget chunk ''finish_reason'' PNone) (dget chunk ''done_reason'' PNone))
      in if truthy r2 \<or> \<not> truthy choices then Inr r2
         else case choices of
                PList cs \<Rightarrow> Inr (if truthy (reason_in cs) then reason_in cs else r2)
              | PStr _ \<Rightarrow> Inr r2
              | PDict _ \<Rightarrow> Inr r2
              | _ \<Rightarrow> Inl TypeErr)"

definition chunk_delta :: "pydict \<Rightarrow> pydict" where
  "chunk_delta chunk =
     as_dict (dget (first_choice (dget chunk ''choices'' (PList []))) ''delta'' (PDict []))"

definition chunk_content :: "pydict \<Rightarrow> pyval" where
  "chunk_content chunk =
     (if chunk_delta chunk \<noteq> [] then or_empty (dget (chunk_delta chunk) ''content'' PNone) else PStr [])"

subsection \<open>The request\<close>

datatype llm_call = OnContent pystr | OnThinking pystr

record llm =
  calls :: "llm_call list"
  emitted_any :: bool
  content_finished :: bool
  last_contents :: "pystr list"
  think_splitter :: splitter
  last_reason :: pyval
  thinking :: "pystr list \<times> thinking_meta"
  snapshot :: pydict

text \<open>A step goes on, ends the loop over the lines (after Stop), or raises.\<close>

datatype llm_result = Go llm | Break llm | Fails stream_error

definition repeat_limit :: nat where
  "repeat_limit = 20"

text \<open>The pieces of the splitter, in order; twenty equal pieces of answer in a row end the request. \<open>None\<close> is that
  error.\<close>

fun show_pieces :: "(bool \<times> pystr) list \<Rightarrow> llm \<Rightarrow> llm option" where
  "show_pieces [] st = Some st"
| "show_pieces ((True, t) # ps) st = show_pieces ps (st\<lparr>calls := calls st @ [OnThinking t]\<rparr>)"
| "show_pieces ((False, t) # ps) st =
     (let recent = last_contents st @ [t];
          kept_ones = drop (length recent - repeat_limit) recent;
          st1 = st\<lparr>calls := calls st @ [OnContent t], emitted_any := (emitted_any st \<or> t \<noteq> []), last_contents := kept_ones\<rparr>
      in if length kept_ones = repeat_limit \<and> 2 < length t \<and> list_all (\<lambda>c. c = hd kept_ones) kept_ones then None
         else show_pieces ps st1)"

definition thinking_delta_keys :: "pystr list" where
  "thinking_delta_keys = map u (thinking_fields @ [''reasoning_details''])"

text \<open>\<open>on_delta\<close> of \<open>request_with_tools\<close>.\<close>

definition on_delta :: "pydict \<Rightarrow> llm \<Rightarrow> stream_error + llm" where
  "on_delta delta st =
     (let d = normalize_delta delta
      in case accumulate_streaming_thinking d (thinking st) of
           Inl e \<Rightarrow> Inl e
         | Inr th \<Rightarrow>
             (case accumulate_delta (snapshot st) (filter (\<lambda>(k, v). k \<notin> set thinking_delta_keys) d) of
                Inl e \<Rightarrow> Inl e
              | Inr snap \<Rightarrow>
                  Inr (st\<lparr>thinking := th,
                          snapshot := (case map_of d (u ''model'') of
                                         Some m \<Rightarrow> if map_of snap (u ''model'') = None then AList.update (u ''model'') m snap else snap
                                       | None \<Rightarrow> snap)\<rparr>)))"

definition take_delta :: "stream_env \<Rightarrow> pyval \<Rightarrow> pydict \<Rightarrow> llm \<Rightarrow> stream_error + llm" where
  "take_delta E chunk_model delta st =
     (if delta = [] then Inr st
      else let d = normalize_delta delta;
               d1 = (if truthy chunk_model \<and> map_of d (u ''model'') = None
                     then AList.update (u ''model'') (PStr (py_str (str_of E) chunk_model)) d else d)
           in on_delta d1 st)"

definition show_content :: "pyval \<Rightarrow> llm \<Rightarrow> stream_error + llm" where
  "show_content content st =
     (if \<not> truthy content then Inr st
      else case content of
             PStr s \<Rightarrow>
               (let (sp, pieces) = split_feed (think_splitter st) s
                in case show_pieces pieces (st\<lparr>think_splitter := sp\<rparr>) of
                     None \<Rightarrow> Inl (NetworkErr ''INFINITE_LOOP'')
                   | Some st' \<Rightarrow> Inr st')
           | _ \<Rightarrow> Inl TypeErr)"

definition show_thinking :: "pystr \<Rightarrow> llm \<Rightarrow> llm" where
  "show_thinking t st = (if t \<noteq> [] then st\<lparr>calls := calls st @ [OnThinking t], emitted_any := True\<rparr> else st)"


text \<open>The body of the loop for one payload.\<close>

definition take_payload :: "stream_env \<Rightarrow> bool \<Rightarrow> pystr \<Rightarrow> llm \<Rightarrow> llm_result" where
  "take_payload E stop payload st =
     (if payload = u ''[DONE]'' then Go (st\<lparr>content_finished := True\<rparr>)
      else case loads E payload of
        Some (PDict chunk) \<Rightarrow>
          (if content_finished st then Go st
           else if stop then Break (st\<lparr>last_reason := PStr (u ''stop''), content_finished := True\<rparr>)
           else if \<not> truthy (dget chunk ''choices'' (PList [])) then Go st
           else case chunk_reason chunk of
             Inl e \<Rightarrow> Fails e
           | Inr reason \<Rightarrow>
               (case extract_thinking_from_delta (PDict chunk) of
                  Inl e \<Rightarrow> Fails e
                | Inr thought \<Rightarrow>
                    (if str_is reason ''error'' then Fails (NetworkErr ''STREAM_ERROR'')
                     else case show_content (chunk_content chunk) (show_thinking thought st) of
                       Inl e \<Rightarrow> Fails e
                     | Inr st1 \<Rightarrow>
                         (case take_delta E (dget chunk ''model'' PNone) (chunk_delta chunk) st1 of
                            Inl e \<Rightarrow> Fails e
                          | Inr st2 \<Rightarrow> Go (if truthy reason then st2\<lparr>last_reason := reason\<rparr> else st2)))))
      | _ \<Rightarrow> Go st)"

fun run_lines :: "stream_env \<Rightarrow> (nat list \<times> bool) list \<Rightarrow> llm \<Rightarrow> llm_result" where
  "run_lines E [] st = Go st"
| "run_lines E ((line, stop) # lines) st =
     (case iterate_sse_line E line of
        NoPayload \<Rightarrow> run_lines E lines st
      | BadBytes \<Rightarrow> Fails (NetworkErr ''decode'')
      | Payload payload \<Rightarrow>
          (case take_payload E stop payload st of
             Go st' \<Rightarrow> run_lines E lines st'
           | r \<Rightarrow> r))"

text \<open>The flush behind the loop.\<close>

definition flush_calls :: "llm \<Rightarrow> llm" where
  "flush_calls st =
     st\<lparr>calls := calls st @ map (\<lambda>(b, t). if b then OnThinking t else OnContent t) (split_flush (think_splitter st)),
        think_splitter := (think_splitter st)\<lparr>kept := []\<rparr>\<rparr>"

definition start_attempt :: "llm \<Rightarrow> llm" where
  "start_attempt st = st\<lparr>content_finished := False, last_contents := [], think_splitter := new_splitter, last_reason := PNone\<rparr>"

text \<open>An attempt: the lines that arrive, and whether the connection is lost behind them. The callbacks and the message
  are those of the request, not of the attempt; the pause before the next attempt is left out.\<close>

fun run_attempts :: "stream_env \<Rightarrow> nat \<Rightarrow> ((nat list \<times> bool) list \<times> bool) list \<Rightarrow> llm \<Rightarrow> stream_error + llm" where
  "run_attempts E sends_left [] st = Inl (NetworkErr ''CONNECTION_ERROR'')"
| "run_attempts E sends_left ((lines, lost) # attempts) st =
     (case run_lines E lines (start_attempt st) of
        Fails e \<Rightarrow> Inl e
      | Break st1 \<Rightarrow> Inr (flush_calls st1)
      | Go st1 \<Rightarrow>
          (if \<not> lost then Inr (flush_calls st1)
           else if emitted_any st1 then Inl (NetworkErr ''CONNECTION_LOST'')
           else if 0 < sends_left - 1 then run_attempts E (sends_left - 1) attempts st1
           else Inl (NetworkErr ''CONNECTION_ERROR'')))"

definition new_request :: llm where
  "new_request =
     \<lparr>calls = [], emitted_any = False, content_finished = False, last_contents = [], think_splitter = new_splitter,
      last_reason = PNone, thinking = ([], new_streaming_thinking_meta), snapshot = []\<rparr>"

definition retry_max_attempts :: nat where
  "retry_max_attempts = 3"

definition stream_request :: "stream_env \<Rightarrow> ((nat list \<times> bool) list \<times> bool) list \<Rightarrow> stream_error + llm" where
  "stream_request E attempts = run_attempts E retry_max_attempts attempts new_request"

subsection \<open>The answer\<close>

text \<open>What \<open>request_with_tools\<close> makes of the message: the answer, the thoughts, the calls, the model.\<close>

record answer =
  a_content :: pystr
  a_thoughts :: "pystr list"
  a_calls :: pyval
  a_model :: pystr
  a_reason :: pyval

text \<open>\<open>strip_leaked_chat_template_control_tokens\<close>: the pattern \<open><\|[a-zA-Z0-9_]+\|>\<close>.\<close>

definition control_token :: regex where
  "control_token = cats [exactly ''<|'', plus1 (Chr (\<lambda>c. alnum c \<or> c = 95)), exactly ''|>'']"

definition strip_control_tokens :: "pystr \<Rightarrow> pystr" where
  "strip_control_tokens s = (if s = [] then [] else strip (re_sub control_token [] s))"

text \<open>Tool calls written in the answer itself, looked for when the message has none.\<close>

definition text_calls :: "stream_env \<Rightarrow> pystr \<Rightarrow> pyval \<Rightarrow> pystr \<Rightarrow> (pystr \<times> pyval) option" where
  "text_calls E requested tool_calls content =
     (if truthy tool_calls \<or> content = [] then None
      else case call_parser E requested of
             None \<Rightarrow> None
           | Some parse \<Rightarrow>
               (let (p_content, p_tool_calls) = parse content
                in if truthy p_tool_calls
                   then Some (case p_content of None \<Rightarrow> [] | Some t \<Rightarrow> t, p_tool_calls)
                   else None))"

definition read_answer :: "stream_env \<Rightarrow> pystr \<Rightarrow> llm \<Rightarrow> stream_error + answer" where
  "read_answer E requested st =
     (case normalize_message_content (str_of E) (dget (snapshot st) ''content'' PNone) of
        Inl e \<Rightarrow> Inl e
      | Inr raw \<Rightarrow>
          let (content, extracted) = strip_think_tags raw;
              parts = fst (thinking st);
              tool_calls = dget (snapshot st) ''tool_calls'' PNone;
              cleaned = strip_control_tokens content;
              found = text_calls E requested tool_calls cleaned
          in Inr \<lparr>a_content = (case found of None \<Rightarrow> cleaned | Some (t, cs) \<Rightarrow> t),
                  a_thoughts = (case extracted of
                                  Some (c # cs) \<Rightarrow> if parts = [] then parts @ [c # cs] else parts | _ \<Rightarrow> parts),
                  a_calls = (case found of None \<Rightarrow> tool_calls | Some (t, cs) \<Rightarrow> cs),
                  a_model = py_str (str_of E) (or_value (dget (snapshot st) ''model'' PNone) (PStr requested)),
                  a_reason = (if found \<noteq> None \<or> str_is (last_reason st) ''stop'' \<and> truthy tool_calls
                              then PStr (u ''tool_calls'') else last_reason st)\<rparr>)"

text \<open>Text without the character \<open><\<close> has no token, and nothing comes in.\<close>

lemma consuming_control_token: "consuming control_token"
  by (auto simp: control_token_def exactly_def u_def)

lemma control_token_start: "ends control_token s i \<noteq> [] \<Longrightarrow> i < length s \<and> s ! i = 60"
  by (auto simp: control_token_def exactly_def u_def split: if_splits)

lemma no_control_token:
  assumes "60 \<notin> set s"
  shows "re_sub control_token [] s = s"
proof -
  have "finditer control_token s = []"
  proof (rule ccontr)
    assume "finditer control_token s \<noteq> []"
    then obtain i j where m: "(i, j) \<in> set (finditer control_token s)" by (cases "finditer control_token s") auto
    then obtain js where "ends control_token s i = j # js"
      using finditer_from_spans [OF consuming_control_token, of s 0] by (auto simp: finditer_def)
    then show False using control_token_start [of s i] assms nth_mem [of i s] by auto
  qed
  then show ?thesis by (simp add: re_sub_def)
qed

lemma subseq_sub_spans: "spans_from (length s) k spans \<Longrightarrow> subseq (sub_spans [] s k spans) (drop k s)"
proof (induction "[] :: pystr" s k spans rule: sub_spans.induct)
  case (1 s k)
  then show ?case by simp
next
  case (2 s k i j spans)
  then have "subseq (slice k i s @ sub_spans [] s j spans) (slice k i s @ drop j s)"
    by (auto simp: list_emb_append_mono)
  moreover have "subseq (slice k i s @ drop j s) (slice k i s @ drop i s)"
  proof (rule list_emb_append_mono)
    have "drop j s = drop (j - i) (drop i s)" using 2 by simp
    then show "subseq (drop j s) (drop i s)" by (metis suffix_drop suffix_imp_subseq)
  qed simp
  moreover have "slice k i s @ drop i s = drop k s" using 2
    by (simp add: slice_def) (metis append_take_drop_id drop_drop le_add_diff_inverse2)
  ultimately show ?case by (metis append_Nil sub_spans.simps(2) subseq_order.trans)
qed

lemma subseq_re_sub: "consuming r \<Longrightarrow> subseq (re_sub r [] s) s"
  using subseq_sub_spans [OF finditer_spans] by (simp add: re_sub_def)

lemma subseq_strip: "subseq (strip s) s"
proof -
  have "subseq (rev (dropWhile is_space (rev (lstrip s)))) (lstrip s)"
    by (metis prefixI prefix_imp_subseq rev_append rev_rev_ident takeWhile_dropWhile_id)
  moreover have "subseq (lstrip s) s"
    by (metis lstrip_def suffix_dropWhile suffix_imp_subseq)
  ultimately show ?thesis by (metis strip_def rstrip_def subseq_order.trans)
qed

lemma strip_control_tokens_subseq: "subseq (strip_control_tokens s) s"
  using subseq_re_sub [OF consuming_control_token, of s] subseq_strip [of "re_sub control_token [] s"]
  by (auto simp: strip_control_tokens_def intro: subseq_order.trans)

text \<open>The contract of the function says that no token is left; one inside another leaves one.\<close>

theorem nested_control_token: "strip_control_tokens (u ''<|<|a|>b|>'') = u ''<|b|>''"
  by (simp add: strip_control_tokens_def re_sub_def control_token_def exactly_def eps_def plus1_def finditer_def finditer_from.simps
      star_ends.simps alnum_def letter_def is_upper_def is_lower_def is_digit_def slice_def strip_def lstrip_def rstrip_def
      is_space_def u_def)

subsection \<open>The answer shown and the answer stored\<close>

fun content_texts :: "llm_call list \<Rightarrow> pystr" where
  "content_texts [] = []"
| "content_texts (OnContent t # cs) = t @ content_texts cs"
| "content_texts (OnThinking t # cs) = content_texts cs"

definition shown :: "llm \<Rightarrow> pystr" where
  "shown st = content_texts (calls st)"

lemma content_texts_append [simp]: "content_texts (xs @ ys) = content_texts xs @ content_texts ys"
  by (induction xs rule: content_texts.induct) simp_all

lemma shown_simps [simp]:
  "shown (st\<lparr>think_splitter := sp\<rparr>) = shown st" "shown (st\<lparr>content_finished := b\<rparr>) = shown st"
  "shown (st\<lparr>last_reason := r\<rparr>) = shown st" "shown (st\<lparr>thinking := th\<rparr>) = shown st" "shown (st\<lparr>snapshot := d\<rparr>) = shown st"
  "shown (st\<lparr>last_contents := l\<rparr>) = shown st" "shown (st\<lparr>emitted_any := b\<rparr>) = shown st"
  by (simp_all add: shown_def)

lemma show_pieces_effect:
  "show_pieces ps st = Some st' \<Longrightarrow> shown st' = shown st @ part False (marked ps)
    \<and> think_splitter st' = think_splitter st \<and> snapshot st' = snapshot st"
proof (induction ps st rule: show_pieces.induct)
  case (3 t ps st)
  then show ?case by (simp add: Let_def shown_def split: if_splits)
qed (simp_all add: shown_def)

text \<open>One key of a message under a delta.\<close>

definition merged_key :: "pystr \<Rightarrow> pyval option \<Rightarrow> pyval \<Rightarrow> stream_error + pyval" where
  "merged_key k old v =
     (case old of
        None \<Rightarrow> Inr v
      | Some a \<Rightarrow> if a = PNone \<or> k = u ''index'' \<or> k = u ''type'' then Inr v else merge_value a v)"

lemma accumulate_step:
  "accumulate_delta acc ((k, v) # d) =
     (case merged_key k (map_of acc k) v of Inl e \<Rightarrow> Inl e | Inr w \<Rightarrow> accumulate_delta (AList.update k w acc) d)"
  by (simp add: merged_key_def split: option.splits)

lemma accumulate_key:
  "accumulate_delta acc d = Inr r \<Longrightarrow> distinct (map fst d) \<Longrightarrow>
     (case map_of d k of
        None \<Rightarrow> map_of r k = map_of acc k
      | Some v \<Rightarrow> \<exists>w. merged_key k (map_of acc k) v = Inr w \<and> map_of r k = Some w)"
proof (induction d arbitrary: acc)
  case Nil
  then show ?case by simp
next
  case (Cons x d)
  obtain k' v' where x: "x = (k', v')" by (cases x)
  then obtain w where w: "merged_key k' (map_of acc k') v' = Inr w" "accumulate_delta (AList.update k' w acc) d = Inr r"
    using Cons.prems(1) by (auto simp: accumulate_step simp del: accumulate_delta.simps split: sum.splits)
  show ?case
  proof (cases "k = k'")
    case True
    then have "map_of d k = None" using Cons.prems(2) x by (simp add: map_of_eq_None_iff)
    then show ?thesis using Cons.IH [OF w(2)] Cons.prems(2) w(1) x True by (simp add: update_conv)
  next
    case False
    then have "map_of (AList.update k' w acc) k = map_of acc k" by (simp add: update_conv)
    then show ?thesis using Cons.IH [OF w(2)] Cons.prems(2) x False by (cases "map_of d k") simp_all
  qed
qed

text \<open>A delta whose content is a text or null; the stored content against the text received so far.\<close>

definition text_delta :: "pydict \<Rightarrow> bool" where
  "text_delta d \<longleftrightarrow> distinct (map fst d) \<and> (dget d ''content'' PNone = PNone \<or> is_str (dget d ''content'' PNone))"

definition stored :: "pydict \<Rightarrow> pystr \<Rightarrow> bool" where
  "stored snap t \<longleftrightarrow> dget snap ''content'' PNone = PStr t \<or> dget snap ''content'' PNone = PNone \<and> t = []"

lemma normalize_keeps:
  "distinct (map fst d) \<Longrightarrow> distinct (map fst (normalize_delta d))"
  "map_of (normalize_delta d) (u ''content'') = map_of d (u ''content'')"
  by (auto simp: normalize_delta_def Let_def update_conv distinct_update split: pyval.splits)

lemma stored_merge:
  assumes "stored snap t" and "accumulate_delta snap d = Inr snap'" and "text_delta d"
  shows "stored snap' (t @ str_or [] (dget d ''content'' PNone))"
proof (cases "map_of d (u ''content'')")
  case None
  then have "map_of snap' (u ''content'') = map_of snap (u ''content'')"
    using accumulate_key [OF assms(2), of "u ''content''"] assms(3) by (simp add: text_delta_def)
  then show ?thesis using assms(1) None by (simp add: stored_def dget_def)
next
  case (Some v)
  then obtain w where w: "merged_key (u ''content'') (map_of snap (u ''content'')) v = Inr w" "map_of snap' (u ''content'') = Some w"
    using accumulate_key [OF assms(2), of "u ''content''"] assms(3) by (auto simp: text_delta_def)
  have v: "v = PNone \<or> is_str v" using assms(3) Some by (simp add: text_delta_def dget_def)
  show ?thesis
  proof (cases "map_of snap (u ''content'')")
    case None
    then have "t = []" "w = v" using assms(1) w(1) by (simp_all add: stored_def dget_def merged_key_def)
    then show ?thesis using v w(2) Some by (cases v) (auto simp: stored_def dget_def)
  next
    case (Some a)
    then consider "a = PNone" "t = []" | "a = PStr t" using assms(1) by (auto simp: stored_def dget_def)
    then show ?thesis
    proof cases
      case 1
      then have "w = v" using w(1) Some by (simp add: merged_key_def)
      then show ?thesis using 1 v w(2) \<open>map_of d (u ''content'') = Some v\<close> by (cases v) (auto simp: stored_def dget_def)
    next
      case 2
      then have "merge_value (PStr t) v = Inr w" using w(1) Some by (simp add: merged_key_def)
      then show ?thesis using v w(2) \<open>map_of d (u ''content'') = Some v\<close> by (cases v) (auto simp: stored_def dget_def)
    qed
  qed
qed

lemma map_of_filter_key: "map_of (filter (\<lambda>(k, v). k \<notin> K) d) k = (if k \<in> K then None else map_of d k)"
  by (induction d) auto

lemma on_delta_effect:
  assumes "on_delta d st = Inr st'" and "stored (snapshot st) t" and "text_delta d"
  shows "stored (snapshot st') (t @ str_or [] (dget d ''content'' PNone)) \<and> shown st' = shown st
    \<and> think_splitter st' = think_splitter st"
proof -
  define d1 where "d1 = filter (\<lambda>(k, v). k \<notin> set thinking_delta_keys) (normalize_delta d)"
  have c: "dget d1 ''content'' PNone = dget d ''content'' PNone"
  proof -
    have "u ''content'' \<notin> set thinking_delta_keys" by (simp add: thinking_delta_keys_def thinking_fields_def)
    then show ?thesis unfolding d1_def dget_def map_of_filter_key normalize_keeps by simp
  qed
  have td: "text_delta d1" using assms(3) normalize_keeps(1) [of d] c
    by (auto simp: text_delta_def d1_def distinct_map_filter)
  obtain th snap where s: "accumulate_delta (snapshot st) d1 = Inr snap"
    "st' = st\<lparr>thinking := th, snapshot := (case map_of (normalize_delta d) (u ''model'') of
       Some m \<Rightarrow> if map_of snap (u ''model'') = None then AList.update (u ''model'') m snap else snap | None \<Rightarrow> snap)\<rparr>"
    using assms(1) by (auto simp: on_delta_def Let_def d1_def split: sum.splits)
  have "stored snap (t @ str_or [] (dget d1 ''content'' PNone))" by (rule stored_merge [OF assms(2) s(1) td])
  then show ?thesis unfolding s(2) c by (auto simp: stored_def dget_def update_conv split: option.splits)
qed


text \<open>The state after some lines, with the text received so far.\<close>

definition shows_text :: "llm \<Rightarrow> pystr \<Rightarrow> bool" where
  "shows_text st t \<longleftrightarrow> splitter_ok (think_splitter st) \<and> stored (snapshot st) t
     \<and> (\<forall>rest. shown st @ part False (to_come (think_splitter st) rest) = part False (marks False (t @ rest)))"

lemma shows_text_same:
  "shows_text st t \<Longrightarrow> shown st' = shown st \<Longrightarrow> think_splitter st' = think_splitter st \<Longrightarrow> snapshot st' = snapshot st \<Longrightarrow>
     shows_text st' t"
  by (simp add: shows_text_def)

lemma shown_thinking: "shown (show_thinking t st) = shown st"
  by (simp add: show_thinking_def shown_def)

lemma thinking_same: "shows_text st t \<Longrightarrow> shows_text (show_thinking s st) t"
proof -
  assume a: "shows_text st t"
  have "think_splitter (show_thinking s st) = think_splitter st" "snapshot (show_thinking s st) = snapshot st"
    by (simp_all add: show_thinking_def)
  with a shown_thinking show ?thesis by (rule shows_text_same)
qed

lemma show_content_effect:
  assumes "show_content v st = Inr st'" and "shows_text st t" and "v = PStr s"
  shows "splitter_ok (think_splitter st') \<and> snapshot st' = snapshot st
    \<and> (\<forall>rest. shown st' @ part False (to_come (think_splitter st') rest) = part False (marks False ((t @ s) @ rest)))"
proof (cases "s = []")
  case True
  then show ?thesis using assms by (simp add: show_content_def shows_text_def)
next
  case False
  define sp where "sp = fst (split_feed (think_splitter st) s)"
  define ps where "ps = snd (split_feed (think_splitter st) s)"
  have e: "show_pieces ps (st\<lparr>think_splitter := sp\<rparr>) = Some st'"
    using assms(1,3) False by (auto simp: show_content_def split_beta sp_def ps_def split: option.splits)
  have ok: "splitter_ok (think_splitter st)" using assms(2) by (simp add: shows_text_def)
  have st': "shown st' = shown st @ part False (marked ps)" "think_splitter st' = sp" "snapshot st' = snapshot st"
    using show_pieces_effect [OF e] by simp_all
  have "shown st' @ part False (to_come sp rest) = part False (marks False ((t @ s) @ rest))" for rest
  proof -
    have "marked ps @ to_come sp rest = to_come (think_splitter st) (s @ rest)"
      unfolding ps_def sp_def by (rule think.feed_spec [OF ok])
    then have "part False (marked ps) @ part False (to_come sp rest) = part False (to_come (think_splitter st) (s @ rest))"
      by (metis part_simps(4))
    moreover have "shown st @ part False (to_come (think_splitter st) (s @ rest)) = part False (marks False (t @ s @ rest))"
      using assms(2) by (simp add: shows_text_def)
    ultimately show ?thesis using st'(1) by (metis append_assoc)
  qed
  moreover have "splitter_ok sp" unfolding sp_def by (rule think.feed_ok [OF ok])
  ultimately show ?thesis using st' by simp
qed

lemma take_delta_effect:
  assumes "take_delta E m d st = Inr st'" and "stored (snapshot st) t" and "text_delta d"
  shows "stored (snapshot st') (t @ str_or [] (dget d ''content'' PNone)) \<and> shown st' = shown st
    \<and> think_splitter st' = think_splitter st"
proof (cases "d = []")
  case True
  then show ?thesis using assms by (simp add: take_delta_def)
next
  case False
  define d1 where "d1 = (if truthy m \<and> map_of (normalize_delta d) (u ''model'') = None
    then AList.update (u ''model'') (PStr (py_str (str_of E) m)) (normalize_delta d) else normalize_delta d)"
  have o: "on_delta d1 st = Inr st'" using assms(1) False by (simp add: take_delta_def Let_def d1_def)
  have "map_of d1 (u ''content'') = map_of d (u ''content'')" by (simp add: d1_def update_conv normalize_keeps)
  then have c: "dget d1 ''content'' PNone = dget d ''content'' PNone" by (simp add: dget_def)
  have "text_delta d1" using assms(3) normalize_keeps(1) [of d] c
    by (auto simp: text_delta_def d1_def distinct_update)
  then show ?thesis using on_delta_effect [OF o assms(2)] c by simp
qed

definition text_payload :: "stream_env \<Rightarrow> nat list \<Rightarrow> bool" where
  "text_payload E line =
     (case iterate_sse_line E line of
        Payload p \<Rightarrow> (case loads E p of Some (PDict chunk) \<Rightarrow> text_delta (chunk_delta chunk) | _ \<Rightarrow> True)
      | _ \<Rightarrow> True)"

lemma take_payload_effect:
  assumes "take_payload E stop p st = r" and "shows_text st t"
    and "\<And>chunk. loads E p = Some (PDict chunk) \<Longrightarrow> text_delta (chunk_delta chunk)"
  shows "(\<forall>st'. r = Go st' \<or> r = Break st' \<longrightarrow> (\<exists>t'. shows_text st' t'))"
proof (intro allI impI)
  fix st'
  assume r: "r = Go st' \<or> r = Break st'"
  have same: "\<exists>t'. shows_text st' t'"
    if "st' = st \<or> st' = st\<lparr>content_finished := True\<rparr> \<or> st' = st\<lparr>last_reason := PStr (u ''stop''), content_finished := True\<rparr>"
    using that assms(2) by (auto simp: shows_text_def)
  show "\<exists>t'. shows_text st' t'"
  proof (cases "\<exists>chunk st1 st2 thought reason. loads E p = Some (PDict chunk)
      \<and> show_content (chunk_content chunk) (show_thinking thought st) = Inr st1
      \<and> take_delta E (dget chunk ''model'' PNone) (chunk_delta chunk) st1 = Inr st2
      \<and> st' = (if truthy reason then st2\<lparr>last_reason := reason\<rparr> else st2)")
    case True
    then obtain chunk st1 st2 thought reason where l: "loads E p = Some (PDict chunk)"
      and st1: "show_content (chunk_content chunk) (show_thinking thought st) = Inr st1"
      and st2: "take_delta E (dget chunk ''model'' PNone) (chunk_delta chunk) st1 = Inr st2"
      and st': "st' = (if truthy reason then st2\<lparr>last_reason := reason\<rparr> else st2)" by blast
    let ?s = "str_or [] (dget (chunk_delta chunk) ''content'' PNone)"
    have td: "text_delta (chunk_delta chunk)" by (rule assms(3) [OF l])
    then have "chunk_content chunk = PStr ?s"
      by (cases "dget (chunk_delta chunk) ''content'' PNone") (auto simp: text_delta_def chunk_content_def or_empty_def)
    note c = show_content_effect [OF st1 thinking_same [OF assms(2)] this]
    have "snapshot st1 = snapshot st" using c by (simp add: show_thinking_def)
    then have "stored (snapshot st1) t" using assms(2) by (simp add: shows_text_def)
    note d = take_delta_effect [OF st2 this td]
    have "shows_text st2 (t @ ?s)" using c d by (simp add: shows_text_def)
    then have "shows_text st' (t @ ?s)" unfolding st' by (auto simp: shows_text_def)
    then show ?thesis by blast
  next
    case False
    have "st' = st \<or> st' = st\<lparr>content_finished := True\<rparr> \<or> st' = st\<lparr>last_reason := PStr (u ''stop''), content_finished := True\<rparr>"
      using r False unfolding assms(1) [symmetric] take_payload_def
      by (auto split: if_splits option.splits pyval.splits sum.splits)
    then show ?thesis by (rule same)
  qed
qed

lemma run_lines_effect:
  "run_lines E lines st = r \<Longrightarrow> shows_text st t \<Longrightarrow> list_all (text_payload E) (map fst lines) \<Longrightarrow>
     r = Go st' \<or> r = Break st' \<Longrightarrow> \<exists>t'. shows_text st' t'"
proof (induction E lines st arbitrary: t rule: run_lines.induct)
  case (1 E st)
  then show ?case by auto
next
  case (2 E line stop lines st)
  show ?case
  proof (cases "iterate_sse_line E line")
    case NoPayload
    then show ?thesis using "2.IH"(1) [OF NoPayload] "2.prems" by simp
  next
    case (Payload p)
    have c: "\<And>chunk. loads E p = Some (PDict chunk) \<Longrightarrow> text_delta (chunk_delta chunk)"
      using "2.prems"(3) Payload by (simp add: text_payload_def)
    show ?thesis
    proof (cases "take_payload E stop p st")
      case (Go st1)
      then obtain t1 where "shows_text st1 t1" using take_payload_effect [OF Go "2.prems"(2) c] by blast
      then show ?thesis using "2.IH"(2) [OF Payload Go _ _ _] "2.prems" Payload Go by auto
    next
      case (Break st1)
      then have "st' = st1" using "2.prems"(1,4) Payload by auto
      then show ?thesis using take_payload_effect [OF Break "2.prems"(2) c] by blast
    next
      case (Fails e)
      then show ?thesis using "2.prems"(1,4) Payload by auto
    qed
  next
    case BadBytes
    then show ?thesis using "2.prems"(1,4) by auto
  qed
qed

lemma flush_shown:
  assumes "splitter_ok (think_splitter st)"
  shows "shown (flush_calls st) = shown st @ part False (to_come (think_splitter st) [])"
proof -
  have "content_texts (map (\<lambda>(b, t). if b then OnThinking t else OnContent t) ps) = part False (marked ps)" for ps
    by (induction ps) auto
  then have "shown (flush_calls st) = shown st @ part False (marked (split_flush (think_splitter st)))"
    by (simp add: flush_calls_def shown_def)
  then show ?thesis using think.finish_spec [OF assms] by simp
qed

lemma answer_content:
  assumes "read_answer E requested st = Inr a"
    and "normalize_message_content (str_of E) (dget (snapshot st) ''content'' PNone) = Inr raw"
    and "fst (strip_think_tags raw) = t"
  shows "a_content a =
      (let c = strip_control_tokens t
       in case text_calls E requested (dget (snapshot st) ''tool_calls'' PNone) c of None \<Rightarrow> c | Some (t, cs) \<Rightarrow> t)
    \<and> a_calls a =
      (let c = strip_control_tokens t
       in case text_calls E requested (dget (snapshot st) ''tool_calls'' PNone) c of
            None \<Rightarrow> dget (snapshot st) ''tool_calls'' PNone | Some (t, cs) \<Rightarrow> cs)"
proof -
  obtain ex where "strip_think_tags raw = (t, ex)" using assms(3) by (cases "strip_think_tags raw") simp
  then show ?thesis using assms(1) by (auto simp: read_answer_def assms(2) Let_def)
qed

lemma text_calls_differ: "text_calls E requested tool_calls c = Some (t, cs) \<Longrightarrow> cs \<noteq> tool_calls"
  by (auto simp: text_calls_def split: if_splits option.splits prod.splits)

text \<open>What is stored is read off what was shown.\<close>

lemma stored_from_shown:
  assumes "stream_request E [(lines, False)] = Inr st" and "list_all (text_payload E) (map fst lines)"
    and "read_answer E requested st = Inr a"
  shows "a_content a =
    (let c = strip_control_tokens (strip (until_tag (shown st)))
     in case text_calls E requested (dget (snapshot st) ''tool_calls'' PNone) c of None \<Rightarrow> c | Some (t, cs) \<Rightarrow> t)
    \<and> a_calls a =
    (let c = strip_control_tokens (strip (until_tag (shown st)))
     in case text_calls E requested (dget (snapshot st) ''tool_calls'' PNone) c of
          None \<Rightarrow> dget (snapshot st) ''tool_calls'' PNone | Some (t, cs) \<Rightarrow> cs)"
proof -
  obtain st1 where r: "run_lines E lines (start_attempt new_request) = Go st1 \<or> run_lines E lines (start_attempt new_request) = Break st1"
    and st: "st = flush_calls st1"
    using assms(1) by (auto simp: stream_request_def retry_max_attempts_def split: llm_result.splits)
  have "shows_text (start_attempt new_request) []"
    by (simp add: shows_text_def start_attempt_def new_request_def stored_def shown_def to_come_def splitter_ok_def new_splitter_def)
  then obtain t where t: "shows_text st1 t" using run_lines_effect [OF refl _ assms(2) r] by blast
  then have "splitter_ok (think_splitter st1)" by (simp add: shows_text_def)
  then have sh: "shown st = part False (marks False t)"
    using t flush_shown [of st1] by (simp add: st shows_text_def)
  have "stored (snapshot st) t" using t by (simp add: st flush_calls_def shows_text_def)
  then consider "dget (snapshot st) ''content'' PNone = PStr t" | "dget (snapshot st) ''content'' PNone = PNone" "t = []"
    by (auto simp: stored_def)
  then show ?thesis
  proof cases
    case 1
    then have n: "normalize_message_content (str_of E) (dget (snapshot st) ''content'' PNone) = Inr (Some t)"
      by (simp add: normalize_message_content_def)
    have "fst (strip_think_tags (Some t)) = strip (until_tag (shown st))"
      by (simp add: strip_think_tags_eq thoughts_of_marks sh)
    then show ?thesis by (rule answer_content [OF assms(3) n])
  next
    case 2
    then have n: "normalize_message_content (str_of E) (dget (snapshot st) ''content'' PNone) = Inr None"
      by (simp add: normalize_message_content_def)
    have "fst (strip_think_tags None) = strip (until_tag (shown st))"
      using 2(2) by (simp add: strip_think_tags_def sh until_tag_def)
    then show ?thesis by (rule answer_content [OF assms(3) n])
  qed
qed

lemma until_tag_same: "60 \<notin> set s \<Longrightarrow> until_tag s = s"
proof -
  assume a: "60 \<notin> set s"
  have "find_sub (think_tag False) s = None"
  proof (rule ccontr)
    assume "find_sub (think_tag False) s \<noteq> None"
    then obtain i where "find_sub (think_tag False) s = Some i" by blast
    from find_sub_Some [OF this] have "take (length (think_tag False)) (drop i s) = think_tag False" by simp
    then have "set (think_tag False) \<subseteq> set s" by (metis set_drop_subset set_take_subset subset_trans)
    then show False using a by (simp add: think_tag_def u_def)
  qed
  then show ?thesis by (simp add: until_tag_def)
qed

text \<open>C3: A request whose first attempt goes through, also one that is stopped in the middle, stores as the answer what
  it has shown as the answer: up to an opening tag of a thought if what is shown contains one, without the blanks
  around it and the control tokens \<open><|name|>\<close> in it; when the message has no tool calls and the parser of the model
  finds some in this text, the answer is the text the parser leaves. So nothing is stored that was not shown unless
  such a parser brings it in, and a shown text without \<open><\<close> is stored unchanged but for the blanks around it.\<close>

theorem shown_is_stored:
  assumes "stream_request E [(lines, False)] = Inr st" and "list_all (text_payload E) (map fst lines)"
    and "read_answer E requested st = Inr a"
  shows "a_content a =
      (let c = strip_control_tokens (strip (until_tag (shown st)))
       in case text_calls E requested (dget (snapshot st) ''tool_calls'' PNone) c of None \<Rightarrow> c | Some (t, cs) \<Rightarrow> t)
    \<and> (a_calls a = dget (snapshot st) ''tool_calls'' PNone \<longrightarrow>
         subseq (a_content a) (shown st) \<and> (60 \<notin> set (shown st) \<longrightarrow> a_content a = strip (shown st)))"
proof
  let ?c = "strip_control_tokens (strip (until_tag (shown st)))"
  let ?f = "text_calls E requested (dget (snapshot st) ''tool_calls'' PNone) ?c"
  have a: "a_content a = (case ?f of None \<Rightarrow> ?c | Some (t, cs) \<Rightarrow> t)"
    using stored_from_shown [OF assms] by (simp add: Let_def)
  then show "a_content a = (let c = ?c in case text_calls E requested (dget (snapshot st) ''tool_calls'' PNone) c of
      None \<Rightarrow> c | Some (t, cs) \<Rightarrow> t)" by (simp add: Let_def)
  show "a_calls a = dget (snapshot st) ''tool_calls'' PNone \<longrightarrow>
      subseq (a_content a) (shown st) \<and> (60 \<notin> set (shown st) \<longrightarrow> a_content a = strip (shown st))"
  proof
    assume "a_calls a = dget (snapshot st) ''tool_calls'' PNone"
    then have c: "a_content a = ?c" using stored_from_shown [OF assms] text_calls_differ
      by (auto simp: Let_def split: option.splits prod.splits)
    have "subseq (until_tag (shown st)) (shown st)" by (auto simp: until_tag_def intro: prefix_imp_subseq take_is_prefix split: option.splits)
    then have "subseq ?c (shown st)"
      by (meson strip_control_tokens_subseq subseq_order.trans subseq_strip)
    moreover have "?c = strip (shown st)" if "60 \<notin> set (shown st)"
    proof -
      have "60 \<notin> set (strip (shown st))" using that set_strip [of "shown st"] by blast
      from no_control_token [OF this] show ?thesis using that by (simp add: until_tag_same strip_control_tokens_def strip_strip)
    qed
    ultimately show "subseq (a_content a) (shown st) \<and> (60 \<notin> set (shown st) \<longrightarrow> a_content a = strip (shown st))"
      unfolding c by blast
  qed
qed

text \<open>Lines for the examples: line \<open>n\<close> of a list of chunks is \<open>{\<close> followed by the code point \<open>65 + n\<close>. A chunk has the
  name of a model, or null, and one delta.\<close>

definition payload_no :: "nat \<Rightarrow> pystr" where
  "payload_no n = [123, 65 + n]"

definition chunk_env :: "pydict list \<Rightarrow> stream_env" where
  "chunk_env chunks =
     \<lparr>decode = Some, loads = (\<lambda>s. case s of [_, c] \<Rightarrow> if c - 65 < length chunks then Some (PDict (chunks ! (c - 65))) else None | _ \<Rightarrow> None),
      str_of = small_repr, call_parser = (\<lambda>model. None)\<rparr>"

definition lines_of :: "nat list \<Rightarrow> (nat list \<times> bool) list" where
  "lines_of ns = map (\<lambda>n. (payload_no n, False)) ns"

definition delta_chunk :: "pyval \<Rightarrow> pydict \<Rightarrow> pydict" where
  "delta_chunk m d = [(u ''model'', m), (u ''choices'', PList [PDict [(u ''delta'', PDict d)]])]"

lemma lines_of_simps: "lines_of [] = []" "lines_of (n # ns) = (payload_no n, False) # lines_of ns"
  by (simp_all add: lines_of_def)

lemma line_payload: "iterate_sse_line (chunk_env cs) (payload_no n) = Payload (payload_no n)" if "n < 20"
  using that by (auto simp: iterate_sse_line_def payload_no_def strip_bytes_def is_byte_space_def decoded_def chunk_env_def u_def Let_def
    strip_def lstrip_def rstrip_def is_space_def)

lemma line_loads: "n < length cs \<Longrightarrow> loads (chunk_env cs) (payload_no n) = Some (PDict (cs ! n))"
  by (simp add: chunk_env_def payload_no_def)

lemma run_line:
  "n < 20 \<Longrightarrow> run_lines (chunk_env cs) (lines_of (n # ns)) st =
     (case take_payload (chunk_env cs) False (payload_no n) st of Go st' \<Rightarrow> run_lines (chunk_env cs) (lines_of ns) st' | r \<Rightarrow> r)"
  by (simp only: lines_of_simps run_lines.simps line_payload sse_line.case)

definition plain_delta :: "pydict \<Rightarrow> bool" where
  "plain_delta d \<longleftrightarrow> d \<noteq> [] \<and> list_all (\<lambda>f. dget d f PNone = PNone) (''reasoning_details'' # thinking_fields)"

lemma plain_thinking:
  "plain_delta d \<Longrightarrow> thinking_text_from_delta d = Inr []"
  by (simp add: plain_delta_def thinking_text_from_delta_def thinking_fields_def)

lemma choose_plain: "plain_delta d \<Longrightarrow> source m = None \<Longrightarrow> choose_source d m = m"
  by (simp add: plain_delta_def choose_source_def thinking_fields_def full_str_def)

lemma new_source: "source new_streaming_thinking_meta = None"
  by (simp add: new_streaming_thinking_meta_def)

lemma take_plain:
  assumes "loads E p = Some (PDict (delta_chunk m d))" and "p \<noteq> u ''[DONE]''" and "\<not> content_finished st" and "plain_delta d"
  shows "take_payload E False p st =
    (case show_content (or_empty (dget d ''content'' PNone)) st of
       Inl e \<Rightarrow> Fails e
     | Inr st1 \<Rightarrow> (case take_delta E m d st1 of Inl e \<Rightarrow> Fails e | Inr st2 \<Rightarrow> Go st2))"
proof -
  have d: "d \<noteq> []" using assms(4) by (simp add: plain_delta_def)
  have "chunk_reason (delta_chunk m d) = Inr PNone" "chunk_content (delta_chunk m d) = or_empty (dget d ''content'' PNone)"
    "chunk_delta (delta_chunk m d) = d" "dget (delta_chunk m d) ''model'' PNone = m"
    "normalize_stream_delta (PDict (delta_chunk m d)) = d" "truthy (dget (delta_chunk m d) ''choices'' (PList []))"
    using d by (simp_all add: delta_chunk_def dget_def chunk_reason_def first_choice_def reason_in_def or_value_def chunk_content_def
      chunk_delta_def normalize_stream_delta_def)
  then show ?thesis using assms
    by (simp add: take_payload_def extract_thinking_from_delta_def plain_thinking str_is_def show_thinking_def split: sum.splits)
qed

text \<open>A delta with a text alone.\<close>

lemma take_text_delta:
  "take_delta E PNone [(u ''content'', PStr s)] st =
     Inr (st\<lparr>thinking := (fst (thinking st), choose_source [(u ''content'', PStr s)] (snd (thinking st))),
             snapshot := projr (accumulate_delta (snapshot st) [(u ''content'', PStr s)])\<rparr>)"
  if "map_of (snapshot st) (u ''content'') = None \<or> (\<exists>t. map_of (snapshot st) (u ''content'') = Some (PStr t))"
  using that plain_thinking [of "[(u ''content'', PStr s)]"]
  by (auto simp: take_delta_def on_delta_def normalize_delta_def dget_def accumulate_streaming_thinking_def plain_delta_def
    thinking_fields_def thinking_delta_keys_def split_beta split: prod.splits)

definition example_env :: stream_env where
  "example_env = chunk_env [delta_chunk PNone [(u ''content'', PStr (u ''<thi''))],
     delta_chunk PNone [(u ''content'', PStr (u ''nk>a</think>b ''))]]"

lemma payload_go: "payload_no n \<noteq> u ''[DONE]''"
  by (simp add: payload_no_def u_def)

lemma example_split:
  "split_loop False (u ''<thi'') = ([], \<lparr>in_thinking = False, kept = u ''<thi''\<rparr>)"
  "split_loop False (u ''<think>a</think>b '') = ([(True, u ''a''), (False, u ''b '')], \<lparr>in_thinking = False, kept = []\<rparr>)"
  by (simp_all add: split_loop.simps partial_tag_def think_tag_def u_def numeral_eq_Suc)

lemmas run_examples = run_line line_loads take_plain payload_go plain_delta_def thinking_fields_def dget_def or_empty_def
  start_attempt_def new_request_def show_content_def new_splitter_def split_feed_def repeat_limit_def choose_plain new_source lines_of_simps(1)

lemma example_run:
  "run_lines example_env (lines_of [0, 1]) (start_attempt new_request) =
     Go \<lparr>calls = [OnThinking (u ''a''), OnContent (u ''b '')], emitted_any = True, content_finished = False,
         last_contents = [u ''b ''], think_splitter = \<lparr>in_thinking = False, kept = []\<rparr>, last_reason = PNone,
         thinking = ([], new_streaming_thinking_meta), snapshot = [(u ''content'', PStr (u ''<think>a</think>b ''))]\<rparr>"
  by (simp add: example_env_def run_examples example_split take_text_delta u_append [symmetric])

theorem shown_is_stored_witness:
  "\<exists>st a. stream_request example_env [(lines_of [0, 1], False)] = Inr st \<and> read_answer example_env [] st = Inr a
     \<and> a_content a = u ''b'' \<and> shown st = u ''b ''"
proof -
  let ?st = "\<lparr>calls = [OnThinking (u ''a''), OnContent (u ''b '')], emitted_any = True, content_finished = False,
    last_contents = [u ''b ''], think_splitter = \<lparr>in_thinking = False, kept = []\<rparr>, last_reason = PNone,
    thinking = ([], new_streaming_thinking_meta), snapshot = [(u ''content'', PStr (u ''<think>a</think>b ''))]\<rparr>"
  have r: "stream_request example_env [(lines_of [0, 1], False)] = Inr ?st"
    by (simp add: stream_request_def retry_max_attempts_def example_run [simplified] flush_calls_def split_flush_def)
  obtain a where a: "read_answer example_env [] ?st = Inr a"
    by (simp add: read_answer_def dget_def normalize_message_content_def split_beta Let_def)
  have t: "list_all (text_payload example_env) (map fst (lines_of [0, 1]))"
    by (simp add: lines_of_simps text_payload_def example_env_def line_payload line_loads chunk_delta_def delta_chunk_def first_choice_def
        dget_def text_delta_def)
  have s: "shown ?st = u ''b ''" by (simp add: shown_def)
  have "a_calls a = dget (snapshot ?st) ''tool_calls'' PNone"
    using a by (simp add: read_answer_def text_calls_def example_env_def chunk_env_def dget_def normalize_message_content_def
        split_beta Let_def split: if_splits) auto
  moreover have "60 \<notin> set (shown ?st)" unfolding s by (simp add: u_def)
  ultimately have "a_content a = strip (shown ?st)" using shown_is_stored [OF r t a] by blast
  also have "\<dots> = u ''b''" unfolding s
    by (simp add: u_def strip_def lstrip_def rstrip_def is_space_def)
  finally show ?thesis using r a s by blast
qed

subsection \<open>Attempts\<close>

lemma show_pieces_quiet:
  "show_pieces ps st = Some st' \<Longrightarrow> (emitted_any st \<or> shown st = []) \<Longrightarrow> emitted_any st' \<or> shown st' = []"
  by (induction ps st rule: show_pieces.induct) (auto simp: Let_def shown_def split: if_splits)

lemma take_delta_same:
  "take_delta E m d st = Inr st' \<Longrightarrow> calls st' = calls st \<and> emitted_any st' = emitted_any st"
  by (auto simp: take_delta_def on_delta_def Let_def split: if_splits sum.splits)

lemma take_payload_quiet:
  assumes "take_payload E stop p st = Go st'" and "emitted_any st \<or> shown st = []"
  shows "emitted_any st' \<or> shown st' = []"
proof (cases "\<exists>chunk st1 st2 thought reason. loads E p = Some (PDict chunk)
      \<and> show_content (chunk_content chunk) (show_thinking thought st) = Inr st1
      \<and> take_delta E (dget chunk ''model'' PNone) (chunk_delta chunk) st1 = Inr st2
      \<and> st' = (if truthy reason then st2\<lparr>last_reason := reason\<rparr> else st2)")
  case True
  then obtain chunk st1 st2 thought reason where s: "show_content (chunk_content chunk) (show_thinking thought st) = Inr st1"
    "take_delta E (dget chunk ''model'' PNone) (chunk_delta chunk) st1 = Inr st2"
    "st' = (if truthy reason then st2\<lparr>last_reason := reason\<rparr> else st2)" by blast
  have "emitted_any (show_thinking thought st) \<or> shown (show_thinking thought st) = []"
    using assms(2) by (auto simp: shown_thinking) (simp add: show_thinking_def)
  then have "emitted_any st1 \<or> shown st1 = []"
    using s(1) show_pieces_quiet
    by (fastforce simp: show_content_def split_beta split: if_splits pyval.splits option.splits)
  then show ?thesis using take_delta_same [OF s(2)] s(3) by (auto simp: shown_def)
next
  case False
  have "st' = st \<or> st' = st\<lparr>content_finished := True\<rparr>"
    using False assms(1) unfolding take_payload_def
    by (auto split: if_splits option.splits pyval.splits sum.splits)
  then show ?thesis using assms(2) by auto
qed

lemma run_lines_quiet:
  "run_lines E lines st = Go st' \<Longrightarrow> emitted_any st \<or> shown st = [] \<Longrightarrow> emitted_any st' \<or> shown st' = []"
proof (induction E lines st rule: run_lines.induct)
  case (2 E line stop lines st)
  show ?case
  proof (cases "iterate_sse_line E line")
    case (Payload p)
    then obtain st1 where g: "take_payload E stop p st = Go st1" using "2.prems"(1) by (cases "take_payload E stop p st") auto
    have "emitted_any st1 \<or> shown st1 = []" by (rule take_payload_quiet [OF g "2.prems"(2)])
    then show ?thesis using "2.IH"(2) [OF Payload g] "2.prems"(1) Payload g by simp
  qed (use 2 in auto)
qed simp

lemma attempts_end:
  "run_attempts E n attempts st = Inr st' \<Longrightarrow> shown st = [] \<Longrightarrow> \<not> emitted_any st \<Longrightarrow>
     \<exists>before lines lost after st1 st2. attempts = before @ (lines, lost) # after \<and> length before < max 1 n \<and> shown st1 = []
       \<and> (run_lines E lines (start_attempt st1) = Go st2 \<or> run_lines E lines (start_attempt st1) = Break st2) \<and> st' = flush_calls st2"
proof (induction E n attempts st rule: run_attempts.induct)
  case (1 E n st)
  then show ?case by simp
next
  case (2 E n lines lost attempts st)
  show ?case
  proof (cases "run_lines E lines (start_attempt st)")
    case (Go st1)
    show ?thesis
    proof (cases "lost")
      case True
      then have c: "\<not> emitted_any st1" "0 < n - 1" "run_attempts E (n - 1) attempts st1 = Inr st'"
        using "2.prems"(1) Go by (auto split: if_splits)
      have "emitted_any st1 \<or> shown st1 = []"
        using run_lines_quiet [OF Go] "2.prems"(2) by (simp add: start_attempt_def shown_def)
      then have "shown st1 = []" using c(1) by simp
      then obtain before lines' lost' after s1 s2 where "attempts = before @ (lines', lost') # after" "length before < max 1 (n - 1)"
        "shown s1 = []" "run_lines E lines' (start_attempt s1) = Go s2 \<or> run_lines E lines' (start_attempt s1) = Break s2"
        "st' = flush_calls s2"
        using "2.IH" [OF Go _ c(1,2)] True c(3,1) by auto
      then show ?thesis using c(2)
        by (intro exI [of _ "(lines, lost) # before"] exI [of _ lines'] exI [of _ lost'] exI [of _ after] exI [of _ s1] exI [of _ s2]) auto
    next
      case False
      then have "st' = flush_calls st1" using "2.prems"(1) Go by simp
      then show ?thesis using Go "2.prems"(2)
        by (intro exI [of _ "[]"] exI [of _ lines] exI [of _ lost] exI [of _ attempts] exI [of _ st] exI [of _ st1]) auto
    qed
  next
    case (Break st1)
    then have "st' = flush_calls st1" using "2.prems"(1) by simp
    then show ?thesis using Break "2.prems"(2)
      by (intro exI [of _ "[]"] exI [of _ lines] exI [of _ lost] exI [of _ attempts] exI [of _ st] exI [of _ st1]) auto
  next
    case (Fails e)
    then show ?thesis using "2.prems"(1) by simp
  qed
qed

text \<open>C7: A request makes at most three attempts, and only the last of them shows answer text: an earlier one that was
  lost has shown none.\<close>

theorem answer_from_one_attempt:
  assumes "stream_request E attempts = Inr st"
  shows "\<exists>before lines lost after st1 st2. attempts = before @ (lines, lost) # after \<and> length before < 3 \<and> shown st1 = []
    \<and> (run_lines E lines (start_attempt st1) = Go st2 \<or> run_lines E lines (start_attempt st1) = Break st2) \<and> st = flush_calls st2"
  using attempts_end [OF assms [unfolded stream_request_def]]
  by (simp add: retry_max_attempts_def new_request_def shown_def)

theorem answer_from_one_attempt_witness:
  "\<exists>st before lines lost after st1 st2. stream_request example_env [(lines_of [0, 1], False)] = Inr st
    \<and> [(lines_of [0, 1], False)] = before @ (lines, lost) # after \<and> shown st1 = [] \<and> st = flush_calls st2"
proof -
  obtain st where "stream_request example_env [(lines_of [0, 1], False)] = Inr st"
    by (simp add: stream_request_def retry_max_attempts_def example_run [simplified])
  from answer_from_one_attempt [OF this] this show ?thesis by blast
qed

subsection \<open>What a repeated attempt repeats\<close>

definition tool_env :: stream_env where
  "tool_env = chunk_env [delta_chunk (PStr (u ''m'')) [(u ''tool_calls'', PList [wire_call 0 (u ''a'', u ''find'', u ''{'')])],
     delta_chunk (PStr (u ''m'')) [(u ''tool_calls'', PList (wires 1 [More 0 (u ''}'')]))]]"

lemmas delta_defs = take_delta_def on_delta_def normalize_delta_def accumulate_streaming_thinking_def plain_thinking
  thinking_delta_keys_def repair_call_def wire_call_def split_beta Let_def

definition doubled_call :: "string \<Rightarrow> pyval" where
  "doubled_call args = PDict [(u ''index'', PInt 0), (u ''id'', PStr (u ''aa'')), (u ''type'', PStr (u ''function'')),
     (u ''function'', PDict [(u ''name'', PStr (u ''findfind'')), (u ''arguments'', PStr (u args))])]"

lemma tool_run1:
  "run_lines tool_env (lines_of [0]) (start_attempt new_request) =
     Go (new_request\<lparr>snapshot := [(u ''tool_calls'', PList [wire_call 0 (u ''a'', u ''find'', u ''{'')]), (u ''model'', PStr (u ''m''))]\<rparr>)"
  by (simp add: tool_env_def run_examples delta_defs)

lemma tool_run2:
  "run_lines tool_env (lines_of [0, 1])
       (start_attempt (new_request\<lparr>snapshot := [(u ''tool_calls'', PList [wire_call 0 (u ''a'', u ''find'', u ''{'')]), (u ''model'', PStr (u ''m''))]\<rparr>)) =
     Go (new_request\<lparr>snapshot := [(u ''tool_calls'', PList [doubled_call ''{{}'']), (u ''model'', PStr (u ''mmm''))]\<rparr>)"
  by (simp add: tool_env_def run_examples delta_defs doubled_call_def plain_item_def item_pos_def u_append [symmetric])

text \<open>The message is not cleared for a new attempt: a connection lost after the first part of a tool call, before
  any text, leaves a call with its id and name doubled and arguments that are no JSON; and the name of the model, which
  comes with every chunk, is appended to itself.\<close>

theorem retry_doubles_calls:
  "\<exists>st a. stream_request tool_env [(lines_of [0], True), (lines_of [0, 1], False)] = Inr st
     \<and> read_answer tool_env (u ''m'') st = Inr a \<and> a_calls a = PList [doubled_call ''{{}''] \<and> a_model a = u ''mmm''"
proof -
  let ?st = "new_request\<lparr>snapshot := [(u ''tool_calls'', PList [doubled_call ''{{}'']), (u ''model'', PStr (u ''mmm''))]\<rparr>"
  have "stream_request tool_env [(lines_of [0], True), (lines_of [0, 1], False)] = Inr (flush_calls ?st)"
    by (simp add: stream_request_def retry_max_attempts_def tool_run1 tool_run2 [simplified]) (simp add: new_request_def)
  moreover have "flush_calls ?st = ?st" by (simp add: flush_calls_def split_flush_def new_request_def new_splitter_def)
  moreover obtain a where "read_answer tool_env (u ''m'') ?st = Inr a" "a_calls a = PList [doubled_call ''{{}'']" "a_model a = u ''mmm''"
    by (simp add: read_answer_def text_calls_def doubled_call_def normalize_message_content_def dget_def or_value_def split_beta Let_def)
  ultimately show ?thesis by metis
qed

definition thought_env :: stream_env where
  "thought_env = chunk_env [delta_chunk PNone [(u ''content'', PStr (u ''<think>a''))],
     delta_chunk PNone [(u ''content'', PStr (u ''</think>b''))]]"

text \<open>A thought shown by a lost attempt is shown again: only answer text keeps an attempt from being repeated.\<close>

theorem thought_shown_twice:
  "\<exists>st. stream_request thought_env [(lines_of [0], True), (lines_of [0, 1], False)] = Inr st
     \<and> calls st = [OnThinking (u ''a''), OnThinking (u ''a''), OnContent (u ''b'')]"
proof -
  have sp: "split_loop False (u ''<think>a'') = ([(True, u ''a'')], \<lparr>in_thinking = True, kept = []\<rparr>)"
    "split_loop True (u ''</think>b'') = ([(False, u ''b'')], \<lparr>in_thinking = False, kept = []\<rparr>)"
    by (simp_all add: split_loop.simps partial_tag_def think_tag_def u_def numeral_eq_Suc)
  show ?thesis
    by (simp add: stream_request_def retry_max_attempts_def thought_env_def run_examples sp take_text_delta flush_calls_def split_flush_def)
qed

end
