(* ===== verification/IpcFrame.thy ===== *)
theory IpcFrame
  imports PyDouble Complex_Main
begin

text \<open>
  The frames on the pipes between the extension and its Python workers (\<open>scripting/ipc.py\<close> and the readers of
  \<open>scripting/venv_worker.py\<close>): a length of four bytes, most significant first, and a pickled message. A pipe is read
  in pieces under a deadline; a pipe as the host observes it is the list of what its polls see. \<open>pickle.dumps\<close> and
  \<open>pickle.loads\<close> are arguments.
\<close>

subsection \<open>Writing\<close>

datatype pack_error = FrameTooLarge nat | LengthOverflow | PickleFailed

definition length_header :: "nat \<Rightarrow> byte list" where
  "length_header n = (let w = word_of_nat n :: 32 word in
     [ucast (drop_bit 24 w), ucast (drop_bit 16 w), ucast (drop_bit 8 w), ucast w])"

text \<open>\<open>struct.pack("!I", n)\<close> raises when \<open>n\<close> needs more than 32 bits.\<close>

definition pack_pickle_frame :: "('m \<Rightarrow> byte list option) \<Rightarrow> nat option \<Rightarrow> 'm \<Rightarrow> pack_error + byte list" where
  "pack_pickle_frame dumps max_bytes m =
     (case dumps m of
        None \<Rightarrow> Inl PickleFailed
      | Some payload \<Rightarrow>
          if max_bytes \<noteq> None \<and> the max_bytes < length payload then Inl (FrameTooLarge (length payload))
          else if 2 ^ 32 \<le> length payload then Inl LengthOverflow
          else Inr (length_header (length payload) @ payload))"

subsection \<open>Reading\<close>

text \<open>What \<open>read_exact(n)\<close> does: return bytes (fewer than \<open>n\<close> at the end of the stream), raise \<open>TimeoutExpired\<close>,
  raise \<open>ValueError\<close> because \<open>select\<close> is called with a negative timeout, or wait for more than is observed.\<close>

datatype 'p got = Got "byte list" 'p | Late | BadSelect | Waiting

datatype 'p frame = Frame "byte list" 'p | NoFrame | BadSize nat | FrameLate | FrameSelect | FrameWaiting

definition header_value :: "byte list \<Rightarrow> nat" where
  "header_value bs = foldl (\<lambda>n b. 256 * n + unat b) 0 bs"

definition valid_frame_size :: "nat option \<Rightarrow> nat \<Rightarrow> bool" where
  "valid_frame_size max_bytes n \<longleftrightarrow> \<not> (n = 0 \<or> (max_bytes \<noteq> None \<and> the max_bytes < n))"

definition read_frame_payload :: "(nat \<Rightarrow> 'p \<Rightarrow> 'p got) \<Rightarrow> nat option \<Rightarrow> 'p \<Rightarrow> 'p frame" where
  "read_frame_payload reader max_bytes p =
     (case reader 4 p of
        Late \<Rightarrow> FrameLate | BadSelect \<Rightarrow> FrameSelect | Waiting \<Rightarrow> FrameWaiting
      | Got header p1 \<Rightarrow>
          if length header < 4 then NoFrame
          else let n = header_value header in
            if \<not> valid_frame_size max_bytes n then BadSize n
            else (case reader n p1 of
                    Late \<Rightarrow> FrameLate | BadSelect \<Rightarrow> FrameSelect | Waiting \<Rightarrow> FrameWaiting
                  | Got payload p2 \<Rightarrow> if length payload < n then NoFrame else Frame payload p2))"

text \<open>A blocking stream: \<open>read(n)\<close> returns \<open>n\<close> bytes, fewer only at the end.\<close>

definition blocking_read :: "nat \<Rightarrow> byte list \<Rightarrow> byte list got" where
  "blocking_read n bs = Got (take n bs) (drop n bs)"

text \<open>A pipe under a deadline. Every turn of the reading loop reads the clock (twice in \<open>venv_worker.py\<close>) and polls:
  bytes are there (none at the end of the stream), or nothing came and the process has ended or not. Times count from
  the moment the deadline was set. Bytes of a poll beyond those asked for stay in the pipe.\<close>

datatype poll = Ready "byte list" | Quiet bool

type_synonym pipe = "(rat \<times> rat \<times> poll) list"

fun read_polls :: "bool \<Rightarrow> rat \<Rightarrow> nat \<Rightarrow> byte list \<Rightarrow> pipe \<Rightarrow> pipe got" where
  "read_polls keep limit n buf [] = (if n \<le> length buf then Got buf [] else Waiting)"
| "read_polls keep limit n buf ((t1, t2, e) # rest) =
     (if n \<le> length buf then Got buf ((t1, t2, e) # rest)
      else if limit \<le> t1 then Late
      else if limit < t2 then BadSelect
      else case e of
          Ready d \<Rightarrow>
            if d = [] then Got (if keep then buf else []) rest
            else if n - length buf < length d
              then Got (buf @ take (n - length buf) d) ((0, 0, Ready (drop (n - length buf) d)) # rest)
            else read_polls keep limit n (buf @ d) rest
        | Quiet ended \<Rightarrow> if ended then Got buf rest else read_polls keep limit n buf rest)"

text \<open>\<open>_read_response_bytes_select\<close> forgets what it has read at the end of the stream;
  \<open>_read_exact_before_deadline\<close>, used with heartbeats, keeps it. The reader of \<open>ipc.py\<close> reads the clock once.\<close>

definition read_response_select :: "rat \<Rightarrow> nat \<Rightarrow> pipe \<Rightarrow> pipe got" where
  "read_response_select limit n p = read_polls False limit n [] p"

definition read_exact_before_deadline :: "rat \<Rightarrow> nat \<Rightarrow> pipe \<Rightarrow> pipe got" where
  "read_exact_before_deadline limit n p = read_polls True limit n [] p"

definition one_clock :: "pipe \<Rightarrow> pipe" where
  "one_clock p = map (\<lambda>(t1, t2, e). (t1, t1, e)) p"

definition read_with_timeout :: "rat \<Rightarrow> nat \<Rightarrow> pipe \<Rightarrow> pipe got" where
  "read_with_timeout limit n p = read_polls True (max 0 limit) n [] (one_clock p)"

subsection \<open>Messages\<close>

datatype 'm loaded = Loaded 'm | NotAPickle | LoadCrashed

datatype ('m, 'p) message = Message 'm 'p | NoMessage | BadMessage | Crashed | TimedOut | Pending

definition read_pickle_frame ::
    "(byte list \<Rightarrow> 'm loaded) \<Rightarrow> ('m \<Rightarrow> bool) \<Rightarrow> bool \<Rightarrow> (nat \<Rightarrow> 'p \<Rightarrow> 'p got) \<Rightarrow> nat option \<Rightarrow> 'p \<Rightarrow> ('m, 'p) message" where
  "read_pickle_frame loads is_dict require_dict reader max_bytes p =
     (case read_frame_payload reader max_bytes p of
        NoFrame \<Rightarrow> NoMessage | BadSize n \<Rightarrow> BadMessage | FrameLate \<Rightarrow> TimedOut | FrameSelect \<Rightarrow> BadMessage
      | FrameWaiting \<Rightarrow> Pending
      | Frame payload p' \<Rightarrow>
          (case loads payload of
             NotAPickle \<Rightarrow> BadMessage | LoadCrashed \<Rightarrow> Crashed
           | Loaded m \<Rightarrow> if require_dict \<and> \<not> is_dict m then BadMessage else Message m p'))"

subsection \<open>Headers\<close>

lemma length_length_header [simp]: "length (length_header n) = 4"
  by (simp add: length_header_def Let_def)

lemma unat_byte_drop: "unat (ucast (drop_bit k (w :: 32 word)) :: byte) = unat w div 2 ^ k mod 256"
proof -
  have "unat (ucast (drop_bit k w) :: byte) = unat (drop_bit k w) mod 256"
    by (simp add: unsigned_ucast_eq take_bit_eq_mod)
  then show ?thesis by (simp only: unat_drop_bit_eq) (simp only: drop_bit_eq_div)
qed

lemma byte_digits:
  fixes m :: nat
  assumes "m < 2 ^ 32"
  shows "256 * (256 * (256 * (m div 2 ^ 24 mod 256) + m div 2 ^ 16 mod 256) + m div 2 ^ 8 mod 256) + m mod 256 = m"
proof -
  have "m div 2 ^ 24 mod 256 = m div 2 ^ 24" using assms by (simp add: less_mult_imp_div_less)
  moreover have "256 * (m div 2 ^ 24) + m div 2 ^ 16 mod 256 = m div 2 ^ 16"
    using mult_div_mod_eq [of 256 "m div 2 ^ 16"] by (simp add: div_mult2_eq [symmetric] mult.commute)
  moreover have "256 * (m div 2 ^ 16) + m div 2 ^ 8 mod 256 = m div 2 ^ 8"
    using mult_div_mod_eq [of 256 "m div 2 ^ 8"] by (simp add: div_mult2_eq [symmetric] mult.commute)
  moreover have "256 * (m div 2 ^ 8) + m mod 256 = m"
    using mult_div_mod_eq [of 256 m] by simp
  ultimately show ?thesis by (simp only:)
qed

lemma header_value_header: "n < 2 ^ 32 \<Longrightarrow> header_value (length_header n) = n"
  using byte_digits [of n] unat_byte_drop [of 0 "word_of_nat n"]
  by (simp add: header_value_def length_header_def Let_def unat_byte_drop unat_of_nat take_bit_eq_mod unsigned_of_nat)

subsection \<open>A pipe read in pieces is a stream\<close>

text \<open>The bytes that arrive before the end of the stream or of the process.\<close>

fun arrived :: "pipe \<Rightarrow> byte list" where
  "arrived [] = []"
| "arrived ((t1, t2, Ready d) # rest) = (if d = [] then [] else d @ arrived rest)"
| "arrived ((t1, t2, Quiet ended) # rest) = (if ended then [] else arrived rest)"

definition on_time :: "rat \<Rightarrow> pipe \<Rightarrow> bool" where
  "on_time limit p \<longleftrightarrow> 0 < limit \<and> (\<forall>(t1, t2, e) \<in> set p. t1 < limit \<and> t2 \<le> limit)"

definition ended :: "pipe \<Rightarrow> bool" where
  "ended p \<longleftrightarrow> (\<exists>(t1, t2, e) \<in> set p. e = Ready [] \<or> e = Quiet True)"

lemma on_time_Cons [simp]: "on_time limit ((t1, t2, e) # p) \<longleftrightarrow> t1 < limit \<and> t2 \<le> limit \<and> on_time limit p"
  by (auto simp: on_time_def)

lemma ended_Cons [simp]: "ended ((t1, t2, e) # p) \<longleftrightarrow> e = Ready [] \<or> e = Quiet True \<or> ended p"
  by (auto simp: ended_def)

lemma ended_Nil [simp]: "\<not> ended []"
  by (simp add: ended_def)

lemma read_polls_done: "n \<le> length buf \<Longrightarrow> read_polls keep limit n buf p = Got buf p"
  by (cases p rule: arrived.cases) auto

lemma read_polls_enough:
  assumes "on_time limit p" and "length buf \<le> n" and "n \<le> length buf + length (arrived p)"
  shows "\<exists>p'. read_polls keep limit n buf p = Got (buf @ take (n - length buf) (arrived p)) p'
           \<and> arrived p' = drop (n - length buf) (arrived p) \<and> on_time limit p' \<and> (ended p \<longrightarrow> n = length buf \<or> ended p')"
  using assms
proof (induction p arbitrary: buf rule: arrived.induct)
  case 1
  then show ?case by simp
next
  case (2 t1 t2 d rest)
  show ?case
  proof (cases "n = length buf")
    case True
    then show ?thesis using 2(2) by (simp add: read_polls_done)
  next
    case False
    then have "d \<noteq> []" using 2(3,4) by auto
    then show ?thesis using 2 False
    proof (cases "n - length buf < length d")
      case True
      then show ?thesis using 2(2,3) \<open>d \<noteq> []\<close> False by (auto simp: on_time_def)
    next
      case long: False
      then obtain p' where "read_polls keep limit n (buf @ d) rest = Got ((buf @ d) @ take (n - length (buf @ d)) (arrived rest)) p'"
        and "arrived p' = drop (n - length (buf @ d)) (arrived rest)" "on_time limit p'"
        and "ended rest \<longrightarrow> n = length (buf @ d) \<or> ended p'"
        using 2(1) [of "buf @ d"] 2(2-4) \<open>d \<noteq> []\<close> by fastforce
      then show ?thesis using 2(2,3) \<open>d \<noteq> []\<close> False long by (auto simp: diff_diff_add read_polls_done)
    qed
  qed
next
  case (3 t1 t2 e rest)
  show ?case
  proof (cases "n = length buf")
    case True
    then show ?thesis using 3(2) by (simp add: read_polls_done)
  next
    case False
    then have "\<not> e" using 3(3,4) by (auto split: if_splits)
    then show ?thesis using 3 False by auto
  qed
qed

lemma read_polls_short:
  assumes "on_time limit p" and "ended p" and "length buf + length (arrived p) < n"
  shows "\<exists>b p'. read_polls keep limit n buf p = Got b p' \<and> length b < n"
  using assms by (induction p arbitrary: buf rule: arrived.induct) (auto split: if_splits)

lemma read_polls_frame:
  assumes "on_time limit p" and "ended p \<or> n \<le> length (arrived p)"
  shows "(\<exists>p'. read_polls keep limit n [] p = Got (take n (arrived p)) p'
            \<and> arrived p' = drop n (arrived p) \<and> on_time limit p' \<and> (ended p \<longrightarrow> n = 0 \<or> ended p') \<and> n \<le> length (arrived p))
       \<or> (\<exists>b p'. read_polls keep limit n [] p = Got b p' \<and> length b < n \<and> length (arrived p) < n)"
proof (cases "n \<le> length (arrived p)")
  case True
  then show ?thesis using read_polls_enough [of limit p "[]" n keep] assms(1) by simp
next
  case False
  then show ?thesis using read_polls_short [of limit p "[]" n keep] assms by simp
qed

lemma timed_frame:
  assumes "on_time limit p" and "ended p \<or> (\<exists>payload rest. read_frame_payload blocking_read mx (arrived p) = Frame payload rest)"
  shows "map_frame arrived (read_frame_payload (\<lambda>n. read_polls keep limit n []) mx p)
           = read_frame_payload blocking_read mx (arrived p)"
    and "read_frame_payload (\<lambda>n. read_polls keep limit n []) mx p = Frame b p' \<Longrightarrow> on_time limit p' \<and> (ended p \<longrightarrow> ended p')"
proof -
  let ?a = "arrived p"
  have hdr: "ended p \<or> 4 \<le> length ?a"
    using assms(2) by (auto simp: read_frame_payload_def blocking_read_def split: if_splits)
  consider p1 where "read_polls keep limit 4 [] p = Got (take 4 ?a) p1" "arrived p1 = drop 4 ?a" "on_time limit p1"
      "ended p \<longrightarrow> ended p1" "4 \<le> length ?a"
    | b p1 where "read_polls keep limit 4 [] p = Got b p1" "length b < 4" "length ?a < 4"
    using read_polls_frame [OF assms(1) hdr, of keep] by fastforce
  then have "map_frame arrived (read_frame_payload (\<lambda>n. read_polls keep limit n []) mx p) = read_frame_payload blocking_read mx ?a
     \<and> (\<forall>b p'. read_frame_payload (\<lambda>n. read_polls keep limit n []) mx p = Frame b p' \<longrightarrow> on_time limit p' \<and> (ended p \<longrightarrow> ended p'))"
  proof cases
    case 1
    let ?n = "header_value (take 4 ?a)"
    show ?thesis
    proof (cases "valid_frame_size mx ?n")
      case False
      then show ?thesis using 1 by (simp add: read_frame_payload_def blocking_read_def Let_def)
    next
      case True
      have "ended p1 \<or> ?n \<le> length (arrived p1)"
        using assms(2) 1 True by (auto simp: read_frame_payload_def blocking_read_def Let_def split: if_splits)
      from read_polls_frame [OF 1(3) this, of keep] show ?thesis
        using 1 True by (auto simp: read_frame_payload_def blocking_read_def Let_def valid_frame_size_def)
    qed
  next
    case 2
    then show ?thesis by (simp add: read_frame_payload_def blocking_read_def)
  qed
  then show "map_frame arrived (read_frame_payload (\<lambda>n. read_polls keep limit n []) mx p) = read_frame_payload blocking_read mx ?a"
    and "read_frame_payload (\<lambda>n. read_polls keep limit n []) mx p = Frame b p' \<Longrightarrow> on_time limit p' \<and> (ended p \<longrightarrow> ended p')"
    by blast+
qed

lemma blocking_frame:
  assumes "pack_pickle_frame dumps (Some mx) m = Inr f" and "dumps m = Some payload" and "payload \<noteq> []"
  shows "read_frame_payload blocking_read (Some mx) (f @ rest) = Frame payload rest"
proof -
  have f: "f = length_header (length payload) @ payload" and len: "length payload \<le> mx" "length payload < 2 ^ 32"
    using assms by (auto simp: pack_pickle_frame_def split: if_splits)
  have "header_value (length_header (length payload)) = length payload"
    using len by (simp add: header_value_header)
  then show ?thesis
    using f len assms(3) by (simp add: read_frame_payload_def blocking_read_def valid_frame_size_def Let_def)
qed

lemma arrived_one_clock [simp]: "arrived (one_clock p) = arrived p"
  by (induction p rule: arrived.induct) (simp_all add: one_clock_def)

lemma one_clock_on_time: "on_time limit p \<Longrightarrow> on_time limit (one_clock p)"
  by (force simp: on_time_def one_clock_def)

lemma one_clock_ended: "ended p \<Longrightarrow> ended (one_clock p)"
  by (force simp: ended_def one_clock_def)

text \<open>A reader never asks for more than the limit, however large the length in the header is.\<close>

lemma reads_bounded:
  assumes "\<And>n q. n \<le> max 4 mx \<Longrightarrow> reader n q = reader' n q"
  shows "read_frame_payload reader (Some mx) p = read_frame_payload reader' (Some mx) p"
  using assms [of 4 p]
  by (auto simp: read_frame_payload_def Let_def valid_frame_size_def assms split: got.splits if_splits)

text \<open>Reading one message after the other.\<close>

fun read_messages :: "('p \<Rightarrow> ('m, 'p) message) \<Rightarrow> nat \<Rightarrow> 'p \<Rightarrow> 'm list \<times> 'p" where
  "read_messages rd 0 p = ([], p)"
| "read_messages rd (Suc k) p =
     (case rd p of Message m p' \<Rightarrow> (let (ms, q) = read_messages rd k p' in (m # ms, q)) | _ \<Rightarrow> ([], p))"

definition pickles :: "('m \<Rightarrow> byte list option) \<Rightarrow> (byte list \<Rightarrow> 'm loaded) \<Rightarrow> bool" where
  "pickles dumps loads \<longleftrightarrow> (\<forall>m b. dumps m = Some b \<longrightarrow> b \<noteq> [] \<and> loads b = Loaded m)"

lemma timed_message:
  assumes law: "pickles dumps loads" and f: "pack_pickle_frame dumps (Some mx) m = Inr f" and dict: "is_dict m"
    and time: "on_time limit p" and arr: "arrived p = f @ rest"
  shows "\<exists>p'. read_pickle_frame loads is_dict req (\<lambda>n. read_polls keep limit n []) (Some mx) p = Message m p'
           \<and> on_time limit p' \<and> arrived p' = rest"
proof -
  obtain payload where d: "dumps m = Some payload" using f by (auto simp: pack_pickle_frame_def split: option.splits)
  have pay: "payload \<noteq> []" "loads payload = Loaded m" using law d by (auto simp: pickles_def)
  have flat: "read_frame_payload blocking_read (Some mx) (arrived p) = Frame payload rest"
    using blocking_frame [OF f d pay(1)] arr by simp
  then obtain p' where p': "read_frame_payload (\<lambda>n. read_polls keep limit n []) (Some mx) p = Frame payload p'" "arrived p' = rest"
    using timed_frame(1) [OF time, of "Some mx" keep]
    by (cases "read_frame_payload (\<lambda>n. read_polls keep limit n []) (Some mx) p") auto
  then have "on_time limit p'" using timed_frame(2) [OF time, of "Some mx" keep payload p'] flat by blast
  then show ?thesis using p' pay dict by (simp add: read_pickle_frame_def)
qed

lemma one_clock_Cons [simp]: "one_clock ((t1, t2, e) # p) = (t1, t1, e) # one_clock p"
  by (simp add: one_clock_def)

lemma one_clock_idem [simp]: "one_clock (one_clock p) = one_clock p"
  by (simp add: one_clock_def case_prod_beta comp_def)

lemma one_clock_kept:
  "read_polls keep limit n buf p = Got b p' \<Longrightarrow> one_clock p = p \<Longrightarrow> one_clock p' = p'"
  by (induction keep limit n buf p rule: read_polls.induct) (auto split: if_splits poll.splits)

lemma read_with_timeout_frame:
  assumes "0 < limit"
  shows "read_frame_payload (read_with_timeout limit) mx p = read_frame_payload (\<lambda>n. read_polls True limit n []) mx (one_clock p)"
proof -
  have eq: "read_with_timeout limit n q = read_polls True limit n [] (one_clock q)" for n q
    using assms by (simp add: read_with_timeout_def max_def)
  show ?thesis
  proof (cases "read_polls True limit 4 [] (one_clock p)")
    case (Got header p1)
    then have "one_clock p1 = p1" using one_clock_kept by fastforce
    then show ?thesis using Got by (simp add: read_frame_payload_def eq Let_def)
  qed (simp_all add: read_frame_payload_def eq)
qed

subsection \<open>What the pipe promises\<close>

text \<open>C18: A frame read in pieces under a deadline is the frame a blocking reader finds in the bytes that arrive, for
  each of the three readers, whether it is complete, cut off or has a wrong length, and the rest of the bytes stays in
  the pipe.\<close>

theorem timed_readers_agree:
  assumes "on_time limit p" and "ended p"
  shows "map_frame arrived (read_frame_payload (read_response_select limit) mx p) = read_frame_payload blocking_read mx (arrived p)
       \<and> map_frame arrived (read_frame_payload (read_exact_before_deadline limit) mx p) = read_frame_payload blocking_read mx (arrived p)
       \<and> map_frame arrived (read_frame_payload (read_with_timeout limit) mx p) = read_frame_payload blocking_read mx (arrived p)"
proof (intro conjI)
  show "map_frame arrived (read_frame_payload (read_with_timeout limit) mx p) = read_frame_payload blocking_read mx (arrived p)"
    using timed_frame(1) [OF one_clock_on_time [OF assms(1)] disjI1 [OF one_clock_ended [OF assms(2)]]] assms(1)
    by (simp add: read_with_timeout_frame on_time_def)
qed (use timed_frame(1) [OF assms(1)] assms(2) in
      \<open>auto simp: read_response_select_def [abs_def] read_exact_before_deadline_def [abs_def]\<close>)

theorem timed_readers_agree_witness:
  "map_frame arrived (read_frame_payload (read_response_select 10) (Some 100)
       [(0, 0, Ready [0]), (1, 1, Quiet False), (1, 2, Ready [0, 0, 2, 7, 8, 9]), (3, 3, Ready [])])
     = Frame [7, 8] [9]"
  using timed_readers_agree [of 10 "[(0, 0, Ready [0]), (1, 1, Quiet False), (1, 2, Ready [0, 0, 2, 7, 8, 9]), (3, 3, Ready [])]" "Some 100"]
  by (simp add: on_time_def read_frame_payload_def [of blocking_read] blocking_read_def header_value_def valid_frame_size_def)

text \<open>C17: Messages that were written one after the other are read one after the other, however the pipe cuts and
  joins their bytes, if they arrive before the deadline; what follows them stays in the pipe.\<close>

theorem pipe_round_trip:
  assumes "pickles dumps loads" and "list_all2 (\<lambda>m f. pack_pickle_frame dumps (Some mx) m = Inr f) ms fs"
    and "list_all is_dict ms" and "on_time limit p" and "arrived p = concat fs @ rest"
  shows "\<exists>p'. read_messages (read_pickle_frame loads is_dict req (read_response_select limit) (Some mx)) (length ms) p = (ms, p')
           \<and> arrived p' = rest"
  using assms(2-5)
proof (induction arbitrary: p rule: list_all2_induct)
  case Nil
  then show ?case by simp
next
  case (Cons m ms f fs)
  then obtain p1 where "read_pickle_frame loads is_dict req (read_response_select limit) (Some mx) p = Message m p1"
    and p1: "on_time limit p1" "arrived p1 = concat fs @ rest"
    using timed_message [OF assms(1) Cons(1), of is_dict limit p "concat fs @ rest" req False]
    by (auto simp: read_response_select_def [abs_def])
  then show ?case using Cons(3) [of p1] Cons(4) by auto
qed

definition plain_dumps :: "byte list \<Rightarrow> byte list option" where
  "plain_dumps m = (if m = [] then None else Some m)"

definition plain_loads :: "byte list \<Rightarrow> byte list loaded" where
  "plain_loads b = (if b = [] then NotAPickle else Loaded b)"

lemma small_headers: "length_header (Suc (Suc 0)) = [0, 0, 0, 2]" "length_header (Suc 0) = [0, 0, 0, 1]"
  by (code_simp+)

lemma small_frames:
  "list_all2 (\<lambda>m f. pack_pickle_frame plain_dumps (Some 100) m = Inr f) [[7, 8], [5]] [[0, 0, 0, 2, 7, 8], [0, 0, 0, 1, 5]]"
  by (simp add: pack_pickle_frame_def plain_dumps_def small_headers)

theorem pipe_round_trip_witness:
  "\<exists>p'. read_messages (read_pickle_frame plain_loads (\<lambda>m. True) True (read_response_select 10) (Some 100)) (length [[7, 8], [5 :: byte]])
       [(0, 0, Ready [0, 0]), (1, 1, Ready [0, 2, 7, 8, 0, 0]), (2, 2, Ready [0, 1, 5, 6])] = ([[7, 8], [5]], p') \<and> arrived p' = [6]"
  by (rule pipe_round_trip [OF _ small_frames]) (simp_all add: pickles_def plain_dumps_def plain_loads_def on_time_def)

end
