(* ===== verification/WorkerCall.thy ===== *)
theory WorkerCall
  imports IpcFrame PyVal
begin

text \<open>
  Calls of the warm Python worker (\<open>scripting/venv_worker.py\<close>): a request goes to the worker, frames come back, a
  tool call among them is run on the host (\<open>scripting/host_rpc.py\<close>) and answered, the last frame is the response; a
  worker that fails is killed and the request repeated once on a fresh one. A process is what the host will observe of
  it: the polls of its output pipe and the fate of the writes to its input. What the host does is logged.
\<close>

datatype write_result = Written | WriteLate | WriteBroken

record proc =
  exited :: bool
  polls :: pipe
  writes :: "write_result list"

datatype act = Spawn | Kill | ClearCache | SendRequest | RunTool pystr pydict | FetchScript pystr | Reply
  | AskLlm | Progress | Heartbeat

record host =
  worker :: "proc option"
  primed :: bool
  spawns :: "proc option list"
  acts :: "act list"

text \<open>Arguments: pickling, the tools (their result may depend on all that happened before) with the table
  \<open>DOMAIN_TOOLS\<close> where the build has it, the language model for presentations, \<open>host_unpack_data\<close>, \<open>repr\<close>, the text
  of an exception.\<close>

record worker_env =
  wloads :: "byte list \<Rightarrow> pyval loaded"
  wdumps :: "pyval \<Rightarrow> byte list option"
  run_tool :: "act list \<Rightarrow> pystr \<Rightarrow> pydict \<Rightarrow> pystr + pyval"
  domain_tools :: "(pystr \<Rightarrow> pystr list option) option"
  ppt_master :: bool
  ask_llm :: "pydict \<Rightarrow> pydict"
  unpack_result :: "pyval \<Rightarrow> pyval option"
  repr_of :: "pyval \<Rightarrow> pystr"

definition max_payload :: nat where
  "max_payload = 16 * 1024 * 1024"

subsection \<open>The request\<close>

record worker_call =
  c_code :: "pystr option"
  c_data :: pyval
  c_bindings :: pydict
  c_session :: pystr
  c_action :: pystr
  c_init :: pystr
  c_init_session :: pystr
  c_init_hash :: pystr
  c_heartbeat :: bool
  c_timeout :: int
  c_grace :: rat
  c_domain :: "pystr option"
  c_on_heartbeat :: bool
  c_on_event :: bool

definition optional :: "bool \<Rightarrow> string \<Rightarrow> pyval \<Rightarrow> pydict" where
  "optional present k v = (if present then [(u k, v)] else [])"

definition build_request :: "pystr \<Rightarrow> worker_call \<Rightarrow> pydict" where
  "build_request uuid c =
     [(u ''id'', PStr uuid), (u ''timeout_sec'', PInt (c_timeout c))] @
     (if c_action c \<noteq> [] then
        [(u ''action'', PStr (c_action c))] @ optional (c_session c \<noteq> []) ''session_id'' (PStr (c_session c))
          @ optional (c_data c \<noteq> PNone) ''data'' (c_data c)
      else
        [(u ''code'', PStr (case c_code c of Some s \<Rightarrow> s | None \<Rightarrow> []))]
          @ optional (c_data c \<noteq> PNone) ''data'' (c_data c)
          @ optional (c_bindings c \<noteq> []) ''bindings'' (PDict (c_bindings c))
          @ optional (c_session c \<noteq> []) ''session_id'' (PStr (c_session c))
          @ optional (c_init c \<noteq> []) ''init_script'' (PStr (c_init c))
          @ optional (c_init_session c \<noteq> []) ''init_session_id'' (PStr (c_init_session c))
          @ optional (c_init_hash c \<noteq> []) ''init_script_hash'' (PStr (c_init_hash c))
          @ optional (c_heartbeat c) ''allow_heartbeat'' (PBool True))"

subsection \<open>Tools of the host\<close>

definition blocked_tools :: "pystr list" where
  "blocked_tools = [u ''run_venv_python_script'']"

definition named_script_tools :: "pystr list" where
  "named_script_tools = [u ''get_named_python_script'', u ''list_named_python_scripts'']"

definition singular_domain :: "pystr \<Rightarrow> pystr" where
  "singular_domain d =
     (if d = u ''indexes'' then u ''index''
      else if suffix (u ''s'') d \<and> d \<notin> {u ''images'', u ''styles'', u ''forms''} then butlast d
      else d)"

text \<open>\<open>None\<close>: every tool but the blocked ones.\<close>

definition resolve_allowed_tools :: "worker_env \<Rightarrow> pystr option \<Rightarrow> pystr list option" where
  "resolve_allowed_tools E scope =
     (case scope of
        None \<Rightarrow> None
      | Some d \<Rightarrow>
          if d = [] then Some []
          else (case domain_tools E of
                  None \<Rightarrow> Some []
                | Some table \<Rightarrow>
                    Some ((case table d of
                             Some ns \<Rightarrow> ns
                           | None \<Rightarrow> (case table (singular_domain d) of Some ns \<Rightarrow> ns | None \<Rightarrow> []))
                          @ [u ''list_open_documents''])))"

definition execute_tool :: "worker_env \<Rightarrow> pystr list option \<Rightarrow> pystr \<Rightarrow> pydict \<Rightarrow> act list \<Rightarrow> (pystr + pyval) \<times> act list" where
  "execute_tool E allowed name args past =
     (if name \<in> set blocked_tools then
        (Inl (u ''Tool '' @ repr_of E (PStr name) @ u '' cannot run from a venv script (it would re-enter the worker).''), past)
      else if name \<in> set named_script_tools then (run_tool E past name args, past @ [FetchScript name])
      else if allowed \<noteq> None \<and> name \<notin> set (the allowed) then
        (Inl (if the allowed = []
              then u ''Document tool RPC is disabled during =PY() recalculation. Use Run Python Script'' @ [8230] @ u '' to call writeragent tools.''
              else u ''Tool '' @ repr_of E (PStr name) @ u '' is not available in this Python tool domain.''), past)
      else (run_tool E past name args, past @ [RunTool name args]))"


subsection \<open>A frame of the worker\<close>

text \<open>Why a call ends without a response: an exception that \<open>_execute_ipc_unlocked\<close> catches, the timeout of the first
  write, of a reply, of a read, an exception it does not catch, or nothing more is observed.\<close>

datatype raised = Caught | FirstWriteLate | ReplyLate | ReadLate | Uncaught | Unfinished

definition terminate_worker :: "host \<Rightarrow> host" where
  "terminate_worker h =
     h\<lparr>worker := None, primed := False, acts := acts h @ (if worker h = None then [] else [Kill])\<rparr>"

definition clear_host_state :: "host \<Rightarrow> host" where
  "clear_host_state h = h\<lparr>acts := acts h @ [ClearCache]\<rparr>"

text \<open>\<open>_write_bytes_with_timeout\<close> to the running process.\<close>

definition write_bytes :: "raised \<Rightarrow> act \<Rightarrow> host \<Rightarrow> raised option \<times> host" where
  "write_bytes late what h =
     (case worker h of
        None \<Rightarrow> (Some Caught, h)
      | Some p \<Rightarrow>
          (case writes p of
             [] \<Rightarrow> (None, h\<lparr>acts := acts h @ [what]\<rparr>)
           | Written # ws \<Rightarrow> (None, h\<lparr>worker := Some (p\<lparr>writes := ws\<rparr>), acts := acts h @ [what]\<rparr>)
           | WriteBroken # ws \<Rightarrow> (Some Caught, h\<lparr>worker := Some (p\<lparr>writes := ws\<rparr>)\<rparr>)
           | WriteLate # ws \<Rightarrow> (Some late, clear_host_state (terminate_worker h))))"

datatype frame_step = Final | Again host | Raised raised host

definition send_reply :: "worker_env \<Rightarrow> pydict \<Rightarrow> host \<Rightarrow> frame_step" where
  "send_reply E d h =
     (case pack_pickle_frame (wdumps E) None (PDict d) of
        Inl _ \<Rightarrow> Raised Uncaught h
      | Inr f \<Rightarrow> (case write_bytes ReplyLate Reply h of (None, h') \<Rightarrow> Again h' | (Some r, h') \<Rightarrow> Raised r h'))"

definition handle_tool_call_frame :: "worker_env \<Rightarrow> pystr list option \<Rightarrow> pydict \<Rightarrow> host \<Rightarrow> frame_step" where
  "handle_tool_call_frame E allowed d h =
     (if dget d ''type'' PNone \<noteq> PStr (u ''tool_call'') then Final
      else (case dget d ''tool'' PNone of
          PStr name \<Rightarrow>
            (let call_id = dget d ''id'' PNone;
                 (r, past) = execute_tool E allowed name (as_dict (dget d ''args'' PNone)) (acts h);
                 reply = (case r of
                            Inr v \<Rightarrow> [(u ''status'', PStr (u ''ok'')), (u ''id'', call_id), (u ''result'', v)]
                          | Inl msg \<Rightarrow> [(u ''status'', PStr (u ''error'')), (u ''id'', call_id), (u ''message'', PStr msg)])
             in send_reply E reply (h\<lparr>acts := past\<rparr>))
        | _ \<Rightarrow> Raised Caught h))"

text \<open>\<open>dispatch_worker_response\<close> of the presentation build; its branch for tool calls is never reached.\<close>

definition dispatch_worker_response :: "worker_env \<Rightarrow> bool \<Rightarrow> pydict \<Rightarrow> host \<Rightarrow> frame_step" where
  "dispatch_worker_response E on_event d h =
     (if dget d ''type'' PNone = PStr (u ''worker_event'') then
        Again (if on_event \<and> is_dict (dget d ''event'' PNone) then h\<lparr>acts := acts h @ [Progress]\<rparr> else h)
      else if dget d ''type'' PNone = PStr (u ''llm_request'') then
        (let out = ask_llm E (AList.delete (u ''id'') (AList.delete (u ''type'') d));
             status = dget out ''status'' (PStr (u ''error''));
             reply = [(u ''status'', status), (u ''id'', dget d ''id'' PNone)] @
               (if status = PStr (u ''ok'') then [(u ''result'', dget out ''result'' PNone)]
                else [(u ''message'', dget out ''message'' (PStr (u ''LLM request failed'')))])
         in send_reply E reply (h\<lparr>acts := acts h @ [AskLlm]\<rparr>))
      else Final)"

definition dispatch_intermediate :: "worker_env \<Rightarrow> pystr list option \<Rightarrow> bool \<Rightarrow> pydict \<Rightarrow> host \<Rightarrow> frame_step" where
  "dispatch_intermediate E allowed on_event d h =
     (case handle_tool_call_frame E allowed d h of
        Final \<Rightarrow> if ppt_master E then dispatch_worker_response E on_event d h else Final
      | r \<Rightarrow> r)"

subsection \<open>Reading a response\<close>

definition frame_outcome :: "pipe frame \<Rightarrow> raised + byte list \<times> pipe" where
  "frame_outcome f =
     (case f of Frame b p \<Rightarrow> Inr (b, p) | NoFrame \<Rightarrow> Inl Caught | BadSize n \<Rightarrow> Inl Caught | FrameSelect \<Rightarrow> Inl Caught
      | FrameLate \<Rightarrow> Inl ReadLate | FrameWaiting \<Rightarrow> Inl Unfinished)"

definition unpickle :: "worker_env \<Rightarrow> byte list \<Rightarrow> raised + pyval" where
  "unpickle E b = (case wloads E b of Loaded v \<Rightarrow> Inr v | NotAPickle \<Rightarrow> Inl Caught | LoadCrashed \<Rightarrow> Inl Uncaught)"

fun pipe_weight :: "pipe \<Rightarrow> nat" where
  "pipe_weight [] = 0"
| "pipe_weight ((t1, t2, Ready d) # rest) = Suc (length d + pipe_weight rest)"
| "pipe_weight ((t1, t2, Quiet b) # rest) = Suc (pipe_weight rest)"

lemma read_polls_weight: "read_polls keep limit n buf p = Got b p' \<Longrightarrow> pipe_weight p' + length b \<le> pipe_weight p + length buf"
  by (induction keep limit n buf p rule: read_polls.induct) (auto split: if_splits poll.splits intro: le_SucI)

lemma frame_weight:
  "read_frame_payload (\<lambda>n. read_polls keep limit n []) mx p = Frame b p' \<Longrightarrow> pipe_weight p' < pipe_weight p"
  by (auto simp: read_frame_payload_def Let_def split: got.splits if_splits dest!: read_polls_weight)

text \<open>\<open>_read_response_with_heartbeats\<close>: a heartbeat sets the deadline anew.\<close>

definition heartbeat_frame :: "rat \<Rightarrow> pipe \<Rightarrow> raised + byte list \<times> pipe" where
  "heartbeat_frame limit p = frame_outcome (read_frame_payload (read_exact_before_deadline limit) (Some max_payload) p)"

lemma heartbeat_frame_weight: "heartbeat_frame limit p = Inr (b, p') \<Longrightarrow> pipe_weight p' < pipe_weight p"
  by (auto simp: heartbeat_frame_def frame_outcome_def read_exact_before_deadline_def [abs_def]
      split: frame.splits dest: frame_weight)

function read_heartbeats ::
    "worker_env \<Rightarrow> bool \<Rightarrow> rat \<Rightarrow> rat \<Rightarrow> pipe \<Rightarrow> act list \<Rightarrow> (raised + byte list \<times> pipe) \<times> act list" where
  "read_heartbeats E callback grace limit p past =
     (case heartbeat_frame limit p of
        Inl r \<Rightarrow> (Inl r, past)
      | Inr (b, p') \<Rightarrow>
          (case unpickle E b of
             Inl r \<Rightarrow> (Inl r, past)
           | Inr v \<Rightarrow>
               (let d = as_dict v; kind = dget d ''frame_type'' PNone in
                if kind = PStr (u ''heartbeat'') then
                  read_heartbeats E callback grace grace p'
                    (if callback \<and> is_dict (dget d ''payload'' PNone) then past @ [Heartbeat] else past)
                else if kind = PStr (u ''result'') \<or> kind = PNone then (Inr (b, p'), past)
                else if dget d ''status'' PNone \<in> {PStr (u ''ok''), PStr (u ''error'')} then (Inr (b, p'), past)
                else read_heartbeats E callback grace limit p' past)))"
  by pat_completeness auto
termination
  by (relation "measure (\<lambda>(E, callback, grace, limit, p, past). pipe_weight p)") (auto dest: heartbeat_frame_weight)

declare read_heartbeats.simps [simp del]

definition read_limit :: "worker_call \<Rightarrow> rat" where
  "read_limit c = of_int (c_timeout c) + 2"

definition read_response :: "worker_env \<Rightarrow> worker_call \<Rightarrow> pipe \<Rightarrow> act list \<Rightarrow> (raised + byte list \<times> pipe) \<times> act list" where
  "read_response E c p past =
     (if c_heartbeat c
      then read_heartbeats E (c_on_heartbeat c) (c_grace c) (max (read_limit c) (c_grace c)) p past
      else (frame_outcome (read_frame_payload (read_response_select (read_limit c)) (Some max_payload) p), past))"

text \<open>The loop of \<open>_execute_ipc_unlocked\<close>: intermediate frames are handled until one is the response.\<close>

definition set_polls :: "pipe \<Rightarrow> act list \<Rightarrow> host \<Rightarrow> host" where
  "set_polls p past h = h\<lparr>worker := map_option (\<lambda>w. w\<lparr>polls := p\<rparr>) (worker h), acts := past\<rparr>"

definition worker_weight :: "host \<Rightarrow> nat" where
  "worker_weight h = (case worker h of None \<Rightarrow> 0 | Some w \<Rightarrow> pipe_weight (polls w))"

lemma read_heartbeats_weight:
  "read_heartbeats E callback grace limit p past = (Inr (b, p'), past') \<Longrightarrow> pipe_weight p' < pipe_weight p"
proof (induction E callback grace limit p past rule: read_heartbeats.induct)
  case (1 E callback grace limit p past)
  show ?case
  proof (cases "heartbeat_frame limit p")
    case (Inl r)
    then show ?thesis using 1(3) by (simp add: read_heartbeats.simps [of E callback grace limit p])
  next
    case (Inr bp)
    obtain b1 p1 where bp: "bp = (b1, p1)" by fastforce
    have less: "pipe_weight p1 < pipe_weight p" using Inr bp heartbeat_frame_weight by blast
    show ?thesis
    proof (cases "unpickle E b1")
      case (Inl r)
      then show ?thesis using 1(3) Inr bp by (simp add: read_heartbeats.simps [of E callback grace limit p])
    next
      case v: (Inr v)
      note IH = 1(1) [OF Inr bp [symmetric] v refl refl] 1(2) [OF Inr bp [symmetric] v refl refl]
      show ?thesis
        using 1(3) Inr bp v less IH
        by (simp add: read_heartbeats.simps [of E callback grace limit p] Let_def split: if_splits)
    qed
  qed
qed

lemma read_response_weight: "read_response E c p past = (Inr (b, p'), past') \<Longrightarrow> pipe_weight p' < pipe_weight p"
  by (auto simp: read_response_def frame_outcome_def read_response_select_def [abs_def]
      split: if_splits frame.splits dest: frame_weight read_heartbeats_weight)

lemma write_bytes_weight: "write_bytes late what h = (None, h') \<Longrightarrow> worker_weight h' = worker_weight h"
  by (auto simp: write_bytes_def worker_weight_def split: option.splits list.splits write_result.splits)

lemma send_reply_weight: "send_reply E d h = Again h' \<Longrightarrow> worker_weight h' = worker_weight h"
  by (auto simp: send_reply_def split: sum.splits prod.splits option.splits dest: write_bytes_weight)

lemma worker_weight_acts [simp]: "worker_weight (h\<lparr>acts := a\<rparr>) = worker_weight h"
  by (simp add: worker_weight_def)

lemma dispatch_weight: "dispatch_intermediate E allowed on_event d h = Again h' \<Longrightarrow> worker_weight h' = worker_weight h"
  by (auto simp: dispatch_intermediate_def handle_tool_call_frame_def dispatch_worker_response_def Let_def
      split: if_splits frame_step.splits pyval.splits prod.splits dest: send_reply_weight)

function serve :: "worker_env \<Rightarrow> worker_call \<Rightarrow> pystr list option \<Rightarrow> host \<Rightarrow> (raised + pydict) \<times> host" where
  "serve E c allowed h =
     (case worker h of
        None \<Rightarrow> (Inl Caught, h)
      | Some w \<Rightarrow>
          (case read_response E c (polls w) (acts h) of
             (Inl r, past) \<Rightarrow> (Inl r, h\<lparr>acts := past\<rparr>)
           | (Inr (b, p'), past) \<Rightarrow>
               (case unpickle E b of
                  Inl r \<Rightarrow> (Inl r, set_polls p' past h)
                | Inr (PDict d) \<Rightarrow>
                    (case dispatch_intermediate E allowed (c_on_event c) d (set_polls p' past h) of
                       Final \<Rightarrow> (Inr d, set_polls p' past h)
                     | Raised r h2 \<Rightarrow> (Inl r, h2)
                     | Again h2 \<Rightarrow> serve E c allowed h2)
                | Inr _ \<Rightarrow> (Inl Caught, set_polls p' past h))))"
  by pat_completeness auto
termination
  by (relation "measure (\<lambda>(E, c, allowed, h). worker_weight h)")
    (auto dest!: dispatch_weight read_response_weight [OF sym] simp: worker_weight_def set_polls_def)

declare serve.simps [simp del]

subsection \<open>A call\<close>

text \<open>\<open>(x or "").strip()\<close>; a value without \<open>strip\<close> raises an \<open>AttributeError\<close>.\<close>

fun stripped :: "pyval \<Rightarrow> pystr option" where
  "stripped (PStr s) = Some (strip s)"
| "stripped v = (if truthy v then None else Some [])"

definition error_text :: "worker_env \<Rightarrow> pydict \<Rightarrow> pystr" where
  "error_text E d =
     (let m1 = dget d ''message'' PNone; m2 = dget d ''error'' PNone;
          msg = (if truthy m1 then m1 else if truthy m2 then m2 else PStr (u ''Unknown worker error''));
          tb = dget d ''traceback'' PNone
      in py_str (repr_of E) msg @ (case tb of PStr (t # ts) \<Rightarrow> [10] @ strip (t # ts) | _ \<Rightarrow> []))"

definition normalize_response :: "worker_env \<Rightarrow> pydict \<Rightarrow> raised + pydict" where
  "normalize_response E d =
     (if dget d ''status'' PNone = PStr (u ''ok'') then
        (let v = dget d ''result'' PNone in
         case (if v = PNone then Some PNone else unpack_result E v) of
           None \<Rightarrow> Inl Caught
         | Some v' \<Rightarrow>
             (case stripped (dget d ''stdout'' PNone) of
                None \<Rightarrow> Inl Uncaught
              | Some out \<Rightarrow> Inr [(u ''status'', PStr (u ''ok'')), (u ''result'', v'), (u ''stdout'', PStr out), (u ''stderr'', PStr [])]))
      else
        (let code = dget d ''code'' PNone; details = dget d ''details'' PNone; tb = dget d ''traceback'' PNone in
         case stripped (dget d ''stdout'' PNone) of
           None \<Rightarrow> Inl Uncaught
         | Some out \<Rightarrow>
             Inr [(u ''status'', PStr (u ''error'')),
                  (u ''code'', if truthy code then code else PStr (u ''VENV_EXEC_ERROR'')),
                  (u ''message'', PStr (error_text E d)),
                  (u ''details'', if truthy details then details else PDict []),
                  (u ''stdout'', PStr out),
                  (u ''traceback'', PStr (if truthy tb then py_str (repr_of E) tb else []))]))"

text \<open>\<open>_ensure_running\<close>: starting a process may raise an \<open>OSError\<close>.\<close>

definition start_worker :: "host \<Rightarrow> raised option \<times> host" where
  "start_worker h =
     (case spawns h of
        Some w # rest \<Rightarrow> (None, h\<lparr>worker := Some w, spawns := rest, acts := acts h @ [Spawn]\<rparr>)
      | None # rest \<Rightarrow> (Some Caught, h\<lparr>spawns := rest\<rparr>)
      | [] \<Rightarrow> (Some Caught, h))"

definition worker_alive :: "host \<Rightarrow> bool" where
  "worker_alive h = (case worker h of Some w \<Rightarrow> \<not> exited w | None \<Rightarrow> False)"

definition ensure_running :: "host \<Rightarrow> raised option \<times> host" where
  "ensure_running h = (if worker_alive h then (None, h) else start_worker (terminate_worker h))"

text \<open>One attempt: the write of the request, the loop, the normalised response.\<close>

definition attempt_call :: "worker_env \<Rightarrow> pystr \<Rightarrow> worker_call \<Rightarrow> host \<Rightarrow> (raised + pydict) \<times> host" where
  "attempt_call E uuid c h =
     (case ensure_running h of
        (Some r, h1) \<Rightarrow> (Inl r, h1)
      | (None, h1) \<Rightarrow>
          (case pack_pickle_frame (wdumps E) (Some max_payload) (PDict (build_request uuid c)) of
             Inl PickleFailed \<Rightarrow> (Inl Uncaught, h1)
           | Inl LengthOverflow \<Rightarrow> (Inl Uncaught, h1)
           | Inl (FrameTooLarge n) \<Rightarrow> (Inl Caught, h1)
           | Inr f \<Rightarrow>
               (case write_bytes FirstWriteLate SendRequest h1 of
                  (Some r, h2) \<Rightarrow> (Inl r, h2)
                | (None, h2) \<Rightarrow>
                    (case serve E c (resolve_allowed_tools E (c_domain c)) h2 of
                       (Inl r, h3) \<Rightarrow> (Inl r, h3)
                     | (Inr d, h3) \<Rightarrow> (normalize_response E d, h3)))))"

text \<open>The result of a call: a response, an error of the host with the number of the attempt, an exception that leaves
  \<open>execute\<close>, or no end yet.\<close>

datatype outcome = Answered pydict | HostError string nat | Raises | Hangs

definition give_up_worker :: "host \<Rightarrow> host" where
  "give_up_worker h = clear_host_state (terminate_worker h)"

fun attempts :: "nat \<Rightarrow> nat \<Rightarrow> worker_env \<Rightarrow> pystr \<Rightarrow> worker_call \<Rightarrow> host \<Rightarrow> outcome \<times> host" where
  "attempts 0 k E uuid c h = (HostError ''WORKER_IPC_ERROR'' k, h)"
| "attempts (Suc n) k E uuid c h =
     (case attempt_call E uuid c h of
        (Inr d, h1) \<Rightarrow> (Answered d, h1)
      | (Inl ReadLate, h1) \<Rightarrow> (HostError ''VENV_TIMEOUT'' (Suc k), give_up_worker h1)
      | (Inl ReplyLate, h1) \<Rightarrow> (HostError ''WORKER_IPC_ERROR'' (Suc k), give_up_worker h1)
      | (Inl Uncaught, h1) \<Rightarrow> (Raises, h1)
      | (Inl Unfinished, h1) \<Rightarrow> (Hangs, h1)
      | (Inl r, h1) \<Rightarrow>
          if n = 0 then (HostError (if r = FirstWriteLate then ''VENV_TIMEOUT'' else ''WORKER_IPC_ERROR'') (Suc k), give_up_worker h1)
          else attempts n (Suc k) E uuid c (give_up_worker h1))"

definition execute_ipc :: "worker_env \<Rightarrow> pystr \<Rightarrow> worker_call \<Rightarrow> host \<Rightarrow> outcome \<times> host" where
  "execute_ipc E uuid c h = attempts 2 0 E uuid c h"

text \<open>\<open>execute\<close>: a cold worker first runs \<open>result = None\<close>, within 30 seconds.\<close>

definition prime_call :: worker_call where
  "prime_call = \<lparr>c_code = Some (u ''result = None''), c_data = PNone, c_bindings = [], c_session = [], c_action = [],
     c_init = [], c_init_session = [], c_init_hash = [], c_heartbeat = False, c_timeout = 30, c_grace = 0,
     c_domain = None, c_on_heartbeat = False, c_on_event = False\<rparr>"

definition answered_ok :: "outcome \<Rightarrow> bool" where
  "answered_ok out = (case out of Answered d \<Rightarrow> dget d ''status'' PNone = PStr (u ''ok'') | _ \<Rightarrow> False)"

definition ensure_warmed :: "worker_env \<Rightarrow> pystr \<Rightarrow> host \<Rightarrow> outcome option \<times> host" where
  "ensure_warmed E uuid h =
     (if primed h \<and> worker_alive h then (None, h)
      else (case execute_ipc E uuid prime_call h of
              (out, h1) \<Rightarrow> if answered_ok out then (None, h1\<lparr>primed := True\<rparr>) else (Some out, h1)))"

definition execute_call :: "worker_env \<Rightarrow> pystr \<Rightarrow> pystr \<Rightarrow> worker_call \<Rightarrow> host \<Rightarrow> outcome \<times> host" where
  "execute_call E uuid0 uuid c h =
     (case ensure_warmed E uuid0 h of
        (Some out, h1) \<Rightarrow> (out, h1)
      | (None, h1) \<Rightarrow> execute_ipc E uuid c h1)"

end
