(* ===== verification/WorkerProtocol.thy ===== *)
theory WorkerProtocol
  imports WorkerCall
begin

text \<open>
  What a call of the Python worker may do and returns: the tools and requests of any call, the state after an error,
  the matching of responses to requests for a worker that keeps to the protocol, and what happens when a worker dies
  after its tool calls or a reply cannot be sent.
\<close>

subsection \<open>What a call may do\<close>

definition permitted :: "pystr list option \<Rightarrow> act \<Rightarrow> bool" where
  "permitted allowed a =
     (case a of
        RunTool n args \<Rightarrow> n \<notin> set blocked_tools \<and> n \<notin> set named_script_tools \<and> (case allowed of None \<Rightarrow> True | Some ns \<Rightarrow> n \<in> set ns)
      | FetchScript n \<Rightarrow> n \<in> set named_script_tools
      | _ \<Rightarrow> True)"

text \<open>The log grew by permitted actions, with at most \<open>k\<close> requests.\<close>

definition grew :: "pystr list option \<Rightarrow> nat \<Rightarrow> act list \<Rightarrow> act list \<Rightarrow> bool" where
  "grew allowed k past past' \<longleftrightarrow>
     (\<exists>new. past' = past @ new \<and> list_all (permitted allowed) new \<and> length (filter ((=) SendRequest) new) \<le> k)"

lemma grew_refl [simp, intro]: "grew allowed k past past"
  by (simp add: grew_def)

lemma grew_one [intro]: "permitted allowed a \<Longrightarrow> a \<noteq> SendRequest \<Longrightarrow> grew allowed k past (past @ [a])"
  by (simp add: grew_def)

lemma grew_request [intro]: "grew allowed (Suc k) past (past @ [SendRequest])"
  by (simp add: grew_def permitted_def)

lemma grew_trans: "grew allowed j a b \<Longrightarrow> grew allowed k b c \<Longrightarrow> grew allowed (j + k) a c"
  by (fastforce simp: grew_def)

lemma grew_mono: "grew allowed j a b \<Longrightarrow> j \<le> k \<Longrightarrow> grew allowed k a b"
  by (fastforce simp: grew_def)

lemma grew_trans0: "grew allowed 0 a b \<Longrightarrow> grew allowed k b c \<Longrightarrow> grew allowed k a c"
  using grew_trans [of allowed 0 a b k c] by simp

lemma permitted_simps [simp]:
  "permitted allowed Spawn" "permitted allowed Kill" "permitted allowed ClearCache" "permitted allowed Reply"
  "permitted allowed AskLlm" "permitted allowed Progress" "permitted allowed Heartbeat" "permitted allowed SendRequest"
  by (simp_all add: permitted_def)

lemma terminate_grew [intro]: "grew allowed 0 (acts h) (acts (terminate_worker h))"
  by (simp add: terminate_worker_def grew_def)

lemma give_up_grew [intro]: "grew allowed 0 (acts h) (acts (give_up_worker h))"
  by (simp add: give_up_worker_def terminate_worker_def clear_host_state_def grew_def)

lemma write_bytes_grew:
  "write_bytes late what h = (r, h') \<Longrightarrow> permitted allowed what \<Longrightarrow>
     grew allowed (if what = SendRequest then Suc 0 else 0) (acts h) (acts h')"
  by (auto simp: write_bytes_def grew_def clear_host_state_def terminate_worker_def
      split: option.splits list.splits write_result.splits)

lemma send_reply_grew:
  "send_reply E d h = Again h' \<or> send_reply E d h = Raised r h' \<Longrightarrow> grew allowed 0 (acts h) (acts h')"
  using write_bytes_grew [of ReplyLate Reply h _ _ allowed]
  by (auto simp: send_reply_def split: sum.splits prod.splits option.splits)

lemma execute_tool_grew:
  "execute_tool E allowed name args past = (r, past') \<Longrightarrow> grew allowed 0 past past'"
  by (cases allowed) (auto simp: execute_tool_def grew_def permitted_def split: if_splits)

lemma handle_grew:
  assumes "handle_tool_call_frame E allowed d h \<in> {Again h', Raised r h'}"
  shows "grew allowed 0 (acts h) (acts h')"
proof (cases "dget d ''tool'' PNone")
  case (PStr name)
  obtain v past where run: "execute_tool E allowed name (as_dict (dget d ''args'' PNone)) (acts h) = (v, past)" by fastforce
  have "grew allowed 0 past (acts h')" if "send_reply E reply (h\<lparr>acts := past\<rparr>) \<in> {Again h', Raised r h'}" for reply
    using that send_reply_grew [of E reply "h\<lparr>acts := past\<rparr>" h' r allowed] by auto
  then show ?thesis
    using assms PStr run execute_tool_grew [OF run]
    by (auto simp: handle_tool_call_frame_def Let_def split: if_splits intro: grew_trans0)
qed (use assms in \<open>auto simp: handle_tool_call_frame_def split: if_splits\<close>)

lemma dispatch_worker_grew:
  assumes "dispatch_worker_response E on_event d h \<in> {Again h', Raised r h'}"
  shows "grew allowed 0 (acts h) (acts h')"
proof -
  have "grew allowed 0 (acts h @ [AskLlm]) (acts h')"
    if "send_reply E reply (h\<lparr>acts := acts h @ [AskLlm]\<rparr>) \<in> {Again h', Raised r h'}" for reply
    using that send_reply_grew [of E reply "h\<lparr>acts := acts h @ [AskLlm]\<rparr>" h' r allowed] by auto
  then show ?thesis
    using assms grew_one [of allowed AskLlm 0 "acts h"] grew_one [of allowed Progress 0 "acts h"]
    by (auto simp: dispatch_worker_response_def Let_def split: if_splits dest: grew_trans0)
qed

lemma dispatch_grew:
  assumes "dispatch_intermediate E allowed on_event d h \<in> {Again h', Raised r h'}"
  shows "grew allowed 0 (acts h) (acts h')"
  using assms handle_grew [of E allowed d h h' r] dispatch_worker_grew [of E on_event d h h' r allowed]
  by (cases "handle_tool_call_frame E allowed d h") (auto simp: dispatch_intermediate_def split: if_splits)

lemma heartbeats_grew:
  "read_heartbeats E callback grace limit p past = (r, past') \<Longrightarrow> grew allowed 0 past past'"
proof (induction E callback grace limit p past rule: read_heartbeats.induct)
  case (1 E callback grace limit p past)
  note unfold = read_heartbeats.simps [of E callback grace limit p past]
  show ?case
  proof (cases "heartbeat_frame limit p")
    case (Inl e)
    then show ?thesis using 1(3) by (simp add: unfold)
  next
    case (Inr bp)
    obtain b1 p1 where bp: "bp = (b1, p1)" by fastforce
    show ?thesis
    proof (cases "unpickle E b1")
      case (Inl e)
      then show ?thesis using 1(3) Inr bp by (simp add: unfold)
    next
      case v: (Inr v)
      note IH = 1(1) [OF Inr bp [symmetric] v refl refl] 1(2) [OF Inr bp [symmetric] v refl refl]
      show ?thesis
        using 1(3) Inr bp v IH grew_trans0 [OF grew_one [of allowed Heartbeat 0 past]]
        by (auto simp: unfold Let_def split: if_splits)
    qed
  qed
qed

lemma read_response_grew: "read_response E c p past = (r, past') \<Longrightarrow> grew allowed 0 past past'"
  by (auto simp: read_response_def split: if_splits dest: heartbeats_grew)

lemma set_polls_acts [simp]: "acts (set_polls p past h) = past"
  by (simp add: set_polls_def)

lemma serve_grew: "serve E c allowed h = (r, h') \<Longrightarrow> grew allowed 0 (acts h) (acts h')"
proof (induction E c allowed h rule: serve.induct)
  case (1 E c allowed h)
  note unfold = serve.simps [of E c allowed h]
  show ?case
  proof (cases "worker h")
    case None
    then show ?thesis using 1(2) by (simp add: unfold)
  next
    case (Some w)
    obtain o1 past where read: "read_response E c (polls w) (acts h) = (o1, past)" by fastforce
    have past: "grew allowed 0 (acts h) past" using read by (rule read_response_grew)
    show ?thesis
    proof (cases o1)
      case (Inl e)
      then show ?thesis using 1(2) Some read past by (auto simp: unfold)
    next
      case (Inr bp)
      obtain b p' where bp: "bp = (b, p')" by fastforce
      let ?h = "set_polls p' past h"
      show ?thesis
      proof (cases "\<exists>d. unpickle E b = Inr (PDict d)")
        case False
        then show ?thesis using 1(2) Some read past Inr bp by (auto simp: unfold split: sum.splits pyval.splits)
      next
        case True
        then obtain d where d: "unpickle E b = Inr (PDict d)" by blast
        have disp: "grew allowed 0 past (acts h2)"
          if "dispatch_intermediate E allowed (c_on_event c) d ?h \<in> {Again h2, Raised e h2}" for h2 e
          using that dispatch_grew [of E allowed "c_on_event c" d ?h h2 e] by simp
        show ?thesis
        proof (cases "dispatch_intermediate E allowed (c_on_event c) d ?h")
          case Final
          then show ?thesis using 1(2) Some read past Inr bp d by (auto simp: unfold)
        next
          case (Again h2)
          have "grew allowed 0 (acts h2) (acts h')"
            using 1 Some read Inr bp d Again by (simp add: unfold)
          then show ?thesis using past disp [of h2] Again by (blast intro: grew_trans0)
        next
          case (Raised e h2)
          then show ?thesis using 1(2) Some read past Inr bp d disp [of h2 e] by (auto simp: unfold intro: grew_trans0)
        qed
      qed
    qed
  qed
qed

lemma ensure_running_grew: "ensure_running h = (r, h') \<Longrightarrow> grew allowed 0 (acts h) (acts h')"
  by (auto simp: ensure_running_def start_worker_def terminate_worker_def grew_def split: if_splits list.splits option.splits)

lemma attempt_grew:
  assumes "attempt_call E uuid c h = (r, h')"
  shows "grew (resolve_allowed_tools E (c_domain c)) 1 (acts h) (acts h')"
proof -
  let ?A = "resolve_allowed_tools E (c_domain c)"
  obtain e h1 where run: "ensure_running h = (e, h1)" by fastforce
  obtain e2 h2 where wr: "write_bytes FirstWriteLate SendRequest h1 = (e2, h2)" by fastforce
  obtain o3 h3 where sv: "serve E c ?A h2 = (o3, h3)" by fastforce
  have g1: "grew ?A 0 (acts h) (acts h1)" using run by (rule ensure_running_grew)
  have g2: "grew ?A 1 (acts h1) (acts h2)" using write_bytes_grew [OF wr, of ?A] by simp
  have g3: "grew ?A 0 (acts h2) (acts h3)" using sv by (rule serve_grew)
  have "h' = h1 \<or> h' = h2 \<or> h' = h3"
    using assms run wr sv by (auto simp: attempt_call_def split: option.splits sum.splits pack_error.splits)
  then show ?thesis
    using grew_mono [OF g1, of 1] grew_trans0 [OF g1 g2] grew_trans [OF grew_trans0 [OF g1 g2] g3] by auto
qed

lemma attempts_grew:
  "attempts n k E uuid c h = (out, h') \<Longrightarrow> grew (resolve_allowed_tools E (c_domain c)) n (acts h) (acts h')"
proof (induction n k E uuid c h rule: attempts.induct)
  case (1 k E uuid c h)
  then show ?case by simp
next
  case (2 n k E uuid c h)
  let ?A = "resolve_allowed_tools E (c_domain c)"
  obtain r h1 where at: "attempt_call E uuid c h = (r, h1)" by fastforce
  have g: "grew ?A 1 (acts h) (acts h1)" using attempt_grew [OF at] .
  have g': "grew ?A 1 (acts h) (acts (give_up_worker h1))" using grew_trans [OF g give_up_grew] by simp
  consider "h' = h1" | "h' = give_up_worker h1" | "attempts n (Suc k) E uuid c (give_up_worker h1) = (out, h')"
    and "grew ?A n (acts (give_up_worker h1)) (acts h')"
    using 2 at by (auto split: sum.splits raised.splits if_splits)
  then show ?case
    using grew_mono [OF g, of "Suc n"] grew_mono [OF g', of "Suc n"] grew_trans [OF g', of n "acts h'"] by cases auto
qed

lemma requests_twice: "execute_ipc E uuid c h = (out, h') \<Longrightarrow> grew (resolve_allowed_tools E (c_domain c)) 2 (acts h) (acts h')"
  unfolding execute_ipc_def by (rule attempts_grew)

text \<open>C14: Whatever the worker sends, a call writes its request at most twice, runs only tools its domain allows and
  never the one that would call the worker again; while formulas are recalculated (the domain \<open>""\<close>) it runs no tool at
  all and only fetches named scripts.\<close>

theorem call_runs_permitted_tools:
  "\<exists>new. acts (snd (execute_ipc E uuid c h)) = acts h @ new \<and> length (filter ((=) SendRequest) new) \<le> 2
      \<and> (\<forall>name args. RunTool name args \<in> set new \<longrightarrow>
           name \<noteq> u ''run_venv_python_script'' \<and> c_domain c \<noteq> Some []
           \<and> (case resolve_allowed_tools E (c_domain c) of None \<Rightarrow> True | Some ns \<Rightarrow> name \<in> set ns))"
proof -
  obtain new where new: "acts (snd (execute_ipc E uuid c h)) = acts h @ new"
      "list_all (permitted (resolve_allowed_tools E (c_domain c))) new" "length (filter ((=) SendRequest) new) \<le> 2"
    using requests_twice [of E uuid c h "fst (execute_ipc E uuid c h)" "snd (execute_ipc E uuid c h)"] by (auto simp: grew_def)
  have "name \<noteq> u ''run_venv_python_script'' \<and> c_domain c \<noteq> Some []
      \<and> (case resolve_allowed_tools E (c_domain c) of None \<Rightarrow> True | Some ns \<Rightarrow> name \<in> set ns)"
    if "RunTool name args \<in> set new" for name args
    using that new(2) by (auto simp: list_all_iff permitted_def blocked_tools_def resolve_allowed_tools_def split: option.splits dest!: bspec)
  then show ?thesis using new by blast
qed


lemma give_up_gone [simp]: "worker (give_up_worker g) = None" "\<not> primed (give_up_worker g)"
  by (simp_all add: give_up_worker_def clear_host_state_def terminate_worker_def)








subsection \<open>A worker that keeps to the protocol\<close>

definition tool_frame :: "pyval \<times> pystr \<times> pydict \<Rightarrow> pyval" where
  "tool_frame x = (case x of (call_id, name, args) \<Rightarrow>
     PDict [(u ''type'', PStr (u ''tool_call'')), (u ''id'', call_id), (u ''tool'', PStr name), (u ''args'', PDict args)])"

lemma tool_frame_call: "tool_frame (i, name, args) =
     PDict [(u ''type'', PStr (u ''tool_call'')), (u ''id'', i), (u ''tool'', PStr name), (u ''args'', PDict args)]"
  by (simp add: tool_frame_def)

definition tool_acts :: "pystr list option \<Rightarrow> pyval \<times> pystr \<times> pydict \<Rightarrow> act list" where
  "tool_acts allowed x = (case x of (call_id, name, args) \<Rightarrow>
     if name \<in> set blocked_tools then []
     else if name \<in> set named_script_tools then [FetchScript name]
     else if allowed \<noteq> None \<and> name \<notin> set (the allowed) then []
     else [RunTool name args])"

lemma execute_tool_acts: "snd (execute_tool E allowed name args past) = past @ tool_acts allowed (i, name, args)"
  by (auto simp: execute_tool_def tool_acts_def)

definition replies_pack :: "worker_env \<Rightarrow> bool" where
  "replies_pack E \<longleftrightarrow> (\<forall>d. \<exists>f. pack_pickle_frame (wdumps E) None (PDict d) = Inr f)"

lemma handle_tool_frame:
  assumes "replies_pack E" and "worker h = Some w" and "writes w = []"
  shows "handle_tool_call_frame E allowed
       [(u ''type'', PStr (u ''tool_call'')), (u ''id'', i), (u ''tool'', PStr name), (u ''args'', PDict args)] h
     = Again (h\<lparr>acts := acts h @ tool_acts allowed (i, name, args) @ [Reply]\<rparr>)"
proof -
  let ?d = "[(u ''type'', PStr (u ''tool_call'')), (u ''id'', i), (u ''tool'', PStr name), (u ''args'', PDict args)]"
  have d: "dget ?d ''type'' PNone = PStr (u ''tool_call'')" "dget ?d ''tool'' PNone = PStr name"
      "dget ?d ''args'' PNone = PDict args"
    by (simp_all add: dget_def u_def)
  obtain r past where run: "execute_tool E allowed name args (acts h) = (r, past)" by fastforce
  then have past: "past = acts h @ tool_acts allowed (i, name, args)"
    using execute_tool_acts [of E allowed name args "acts h" i] by simp
  have "send_reply E reply (h\<lparr>acts := past\<rparr>) = Again (h\<lparr>acts := past @ [Reply]\<rparr>)" for reply
    using assms by (auto simp: send_reply_def replies_pack_def write_bytes_def split: sum.split)
      (metis Inr_not_Inl)
  then show ?thesis by (simp add: handle_tool_call_frame_def d run past Let_def)
qed

lemma timed_payload:
  assumes "pickles dumps loads" and "pack_pickle_frame dumps (Some mx) m = Inr f" and "on_time limit p" and "arrived p = f @ rest"
  shows "\<exists>b p'. read_frame_payload (\<lambda>n. read_polls keep limit n []) (Some mx) p = Frame b p' \<and> loads b = Loaded m
           \<and> arrived p' = rest \<and> (ended p \<longrightarrow> ended p')"
proof -
  obtain b p' where *: "read_frame_payload (\<lambda>n. read_polls keep limit n []) (Some mx) p = Frame b p'" "loads b = Loaded m"
      "arrived p' = rest"
    using timed_message [OF assms(1,2) _ assms(3,4), of "\<lambda>m. True" False keep]
    by (auto simp: read_pickle_frame_def split: frame.splits loaded.splits)
  then show ?thesis using timed_frame(2) [OF assms(3) _ *(1)] by blast
qed

lemma polls_keep_time: "read_polls keep limit n buf p = Got b p' \<Longrightarrow> on_time L p \<Longrightarrow> on_time L p'"
  by (induction keep limit n buf p rule: read_polls.induct)
    (auto split: if_splits poll.splits simp: on_time_def)

lemma frame_keeps_time:
  "read_frame_payload (\<lambda>n. read_polls keep limit n []) mx p = Frame b p' \<Longrightarrow> on_time L p \<Longrightarrow> on_time L p'"
  by (auto simp: read_frame_payload_def Let_def split: got.splits if_splits dest!: polls_keep_time)

lemma on_time_mono: "on_time L p \<Longrightarrow> L \<le> limit \<Longrightarrow> on_time limit p"
  by (force simp: on_time_def)

lemma serve_step:
  assumes "pickles cd (wloads E)" and "pack_pickle_frame cd (Some max_payload) (PDict d) = Inr f"
    and "worker h = Some w" and "on_time L (polls w)" and "L \<le> read_limit c" and "arrived (polls w) = f @ rest" and "\<not> c_heartbeat c"
  shows "\<exists>p'. on_time L p' \<and> arrived p' = rest \<and> (ended (polls w) \<longrightarrow> ended p') \<and>
     serve E c allowed h = (case dispatch_intermediate E allowed (c_on_event c) d (set_polls p' (acts h) h) of
                              Final \<Rightarrow> (Inr d, set_polls p' (acts h) h)
                            | Raised r h2 \<Rightarrow> (Inl r, h2)
                            | Again h2 \<Rightarrow> serve E c allowed h2)"
proof -
  obtain b p' where "read_frame_payload (\<lambda>n. read_polls False (read_limit c) n []) (Some max_payload) (polls w) = Frame b p'"
    and "wloads E b = Loaded (PDict d)" and p': "on_time L p'" "arrived p' = rest" "ended (polls w) \<longrightarrow> ended p'"
    using timed_payload [OF assms(1,2) on_time_mono [OF assms(4,5)] assms(6), of False] frame_keeps_time [OF _ assms(4)] by blast
  then have "serve E c allowed h = (case dispatch_intermediate E allowed (c_on_event c) d (set_polls p' (acts h) h) of
                              Final \<Rightarrow> (Inr d, set_polls p' (acts h) h)
                            | Raised r h2 \<Rightarrow> (Inl r, h2)
                            | Again h2 \<Rightarrow> serve E c allowed h2)"
    using assms(3,7)
    by (subst serve.simps) (simp add: read_response_def read_response_select_def [abs_def] frame_outcome_def unpickle_def)
  then show ?thesis using p' by blast
qed

lemma set_polls_worker [simp]: "worker h = Some w \<Longrightarrow> worker (set_polls p past h) = Some (w\<lparr>polls := p\<rparr>)"
  by (simp add: set_polls_def)

lemma dispatch_tool_frame:
  assumes "replies_pack E" and "worker h = Some w" and "writes w = []"
  shows "dispatch_intermediate E allowed on_event
       [(u ''type'', PStr (u ''tool_call'')), (u ''id'', i), (u ''tool'', PStr name), (u ''args'', PDict args)] h
     = Again (h\<lparr>acts := acts h @ tool_acts allowed (i, name, args) @ [Reply]\<rparr>)"
  by (simp add: dispatch_intermediate_def handle_tool_frame [OF assms])

definition turn_acts :: "pystr list option \<Rightarrow> (pyval \<times> pystr \<times> pydict) list \<Rightarrow> act list" where
  "turn_acts allowed calls = concat (map (\<lambda>x. tool_acts allowed x @ [Reply]) calls)"

lemma serve_turn:
  assumes law: "pickles cd (wloads E)" "replies_pack E" and c: "\<not> c_heartbeat c" and final: "dget d ''type'' PNone = PNone"
    and fs: "list_all2 (\<lambda>m f. pack_pickle_frame cd (Some max_payload) m = Inr f) (map tool_frame calls @ [PDict d]) fs"
    and L: "L \<le> read_limit c"
    and w: "worker h = Some w" "writes w = []" "on_time L (polls w)" "arrived (polls w) = concat fs @ rest"
  shows "\<exists>p'. serve E c allowed h = (Inr d, h\<lparr>worker := Some (w\<lparr>polls := p'\<rparr>), acts := acts h @ turn_acts allowed calls\<rparr>)
           \<and> arrived p' = rest \<and> on_time L p'"
  using fs w
proof (induction calls arbitrary: fs h w)
  case Nil
  then obtain f where f: "fs = [f]" "pack_pickle_frame cd (Some max_payload) (PDict d) = Inr f"
    by (auto simp: list_all2_Cons1)
  then obtain p' where "arrived p' = rest" "on_time L p'"
    and sv: "serve E c allowed h = (case dispatch_intermediate E allowed (c_on_event c) d (set_polls p' (acts h) h) of
        Final \<Rightarrow> (Inr d, set_polls p' (acts h) h) | Raised r h2 \<Rightarrow> (Inl r, h2) | Again h2 \<Rightarrow> serve E c allowed h2)"
    using serve_step [OF law(1) f(2) Nil(2) Nil(4) L _ c, of rest] Nil(5) by auto
  moreover have "dispatch_intermediate E allowed (c_on_event c) d (set_polls p' (acts h) h) = Final"
    using final by (simp add: dispatch_intermediate_def handle_tool_call_frame_def dispatch_worker_response_def)
  ultimately show ?case using Nil(2) by (auto simp: set_polls_def turn_acts_def intro!: exI [of _ p'])
next
  case (Cons x calls)
  obtain i name args where x: "x = (i, name, args)" by (cases x)
  let ?d = "[(u ''type'', PStr (u ''tool_call'')), (u ''id'', i), (u ''tool'', PStr name), (u ''args'', PDict args)]"
  obtain f fs' where f: "fs = f # fs'" "pack_pickle_frame cd (Some max_payload) (PDict ?d) = Inr f"
    and fs': "list_all2 (\<lambda>m f. pack_pickle_frame cd (Some max_payload) m = Inr f) (map tool_frame calls @ [PDict d]) fs'"
    using Cons(2) by (auto simp: list_all2_Cons1 x tool_frame_call)
  have "arrived (polls w) = f @ (concat fs' @ rest)" using Cons(6) f by simp
  then obtain p1 where p1: "on_time L p1" "arrived p1 = concat fs' @ rest"
    and sv: "serve E c allowed h = (case dispatch_intermediate E allowed (c_on_event c) ?d (set_polls p1 (acts h) h) of
        Final \<Rightarrow> (Inr ?d, set_polls p1 (acts h) h) | Raised r h2 \<Rightarrow> (Inl r, h2) | Again h2 \<Rightarrow> serve E c allowed h2)"
    using serve_step [OF law(1) f(2) Cons(3) Cons(5) L _ c] by blast
  define h2 where "h2 = h\<lparr>worker := Some (w\<lparr>polls := p1\<rparr>), acts := acts h @ tool_acts allowed x @ [Reply]\<rparr>"
  have "serve E c allowed h = serve E c allowed h2"
    using Cons(3,4) dispatch_tool_frame [OF law(2), of "set_polls p1 (acts h) h"]
    by (simp add: sv x h2_def) (simp add: set_polls_def)
  moreover obtain p' where "serve E c allowed h2
      = (Inr d, h2\<lparr>worker := Some (w\<lparr>polls := p1, polls := p'\<rparr>), acts := acts h2 @ turn_acts allowed calls\<rparr>)" "arrived p' = rest" "on_time L p'"
    using Cons(1) [OF fs', of h2 "w\<lparr>polls := p1\<rparr>"] Cons(4) p1 by (auto simp: h2_def)
  ultimately show ?case by (auto simp: h2_def turn_acts_def intro!: exI [of _ p'])
qed

lemma serve_crash:
  assumes law: "pickles cd (wloads E)" "replies_pack E" and c: "\<not> c_heartbeat c"
    and fs: "list_all2 (\<lambda>m f. pack_pickle_frame cd (Some max_payload) m = Inr f) (map tool_frame calls) fs"
    and L: "L \<le> read_limit c"
    and w: "worker h = Some w" "writes w = []" "on_time L (polls w)" "arrived (polls w) = concat fs" "ended (polls w)"
  shows "\<exists>w'. serve E c allowed h = (Inl Caught, h\<lparr>worker := Some w', acts := acts h @ turn_acts allowed calls\<rparr>)"
  using fs w
proof (induction calls arbitrary: fs h w)
  case Nil
  then have "read_frame_payload blocking_read (Some max_payload) (arrived (polls w)) = NoFrame"
    by (simp add: read_frame_payload_def blocking_read_def)
  then have "map_frame arrived (read_frame_payload (\<lambda>n. read_polls False (read_limit c) n []) (Some max_payload) (polls w)) = NoFrame"
    using timed_frame(1) [OF on_time_mono [OF Nil(4) L] disjI1 [OF Nil(6)], where mx = "Some max_payload" and keep = False] by simp
  then have "read_frame_payload (\<lambda>n. read_polls False (read_limit c) n []) (Some max_payload) (polls w) = NoFrame"
    by (cases "read_frame_payload (\<lambda>n. read_polls False (read_limit c) n []) (Some max_payload) (polls w)") auto
  then have "serve E c allowed h = (Inl Caught, h)"
    using Nil(2) c
    by (subst serve.simps) (simp add: read_response_def read_response_select_def [abs_def] frame_outcome_def)
  then show ?case using Nil(2) by (auto simp: turn_acts_def intro!: exI [of _ w])
next
  case (Cons x calls)
  obtain i name args where x: "x = (i, name, args)" by (cases x)
  let ?d = "[(u ''type'', PStr (u ''tool_call'')), (u ''id'', i), (u ''tool'', PStr name), (u ''args'', PDict args)]"
  obtain f fs' where f: "fs = f # fs'" "pack_pickle_frame cd (Some max_payload) (PDict ?d) = Inr f"
    and fs': "list_all2 (\<lambda>m f. pack_pickle_frame cd (Some max_payload) m = Inr f) (map tool_frame calls) fs'"
    using Cons(2) by (auto simp: list_all2_Cons1 x tool_frame_call)
  obtain p1 where p1: "on_time L p1" "arrived p1 = concat fs'" "ended p1"
    and sv: "serve E c allowed h = (case dispatch_intermediate E allowed (c_on_event c) ?d (set_polls p1 (acts h) h) of
        Final \<Rightarrow> (Inr ?d, set_polls p1 (acts h) h) | Raised r h2 \<Rightarrow> (Inl r, h2) | Again h2 \<Rightarrow> serve E c allowed h2)"
    using serve_step [OF law(1) f(2) Cons(3) Cons(5) L _ c, of "concat fs'"] Cons(6,7) f by auto
  define h2 where "h2 = h\<lparr>worker := Some (w\<lparr>polls := p1\<rparr>), acts := acts h @ tool_acts allowed x @ [Reply]\<rparr>"
  have "serve E c allowed h = serve E c allowed h2"
    using Cons(3,4) dispatch_tool_frame [OF law(2), of "set_polls p1 (acts h) h"]
    by (simp add: sv x h2_def) (simp add: set_polls_def)
  moreover obtain w' where "serve E c allowed h2 = (Inl Caught, h2\<lparr>worker := Some w', acts := acts h2 @ turn_acts allowed calls\<rparr>)"
    using Cons(1) [OF fs', of h2 "w\<lparr>polls := p1\<rparr>"] Cons(4) p1 by (auto simp: h2_def)
  ultimately show ?case by (auto simp: h2_def turn_acts_def)
qed

text \<open>A worker that dies after its tool calls, before its response.\<close>

definition crashes_after :: "(pyval \<Rightarrow> byte list option) \<Rightarrow> rat \<Rightarrow> (pyval \<times> pystr \<times> pydict) list \<Rightarrow> proc \<Rightarrow> bool" where
  "crashes_after cd L calls w \<longleftrightarrow> \<not> exited w \<and> writes w = [] \<and> on_time L (polls w) \<and> ended (polls w)
     \<and> (\<exists>fs. list_all2 (\<lambda>m f. pack_pickle_frame cd (Some max_payload) m = Inr f) (map tool_frame calls) fs
            \<and> arrived (polls w) = concat fs)"

lemma attempt_crash:
  assumes "pickles cd (wloads E)" "replies_pack E" and "\<not> c_heartbeat c" and "L \<le> read_limit c"
    and f: "pack_pickle_frame (wdumps E) (Some max_payload) (PDict (build_request uuid c)) = Inr f"
    and w: "worker h = Some w" "crashes_after cd L calls w"
  shows "\<exists>w'. attempt_call E uuid c h = (Inl Caught, h\<lparr>worker := Some w',
             acts := acts h @ SendRequest # turn_acts (resolve_allowed_tools E (c_domain c)) calls\<rparr>)"
proof -
  let ?h = "h\<lparr>acts := acts h @ [SendRequest]\<rparr>" and ?A = "resolve_allowed_tools E (c_domain c)"
  obtain w' where "serve E c ?A ?h = (Inl Caught, ?h\<lparr>worker := Some w', acts := acts ?h @ turn_acts ?A calls\<rparr>)"
    using serve_crash [OF assms(1-3) _ assms(4), of calls _ ?h w] w by (auto simp: crashes_after_def)
  moreover have "ensure_running h = (None, h)" and "write_bytes FirstWriteLate SendRequest h = (None, ?h)"
    using w by (simp_all add: crashes_after_def ensure_running_def worker_alive_def write_bytes_def)
  ultimately show ?thesis using f by (auto simp: attempt_call_def)
qed

text \<open>A worker that dies after its tool calls, with their replies sent, is replaced and the request repeated: when the
  new worker makes the same calls and dies as well, all of them have been run twice on the document.\<close>

theorem crash_repeats_tools:
  assumes "pickles cd (wloads E)" "replies_pack E" and "\<not> c_heartbeat c" and "L \<le> read_limit c"
    and "pack_pickle_frame (wdumps E) (Some max_payload) (PDict (build_request uuid c)) = Inr f"
    and "worker h = Some w1" "crashes_after cd L calls w1" and "spawns h = Some w2 # ws" "crashes_after cd L calls w2"
  shows "\<exists>h'. execute_ipc E uuid c h = (HostError ''WORKER_IPC_ERROR'' 2, h')
     \<and> acts h' = acts h @ SendRequest # turn_acts (resolve_allowed_tools E (c_domain c)) calls @ [Kill, ClearCache, Spawn]
          @ SendRequest # turn_acts (resolve_allowed_tools E (c_domain c)) calls @ [Kill, ClearCache]"
proof -
  let ?T = "SendRequest # turn_acts (resolve_allowed_tools E (c_domain c)) calls"
  obtain v1 where a1: "attempt_call E uuid c h = (Inl Caught, h\<lparr>worker := Some v1, acts := acts h @ ?T\<rparr>)"
    using attempt_crash [OF assms(1-7)] by blast
  define g where "g = give_up_worker (h\<lparr>worker := Some v1, acts := acts h @ ?T\<rparr>)"
  have g: "worker g = None" "spawns g = Some w2 # ws" "acts g = acts h @ ?T @ [Kill, ClearCache]"
    using assms(8) by (simp_all add: g_def give_up_worker_def clear_host_state_def terminate_worker_def)
  define g1 where "g1 = g\<lparr>worker := Some w2, primed := False, spawns := ws, acts := acts g @ [Spawn]\<rparr>"
  have run: "ensure_running g = (None, g1)"
    using g by (simp add: ensure_running_def worker_alive_def terminate_worker_def start_worker_def g1_def)
  moreover have "ensure_running g1 = (None, g1)"
    using assms(9) by (simp add: ensure_running_def worker_alive_def g1_def crashes_after_def)
  ultimately have "attempt_call E uuid c g = attempt_call E uuid c g1" by (simp add: attempt_call_def)
  moreover obtain v2 where "attempt_call E uuid c g1 = (Inl Caught, g1\<lparr>worker := Some v2, acts := acts g1 @ ?T\<rparr>)"
    using attempt_crash [OF assms(1-5), of g1 w2 calls] assms(9) by (auto simp: g1_def)
  ultimately show ?thesis
    using a1 g by (simp add: execute_ipc_def numeral_2_eq_2 g_def [symmetric])
      (simp add: give_up_worker_def clear_host_state_def terminate_worker_def g1_def)
qed

text \<open>The calls of several clients, one after the other under the lock.\<close>

fun run_calls :: "worker_env \<Rightarrow> (pystr \<times> worker_call) list \<Rightarrow> host \<Rightarrow> outcome list \<times> host" where
  "run_calls E [] h = ([], h)"
| "run_calls E ((uuid, c) # cs) h =
     (let (out, h1) = execute_call E (u ''prime'') uuid c h; (outs, h2) = run_calls E cs h1 in (out # outs, h2))"

text \<open>A turn: the tool calls of a request, its response and their frames.\<close>

type_synonym turn = "(pyval \<times> pystr \<times> pydict) list \<times> pydict"

definition turn_ok :: "(pyval \<Rightarrow> byte list option) \<Rightarrow> worker_env \<Rightarrow> pystr \<times> worker_call \<Rightarrow> turn \<Rightarrow> byte list \<Rightarrow> pydict \<Rightarrow> bool" where
  "turn_ok cd E uc t bytes answer \<longleftrightarrow>
     (\<exists>f. pack_pickle_frame (wdumps E) (Some max_payload) (PDict (build_request (fst uc) (snd uc))) = Inr f)
     \<and> \<not> c_heartbeat (snd uc) \<and> dget (snd t) ''type'' PNone = PNone \<and> normalize_response E (snd t) = Inr answer
     \<and> (\<exists>fs. list_all2 (\<lambda>m f. pack_pickle_frame cd (Some max_payload) m = Inr f) (map tool_frame (fst t) @ [PDict (snd t)]) fs
            \<and> bytes = concat fs)"

lemma attempt_turn:
  assumes "pickles cd (wloads E)" "replies_pack E" and ok: "turn_ok cd E (uuid, c) t bytes answer"
    and w: "worker h = Some w" "\<not> exited w" "writes w = []" "on_time L (polls w)" "L \<le> read_limit c" "arrived (polls w) = bytes @ rest"
  shows "\<exists>p'. attempt_call E uuid c h = (Inr answer, h\<lparr>worker := Some (w\<lparr>polls := p'\<rparr>),
             acts := acts h @ SendRequest # turn_acts (resolve_allowed_tools E (c_domain c)) (fst t)\<rparr>)
           \<and> arrived p' = rest \<and> on_time L p'"
proof -
  let ?A = "resolve_allowed_tools E (c_domain c)" and ?h = "h\<lparr>acts := acts h @ [SendRequest]\<rparr>"
  obtain f fs where f: "pack_pickle_frame (wdumps E) (Some max_payload) (PDict (build_request uuid c)) = Inr f"
    and fs: "list_all2 (\<lambda>m f. pack_pickle_frame cd (Some max_payload) m = Inr f) (map tool_frame (fst t) @ [PDict (snd t)]) fs"
    and rest: "bytes = concat fs" "\<not> c_heartbeat c" "dget (snd t) ''type'' PNone = PNone" "normalize_response E (snd t) = Inr answer"
    using ok by (auto simp: turn_ok_def)
  obtain p' where "serve E c ?A ?h = (Inr (snd t), ?h\<lparr>worker := Some (w\<lparr>polls := p'\<rparr>), acts := acts ?h @ turn_acts ?A (fst t)\<rparr>)"
    and "arrived p' = rest" "on_time L p'"
    using serve_turn [OF assms(1,2) rest(2,3) fs w(5), of ?h w rest ?A] w rest(1) by auto
  moreover have "ensure_running h = (None, h)" and "write_bytes FirstWriteLate SendRequest h = (None, ?h)"
    using w by (simp_all add: ensure_running_def worker_alive_def write_bytes_def)
  ultimately show ?thesis using f rest(4) by (auto simp: attempt_call_def)
qed

text \<open>What the host does in a list of turns.\<close>

definition turns_acts :: "worker_env \<Rightarrow> (pystr \<times> worker_call) list \<Rightarrow> turn list \<Rightarrow> act list" where
  "turns_acts E cs ts =
     concat (map (\<lambda>(uc, t). SendRequest # turn_acts (resolve_allowed_tools E (c_domain (snd uc))) (fst t)) (zip cs ts))"

text \<open>C15: If the worker keeps to the protocol and is on time, every call gets the response to its own request and the
  tools a request asks for are run once, in its order, also over many calls on one pipe; all frames are used up.\<close>

theorem responses_match_requests:
  assumes "pickles cd (wloads E)" "replies_pack E"
    and "length cs = length ts" and "list_all2 (\<lambda>(uc, t) (bytes, answer). turn_ok cd E uc t bytes answer) (zip cs ts) ba"
    and "worker h = Some w" "\<not> exited w" "writes w = []" "primed h"
    and "on_time L (polls w)" and "\<forall>uc \<in> set cs. L \<le> read_limit (snd uc)" and "arrived (polls w) = concat (map fst ba)"
  shows "\<exists>p'. run_calls E cs h = (map (Answered \<circ> snd) ba, h\<lparr>worker := Some (w\<lparr>polls := p'\<rparr>), acts := acts h @ turns_acts E cs ts\<rparr>)
           \<and> arrived p' = []"
  using assms(3-)
proof (induction cs ts arbitrary: ba h w rule: list_induct2)
  case Nil
  then show ?case by (auto simp: turns_acts_def intro!: exI [of _ "polls w"])
next
  case (Cons uc cs t ts)
  obtain uuid c where uc: "uc = (uuid, c)" by fastforce
  obtain bytes answer ba' where ba: "ba = (bytes, answer) # ba'" and ok: "turn_ok cd E (uuid, c) t bytes answer"
    and ba': "list_all2 (\<lambda>(uc, t) (bytes, answer). turn_ok cd E uc t bytes answer) (zip cs ts) ba'"
    using Cons(3) by (auto simp: list_all2_Cons1 uc)
  let ?a = "acts h @ SendRequest # turn_acts (resolve_allowed_tools E (c_domain c)) (fst t)"
  obtain p1 where at: "attempt_call E uuid c h = (Inr answer, h\<lparr>worker := Some (w\<lparr>polls := p1\<rparr>), acts := ?a\<rparr>)"
    and p1: "arrived p1 = concat (map fst ba')" "on_time L p1"
    using attempt_turn [OF assms(1,2) ok Cons(4-6) Cons(8), of "concat (map fst ba')"] Cons(9,10) by (auto simp: ba uc)
  let ?h1 = "h\<lparr>worker := Some (w\<lparr>polls := p1\<rparr>), acts := ?a\<rparr>"
  have one: "execute_call E (u ''prime'') uuid c h = (Answered answer, ?h1)"
    using Cons(4,5,7) at by (simp add: execute_call_def ensure_warmed_def worker_alive_def execute_ipc_def numeral_2_eq_2)
  obtain p' where "run_calls E cs ?h1 = (map (Answered \<circ> snd) ba',
       ?h1\<lparr>worker := Some (w\<lparr>polls := p1, polls := p'\<rparr>), acts := ?a @ turns_acts E cs ts\<rparr>)" "arrived p' = []"
    using Cons(2) [OF ba', of ?h1 "w\<lparr>polls := p1\<rparr>"] Cons(5-7,9) p1 by auto
  then show ?case using one by (auto simp: uc ba turns_acts_def intro!: exI [of _ p'])
qed

subsection \<open>The witnesses\<close>

text \<open>A worker whose frames are numbered messages.\<close>

definition demo_tool :: pydict where
  "demo_tool = [(u ''type'', PStr (u ''tool_call'')), (u ''id'', PInt 1), (u ''tool'', PStr (u ''insert_text'')), (u ''args'', PDict [])]"

definition demo_ok :: "int \<Rightarrow> pydict" where
  "demo_ok n = [(u ''status'', PStr (u ''ok'')), (u ''result'', PInt n)]"

definition demo_dumps :: "pyval \<Rightarrow> byte list option" where
  "demo_dumps v = (if v = PDict demo_tool then Some [1] else if v = PDict (demo_ok 5) then Some [2]
     else if v = PDict (demo_ok 6) then Some [3] else None)"

definition demo_loads :: "byte list \<Rightarrow> pyval loaded" where
  "demo_loads b = (if b = [1] then Loaded (PDict demo_tool) else if b = [2] then Loaded (PDict (demo_ok 5))
     else if b = [3] then Loaded (PDict (demo_ok 6)) else NotAPickle)"

definition demo_env :: "(pyval \<Rightarrow> byte list option) \<Rightarrow> worker_env" where
  "demo_env dumps = \<lparr>wloads = demo_loads, wdumps = dumps, run_tool = \<lambda>past n args. Inr PNone, domain_tools = None,
     ppt_master = False, ask_llm = \<lambda>d. [], unpack_result = Some, repr_of = small_repr\<rparr>"

definition demo_call :: worker_call where
  "demo_call = prime_call"

definition demo_proc :: "pipe \<Rightarrow> proc" where
  "demo_proc p = \<lparr>exited = False, polls = p, writes = []\<rparr>"

definition demo_host :: "proc \<Rightarrow> proc list \<Rightarrow> host" where
  "demo_host w ws = \<lparr>worker = Some w, primed = True, spawns = map Some ws, acts = []\<rparr>"

lemma demo_pickles: "pickles demo_dumps demo_loads"
  by (auto simp: pickles_def demo_dumps_def demo_loads_def split: if_splits)

lemma demo_answer: "normalize_response (demo_env dumps) (demo_ok n)
    = Inr [(u ''status'', PStr (u ''ok'')), (u ''result'', PInt n), (u ''stdout'', PStr []), (u ''stderr'', PStr [])]"
  by (simp add: normalize_response_def demo_ok_def demo_env_def dget_def u_def Let_def)


definition demo_bytes :: "byte \<Rightarrow> byte list" where
  "demo_bytes k = [0, 0, 0, 1, k]"

lemma demo_frames:
  "pack_pickle_frame demo_dumps (Some max_payload) (PDict demo_tool) = Inr (demo_bytes 1)"
  "pack_pickle_frame demo_dumps (Some max_payload) (PDict (demo_ok 5)) = Inr (demo_bytes 2)"
  "pack_pickle_frame demo_dumps (Some max_payload) (PDict (demo_ok 6)) = Inr (demo_bytes 3)"
  by (simp_all add: pack_pickle_frame_def demo_dumps_def demo_tool_def demo_ok_def u_def max_payload_def small_headers demo_bytes_def)

lemma demo_host_frames: "pack_pickle_frame (wdumps (demo_env (\<lambda>v. Some [9]))) mx m = Inr (demo_bytes 9)" if "mx = None \<or> mx = Some max_payload"
  using that by (auto simp: pack_pickle_frame_def demo_env_def max_payload_def small_headers demo_bytes_def)

definition demo_polls :: pipe where
  "demo_polls = [(0, 0, Ready [0, 0]), (1, 1, Ready [0, 1, 1, 0, 0, 0, 1, 2]), (1, 2, Quiet False), (2, 2, Ready [0, 0, 0, 1, 3])]"

definition demo_answers :: "(byte list \<times> pydict) list" where
  "demo_answers = [(demo_bytes 1 @ demo_bytes 2, [(u ''status'', PStr (u ''ok'')), (u ''result'', PInt 5), (u ''stdout'', PStr []), (u ''stderr'', PStr [])]),
     (demo_bytes 3, [(u ''status'', PStr (u ''ok'')), (u ''result'', PInt 6), (u ''stdout'', PStr []), (u ''stderr'', PStr [])])]"

lemma demo_tool_frame: "PDict demo_tool = tool_frame (PInt 1, u ''insert_text'', [])"
  by (simp add: demo_tool_def tool_frame_def)

lemma demo_replies: "replies_pack (demo_env (\<lambda>v. Some [9]))"
  using demo_host_frames by (auto simp: replies_pack_def)

lemma demo_final: "dget (demo_ok n) ''type'' PNone = PNone"
  by (simp add: dget_def demo_ok_def u_def)

lemma demo_turns:
  "turn_ok demo_dumps (demo_env (\<lambda>v. Some [9])) (uuid, demo_call) ([(PInt 1, u ''insert_text'', [])], demo_ok 5)
     (demo_bytes 1 @ demo_bytes 2) [(u ''status'', PStr (u ''ok'')), (u ''result'', PInt 5), (u ''stdout'', PStr []), (u ''stderr'', PStr [])]"
  "turn_ok demo_dumps (demo_env (\<lambda>v. Some [9])) (uuid, demo_call) ([], demo_ok 6)
     (demo_bytes 3) [(u ''status'', PStr (u ''ok'')), (u ''result'', PInt 6), (u ''stdout'', PStr []), (u ''stderr'', PStr [])]"
  by (auto simp: turn_ok_def demo_host_frames demo_call_def prime_call_def demo_tool_frame [symmetric] list_all2_Cons1
      demo_final demo_answer demo_frames)

lemma demo_runs_tool:
  "\<exists>h'. execute_ipc (demo_env (\<lambda>v. Some [9])) (u ''a'') demo_call (demo_host (demo_proc demo_polls) [])
       = (Answered (snd (hd demo_answers)), h') \<and> acts h' = [SendRequest, RunTool (u ''insert_text'') [], Reply]"
proof -
  let ?h = "demo_host (demo_proc demo_polls) []"
  have arrives: "arrived (polls (demo_proc demo_polls)) = (demo_bytes 1 @ demo_bytes 2) @ demo_bytes 3"
    by (simp add: demo_proc_def demo_polls_def demo_bytes_def)
  have law: "pickles demo_dumps (wloads (demo_env (\<lambda>v. Some [9])))" using demo_pickles by (simp add: demo_env_def)
  have "\<exists>h'. attempt_call (demo_env (\<lambda>v. Some [9])) (u ''a'') demo_call ?h = (Inr (snd (hd demo_answers)), h')
      \<and> acts h' = SendRequest # turn_acts (resolve_allowed_tools (demo_env (\<lambda>v. Some [9])) (c_domain demo_call)) [(PInt 1, u ''insert_text'', [])]"
    using attempt_turn [OF law demo_replies demo_turns(1) _ _ _ _ _ arrives, of ?h 10 "u ''a''"]
    by (auto simp: demo_host_def demo_proc_def demo_polls_def on_time_def read_limit_def demo_call_def prime_call_def demo_answers_def)
  then obtain h' where h': "attempt_call (demo_env (\<lambda>v. Some [9])) (u ''a'') demo_call ?h = (Inr (snd (hd demo_answers)), h')"
      "acts h' = SendRequest # turn_acts (resolve_allowed_tools (demo_env (\<lambda>v. Some [9])) (c_domain demo_call)) [(PInt 1, u ''insert_text'', [])]"
    by blast
  moreover have "turn_acts (resolve_allowed_tools (demo_env (\<lambda>v. Some [9])) (c_domain demo_call)) [(PInt 1, u ''insert_text'', [])]
      = [RunTool (u ''insert_text'') [], Reply]"
    by (simp add: turn_acts_def tool_acts_def blocked_tools_def named_script_tools_def resolve_allowed_tools_def demo_env_def
        demo_call_def prime_call_def u_def)
  ultimately show ?thesis by (simp add: execute_ipc_def numeral_2_eq_2)
qed

theorem call_runs_permitted_tools_witness:
  "\<exists>new. new = acts (snd (execute_ipc (demo_env (\<lambda>v. Some [9])) (u ''a'') demo_call (demo_host (demo_proc demo_polls) [])))
     \<and> RunTool (u ''insert_text'') [] \<in> set new \<and> length (filter ((=) SendRequest) new) \<le> 2
     \<and> u ''insert_text'' \<noteq> u ''run_venv_python_script'' \<and> c_domain demo_call \<noteq> Some []"
proof -
  let ?h = "demo_host (demo_proc demo_polls) []"
  obtain h' where h': "snd (execute_ipc (demo_env (\<lambda>v. Some [9])) (u ''a'') demo_call ?h) = h'"
      "acts h' = [SendRequest, RunTool (u ''insert_text'') [], Reply]"
    using demo_runs_tool by auto
  from call_runs_permitted_tools [of "demo_env (\<lambda>v. Some [9])" "u ''a''" demo_call ?h]
  show ?thesis using h' by (auto simp: demo_host_def)
qed

theorem responses_match_requests_witness:
  "\<exists>p'. run_calls (demo_env (\<lambda>v. Some [9])) [(u ''a'', demo_call), (u ''b'', demo_call)] (demo_host (demo_proc demo_polls) [])
       = (map (Answered \<circ> snd) demo_answers, (demo_host (demo_proc demo_polls) [])\<lparr>worker := Some ((demo_proc demo_polls)\<lparr>polls := p'\<rparr>),
          acts := [] @ turns_acts (demo_env (\<lambda>v. Some [9])) [(u ''a'', demo_call), (u ''b'', demo_call)]
            [([(PInt 1, u ''insert_text'', [])], demo_ok 5), ([], demo_ok 6)]\<rparr>) \<and> arrived p' = []"
  using responses_match_requests [of demo_dumps "demo_env (\<lambda>v. Some [9])" "[(u ''a'', demo_call), (u ''b'', demo_call)]"
      "[([(PInt 1, u ''insert_text'', [])], demo_ok 5), ([], demo_ok 6)]" demo_answers "demo_host (demo_proc demo_polls) []" "demo_proc demo_polls" 10]
    demo_replies demo_turns demo_pickles
  by (simp add: demo_answers_def demo_host_def demo_proc_def demo_polls_def demo_bytes_def demo_env_def on_time_def read_limit_def
      demo_call_def prime_call_def)


theorem crash_repeats_tools_witness:
  "\<exists>h'. execute_ipc (demo_env (\<lambda>v. Some [9])) (u ''a'') demo_call
          (demo_host (demo_proc [(0, 0, Ready (demo_bytes 1)), (1, 1, Ready [])]) [demo_proc [(0, 0, Ready (demo_bytes 1)), (1, 1, Ready [])]])
        = (HostError ''WORKER_IPC_ERROR'' 2, h')
     \<and> acts h' = [SendRequest, RunTool (u ''insert_text'') [], Reply, Kill, ClearCache, Spawn,
         SendRequest, RunTool (u ''insert_text'') [], Reply, Kill, ClearCache]"
proof -
  let ?w = "demo_proc [(0, 0, Ready (demo_bytes 1)), (1, 1, Ready [])]"
  have "crashes_after demo_dumps 10 [(PInt 1, u ''insert_text'', [])] ?w"
    using demo_frames(1) by (auto simp: crashes_after_def demo_proc_def on_time_def demo_tool_frame [symmetric] list_all2_Cons1 demo_bytes_def)
  from crash_repeats_tools [OF _ demo_replies _ _ demo_host_frames, of demo_dumps demo_call 10 "demo_host ?w [?w]" ?w _ ?w "[]", OF _ _ _ _ _ this _ this]
  show ?thesis
    using demo_pickles
    by (simp add: demo_host_def read_limit_def demo_call_def prime_call_def demo_env_def turn_acts_def tool_acts_def
        blocked_tools_def named_script_tools_def resolve_allowed_tools_def u_def)
qed

subsection \<open>A reply that cannot be pickled\<close>

definition picky_dumps :: "pyval \<Rightarrow> byte list option" where
  "picky_dumps v = (if dget (as_dict v) ''result'' (PInt 0) = PNone then None else Some [9])"

lemma picky_request: "pack_pickle_frame (wdumps (demo_env picky_dumps)) (Some max_payload) (PDict (build_request uuid demo_call)) = Inr (demo_bytes 9)"
  by (simp add: demo_env_def picky_dumps_def pack_pickle_frame_def build_request_def demo_call_def prime_call_def optional_def
      dget_def u_def max_payload_def small_headers demo_bytes_def)

lemma picky_dispatch:
  "dispatch_intermediate (demo_env picky_dumps) None b demo_tool h = Raised Uncaught (h\<lparr>acts := acts h @ [RunTool (u ''insert_text'') []]\<rparr>)"
  by (simp add: dispatch_intermediate_def handle_tool_call_frame_def demo_tool_def execute_tool_def blocked_tools_def
      named_script_tools_def demo_env_def send_reply_def pack_pickle_frame_def picky_dumps_def dget_def u_def Let_def)

text \<open>When the result of a tool cannot be pickled, the exception leaves the call while the worker goes on waiting
  for the reply; it takes the next request for it, and the next call is given the response of the first.\<close>

theorem unsent_reply_shifts_answers:
  assumes "on_time 10 p" and "arrived p = demo_bytes 1 @ demo_bytes 2 @ rest"
  shows "fst (run_calls (demo_env picky_dumps) [(u ''a'', demo_call), (u ''b'', demo_call)] (demo_host (demo_proc p) []))
       = [Raises, Answered [(u ''status'', PStr (u ''ok'')), (u ''result'', PInt 5), (u ''stdout'', PStr []), (u ''stderr'', PStr [])]]"
proof -
  let ?E = "demo_env picky_dumps"
  have law: "pickles demo_dumps (wloads ?E)" using demo_pickles by (simp add: demo_env_def)
  have c: "10 \<le> read_limit demo_call" "\<not> c_heartbeat demo_call" "c_domain demo_call = None" "c_on_event demo_call = False"
    by (simp_all add: demo_call_def prime_call_def read_limit_def)
  have run: "execute_call ?E (u ''prime'') uuid demo_call (demo_host (demo_proc q) [] \<lparr>acts := past\<rparr>)
      = attempts 2 0 ?E uuid demo_call (demo_host (demo_proc q) [] \<lparr>acts := past\<rparr>)" for uuid q past
    by (simp add: execute_call_def ensure_warmed_def worker_alive_def execute_ipc_def demo_host_def demo_proc_def)
  have at: "attempt_call ?E uuid demo_call (demo_host (demo_proc q) [] \<lparr>acts := past\<rparr>)
      = (case serve ?E demo_call None (demo_host (demo_proc q) [] \<lparr>acts := past @ [SendRequest]\<rparr>) of
           (Inl r, h3) \<Rightarrow> (Inl r, h3) | (Inr d, h3) \<Rightarrow> (normalize_response ?E d, h3))" for uuid q past
    by (simp add: attempt_call_def ensure_running_def worker_alive_def picky_request write_bytes_def demo_host_def demo_proc_def
        resolve_allowed_tools_def c)
  obtain p1 where p1: "on_time 10 p1" "arrived p1 = demo_bytes 2 @ rest"
    and s1: "serve ?E demo_call None (demo_host (demo_proc p) [] \<lparr>acts := [SendRequest]\<rparr>)
      = (Inl Uncaught, demo_host (demo_proc p1) [] \<lparr>acts := [SendRequest, RunTool (u ''insert_text'') []]\<rparr>)"
    using serve_step [OF law demo_frames(1), of "demo_host (demo_proc p) [] \<lparr>acts := [SendRequest]\<rparr>" "demo_proc p" 10 demo_call
        "demo_bytes 2 @ rest" None] assms c
    by (auto simp: picky_dispatch set_polls_def demo_host_def demo_proc_def)
  have final: "dispatch_intermediate ?E None b (demo_ok 5) g = Final" for b g
    using demo_final by (simp add: dispatch_intermediate_def handle_tool_call_frame_def demo_env_def)
  have s2: "fst (serve ?E demo_call None (demo_host (demo_proc p1) [] \<lparr>acts := past\<rparr>)) = Inr (demo_ok 5)" for past
    using serve_step [OF law demo_frames(2), of "demo_host (demo_proc p1) [] \<lparr>acts := past\<rparr>" "demo_proc p1" 10 demo_call rest None] p1 c
    by (auto simp: final demo_host_def demo_proc_def)
  let ?acts = "[SendRequest, RunTool (u ''insert_text'') []]"
  have fresh: "demo_host (demo_proc p) [] = demo_host (demo_proc p) [] \<lparr>acts := []\<rparr>" by (simp add: demo_host_def)
  have first: "execute_call ?E (u ''prime'') (u ''a'') demo_call (demo_host (demo_proc p) [])
      = (Raises, demo_host (demo_proc p1) [] \<lparr>acts := ?acts\<rparr>)"
    by (subst fresh) (simp only: run, simp add: numeral_2_eq_2 at s1)
  obtain h3 where "serve ?E demo_call None (demo_host (demo_proc p1) [] \<lparr>acts := ?acts @ [SendRequest]\<rparr>) = (Inr (demo_ok 5), h3)"
    using s2 [of "?acts @ [SendRequest]"] by (metis prod.collapse)
  then have "fst (execute_call ?E (u ''prime'') (u ''b'') demo_call (demo_host (demo_proc p1) [] \<lparr>acts := ?acts\<rparr>))
      = Answered [(u ''status'', PStr (u ''ok'')), (u ''result'', PInt 5), (u ''stdout'', PStr []), (u ''stderr'', PStr [])]"
    using demo_answer [of picky_dumps 5] by (simp only: run) (simp add: numeral_2_eq_2 at)
  then show ?thesis by (simp add: first Let_def case_prod_beta)
qed

theorem unsent_reply_shifts_answers_witness:
  "fst (run_calls (demo_env picky_dumps) [(u ''a'', demo_call), (u ''b'', demo_call)] (demo_host (demo_proc demo_polls) []))
     = [Raises, Answered [(u ''status'', PStr (u ''ok'')), (u ''result'', PInt 5), (u ''stdout'', PStr []), (u ''stderr'', PStr [])]]"
  by (rule unsent_reply_shifts_answers [of _ "demo_bytes 3"]) (simp_all add: demo_polls_def on_time_def demo_bytes_def)

end
