(* ===== verification/EventBus.thy ===== *)
theory EventBus
  imports Prelude
begin

text \<open>
  The event bus (\<open>framework/event_bus.py\<close>) on one thread: subscriptions by strong and by weak reference, and \<open>emit\<close>,
  which calls the subscribers it found when it began, drops an event that is already being emitted on this thread and
  swallows exceptions. A subscriber is known by what it does when it is called: it may subscribe, unsubscribe, emit, let
  an object be collected, or raise, depending on all that happened before. Fuel bounds the nesting of emits.
\<close>

subsection \<open>Subscriptions\<close>

text \<open>A callable: a bound method (a new object at every access) of an object, a function, a built-in function (which
  has a \<open>__self__\<close> and no \<open>__func__\<close>), or one that no weak reference can point to. The first number is the identity
  of the callable.\<close>

datatype callable = Method nat nat nat | Func nat | Builtin nat nat | Opaque nat

datatype bus_entry = Strong callable | WeakMethod nat nat nat | WeakRef nat nat

text \<open>\<open>WeakMethod\<close> of a built-in function raises a \<open>TypeError\<close>, which \<open>subscribe\<close> does not catch.\<close>

definition make_entry :: "nat \<Rightarrow> bool \<Rightarrow> callable \<Rightarrow> bus_entry option" where
  "make_entry ref weak c =
     (if weak then (case c of Method i obj fn \<Rightarrow> Some (WeakMethod ref obj fn) | Func i \<Rightarrow> Some (WeakRef ref i)
                      | Builtin i obj \<Rightarrow> None | Opaque i \<Rightarrow> Some (Strong c))
      else Some (Strong c))"

text \<open>\<open>_same_callback\<close>: the same object, or the same \<open>__self__\<close> and \<open>__func__\<close>, which built-in functions
  do not have.\<close>

fun same_callback :: "callable option \<Rightarrow> callable \<Rightarrow> bool" where
  "same_callback None c = False"
| "same_callback (Some (Method i obj fn)) (Method j obj' fn') \<longleftrightarrow> i = j \<or> obj = obj' \<and> fn = fn'"
| "same_callback (Some (Builtin i obj)) (Builtin j obj') \<longleftrightarrow> i = j \<or> obj = obj'"
| "same_callback (Some a) c \<longleftrightarrow> a = c"

record 'e bus =
  subscribers :: "('e \<times> bus_entry list) list"
  active :: "'e list"
  collected :: "nat list"
  next_ref :: nat
  calls :: "('e \<times> callable) list"

text \<open>\<open>_resolve\<close>: a weak reference gives a new bound method, its function, or nothing.\<close>

fun resolve :: "nat list \<Rightarrow> nat \<Rightarrow> bus_entry \<Rightarrow> callable option" where
  "resolve gone i (Strong c) = Some c"
| "resolve gone i (WeakMethod ref obj fn) = (if obj \<in> set gone then None else Some (Method i obj fn))"
| "resolve gone i (WeakRef ref f) = (if f \<in> set gone then None else Some (Func f))"

definition subs_of :: "'e bus \<Rightarrow> 'e \<Rightarrow> bus_entry list" where
  "subs_of s e = (case map_of (subscribers s) e of None \<Rightarrow> [] | Some es \<Rightarrow> es)"

definition subscribe :: "'e \<Rightarrow> callable \<Rightarrow> bool \<Rightarrow> 'e bus \<Rightarrow> bool \<times> 'e bus" where
  "subscribe e c weak s =
     (case make_entry (next_ref s) weak c of
        None \<Rightarrow> (False, s\<lparr>subscribers := AList.update e (subs_of s e) (subscribers s)\<rparr>)
      | Some x \<Rightarrow> (True, s\<lparr>subscribers := AList.update e (subs_of s e @ [x]) (subscribers s), next_ref := Suc (next_ref s)\<rparr>))"

definition unsubscribe :: "'e \<Rightarrow> callable \<Rightarrow> 'e bus \<Rightarrow> 'e bus" where
  "unsubscribe e c s =
     (if subs_of s e = [] then s
      else s\<lparr>subscribers := AList.update e
               (filter (\<lambda>x. \<not> same_callback (resolve (collected s) (next_ref s) x) c) (subs_of s e)) (subscribers s),
             next_ref := Suc (next_ref s)\<rparr>)"

text \<open>An object is collected: each weak reference to it runs \<open>_cleanup\<close>, which removes that reference.\<close>

fun refers_to :: "nat \<Rightarrow> bus_entry \<Rightarrow> bool" where
  "refers_to obj (Strong c) = False"
| "refers_to obj (WeakMethod ref obj' fn) \<longleftrightarrow> obj = obj'"
| "refers_to obj (WeakRef ref f) \<longleftrightarrow> obj = f"

fun ref_of :: "bus_entry \<Rightarrow> nat option" where
  "ref_of (Strong c) = None"
| "ref_of (WeakMethod ref obj fn) = Some ref"
| "ref_of (WeakRef ref f) = Some ref"

definition cleanup :: "'e \<Rightarrow> nat \<Rightarrow> 'e bus \<Rightarrow> 'e bus" where
  "cleanup e ref s =
     (if subs_of s e = [] then s
      else s\<lparr>subscribers := AList.update e (filter (\<lambda>x. ref_of x \<noteq> Some ref) (subs_of s e)) (subscribers s)\<rparr>)"

definition dead_refs :: "nat \<Rightarrow> 'e bus \<Rightarrow> ('e \<times> nat) list" where
  "dead_refs obj s = concat (map (\<lambda>(e, es). map (\<lambda>x. (e, the (ref_of x))) (filter (refers_to obj) es)) (subscribers s))"

definition collect_object :: "nat \<Rightarrow> 'e bus \<Rightarrow> 'e bus" where
  "collect_object obj s = fold (\<lambda>(e, ref). cleanup e ref) (dead_refs obj s) (s\<lparr>collected := obj # collected s\<rparr>)"

subsection \<open>Emitting\<close>

datatype 'e bus_action = Subscribe 'e callable bool | Unsubscribe 'e callable | Emit 'e | Collect nat | Raise

text \<open>What a subscriber does, by all calls so far.\<close>

type_synonym 'e behaviour = "('e \<times> callable) list \<Rightarrow> 'e bus_action list"

fun run_actions :: "('e \<Rightarrow> 'e bus \<Rightarrow> 'e bus option) \<Rightarrow> 'e bus_action list \<Rightarrow> 'e bus \<Rightarrow> 'e bus option" where
  "run_actions em [] s = Some s"
| "run_actions em (Subscribe e c weak # as) s =
     (let (ok, s') = subscribe e c weak s in if ok then run_actions em as s' else Some s')"
| "run_actions em (Unsubscribe e c # as) s = run_actions em as (unsubscribe e c s)"
| "run_actions em (Emit e # as) s = (case em e s of None \<Rightarrow> None | Some s' \<Rightarrow> run_actions em as s')"
| "run_actions em (Collect obj # as) s = run_actions em as (collect_object obj s)"
| "run_actions em (Raise # as) s = Some s"

definition call_entry :: "'e behaviour \<Rightarrow> ('e \<Rightarrow> 'e bus \<Rightarrow> 'e bus option) \<Rightarrow> 'e \<Rightarrow> bus_entry \<Rightarrow> 'e bus \<Rightarrow> 'e bus option" where
  "call_entry B em e x s =
     (case resolve (collected s) (next_ref s) x of
        None \<Rightarrow> Some s
      | Some c \<Rightarrow> (let s1 = s\<lparr>calls := calls s @ [(e, c)], next_ref := Suc (next_ref s)\<rparr> in run_actions em (B (calls s1)) s1))"

fun call_entries :: "'e behaviour \<Rightarrow> ('e \<Rightarrow> 'e bus \<Rightarrow> 'e bus option) \<Rightarrow> 'e \<Rightarrow> bus_entry list \<Rightarrow> 'e bus \<Rightarrow> 'e bus option" where
  "call_entries B em e [] s = Some s"
| "call_entries B em e (x # xs) s = (case call_entry B em e x s of None \<Rightarrow> None | Some s' \<Rightarrow> call_entries B em e xs s')"

fun emit :: "'e behaviour \<Rightarrow> nat \<Rightarrow> 'e \<Rightarrow> 'e bus \<Rightarrow> 'e bus option" where
  "emit B 0 e s = None"
| "emit B (Suc n) e s =
     (if subs_of s e = [] \<or> e \<in> set (active s) then Some s
      else map_option (\<lambda>s'. s'\<lparr>active := removeAll e (active s')\<rparr>)
             (call_entries B (emit B n) e (subs_of s e) (s\<lparr>active := e # active s\<rparr>)))"

subsection \<open>What a nested emit leaves alone\<close>

definition calls_of :: "'e \<Rightarrow> 'e bus \<Rightarrow> callable list" where
  "calls_of e s = map snd (filter (\<lambda>x. fst x = e) (calls s))"

definition leaves :: "'e bus \<Rightarrow> 'e bus \<Rightarrow> bool" where
  "leaves s s' \<longleftrightarrow> active s' = active s \<and> set (collected s) \<subseteq> set (collected s')
     \<and> (\<forall>e \<in> set (active s). calls_of e s' = calls_of e s)"

lemma leaves_refl [simp]: "leaves s s"
  by (simp add: leaves_def)

lemma leaves_trans: "leaves a b \<Longrightarrow> leaves b c \<Longrightarrow> leaves a c"
  by (auto simp: leaves_def)

lemma leaves_subscribe [simp]: "subscribe e c weak s = (ok, s') \<Longrightarrow> leaves s s'"
  by (auto simp: subscribe_def leaves_def calls_of_def split: option.splits)

lemma leaves_unsubscribe [simp]: "leaves s (unsubscribe e c s)"
  by (simp add: unsubscribe_def leaves_def calls_of_def)

lemma leaves_cleanup: "leaves s (cleanup e ref s)"
  by (simp add: cleanup_def leaves_def calls_of_def)

lemma leaves_collect [simp]: "leaves s (collect_object obj s)"
proof -
  have "leaves s0 (fold (\<lambda>(e, ref). cleanup e ref) rs s0)" for rs s0
    by (induction rs arbitrary: s0) (auto intro: leaves_trans leaves_cleanup)
  from this [of "s\<lparr>collected := obj # collected s\<rparr>" "dead_refs obj s"] show ?thesis
    by (auto simp: collect_object_def leaves_def calls_of_def)
qed

definition keeps_active :: "('e \<Rightarrow> 'e bus \<Rightarrow> 'e bus option) \<Rightarrow> bool" where
  "keeps_active em \<longleftrightarrow> (\<forall>e s s'. em e s = Some s' \<longrightarrow> leaves s s')"

lemma run_actions_leaves: "keeps_active em \<Longrightarrow> run_actions em as s = Some s' \<Longrightarrow> leaves s s'"
proof (induction em as s rule: run_actions.induct)
  case (2 em e c weak as s)
  obtain ok s1 where sub: "subscribe e c weak s = (ok, s1)" by fastforce
  then have "leaves s s1" by simp
  moreover have "leaves s1 s'" using 2 sub by (cases ok) simp_all
  ultimately show ?case by (rule leaves_trans)
next
  case (3 em e c as s)
  then show ?case using leaves_trans [OF leaves_unsubscribe] by fastforce
next
  case (4 em e as s)
  then show ?case using leaves_trans by (fastforce simp: keeps_active_def split: option.splits)
next
  case (5 em obj as s)
  then show ?case using leaves_trans [OF leaves_collect] by fastforce
qed auto

lemma call_entry_leaves:
  assumes em: "keeps_active em" and call: "call_entry B em e x s = Some s'"
  shows "active s' = active s" and "e' \<in> set (active s) \<Longrightarrow> e' \<noteq> e \<Longrightarrow> calls_of e' s' = calls_of e' s"
    and "set (collected s) \<subseteq> set (collected s')"
    and "e \<in> set (active s) \<Longrightarrow> calls_of e s' = calls_of e s @ (case resolve (collected s) (next_ref s) x of None \<Rightarrow> [] | Some c \<Rightarrow> [c])"
proof -
  have "active s' = active s \<and> set (collected s) \<subseteq> set (collected s')
    \<and> (e' \<in> set (active s) \<longrightarrow> e' \<noteq> e \<longrightarrow> calls_of e' s' = calls_of e' s)
    \<and> (e \<in> set (active s) \<longrightarrow> calls_of e s' = calls_of e s @ (case resolve (collected s) (next_ref s) x of None \<Rightarrow> [] | Some c \<Rightarrow> [c]))"
  proof (cases "resolve (collected s) (next_ref s) x")
    case None
    then show ?thesis using call by (simp add: call_entry_def)
  next
    case (Some c)
    let ?s1 = "s\<lparr>calls := calls s @ [(e, c)], next_ref := Suc (next_ref s)\<rparr>"
    have "run_actions em (B (calls ?s1)) ?s1 = Some s'" using call Some by (simp add: call_entry_def)
    then have "leaves ?s1 s'" by (rule run_actions_leaves [OF em])
    then show ?thesis using Some by (auto simp: leaves_def calls_of_def)
  qed
  then show "active s' = active s" and "e' \<in> set (active s) \<Longrightarrow> e' \<noteq> e \<Longrightarrow> calls_of e' s' = calls_of e' s"
    and "set (collected s) \<subseteq> set (collected s')"
    and "e \<in> set (active s) \<Longrightarrow> calls_of e s' = calls_of e s @ (case resolve (collected s) (next_ref s) x of None \<Rightarrow> [] | Some c \<Rightarrow> [c])"
    by blast+
qed

text \<open>What a stored bus_entry may be called as.\<close>

fun target_of :: "bus_entry \<Rightarrow> callable \<Rightarrow> bool" where
  "target_of (Strong k) c \<longleftrightarrow> c = k"
| "target_of (WeakMethod ref obj fn) c \<longleftrightarrow> (\<exists>i. c = Method i obj fn)"
| "target_of (WeakRef ref f) c \<longleftrightarrow> c = Func f"

lemma resolve_target: "resolve gone i x = Some c \<Longrightarrow> target_of x c"
  by (cases x) (auto split: if_splits)

text \<open>The call for an entry between two states: an entry is skipped only when the object it refers to weakly has been
  collected by the second one, and called only when that object was not yet collected in the first.\<close>

definition served :: "'e bus \<Rightarrow> 'e bus \<Rightarrow> bus_entry \<Rightarrow> callable option \<Rightarrow> bool" where
  "served s s' x c \<longleftrightarrow>
     (case c of None \<Rightarrow> (\<exists>obj \<in> set (collected s'). refers_to obj x)
      | Some k \<Rightarrow> target_of x k \<and> (\<forall>obj \<in> set (collected s). \<not> refers_to obj x))"

lemma served_active [simp]:
  "served (s\<lparr>active := a\<rparr>) s' = served s s'" "served s (s'\<lparr>active := a\<rparr>) = served s s'"
  by (intro ext, simp add: served_def split: option.split)+

lemma resolve_served:
  "set (collected s) \<subseteq> set gone \<Longrightarrow> set gone \<subseteq> set (collected s') \<Longrightarrow> served s s' x (resolve gone i x)"
  by (cases x) (auto simp: served_def)

lemma served_weaken:
  "served s1 s' x c \<Longrightarrow> set (collected s) \<subseteq> set (collected s1) \<Longrightarrow> served s s' x c"
  by (auto simp: served_def split: option.splits)

lemma call_entries_calls:
  assumes em: "keeps_active em"
  shows "call_entries B em e xs s = Some s' \<Longrightarrow> e \<in> set (active s) \<Longrightarrow>
    active s' = active s \<and> set (collected s) \<subseteq> set (collected s')
    \<and> (\<forall>e' \<in> set (active s). e' \<noteq> e \<longrightarrow> calls_of e' s' = calls_of e' s)
    \<and> (\<exists>cs. list_all2 (served s s') xs cs \<and> calls_of e s' = calls_of e s @ List.map_filter (\<lambda>c. c) cs)"
proof (induction xs arbitrary: s)
  case Nil
  then show ?case by (auto simp: map_filter_simps)
next
  case (Cons x xs)
  then obtain s1 where s1: "call_entry B em e x s = Some s1" "call_entries B em e xs s1 = Some s'"
    by (auto split: option.splits)
  note one = call_entry_leaves [OF em s1(1)]
  obtain cs where cs: "list_all2 (served s1 s') xs cs" "calls_of e s' = calls_of e s1 @ List.map_filter (\<lambda>c. c) cs"
    and rest: "active s' = active s1" "set (collected s1) \<subseteq> set (collected s')"
      "\<forall>e' \<in> set (active s1). e' \<noteq> e \<longrightarrow> calls_of e' s' = calls_of e' s1"
    using Cons(1) [OF s1(2)] Cons(3) one(1) by auto
  let ?c = "resolve (collected s) (next_ref s) x"
  have "served s s' x ?c" using one(3) rest(2) by (intro resolve_served) auto
  moreover have "list_all2 (served s s') xs cs" using cs(1) served_weaken [OF _ one(3)] by (rule list_all2_mono)
  ultimately have "list_all2 (served s s') (x # xs) (?c # cs)" by simp
  moreover have "calls_of e s' = calls_of e s @ List.map_filter (\<lambda>c. c) (?c # cs)"
    using one(4) Cons(3) cs(2) by (cases ?c) (auto simp: map_filter_simps)
  moreover have "\<forall>e' \<in> set (active s). e' \<noteq> e \<longrightarrow> calls_of e' s' = calls_of e' s"
    using one(1,2) rest(3) by simp
  ultimately show ?case using one(1,3) rest(1,2) by (intro conjI exI [of _ "?c # cs"]) auto
qed

lemma emit_leaves: "emit B n e s = Some s' \<Longrightarrow> leaves s s'"
proof (induction n arbitrary: e s s')
  case (Suc n)
  show ?case
  proof (cases "subs_of s e = [] \<or> e \<in> set (active s)")
    case True
    then show ?thesis using Suc(2) by simp
  next
    case False
    then obtain s1 where s1: "call_entries B (emit B n) e (subs_of s e) (s\<lparr>active := e # active s\<rparr>) = Some s1"
      and s': "s' = s1\<lparr>active := removeAll e (active s1)\<rparr>"
      using Suc(2) by auto
    have "active s1 = e # active s" "set (collected s) \<subseteq> set (collected s1)" and "\<forall>e' \<in> set (active s). calls_of e' s1 = calls_of e' (s\<lparr>active := e # active s\<rparr>)"
      using call_entries_calls [OF _ s1] Suc(1) False by (auto simp: keeps_active_def)
    then show ?thesis using False by (simp add: s' leaves_def calls_of_def)
  qed
qed simp

lemma emit_keeps: "keeps_active (emit B n)"
  using emit_leaves by (auto simp: keeps_active_def)

subsection \<open>What an emit promises\<close>

text \<open>C12: An event that is emitted is told, in order and once each, to the subscribers that were there when it began:
  to every one held strongly, and to every one held weakly whose object has not been collected (one collected before the
  emit is not told, one that is left out has been collected by its end), whatever they subscribe, unsubscribe, emit, let
  go or raise meanwhile; afterwards the same events are being emitted as before, and none of
  those was told to anyone.\<close>

theorem emit_tells_snapshot:
  assumes "emit B n e s = Some s'" and "e \<notin> set (active s)"
  shows "(\<exists>cs. list_all2 (served s s') (subs_of s e) cs \<and> calls_of e s' = calls_of e s @ List.map_filter (\<lambda>c. c) cs)
    \<and> active s' = active s \<and> (\<forall>e' \<in> set (active s). calls_of e' s' = calls_of e' s)"
proof (cases "subs_of s e = []")
  case True
  then have "s' = s" using assms(1) by (cases n) auto
  then show ?thesis using True by (auto simp: map_filter_simps)
next
  case False
  obtain m where n: "n = Suc m" using assms(1) by (cases n) auto
  obtain s1 where s1: "call_entries B (emit B m) e (subs_of s e) (s\<lparr>active := e # active s\<rparr>) = Some s1"
    and s': "s' = s1\<lparr>active := removeAll e (active s1)\<rparr>"
    using assms False n by auto
  have "\<exists>cs. list_all2 (served s s') (subs_of s e) cs \<and> calls_of e s1 = calls_of e s @ List.map_filter (\<lambda>c. c) cs"
    using call_entries_calls [OF emit_keeps s1] by (simp add: calls_of_def s')
  moreover have "calls_of e s' = calls_of e s1" by (simp add: s' calls_of_def)
  ultimately show ?thesis using emit_leaves [OF assms(1)] by (simp add: leaves_def)
qed

definition demo_behaviour :: "nat behaviour" where
  "demo_behaviour past =
     (if last past = (1, Func 1) then [Collect 2, Emit 2, Unsubscribe 1 (Method 6 9 9), Raise]
      else if last past = (2, Func 3) then [Subscribe 1 (Func 4) False, Emit 1] else [])"

definition demo_bus :: "nat bus" where
  "demo_bus = \<lparr>subscribers = [(1, [Strong (Func 1), WeakRef 0 2, Strong (Method 5 9 9)]), (2, [Strong (Func 3)])],
     active = [], collected = [], next_ref = 10, calls = []\<rparr>"

lemma demo_emit: "emit demo_behaviour 3 1 demo_bus = Some
   \<lparr>subscribers = [(1, [Strong (Func 1), Strong (Func 4)]), (2, [Strong (Func 3)])],
     active = [], collected = [2], next_ref = 15, calls = [(1, Func 1), (2, Func 3), (1, Method 5 9 9)]\<rparr>"
  by code_simp

theorem emit_tells_snapshot_witness:
  "\<exists>s' cs. emit demo_behaviour 3 1 demo_bus = Some s'
      \<and> list_all2 (served demo_bus s') [Strong (Func 1), WeakRef 0 2, Strong (Method 5 9 9)] cs
      \<and> [Func 1, Method 5 9 9] = List.map_filter (\<lambda>c. c) cs"
  using emit_tells_snapshot [OF demo_emit] demo_emit by (simp add: demo_bus_def subs_of_def calls_of_def)

text \<open>Emitting ends: a nested emit is of an event that is not being emitted, so that the nesting is bounded by the
  number of events.\<close>

definition emits_within :: "'e behaviour \<Rightarrow> 'e list \<Rightarrow> bool" where
  "emits_within B U \<longleftrightarrow> (\<forall>past e. Emit e \<in> set (B past) \<longrightarrow> e \<in> set U)"

lemma active_kept [simp]:
  "active (unsubscribe e c s) = active s" "active (collect_object obj s) = active s"
  "subscribe e c weak s = (ok, s1) \<Longrightarrow> active s1 = active s"
  using leaves_unsubscribe [of s e c] leaves_collect [of s obj] leaves_subscribe [of e c weak s ok s1] by (simp_all add: leaves_def)

lemma run_actions_returns:
  assumes em: "\<And>e s. e \<in> set U \<Longrightarrow> active s = a \<Longrightarrow> \<exists>s'. em e s = Some s' \<and> active s' = a"
  shows "active s = a \<Longrightarrow> \<forall>e. Emit e \<in> set as \<longrightarrow> e \<in> set U \<Longrightarrow> \<exists>s'. run_actions em as s = Some s' \<and> active s' = a"
proof (induction as arbitrary: s)
  case (Cons x as)
  then have tail: "\<forall>e. Emit e \<in> set as \<longrightarrow> e \<in> set U" by simp
  show ?case
  proof (cases x)
    case (Subscribe e c weak)
    obtain ok s1 where sub: "subscribe e c weak s = (ok, s1)" by fastforce
    then show ?thesis using Cons(1) [of s1] Cons(2) tail Subscribe by (cases ok) simp_all
  next
    case (Emit e)
    then obtain s1 where "em e s = Some s1" "active s1 = a" using em [of e s] Cons(2,3) by auto
    then show ?thesis using Cons(1) [of s1] tail Emit by simp
  qed (use Cons(1) Cons(2) tail in simp_all)
qed simp

lemma call_entries_returns:
  assumes em: "\<And>e s. e \<in> set U \<Longrightarrow> active s = a \<Longrightarrow> \<exists>s'. em e s = Some s' \<and> active s' = a" and B: "emits_within B U"
  shows "active s = a \<Longrightarrow> \<exists>s'. call_entries B em e xs s = Some s' \<and> active s' = a"
proof (induction xs arbitrary: s)
  case (Cons x xs)
  have "\<exists>s1. call_entry B em e x s = Some s1 \<and> active s1 = a"
  proof (cases "resolve (collected s) (next_ref s) x")
    case (Some c)
    let ?s1 = "s\<lparr>calls := calls s @ [(e, c)], next_ref := Suc (next_ref s)\<rparr>"
    have "\<exists>s2. run_actions em (B (calls ?s1)) ?s1 = Some s2 \<and> active s2 = a"
      using B Cons(2) by (intro run_actions_returns [OF em]) (auto simp: emits_within_def)
    then show ?thesis using Some by (simp add: call_entry_def)
  qed (use Cons(2) in \<open>simp add: call_entry_def\<close>)
  then show ?case using Cons(1) by auto
qed simp

text \<open>Emitting ends, however deep the subscribers nest: for any finite set of events that they emit, a nesting
  bound above the number of those that are not being emitted is enough.\<close>

theorem emit_returns:
  assumes "emits_within B U" and "e \<in> set U" and "card (set U - set (active s)) < n"
  shows "\<exists>s'. emit B n e s = Some s'"
proof -
  have "e \<in> set U \<Longrightarrow> card (set U - set (active s)) < n \<Longrightarrow> \<exists>s'. emit B n e s = Some s' \<and> active s' = active s" for e s n
  proof (induction n arbitrary: e s)
    case (Suc n)
    show ?case
    proof (cases "subs_of s e = [] \<or> e \<in> set (active s)")
      case False
      let ?a = "e # active s"
      have "set U - set ?a \<subset> set U - set (active s)" using False Suc(2) by auto
      then have less: "card (set U - set ?a) < n"
        using Suc(3) psubset_card_mono [of "set U - set (active s)" "set U - set ?a"] by simp
      have "\<exists>s'. emit B n e' s1 = Some s' \<and> active s' = ?a" if "e' \<in> set U" "active s1 = ?a" for e' s1
        using Suc(1) [of e' s1] that less by simp
      then obtain s1 where "call_entries B (emit B n) e (subs_of s e) (s\<lparr>active := ?a\<rparr>) = Some s1" "active s1 = ?a"
        using call_entries_returns [of U ?a "emit B n" B "s\<lparr>active := ?a\<rparr>" e "subs_of s e"] assms(1) by auto
      then show ?thesis using False by simp
    qed simp
  qed simp
  then show ?thesis using assms(2,3) by blast
qed

theorem emit_returns_witness: "\<exists>s'. emit demo_behaviour 3 1 demo_bus = Some s'"
  by (rule emit_returns [of _ "[1, 2]"]) (auto simp: emits_within_def demo_behaviour_def demo_bus_def split: if_splits)

subsection \<open>References that are let go\<close>

lemma subs_of_cleanup: "subs_of (cleanup e ref s) e' = (if e' = e then filter (\<lambda>x. ref_of x \<noteq> Some ref) (subs_of s e) else subs_of s e')"
  by (auto simp: cleanup_def subs_of_def update_conv' split: option.splits)

lemma subs_of_cleanups:
  "subs_of (fold (\<lambda>(e, ref). cleanup e ref) rs s) e = filter (\<lambda>x. \<forall>(e', ref) \<in> set rs. e' = e \<longrightarrow> ref_of x \<noteq> Some ref) (subs_of s e)"
proof (induction rs arbitrary: s)
  case (Cons r rs)
  obtain e' ref where r: "r = (e', ref)" by fastforce
  show ?case by (cases "e' = e") (simp_all add: r Cons subs_of_cleanup)
qed simp

lemma dead_refs_mem:
  assumes "(e, es) \<in> set (subscribers s)" and "x \<in> set es" and "refers_to obj x" and "ref_of x = Some ref"
  shows "(e, ref) \<in> set (dead_refs obj s)"
proof -
  have "(e, ref) \<in> set (map (\<lambda>x. (e, the (ref_of x))) (filter (refers_to obj) es))"
    using assms(2-4) by (auto simp: image_iff intro!: bexI [of _ x])
  then show ?thesis unfolding dead_refs_def set_concat set_map using assms(1) by (intro UN_I [of "map (\<lambda>x. (e, the (ref_of x))) (filter (refers_to obj) es)"])
      (auto simp: image_iff intro!: bexI [of _ "(e, es)"])
qed

lemma collected_not_stored: "x \<in> set (subs_of (collect_object obj s) e) \<Longrightarrow> \<not> refers_to obj x"
proof
  assume x: "x \<in> set (subs_of (collect_object obj s) e)" and r: "refers_to obj x"
  let ?s = "s\<lparr>collected := obj # collected s\<rparr>"
  have "x \<in> set (subs_of ?s e) \<and> (\<forall>(e', ref) \<in> set (dead_refs obj s). e' = e \<longrightarrow> ref_of x \<noteq> Some ref)"
    using x unfolding collect_object_def subs_of_cleanups by simp
  then have mem: "x \<in> set (subs_of s e)" and all: "(e, ref) \<in> set (dead_refs obj s) \<Longrightarrow> ref_of x \<noteq> Some ref" for ref
    by (auto simp: subs_of_def)
  obtain es where es: "map_of (subscribers s) e = Some es" "x \<in> set es"
    using mem by (cases "map_of (subscribers s) e") (simp_all add: subs_of_def)
  obtain ref where ref: "ref_of x = Some ref" using r by (cases x) simp_all
  show False using all dead_refs_mem [OF map_of_SomeD [OF es(1)] es(2) r ref] ref by blast
qed

text \<open>\<open>unsubscribe\<close> takes two built-in functions with the same \<open>__self__\<close> (two methods of one list, or any two functions
  of the module \<open>builtins\<close>) for the same subscriber, because neither has a \<open>__func__\<close>.\<close>

lemma unsubscribe_removes_other_builtin:
  "subs_of s e = [Strong (Builtin i obj), Strong (Builtin j obj)] \<Longrightarrow> subs_of (unsubscribe e (Builtin i obj) s) e = []"
  by (simp add: unsubscribe_def subs_of_def update_conv' split: option.splits)

end
