(* ===== verification/SentenceCache.thy ===== *)
theory SentenceCache
  imports PyStr Fsm
begin

text \<open>
  The cache of checked sentences (\<open>writer/locale/grammar_proofread_cache.py\<close>) in front of the results stored with each
  document (\<open>DocumentPersistence\<close> of \<open>writer/locale/grammar_persistence.py\<close>): canonical sentences and their keys, the
  bounded cache in order of use, the removal of sentences that were still being typed, and the checker a document's
  results belong to. The fingerprint (a hash), the tables of sentence terminators and closers, and the identity of the
  active checker are arguments; the errors of a sentence are their positions and an uninterpreted rest. Loading and
  saving the results in the document is not modelled.
\<close>

record grammar_tables =
  terminators :: "nat set"
  closers :: "nat set"
  fingerprint :: "pystr \<Rightarrow> pystr"
  current_checker :: pystr

record sent_error =
  e_start :: int
  e_length :: int
  e_rest :: nat

definition max_cache_size :: nat where
  "max_cache_size = 2048"

definition max_incomplete_scan :: nat where
  "max_incomplete_scan = 10"

subsection \<open>Sentences and keys\<close>

text \<open>\<open>GRAMMAR_CACHE_NORMALIZATION_RE\<close> keeps the first of the terminators at the end; its dot does not match a line
  break.\<close>

definition canonical :: "grammar_tables \<Rightarrow> pystr \<Rightarrow> pystr" where
  "canonical T s =
     (let r = rstrip s;
          q = takeWhile (\<lambda>c. c \<in> terminators T) (rev r);
          p = take (length r - length q) r
      in if q = [] \<or> 10 \<in> set p then r else p @ [last q])"

definition last_meaningful :: "grammar_tables \<Rightarrow> pystr \<Rightarrow> nat option" where
  "last_meaningful T s = find (\<lambda>c. c \<notin> closers T) (rev (rstrip s))"

definition looks_complete :: "grammar_tables \<Rightarrow> pystr \<Rightarrow> bool" where
  "looks_complete T s = (case last_meaningful T s of None \<Rightarrow> False | Some c \<Rightarrow> c \<in> terminators T)"

definition sanitize_identity :: "pystr \<Rightarrow> pystr" where
  "sanitize_identity i = map (\<lambda>c. if c = 124 then 47 else c) i"

definition resolve_checker :: "grammar_tables \<Rightarrow> pystr option \<Rightarrow> pystr" where
  "resolve_checker T i = (case i of Some x \<Rightarrow> x | None \<Rightarrow> current_checker T)"

definition key_prefix :: "pystr \<Rightarrow> pystr \<Rightarrow> pystr" where
  "key_prefix loc ident = u ''sent|'' @ loc @ [124] @ sanitize_identity ident @ [124]"

definition sentence_key :: "grammar_tables \<Rightarrow> pystr \<Rightarrow> pystr \<Rightarrow> pystr \<Rightarrow> pystr" where
  "sentence_key T loc ident s = key_prefix loc ident @ fingerprint T (canonical T s)"

fun clip_errors :: "nat \<Rightarrow> sent_error list \<Rightarrow> sent_error list" where
  "clip_errors n [] = []"
| "clip_errors n (e # es) =
     (if int n \<le> e_start e then clip_errors n es
      else (let k = min (e_length e) (int n - e_start e) in
            if k \<le> 0 then clip_errors n es
            else (if k \<noteq> e_length e then e\<lparr>e_length := k\<rparr> else e) # clip_errors n es))"

subsection \<open>The results of a document\<close>

record doc_store =
  entries :: "(pystr \<times> sent_error list) list"
  accessed :: "pystr list"
  blob_identity :: "pystr option"
  session_identity :: "pystr option"

definition empty_store :: doc_store where
  "empty_store = \<lparr>entries = [], accessed = [], blob_identity = None, session_identity = None\<rparr>"

text \<open>\<open>ensure_identity\<close>: the checker the document was bound to, after a switch. A document saved by an older version
  has the identity \<open>llm\<close> until a language model adopts it.\<close>

definition ensure_identity :: "pystr \<Rightarrow> doc_store \<Rightarrow> pystr option \<times> doc_store" where
  "ensure_identity i d =
     (let blob = blob_identity d in
      if blob = Some (u ''llm'') \<and> prefix (u ''llm:'') i then (None, d\<lparr>blob_identity := Some i, session_identity := Some i\<rparr>)
      else (case session_identity d of
          None \<Rightarrow>
            (let d1 = d\<lparr>session_identity := Some i\<rparr> in
             if blob \<noteq> None \<and> blob \<noteq> Some [] \<and> blob \<noteq> Some (u ''llm'') \<and> blob \<noteq> Some i
             then (None, d1\<lparr>entries := [], accessed := [], blob_identity := Some i\<rparr>)
             else if blob = None \<or> blob = Some [] then (None, d1\<lparr>blob_identity := Some i\<rparr>)
             else (None, d1))
        | Some old \<Rightarrow>
            if old = i then (None, d)
            else (Some old, d\<lparr>entries := [], accessed := [], session_identity := Some i, blob_identity := Some i\<rparr>)))"

definition mark_accessed :: "pystr \<Rightarrow> doc_store \<Rightarrow> doc_store" where
  "mark_accessed fp d = d\<lparr>accessed := (if fp \<in> set (accessed d) then accessed d else fp # accessed d)\<rparr>"

definition store_get :: "pystr \<Rightarrow> doc_store \<Rightarrow> sent_error list option \<times> doc_store" where
  "store_get fp d =
     (if blob_identity d = Some (u ''llm'') then (None, d)
      else if session_identity d \<noteq> None \<and> blob_identity d \<noteq> None \<and> session_identity d \<noteq> blob_identity d then (None, d)
      else (case map_of (entries d) fp of None \<Rightarrow> (None, d) | Some es \<Rightarrow> (Some es, mark_accessed fp d)))"

definition store_put :: "pystr \<Rightarrow> sent_error list \<Rightarrow> doc_store \<Rightarrow> doc_store" where
  "store_put fp es d = (mark_accessed fp d)\<lparr>entries := AList.update fp es (entries d)\<rparr>"

definition store_clear :: "doc_store \<Rightarrow> doc_store" where
  "store_clear d = empty_store"

subsection \<open>The cache\<close>

record row =
  r_fp :: pystr
  r_canon :: pystr
  r_complete :: bool
  r_errors :: "sent_error list"

text \<open>The rows in the order of their last use, the oldest first.\<close>

record cache =
  rows :: "(pystr \<times> row) list"
  docs :: "(pystr \<times> doc_store) list"

definition move_to_end :: "pystr \<Rightarrow> row \<Rightarrow> (pystr \<times> row) list \<Rightarrow> (pystr \<times> row) list" where
  "move_to_end k r rs = AList.delete k rs @ [(k, r)]"

definition populate :: "grammar_tables \<Rightarrow> pystr \<Rightarrow> pystr \<Rightarrow> sent_error list \<Rightarrow> pystr \<Rightarrow> cache \<Rightarrow> cache" where
  "populate T loc s errs ident st =
     (let canon = canonical T s;
          r = \<lparr>r_fp = fingerprint T canon, r_canon = canon, r_complete = looks_complete T canon,
               r_errors = clip_errors (length canon) errs\<rparr>;
          rs = move_to_end (sentence_key T loc ident s) r (rows st)
      in st\<lparr>rows := drop (length rs - max_cache_size) rs\<rparr>)"

definition evict_identity :: "pystr \<Rightarrow> cache \<Rightarrow> cache" where
  "evict_identity ident st =
     st\<lparr>rows := filter (\<lambda>(k, r). \<not> contains k ([124] @ sanitize_identity ident @ [124])) (rows st)\<rparr>"

text \<open>\<open>get_persistence\<close> makes the store of a document when it is first asked for; \<open>None\<close> stands for a call without a
  document.\<close>

definition doc_of :: "pystr \<Rightarrow> cache \<Rightarrow> doc_store" where
  "doc_of i st = (case map_of (docs st) i of Some d \<Rightarrow> d | None \<Rightarrow> empty_store)"

definition set_doc :: "pystr \<Rightarrow> doc_store \<Rightarrow> cache \<Rightarrow> cache" where
  "set_doc i d st = st\<lparr>docs := AList.update i d (docs st)\<rparr>"

definition align_identity :: "pystr \<Rightarrow> pystr \<Rightarrow> cache \<Rightarrow> cache" where
  "align_identity i ident st =
     (case ensure_identity ident (doc_of i st) of
        (switched, d) \<Rightarrow>
          let st1 = set_doc i d st in
          case switched of None \<Rightarrow> st1 | Some old \<Rightarrow> if old = [] then st1 else evict_identity old st1)"

definition in_document :: "pystr option \<Rightarrow> bool" where
  "in_document doc \<longleftrightarrow> doc \<noteq> None \<and> doc \<noteq> Some []"

definition row_hit :: "grammar_tables \<Rightarrow> pystr \<Rightarrow> pystr \<Rightarrow> pystr \<Rightarrow> cache \<Rightarrow> row option" where
  "row_hit T loc s ident st =
     (case map_of (rows st) (sentence_key T loc ident s) of
        None \<Rightarrow> None
      | Some r \<Rightarrow> if r_fp r = fingerprint T (canonical T s) then Some r else None)"

definition cache_get :: "grammar_tables \<Rightarrow> pystr \<Rightarrow> pystr \<Rightarrow> pystr option \<Rightarrow> pystr option \<Rightarrow> cache \<Rightarrow> sent_error list option \<times> cache" where
  "cache_get T loc s doc checker st =
     (let ident = resolve_checker T checker; fp = fingerprint T (canonical T s) in
      case row_hit T loc s ident st of
        Some r \<Rightarrow>
          (let st1 = st\<lparr>rows := move_to_end (sentence_key T loc ident s) r (rows st)\<rparr> in
           (Some (r_errors r),
            if in_document doc
            then (let st2 = align_identity (the doc) ident st1
                  in set_doc (the doc) (mark_accessed fp (doc_of (the doc) st2)) st2)
            else st1))
      | None \<Rightarrow>
          if in_document doc then
            (let st1 = align_identity (the doc) ident st in
             case store_get fp (doc_of (the doc) st1) of
               (None, d) \<Rightarrow> (None, set_doc (the doc) d st1)
             | (Some es, d) \<Rightarrow> (Some es, populate T loc s es ident (set_doc (the doc) d st1)))
          else (None, st))"

text \<open>Rows of sentences that were still being typed when a longer one arrives: among the ten last used of the locale and
  checker.\<close>

definition superseded :: "pystr \<Rightarrow> row \<Rightarrow> bool" where
  "superseded canon r \<longleftrightarrow> \<not> r_complete r \<and> length (r_canon r) < length canon \<and> prefix (r_canon r) canon"

definition compact :: "pystr \<Rightarrow> pystr \<Rightarrow> (pystr \<times> row) list \<Rightarrow> (pystr \<times> row) list" where
  "compact pre canon rs =
     (let scanned = take max_incomplete_scan (filter (\<lambda>(k, r). prefix pre k) (rev rs));
          gone = map fst (filter (\<lambda>(k, r). superseded canon r) scanned)
      in filter (\<lambda>(k, r). k \<notin> set gone) rs)"

definition cache_put :: "grammar_tables \<Rightarrow> pystr \<Rightarrow> pystr \<Rightarrow> sent_error list \<Rightarrow> pystr option \<Rightarrow> pystr option \<Rightarrow> cache \<Rightarrow> cache" where
  "cache_put T loc s errs doc checker st =
     (let ident = resolve_checker T checker; canon = canonical T s; st1 = populate T loc s errs ident st in
      if in_document doc then
        (let st2 = align_identity (the doc) ident st1
         in set_doc (the doc) (store_put (fingerprint T canon) (clip_errors (length canon) errs) (doc_of (the doc) st2)) st2)
      else if looks_complete T canon then st1
      else st1\<lparr>rows := compact (key_prefix loc ident) canon (rows st1)\<rparr>)"

definition dump_l1 :: "cache \<Rightarrow> cache" where
  "dump_l1 st = st\<lparr>rows := []\<rparr>"

definition dump_for_recheck :: "pystr option \<Rightarrow> cache \<Rightarrow> cache" where
  "dump_for_recheck doc st =
     (let st1 = dump_l1 st in
      case doc of None \<Rightarrow> st1 | Some i \<Rightarrow> (case map_of (docs st1) i of None \<Rightarrow> st1 | Some d \<Rightarrow> set_doc i (store_clear d) st1))"

subsection \<open>The invariant\<close>

definition within :: "nat \<Rightarrow> sent_error \<Rightarrow> bool" where
  "within n e \<longleftrightarrow> e_start e < int n \<and> 0 < e_length e \<and> e_start e + e_length e \<le> int n"

lemma clip_errors_within: "e \<in> set (clip_errors n es) \<Longrightarrow> within n e"
  by (induction es) (auto simp: within_def Let_def split: if_splits)

lemma clip_errors_id: "\<forall>e \<in> set es. within n e \<Longrightarrow> clip_errors n es = es"
  by (induction es) (auto simp: within_def Let_def)

definition row_ok :: "grammar_tables \<Rightarrow> pystr \<times> row \<Rightarrow> bool" where
  "row_ok T kr \<longleftrightarrow>
     (\<exists>loc ident. fst kr = key_prefix loc ident @ r_fp (snd kr)) \<and> r_fp (snd kr) = fingerprint T (r_canon (snd kr))
     \<and> r_complete (snd kr) = looks_complete T (r_canon (snd kr))
     \<and> (\<forall>e \<in> set (r_errors (snd kr)). within (length (r_canon (snd kr))) e)"

definition cache_inv :: "grammar_tables \<Rightarrow> cache \<Rightarrow> bool" where
  "cache_inv T st \<longleftrightarrow> length (rows st) \<le> max_cache_size \<and> distinct (map fst (rows st)) \<and> (\<forall>kr \<in> set (rows st). row_ok T kr)"

definition empty_cache :: cache where
  "empty_cache = \<lparr>rows = [], docs = []\<rparr>"

inductive cache_step :: "grammar_tables \<Rightarrow> cache \<Rightarrow> cache \<Rightarrow> bool" for T where
  Get: "cache_step T st (snd (cache_get T loc s doc checker st))"
| Put: "cache_step T st (cache_put T loc s errs doc checker st)"
| Evict: "cache_step T st (evict_identity ident st)"
| Dump: "cache_step T st (dump_l1 st)"
| Recheck: "cache_step T st (dump_for_recheck doc st)"

lemma inv_rows: "rows st' = rows st \<Longrightarrow> cache_inv T st' \<longleftrightarrow> cache_inv T st"
  by (simp add: cache_inv_def)

lemma inv_filter: "cache_inv T st \<Longrightarrow> cache_inv T (st\<lparr>rows := filter P (rows st)\<rparr>)"
  by (auto simp: cache_inv_def distinct_map_filter intro: le_trans [OF length_filter_le])

lemma rows_set_doc [simp]: "rows (set_doc i d st) = rows st"
  by (simp add: set_doc_def)

lemma inv_set_doc [simp]: "cache_inv T (set_doc i d st) \<longleftrightarrow> cache_inv T st"
  by (rule inv_rows) simp

lemma inv_evict: "cache_inv T st \<Longrightarrow> cache_inv T (evict_identity ident st)"
  unfolding evict_identity_def by (rule inv_filter)

lemma inv_align: "cache_inv T st \<Longrightarrow> cache_inv T (align_identity i ident st)"
  by (auto simp: align_identity_def Let_def split: prod.splits option.splits intro: inv_evict)

lemma move_to_end_props:
  assumes "distinct (map fst rs)"
  shows "distinct (map fst (move_to_end k r rs))" and "set (move_to_end k r rs) \<subseteq> insert (k, r) (set rs)"
    and "length (move_to_end k r rs) \<le> Suc (length rs)" and "k \<in> fst ` set rs \<Longrightarrow> length (move_to_end k r rs) \<le> length rs"
proof -
  have len: "length (AList.delete k rs) \<le> length rs" by (simp add: AList.delete_eq)
  show "distinct (map fst (move_to_end k r rs))"
    using assms by (auto simp: move_to_end_def AList.delete_eq distinct_map_filter)
  show "set (move_to_end k r rs) \<subseteq> insert (k, r) (set rs)" by (auto simp: move_to_end_def AList.delete_eq)
  show "length (move_to_end k r rs) \<le> Suc (length rs)" using len by (simp add: move_to_end_def)
  show "k \<in> fst ` set rs \<Longrightarrow> length (move_to_end k r rs) \<le> length rs"
    by (auto simp: move_to_end_def AList.delete_eq intro!: length_filter_less [THEN less_eq_Suc_le [THEN iffD1]])
qed

lemma inv_populate:
  assumes "cache_inv T st"
  shows "cache_inv T (populate T loc s errs ident st)"
proof -
  have d: "distinct (map fst (rows st))" using assms by (simp add: cache_inv_def)
  let ?r = "\<lparr>r_fp = fingerprint T (canonical T s), r_canon = canonical T s, r_complete = looks_complete T (canonical T s),
      r_errors = clip_errors (length (canonical T s)) errs\<rparr>"
  let ?rs = "move_to_end (sentence_key T loc ident s) ?r (rows st)"
  have "row_ok T (sentence_key T loc ident s, ?r)"
    by (auto simp: row_ok_def sentence_key_def dest: clip_errors_within)
  then have "\<forall>kr \<in> set ?rs. row_ok T kr"
    using move_to_end_props(2) [OF d] assms by (fastforce simp: cache_inv_def)
  then show ?thesis
    using move_to_end_props(1) [OF d, of "sentence_key T loc ident s" ?r]
    by (auto simp: cache_inv_def populate_def Let_def drop_map [symmetric] dest: in_set_dropD)
qed

lemma row_hit_mem: "row_hit T loc s ident st = Some r \<Longrightarrow> (sentence_key T loc ident s, r) \<in> set (rows st)"
  by (auto simp: row_hit_def split: option.splits if_splits dest: map_of_SomeD)

lemma inv_touch:
  assumes "cache_inv T st" and "(k, r) \<in> set (rows st)"
  shows "cache_inv T (st\<lparr>rows := move_to_end k r (rows st)\<rparr>)"
proof -
  have d: "distinct (map fst (rows st))" using assms by (simp add: cache_inv_def)
  have "k \<in> fst ` set (rows st)" using assms(2) by force
  then show ?thesis
    using move_to_end_props [OF d, of k r] assms by (auto simp: cache_inv_def)
qed

lemma inv_get: "cache_inv T st \<Longrightarrow> cache_inv T (snd (cache_get T loc s doc checker st))"
  by (auto simp: cache_get_def Let_def split: option.splits prod.splits
      intro!: inv_align inv_touch inv_populate dest: row_hit_mem)

lemma inv_put: "cache_inv T st \<Longrightarrow> cache_inv T (cache_put T loc s errs doc checker st)"
  using inv_populate [of T st loc s errs "resolve_checker T checker"]
  by (auto simp: cache_put_def compact_def Let_def intro: inv_align inv_filter)

lemma cache_step_inv: "cache_step T st st' \<Longrightarrow> cache_inv T st \<Longrightarrow> cache_inv T st'"
proof (induction rule: cache_step.induct)
  case (Dump st)
  then show ?case by (simp add: dump_l1_def cache_inv_def)
next
  case (Recheck st doc)
  then show ?case by (auto simp: dump_for_recheck_def dump_l1_def cache_inv_def Let_def split: option.splits)
qed (simp_all add: inv_get inv_put inv_evict)

interpretation grammar_cache: step_invariant "\<lambda>st. st = empty_cache" "cache_step T" "cache_inv T" for T
  by unfold_locales (simp add: cache_inv_def empty_cache_def, rule cache_step_inv)

subsection \<open>What the cache promises\<close>

text \<open>C26: In every run of the cache there are at most 2048 sentences, each under one key, with the fingerprint of
  its canonical form, the right mark of being complete, and errors that lie inside the sentence.\<close>

theorem cache_well_formed:
  assumes "(cache_step T)\<^sup>*\<^sup>* empty_cache st"
  shows "length (rows st) \<le> 2048 \<and> distinct (map fst (rows st))
    \<and> (\<forall>(k, r) \<in> set (rows st). r_fp r = fingerprint T (r_canon r) \<and> r_complete r = looks_complete T (r_canon r)
         \<and> (\<exists>loc ident. k = key_prefix loc ident @ r_fp r)
         \<and> (\<forall>e \<in> set (r_errors r). e_start e < int (length (r_canon r)) \<and> 0 < e_length e
              \<and> e_start e + e_length e \<le> int (length (r_canon r))))"
proof -
  have inv: "cache_inv T st" by (rule grammar_cache.reach_inv [OF refl assms])
  then have "row_ok T (k, r)" if "(k, r) \<in> set (rows st)" for k r using that by (simp add: cache_inv_def)
  then show ?thesis using inv by (auto simp: cache_inv_def row_ok_def within_def max_cache_size_def)
qed

definition demo_tables :: grammar_tables where
  "demo_tables = \<lparr>terminators = {33, 46, 63}, closers = {34, 41}, fingerprint = \<lambda>s. s, current_checker = u ''harper''\<rparr>"

theorem cache_well_formed_witness:
  "length (rows (cache_put demo_tables (u ''en'') (u ''Hi there..'') [\<lparr>e_start = 3, e_length = 9, e_rest = 0\<rparr>] None None empty_cache)) \<le> 2048"
  using cache_well_formed [of demo_tables, OF r_into_rtranclp, OF Put] by blast

lemma move_to_end_lookup: "map_of (move_to_end k r rs) k = Some r"
  by (simp add: move_to_end_def map_add_def delete_conv')

lemma map_of_drop_last: "rs \<noteq> [] \<Longrightarrow> distinct (map fst rs) \<Longrightarrow> n < length rs \<Longrightarrow> map_of (drop n rs) (fst (last rs)) = Some (snd (last rs))"
  using last_in_set [of "drop n rs"]
  by (intro map_of_is_SomeI) (simp_all add: drop_map [symmetric])

lemma populate_row:
  assumes "distinct (map fst (rows st))"
  shows "map_of (rows (populate T loc s errs ident st)) (sentence_key T loc ident s)
    = Some \<lparr>r_fp = fingerprint T (canonical T s), r_canon = canonical T s, r_complete = looks_complete T (canonical T s),
        r_errors = clip_errors (length (canonical T s)) errs\<rparr>"
proof -
  let ?r = "\<lparr>r_fp = fingerprint T (canonical T s), r_canon = canonical T s, r_complete = looks_complete T (canonical T s),
        r_errors = clip_errors (length (canonical T s)) errs\<rparr>" and ?k = "sentence_key T loc ident s"
  let ?rs = "move_to_end ?k ?r (rows st)"
  have "last ?rs = (?k, ?r)" "?rs \<noteq> []" by (simp_all add: move_to_end_def)
  moreover have "length ?rs - max_cache_size < length ?rs" using \<open>?rs \<noteq> []\<close> by (simp add: max_cache_size_def)
  ultimately show ?thesis
    using map_of_drop_last [of ?rs "length ?rs - max_cache_size"] move_to_end_props(1) [OF assms, of ?k ?r]
    by (simp add: populate_def Let_def)
qed

lemma row_hit_populate:
  assumes "distinct (map fst (rows st))" and "canonical T s' = canonical T s" and "sanitize_identity ident' = sanitize_identity ident"
  shows "\<exists>r. row_hit T loc s' ident' (populate T loc s errs ident st) = Some r \<and> r_errors r = clip_errors (length (canonical T s)) errs"
proof -
  have "sentence_key T loc ident' s' = sentence_key T loc ident s"
    using assms(2,3) by (simp add: sentence_key_def key_prefix_def)
  then show ?thesis using populate_row [OF assms(1), of T loc s errs ident] assms(2) by (simp add: row_hit_def)
qed

lemma fst_get_hit: "row_hit T loc s (resolve_checker T checker) st = Some r \<Longrightarrow> fst (cache_get T loc s doc checker st) = Some (r_errors r)"
  by (simp add: cache_get_def Let_def)

lemma map_of_filter_keep: "map_of rs k = Some r \<Longrightarrow> distinct (map fst rs) \<Longrightarrow> P (k, r) \<Longrightarrow> map_of (filter P rs) k = Some r"
  by (rule map_of_is_SomeI) (auto simp: distinct_map_filter dest: map_of_SomeD)

lemma compact_keeps_new:
  assumes "map_of rs k = Some r" and "distinct (map fst rs)" and "r_canon r = canon"
  shows "map_of (compact pre canon rs) k = Some r"
proof -
  have "k \<notin> fst ` set (filter (\<lambda>(k, r). superseded canon r) (take n (filter (\<lambda>(k, r). prefix pre k) (rev rs))))" for n
  proof
    assume "k \<in> fst ` set (filter (\<lambda>(k, r). superseded canon r) (take n (filter (\<lambda>(k, r). prefix pre k) (rev rs))))"
    then obtain r' where "(k, r') \<in> set rs" "superseded canon r'" by (auto dest!: in_set_takeD)
    then show False using assms by (auto simp: superseded_def)
  qed
  then show ?thesis
    unfolding compact_def Let_def by (intro map_of_filter_keep [OF assms(1,2)]) (simp add: case_prod_beta)
qed

subsection \<open>Documents\<close>

definition store_ok :: "doc_store \<Rightarrow> bool" where
  "store_ok d \<longleftrightarrow> session_identity d \<noteq> None \<longrightarrow> blob_identity d = session_identity d \<or> blob_identity d = Some (u ''llm'')"

lemma ensure_identity_ok: "store_ok d \<Longrightarrow> store_ok (snd (ensure_identity i d))"
  by (auto simp: store_ok_def ensure_identity_def Let_def split: option.splits)

lemma doc_of_set_doc [simp]: "doc_of i (set_doc i d st) = d"
  by (simp add: doc_of_def set_doc_def update_conv')

lemma doc_of_rows [simp]: "doc_of i (st\<lparr>rows := rs\<rparr>) = doc_of i st" "doc_of i (evict_identity x st) = doc_of i st"
    "doc_of i (populate T loc s errs ident st) = doc_of i st"
  by (simp_all add: doc_of_def evict_identity_def populate_def Let_def)

lemma doc_of_align: "doc_of i (align_identity i ident st) = snd (ensure_identity ident (doc_of i st))"
  by (simp add: align_identity_def Let_def split: prod.splits option.splits)

lemma get_from_document:
  assumes "row_hit T loc s (resolve_checker T checker) st = None" and "i \<noteq> []"
  shows "fst (cache_get T loc s (Some i) checker st)
    = fst (store_get (fingerprint T (canonical T s)) (snd (ensure_identity (resolve_checker T checker) (doc_of i st))))"
  using assms by (simp add: cache_get_def in_document_def Let_def doc_of_align split: prod.split option.split)

lemma doc_after_put:
  "i \<noteq> [] \<Longrightarrow> doc_of i (cache_put T loc s errs (Some i) checker st)
    = store_put (fingerprint T (canonical T s)) (clip_errors (length (canonical T s)) errs)
        (snd (ensure_identity (resolve_checker T checker) (doc_of i st)))"
  by (simp add: cache_put_def in_document_def Let_def doc_of_align)

lemma rows_align: "set (rows (align_identity i ident st)) \<subseteq> set (rows st)"
  by (auto simp: align_identity_def evict_identity_def Let_def split: prod.splits option.splits if_splits)

lemma other_key_after_put:
  assumes "k \<notin> fst ` set (rows st)" and "k \<noteq> sentence_key T loc (resolve_checker T checker) s" and "i \<noteq> []"
  shows "k \<notin> fst ` set (rows (cache_put T loc s errs (Some i) checker st))"
proof -
  have "set (rows (populate T loc s errs ident st)) \<subseteq> set (rows st) \<union> {sentence_key T loc ident s} \<times> UNIV" for ident
    by (auto simp: populate_def Let_def move_to_end_def AList.delete_eq dest!: in_set_dropD)
  then have "k \<notin> fst ` set (rows (populate T loc s errs (resolve_checker T checker) st))" using assms(1,2) by force
  then show ?thesis using rows_align assms(3) by (fastforce simp: cache_put_def in_document_def Let_def)
qed

lemma no_row_hit: "sentence_key T loc ident s \<notin> fst ` set (rows st) \<Longrightarrow> row_hit T loc s ident st = None"
  by (simp add: row_hit_def map_of_eq_None_iff [THEN iffD2])

lemma populate_kept:
  assumes "cache_inv T st"
  shows "\<exists>r. r_errors r = clip_errors (length (canonical T s)) errs
    \<and> map_of (rows (populate T loc s errs ident st)) (sentence_key T loc ident s) = Some r
    \<and> r_fp r = fingerprint T (canonical T s) \<and> r_canon r = canonical T s"
  using populate_row [of st T loc s errs ident] assms by (auto simp: cache_inv_def)

subsection \<open>A sentence stored and asked for\<close>

text \<open>The canonical form of a sentence that ends with terminators and spaces: they count only up to the first one.\<close>

lemma rstrip_spaces: "list_all is_space w \<Longrightarrow> rstrip (p @ w) = rstrip p"
  by (induction w arbitrary: p rule: rev_induct) (auto simp: rstrip_def)

lemma canonical_terminated:
  assumes "list_all is_space w" and "set (t # ts) \<subseteq> terminators T" and "\<forall>c \<in> terminators T. \<not> is_space c" and "10 \<notin> set p"
  shows "canonical T (p @ (t # ts) @ w) =
    (let q = takeWhile (\<lambda>c. c \<in> terminators T) (rev p) in take (length p - length q) p @ [last (t # q)])"
proof -
  let ?P = "\<lambda>c. c \<in> terminators T" and ?q = "takeWhile (\<lambda>c. c \<in> terminators T) (rev p)"
  have "\<not> is_space (last (t # ts))" using assms(2,3) last_in_set [of "t # ts"] by (metis list.distinct(1) subsetD)
  then have "rstrip (p @ t # ts) = p @ t # ts"
    by (cases "t # ts" rule: rev_cases) (simp_all add: rstrip_def)
  then have r: "rstrip (p @ (t # ts) @ w) = p @ t # ts"
    using rstrip_spaces [OF assms(1), of "p @ t # ts"] by simp
  have q: "takeWhile ?P (rev (p @ t # ts)) = rev ts @ t # ?q"
  proof -
    have "\<And>c. c \<in> set (rev ts) \<Longrightarrow> ?P c" and "?P t" using assms(2) by auto
    then show ?thesis using takeWhile_append2 [of "rev ts" ?P "t # rev p"] by simp
  qed
  have len: "length ?q \<le> length p" using length_takeWhile_le [of ?P "rev p"] by simp
  then have t: "take (length (p @ t # ts) - length (rev ts @ t # ?q)) (p @ t # ts) = take (length p - length ?q) p" by simp
  have "10 \<notin> set (take (length p - length ?q) p)" using assms(4) in_set_takeD by fast
  then show ?thesis unfolding canonical_def Let_def r q t by simp
qed

definition ends_alike :: "grammar_tables \<Rightarrow> pystr \<Rightarrow> pystr \<Rightarrow> bool" where
  "ends_alike T s s' \<longleftrightarrow>
     (\<exists>p ts ts' w w'. s = p @ ts @ w \<and> s' = p @ ts' @ w' \<and> list_all is_space (w @ w') \<and> set (ts @ ts') \<subseteq> terminators T
        \<and> take 1 ts = take 1 ts' \<and> 10 \<notin> set p)"

lemma ends_alike_canonical:
  assumes "ends_alike T s s'" and "\<forall>c \<in> terminators T. \<not> is_space c"
  shows "canonical T s' = canonical T s"
proof -
  obtain p ts ts' w w' where s: "s = p @ ts @ w" "s' = p @ ts' @ w'" "list_all is_space (w @ w')" "set (ts @ ts') \<subseteq> terminators T"
    "take 1 ts = take 1 ts'" "10 \<notin> set p" using assms(1) unfolding ends_alike_def by blast
  show ?thesis
  proof (cases ts)
    case Nil
    then have "ts' = []" using s(5) by (cases ts') simp_all
    then show ?thesis using s(3) by (simp add: canonical_def s(1,2) Nil rstrip_spaces Let_def)
  next
    case (Cons t us)
    then obtain us' where ts': "ts' = t # us'" using s(5) by (cases ts') auto
    have "canonical T s = canonical T (p @ (t # []) @ [])" "canonical T s' = canonical T (p @ (t # []) @ [])"
      unfolding s(1,2) Cons ts' by (subst (1 2) canonical_terminated; use s(3,4,6) assms(2) Cons ts' in simp)+
    then show ?thesis by simp
  qed
qed

lemma put_row:
  assumes "cache_inv T st" and "\<not> in_document doc"
  shows "\<exists>r. r_errors r = clip_errors (length (canonical T s)) errs
    \<and> row_hit T loc s (resolve_checker T checker) (cache_put T loc s errs doc checker st) = Some r"
proof -
  let ?i = "resolve_checker T checker"
  let ?st1 = "populate T loc s errs ?i st"
  obtain r where r: "r_errors r = clip_errors (length (canonical T s)) errs"
      "map_of (rows ?st1) (sentence_key T loc ?i s) = Some r" "r_fp r = fingerprint T (canonical T s)" "r_canon r = canonical T s"
    using populate_kept [OF assms(1)] by blast
  have "distinct (map fst (rows ?st1))" using inv_populate [OF assms(1)] by (simp add: cache_inv_def)
  then have "map_of (compact (key_prefix loc ?i) (canonical T s) (rows ?st1)) (sentence_key T loc ?i s) = Some r"
    by (intro compact_keeps_new [OF r(2)]) (simp_all add: r(4))
  then show ?thesis using r assms(2) by (auto simp: cache_put_def Let_def row_hit_def)
qed

lemma row_hit_alike: "canonical T s' = canonical T s \<Longrightarrow> row_hit T loc s' ident st = row_hit T loc s ident st"
  by (simp add: row_hit_def sentence_key_def split: option.split)

text \<open>Inside a document the row may be evicted at once, with the results of the checker the document had before; the
  document then has the result.\<close>

lemma put_in_document:
  assumes "cache_inv T st" and "d \<noteq> []" and "resolve_checker T checker \<noteq> u ''llm''" and "canonical T s' = canonical T s"
    and "resolve_checker T checker' = resolve_checker T checker"
  shows "fst (cache_get T loc s' (Some d) checker' (cache_put T loc s errs (Some d) checker st))
    = Some (clip_errors (length (canonical T s)) errs)"
proof -
  let ?i = "resolve_checker T checker" and ?st = "cache_put T loc s errs (Some d) checker st"
  let ?k = "sentence_key T loc ?i s" and ?st1 = "populate T loc s errs (resolve_checker T checker) st"
  obtain r where r: "r_errors r = clip_errors (length (canonical T s)) errs"
      "map_of (rows ?st1) ?k = Some r" "r_fp r = fingerprint T (canonical T s)"
    using populate_kept [OF assms(1)] by blast
  have dist: "distinct (map fst (rows ?st1))" using inv_populate [OF assms(1)] by (simp add: cache_inv_def)
  have rows: "rows ?st = rows (align_identity d ?i ?st1)" using assms(2) by (simp add: cache_put_def in_document_def Let_def)
  show ?thesis
  proof (cases "row_hit T loc s' ?i ?st")
    case (Some r')
    then have "(?k, r') \<in> set (rows ?st)" using row_hit_mem row_hit_alike [OF assms(4)] by metis
    then have "(?k, r') \<in> set (rows ?st1)" using rows rows_align by fastforce
    then have "r' = r" using r(2) dist by (metis map_of_is_SomeI option.inject)
    then show ?thesis using fst_get_hit [of T loc s' checker' ?st r'] Some r(1) assms(5) by simp
  next
    case None
    have "rows ?st \<noteq> rows ?st1"
      using None r(2,3) row_hit_alike [OF assms(4), of loc ?i ?st] by (auto simp: row_hit_def)
    then obtain old where old: "fst (ensure_identity ?i (doc_of d st)) = Some old"
      unfolding rows by (auto simp: align_identity_def Let_def split: prod.splits option.splits)
    then have e: "snd (ensure_identity ?i (doc_of d st)) = (doc_of d st)\<lparr>entries := [], accessed := [],
        session_identity := Some ?i, blob_identity := Some ?i\<rparr>"
      by (auto simp: ensure_identity_def Let_def split: if_splits option.splits)
    have dd: "doc_of d ?st = store_put (fingerprint T (canonical T s)) (clip_errors (length (canonical T s)) errs)
        ((doc_of d st)\<lparr>entries := [], accessed := [], session_identity := Some ?i, blob_identity := Some ?i\<rparr>)"
      using doc_after_put [OF assms(2), of T loc s errs checker st] by (simp add: e)
    have "ensure_identity ?i (doc_of d ?st) = (None, doc_of d ?st)"
      using assms(3) by (simp add: dd ensure_identity_def store_put_def mark_accessed_def Let_def)
    then have "fst (cache_get T loc s' (Some d) checker' ?st) = fst (store_get (fingerprint T (canonical T s)) (doc_of d ?st))"
      using get_from_document [of T loc s' checker' ?st d] None assms(2,4,5) by simp
    then show ?thesis using assms(3) by (simp add: store_get_def dd store_put_def mark_accessed_def)
  qed
qed

text \<open>C24: What was stored for a sentence is found again, clipped to the canonical sentence, also under a sentence that
  differs only in further terminators (behind the same first one) and in spaces at its end, for the same locale and
  checker: outside a document, in whatever document it is asked for, and inside a document, for this document, even when
  storing it has just switched the document to the checker. (Terminators are no spaces and the sentence has no line
  break; \<open>llm\<close> alone is the mark of documents of an older version, not the name of a checker.)\<close>

theorem stored_sentence_is_found:
  assumes "cache_inv T st" and "ends_alike T s s'" and "\<forall>c \<in> terminators T. \<not> is_space c"
    and "resolve_checker T checker' = resolve_checker T checker" and "resolve_checker T checker \<noteq> u ''llm''"
    and "\<not> in_document doc \<or> doc' = doc"
  shows "fst (cache_get T loc s' doc' checker' (cache_put T loc s errs doc checker st))
    = Some (clip_errors (length (canonical T s)) errs)"
proof (cases "in_document doc")
  case True
  then obtain d where "doc = Some d" "d \<noteq> []" by (auto simp: in_document_def)
  then show ?thesis
    using put_in_document [OF assms(1) _ assms(5) ends_alike_canonical [OF assms(2,3)] assms(4)] assms(6) True by simp
next
  case False
  have c: "canonical T s' = canonical T s" using assms(2,3) by (rule ends_alike_canonical)
  obtain r where "r_errors r = clip_errors (length (canonical T s)) errs"
      "row_hit T loc s' (resolve_checker T checker') (cache_put T loc s errs doc checker st) = Some r"
    using put_row [OF assms(1) False] unfolding row_hit_alike [OF c] assms(4) by blast
  then show ?thesis by (simp add: fst_get_hit)
qed

lemma demo_canonical:
  "canonical demo_tables (u ''Hi there. '') = u ''Hi there.''" "canonical demo_tables (u ''Hi there...'') = u ''Hi there.''"
  by (simp_all add: canonical_def demo_tables_def rstrip_def is_space_def u_def)

lemma empty_cache_inv: "cache_inv T empty_cache"
  by (simp add: cache_inv_def empty_cache_def)

theorem stored_sentence_is_found_witness:
  "fst (cache_get demo_tables (u ''en'') (u ''Hi there. '') (Some (u ''doc'')) (Some (u ''harper''))
      (cache_put demo_tables (u ''en'') (u ''Hi there...'') [\<lparr>e_start = 3, e_length = 9, e_rest = 0\<rparr>] (Some (u ''doc'')) None empty_cache))
   = Some [\<lparr>e_start = 3, e_length = 6, e_rest = 0\<rparr>]"
proof -
  have "clip_errors (length (u ''Hi there.'')) [\<lparr>e_start = 3, e_length = 9, e_rest = 0\<rparr>] = [\<lparr>e_start = 3, e_length = 6, e_rest = 0\<rparr>]"
    by simp
  moreover have c: "resolve_checker demo_tables None = u ''harper''" "resolve_checker demo_tables (Some (u ''harper'')) = u ''harper''"
    by (simp_all add: resolve_checker_def demo_tables_def)
  moreover have "ends_alike demo_tables (u ''Hi there...'') (u ''Hi there. '')"
    unfolding ends_alike_def
    by (rule exI [of _ "u ''Hi there''"], rule exI [of _ "u ''...''"], rule exI [of _ "u ''.''"], rule exI [of _ "[]"],
      rule exI [of _ "u '' ''"]) (simp add: demo_tables_def u_def is_space_def)
  moreover have "\<forall>c \<in> terminators demo_tables. \<not> is_space c" by (simp add: demo_tables_def is_space_def)
  ultimately show ?thesis
    by (subst stored_sentence_is_found [OF empty_cache_inv]) (simp_all only: demo_canonical c, simp_all add: u_def)
qed

subsection \<open>What storing a sentence removes\<close>

lemma populate_loses:
  assumes "cache_inv T st" and "(k, r) \<in> set (rows st)" and "k \<noteq> sentence_key T loc ident s"
    and "(k, r) \<notin> set (rows (populate T loc s errs ident st))"
  shows "length (rows st) = max_cache_size \<and> (k, r) = hd (rows st) \<and> sentence_key T loc ident s \<notin> fst ` set (rows st)"
proof -
  let ?k = "sentence_key T loc ident s"
  obtain new where rs: "rows (populate T loc s errs ident st) =
      (let rs = AList.delete ?k (rows st) @ [(?k, new)] in drop (length rs - max_cache_size) rs)"
    by (auto simp: populate_def move_to_end_def Let_def)
  have mem: "(k, r) \<in> set (AList.delete ?k (rows st))" using assms(2,3) by (simp add: AList.delete_eq)
  have max: "length (rows st) \<le> max_cache_size" using assms(1) by (simp add: cache_inv_def)
  have long: "max_cache_size < Suc (length (AList.delete ?k (rows st)))"
  proof (rule ccontr)
    assume "\<not> max_cache_size < Suc (length (AList.delete ?k (rows st)))"
    then show False using assms(4) mem by (simp add: rs Let_def)
  qed
  have same: "AList.delete ?k (rows st) = rows st"
  proof (rule ccontr)
    assume "AList.delete ?k (rows st) \<noteq> rows st"
    then have "?k \<in> fst ` set (rows st)" using AList.delete_id by metis
    then have "\<exists>x \<in> set (rows st). fst x = ?k" by force
    then have "length (AList.delete ?k (rows st)) < length (rows st)"
      unfolding AList.delete_eq by (auto intro!: length_filter_less)
    then show False using long max by simp
  qed
  then have n: "length (rows st) = max_cache_size" using long max by simp
  have full: "rows (populate T loc s errs ident st) = drop 1 (rows st @ [(?k, new)])"
    unfolding rs same by (simp add: n Let_def)
  obtain x xs where x: "rows st = x # xs" using n by (cases "rows st") (simp_all add: max_cache_size_def)
  have "(k, r) \<notin> set xs" using assms(4) unfolding full x by simp
  then have "(k, r) = hd (rows st)" using assms(2) x by simp
  moreover have "?k \<notin> fst ` set (rows st)"
  proof -
    have "\<forall>x \<in> set (rows st). fst x \<noteq> ?k" using same by (auto simp: AList.delete_eq filter_id_conv)
    then show ?thesis by (metis imageE)
  qed
  ultimately show ?thesis using n by simp
qed

text \<open>C25: Storing a sentence takes the rows of other sentences away in three cases only: the least recently used row
  when the cache is full and the sentence is new; outside a document, a row of the same locale and checker that is
  incomplete and properly begins the new sentence, when that is incomplete as well; and inside a document that another
  checker was bound to in this session, the rows whose key names that checker.\<close>

theorem storing_removes_only:
  assumes "cache_inv T st" and "(k, r) \<in> set (rows st)" and "k \<noteq> sentence_key T loc (resolve_checker T checker) s"
    and "(k, r) \<notin> set (rows (cache_put T loc s errs doc checker st))"
  shows "length (rows st) = 2048 \<and> (k, r) = hd (rows st) \<and> sentence_key T loc (resolve_checker T checker) s \<notin> fst ` set (rows st)
    \<or> \<not> in_document doc \<and> prefix (key_prefix loc (resolve_checker T checker)) k \<and> \<not> r_complete r
        \<and> strict_prefix (r_canon r) (canonical T s) \<and> \<not> looks_complete T (canonical T s)
    \<or> in_document doc \<and> (\<exists>old. session_identity (doc_of (the doc) st) = Some old \<and> old \<noteq> resolve_checker T checker
        \<and> contains k ([124] @ sanitize_identity old @ [124]))"
proof -
  let ?i = "resolve_checker T checker" and ?c = "canonical T s"
  let ?st1 = "populate T loc s errs ?i st"
  show ?thesis
  proof (cases "(k, r) \<in> set (rows ?st1)")
    case False
    then show ?thesis using populate_loses [OF assms(1-3)] by (simp add: max_cache_size_def)
  next
    case mem: True
    have "distinct (map fst (rows ?st1))" using inv_populate [OF assms(1)] by (simp add: cache_inv_def)
    then have one: "r' = r" if "(k, r') \<in> set (rows ?st1)" for r'
      using that mem by (metis map_of_is_SomeI option.inject)
    show ?thesis
    proof (cases "in_document doc")
      case True
      then have "(k, r) \<notin> set (rows (align_identity (the doc) ?i ?st1))"
        using assms(4) by (simp add: cache_put_def Let_def)
      then obtain old where "fst (ensure_identity ?i (doc_of (the doc) st)) = Some old"
          "contains k ([124] @ sanitize_identity old @ [124])"
        using mem by (auto simp: align_identity_def evict_identity_def Let_def split: prod.splits option.splits if_splits)
      then show ?thesis using True by (auto simp: ensure_identity_def Let_def split: if_splits option.splits)
    next
      case False
      then have inc: "\<not> looks_complete T ?c" and out: "(k, r) \<notin> set (compact (key_prefix loc ?i) ?c (rows ?st1))"
        using assms(4) mem by (auto simp: cache_put_def Let_def split: if_splits)
      then obtain r' where "(k, r') \<in> set (rows ?st1)" "prefix (key_prefix loc ?i) k" "superseded ?c r'"
        using mem by (auto simp: compact_def Let_def dest!: in_set_takeD)
      then show ?thesis using one False inc by (auto simp: superseded_def strict_prefix_def)
    qed
  qed
qed

theorem storing_removes_only_witness:
  "\<exists>st k r. (k, r) \<in> set (rows st) \<and> (k, r) \<notin> set (rows (cache_put demo_tables (u ''en'') (u ''Hi the'') [] None None st))
     \<and> \<not> r_complete r \<and> strict_prefix (r_canon r) (u ''Hi the'')"
proof -
  let ?st = "populate demo_tables (u ''en'') (u ''Hi'') [] (u ''harper'') empty_cache"
  let ?k = "sentence_key demo_tables (u ''en'') (u ''harper'') (u ''Hi'')"
  let ?r = "\<lparr>r_fp = u ''Hi'', r_canon = u ''Hi'', r_complete = False, r_errors = []\<rparr>"
  have c: "canonical demo_tables (u ''Hi'') = u ''Hi''" "canonical demo_tables (u ''Hi the'') = u ''Hi the''"
    "\<not> looks_complete demo_tables (u ''Hi'')" "\<not> looks_complete demo_tables (u ''Hi the'')"
    by (simp_all add: canonical_def demo_tables_def rstrip_def is_space_def u_def looks_complete_def last_meaningful_def)
  have f: "fingerprint demo_tables x = x" "resolve_checker demo_tables None = u ''harper''" for x
    by (simp_all add: demo_tables_def resolve_checker_def)
  have rows: "rows ?st = [(?k, ?r)]"
    by (simp add: populate_def empty_cache_def move_to_end_def c f Let_def max_cache_size_def)
  have ne: "?k \<noteq> sentence_key demo_tables (u ''en'') (resolve_checker demo_tables None) (u ''Hi the'')"
    by (simp add: sentence_key_def c f)
  have inv: "cache_inv demo_tables ?st" by (rule inv_populate [OF empty_cache_inv])
  have pre: "prefix (key_prefix (u ''en'') (u ''harper'')) ?k" by (simp add: sentence_key_def)
  have comp: "compact p canon [(a, r), (b, r')] = [(b, r')]"
    if "prefix p a" "prefix p b" "superseded canon r" "\<not> superseded canon r'" "a \<noteq> b" for p canon a b r r'
    using that by (force simp: compact_def max_incomplete_scan_def Let_def image_iff)
  let ?k2 = "sentence_key demo_tables (u ''en'') (u ''harper'') (u ''Hi the'')"
  let ?r2 = "\<lparr>r_fp = u ''Hi the'', r_canon = u ''Hi the'', r_complete = False, r_errors = []\<rparr>"
  have ne2: "?k \<noteq> ?k2" using ne unfolding f .
  have rows2: "rows (populate demo_tables (u ''en'') (u ''Hi the'') [] (u ''harper'') ?st) = [(?k, ?r), (?k2, ?r2)]"
    using ne2 by (simp only: populate_def [of _ _ "u ''Hi the''"] rows c f Let_def)
      (simp add: move_to_end_def max_cache_size_def)
  have "compact (key_prefix (u ''en'') (u ''harper'')) (u ''Hi the'') [(?k, ?r), (?k2, ?r2)] = [(?k2, ?r2)]"
    by (rule comp [OF pre _ _ _ ne2]) (simp_all add: sentence_key_def superseded_def u_def)
  then have put: "rows (cache_put demo_tables (u ''en'') (u ''Hi the'') [] None None ?st) = [(?k2, ?r2)]"
    by (simp only: cache_put_def in_document_def c f Let_def if_False rows2 simp_thms cache.simps) simp
  have gone: "(?k, ?r) \<notin> set (rows (cache_put demo_tables (u ''en'') (u ''Hi the'') [] None None ?st))"
    unfolding put using ne2 by simp
  have "(?k, ?r) \<in> set (rows ?st)" by (simp add: rows)
  from storing_removes_only [OF inv this ne gone]
  show ?thesis using gone rows by (intro exI [of _ ?st] exI [of _ ?k] exI [of _ ?r]) (simp add: c in_document_def)
qed

text \<open>The results of a document are found under the fingerprint of the sentence alone: what was stored for one
  locale is returned for another one.\<close>

theorem document_ignores_locale:
  assumes "i \<noteq> []" and "loc2 \<noteq> loc1" and "sentence_key T loc2 (resolve_checker T checker) s \<notin> fst ` set (rows st)"
    and "store_ok (doc_of i st)" and "blob_identity (doc_of i st) \<noteq> Some (u ''llm'')" and "resolve_checker T checker \<noteq> u ''llm''"
  shows "fst (cache_get T loc2 s (Some i) checker (cache_put T loc1 s errs (Some i) checker st))
    = Some (clip_errors (length (canonical T s)) errs)"
proof -
  let ?i = "resolve_checker T checker" and ?st = "cache_put T loc1 s errs (Some i) checker st"
  have "sentence_key T loc2 ?i s \<noteq> sentence_key T loc1 ?i s"
    using assms(2) by (simp add: sentence_key_def key_prefix_def)
  then have "row_hit T loc2 s ?i ?st = None"
    using assms(1,3) by (intro no_row_hit other_key_after_put)
  then have "fst (cache_get T loc2 s (Some i) checker ?st)
      = fst (store_get (fingerprint T (canonical T s)) (snd (ensure_identity ?i (doc_of i ?st))))"
    using assms(1) by (rule get_from_document)
  moreover have "ensure_identity ?i (doc_of i ?st) = (None, doc_of i ?st) \<and> blob_identity (doc_of i ?st) = Some ?i
      \<and> session_identity (doc_of i ?st) = Some ?i"
    using assms(1,4-6)
    by (auto simp: doc_after_put store_put_def mark_accessed_def ensure_identity_def store_ok_def Let_def split: option.splits)
  ultimately show ?thesis
    using assms(1,6) by (auto simp: store_get_def) (simp add: doc_after_put store_put_def mark_accessed_def update_conv')
qed

text \<open>Results stored by another checker before a language model adopts the document of an older version are
  returned as results of the language model.\<close>

theorem adoption_mixes_checkers:
  assumes "i \<noteq> []" and "blob_identity (doc_of i st) = Some (u ''llm'')" and "session_identity (doc_of i st) = None"
    and "\<not> prefix (u ''llm:'') c1" and "prefix (u ''llm:'') c2" and "sanitize_identity c1 \<noteq> sanitize_identity c2"
    and "sentence_key T loc c2 s \<notin> fst ` set (rows st)"
  shows "fst (cache_get T loc s (Some i) (Some c2) (cache_put T loc s errs (Some i) (Some c1) st))
    = Some (clip_errors (length (canonical T s)) errs)"
proof -
  let ?st = "cache_put T loc s errs (Some i) (Some c1) st"
  have c: "resolve_checker T (Some c) = c" for c by (simp add: resolve_checker_def)
  have "sentence_key T loc c2 s \<noteq> sentence_key T loc c1 s"
    using assms(6) by (auto simp: sentence_key_def key_prefix_def)
  then have "row_hit T loc s c2 ?st = None"
    using assms(1,7) other_key_after_put [of "sentence_key T loc c2 s" st T loc "Some c1" s i errs] by (intro no_row_hit) (simp add: c)
  then have "fst (cache_get T loc s (Some i) (Some c2) ?st)
      = fst (store_get (fingerprint T (canonical T s)) (snd (ensure_identity c2 (doc_of i ?st))))"
    using get_from_document [of T loc s "Some c2" ?st i] assms(1) by (simp add: c)
  moreover have "blob_identity (doc_of i ?st) = Some (u ''llm'')"
    and e: "map_of (entries (doc_of i ?st)) (fingerprint T (canonical T s)) = Some (clip_errors (length (canonical T s)) errs)"
    using assms(1-4) by (auto simp: doc_after_put c store_put_def mark_accessed_def ensure_identity_def Let_def update_conv')
  then have "snd (ensure_identity c2 (doc_of i ?st)) = (doc_of i ?st)\<lparr>blob_identity := Some c2, session_identity := Some c2\<rparr>"
    using assms(5) by (simp add: ensure_identity_def Let_def)
  moreover have "c2 \<noteq> u ''llm''" using assms(5) by (auto simp: u_def)
  ultimately show ?thesis using e by (simp add: store_get_def)
qed

theorem document_ignores_locale_witness:
  "fst (cache_get demo_tables (u ''en-GB'') (u ''Hi there.'') (Some (u ''doc'')) None
      (cache_put demo_tables (u ''en-US'') (u ''Hi there.'') [] (Some (u ''doc'')) None empty_cache)) = Some []"
  by (subst document_ignores_locale)
    (simp_all add: u_def empty_cache_def doc_of_def empty_store_def store_ok_def resolve_checker_def demo_tables_def)

theorem adoption_mixes_checkers_witness:
  "fst (cache_get demo_tables (u ''en'') (u ''Hi there.'') (Some (u ''doc'')) (Some (u ''llm:m''))
      (cache_put demo_tables (u ''en'') (u ''Hi there.'') [] (Some (u ''doc'')) (Some (u ''harper''))
         \<lparr>rows = [], docs = [(u ''doc'', empty_store\<lparr>blob_identity := Some (u ''llm'')\<rparr>)]\<rparr>)) = Some []"
  by (subst adoption_mixes_checkers)
    (simp_all add: u_def doc_of_def empty_store_def sanitize_identity_def)

end
