(* ===== verification/SentenceSpans.thy ===== *)
theory SentenceSpans
  imports SentenceCache
begin

text \<open>
  How the grammar checker cuts a paragraph into sentences and chooses those to check
  (\<open>writer/locale/grammar_proofread_text.py\<close> and the tests of words and sentences in \<open>grammar_proofread_locale.py\<close>): the
  loop around LibreOffice's break iterator that skips abbreviations, the merging of quoted speech, the active window and
  the threshold for unfinished sentences. The break iterator, which may answer anything, the list of abbreviations and
  Unicode's properties of characters are arguments.
\<close>

subsection \<open>Abbreviations\<close>

record word_tables =
  digit_char :: "nat \<Rightarrow> bool"
  alpha_char :: "nat \<Rightarrow> bool"
  lowered :: "pystr \<Rightarrow> pystr"
  abbreviations :: "pystr set"

definition abbrev_vowels :: "nat list" where
  "abbrev_vowels = [97, 101, 105, 111, 117, 121, 1072, 1077, 1105, 1080, 1086, 1091, 1099, 1101, 1102, 1103,
     945, 949, 951, 953, 959, 965, 969]"

definition strip_dots :: "pystr \<Rightarrow> pystr" where
  "strip_dots s = rev (dropWhile ((=) 46) (rev s))"

definition abbrev_len :: "word_tables \<Rightarrow> pystr \<Rightarrow> nat" where
  "abbrev_len W word =
     (if word = [] then 0
      else if list_all (\<lambda>c. digit_char W c \<or> c \<in> {46, 44, 45}) word \<and> list_ex (digit_char W) word then 1
      else
        let w = strip_dots (lowered W word) in
        if length w = 1 \<and> list_all (alpha_char W) w then length word
        else if w \<in> abbreviations W then length word
        else if 46 \<in> set w \<and> 2 \<le> length (filter (alpha_char W) w) then length word
        else if w \<noteq> [] \<and> list_all (alpha_char W) w \<and> \<not> list_ex (\<lambda>c. c \<in> set abbrev_vowels) w then length word
        else 0)"

subsection \<open>Splitting at sentence ends\<close>

text \<open>\<open>extend_through_trailing_whitespace\<close>.\<close>

definition skip_trailing_space :: "pystr \<Rightarrow> nat \<Rightarrow> nat" where
  "skip_trailing_space par e = e + length (takeWhile is_space (drop e par))"

text \<open>The end of \<open>text[pos:e]\<close> without the characters at its end that satisfy the test.\<close>

definition scan_back :: "(nat \<Rightarrow> bool) \<Rightarrow> pystr \<Rightarrow> nat \<Rightarrow> nat \<Rightarrow> nat" where
  "scan_back P par pos e = pos + length (dropWhile P (rev (slice pos e par)))"

definition word_char :: "nat \<Rightarrow> bool" where
  "word_char c \<longleftrightarrow> \<not> is_space c \<and> c \<notin> {46, 33, 63}"

text \<open>The word in front of the period that ends \<open>text[pos:e]\<close>, when one does.\<close>

definition word_before_period :: "pystr \<Rightarrow> nat \<Rightarrow> nat \<Rightarrow> (nat \<times> pystr) option" where
  "word_before_period par pos e =
     (let b = scan_back is_space par pos e in
      if pos < b \<and> par ! (b - 1) = 46 then Some (b - 1, slice (scan_back word_char par pos (b - 1)) (b - 1) par)
      else None)"

type_synonym breaker = "pystr \<Rightarrow> nat \<Rightarrow> int"

text \<open>The inner loop: from an abbreviation on the break iterator is asked again, and when it does not get further the
  sentence ends with the text.\<close>

function skip_abbreviations :: "word_tables \<Rightarrow> breaker \<Rightarrow> pystr \<Rightarrow> nat \<Rightarrow> nat \<Rightarrow> nat" where
  "skip_abbreviations W eos par pos e =
     (if e < length par then
        (case word_before_period par pos e of
           None \<Rightarrow> e
         | Some (i, word) \<Rightarrow>
             if 0 < abbrev_len W word then
               (let new_end = eos par (skip_trailing_space par (i + 1)) in
                if new_end \<le> int e then length par else skip_abbreviations W eos par pos (nat new_end))
             else e)
      else e)"
  by auto
termination
  by (relation "measure (\<lambda>(W, eos, par, pos, e). length par - e)") auto

declare skip_abbreviations.simps [simp del]

lemma skip_abbreviations_ge: "e \<le> skip_abbreviations W eos par pos e"
  by (induction W eos par pos e rule: skip_abbreviations.induct)
    (subst skip_abbreviations.simps, force simp: Let_def split: option.splits)

lemma skip_trailing_space_ge: "e \<le> skip_trailing_space par e"
  by (simp add: skip_trailing_space_def)

definition sentence_end :: "word_tables \<Rightarrow> breaker \<Rightarrow> pystr \<Rightarrow> nat \<Rightarrow> nat" where
  "sentence_end W eos par pos =
     (let e = (if eos par pos \<le> int pos then length par else nat (eos par pos))
      in skip_trailing_space par (skip_abbreviations W eos par pos e))"

lemma sentence_end_gt: "pos < length par \<Longrightarrow> pos < sentence_end W eos par pos"
  unfolding sentence_end_def Let_def
  by (rule less_le_trans [OF _ order_trans [OF skip_abbreviations_ge skip_trailing_space_ge]]) auto

function sentences_from :: "word_tables \<Rightarrow> breaker \<Rightarrow> pystr \<Rightarrow> nat \<Rightarrow> (nat \<times> pystr) list" where
  "sentences_from W eos par pos =
     (if pos < length par
      then (pos, slice pos (sentence_end W eos par pos) par) # sentences_from W eos par (sentence_end W eos par pos)
      else [])"
  by auto
termination
  by (relation "measure (\<lambda>(W, eos, par, pos). length par - pos)") (simp_all add: sentence_end_gt diff_less_mono2)

declare sentences_from.simps [simp del]

text \<open>Thai, Lao and Khmer: a chunk is what stands between runs of white space, with the run behind it. Spaces at the
  beginning belong to no chunk.\<close>

definition whitespace_locale :: "pystr \<Rightarrow> bool" where
  "whitespace_locale loc \<longleftrightarrow> list_ex (\<lambda>l. prefix (u l) loc) [''th'', ''lo'', ''km'']"

function chunks_from :: "nat \<Rightarrow> pystr \<Rightarrow> (nat \<times> pystr) list" where
  "chunks_from p s =
     (if s = [] then []
      else let seg = takeWhile (\<lambda>c. \<not> is_space c) s; r = dropWhile (\<lambda>c. \<not> is_space c) s; ws = takeWhile is_space r
           in (if seg = [] then [] else [(p, seg @ ws)]) @ chunks_from (p + length seg + length ws) (dropWhile is_space r))"
  by auto
termination
proof (relation "measure (\<lambda>(p, s). length s)")
  fix p s seg r ws
  assume "s \<noteq> []" and r: "r = dropWhile (\<lambda>c. \<not> is_space c) (s :: pystr)"
  have "length (dropWhile is_space r) < length s"
  proof (cases s)
    case (Cons c cs)
    then show ?thesis
      using length_dropWhile_le [of is_space r] length_dropWhile_le [of "\<lambda>c. \<not> is_space c" cs] length_dropWhile_le [of is_space cs]
      by (cases "is_space c") (simp_all add: r)
  qed (use \<open>s \<noteq> []\<close> in simp)
  then show "((p + length seg + length ws, dropWhile is_space r), (p, s)) \<in> measure (\<lambda>(p, s). length s)" by simp
qed simp

declare chunks_from.simps [simp del]

lemma chunks_from_Nil [simp]: "chunks_from p [] = []"
  by (subst chunks_from.simps) simp

definition split_into_sentences :: "word_tables \<Rightarrow> breaker \<Rightarrow> pystr \<Rightarrow> pystr \<Rightarrow> (nat \<times> pystr) list" where
  "split_into_sentences W eos loc par =
     (if strip par = [] then []
      else let ss = (if whitespace_locale loc then chunks_from 0 par else sentences_from W eos par 0)
           in if ss = [] then [(0, par)] else ss)"

subsection \<open>Quoted speech\<close>

definition dialogue_quotes :: "nat set" where
  "dialogue_quotes = {34, 0x201C, 0x201D, 0x201E, 0xAB, 0xBB, 0x300C, 0x300D, 0x300E, 0x300F}"

definition count_quotes :: "pystr \<Rightarrow> nat" where
  "count_quotes s = length (filter (\<lambda>c. c \<in> dialogue_quotes) s)"

definition max_merge_chars :: nat where
  "max_merge_chars = 1000"

definition max_merges :: nat where
  "max_merges = 4"

fun merge_from :: "nat \<Rightarrow> nat \<times> pystr \<Rightarrow> (nat \<times> pystr) list \<Rightarrow> (nat \<times> pystr) list" where
  "merge_from n cur [] = [cur]"
| "merge_from n cur (next # rest) =
     (if odd (count_quotes (snd cur)) \<and> length (snd cur) + length (snd next) \<le> max_merge_chars \<and> n < max_merges
      then merge_from (Suc n) (fst cur, snd cur @ snd next) rest
      else cur # merge_from 0 next rest)"

definition merge_dialogue :: "(nat \<times> pystr) list \<Rightarrow> (nat \<times> pystr) list" where
  "merge_dialogue ss = (case ss of [] \<Rightarrow> [] | x # xs \<Rightarrow> merge_from 0 x xs)"

subsection \<open>The sentences to check\<close>

type_synonym span = "nat \<times> nat \<times> pystr"

definition span_overlaps :: "int \<Rightarrow> int \<Rightarrow> int \<Rightarrow> int \<Rightarrow> bool" where
  "span_overlaps s e lo hi \<longleftrightarrow> lo < hi \<and> s < e \<and> s < hi \<and> lo < e"

definition overlapping :: "span list \<Rightarrow> int \<Rightarrow> int \<Rightarrow> nat \<Rightarrow> span list" where
  "overlapping spans n_start n_end nlen =
     (let lo = max 0 (min n_start (int nlen)); hi = max lo (min n_end (int nlen))
      in filter (\<lambda>(s, e, t). span_overlaps (int s) (int e) lo hi) spans)"

definition active_spans :: "span list \<Rightarrow> pystr \<Rightarrow> int \<Rightarrow> int \<Rightarrow> span list" where
  "active_spans spans par n_start n_end = (if n_start = 0 then spans else overlapping spans n_start n_end (length par))"

definition candidate_spans :: "word_tables \<Rightarrow> breaker \<Rightarrow> pystr \<Rightarrow> pystr \<Rightarrow> int \<Rightarrow> int \<Rightarrow> span list" where
  "candidate_spans W eos loc par n_start n_end =
     (case split_into_sentences W eos loc par of
        [] \<Rightarrow> []
      | x # xs \<Rightarrow>
          let spans = map (\<lambda>(i, t). (i, i + length t, t)) (merge_dialogue (x # xs))
          in if n_start = 0 then spans else overlapping spans n_start n_end (length par))"

definition partial_min_nonspace :: nat where
  "partial_min_nonspace = 15"

definition count_nonspace :: "pystr \<Rightarrow> nat" where
  "count_nonspace s = length (filter (\<lambda>c. \<not> is_space c) s)"

definition worth_checking :: "grammar_tables \<Rightarrow> pystr \<Rightarrow> bool" where
  "worth_checking T s \<longleftrightarrow> looks_complete T s \<or> partial_min_nonspace \<le> count_nonspace s"

definition above_threshold :: "grammar_tables \<Rightarrow> span list \<Rightarrow> span list" where
  "above_threshold T spans = filter (\<lambda>(s, e, t). worth_checking T t) spans"

definition covered_span_end :: "span list \<Rightarrow> nat" where
  "covered_span_end spans = fold (\<lambda>(s, e, t) m. max e m) spans 0"

definition need_enqueuing :: "span list \<Rightarrow> span list \<Rightarrow> span list" where
  "need_enqueuing active uncached = filter (\<lambda>(s, e, t). s \<in> set (map fst uncached)) active"

subsection \<open>The sentences tile the paragraph\<close>

fun tiles :: "nat \<Rightarrow> (nat \<times> pystr) list \<Rightarrow> bool" where
  "tiles p [] \<longleftrightarrow> True"
| "tiles p ((i, t) # ss) \<longleftrightarrow> i = p \<and> t \<noteq> [] \<and> tiles (p + length t) ss"

lemma sentences_tile:
  "tiles p (sentences_from W eos par p) \<and> concat (map snd (sentences_from W eos par p)) = drop p par"
proof (induction W eos par p rule: sentences_from.induct)
  case (1 W eos par pos)
  show ?case
  proof (cases "pos < length par")
    case True
    let ?e = "sentence_end W eos par pos"
    have e: "pos < ?e" by (rule sentence_end_gt [OF True])
    have "slice pos ?e par @ drop ?e par = drop pos par" by (rule slice_to_end) (use e in simp)
    moreover have "length (slice pos ?e par) = min ?e (length par) - pos" using e by (simp add: slice_def)
    moreover have "tiles q (sentences_from W eos par ?e)" if "q = min ?e (length par)" for q
      using 1 [OF True] that sentences_from.simps [of W eos par ?e] by (cases "?e < length par") (auto simp: min_def)
    ultimately show ?thesis
      using 1 [OF True] True e by (subst (1 2) sentences_from.simps) (auto simp: slice_def)
  qed (simp add: sentences_from.simps)
qed

lemma chunks_tile:
  "\<not> is_space (hd s) \<Longrightarrow> tiles p (chunks_from p s) \<and> concat (map snd (chunks_from p s)) = s"
proof (induction p s rule: chunks_from.induct)
  case (1 p s)
  show ?case
  proof (cases "s = []")
    case False
    let ?seg = "takeWhile (\<lambda>c. \<not> is_space c) s" and ?r = "dropWhile (\<lambda>c. \<not> is_space c) s"
    have seg: "?seg \<noteq> []" using 1(2) False by (cases s) auto
    have "tiles q (chunks_from q (dropWhile is_space ?r)) \<and> concat (map snd (chunks_from q (dropWhile is_space ?r))) = dropWhile is_space ?r"
      if "q = p + length ?seg + length (takeWhile is_space ?r)" for q
    proof (cases "dropWhile is_space ?r = []")
      case True
      show ?thesis by (simp only: True chunks_from_Nil tiles.simps list.map concat.simps)
    next
      case rest: False
      show ?thesis using 1(1) [OF False refl refl refl] that hd_dropWhile [OF rest] by simp
    qed
    then show ?thesis using False seg by (subst (1 2) chunks_from.simps) (simp add: Let_def add.assoc)
  qed simp
qed

lemma chunks_skip: "chunks_from p s = chunks_from (p + length (takeWhile is_space s)) (dropWhile is_space s)"
proof (cases "s \<noteq> [] \<and> is_space (hd s)")
  case True
  then have "takeWhile (\<lambda>c. \<not> is_space c) s = []" "dropWhile (\<lambda>c. \<not> is_space c) s = s" by (cases s; simp)+
  then show ?thesis using True by (subst chunks_from.simps) simp
next
  case False
  then show ?thesis by (cases s) simp_all
qed

text \<open>A merged sentence: consecutive pieces, at most five of them and at most a thousand characters, where every
  shorter beginning leaves a quotation open.\<close>

definition joined_speech :: "(nat \<times> pystr) list \<Rightarrow> nat \<times> pystr" where
  "joined_speech g = (fst (hd g), concat (map snd g))"

definition speech :: "(nat \<times> pystr) list \<Rightarrow> bool" where
  "speech g \<longleftrightarrow> g \<noteq> [] \<and> length g \<le> Suc max_merges
     \<and> (length g = 1 \<or> length (snd (joined_speech g)) \<le> max_merge_chars)
     \<and> (\<forall>k \<in> {1..<length g}. odd (count_quotes (snd (joined_speech (take k g)))))"

lemma speech_extend:
  assumes "speech g" "odd (count_quotes (snd (joined_speech g)))" "length (snd (joined_speech g)) + length (snd x) \<le> max_merge_chars"
    "length g \<le> max_merges"
  shows "speech (g @ [x])"
proof -
  have "odd (count_quotes (snd (joined_speech (take k (g @ [x])))))" if "k \<in> {1..<length (g @ [x])}" for k
    using assms(1,2) that by (cases "k = length g") (auto simp: speech_def)
  then show ?thesis using assms by (auto simp: speech_def joined_speech_def)
qed

lemma merge_groups:
  "speech g \<Longrightarrow> length g = Suc n \<Longrightarrow>
     \<exists>gs. merge_from n (joined_speech g) ss = map joined_speech gs \<and> concat gs = g @ ss \<and> (\<forall>h \<in> set gs. speech h)"
proof (induction ss arbitrary: g n)
  case Nil
  then show ?case by (intro exI [of _ "[g]"]) simp
next
  case (Cons x ss)
  show ?case
  proof (cases "odd (count_quotes (snd (joined_speech g))) \<and> length (snd (joined_speech g)) + length (snd x) \<le> max_merge_chars \<and> n < max_merges")
    case True
    have "joined_speech (g @ [x]) = (fst (joined_speech g), snd (joined_speech g) @ snd x)"
      using Cons.prems(1) by (cases g) (simp_all add: joined_speech_def speech_def)
    moreover have "speech (g @ [x])" using speech_extend [OF Cons.prems(1)] True Cons.prems(2) by simp
    ultimately show ?thesis using Cons.IH [of "g @ [x]" "Suc n"] True Cons.prems(2) by simp
  next
    case False
    have "speech [x]" "joined_speech [x] = x" by (simp_all add: speech_def joined_speech_def)
    then obtain gs where "merge_from 0 x ss = map joined_speech gs" "concat gs = x # ss" "\<forall>h \<in> set gs. speech h"
      using Cons.IH [of "[x]" 0] by auto
    then show ?thesis using False Cons.prems(1) by (intro exI [of _ "g # gs"]) auto
  qed
qed

lemma merge_dialogue_groups:
  "\<exists>gs. merge_dialogue ss = map joined_speech gs \<and> concat gs = ss \<and> (\<forall>h \<in> set gs. speech h)"
proof (cases ss)
  case (Cons x xs)
  have "speech [x]" "joined_speech [x] = x" by (simp_all add: speech_def joined_speech_def)
  then show ?thesis using merge_groups [of "[x]" 0 xs] Cons by (simp add: merge_dialogue_def)
qed (simp add: merge_dialogue_def)

lemma tiles_append: "tiles p (xs @ ys) \<longleftrightarrow> tiles p xs \<and> tiles (p + length (concat (map snd xs))) ys"
  by (induction xs arbitrary: p) (auto simp: add.assoc)

lemma tiles_joined:
  "tiles p (concat gs) \<Longrightarrow> \<forall>g \<in> set gs. speech g \<Longrightarrow> tiles p (map joined_speech gs)"
proof (induction gs arbitrary: p)
  case (Cons g gs)
  obtain x xs where g: "g = x # xs" using Cons.prems(2) by (cases g) (auto simp: speech_def)
  show ?case using Cons by (cases x) (auto simp: g tiles_append joined_speech_def add.assoc)
qed simp

lemma merge_tiles:
  "tiles p ss \<Longrightarrow> tiles p (merge_dialogue ss) \<and> concat (map snd (merge_dialogue ss)) = concat (map snd ss)"
proof -
  assume t: "tiles p ss"
  obtain gs where gs: "merge_dialogue ss = map joined_speech gs" "concat gs = ss" "\<forall>h \<in> set gs. speech h"
    using merge_dialogue_groups by blast
  have "concat (map snd (map joined_speech gs)) = concat (map snd (concat gs))"
    by (induction gs) (simp_all add: joined_speech_def)
  with gs t tiles_joined [of p gs] show ?thesis by simp
qed

text \<open>The part of the paragraph that the sentences cover.\<close>

definition first_sentence :: "pystr \<Rightarrow> pystr \<Rightarrow> nat" where
  "first_sentence loc par = (if whitespace_locale loc then length (takeWhile is_space par) else 0)"

lemma strip_empty: "strip s = [] \<longleftrightarrow> list_all is_space s"
proof -
  have "strip s = [] \<longleftrightarrow> (\<forall>x \<in> set (dropWhile is_space s). is_space x)"
    by (simp add: strip_def lstrip_def rstrip_def dropWhile_eq_Nil_conv)
  also have "\<dots> \<longleftrightarrow> dropWhile is_space s = []"
    using hd_dropWhile [of is_space s] hd_in_set [of "dropWhile is_space s"] by (metis empty_iff list.set(1))
  finally show ?thesis by (simp add: list_all_iff dropWhile_eq_Nil_conv)
qed

lemma split_tiles:
  assumes "strip par \<noteq> []"
  shows "tiles (first_sentence loc par) (split_into_sentences W eos loc par)
    \<and> concat (map snd (split_into_sentences W eos loc par)) = drop (first_sentence loc par) par"
proof (cases "whitespace_locale loc")
  case True
  let ?s = "dropWhile is_space par" and ?p = "length (takeWhile is_space par)"
  have "?s \<noteq> []" using assms by (auto simp: strip_empty list_all_iff dropWhile_eq_Nil_conv)
  moreover have "chunks_from 0 par = chunks_from ?p ?s" using chunks_skip [of 0 par] by simp
  ultimately have t: "tiles ?p (chunks_from 0 par)" and c: "concat (map snd (chunks_from 0 par)) = ?s"
    using chunks_tile [of ?s ?p] hd_dropWhile [of is_space par] by simp_all
  moreover have "chunks_from 0 par \<noteq> []"
    using c \<open>?s \<noteq> []\<close> by (metis concat.simps(1) list.simps(8))
  moreover have "drop ?p par = ?s" by (metis dropWhile_eq_drop)
  ultimately show ?thesis using True assms by (simp add: split_into_sentences_def first_sentence_def)
next
  case False
  then show ?thesis
    using sentences_tile [of 0 W eos par] assms by (auto simp: split_into_sentences_def first_sentence_def Let_def strip_def lstrip_def rstrip_def)
qed

lemma tiles_spans:
  assumes "tiles p ss" "concat (map snd ss) = drop p par" "(i, t) \<in> set ss"
  shows "p \<le> i \<and> i + length t \<le> length par \<and> t \<noteq> [] \<and> t = slice i (i + length t) par"
  using assms
proof (induction ss arbitrary: p)
  case (Cons x ss)
  obtain q s where x: "x = (q, s)" by (cases x)
  have q: "q = p" "s \<noteq> []" "tiles (p + length s) ss" "drop p par = s @ concat (map snd ss)" using Cons.prems by (auto simp: x)
  have d: "drop (p + length s) par = drop (length s) (drop p par)" by (simp add: add.commute)
  have len: "length par - p = length s + length (concat (map snd ss))" using arg_cong [OF q(4), of length] by simp
  have tail: "concat (map snd ss) = drop (p + length s) par" using q(4) d by simp
  show ?case
  proof (cases "(i, t) = x")
    case True
    then have "i = p" "t = s" by (simp_all add: x q(1))
    moreover have "0 < length s" using q(2) by simp
    then have "p + length s \<le> length par" using len by linarith
    moreover have "s = slice p (p + length s) par" by (simp add: slice_def q(4))
    ultimately show ?thesis using len q(2) by simp
  next
    case False
    then show ?thesis using Cons.IH [OF q(3) tail] Cons.prems(3) by simp
  qed
qed simp

lemma tiles_cover:
  assumes "tiles p ss" "concat (map snd ss) = drop p par" "p \<le> x" "x < length par"
  shows "\<exists>(i, t) \<in> set ss. i \<le> x \<and> x < i + length t"
  using assms
proof (induction ss arbitrary: p)
  case (Cons y ss)
  obtain q s where y: "y = (q, s)" by (cases y)
  have q: "q = p" "tiles (p + length s) ss" "drop p par = s @ concat (map snd ss)" using Cons.prems by (auto simp: y)
  have "drop (p + length s) par = drop (length s) (drop p par)" by (simp add: add.commute)
  then have "concat (map snd ss) = drop (p + length s) par" using q(3) by simp
  from Cons.IH [OF q(2) this] show ?case using Cons.prems(3,4) by (cases "x < p + length s") (auto simp: y q(1))
qed simp

lemma merge_dialogue_Nil [simp]: "merge_dialogue [] = []"
  by (simp add: merge_dialogue_def)

lemma candidates:
  "candidate_spans W eos loc par 0 n = map (\<lambda>(i, t). (i, i + length t, t)) (merge_dialogue (split_into_sentences W eos loc par))"
  by (auto simp: candidate_spans_def split: list.splits)

lemma merged_tiles:
  assumes "strip par \<noteq> []"
  shows "tiles (first_sentence loc par) (merge_dialogue (split_into_sentences W eos loc par))"
    and "concat (map snd (merge_dialogue (split_into_sentences W eos loc par))) = drop (first_sentence loc par) par"
  using split_tiles [OF assms] merge_tiles by metis+

subsection \<open>Properties\<close>

text \<open>C27: Whatever the break iterator answers, the sentences of a paragraph are found after finitely many of its
  answers and tile the paragraph: each stands at its offsets, the first begins at the start of the paragraph (behind
  the white space there for Thai, Lao and Khmer), each begins where the one before it ends, and the last ends with the
  paragraph.\<close>

theorem sentences_tile_paragraph:
  assumes "strip par \<noteq> []"
  shows "tiles (first_sentence loc par) (map (\<lambda>(s, e, t). (s, t)) (candidate_spans W eos loc par 0 n))
    \<and> concat (map (\<lambda>(s, e, t). t) (candidate_spans W eos loc par 0 n)) = drop (first_sentence loc par) par
    \<and> (\<forall>(s, e, t) \<in> set (candidate_spans W eos loc par 0 n). s < e \<and> e \<le> length par \<and> t = slice s e par)"
proof -
  let ?ss = "merge_dialogue (split_into_sentences W eos loc par)"
  have "map ((\<lambda>(s, e, t). (s, t)) \<circ> (\<lambda>(i, t). (i, i + length t, t))) ss = ss"
    "map ((\<lambda>(s, e, t). t) \<circ> (\<lambda>(i, t). (i, i + length t, t))) ss = map snd ss" for ss :: "(nat \<times> pystr) list"
    by (induction ss) auto
  moreover have "s < e \<and> e \<le> length par \<and> t = slice s e par" if "(s, e, t) \<in> set (candidate_spans W eos loc par 0 n)" for s e t
    using that tiles_spans [OF merged_tiles [OF assms, where loc = loc and W = W and eos = eos], of s t] by (auto simp: candidates)
  ultimately show ?thesis
    using merged_tiles [OF assms, where loc = loc and W = W and eos = eos] by (auto simp only: candidates list.map_comp)
qed

text \<open>C28: Nothing in the range LibreOffice asks about escapes the checker: every character there belongs to a sentence
  that is checked, or to an unfinished one with fewer than fifteen characters.\<close>

theorem window_is_checked:
  assumes "strip par \<noteq> []" and "n_start = 0 \<or> n_start \<le> int x \<and> int x < n_end" and "first_sentence loc par \<le> x" "x < length par"
  shows "\<exists>s t. s \<le> x \<and> x < s + length t \<and> t = slice s (s + length t) par
    \<and> ((s, s + length t, t) \<in> set (active_spans (above_threshold T (candidate_spans W eos loc par 0 (int (length par)))) par n_start n_end)
       \<or> \<not> looks_complete T t \<and> count_nonspace t < partial_min_nonspace)"
proof -
  obtain s t where st: "(s, t) \<in> set (merge_dialogue (split_into_sentences W eos loc par))" "s \<le> x" "x < s + length t"
    using tiles_cover [OF merged_tiles [OF assms(1)] assms(3,4)] by blast
  have sl: "t = slice s (s + length t) par" using tiles_spans [OF merged_tiles [OF assms(1)] st(1)] by blast
  have "(s, s + length t, t) \<in> set (candidate_spans W eos loc par 0 (int (length par)))"
    using st(1) by (force simp: candidates)
  moreover have "n_start \<noteq> 0 \<Longrightarrow> span_overlaps (int s) (int (s + length t)) (max 0 (min n_start (int (length par))))
      (max (max 0 (min n_start (int (length par)))) (min n_end (int (length par))))"
    using assms(2,4) st(2,3) by (auto simp: span_overlaps_def)
  ultimately show ?thesis
    using st sl by (auto simp: active_spans_def overlapping_def above_threshold_def worth_checking_def Let_def intro!: exI [of _ s] exI [of _ t])
qed

text \<open>Merging quoted speech only joins consecutive pieces, at most five into one of at most a thousand characters,
  and goes on only while a quotation is open.\<close>

theorem speech_merged:
  "\<exists>gs. merge_dialogue ss = map joined_speech gs \<and> concat gs = ss
     \<and> list_all (\<lambda>g. g \<noteq> [] \<and> length g \<le> 5 \<and> (length g = 1 \<or> length (snd (joined_speech g)) \<le> 1000)
         \<and> list_all (\<lambda>k. odd (count_quotes (snd (joined_speech (take k g))))) [1..<length g]) gs"
proof -
  obtain gs where "merge_dialogue ss = map joined_speech gs" "concat gs = ss" "\<forall>g \<in> set gs. speech g"
    using merge_dialogue_groups by blast
  then show ?thesis
    by (intro exI [of _ gs]) (simp add: list_all_iff speech_def max_merges_def max_merge_chars_def)
qed

subsection \<open>Scripts without listed vowels\<close>

lemma slice_scan_back:
  "i \<le> length s \<Longrightarrow> slice (scan_back P s 0 i) i s = rev (takeWhile P (rev (take i s)))"
proof -
  assume "i \<le> length s"
  have "take i s = rev (dropWhile P (rev (take i s))) @ rev (takeWhile P (rev (take i s)))"
    by (metis rev_append rev_rev_ident takeWhile_dropWhile_id)
  moreover from arg_cong [OF this, of length] \<open>i \<le> length s\<close>
  have "length (rev (takeWhile P (rev (take i s)))) = i - length (dropWhile P (rev (take i s)))" by simp
  ultimately show ?thesis
    by (simp add: scan_back_def slice_def drop_take [symmetric])
      (metis append_eq_conv_conj length_rev)
qed

lemma period_found:
  assumes "i < e" "e \<le> length par" "par ! i = 46" "\<forall>j \<in> {i<..<e}. is_space (par ! j)"
  shows "word_before_period par 0 e = Some (i, rev (takeWhile word_char (rev (take i par))))"
proof -
  have "rev (slice 0 e par) = rev (drop (Suc i) (take e par)) @ 46 # rev (take i par)"
    using assms(1-3) arg_cong [OF id_take_nth_drop [of i "take e par"], of rev] by (simp add: slice_def min_absorb1)
  moreover have "\<forall>c \<in> set (drop (Suc i) (take e par)). is_space c"
    using assms by (auto simp: in_set_conv_nth)
  moreover have "\<not> is_space 46" by (simp add: is_space_def)
  ultimately have "dropWhile is_space (rev (slice 0 e par)) = 46 # rev (take i par)"
    by (simp add: dropWhile_append)
  then have "scan_back is_space par 0 e = Suc i" using assms(1,2) by (simp add: scan_back_def)
  then show ?thesis using assms(1-3) slice_scan_back [of i par word_char] by (simp add: word_before_period_def)
qed

text \<open>Letters of a script whose vowels are not listed.\<close>

definition unlisted_letter :: "word_tables \<Rightarrow> nat \<Rightarrow> bool" where
  "unlisted_letter W c \<longleftrightarrow> word_char c \<and> alpha_char W c \<and> c \<notin> set abbrev_vowels"

lemma unlisted_word:
  assumes "word \<noteq> []" "list_all (unlisted_letter W) word" "lowered W word = word"
  shows "0 < abbrev_len W word"
proof -
  have "46 \<notin> set word" using assms(2) by (auto simp: list_all_iff unlisted_letter_def word_char_def)
  then have "dropWhile ((=) 46) (rev word) = rev word"
    by (cases "rev word") (auto simp: rev_eq_Cons_iff)
  then have "strip_dots word = word" by (simp add: strip_dots_def)
  then show ?thesis
    using assms by (auto simp: abbrev_len_def Let_def list_all_iff list_ex_iff unlisted_letter_def)
qed

text \<open>In a paragraph of such letters no period ends a sentence: every word is taken for an abbreviation without vowels,
  so however the break iterator cuts at the periods, the paragraph is one sentence.\<close>

theorem unlisted_letters_never_end_sentence:
  assumes "\<not> whitespace_locale loc" "strip par \<noteq> []"
    and letters: "\<forall>c \<in> set par. is_space c \<or> c = 46 \<or> unlisted_letter W c"
    and caseless: "\<And>w. set w \<subseteq> set par \<Longrightarrow> lowered W w = w"
    and periods: "\<And>i. i < length par \<Longrightarrow> par ! i = 46 \<Longrightarrow> 0 < i \<and> unlisted_letter W (par ! (i - 1))"
    and breaks: "\<And>p e. eos par p = int e \<Longrightarrow> 0 < e \<Longrightarrow> e < length par \<Longrightarrow>
        \<exists>i < e. par ! i = 46 \<and> (\<forall>j \<in> {i<..<e}. is_space (par ! j))"
  shows "split_into_sentences W eos loc par = [(0, par)]"
proof -
  have go: "length par \<le> skip_abbreviations W eos par 0 e"
    if "e < length par \<Longrightarrow> \<exists>i < e. par ! i = 46 \<and> (\<forall>j \<in> {i<..<e}. is_space (par ! j))" for e
    using that
  proof (induction "length par - e" arbitrary: e rule: less_induct)
    case less
    show ?case
    proof (cases "e < length par")
      case True
      then obtain i where i: "i < e" "par ! i = 46" "\<forall>j \<in> {i<..<e}. is_space (par ! j)" using less.prems by blast
      let ?word = "rev (takeWhile word_char (rev (take i par)))" and ?n = "eos par (skip_trailing_space par (i + 1))"
      have "i - 1 < i" "i \<le> length par" "unlisted_letter W (par ! (i - 1))" using periods [of i] i True by auto
      moreover from this have "take i par = take (i - 1) par @ [par ! (i - 1)]"
        using take_Suc_conv_app_nth [of "i - 1" par] by simp
      ultimately have "?word \<noteq> []" by (simp add: unlisted_letter_def)
      moreover have sub: "set ?word \<subseteq> set par" by (auto dest!: set_takeWhileD in_set_takeD)
      moreover have "list_all (unlisted_letter W) ?word"
        using letters by (auto simp: list_all_iff word_char_def dest!: set_takeWhileD in_set_takeD)
      ultimately have abbrev: "0 < abbrev_len W ?word" by (intro unlisted_word caseless)
      have "length par \<le> skip_abbreviations W eos par 0 (nat ?n)" if "int e < ?n"
      proof (rule less.hyps)
        show "length par - nat ?n < length par - e" using that True by linarith
        assume "nat ?n < length par"
        then show "\<exists>i' < nat ?n. par ! i' = 46 \<and> (\<forall>j \<in> {i'<..<nat ?n}. is_space (par ! j))"
          using breaks [of "skip_trailing_space par (i + 1)" "nat ?n"] that by simp
      qed
      then show ?thesis
        using True abbrev period_found [OF i(1) _ i(2,3)] by (subst skip_abbreviations.simps) (simp add: Let_def)
    qed (simp add: skip_abbreviations.simps)
  qed
  have "0 < length par" using assms(2) by auto
  define e where "e = (if eos par 0 \<le> int 0 then length par else nat (eos par 0))"
  have "length par \<le> skip_abbreviations W eos par 0 e"
    by (rule go) (use breaks [of 0 e] in \<open>auto simp: e_def split: if_splits\<close>)
  then have "length par \<le> sentence_end W eos par 0"
    unfolding sentence_end_def Let_def e_def using skip_trailing_space_ge order_trans by blast
  then have "sentences_from W eos par 0 = [(0, par)]"
    using \<open>0 < length par\<close> by (simp add: sentences_from.simps slice_drop)
  then show ?thesis using assms(1,2) by (simp add: split_into_sentences_def)
qed

subsection \<open>The witnesses\<close>

definition latin_tables :: word_tables where
  "latin_tables = \<lparr>digit_char = is_digit, alpha_char = (\<lambda>c. is_lower c \<or> is_upper c), lowered = lower, abbreviations = {}\<rparr>"

text \<open>A break iterator that ends sentences behind every period and its spaces.\<close>

definition period_breaker :: breaker where
  "period_breaker par p =
     (let q = p + length (takeWhile ((\<noteq>) 46) (drop p par)) + 1 in int (min (length par) (skip_trailing_space par q)))"

definition two_sentences :: pystr where
  "two_sentences = u ''Dr. Who is in. Go''"

definition plain_tables :: grammar_tables where
  "plain_tables = \<lparr>terminators = {46}, closers = {34}, fingerprint = (\<lambda>s. s), current_checker = u ''llm:m''\<rparr>"

lemmas evaluate_spans = candidate_spans_def split_into_sentences_def sentence_end_def word_before_period_def scan_back_def
  slice_def skip_trailing_space_def period_breaker_def latin_tables_def abbrev_len_def strip_dots_def lower_def is_digit_def is_upper_def
  is_lower_def is_space_def word_char_def abbrev_vowels_def two_sentences_def u_def whitespace_locale_def merge_dialogue_def
  count_quotes_def dialogue_quotes_def first_sentence_def

lemma two_sentences_spans:
  "candidate_spans latin_tables period_breaker (u ''en-US'') two_sentences 0 n
     = [(0, 15, u ''Dr. Who is in. ''), (15, 17, u ''Go'')]"
  by (simp add: evaluate_spans sentences_from.simps skip_abbreviations.simps strip_def lstrip_def rstrip_def)

lemma two_sentences_facts:
  "strip two_sentences \<noteq> []" "first_sentence (u ''en-US'') two_sentences = 0" "length two_sentences = 17"
  by (simp_all add: evaluate_spans strip_def lstrip_def rstrip_def)

theorem sentences_tile_paragraph_witness:
  "tiles 0 [(0, u ''Dr. Who is in. ''), (15, u ''Go'')] \<and> u ''Dr. Who is in. '' @ u ''Go'' = two_sentences
     \<and> slice 0 15 two_sentences = u ''Dr. Who is in. '' \<and> slice 15 17 two_sentences = u ''Go''"
  using sentences_tile_paragraph [OF two_sentences_facts(1), of "u ''en-US''" latin_tables period_breaker 0]
  by (auto simp: two_sentences_spans two_sentences_facts simp del: tiles.simps)

theorem window_is_checked_witness:
  "\<exists>s t. s \<le> 5 \<and> 5 < s + length t \<and> t = slice s (s + length t) two_sentences
     \<and> ((s, s + length t, t) \<in> set (active_spans (above_threshold plain_tables
           (candidate_spans latin_tables period_breaker (u ''en-US'') two_sentences 0 17)) two_sentences 4 10)
        \<or> \<not> looks_complete plain_tables t \<and> count_nonspace t < partial_min_nonspace)"
  using window_is_checked [OF two_sentences_facts(1), of 4 5 10 "u ''en-US''" plain_tables latin_tables period_breaker]
  by (simp add: two_sentences_facts)

text \<open>Two Korean sentences.\<close>

definition hangul_tables :: word_tables where
  "hangul_tables = latin_tables\<lparr>alpha_char := (\<lambda>c. 0xAC00 \<le> c \<and> c \<le> 0xD7A3)\<rparr>"

definition korean :: pystr where
  "korean = [0xC624, 0xB2E4, 46, 32, 0xAC00, 0xB2E4, 46]"

theorem unlisted_letters_never_end_sentence_witness:
  "split_into_sentences hangul_tables period_breaker (u ''ko-KR'') korean = [(0, korean)]"
proof (rule unlisted_letters_never_end_sentence)
  show "\<not> whitespace_locale (u ''ko-KR'')" by (simp add: whitespace_locale_def u_def)
  show "strip korean \<noteq> []" by (simp add: korean_def strip_def lstrip_def rstrip_def is_space_def)
  show "\<forall>c \<in> set korean. is_space c \<or> c = 46 \<or> unlisted_letter hangul_tables c"
    by (simp add: korean_def unlisted_letter_def word_char_def is_space_def hangul_tables_def abbrev_vowels_def)
  show "lowered hangul_tables w = w" if "set w \<subseteq> set korean" for w
    using that by (induction w) (auto simp: hangul_tables_def latin_tables_def lower_def is_upper_def korean_def)
  show "0 < i \<and> unlisted_letter hangul_tables (korean ! (i - 1))" if "i < length korean" "korean ! i = 46" for i
    using that by (auto simp: korean_def less_Suc_eq unlisted_letter_def word_char_def is_space_def hangul_tables_def abbrev_vowels_def)
  fix p e
  assume e: "period_breaker korean p = int e" "0 < e" "e < length korean"
  have "e = 4"
  proof (cases "p < 7")
    case True
    then have "p \<in> {0, 1, 2, 3, 4, 5, 6}" by auto
    then have "period_breaker korean p \<in> {4, 7}"
      by (elim insertE) (simp_all add: period_breaker_def skip_trailing_space_def korean_def is_space_def)
    then show ?thesis using e(1,3) by (auto simp: korean_def)
  next
    case False
    then show ?thesis using e(1,3) by (simp add: period_breaker_def skip_trailing_space_def korean_def)
  qed
  moreover have "{2<..<4 :: nat} = {3}" by auto
  ultimately show "\<exists>i < e. korean ! i = 46 \<and> (\<forall>j \<in> {i<..<e}. is_space (korean ! j))"
    by (intro exI [of _ 2]) (simp add: korean_def is_space_def)
qed

end
