(* ===== verification/ProofErrors.thy ===== *)
theory ProofErrors
  imports SentenceSpans
begin

text \<open>
  From the answers of a checker to the marks in the text (\<open>normalize_errors_for_text\<close> of
  \<open>writer/locale/grammar_proofread_text.py\<close>): where a quoted error stands, how far a correction that repeats its
  neighbours is widened, and which marks are dropped because they overlap. The word boundaries of LibreOffice and the
  translated hints are arguments.
\<close>

subsection \<open>What a checker answers\<close>

text \<open>\<open>n_error_start\<close> and \<open>n_error_length\<close> are \<open>None\<close> unless the item has an integer there.\<close>

record raw_error =
  wrong :: pystr
  correct :: pystr
  native_start :: "int option"
  native_length :: "int option"
  raw_suggestions :: "pystr list option"
  reason :: pystr
  raw_type :: pystr
  raw_rule :: pystr
  raw_short :: pystr
  raw_full :: pystr

record proof_error =
  n_error_start :: nat
  n_error_length :: nat
  suggestions :: "pystr list"
  short_comment :: pystr
  full_comment :: pystr
  rule_identifier :: pystr

record hints =
  no_replacement :: pystr
  delete_hint :: pystr
  space_hint :: pystr
  choose_hint :: pystr

subsection \<open>The place of an error\<close>

text \<open>\<open>getWordBoundary\<close>: the start and the end of the word at a position.\<close>

type_synonym boundaries = "pystr \<Rightarrow> nat \<Rightarrow> nat \<times> nat"

function boundary_tokens_from :: "boundaries \<Rightarrow> pystr \<Rightarrow> nat \<Rightarrow> pystr list" where
  "boundary_tokens_from wb s i =
     (if i < length s then
        (let (a, b) = wb s i in
         if b \<le> i then [drop i s]
         else (if i < a then [slice i a s] else []) @ slice a b s # boundary_tokens_from wb s b)
      else [])"
  by auto
termination
  by (relation "measure (\<lambda>(wb, s, i). length s - i)") auto

declare boundary_tokens_from.simps [simp del]

definition boundary_tokens :: "boundaries \<Rightarrow> pystr \<Rightarrow> pystr list" where
  "boundary_tokens wb s = boundary_tokens_from wb s 0"

definition anchor :: "pystr \<Rightarrow> pystr \<Rightarrow> nat \<Rightarrow> nat option" where
  "anchor window w search_pos =
     (if w = [] then None
      else case find_from w window search_pos of
             Some rel \<Rightarrow> Some rel
           | None \<Rightarrow> (case find_sub w window of None \<Rightarrow> None | Some rel \<Rightarrow> if rel < search_pos then None else Some rel))"

definition provider_span :: "pystr \<Rightarrow> raw_error \<Rightarrow> (nat \<times> nat) option" where
  "provider_span window it =
     (case (native_start it, native_length it) of
        (Some a, Some n) \<Rightarrow>
          if a < 0 \<or> n \<le> 0 \<or> int (length window) < a + n then None
          else if wrong it \<noteq> [] \<and> slice (nat a) (nat a + nat n) window \<noteq> wrong it then None
          else Some (nat a, nat n)
      | _ \<Rightarrow> None)"

definition longest_match :: "nat \<Rightarrow> (nat \<Rightarrow> bool) \<Rightarrow> nat option" where
  "longest_match n P = find P (rev [1..<Suc n])"

definition tail_tokens :: "nat \<Rightarrow> pystr list \<Rightarrow> pystr list" where
  "tail_tokens k ts = drop (length ts - k) ts"

text \<open>\<open>_expand_span_for_overlap\<close>: a correction that begins with the words before the error or ends with the words
  behind it. The words in front of an error are never longer than the text there when the words tile the text
  (\<open>widen_left_bounds\<close>), so the subtraction is the one of the source.\<close>

definition max_overlap :: "pystr \<Rightarrow> nat" where
  "max_overlap c = max (2 * length c) 128"

definition widen_right :: "boundaries \<Rightarrow> pystr \<Rightarrow> pystr \<Rightarrow> nat \<Rightarrow> nat \<Rightarrow> nat" where
  "widen_right wb c full pos len =
     (let tc = boundary_tokens wb c; ts = boundary_tokens wb (slice (pos + len) (pos + len + max_overlap c) full)
      in case longest_match (min (length tc) (length ts)) (\<lambda>k. tail_tokens k tc = take k ts) of
           None \<Rightarrow> len
         | Some k \<Rightarrow> len + sum_list (map length (tail_tokens k tc)))"

definition widen_left :: "boundaries \<Rightarrow> pystr \<Rightarrow> pystr \<Rightarrow> nat \<Rightarrow> nat \<Rightarrow> nat \<times> nat" where
  "widen_left wb c full pos len =
     (let tc = boundary_tokens wb c; tp = boundary_tokens wb (slice (pos - max_overlap c) pos full)
      in case longest_match (min (length tp) (length tc)) (\<lambda>k. tail_tokens k tp = take k tc) of
           None \<Rightarrow> (pos, len)
         | Some k \<Rightarrow> (let overlap = sum_list (map length (tail_tokens k tp)) in (pos - overlap, len + overlap)))"

definition expand_span :: "boundaries \<Rightarrow> pystr \<Rightarrow> pystr \<Rightarrow> nat \<Rightarrow> nat \<Rightarrow> nat \<times> nat" where
  "expand_span wb c full pos len = widen_left wb c full pos (widen_right wb c full pos len)"

subsection \<open>The marks\<close>

definition spans_overlap :: "nat \<times> nat \<Rightarrow> nat \<times> nat \<Rightarrow> bool" where
  "spans_overlap a b \<longleftrightarrow> \<not> (snd a \<le> fst b \<or> snd b \<le> fst a)"

definition suggestions_of :: "raw_error \<Rightarrow> pystr list" where
  "suggestions_of it =
     (case raw_suggestions it of Some ss \<Rightarrow> ss | None \<Rightarrow> if correct it \<noteq> [] then [correct it] else [])"

definition all_space :: "pystr \<Rightarrow> bool" where
  "all_space s \<longleftrightarrow> s \<noteq> [] \<and> list_all is_space s"

definition hint_for :: "hints \<Rightarrow> pystr list \<Rightarrow> pystr" where
  "hint_for H ss =
     (if ss = [] then no_replacement H else if [] \<in> set ss then delete_hint H
      else if list_ex all_space ss then space_hint H else choose_hint H)"

definition build_error :: "hints \<Rightarrow> nat \<Rightarrow> nat \<Rightarrow> raw_error \<Rightarrow> proof_error" where
  "build_error H pos len it =
     (let existing = strip (raw_rule it); ss = suggestions_of it;
          provider_short = strip (raw_short it); provider_full = strip (raw_full it);
          comment = (if provider_short \<noteq> [] then provider_short else reason it);
          short0 = (if comment \<noteq> [] then strip (u ''('' @ raw_type it @ u '') '' @ comment) else raw_type it);
          full = (if provider_full \<noteq> [] then provider_full else if reason it \<noteq> [] then reason it else short0);
          short = (if provider_short \<noteq> [] \<or> provider_full \<noteq> [] then short0 @ u '' '' @ hint_for H ss else short0)
      in \<lparr>n_error_start = pos, n_error_length = len, suggestions = ss, short_comment = take 500 short,
           full_comment = take 2000 full,
           rule_identifier = (if existing \<noteq> [] then existing else u ''wa_g_rule||'' @ reason it)\<rparr>)"

record placing =
  search_pos :: nat
  used_spans :: "(nat \<times> nat) list"
  placed :: "(raw_error \<times> proof_error) list"

definition start_placing :: placing where
  "start_placing = \<lparr>search_pos = 0, used_spans = [], placed = []\<rparr>"

text \<open>The place of an item before overlaps with earlier marks are looked at, and the next position to search from;
  \<open>None\<close> when it is dropped.\<close>

definition place_item :: "boundaries \<Rightarrow> pystr \<Rightarrow> nat \<Rightarrow> pystr \<Rightarrow> nat \<Rightarrow> raw_error \<Rightarrow> (nat \<times> nat) option \<times> nat" where
  "place_item wb full slice_start window sp it =
     (case provider_span window it of
        Some (rel, len) \<Rightarrow> (Some (slice_start + rel, len), sp)
      | None \<Rightarrow>
          (case anchor window (wrong it) sp of
             None \<Rightarrow> (None, sp)
           | Some rel \<Rightarrow>
               if length (wrong it) = 0 then (None, sp)
               else if correct it \<noteq> [] then
                 (let (pos, len) = expand_span wb (correct it) full (slice_start + rel) (length (wrong it))
                  in (if slice pos (pos + len) full = correct it then None else Some (pos, len), rel + 1))
               else (Some (slice_start + rel, length (wrong it)), rel + 1)))"

definition place_next :: "boundaries \<Rightarrow> hints \<Rightarrow> pystr \<Rightarrow> nat \<Rightarrow> pystr \<Rightarrow> raw_error \<Rightarrow> placing \<Rightarrow> placing" where
  "place_next wb H full slice_start window it st =
     (case place_item wb full slice_start window (search_pos st) it of
        (None, sp) \<Rightarrow> st\<lparr>search_pos := sp\<rparr>
      | (Some (pos, len), sp) \<Rightarrow>
          if list_ex (spans_overlap (pos, pos + len)) (used_spans st) then st\<lparr>search_pos := sp\<rparr>
          else \<lparr>search_pos = sp, used_spans = used_spans st @ [(pos, pos + len)],
                placed = placed st @ [(it, build_error H pos len it)]\<rparr>)"

definition place_errors :: "boundaries \<Rightarrow> hints \<Rightarrow> pystr \<Rightarrow> nat \<Rightarrow> nat \<Rightarrow> raw_error list \<Rightarrow> placing" where
  "place_errors wb H full n_start n_end items =
     (let slice_end = min n_end (length full); slice_start = min n_start slice_end
      in fold (place_next wb H full slice_start (slice slice_start slice_end full)) items start_placing)"

definition normalize_errors :: "boundaries \<Rightarrow> hints \<Rightarrow> pystr \<Rightarrow> nat \<Rightarrow> nat \<Rightarrow> raw_error list \<Rightarrow> proof_error list" where
  "normalize_errors wb H full n_start n_end items = map snd (placed (place_errors wb H full n_start n_end items))"

subsection \<open>Marks in the text\<close>

text \<open>Inside a word \<open>getWordBoundary\<close> answers with the word around the position, which begins before it. Only at the end
  of another word does the next one begin there or behind it.\<close>

definition words_tile :: "boundaries \<Rightarrow> bool" where
  "words_tile wb \<longleftrightarrow>
     (\<forall>s i. i < length s \<longrightarrow> i = 0 \<or> (\<exists>j < i. i = snd (wb s j)) \<longrightarrow> i \<le> fst (wb s i) \<and> fst (wb s i) \<le> snd (wb s i))"

lemma concat_boundary_tokens_from:
  "words_tile wb \<Longrightarrow> i = 0 \<or> (\<exists>j < i. i = snd (wb s j)) \<Longrightarrow> concat (boundary_tokens_from wb s i) = drop i s"
proof (induction wb s i rule: boundary_tokens_from.induct)
  case (1 wb s i)
  obtain a b where ab: "wb s i = (a, b)" by (cases "wb s i")
  show ?case
  proof (cases "i < length s \<and> i < b")
    case True
    then have le: "i \<le> a" "a \<le> b" using 1(2,3) ab unfolding words_tile_def by (metis fst_conv snd_conv)+
    have "b = 0 \<or> (\<exists>j < b. b = snd (wb s j))" using True ab by (intro disjI2 exI [of _ i]) simp
    then have "concat (boundary_tokens_from wb s b) = drop b s" using 1 ab True by simp
    then show ?thesis using True ab le
      by (subst boundary_tokens_from.simps) (auto simp: slice_to_end)
  qed (subst boundary_tokens_from.simps, auto simp: ab)
qed

lemma concat_boundary_tokens [simp]: "words_tile wb \<Longrightarrow> concat (boundary_tokens wb s) = s"
  by (simp add: boundary_tokens_def concat_boundary_tokens_from)

lemma total_length: "sum_list (map length ts) = length (concat ts)"
  by (simp add: length_concat)

lemma tail_tokens_le: "length (concat (tail_tokens k ts)) \<le> length (concat ts)"
  by (metis tail_tokens_def append_take_drop_id concat_append length_append le_add2)

lemma longest_match_Some: "longest_match n P = Some k \<Longrightarrow> P k"
  by (auto simp: longest_match_def find_Some_iff)

lemma widen_right_bounds:
  assumes "words_tile wb" "pos + len \<le> length full"
  shows "len \<le> widen_right wb c full pos len" "pos + widen_right wb c full pos len \<le> length full"
proof -
  have "length (concat (tail_tokens k (boundary_tokens wb c))) \<le> length full - (pos + len)"
    if "tail_tokens k (boundary_tokens wb c) = take k (boundary_tokens wb w)" "w = slice (pos + len) (pos + len + max_overlap c) full" for k w
  proof -
    have "length (concat (take k (boundary_tokens wb w))) \<le> length (concat (boundary_tokens wb w))"
      by (metis append_take_drop_id concat_append length_append le_add1)
    then show ?thesis using that assms(1) by (simp add: slice_def)
  qed
  note room = this
  show "len \<le> widen_right wb c full pos len" "pos + widen_right wb c full pos len \<le> length full"
    using assms(2) by (auto simp: widen_right_def Let_def total_length split: option.splits dest!: longest_match_Some dest: room)
qed

lemma widen_left_bounds:
  assumes "words_tile wb" "pos \<le> length full" "widen_left wb c full pos len = (p, l)"
  shows "p \<le> pos \<and> p + l = pos + len"
proof -
  have "length (concat (tail_tokens k (boundary_tokens wb (slice (pos - m) pos full)))) \<le> pos" for k m
    using tail_tokens_le [of k "boundary_tokens wb (slice (pos - m) pos full)"] assms(1,2) by (simp add: slice_def)
  then show ?thesis
    using assms(3) by (auto simp: widen_left_def Let_def total_length split: option.splits)
qed

lemma expand_span_bounds:
  assumes "words_tile wb" "pos + len \<le> length full" "expand_span wb c full pos len = (p, l)"
  shows "p \<le> pos \<and> pos + len \<le> p + l \<and> p + l \<le> length full"
proof -
  have "p \<le> pos \<and> p + l = pos + widen_right wb c full pos len"
    by (rule widen_left_bounds [OF assms(1)]) (use assms(2,3) in \<open>simp_all add: expand_span_def\<close>)
  then show ?thesis using widen_right_bounds [OF assms(1,2), of c] by simp
qed

lemma sublist_slice:
  assumes "slice a (a + length w) full = w" "a + length w \<le> length full" "p \<le> a" "a + length w \<le> e"
  shows "sublist w (slice p e full)"
proof -
  have "slice p e full = slice p a full @ slice a (a + length w) full @ slice (a + length w) e full"
    using assms(3,4) by (simp add: slice_append)
  then show ?thesis using assms(1) by (metis sublist_appendI)
qed

lemma anchor_Some:
  assumes "anchor window w sp = Some rel"
  shows "rel + length w \<le> length window" "slice rel (rel + length w) window = w" "w \<noteq> []" "sp \<le> rel"
proof -
  have "find_sub w window = Some rel \<Longrightarrow> find_from w window 0 = Some rel" by (simp add: find_from_def)
  then have "\<exists>i. find_from w window i = Some rel" and "w \<noteq> []" and "sp \<le> rel"
    using assms by (auto simp: anchor_def split: if_splits option.splits dest: find_from_Some)
  then show "rel + length w \<le> length window" "slice rel (rel + length w) window = w" "w \<noteq> []" "sp \<le> rel"
    by (auto dest: find_from_Some)
qed

definition slice_window :: "nat \<Rightarrow> nat \<Rightarrow> pystr \<Rightarrow> nat \<times> pystr" where
  "slice_window n_start n_end full =
     (let slice_end = min n_end (length full); slice_start = min n_start slice_end in (slice_start, slice slice_start slice_end full))"

lemma window_slice:
  assumes "slice_window n_start n_end full = (a, window)" "rel + n \<le> length window"
  shows "a + rel + n \<le> length full" "slice (a + rel) (a + rel + n) full = slice rel (rel + n) window"
proof -
  define b where "b = min n_end (length full)"
  have b: "a = min n_start b" "window = slice a b full" "b \<le> length full"
    using assms(1) by (auto simp: slice_window_def Let_def b_def)
  then have "length window = b - a" by (simp add: length_slice)
  with assms(2) b show "a + rel + n \<le> length full" by linarith
  from \<open>length window = b - a\<close> show "slice (a + rel) (a + rel + n) full = slice rel (rel + n) window"
    using slice_slice [of rel n b a full] assms(2) b(2) by simp
qed

text \<open>The mark of an item lies in the text and contains the quoted words.\<close>

definition marks_error :: "pystr \<Rightarrow> raw_error \<Rightarrow> nat \<Rightarrow> nat \<Rightarrow> bool" where
  "marks_error full it pos len \<longleftrightarrow> 0 < len \<and> pos + len \<le> length full \<and> sublist (wrong it) (slice pos (pos + len) full)"

lemma place_item_marks:
  assumes law: "words_tile wb" and w: "slice_window n_start n_end full = (a, window)"
    and p: "place_item wb full a window sp it = (Some (pos, len), sp')"
  shows "marks_error full it pos len"
proof (cases "provider_span window it")
  case (Some rl)
  then have "pos = a + fst rl" "len = snd rl" "0 < snd rl" "fst rl + snd rl \<le> length window"
    and "wrong it \<noteq> [] \<Longrightarrow> slice (fst rl) (fst rl + snd rl) window = wrong it"
    using p by (auto simp: place_item_def provider_span_def split: option.splits prod.splits if_splits)
  then show ?thesis
    using window_slice [OF w, of "fst rl" "snd rl"] by (cases "wrong it = []") (auto simp: marks_error_def)
next
  case None
  then obtain rel where rel: "anchor window (wrong it) sp = Some rel"
    using p by (auto simp: place_item_def split: option.splits)
  note at = window_slice [OF w, of rel "length (wrong it)"] anchor_Some [OF rel]
  show ?thesis
  proof (cases "correct it = []")
    case True
    then show ?thesis using p None rel at by (auto simp: place_item_def marks_error_def)
  next
    case False
    then have "expand_span wb (correct it) full (a + rel) (length (wrong it)) = (pos, len)"
      using p None rel at(5) by (auto simp: place_item_def split: prod.splits if_splits)
    from expand_span_bounds [OF law _ this] at show ?thesis
      using sublist_slice [of "a + rel" "wrong it" full pos "pos + len"]
      by (cases "wrong it") (auto simp: marks_error_def)
  qed
qed

definition span_of :: "proof_error \<Rightarrow> nat \<times> nat" where
  "span_of e = (n_error_start e, n_error_start e + n_error_length e)"

definition placing_ok :: "pystr \<Rightarrow> raw_error list \<Rightarrow> placing \<Rightarrow> bool" where
  "placing_ok full items st \<longleftrightarrow>
     used_spans st = map (span_of \<circ> snd) (placed st)
     \<and> sorted_wrt (\<lambda>s s'. \<not> spans_overlap s' s) (used_spans st)
     \<and> (\<forall>(it, e) \<in> set (placed st). it \<in> set items \<and> marks_error full it (n_error_start e) (n_error_length e))"

lemma build_error_span [simp]:
  "n_error_start (build_error H pos len it) = pos" "n_error_length (build_error H pos len it) = len"
  by (simp_all add: build_error_def Let_def)

lemma place_next_ok:
  assumes "words_tile wb" "slice_window n_start n_end full = (a, window)" "it \<in> set items" "placing_ok full items st"
  shows "placing_ok full items (place_next wb H full a window it st)"
proof (cases "place_item wb full a window (search_pos st) it")
  case (Pair r sp)
  show ?thesis
  proof (cases r)
    case None
    then show ?thesis using Pair assms(4) by (auto simp: place_next_def placing_ok_def)
  next
    case (Some s)
    obtain pos len where s: "s = (pos, len)" by (cases s)
    have "marks_error full it pos len" using place_item_marks [OF assms(1,2)] Pair Some s by metis
    then show ?thesis using Pair Some s assms(3,4)
      by (cases "list_ex (spans_overlap (pos, pos + len)) (used_spans st)")
        (auto simp: place_next_def placing_ok_def span_of_def sorted_wrt_append list_ex_iff)
  qed
qed

lemma place_errors_ok:
  assumes "words_tile wb"
  shows "placing_ok full items (place_errors wb H full n_start n_end items)"
proof -
  obtain a window where w: "slice_window n_start n_end full = (a, window)" by (cases "slice_window n_start n_end full")
  then have "place_errors wb H full n_start n_end items = fold (place_next wb H full a window) items start_placing"
    by (auto simp: place_errors_def slice_window_def Let_def)
  moreover have "placing_ok full items (fold (place_next wb H full a window) items start_placing)"
    by (rule fold_invariant [of items "\<lambda>it. it \<in> set items"])
      (simp_all add: place_next_ok [OF assms w], simp add: placing_ok_def start_placing_def)
  ultimately show ?thesis by simp
qed

text \<open>C29: Whatever a checker answers, and for word boundaries of which each word found at the end of another begins
  there or behind it, every mark is a nonempty range of the text, no two marks overlap, and every mark
  contains the words its answer quotes.\<close>

theorem marks_disjoint_in_text:
  assumes "words_tile wb"
  shows "(\<forall>e \<in> set (normalize_errors wb H full n_start n_end items).
        0 < n_error_length e \<and> n_error_start e + n_error_length e \<le> length full
        \<and> (\<exists>it \<in> set items. sublist (wrong it) (slice (n_error_start e) (n_error_start e + n_error_length e) full)))
    \<and> sorted_wrt (\<lambda>e e'. n_error_start e + n_error_length e \<le> n_error_start e' \<or> n_error_start e' + n_error_length e' \<le> n_error_start e)
        (normalize_errors wb H full n_start n_end items)"
proof -
  let ?st = "place_errors wb H full n_start n_end items"
  have ok: "placing_ok full items ?st" by (rule place_errors_ok [OF assms])
  then have "sorted_wrt (\<lambda>s s'. \<not> spans_overlap s' s) (map span_of (map snd (placed ?st)))"
    unfolding placing_ok_def by (metis list.map_comp)
  then have "sorted_wrt (\<lambda>e e'. n_error_start e + n_error_length e \<le> n_error_start e' \<or> n_error_start e' + n_error_length e' \<le> n_error_start e)
      (map snd (placed ?st))"
    unfolding sorted_wrt_map by (rule sorted_wrt_mono_rel [rotated]) (auto simp: spans_overlap_def span_of_def)
  then show ?thesis using ok by (force simp: placing_ok_def marks_error_def normalize_errors_def)
qed

text \<open>Answers without offsets are searched behind the one before. An error that stands only in front of it is lost,
  though the text contains it.\<close>

theorem earlier_error_is_lost:
  assumes "provider_span window it = None" "find_from (wrong it) window sp = None"
  shows "place_item wb full a window sp it = (None, sp)"
proof -
  have "anchor window (wrong it) sp = None"
  proof (cases "find_sub (wrong it) window")
    case (Some rel)
    then have at: "find_from (wrong it) window 0 = Some rel" by (simp add: find_from_def)
    then have "rel < sp"
      using find_from_None [OF assms(2), of rel] find_from_Some [OF at] by (meson add_leD1 not_less)
    then show ?thesis using Some assms(2) by (simp add: anchor_def)
  qed (simp add: anchor_def assms)
  then show ?thesis using assms(1) by (simp add: place_item_def)
qed

subsection \<open>The witnesses\<close>

text \<open>Words are runs of spaces and runs without spaces; inside one, the answer is the whole run.\<close>

definition space_boundaries :: boundaries where
  "space_boundaries s i =
     (if i < length s
      then (let P = (\<lambda>c. (c = 32) = (s ! i = 32))
            in (i - length (takeWhile P (rev (take i s))), i + length (takeWhile P (drop i s))))
      else (length s, length s))"

lemma space_boundaries_tile: "words_tile space_boundaries"
proof -
  have "i \<le> fst (space_boundaries s i)" if i: "i < length s" "j < i" "i = snd (space_boundaries s j)" for s i j
  proof -
    let ?P = "\<lambda>c. (c = 32) = (s ! j = 32)"
    let ?n = "length (takeWhile ?P (drop j s))"
    have n: "i = j + ?n" "0 < ?n" using i by (simp_all add: space_boundaries_def Let_def split: if_splits)
    have "takeWhile ?P (drop j s) ! (?n - 1) \<in> set (takeWhile ?P (drop j s))" using n(2) by (intro nth_mem) simp
    from set_takeWhileD [OF this] have "?P (takeWhile ?P (drop j s) ! (?n - 1))" by (rule conjunct2)
    moreover have "takeWhile ?P (drop j s) ! (?n - 1) = s ! (i - 1)"
    proof -
      have "takeWhile ?P (drop j s) ! (?n - 1) = drop j s ! (?n - 1)" by (rule takeWhile_nth) (use n(2) in simp)
      also have "\<dots> = s ! (j + (?n - 1))" using i(1,2) by simp
      also have "j + (?n - 1) = i - 1" using n by linarith
      finally show ?thesis .
    qed
    moreover have "\<not> ?P (s ! i)" using nth_length_takeWhile [of ?P "drop j s"] n(1) i(1) by simp
    ultimately have d: "(s ! (i - 1) = 32) \<noteq> (s ! i = 32)" by simp
    have "rev (take i s) = s ! (i - 1) # rev (take (i - 1) s)"
      using i take_Suc_conv_app_nth [of "i - 1" s] by simp
    then show ?thesis using d i(1) by (simp add: space_boundaries_def Let_def)
  qed
  moreover have "fst (space_boundaries s i) \<le> snd (space_boundaries s i)" for s i
    by (auto simp: space_boundaries_def Let_def intro: trans_le_add1)
  ultimately show ?thesis unfolding words_tile_def by blast
qed

definition raw :: "string \<Rightarrow> string \<Rightarrow> raw_error" where
  "raw w c = \<lparr>wrong = u w, correct = u c, native_start = None, native_length = None, raw_suggestions = None, reason = u ''spelling'',
     raw_type = u ''grammar'', raw_rule = [], raw_short = [], raw_full = []\<rparr>"

definition no_hints :: hints where
  "no_hints = \<lparr>no_replacement = [], delete_hint = [], space_hint = [], choose_hint = []\<rparr>"

definition mark_at :: "nat \<Rightarrow> nat \<Rightarrow> string \<Rightarrow> proof_error" where
  "mark_at i n c = \<lparr>n_error_start = i, n_error_length = n, suggestions = [u c], short_comment = u ''(grammar) spelling'',
     full_comment = u ''spelling'', rule_identifier = u ''wa_g_rule||spelling''\<rparr>"

lemma demo_marks:
  "normalize_errors space_boundaries no_hints (u ''a man see it'') 0 12 [raw ''see'' ''man sees'']
     = [mark_at 2 7 ''man sees'']"
  by code_simp

theorem marks_disjoint_in_text_witness:
  "n_error_start (mark_at 2 7 ''man sees'') + n_error_length (mark_at 2 7 ''man sees'') \<le> 12
     \<and> sublist (u ''see'') (slice 2 9 (u ''a man see it''))"
proof -
  from marks_disjoint_in_text [OF space_boundaries_tile, of no_hints "u ''a man see it''" 0 12 "[raw ''see'' ''man sees'']"]
  have "\<exists>it \<in> {raw ''see'' ''man sees''}. sublist (wrong it) (slice 2 9 (u ''a man see it''))"
    by (simp add: demo_marks mark_at_def)
  then show ?thesis by (simp add: mark_at_def raw_def)
qed

end
