(* ===== verification/HostPacing.thy ===== *)
theory HostPacing
  imports PyStr Complex_Main
begin

text \<open>
  Pacing and retry policy of requests to a model (\<open>framework/client/request_controls.py\<close>, with the send and the
  connection errors of \<open>framework/client/http_transport.py\<close>): the delay before the next attempt, the wait that Stop
  can abort, the gap remembered for each host, and the fallback for local certificates. Numbers are rationals; the
  random number, the clock, what \<open>stop_checker\<close> answers and \<open>float\<close> of a header are arguments.
\<close>

definition retry_min_delay :: rat where "retry_min_delay = 3 / 10"
definition retry_max_delay :: rat where "retry_max_delay = 30"
definition wait_chunk :: rat where "wait_chunk = 1 / 20"
definition free_min_gap :: rat where "free_min_gap = 3"

subsection \<open>The delay before an attempt\<close>

text \<open>A header \<open>Retry-After\<close>: seconds, which may not be finite, or a date.\<close>

datatype seconds = Finite rat | NotFinite

definition parse_retry_after :: "(pystr \<Rightarrow> seconds option) \<Rightarrow> (pystr \<Rightarrow> rat option) \<Rightarrow> rat \<Rightarrow> pystr option \<Rightarrow> seconds option" where
  "parse_retry_after to_float to_date now header =
     (case header of
        None \<Rightarrow> None
      | Some h \<Rightarrow>
          (let t = strip h in
           if t = [] then None
           else (case to_float t of
                   Some x \<Rightarrow> Some x
                 | None \<Rightarrow> (case to_date t of None \<Rightarrow> None | Some d \<Rightarrow> Some (Finite (d - now))))))"

datatype jitter = Full | Amount rat

text \<open>\<open>round\<close>: to the nearest integer, a half to the even one.\<close>

definition py_round :: "rat \<Rightarrow> int" where
  "py_round x = (let f = \<lfloor>x\<rfloor>; d = x - of_int f in if d < 1 / 2 then f else if 1 / 2 < d then f + 1 else if even f then f else f + 1)"

definition apply_jitter :: "rat \<Rightarrow> jitter \<Rightarrow> bool \<Rightarrow> rat \<Rightarrow> rat" where
  "apply_jitter ms j positive rng =
     (case j of
        Full \<Rightarrow> if positive then max 0 (of_int \<lceil>ms * (1 + rng)\<rceil>) else max 0 (of_int (py_round (ms * (1 / 2 + rng * (1 / 2)))))
      | Amount a \<Rightarrow>
          if a \<le> 0 then (if positive then of_int \<lceil>ms\<rceil> else ms)
          else (let offset = (if positive then rng * a else (rng * 2 - 1) * a); raw = ms * (1 + offset)
                in max 0 (of_int (if positive then \<lceil>raw\<rceil> else py_round raw))))"

definition backoff_delay :: "nat \<Rightarrow> seconds option \<Rightarrow> rat \<Rightarrow> rat \<Rightarrow> jitter \<Rightarrow> rat \<Rightarrow> rat" where
  "backoff_delay attempt retry_after lo hi j rng =
     (let ra = (case retry_after of Some (Finite x) \<Rightarrow> Some x | _ \<Rightarrow> None);
          base = (case ra of Some x \<Rightarrow> max x lo | None \<Rightarrow> lo * 2 ^ (attempt - 1));
          delay = min base hi;
          can_honor = (case ra of Some x \<Rightarrow> x \<le> hi | None \<Rightarrow> False);
          positive = (if j = Full then ra = None \<or> can_honor else can_honor)
      in min (max (apply_jitter (delay * 1000) j positive rng / 1000) lo) hi)"

subsection \<open>Waiting\<close>

text \<open>\<open>wait_abortable\<close>: each turn asks \<open>stop_checker\<close>, reads the clock and sleeps a chunk or returns; the second answer
  is used at the deadline. The result is whether the wait was completed, with the last reading of the clock and the
  sleeps; \<open>None\<close> when more turns are needed.\<close>

fun wait_turns :: "rat \<Rightarrow> rat \<Rightarrow> (bool \<times> rat \<times> bool) list \<Rightarrow> (bool \<times> rat) option \<times> rat list" where
  "wait_turns chunk deadline [] = (None, [])"
| "wait_turns chunk deadline ((stop, now, stop2) # rest) =
     (if stop then (Some (False, now), [])
      else if deadline \<le> now then (Some (\<not> stop2, now), [])
      else (let (r, sleeps) = wait_turns chunk deadline rest in (r, min chunk (deadline - now) # sleeps)))"

definition wait_abortable :: "rat \<Rightarrow> seconds \<Rightarrow> bool \<Rightarrow> rat \<Rightarrow> (bool \<times> rat \<times> bool) list \<Rightarrow> (bool \<times> rat) option \<times> rat list" where
  "wait_abortable chunk delay stop start turns =
     (if stop then (Some (False, start), [])
      else (case delay of
          NotFinite \<Rightarrow> (case turns of [] \<Rightarrow> (None, []) | (s, t, s2) # _ \<Rightarrow> (Some (\<not> s2, start), []))
        | Finite d \<Rightarrow>
            if d \<le> 0 then (case turns of [] \<Rightarrow> (None, []) | (s, t, s2) # _ \<Rightarrow> (Some (\<not> s2, start), []))
            else wait_turns chunk (start + d) turns))"

subsection \<open>Gaps between requests to a host\<close>

record pacing =
  gaps :: "(pystr \<times> rat) list"
  last_sent :: "(pystr \<times> rat) list"

definition is_free_model :: "pystr option \<Rightarrow> bool" where
  "is_free_model model =
     (let m = strip (case model of Some s \<Rightarrow> s | None \<Rightarrow> []) in m \<noteq> [] \<and> (suffix (u '':free'') m \<or> m = u ''openrouter/free''))"

definition pacing_key :: "pystr \<Rightarrow> pystr option \<Rightarrow> pystr" where
  "pacing_key host model = (if host \<noteq> [] \<and> is_free_model model then host @ u '':free'' else host)"

definition gap_of :: "pacing \<Rightarrow> pystr \<Rightarrow> rat" where
  "gap_of s host = (case map_of (gaps s) host of Some g \<Rightarrow> g | None \<Rightarrow> 0)"

definition remember_host_gap :: "pystr \<Rightarrow> seconds \<Rightarrow> pacing \<Rightarrow> pacing" where
  "remember_host_gap host delay s =
     (case delay of
        NotFinite \<Rightarrow> s
      | Finite d \<Rightarrow>
          if host = [] \<or> d \<le> 0 then s
          else (let gap = min d retry_max_delay in
                if gap_of s host < gap then s\<lparr>gaps := AList.update host gap (gaps s)\<rparr> else s))"

definition ensure_free_pacing :: "pystr \<Rightarrow> pystr option \<Rightarrow> pacing \<Rightarrow> pystr \<times> pacing" where
  "ensure_free_pacing host model s =
     (let key = pacing_key host model in
      (key, if is_free_model model then remember_host_gap key (Finite free_min_gap) s else s))"

definition clear_host_gap :: "pystr \<Rightarrow> pacing \<Rightarrow> pacing" where
  "clear_host_gap host s =
     (if host = [] then s
      else if suffix (u '':free'') host then s\<lparr>gaps := AList.update host free_min_gap (gaps s)\<rparr>
      else s\<lparr>gaps := AList.delete host (gaps s)\<rparr>)"

definition mark_host_sent :: "pystr \<Rightarrow> rat \<Rightarrow> pacing \<Rightarrow> pacing" where
  "mark_host_sent host now s = (if host = [] then s else s\<lparr>last_sent := AList.update host now (last_sent s)\<rparr>)"

definition remaining_host_gap :: "pystr \<Rightarrow> rat \<Rightarrow> pacing \<Rightarrow> rat" where
  "remaining_host_gap host now s =
     (if host = [] then 0
      else (case map_of (last_sent s) host of
              None \<Rightarrow> 0
            | Some t \<Rightarrow> if gap_of s host \<le> 0 then 0 else max 0 (gap_of s host - (now - t))))"

definition wait_host_gap :: "pystr \<Rightarrow> rat \<Rightarrow> bool \<Rightarrow> rat \<Rightarrow> (bool \<times> rat \<times> bool) list \<Rightarrow> pacing \<Rightarrow> (bool \<times> rat) option" where
  "wait_host_gap host now stop start turns s =
     (let r = remaining_host_gap host now s in
      if r \<le> 0 then Some (True, now) else fst (wait_abortable wait_chunk (Finite r) stop start turns))"

text \<open>\<open>RequestPacer\<close>: the sleep before a send of one client.\<close>

definition pacer_wait :: "rat \<Rightarrow> rat \<Rightarrow> rat \<Rightarrow> rat option" where
  "pacer_wait min_interval before now = (let w = min_interval - (now - before) in if 0 < w then Some w else None)"

text \<open>What happens to the maps while several clients work; each is one hold of \<open>_host_gap_lock\<close>.\<close>

datatype gap_event = Remember pystr seconds | Clear pystr | Sent pystr rat | Ensure pystr "pystr option"

fun apply_event :: "gap_event \<Rightarrow> pacing \<Rightarrow> pacing" where
  "apply_event (Remember h d) s = remember_host_gap h d s"
| "apply_event (Clear h) s = clear_host_gap h s"
| "apply_event (Sent h t) s = mark_host_sent h t s"
| "apply_event (Ensure h m) s = snd (ensure_free_pacing h m s)"

text \<open>\<open>LlmHttpTransport.send\<close> up to the request: the wait, and what is remembered when the request went out at \<open>sent\<close>.
  The lock is released between the steps: other clients may do \<open>es1\<close> before the gap is read at \<open>now\<close>, and \<open>es2\<close> while
  this one waits, connects and sends.\<close>

datatype send_result = Aborted | Unsent | SentAt rat

definition send_request ::
    "pystr \<Rightarrow> pystr option \<Rightarrow> gap_event list \<Rightarrow> rat \<Rightarrow> bool \<Rightarrow> rat \<Rightarrow> (bool \<times> rat \<times> bool) list \<Rightarrow> gap_event list \<Rightarrow> rat \<Rightarrow> pacing \<Rightarrow>
       send_result \<times> pacing" where
  "send_request host model es1 now stop start turns es2 after s =
     (let (key, s1) = ensure_free_pacing host model s;
          s2 = fold apply_event es1 s1;
          s3 = fold apply_event es2 s2
      in case wait_host_gap key now stop start turns s2 of
        None \<Rightarrow> (Unsent, s3)
      | Some (False, t) \<Rightarrow> (Aborted, s3)
      | Some (True, t) \<Rightarrow> (SentAt (t + after), mark_host_sent key (t + after) s3))"

datatype retry_action = RetryNow | StopRetry | RetryAfter rat | GiveUp

definition connection_error :: "pystr \<Rightarrow> bool \<Rightarrow> nat \<Rightarrow> bool \<Rightarrow> nat \<Rightarrow> rat \<Rightarrow> pacing \<Rightarrow> retry_action \<times> pacing" where
  "connection_error host stopped retries_left tls_fallback attempt rng s =
     (if stopped then (StopRetry, s)
      else if 0 < retries_left \<and> tls_fallback then (RetryNow, s)
      else if 0 < retries_left then
        (let d = backoff_delay attempt None retry_min_delay retry_max_delay Full rng
         in (RetryAfter d, remember_host_gap host (Finite d) s))
      else (GiveUp, s))"

subsection \<open>Local certificates\<close>

datatype ssl_mode = Verified | Unverified | Plain

definition ssl_mode_for :: "(pystr \<Rightarrow> bool) \<Rightarrow> pystr list \<Rightarrow> pystr \<Rightarrow> pystr \<Rightarrow> ssl_mode" where
  "ssl_mode_for is_local fallback scheme host =
     (if scheme \<noteq> u ''https'' then Plain else if is_local host \<and> host \<in> set fallback then Unverified else Verified)"

definition enable_if_applicable :: "(pystr \<Rightarrow> bool) \<Rightarrow> pystr \<Rightarrow> bool \<Rightarrow> pystr list \<Rightarrow> bool \<times> pystr list" where
  "enable_if_applicable is_local host certificate_error fallback =
     (if host = [] \<or> \<not> is_local host \<or> \<not> certificate_error \<or> host \<in> set fallback then (False, fallback)
      else (True, host # fallback))"

subsection \<open>Delays\<close>

lemma backoff_within: "lo \<le> hi \<Longrightarrow> lo \<le> backoff_delay attempt ra lo hi j rng \<and> backoff_delay attempt ra lo hi j rng \<le> hi"
  by (simp add: backoff_delay_def Let_def)

lemma positive_jitter_above:
  assumes "0 \<le> ms" and "0 \<le> rng"
  shows "ms \<le> apply_jitter ms Full True rng"
proof -
  have "ms \<le> ms * (1 + rng)" using assms by (simp add: algebra_simps)
  also have "\<dots> \<le> of_int \<lceil>ms * (1 + rng)\<rceil>" by (rule le_of_int_ceiling)
  finally show ?thesis by (simp add: apply_jitter_def)
qed

lemma full_jitter_keeps_base:
  assumes "0 \<le> lo" "lo \<le> hi" "0 \<le> rng" and "lo \<le> base" and "base \<le> hi"
  shows "base \<le> min (max (apply_jitter (min base hi * 1000) Full True rng / 1000) lo) hi"
proof -
  have "base * 1000 \<le> apply_jitter (base * 1000) Full True rng"
    using assms by (intro positive_jitter_above) simp_all
  then have "base \<le> apply_jitter (base * 1000) Full True rng / 1000" by simp
  moreover have "min base hi = base" using assms(5) by simp
  ultimately show ?thesis using assms(5) by (simp add: le_max_iff_disj)
qed

text \<open>C9: The delay before an attempt lies between the least and the greatest delay, is at least what the server asks
  for in \<open>Retry-After\<close> when that is not above the greatest delay, and without such a header at least the doubled one.\<close>

theorem backoff_bounds:
  assumes "0 \<le> lo" and "lo \<le> hi" and "0 \<le> rng"
  shows "lo \<le> backoff_delay attempt ra lo hi j rng \<and> backoff_delay attempt ra lo hi j rng \<le> hi
    \<and> (\<forall>x. ra = Some (Finite x) \<and> x \<le> hi \<longrightarrow> x \<le> backoff_delay attempt ra lo hi Full rng)
    \<and> (ra = None \<or> ra = Some NotFinite \<longrightarrow> min (lo * 2 ^ (attempt - 1)) hi \<le> backoff_delay attempt ra lo hi Full rng)"
proof (intro conjI allI impI)
  show "lo \<le> backoff_delay attempt ra lo hi j rng" and "backoff_delay attempt ra lo hi j rng \<le> hi"
    using backoff_within [OF assms(2)] by auto
next
  fix x assume x: "ra = Some (Finite x) \<and> x \<le> hi"
  have "max x lo \<le> min (max (apply_jitter (min (max x lo) hi * 1000) Full True rng / 1000) lo) hi"
    using x assms by (intro full_jitter_keeps_base) simp_all
  then have "x \<le> min (max (apply_jitter (min (max x lo) hi * 1000) Full True rng / 1000) lo) hi"
    by (rule order.trans [OF max.cobounded1])
  moreover have "backoff_delay attempt ra lo hi Full rng = min (max (apply_jitter (min (max x lo) hi * 1000) Full True rng / 1000) lo) hi"
    using x by (simp only: backoff_delay_def Let_def) simp
  ultimately show "x \<le> backoff_delay attempt ra lo hi Full rng" by simp
next
  assume none: "ra = None \<or> ra = Some NotFinite"
  let ?b = "min (lo * 2 ^ (attempt - 1)) hi"
  have "1 \<le> (2 :: rat) ^ (attempt - 1)" by simp
  then have "lo \<le> lo * 2 ^ (attempt - 1)" using assms(1) mult_left_mono [of 1 "2 ^ (attempt - 1)" lo] by simp
  then have "?b \<le> min (max (apply_jitter (min ?b hi * 1000) Full True rng / 1000) lo) hi"
    using assms by (intro full_jitter_keeps_base) simp_all
  then show "?b \<le> backoff_delay attempt ra lo hi Full rng" using none by (auto simp: backoff_delay_def Let_def)
qed

theorem backoff_bounds_witness: "5 \<le> backoff_delay 1 (Some (Finite 5)) (3 / 10) 30 Full (1 / 4)"
  using backoff_bounds [of "3 / 10" 30 "1 / 4" 1 "Some (Finite 5)" Full] by simp

subsection \<open>Waits\<close>

text \<open>A clock that moves on by at least what was slept.\<close>

fun clock_runs :: "rat \<Rightarrow> rat \<Rightarrow> (bool \<times> rat \<times> bool) list \<Rightarrow> bool" where
  "clock_runs chunk deadline [] = True"
| "clock_runs chunk deadline [x] = True"
| "clock_runs chunk deadline ((s1, t1, e1) # (s2, t2, e2) # rest) \<longleftrightarrow>
     t1 + min chunk (deadline - t1) \<le> t2 \<and> clock_runs chunk deadline ((s2, t2, e2) # rest)"

lemma wait_turns_deadline: "fst (wait_turns chunk deadline turns) = Some (True, t) \<Longrightarrow> deadline \<le> t"
  by (induction chunk deadline turns rule: wait_turns.induct) (auto simp: Let_def case_prod_beta split: if_splits)

lemma wait_turns_sleeps: "x \<in> set (snd (wait_turns chunk deadline turns)) \<Longrightarrow> x \<le> chunk"
  by (induction chunk deadline turns rule: wait_turns.induct) (auto simp: Let_def case_prod_beta split: if_splits)

lemma wait_turns_returns:
  assumes "0 < chunk"
  shows "clock_runs chunk deadline turns \<Longrightarrow> turns \<noteq> [] \<Longrightarrow> deadline - fst (snd (hd turns)) \<le> of_nat (length turns - 1) * chunk
    \<Longrightarrow> list_all (\<lambda>(s, t, e). \<not> s \<and> \<not> e) turns \<Longrightarrow> \<exists>t. fst (wait_turns chunk deadline turns) = Some (True, t)"
proof (induction chunk deadline turns rule: clock_runs.induct)
  case (3 chunk deadline s1 t1 e1 s2 t2 e2 rest)
  show ?case
  proof (cases "deadline \<le> t1")
    case True
    then show ?thesis using 3(5) by simp
  next
    case False
    have "deadline - t2 \<le> of_nat (length rest) * chunk"
    proof (cases "chunk \<le> deadline - t1")
      case True
      then have "t1 + chunk \<le> t2" using 3(2) by simp
      then show ?thesis using 3(4) by (simp add: algebra_simps)
    next
      case small: False
      then have "deadline \<le> t2" using 3(2) by simp
      moreover have "0 \<le> of_nat (length rest) * chunk" using small False by simp
      ultimately show ?thesis by simp
    qed
    then show ?thesis using 3 False by (simp add: Let_def case_prod_beta)
  qed
qed auto

subsection \<open>Gaps\<close>

lemma gap_of_update: "gap_of (s\<lparr>gaps := AList.update h g (gaps s)\<rparr>) h' = (if h' = h then g else gap_of s h')"
  by (simp add: gap_of_def update_conv')

lemma gap_of_delete: "gap_of (s\<lparr>gaps := AList.delete h (gaps s)\<rparr>) h' = (if h' = h then 0 else gap_of s h')"
  by (simp add: gap_of_def delete_conv')

lemma gap_of_mark [simp]: "gap_of (mark_host_sent h t s) h' = gap_of s h'"
  by (simp add: mark_host_sent_def gap_of_def)

lemma gap_of_remember:
  "gap_of (remember_host_gap h d s) h' =
     (case d of Finite x \<Rightarrow> if h' = h \<and> h \<noteq> [] \<and> 0 < x then max (gap_of s h) (min x retry_max_delay) else gap_of s h' | NotFinite \<Rightarrow> gap_of s h')"
  by (auto simp: remember_host_gap_def gap_of_update Let_def max_def split: seconds.split)

lemma gap_of_ensure: "gap_of (snd (ensure_free_pacing h m s)) h' =
    (if is_free_model m \<and> h' = pacing_key h m \<and> h' \<noteq> [] then max (gap_of s h') free_min_gap else gap_of s h')"
  by (auto simp: ensure_free_pacing_def gap_of_remember Let_def free_min_gap_def retry_max_delay_def)

lemma gap_of_clear: "gap_of (clear_host_gap h s) h' =
    (if h' = h \<and> h \<noteq> [] then if suffix (u '':free'') h then free_min_gap else 0 else gap_of s h')"
  by (auto simp: clear_host_gap_def gap_of_update gap_of_delete)

lemma gap_event_range: "0 \<le> gap_of s h \<and> gap_of s h \<le> retry_max_delay \<Longrightarrow>
    0 \<le> gap_of (apply_event e s) h \<and> gap_of (apply_event e s) h \<le> retry_max_delay"
  by (cases e) (auto simp: gap_of_remember gap_of_clear gap_of_ensure free_min_gap_def retry_max_delay_def split: seconds.split)

lemma gap_range: "0 \<le> gap_of s h \<and> gap_of s h \<le> retry_max_delay \<Longrightarrow>
    0 \<le> gap_of (fold apply_event es s) h \<and> gap_of (fold apply_event es s) h \<le> retry_max_delay"
proof (induction es arbitrary: s)
  case (Cons e es)
  then show ?case using gap_event_range [of s h e] by simp
qed simp

lemma free_floor_step: "suffix (u '':free'') h \<Longrightarrow> free_min_gap \<le> gap_of s h \<Longrightarrow> free_min_gap \<le> gap_of (apply_event e s) h"
  by (cases e) (auto simp: gap_of_remember gap_of_clear gap_of_ensure split: seconds.split)

lemma free_floor_kept: "suffix (u '':free'') h \<Longrightarrow> free_min_gap \<le> gap_of s h \<Longrightarrow> free_min_gap \<le> gap_of (fold apply_event es s) h"
  by (induction es arbitrary: s) (simp_all add: free_floor_step)

text \<open>A wait that is completed ends when the gap has passed.\<close>

lemma waited_out:
  assumes "wait_host_gap h now stop start turns s = Some (True, t)" and "now \<le> start" and "h \<noteq> []"
    and "map_of (last_sent s) h = Some t0"
  shows "t0 + gap_of s h \<le> t \<or> gap_of s h \<le> 0"
proof (cases "remaining_host_gap h now s \<le> 0")
  case True
  then show ?thesis using assms by (auto simp: wait_host_gap_def remaining_host_gap_def split: if_splits)
next
  case False
  then have r: "remaining_host_gap h now s = gap_of s h - (now - t0)"
    using assms(3,4) by (auto simp: remaining_host_gap_def max_def split: if_splits)
  have "fst (wait_turns wait_chunk (start + remaining_host_gap h now s) turns) = Some (True, t)"
    using assms(1) False by (auto simp: wait_host_gap_def wait_abortable_def split: if_splits)
  from wait_turns_deadline [OF this] show ?thesis using r assms(2) by simp
qed

lemma last_sent_events:
  "(\<forall>x. Sent h x \<notin> set es) \<Longrightarrow> map_of (last_sent (fold apply_event es s)) h = map_of (last_sent s) h"
proof (induction es arbitrary: s)
  case (Cons e es)
  have "map_of (last_sent (apply_event e s)) h = map_of (last_sent s) h"
    using Cons.prems
    by (cases e) (auto simp: remember_host_gap_def clear_host_gap_def mark_host_sent_def ensure_free_pacing_def Let_def update_conv'
        split: seconds.split)
  then show ?case using Cons by simp
qed simp

text \<open>C8: While other clients remember, clear and send at any moment between the steps of a request, the request goes out
  no earlier than the gap in force for its host after the last request of this host that had been noted when its wait
  began, and for a free model no earlier than three seconds after it; so when no other client notes a request to the host
  during the wait, that is the last request before it. The request is noted in its turn. (A request that another client
  notes during the wait is not waited for.)\<close>

theorem requests_are_spaced:
  assumes "send_request host model es1 now stop start turns es2 after s = (SentAt t, s')"
    and "now \<le> start" and "0 \<le> after" and "host \<noteq> []"
  defines "key \<equiv> pacing_key host model"
    and "seen \<equiv> fold apply_event es1 (snd (ensure_free_pacing host model s))"
  shows "(\<forall>t0. map_of (last_sent seen) key = Some t0 \<longrightarrow>
        (t0 + gap_of seen key \<le> t \<or> gap_of seen key \<le> 0) \<and> (is_free_model model \<longrightarrow> t0 + 3 \<le> t))
    \<and> ((\<forall>x. Sent key x \<notin> set es2) \<longrightarrow>
        map_of (last_sent (fold apply_event es2 seen)) key = map_of (last_sent seen) key)
    \<and> map_of (last_sent s') key = Some t"
proof (intro conjI allI impI)
  have k: "key \<noteq> []" using assms(4) by (simp add: key_def pacing_key_def)
  obtain t1 where t1: "wait_host_gap key now stop start turns seen = Some (True, t1)" "t = t1 + after"
    "s' = mark_host_sent key t (fold apply_event es2 seen)"
    using assms(1) by (auto simp: key_def seen_def send_request_def ensure_free_pacing_def Let_def
        split: option.splits prod.splits bool.splits)
  show "map_of (last_sent s') key = Some t" using k by (simp add: t1(3) mark_host_sent_def update_conv')
  show "map_of (last_sent (fold apply_event es2 seen)) key = map_of (last_sent seen) key" if "\<forall>x. Sent key x \<notin> set es2"
    by (rule last_sent_events [OF that])
  fix t0 assume t0: "map_of (last_sent seen) key = Some t0"
  show w: "t0 + gap_of seen key \<le> t \<or> gap_of seen key \<le> 0"
    using waited_out [OF t1(1) assms(2) k t0] assms(3) t1(2) by auto
  assume free: "is_free_model model"
  then have "suffix (u '':free'') key" using assms(4) by (simp add: key_def pacing_key_def suffix_def)
  moreover have "free_min_gap \<le> gap_of (snd (ensure_free_pacing host model s)) key"
    using free k by (simp add: gap_of_ensure key_def)
  ultimately have "3 \<le> gap_of seen key" unfolding seen_def using free_floor_kept by (fastforce simp: free_min_gap_def)
  then show "t0 + 3 \<le> t" using w by simp
qed

theorem requests_are_spaced_witness:
  "2 + 3 \<le> (5 :: rat) \<and> fst (send_request (u ''h'') (Some (u ''m:free'')) [Clear (u ''h:free'')] 3 False 3
      [(False, 3, False), (False, 5, False)] [] 0 \<lparr>gaps = [], last_sent = [(u ''h:free'', 2)]\<rparr>) = SentAt 5"
proof -
  have free: "is_free_model (Some (u ''m:free''))"
    by (simp add: is_free_model_def strip_def lstrip_def rstrip_def is_space_def u_def suffix_def)
  have "pacing_key (u ''h'') (Some (u ''m:free'')) = u ''h'' @ u '':free''"
    unfolding pacing_key_def using free by simp
  then have key: "pacing_key (u ''h'') (Some (u ''m:free'')) = u ''h:free''" by (simp add: u_def)
  let ?s = "\<lparr>gaps = [], last_sent = [(u ''h:free'', 2)]\<rparr>"
  have seen: "fold apply_event [Clear (u ''h:free'')] (snd (ensure_free_pacing (u ''h'') (Some (u ''m:free'')) ?s))
      = \<lparr>gaps = [(u ''h:free'', 3)], last_sent = [(u ''h:free'', 2)]\<rparr>"
    unfolding ensure_free_pacing_def key Let_def using free
    by (simp add: remember_host_gap_def gap_of_def free_min_gap_def retry_max_delay_def clear_host_gap_def suffix_def u_def)
  have sent: "send_request (u ''h'') (Some (u ''m:free'')) [Clear (u ''h:free'')] 3 False 3
      [(False, 3, False), (False, 5, False)] [] 0 ?s = (SentAt 5, \<lparr>gaps = [(u ''h:free'', 3)], last_sent = [(u ''h:free'', 5)]\<rparr>)"
    using seen by (simp add: send_request_def split_beta ensure_free_pacing_def key gap_of_def
        wait_host_gap_def remaining_host_gap_def wait_abortable_def mark_host_sent_def wait_chunk_def Let_def)
  from requests_are_spaced [OF this] show ?thesis using free sent by (simp add: key seen)
qed

text \<open>No gap is ever above thirty seconds, and once a request for a free model has been prepared its gap stays at
  least three seconds, whatever is remembered and cleared for any host.\<close>

theorem gaps_stay_in_bounds:
  assumes "host \<noteq> []" and "is_free_model model"
  shows "0 \<le> gap_of (fold apply_event es \<lparr>gaps = [], last_sent = []\<rparr>) h \<and> gap_of (fold apply_event es \<lparr>gaps = [], last_sent = []\<rparr>) h \<le> 30
    \<and> 3 \<le> gap_of (fold apply_event (es @ Ensure host model # es') \<lparr>gaps = [], last_sent = []\<rparr>) (pacing_key host model)"
proof -
  let ?s = "\<lparr>gaps = [], last_sent = []\<rparr>"
  have "free_min_gap \<le> gap_of (fold apply_event es' (snd (ensure_free_pacing host model (fold apply_event es ?s)))) (pacing_key host model)"
    using assms by (intro free_floor_kept) (simp_all add: gap_of_ensure pacing_key_def suffix_def)
  moreover have "0 \<le> gap_of ?s h \<and> gap_of ?s h \<le> retry_max_delay" by (simp add: gap_of_def retry_max_delay_def)
  ultimately show ?thesis using gap_range [of ?s h es] by (simp add: free_min_gap_def retry_max_delay_def)
qed

theorem gaps_stay_in_bounds_witness:
  "3 \<le> gap_of (fold apply_event [Ensure (u ''h'') (Some (u ''openrouter/free'')), Clear (u ''h:free'')] \<lparr>gaps = [], last_sent = []\<rparr>)
     (pacing_key (u ''h'') (Some (u ''openrouter/free'')))"
proof -
  have "is_free_model (Some (u ''openrouter/free''))"
    by (simp add: is_free_model_def strip_def lstrip_def rstrip_def is_space_def u_def)
  from gaps_stay_in_bounds [OF _ this, of "u ''h''" "[]" _ "[Clear (u ''h:free'')]"] show ?thesis by (simp add: u_def)
qed

text \<open>After a connection error of a request for a free model the delay is remembered for the host itself: requests for paid
  models wait for it, requests for free ones do not, and no later success of a free one clears it.\<close>

theorem connection_error_slows_paid_requests:
  assumes "host \<noteq> []" and "is_free_model model"
    and "connection_error host False (Suc n) False attempt rng s = (RetryAfter d, s')"
  shows "d \<le> gap_of s' (pacing_key host None) \<and> gap_of s' (pacing_key host model) = gap_of s (pacing_key host model)
    \<and> gap_of (clear_host_gap (pacing_key host model) s') (pacing_key host None) = gap_of s' (pacing_key host None)"
proof -
  have key: "pacing_key host None = host" "pacing_key host model = host @ u '':free''"
    using assms(1,2) by (simp_all add: pacing_key_def is_free_model_def)
  have "host @ u '':free'' \<noteq> host" by simp
  moreover have "3 / 10 \<le> d \<and> d \<le> 30"
    using assms(3) backoff_within [of retry_min_delay retry_max_delay attempt None Full rng]
    by (auto simp: connection_error_def Let_def retry_min_delay_def retry_max_delay_def)
  ultimately show ?thesis
    using assms(1,3) by (auto simp: key connection_error_def Let_def gap_of_remember gap_of_clear retry_max_delay_def)
qed

text \<open>The wait and the note of the send are two steps: two clients that ask before either has sent both pass.\<close>

lemma two_clients_pass:
  "map_of (last_sent s) h = Some t0 \<Longrightarrow> t0 + gap_of s h \<le> now \<Longrightarrow> now \<le> now' \<Longrightarrow>
     wait_host_gap h now stop1 start1 turns1 s = Some (True, now) \<and> wait_host_gap h now' stop2 start2 turns2 s = Some (True, now')"
  by (simp add: wait_host_gap_def remaining_host_gap_def)

lemma public_host_verified: "\<not> is_local host \<Longrightarrow> scheme = u ''https'' \<Longrightarrow> ssl_mode_for is_local fallback scheme host = Verified"
  by (simp add: ssl_mode_for_def)

lemma fallback_local: "\<forall>h \<in> set fallback. is_local h \<Longrightarrow> enable_if_applicable is_local host err fallback = (b, fallback') \<Longrightarrow> \<forall>h \<in> set fallback'. is_local h"
  by (auto simp: enable_if_applicable_def split: if_splits)

end
