(* ===== verification/Spec2Isabelle.thy ===== *)
theory Spec2Isabelle
  imports SendButton AudioRecorder McpRequest Tunnel SendHandler ToolLoop StreamDrain ToolDrive
    GrammarQueue CellAddress WordDiff PersianScript SheetIngest MainQueue SendScope WirePack LlmStream
    WorkerProtocol EventBus SentenceCache SentenceSpans ProofErrors HostPacing
begin

text \<open>
  A verification development of the core logic of WriterAgent with its Persian layer
  (\<open>src/plugin\<close>), a LibreOffice extension.

  \<^bold>\<open>The program.\<close> The sidebar sends a document and a question to a language model, streams the answer
  into the panel, runs the tool calls the model asks for and sends their results back until the
  model is done. Around it stand a recorder for spoken questions, a server that offers the tools
  to other programs and a tunnel to it, a queue of sentences for grammar checking with a cache of
  results, the Python formulas of spreadsheets with the import of whole sheets, warm Python
  processes that run formulas and scripts and call tools of the host, and scripts whose results
  are inserted into the document; the Persian scripts return lists of replacements, which are
  applied as tracked changes to the selection. The state machines of the program are pure
  functions from a state and an event to a state and a list of effects, which an interpreter
  performs; threads meet in queues, locks and an executor on the main thread; the rest is plain
  string, list and byte processing.

  \<^bold>\<open>Foundations.\<close>

  \<^item> \<open>Prelude\<close>: lists, slices and dicts (the locale \<open>key_store\<close>, interpreted on association
    lists); \<open>PyStr\<close>: Python strings as code points with \<open>find\<close>, \<open>replace\<close>, \<open>strip\<close>,
    \<open>split\<close>, \<open>join\<close> and decimal numbers; \<open>PyRegex\<close>: the patterns of \<open>re\<close> by the ordered list of
    their match ends; \<open>PyVal\<close>: the values of JSON payloads; \<open>PyDouble\<close>: IEEE doubles by their bits,
    bytes and \<open>struct\<close>; \<open>Fsm\<close>: transition functions with effects, their runs, and the locales for
    invariants along runs and interleavings (\<open>framework/service.py\<close>).

  \<^bold>\<open>Conversation.\<close>

  \<^item> \<open>SendButton\<close> (\<open>chatbot/send_state.py\<close>), \<open>AudioRecorder\<close>
    (\<open>chatbot/audio_recorder_state.py\<close>), \<open>McpRequest\<close> (\<open>mcp/mcp_state.py\<close>), \<open>Tunnel\<close>
    (\<open>mcp/tunnel_state.py\<close>), \<open>SendHandler\<close> (\<open>chatbot/state_machine.py\<close>): one definition per event
    handler, one \<open>next_state\<close> per machine. Shown are the invariants of every run, what may follow
    Stop, the retry budget and the backoff of the tunnel, and that the effects of the recorder
    never call its device out of order.
  \<^item> \<open>ToolLoop\<close> (\<open>chatbot/tool_loop_state.py\<close>): the state machine of a conversation round. Every
    event has one control effect, the rounds are numbered up to the limit, tool calls are
    neither lost nor reordered.
  \<^item> \<open>StreamDrain\<close> (\<open>framework/async_stream.py\<close>): the batcher in front of the stream queue and the
    drain loop behind it. The loop tells the panel the end once, and what it shows depends on the
    items alone (a refinement of the transcript, through the locale \<open>drain_contract\<close>).
  \<^item> \<open>ToolDrive\<close> (\<open>chatbot/tool_loop.py\<close>, \<open>tool_loop_actions.py\<close>): the driver that composes the
    two, as an interleaving of queue items, workers, the refusal of a web search and Stop.
  \<^item> \<open>StreamText\<close> (\<open>framework/client/stream_normalizer.py\<close>, \<open>html_stripper.py\<close>: thoughts in tags and the
    stripper of HTML), \<open>StreamMessage\<close> (deltas joined to a
    message with its tool calls), \<open>LlmStream\<close> (\<open>framework/client/llm_client.py\<close>: event lines, chunks,
    the streaming loop with its attempts). What is shown does not depend on how the text is cut
    (the locale \<open>chunk_machine\<close>), what is stored is what was shown but for leaked control tokens and what a parser of
    tool calls takes out, and tool calls are put together whole.
  \<^item> \<open>HostPacing\<close> (\<open>framework/client/request_controls.py\<close>, \<open>http_transport.py\<close>): backoff, abortable
    waits and the gaps between requests to a host, with what other clients do between the steps of a request.
  \<^item> \<open>SendScope\<close> (\<open>framework/queue_executor.py\<close>, \<open>async_drain_guard.py\<close>): cancellation of a send, the lane
    and the gate of the clients, the owner of the drain loop, and the routes of a call.

  \<^bold>\<open>Threads and processes.\<close>

  \<^item> \<open>MainQueue\<close> (\<open>framework/queue_executor.py\<close>): the executor on the main thread as interleaved steps:
    whoever was told of a timeout never has its function started, everybody is answered.
  \<^item> \<open>EventBus\<close> (\<open>framework/event_bus.py\<close>): emits tell the subscribers they found and end.
  \<^item> \<open>IpcFrame\<close> (\<open>scripting/ipc.py\<close>), \<open>WorkerCall\<close> and \<open>WorkerProtocol\<close> (\<open>scripting/venv_worker.py\<close>,
    \<open>host_rpc.py\<close>): frames on pipes read in pieces under a deadline, calls of a warm Python process
    with the tools it may call, its heartbeats and its replacement after a failure. Responses
    match requests, only permitted tools run, a call that came too late is never retried; two theorems show how a
    failure repeats tool calls or shifts responses.
  \<^item> \<open>GridCodec\<close>, \<open>WirePack\<close> (\<open>scripting/payload_codec.py\<close>): tables and ranges on their way to and from
    that process, down to the bits of the numbers; the arrays the process makes of them are not modelled.

  \<^bold>\<open>Documents.\<close>

  \<^item> \<open>GrammarQueue\<close> (\<open>writer/locale/grammar_work_queue.py\<close>): enqueueing, batching, superseding
    and the stale check of sentences to be checked, as an interleaving of clients and worker.
    \<open>SentenceCache\<close> (\<open>grammar_proofread_cache.py\<close>, \<open>grammar_persistence.py\<close>): the results of checked
    sentences in the session and with the document. \<open>SentenceSpans\<close> and \<open>ProofErrors\<close>
    (\<open>grammar_proofread_text.py\<close>, \<open>grammar_proofread_locale.py\<close>): the sentences of a paragraph, which
    tile it whatever the break iterator answers, those to check, and the marks of the errors,
    which lie in the text and never overlap; a theorem shows that a script without listed vowels
    is never split at a period.
  \<^item> \<open>CellAddress\<close> (\<open>calc/address_utils.py\<close>): columns, cell and range addresses, sheet prefixes;
    \<open>SheetGraph\<close>, \<open>PyFormula\<close>, \<open>SheetIngest\<close> (\<open>calc/spreadsheet_import\<close>, \<open>calc/python\<close>): the
    dependencies of formulas and their order, the text of Python formulas, the import of a sheet.
  \<^item> \<open>WordDiff\<close> (\<open>writer/word_diff_split.py\<close>): the sub-edits of a tracked change and their
    application, with \<open>difflib.SequenceMatcher\<close>.
  \<^item> \<open>PersianNormalize\<close>, \<open>PersianSpelling\<close>, \<open>TrackedReplace\<close> (\<open>persian/\<close>): protected regions with
    the regular expressions of the source, the finders of changes, the dictionary files, and the
    application of changes to the selection. \<open>ScriptResult\<close> (\<open>scripting/python_runner.py\<close>): where a
    script result goes in Writer. \<open>PersianScript\<close> composes them: a run of a Persian script on a
    selection.

  This theory only imports the others.

  \<^bold>\<open>State and errors.\<close> A class of the source is a record, an enumeration or union a datatype; a
  handler returns the new state and its effects. Raised exceptions are values of a sum or option
  type or constructors of a result. Threads are interleavings: a step takes one item, one worker
  action or one user action; a process or a pipe is the list of what its reader observes of it.
  Strings are lists of code points, positions are natural numbers, Python integers are
  \<open>int\<close> or \<open>nat\<close>; bytes and doubles are words, other floats are rationals. A document is its text
  with a selection given by two positions, as the cursor functions present it when deleted text
  leaves the document.

  \<^bold>\<open>Bounds.\<close> Loops are structural or have a measure (\<open>finditer_from\<close>, \<open>star_ends\<close>, \<open>replace_all\<close>,
  \<open>occurrences\<close>, \<open>matching_blocks\<close>, the graph and codec loops, the splitters of streamed text, the
  frames of a worker), and loops that wait for items consume a finite list of them. The only fuel
  is the nesting of emits in \<open>EventBus\<close>: \<open>emit_returns\<close> shows that one more than the number of events is
  enough. The bounds of the code are kept: three attempts of a request, two of a call of a
  worker, twenty repeated chunks, 256 characters held back, 2048 cached sentences, 16 MiB frames, the C integers of
  the compiled flattening.

  \<^bold>\<open>Arguments of the model.\<close> The language model and its client, LibreOffice (when a call raises,
  what text an HTML import inserts, the arrays of a range), the clock, random numbers, the Hazm
  normaliser, the parsers of tool calls in a text, the Unicode database (word characters, digits, letters), break iterators and word
  boundaries, the tables of sentence terminators and abbreviations, \<open>pickle\<close>, \<open>json\<close>, hashing, \<open>float\<close> and \<open>repr\<close> of values, NumPy values, and what a tool or a
  subscriber does.

  \<^bold>\<open>Not modelled.\<close> The UNO and dialog code, sockets and the shims of the other providers, vendored
  packages (\<open>contrib\<close>), vision, embeddings, agents, the notebook and presentation importers, drawing
  and charts, and the analysis helpers and sandbox of the Python process, which are glue around
  libraries; logging; the Windows readers of pipes; the event pump of the stream. Writing a file is
  one step that happens or raises when the file is opened.
\<close>

end
